(* ===== verification/GrowArray.thy ===== *)
theory GrowArray
  imports Prelude
begin

text \<open>
  The growable arrays of BRArray.h. An array is the block of \<open>capacity\<close> cells behind the
  pointer together with the element count stored in front of it; \<open>z\<close> is the element whose
  bytes are all zero, which \<open>calloc\<close> and \<open>memset\<close> store. A failed \<open>assert\<close> is \<open>None\<close>.
  Allocation never fails in the model.

  The abstract view is the list of the first \<open>count\<close> cells (\<open>contents\<close>); every macro is
  shown to implement the list operation of its name, and to keep the cells behind the
  last element zeroed, on which \<open>array_set_count\<close> and its callers rely.
\<close>

record 'a br_array =
  cells :: "'a list"
  count :: nat

definition array_capacity :: "'a br_array \<Rightarrow> nat" where
  "array_capacity a = length (cells a)"

definition array_new :: "'a \<Rightarrow> nat \<Rightarrow> 'a br_array" where
  "array_new z cap = \<lparr>cells = replicate cap z, count = 0\<rparr>"

text \<open>\<open>memset\<close> of \<open>n\<close> cells from index \<open>i\<close>.\<close>

definition zero_cells :: "'a \<Rightarrow> nat \<Rightarrow> nat \<Rightarrow> 'a list \<Rightarrow> 'a list" where
  "zero_cells z i n xs = take i xs @ replicate n z @ drop (i + n) xs"

definition array_set_capacity :: "'a \<Rightarrow> nat \<Rightarrow> 'a br_array \<Rightarrow> 'a br_array option" where
  "array_set_capacity z cap a =
     (if count a \<le> cap
      then Some (a\<lparr>cells := (if array_capacity a < cap
                             then cells a @ replicate (cap - array_capacity a) z
                             else take cap (cells a))\<rparr>)
      else None)"

definition array_set_count :: "'a \<Rightarrow> nat \<Rightarrow> 'a br_array \<Rightarrow> 'a br_array option" where
  "array_set_count z cnt a =
     (case (if array_capacity a < cnt then array_set_capacity z cnt a else Some a) of
        None \<Rightarrow> None
      | Some b \<Rightarrow> Some (b\<lparr>cells := (if cnt < count b
                                     then zero_cells z cnt (count b - cnt) (cells b) else cells b),
                          count := cnt\<rparr>))"

definition array_add :: "'a \<Rightarrow> 'a \<Rightarrow> 'a br_array \<Rightarrow> 'a br_array option" where
  "array_add z item a =
     (case (if array_capacity a < count a + 1
            then array_set_capacity z ((array_capacity a + 1) * 3 div 2) a else Some a) of
        None \<Rightarrow> None
      | Some b \<Rightarrow> Some (b\<lparr>cells := (cells b)[count b := item], count := count b + 1\<rparr>))"

text \<open>The copy loop of \<open>array_add_array\<close>: \<open>array[i++] = other[j++]\<close>.\<close>

fun copy_from :: "nat \<Rightarrow> 'a list \<Rightarrow> 'a list \<Rightarrow> 'a list" where
  "copy_from i [] xs = xs"
| "copy_from i (y # ys) xs = copy_from (Suc i) ys (xs[i := y])"

definition array_add_array :: "'a \<Rightarrow> 'a list \<Rightarrow> nat \<Rightarrow> 'a br_array \<Rightarrow> 'a br_array option" where
  "array_add_array z other cnt a =
     (case (if array_capacity a < count a + cnt
            then array_set_capacity z ((count a + cnt) * 3 div 2) a else Some a) of
        None \<Rightarrow> None
      | Some b \<Rightarrow> Some (b\<lparr>cells := copy_from (count a) (take cnt other) (cells b),
                          count := count b + cnt\<rparr>))"

text \<open>\<open>while (--i > idx) array[i] = array[i - 1]\<close>, started at \<open>i\<close> one past the last cell.\<close>

fun shift_up :: "nat \<Rightarrow> nat \<Rightarrow> 'a list \<Rightarrow> 'a list" where
  "shift_up idx 0 xs = xs"
| "shift_up idx (Suc i) xs = (if idx < i then shift_up idx i (xs[i := xs ! (i - 1)]) else xs)"

definition array_insert :: "'a \<Rightarrow> nat \<Rightarrow> 'a \<Rightarrow> 'a br_array \<Rightarrow> 'a br_array option" where
  "array_insert z idx item a0 =
     (let a = a0\<lparr>count := count a0 + 1\<rparr>; i = count a
      in if \<not> idx < count a then None
         else case (if array_capacity a < i
                    then array_set_capacity z ((array_capacity a + 1) * 3 div 2) a else Some a) of
                None \<Rightarrow> None
              | Some b \<Rightarrow> Some (b\<lparr>cells := (shift_up idx i (cells b))[idx := item]\<rparr>))"

text \<open>\<open>while (i-- > idx + cnt) array[i] = array[i - cnt]\<close>.\<close>

fun shift_up_by :: "nat \<Rightarrow> nat \<Rightarrow> nat \<Rightarrow> 'a list \<Rightarrow> 'a list" where
  "shift_up_by idx cnt 0 xs = xs"
| "shift_up_by idx cnt (Suc i) xs =
     (if idx + cnt < Suc i then shift_up_by idx cnt i (xs[i := xs ! (i - cnt)]) else xs)"

definition array_insert_array ::
  "'a \<Rightarrow> nat \<Rightarrow> 'a list \<Rightarrow> nat \<Rightarrow> 'a br_array \<Rightarrow> 'a br_array option" where
  "array_insert_array z idx other cnt a =
     (let i = count a + cnt
      in if \<not> idx \<le> count a then None
         else case (if array_capacity a < i then array_set_capacity z (i * 3 div 2) a else Some a) of
                None \<Rightarrow> None
              | Some b \<Rightarrow> Some (b\<lparr>cells := copy_from idx (take cnt other) (shift_up_by idx cnt i (cells b)),
                                  count := count b + cnt\<rparr>))"

text \<open>\<open>while (i < count) array[i] = array[i + len], i++\<close>.\<close>

function shift_down :: "nat \<Rightarrow> nat \<Rightarrow> nat \<Rightarrow> 'a list \<Rightarrow> 'a list" where
  "shift_down len i cnt xs =
     (if i < cnt then shift_down len (Suc i) cnt (xs[i := xs ! (i + len)]) else xs)"
  by pat_completeness auto
termination
  by (relation "measure (\<lambda>(len, i, cnt, xs). cnt - i)") auto

definition array_rm :: "'a \<Rightarrow> nat \<Rightarrow> 'a br_array \<Rightarrow> 'a br_array option" where
  "array_rm z i a =
     (if \<not> i < count a then None
      else let c = count a - 1
           in Some (a\<lparr>cells := zero_cells z (max i c) 1 (shift_down 1 i c (cells a)), count := c\<rparr>))"

definition array_rm_last :: "'a \<Rightarrow> 'a br_array \<Rightarrow> 'a br_array" where
  "array_rm_last z a =
     (if 0 < count a
      then a\<lparr>cells := zero_cells z (count a - 1) 1 (cells a), count := count a - 1\<rparr> else a)"

definition array_rm_range :: "'a \<Rightarrow> nat \<Rightarrow> nat \<Rightarrow> 'a br_array \<Rightarrow> 'a br_array option" where
  "array_rm_range z i len a =
     (if \<not> i < count a \<or> \<not> i + len \<le> count a then None
      else let c = count a - len
           in Some (a\<lparr>cells := zero_cells z (max i c) len (shift_down len i c (cells a)), count := c\<rparr>))"

definition array_clear :: "'a \<Rightarrow> 'a br_array \<Rightarrow> 'a br_array" where
  "array_clear z a = a\<lparr>cells := zero_cells z 0 (count a) (cells a), count := 0\<rparr>"

section \<open>The abstract list and the invariant\<close>

definition contents :: "'a br_array \<Rightarrow> 'a list" where
  "contents a = take (count a) (cells a)"

definition array_ok :: "'a \<Rightarrow> 'a br_array \<Rightarrow> bool" where
  "array_ok z a \<longleftrightarrow> count a \<le> array_capacity a \<and>
     drop (count a) (cells a) = replicate (array_capacity a - count a) z"

section \<open>The loops\<close>

declare shift_down.simps [simp del]

lemma length_zero_cells [simp]: "i + n \<le> length xs \<Longrightarrow> length (zero_cells z i n xs) = length xs"
  by (simp add: zero_cells_def)

lemma length_copy_from [simp]: "length (copy_from i ys xs) = length xs"
  by (induction i ys xs rule: copy_from.induct) simp_all

lemma copy_from_eq:
  "i + length ys \<le> length xs \<Longrightarrow> copy_from i ys xs = take i xs @ ys @ drop (i + length ys) xs"
proof (induction i ys xs rule: copy_from.induct)
  case (2 i y ys xs)
  then show ?case
    by (simp add: upd_conv_take_nth_drop add.commute)
qed simp

lemma length_shift_up [simp]: "length (shift_up idx n xs) = length xs"
  by (induction idx n xs rule: shift_up.induct) simp_all

lemma nth_shift_up:
  "n \<le> length xs \<Longrightarrow> shift_up idx n xs ! k = (if idx < k \<and> k < n then xs ! (k - 1) else xs ! k)"
  by (induction idx n xs rule: shift_up.induct) (auto simp: nth_list_update less_Suc_eq)

lemma length_shift_up_by [simp]: "length (shift_up_by idx cnt n xs) = length xs"
  by (induction idx cnt n xs rule: shift_up_by.induct) simp_all

lemma nth_shift_up_by:
  "n \<le> length xs \<Longrightarrow>
     shift_up_by idx cnt n xs ! k = (if idx + cnt \<le> k \<and> k < n then xs ! (k - cnt) else xs ! k)"
  by (induction idx cnt n xs rule: shift_up_by.induct) (auto simp: nth_list_update less_Suc_eq)

lemma length_shift_down [simp]: "length (shift_down len i cnt xs) = length xs"
  by (induction len i cnt xs rule: shift_down.induct) (subst shift_down.simps, simp)

lemma nth_shift_down:
  "cnt + len \<le> length xs \<Longrightarrow>
     shift_down len i cnt xs ! k = (if i \<le> k \<and> k < cnt then xs ! (k + len) else xs ! k)"
proof (induction len i cnt xs rule: shift_down.induct)
  case (1 len i cnt xs)
  show ?case
  proof (cases "i < cnt")
    case True
    with 1 have "shift_down len (Suc i) cnt (xs[i := xs ! (i + len)]) ! k =
        (if Suc i \<le> k \<and> k < cnt then xs[i := xs ! (i + len)] ! (k + len) else xs[i := xs ! (i + len)] ! k)"
      by simp
    with True 1(2) show ?thesis
      by (auto simp: shift_down.simps [of len i cnt xs] nth_list_update)
  next
    case False
    then show ?thesis by (auto simp: shift_down.simps [of len i cnt xs])
  qed
qed

lemma shift_up_insert:
  assumes "idx < n" "n \<le> length xs"
  shows "(shift_up idx n xs)[idx := x] = take idx xs @ x # take (n - 1 - idx) (drop idx xs) @ drop n xs"
    (is "?l = ?r")
proof (rule nth_equalityI)
  show "length ?l = length ?r" using assms by simp
next
  fix k assume "k < length ?l"
  with assms show "?l ! k = ?r ! k"
    by (auto simp: nth_list_update nth_shift_up nth_append nth_Cons' min_def)
qed

lemma shift_up_by_insert:
  assumes "idx + cnt \<le> n" "n \<le> length xs" "length ys = cnt"
  shows "copy_from idx ys (shift_up_by idx cnt n xs)
    = take idx xs @ ys @ take (n - cnt - idx) (drop idx xs) @ drop n xs" (is "?l = ?r")
proof (rule nth_equalityI)
  show "length ?l = length ?r" using assms by simp
next
  fix k assume "k < length ?l"
  with assms show "?l ! k = ?r ! k"
    by (auto simp: copy_from_eq nth_append nth_shift_up_by min_def algebra_simps)
qed

lemma shift_down_remove:
  assumes "i \<le> c" "c + len \<le> length xs"
  shows "shift_down len i c xs = take i xs @ take (c - i) (drop (i + len) xs) @ drop c xs" (is "?l = ?r")
proof (rule nth_equalityI)
  show "length ?l = length ?r" using assms by simp
next
  fix k assume "k < length ?l"
  have l: "length (take (c - i) (drop (i + len) xs)) = c - i" "length (take i xs) = i" using assms by simp_all
  have "?r ! k = (if k < i then take i xs ! k else if k - i < c - i
      then take (c - i) (drop (i + len) xs) ! (k - i) else drop c xs ! (k - i - (c - i)))"
    by (simp only: nth_append l)
  then show "?l ! k = ?r ! k"
    using assms by (auto simp: nth_shift_down add.commute)
qed

section \<open>The macros implement the list operations\<close>

text \<open>A well-formed array is its contents followed by zeroed cells.\<close>

lemma array_okI: "cells a = xs @ replicate n z \<Longrightarrow> count a = length xs \<Longrightarrow> array_ok z a \<and> contents a = xs"
  by (simp add: array_ok_def contents_def array_capacity_def)

lemma array_okE:
  assumes "array_ok z a"
  obtains n where "cells a = contents a @ replicate n z" "count a = length (contents a)"
    "array_capacity a = length (contents a) + n"
proof
  let ?n = "array_capacity a - count a"
  show "cells a = contents a @ replicate ?n z"
    using assms by (simp add: array_ok_def contents_def) (metis append_take_drop_id)
  show c: "count a = length (contents a)"
    using assms by (simp add: array_ok_def contents_def array_capacity_def)
  show "array_capacity a = length (contents a) + ?n"
    using assms c by (simp add: array_ok_def)
qed

lemma array_new_ok: "array_ok z (array_new z cap) \<and> contents (array_new z cap) = []"
  by (rule array_okI [of _ _ cap]) (simp_all add: array_new_def)

lemma array_set_capacity_ok:
  assumes "array_ok z a" "length (contents a) \<le> cap"
  shows "\<exists>b. array_set_capacity z cap a = Some b \<and> array_ok z b \<and> contents b = contents a
     \<and> count b = count a \<and> array_capacity b = cap"
proof -
  obtain n where n: "cells a = contents a @ replicate n z" "count a = length (contents a)"
    "array_capacity a = length (contents a) + n"
    using assms(1) by (rule array_okE)
  define b where "b = a\<lparr>cells := (if array_capacity a < cap
      then cells a @ replicate (cap - array_capacity a) z else take cap (cells a))\<rparr>"
  have "cells b = contents a @ replicate (cap - count a) z"
    using n assms(2) by (auto simp: b_def replicate_add [symmetric])
  moreover have "count b = length (contents a)" using n by (simp add: b_def)
  ultimately have "array_ok z b \<and> contents b = contents a" by (rule array_okI)
  moreover have "array_set_capacity z cap a = Some b"
    using n assms(2) by (simp add: array_set_capacity_def b_def)
  moreover have "array_capacity b = cap"
    using n assms(2) by (simp add: b_def array_capacity_def)
  ultimately show ?thesis using n by (auto simp: b_def)
qed

text \<open>Room for \<open>m\<close> elements, as every growing macro makes it.\<close>

lemma array_reserve:
  assumes "array_ok z a" "array_capacity a < m \<Longrightarrow> m \<le> cap" "count a \<le> m"
  shows "\<exists>b n. (if array_capacity a < m then array_set_capacity z cap a else Some a) = Some b
     \<and> cells b = contents a @ replicate n z \<and> count b = length (contents a) \<and> m \<le> length (contents a) + n"
proof (cases "array_capacity a < m")
  case True
  have "count a = length (contents a)" using assms(1) by (rule array_okE)
  then have "length (contents a) \<le> cap" using True assms by simp
  then obtain b where b: "array_set_capacity z cap a = Some b" "array_ok z b"
    "contents b = contents a" "array_capacity b = cap"
    using array_set_capacity_ok [OF assms(1)] by blast
  obtain n where "cells b = contents b @ replicate n z" "count b = length (contents b)"
    "array_capacity b = length (contents b) + n"
    using b(2) by (rule array_okE)
  with b True assms(2) show ?thesis by auto
next
  case False
  obtain n where "cells a = contents a @ replicate n z" "count a = length (contents a)"
    "array_capacity a = length (contents a) + n"
    using assms(1) by (rule array_okE)
  with False show ?thesis by auto
qed

definition implements :: "'a \<Rightarrow> 'a br_array option \<Rightarrow> 'a list \<Rightarrow> bool" where
  "implements z r xs \<longleftrightarrow> (\<exists>b. r = Some b \<and> array_ok z b \<and> contents b = xs)"

lemma implementsI: "cells b = xs @ replicate n z \<Longrightarrow> count b = length xs \<Longrightarrow> implements z (Some b) xs"
  using array_okI [of b xs n z] by (auto simp: implements_def)

lemma array_reserveE:
  assumes "array_ok z a" "array_capacity a < count a + m \<Longrightarrow> count a + m \<le> cap"
  obtains b n where
    "(if array_capacity a < count a + m then array_set_capacity z cap a else Some a) = Some b"
    "cells b = contents a @ replicate n z" "count b = length (contents a)" "m \<le> n"
    "count a = length (contents a)"
proof -
  have c: "count a = length (contents a)" using assms(1) by (rule array_okE)
  have "\<exists>b n. (if array_capacity a < count a + m then array_set_capacity z cap a else Some a) = Some b
     \<and> cells b = contents a @ replicate n z \<and> count b = length (contents a)
     \<and> count a + m \<le> length (contents a) + n"
    by (rule array_reserve [OF assms]) auto
  with c that show thesis by auto
qed

lemma array_set_count_implements:
  assumes "array_ok z a"
  shows "implements z (array_set_count z cnt a)
    (take cnt (contents a) @ replicate (cnt - length (contents a)) z)"
proof -
  have c: "count a = length (contents a)" using assms by (rule array_okE)
  have ok: "count a \<le> max cnt (count a)" by simp
  show ?thesis
  proof (cases "cnt < count a")
    case True
    obtain n where n: "cells a = contents a @ replicate n z" "array_capacity a = length (contents a) + n"
      using assms by (rule array_okE)
    have "zero_cells z cnt (count a - cnt) (cells a)
        = take cnt (contents a) @ replicate (length (contents a) - cnt + n) z"
      using True n c by (simp add: zero_cells_def replicate_add [symmetric])
    with True n c show ?thesis
      by (auto simp: array_set_count_def intro!: implementsI)
  next
    case False
    with array_reserve [OF assms, of cnt cnt] obtain b n where
      b: "(if array_capacity a < cnt then array_set_capacity z cnt a else Some a) = Some b"
      "cells b = contents a @ replicate n z" "count b = length (contents a)" "cnt \<le> length (contents a) + n"
      by auto
    have "n = (cnt - length (contents a)) + (n - (cnt - length (contents a)))" using b(4) by simp
    then have "replicate n z = replicate (cnt - length (contents a)) z @ replicate (n - (cnt - length (contents a))) z"
      by (metis replicate_add)
    with b False c show ?thesis
      by (auto simp: array_set_count_def intro!: implementsI)
  qed
qed

lemma grow_one: "array_ok z a \<Longrightarrow> count a + 1 \<le> (array_capacity a + 1) * 3 div 2"
proof -
  assume "array_ok z a"
  then have "count a \<le> array_capacity a" by (simp add: array_ok_def)
  moreover have "c \<le> k \<Longrightarrow> c + 1 \<le> (k + 1) * 3 div 2" for c k :: nat by presburger
  ultimately show ?thesis by blast
qed

lemma array_add_implements:
  assumes "array_ok z a"
  shows "implements z (array_add z x a) (contents a @ [x])"
proof -
  from array_reserveE [OF assms grow_one [OF assms]] obtain b n where
    b: "(if array_capacity a < count a + 1 then array_set_capacity z ((array_capacity a + 1) * 3 div 2) a
         else Some a) = Some b"
    "cells b = contents a @ replicate n z" "count b = length (contents a)" "1 \<le> n"
    by blast
  then have "(cells b)[count b := x] = (contents a @ [x]) @ replicate (n - 1) z"
    by (cases n) (simp_all add: list_update_append)
  with b show ?thesis by (auto simp: array_add_def intro!: implementsI)
qed

lemma array_add_array_implements:
  assumes "array_ok z a" "cnt \<le> length ys"
  shows "implements z (array_add_array z ys cnt a) (contents a @ take cnt ys)"
proof -
  have g: "count a + cnt \<le> (count a + cnt) * 3 div 2" by simp
  from array_reserveE [OF assms(1) g] obtain b n where
    b: "(if array_capacity a < count a + cnt then array_set_capacity z ((count a + cnt) * 3 div 2) a
         else Some a) = Some b"
    "cells b = contents a @ replicate n z" "count b = length (contents a)" "cnt \<le> n"
    "count a = length (contents a)"
    by blast
  then have "copy_from (count a) (take cnt ys) (cells b) = (contents a @ take cnt ys) @ replicate (n - cnt) z"
    using assms(2) by (simp add: copy_from_eq)
  with b assms(2) show ?thesis by (auto simp: array_add_array_def intro!: implementsI)
qed

lemma array_insert_implements:
  assumes "array_ok z a" "idx \<le> length (contents a)"
  shows "implements z (array_insert z idx x a) (take idx (contents a) @ x # drop idx (contents a))"
proof -
  have c: "count a = length (contents a)" using assms(1) by (rule array_okE)
  let ?cap = "(array_capacity a + 1) * 3 div 2"
  let ?a1 = "a\<lparr>count := count a + 1\<rparr>"
  from array_reserveE [OF assms(1) grow_one [OF assms(1)]] obtain b n where
    b: "(if array_capacity a < count a + 1 then array_set_capacity z ?cap a else Some a) = Some b"
    "cells b = contents a @ replicate n z" "count b = length (contents a)" "1 \<le> n" by blast
  have "(if array_capacity ?a1 < count a + 1 then array_set_capacity z ?cap ?a1 else Some ?a1)
      = Some (b\<lparr>count := count a + 1\<rparr>)"
    using b(1) grow_one [OF assms(1)]
    by (auto simp: array_set_capacity_def array_capacity_def split: if_splits)
  moreover have "(shift_up idx (count a + 1) (cells b))[idx := x]
      = (take idx (contents a) @ x # drop idx (contents a)) @ replicate (n - 1) z"
    using b c assms(2) by (subst shift_up_insert) auto
  ultimately show ?thesis
    using b c assms(2) by (auto simp: array_insert_def Let_def array_capacity_def intro!: implementsI)
qed

lemma array_insert_array_implements:
  assumes "array_ok z a" "idx \<le> length (contents a)" "cnt \<le> length ys"
  shows "implements z (array_insert_array z idx ys cnt a)
    (take idx (contents a) @ take cnt ys @ drop idx (contents a))"
proof -
  have g: "count a + cnt \<le> (count a + cnt) * 3 div 2" by simp
  from array_reserveE [OF assms(1) g] obtain b n where
    b: "(if array_capacity a < count a + cnt then array_set_capacity z ((count a + cnt) * 3 div 2) a
         else Some a) = Some b"
    "cells b = contents a @ replicate n z" "count b = length (contents a)" "cnt \<le> n"
    "count a = length (contents a)" by blast
  have "copy_from idx (take cnt ys) (shift_up_by idx cnt (count a + cnt) (cells b))
      = (take idx (contents a) @ take cnt ys @ drop idx (contents a)) @ replicate (n - cnt) z"
    using b assms(2,3) by (subst shift_up_by_insert) auto
  with b assms(2,3) show ?thesis
    by (auto simp: array_insert_array_def Let_def intro!: implementsI)
qed

lemma array_rm_range_implements:
  assumes "array_ok z a" "i < length (contents a)" "i + len \<le> length (contents a)"
  shows "implements z (array_rm_range z i len a) (take i (contents a) @ drop (i + len) (contents a))"
proof -
  obtain n where n: "cells a = contents a @ replicate n z" "count a = length (contents a)"
    using assms(1) by (rule array_okE)
  let ?c = "count a - len"
  have "shift_down len i ?c (cells a)
      = (take i (contents a) @ drop (i + len) (contents a)) @ drop ?c (contents a) @ replicate n z"
    using n assms(2,3) by (subst shift_down_remove) (auto simp: min_def)
  then have "zero_cells z (max i ?c) len (shift_down len i ?c (cells a))
      = (take i (contents a) @ drop (i + len) (contents a)) @ replicate (len + n) z"
    using n assms(2,3) by (simp add: zero_cells_def max_absorb2 replicate_add)
  with n assms(2,3) show ?thesis
    by (auto simp: array_rm_range_def Let_def intro!: implementsI)
qed

lemma array_rm_eq_range: "array_rm z i a = (if i < count a then array_rm_range z i 1 a else None)"
  by (auto simp: array_rm_def array_rm_range_def)

lemma array_rm_implements:
  assumes "array_ok z a" "i < length (contents a)"
  shows "implements z (array_rm z i a) (take i (contents a) @ drop (i + 1) (contents a))"
proof -
  have "count a = length (contents a)" using assms(1) by (rule array_okE)
  then show ?thesis
    using array_rm_range_implements [OF assms, of 1] assms by (simp add: array_rm_eq_range)
qed

lemma array_rm_last_implements:
  assumes "array_ok z a"
  shows "implements z (Some (array_rm_last z a)) (butlast (contents a))"
proof (cases "contents a" rule: rev_cases)
  case Nil
  have "count a = length (contents a)" using assms by (rule array_okE)
  with Nil assms show ?thesis by (simp add: array_rm_last_def implements_def)
next
  case (snoc ys y)
  obtain n where n: "cells a = contents a @ replicate n z" "count a = length (contents a)"
    using assms by (rule array_okE)
  with snoc have "zero_cells z (count a - 1) 1 (cells a) = ys @ replicate (Suc n) z"
    by (simp add: zero_cells_def)
  with n snoc show ?thesis
    by (auto simp: array_rm_last_def intro!: implementsI [where n = "Suc n"])
qed

lemma array_clear_implements:
  assumes "array_ok z a"
  shows "implements z (Some (array_clear z a)) []"
proof -
  obtain n where n: "cells a = contents a @ replicate n z" "count a = length (contents a)"
    using assms by (rule array_okE)
  then have "zero_cells z 0 (count a) (cells a) = replicate (count a + n) z"
    by (simp add: zero_cells_def replicate_add)
  with n show ?thesis
    by (auto simp: array_clear_def intro!: implementsI [where n = "count a + n"])
qed

text \<open>A failed assertion: the index of an insertion or a removal is out of range.\<close>

lemma array_assert_fails:
  assumes "array_ok z a"
  shows "length (contents a) < idx \<Longrightarrow> array_insert z idx x a = None"
    and "length (contents a) < idx \<Longrightarrow> array_insert_array z idx ys cnt a = None"
    and "length (contents a) \<le> i \<Longrightarrow> array_rm z i a = None"
    and "length (contents a) < i + len \<Longrightarrow> array_rm_range z i len a = None"
proof -
  have "count a = length (contents a)" using assms by (rule array_okE)
  then show "length (contents a) < idx \<Longrightarrow> array_insert z idx x a = None"
    and "length (contents a) < idx \<Longrightarrow> array_insert_array z idx ys cnt a = None"
    and "length (contents a) \<le> i \<Longrightarrow> array_rm z i a = None"
    and "length (contents a) < i + len \<Longrightarrow> array_rm_range z i len a = None"
    by (auto simp: array_insert_def array_insert_array_def array_rm_def array_rm_range_def Let_def)
qed

section \<open>Properties\<close>

text \<open>
  On a well-formed array (its count within the capacity, the unused cells zero) the macros implement the list
  operations and keep it well-formed, growing the block when it is full: adding at the end,
  inserting inside (shifting cells up one by one) and removing a range (shifting down).
\<close>

theorem array_macros_implement_lists:
  assumes "array_ok z a" "idx \<le> length (contents a)" "i < length (contents a)" "i + len \<le> length (contents a)"
  shows "implements z (array_add z x a) (contents a @ [x]) \<and>
    implements z (array_insert z idx x a) (take idx (contents a) @ x # drop idx (contents a)) \<and>
    implements z (array_rm_range z i len a) (take i (contents a) @ drop (i + len) (contents a))"
  using array_add_implements [OF assms(1)] array_insert_implements [OF assms(1,2)]
    array_rm_range_implements [OF assms(1,3,4)] by blast

lemma array_macros_implement_lists_witness:
  "implements (0 :: nat) (array_insert 0 1 7 \<lparr>cells = [4, 5, 0], count = 2\<rparr>) [4, 7, 5]"
proof -
  have a: "array_ok (0 :: nat) \<lparr>cells = [4, 5, 0], count = 2\<rparr> \<and> contents \<lparr>cells = [4, 5, 0 :: nat], count = 2\<rparr> = [4, 5]"
    by (rule array_okI [of _ _ 1]) simp_all
  then show ?thesis
    using array_macros_implement_lists [of 0 "\<lparr>cells = [4, 5, 0 :: nat], count = 2\<rparr>" 1 0 1 7] by simp
qed

end
