(* ===== verification/HashSet.thy ===== *)
theory HashSet
  imports Prelude
begin

text \<open>
  The linear probed hash table of BRSet.c.

  An item is a pointer, a value of the type \<open>'a\<close>; \<open>NULL\<close> is \<open>None\<close>. The function
  pointers \<open>hash\<close> and \<open>eq\<close> are fields of the record, as in the struct. A probe loop runs
  over the buckets of an unchanged table, so when it has seen all \<open>size\<close> buckets without
  stopping it never stops; the model then returns \<open>None\<close>, as it does for the division by
  zero of an uninitialised table (\<open>size = 0\<close>). That no operation on a well-formed set ever
  ends in \<open>None\<close> is part of what is proved.
\<close>

definition tableSizes :: "nat list" where
  "tableSizes = [
    1, 3, 7, 13, 23, 37, 59, 97, 149, 227, 347, 523, 787, 1187, 1783, 2677, 4019, 6037, 9059, 13591,
    20389, 30593, 45887, 68863, 103307, 154981, 232487, 348739, 523129, 784697, 1177067, 1765609,
    2648419, 3972643, 5958971, 8938469, 13407707, 20111563, 30167359, 45251077, 67876637, 101814991,
    152722489, 229083739, 343625629, 515438447, 773157683, 1159736527, 1739604799, 2609407319, 3914111041]"

definition TABLE_SIZES_LEN :: nat where
  "TABLE_SIZES_LEN = length tableSizes"

record 'a brset =
  table :: "'a option list"
  size :: nat
  itemCount :: nat
  hash :: "'a \<Rightarrow> nat"
  eq :: "'a \<Rightarrow> 'a \<Rightarrow> bool"

text \<open>\<open>while (i < TABLE_SIZES_LEN && tableSizes[i] < capacity) i++\<close>, from \<open>i = 0\<close>.\<close>

definition size_index :: "nat \<Rightarrow> nat" where
  "size_index capacity = length (takeWhile (\<lambda>n. n < capacity) tableSizes)"

text \<open>\<open>_BRSetInit\<close>: the table and its size stay as they were when the capacity is beyond the last size.\<close>

definition BRSetInit :: "'a brset \<Rightarrow> ('a \<Rightarrow> nat) \<Rightarrow> ('a \<Rightarrow> 'a \<Rightarrow> bool) \<Rightarrow> nat \<Rightarrow> 'a brset" where
  "BRSetInit s h e capacity =
     (let i = size_index capacity;
          s1 = (if i + 1 < TABLE_SIZES_LEN
                then s\<lparr>table := replicate (tableSizes ! (i + 1)) None, size := tableSizes ! (i + 1)\<rparr>
                else s)
      in s1\<lparr>itemCount := 0, hash := h, eq := e\<rparr>)"

text \<open>\<open>BRSetNew\<close> starts from the zeroed memory of \<open>calloc\<close>.\<close>

definition BRSetNew :: "('a \<Rightarrow> nat) \<Rightarrow> ('a \<Rightarrow> 'a \<Rightarrow> bool) \<Rightarrow> nat \<Rightarrow> 'a brset" where
  "BRSetNew h e capacity =
     BRSetInit \<lparr>table = [], size = 0, itemCount = 0, hash = h, eq = e\<rparr> h e capacity"

text \<open>The probe loop shared by \<open>BRSetAdd\<close>, \<open>BRSetRemove\<close>, \<open>BRSetGet\<close> and \<open>BRSetIterate\<close>.\<close>

fun probe :: "nat \<Rightarrow> 'a brset \<Rightarrow> 'a \<Rightarrow> nat \<Rightarrow> nat option" where
  "probe 0 s item i = None"
| "probe (Suc n) s item i =
     (case table s ! i of
        None \<Rightarrow> Some i
      | Some t \<Rightarrow> if t = item \<or> eq s t item then Some i else probe n s item ((i + 1) mod size s))"

definition find_bucket :: "'a brset \<Rightarrow> 'a \<Rightarrow> nat option" where
  "find_bucket s item =
     (if size s = 0 then None else probe (size s) s item (hash s item mod size s))"

text \<open>
  \<open>BRSetAdd\<close>, \<open>_BRSetGrow\<close> and \<open>BRSetUnion\<close> call each other. Each nested call works on the
  next larger table size, so the depth is bounded by the number of sizes; the fuel is that
  bound, and on a well-formed set two levels are enough (\<open>add_fuel_spec\<close>).
\<close>

function add_fuel :: "nat \<Rightarrow> 'a brset \<Rightarrow> 'a \<Rightarrow> ('a brset \<times> 'a option) option"
  and union_fuel :: "nat \<Rightarrow> 'a brset \<Rightarrow> 'a option list \<Rightarrow> 'a brset option" where
  "add_fuel 0 s item = None"
| "add_fuel (Suc n) s item =
     (case find_bucket s item of
        None \<Rightarrow> None
      | Some i \<Rightarrow>
          let t = table s ! i;
              s1 = s\<lparr>itemCount := (if t = None then itemCount s + 1 else itemCount s),
                     table := (table s)[i := Some item]\<rparr>
          in if ((size s + 2) div 3) * 2 < itemCount s1
             then (if size_index (size s) + 1 < TABLE_SIZES_LEN
                   then case union_fuel n (BRSetNew (hash s1) (eq s1) (size s)) (table s1) of
                          None \<Rightarrow> None
                        | Some newSet \<Rightarrow>
                            Some (s1\<lparr>table := table newSet, size := size newSet,
                                     itemCount := itemCount newSet\<rparr>, t)
                   else None)
             else Some (s1, t))"
| "union_fuel n s [] = Some s"
| "union_fuel n s (b # bs) =
     (case b of
        None \<Rightarrow> union_fuel n s bs
      | Some t \<Rightarrow> (case add_fuel n s t of None \<Rightarrow> None | Some (s', _) \<Rightarrow> union_fuel n s' bs))"
  by pat_completeness auto
termination
  by (relation "measures [\<lambda>x. case x of Inl (n, _) \<Rightarrow> n | Inr (n, _) \<Rightarrow> n,
      \<lambda>x. case x of Inl _ \<Rightarrow> 0 | Inr (_, _, bs) \<Rightarrow> Suc (length bs)]") auto

definition BRSetAdd :: "'a brset \<Rightarrow> 'a \<Rightarrow> ('a brset \<times> 'a option) option" where
  "BRSetAdd s item = add_fuel (TABLE_SIZES_LEN + 1) s item"

text \<open>\<open>BRSetUnion\<close>: the loop over the buckets of the other set.\<close>

fun add_all :: "'a brset \<Rightarrow> 'a option list \<Rightarrow> 'a brset option" where
  "add_all s [] = Some s"
| "add_all s (b # bs) =
     (case b of
        None \<Rightarrow> add_all s bs
      | Some t \<Rightarrow> (case BRSetAdd s t of None \<Rightarrow> None | Some (s', _) \<Rightarrow> add_all s' bs))"

definition BRSetUnion :: "'a brset \<Rightarrow> 'a brset \<Rightarrow> 'a brset option" where
  "BRSetUnion s other = add_all s (table other)"

text \<open>
  \<open>BRSetRemove\<close> with its hashtable cleanup loop: each item of the run behind the removed
  one is taken out and added again, up to the first empty bucket. \<open>size\<close> is read once, before the loop.
\<close>

fun cleanup :: "nat \<Rightarrow> nat \<Rightarrow> 'a brset \<Rightarrow> nat \<Rightarrow> 'a brset option" where
  "cleanup 0 sz s i = None"
| "cleanup (Suc n) sz s i =
     (case table s ! i of
        None \<Rightarrow> Some s
      | Some t \<Rightarrow>
          (case BRSetAdd (s\<lparr>itemCount := itemCount s - 1, table := (table s)[i := None]\<rparr>) t of
             None \<Rightarrow> None
           | Some (s', _) \<Rightarrow> cleanup n sz s' ((i + 1) mod sz)))"

definition BRSetRemove :: "'a brset \<Rightarrow> 'a \<Rightarrow> ('a brset \<times> 'a option) option" where
  "BRSetRemove s item =
     (case find_bucket s item of
        None \<Rightarrow> None
      | Some i \<Rightarrow>
          (case table s ! i of
             None \<Rightarrow> Some (s, None)
           | Some r \<Rightarrow>
               map_option (\<lambda>s'. (s', Some r))
                 (cleanup (size s) (size s)
                    (s\<lparr>itemCount := itemCount s - 1, table := (table s)[i := None]\<rparr>)
                    ((i + 1) mod size s))))"

definition BRSetClear :: "'a brset \<Rightarrow> 'a brset" where
  "BRSetClear s = s\<lparr>table := replicate (size s) None, itemCount := 0\<rparr>"

definition BRSetCount :: "'a brset \<Rightarrow> nat" where
  "BRSetCount s = itemCount s"

definition BRSetGet :: "'a brset \<Rightarrow> 'a \<Rightarrow> 'a option option" where
  "BRSetGet s item = map_option (\<lambda>i. table s ! i) (find_bucket s item)"

definition BRSetContains :: "'a brset \<Rightarrow> 'a \<Rightarrow> bool option" where
  "BRSetContains s item = map_option (\<lambda>t. t \<noteq> None) (BRSetGet s item)"

fun intersects_loop :: "'a brset \<Rightarrow> 'a option list \<Rightarrow> bool option" where
  "intersects_loop s [] = Some False"
| "intersects_loop s (b # bs) =
     (case b of
        None \<Rightarrow> intersects_loop s bs
      | Some t \<Rightarrow> (case BRSetGet s t of
                      None \<Rightarrow> None
                    | Some r \<Rightarrow> if r \<noteq> None then Some True else intersects_loop s bs))"

definition BRSetIntersects :: "'a brset \<Rightarrow> 'a brset \<Rightarrow> bool option" where
  "BRSetIntersects s other = intersects_loop s (table other)"

text \<open>\<open>while (! r && i < size) r = set->table[i++]\<close>: the first item at or behind bucket \<open>i\<close>.\<close>

definition next_item :: "'a brset \<Rightarrow> nat \<Rightarrow> 'a option" where
  "next_item s i = (case List.find (\<lambda>b. b \<noteq> None) (drop i (take (size s) (table s))) of
     None \<Rightarrow> None | Some b \<Rightarrow> b)"

definition BRSetIterate :: "'a brset \<Rightarrow> 'a option \<Rightarrow> 'a option option" where
  "BRSetIterate s previous =
     (case previous of
        None \<Rightarrow> Some (next_item s 0)
      | Some p \<Rightarrow> map_option (\<lambda>i. next_item s (i + 1)) (find_bucket s p))"

text \<open>\<open>BRSetAll\<close>: the items written to \<open>allItems\<close>, at most \<open>count\<close>.\<close>

definition BRSetAll :: "'a brset \<Rightarrow> nat \<Rightarrow> 'a list" where
  "BRSetAll s cnt = take cnt (List.map_filter id (table s))"

text \<open>\<open>BRSetApply\<close>: the callback threads the state behind \<open>info\<close>.\<close>

definition BRSetApply :: "'a brset \<Rightarrow> 'i \<Rightarrow> ('i \<Rightarrow> 'a \<Rightarrow> 'i) \<Rightarrow> 'i" where
  "BRSetApply s info f = foldl f info (List.map_filter id (table s))"

fun remove_all :: "'a brset \<Rightarrow> 'a option list \<Rightarrow> 'a brset option" where
  "remove_all s [] = Some s"
| "remove_all s (b # bs) =
     (case b of
        None \<Rightarrow> remove_all s bs
      | Some t \<Rightarrow> (case BRSetRemove s t of None \<Rightarrow> None | Some (s', _) \<Rightarrow> remove_all s' bs))"

definition BRSetMinus :: "'a brset \<Rightarrow> 'a brset \<Rightarrow> 'a brset option" where
  "BRSetMinus s other = remove_all s (table other)"

text \<open>
  \<open>BRSetIntersect\<close>: bucket \<open>i\<close> is looked at again after a removal, because the cleanup may
  have moved another item into it. The fuel counts the loop's iterations.
\<close>

fun intersect_loop :: "nat \<Rightarrow> nat \<Rightarrow> 'a brset \<Rightarrow> 'a brset \<Rightarrow> nat \<Rightarrow> 'a brset option" where
  "intersect_loop 0 sz s other i = None"
| "intersect_loop (Suc n) sz s other i =
     (if \<not> i < sz then Some s
      else case table s ! i of
             None \<Rightarrow> intersect_loop n sz s other (i + 1)
           | Some t \<Rightarrow>
               (case BRSetContains other t of
                  None \<Rightarrow> None
                | Some True \<Rightarrow> intersect_loop n sz s other (i + 1)
                | Some False \<Rightarrow>
                    (case BRSetRemove s t of
                       None \<Rightarrow> None
                     | Some (s', _) \<Rightarrow> intersect_loop n sz s' other i)))"

definition BRSetIntersect :: "'a brset \<Rightarrow> 'a brset \<Rightarrow> 'a brset option" where
  "BRSetIntersect s other = intersect_loop (size s + itemCount s + 1) (size s) s other 0"

section \<open>The contract of the function pointers\<close>

text \<open>
  What BRSet.h asks of its clients: \<open>eq\<close> is an equality of items, and
  "any two items that are equal must also have identical hash values".
\<close>

locale item_equality =
  fixes h :: "'a \<Rightarrow> nat" and e :: "'a \<Rightarrow> 'a \<Rightarrow> bool"
  assumes eq_refl: "e a a"
    and eq_sym: "e a b \<Longrightarrow> e b a"
    and eq_trans: "e a b \<Longrightarrow> e b c \<Longrightarrow> e a c"
    and eq_hash: "e a b \<Longrightarrow> h a = h b"
begin

text \<open>Two items found equal to a third one are equal, from either side.\<close>

lemma eq_join: "e a c \<Longrightarrow> e b c \<Longrightarrow> e a b"
  by (blast intro: eq_sym eq_trans)

lemma eq_iff: "e a b \<Longrightarrow> e a c = e b c"
  by (blast intro: eq_sym eq_trans)

end

section \<open>Well-formed tables\<close>

abbreviation home :: "'a brset \<Rightarrow> 'a \<Rightarrow> nat \<Rightarrow> nat" where
  "home s t d \<equiv> (hash s t + d) mod size s"

text \<open>
  Item \<open>t\<close> in bucket \<open>q\<close> can be found by a probe: every bucket from its home bucket up to
  \<open>q\<close> holds an item, and none of them is in the set \<open>U\<close> of buckets still to be cleaned up.
\<close>

definition settled :: "'a brset \<Rightarrow> nat set \<Rightarrow> nat \<Rightarrow> 'a \<Rightarrow> bool" where
  "settled s U q t \<longleftrightarrow> (\<exists>d < size s. q = home s t d \<and>
     (\<forall>d' < d. table s ! home s t d' \<noteq> None \<and> home s t d' \<notin> U))"

definition used :: "'a brset \<Rightarrow> nat set" where
  "used s = {i. i < size s \<and> table s ! i \<noteq> None}"

text \<open>Everything but the load limit; \<open>U\<close> is empty except inside the cleanup loop.\<close>

definition chains_ok :: "'a brset \<Rightarrow> nat set \<Rightarrow> bool" where
  "chains_ok s U \<longleftrightarrow> item_equality (hash s) (eq s) \<and> length (table s) = size s \<and>
     itemCount s = card (used s) \<and> itemCount s < size s \<and>
     (\<forall>i < size s. \<forall>j < size s. \<forall>a b. table s ! i = Some a \<longrightarrow> table s ! j = Some b \<longrightarrow> eq s a b \<longrightarrow> i = j) \<and>
     (\<forall>q < size s. \<forall>t. q \<notin> U \<longrightarrow> table s ! q = Some t \<longrightarrow> settled s U q t)"

definition load_limit :: "nat \<Rightarrow> nat" where
  "load_limit n = ((n + 2) div 3) * 2"

definition set_wf :: "'a brset \<Rightarrow> bool" where
  "set_wf s \<longleftrightarrow> chains_ok s {} \<and> size s \<in> set (tl tableSizes) \<and> itemCount s \<le> load_limit (size s)"

text \<open>The abstract value: the items of the set, no two of them equal, and the search for one.\<close>

definition items :: "'a brset \<Rightarrow> 'a set" where
  "items s = {t. Some t \<in> set (table s)}"

definition member_of :: "'a brset \<Rightarrow> 'a \<Rightarrow> 'a option" where
  "member_of s item = (if \<exists>t \<in> items s. eq s t item then Some (THE t. t \<in> items s \<and> eq s t item) else None)"

lemma items_nth: "length (table s) = size s \<Longrightarrow> t \<in> items s \<longleftrightarrow> (\<exists>i < size s. table s ! i = Some t)"
  by (auto simp: items_def in_set_conv_nth)

lemma chains_okD:
  assumes "chains_ok s U"
  shows "item_equality (hash s) (eq s)" "length (table s) = size s" "itemCount s = card (used s)"
    "itemCount s < size s"
  using assms unfolding chains_ok_def by blast+

lemma chains_ok_size: "chains_ok s U \<Longrightarrow> 0 < size s"
  using chains_okD(4) [of s U] by simp

lemma chains_ok_distinct:
  "chains_ok s U \<Longrightarrow> i < size s \<Longrightarrow> j < size s \<Longrightarrow> table s ! i = Some a \<Longrightarrow> table s ! j = Some b \<Longrightarrow>
     eq s a b \<Longrightarrow> i = j"
  unfolding chains_ok_def by blast

lemma chains_ok_settled:
  "chains_ok s U \<Longrightarrow> q < size s \<Longrightarrow> q \<notin> U \<Longrightarrow> table s ! q = Some t \<Longrightarrow> settled s U q t"
  unfolding chains_ok_def by blast

lemma finite_used [simp]: "finite (used s)"
  by (simp add: used_def)

lemma free_bucket:
  assumes "card (used s) < size s"
  obtains q where "q < size s" "table s ! q = None"
proof (rule ccontr)
  assume no: "\<not> thesis"
  have "used s = {..<size s}" using no that by (auto simp: used_def)
  then show False using assms by simp
qed

lemma reach_bucket:
  assumes "(q :: nat) < n"
  obtains d where "d < n" "(h + d) mod n = q"
proof -
  let ?d = "(q + n - h mod n) mod n"
  have d: "?d < n" using assms by simp
  have hn: "h mod n < n" using assms by simp
  then have sum: "h mod n + (q + n - h mod n) = q + n" by linarith
  have "(h + ?d) mod n = (h + (q + n - h mod n)) mod n" by (rule mod_add_right_eq)
  also have "\<dots> = (h mod n + (q + n - h mod n)) mod n" by (rule mod_add_left_eq [symmetric])
  also have "\<dots> = (q + n) mod n" by (simp only: sum)
  also have "\<dots> = q" using assms by simp
  finally have "(h + ?d) mod n = q" .
  with d show thesis by (rule that)
qed

section \<open>The probe loop\<close>

abbreviation stops :: "'a brset \<Rightarrow> 'a \<Rightarrow> nat \<Rightarrow> bool" where
  "stops s item i \<equiv> (case table s ! i of None \<Rightarrow> True | Some t \<Rightarrow> t = item \<or> eq s t item)"

lemma probe_first:
  assumes "stops s item (home s item d0)" "\<forall>d < d0. \<not> stops s item (home s item d)"
  shows "d \<le> d0 \<Longrightarrow> d0 < d + k \<Longrightarrow> probe k s item (home s item d) = Some (home s item d0)"
proof (induction k arbitrary: d)
  case 0
  then show ?case by simp
next
  case (Suc k)
  show ?case
  proof (cases "d = d0")
    case True
    with assms(1) show ?thesis by (auto split: option.splits)
  next
    case False
    with Suc.prems assms(2) have "\<not> stops s item (home s item d)" by auto
    moreover have "(home s item d + 1) mod size s = home s item (Suc d)"
      by (simp add: mod_Suc_eq)
    moreover have "probe k s item (home s item (Suc d)) = Some (home s item d0)"
      using Suc.prems False by (intro Suc.IH) auto
    ultimately show ?thesis by (auto split: option.splits)
  qed
qed

text \<open>With a free bucket in the table every probe stops, at the first bucket that stops it.\<close>

lemma find_bucketE:
  assumes "card (used s) < size s"
  obtains d where "d < size s" "find_bucket s item = Some (home s item d)"
    "stops s item (home s item d)" "\<forall>d' < d. \<not> stops s item (home s item d')"
proof -
  obtain q where q: "q < size s" "table s ! q = None" using assms by (rule free_bucket)
  obtain dq where dq: "dq < size s" "home s item dq = q" using q(1) by (rule reach_bucket)
  define d where "d = (LEAST d. stops s item (home s item d))"
  have ex: "stops s item (home s item dq)" using q dq by simp
  have st: "stops s item (home s item d)" unfolding d_def by (rule LeastI [of _ dq]) (rule ex)
  have le: "d \<le> dq" unfolding d_def by (rule Least_le) (rule ex)
  have first: "\<forall>d' < d. \<not> stops s item (home s item d')"
    unfolding d_def using not_less_Least by blast
  have "find_bucket s item = Some (home s item d)"
    using probe_first [OF st first, of 0 "size s"] le dq(1) q(1)
    by (simp add: find_bucket_def)
  with st first le dq(1) show thesis by (intro that [of d]) auto
qed

section \<open>Searching\<close>

lemma member_of_None: "member_of s item = None \<longleftrightarrow> (\<forall>t \<in> items s. \<not> eq s t item)"
  by (simp add: member_of_def)

lemma items_unique:
  assumes "chains_ok s U" "a \<in> items s" "b \<in> items s" "eq s a b"
  shows "a = b"
proof -
  obtain i j where "i < size s" "table s ! i = Some a" "j < size s" "table s ! j = Some b"
    using assms chains_okD(2) [OF assms(1)] by (auto simp: items_nth)
  with chains_ok_distinct [OF assms(1)] assms(4) show ?thesis by fastforce
qed

lemma member_of_Some:
  assumes "chains_ok s U"
  shows "member_of s item = Some t \<longleftrightarrow> t \<in> items s \<and> eq s t item"
proof -
  note join = item_equality.eq_join [OF chains_okD(1) [OF assms]]
  have uniq: "a = b" if "a \<in> items s" "eq s a item" "b \<in> items s" "eq s b item" for a b
    using items_unique [OF assms that(1,3)] join [OF that(2,4)] by blast
  show ?thesis
  proof
    assume m: "member_of s item = Some t"
    then obtain a where a: "a \<in> items s" "eq s a item" by (auto simp: member_of_def split: if_splits)
    then have "(THE t. t \<in> items s \<and> eq s t item) = a" using uniq by blast
    with m a show "t \<in> items s \<and> eq s t item" by (auto simp: member_of_def split: if_splits)
  next
    assume t: "t \<in> items s \<and> eq s t item"
    then have "(THE t. t \<in> items s \<and> eq s t item) = t" using uniq by blast
    with t show "member_of s item = Some t" by (auto simp: member_of_def)
  qed
qed

lemma stops_iff:
  assumes "chains_ok s U"
  shows "stops s item i \<longleftrightarrow> table s ! i = None \<or> (\<exists>t. table s ! i = Some t \<and> eq s t item)"
  using item_equality.eq_refl [OF chains_okD(1) [OF assms]] by (auto split: option.splits)

text \<open>A probe ends at the item equal to the given one, or at a free bucket when there is none.\<close>

lemma find_bucket_member:
  assumes ok: "chains_ok s {}"
  obtains d where "d < size s" "find_bucket s item = Some (home s item d)"
    "table s ! home s item d = member_of s item"
    "\<forall>d' < d. table s ! home s item d' \<noteq> None"
proof -
  note size = chains_ok_size [OF ok] and len = chains_okD(2) [OF ok]
  have "card (used s) < size s" using chains_okD(3,4) [OF ok] by simp
  then obtain d where d: "d < size s" "find_bucket s item = Some (home s item d)"
    "stops s item (home s item d)" "\<forall>d' < d. \<not> stops s item (home s item d')"
    by (rule find_bucketE)
  have pre: "\<forall>d' < d. table s ! home s item d' \<noteq> None"
    using d(4) by (auto simp: stops_iff [OF ok])
  have "table s ! home s item d = member_of s item"
  proof (cases "table s ! home s item d")
    case (Some t)
    then have "eq s t item" using d(3) unfolding stops_iff [OF ok] by simp
    moreover have "t \<in> items s" using Some size len by (auto simp: items_nth intro!: exI [of _ "home s item d"])
    ultimately have "member_of s item = Some t" by (simp add: member_of_Some [OF ok])
    then show ?thesis using Some by simp
  next
    case None
    have "\<not> eq s t item" if t: "t \<in> items s" for t
    proof
      assume e: "eq s t item"
      then have h: "hash s t = hash s item" by (rule item_equality.eq_hash [OF chains_okD(1) [OF ok]])
      obtain q where q: "q < size s" "table s ! q = Some t" using t len by (auto simp: items_nth)
      then obtain dq where dq: "q = home s item dq" "\<forall>d' < dq. table s ! home s item d' \<noteq> None"
        using chains_ok_settled [OF ok, of q t] by (auto simp: settled_def h)
      have "stops s item (home s item dq)" using q dq(1) e by (auto simp: stops_iff [OF ok])
      with d(4) have "d \<le> dq" by (meson leI)
      moreover have "d \<noteq> dq" using q dq(1) None by auto
      ultimately have "d < dq" by simp
      with dq(2) None show False by auto
    qed
    then have "member_of s item = None" by (simp add: member_of_None)
    then show ?thesis using None by simp
  qed
  with d pre show thesis by (intro that [of d])
qed

lemma BRSetGet_correct: "chains_ok s {} \<Longrightarrow> BRSetGet s item = Some (member_of s item)"
  by (rule find_bucket_member [of s item]) (auto simp: BRSetGet_def)

lemma BRSetContains_correct: "chains_ok s {} \<Longrightarrow> BRSetContains s item = Some (member_of s item \<noteq> None)"
  by (simp add: BRSetContains_def BRSetGet_correct)

section \<open>Storing an item in a bucket\<close>

definition put :: "'a brset \<Rightarrow> nat \<Rightarrow> 'a \<Rightarrow> 'a brset" where
  "put s i item = s\<lparr>itemCount := (if table s ! i = None then itemCount s + 1 else itemCount s),
                    table := (table s)[i := Some item]\<rparr>"

definition clear_bucket :: "'a brset \<Rightarrow> nat \<Rightarrow> 'a brset" where
  "clear_bucket s i = s\<lparr>itemCount := itemCount s - 1, table := (table s)[i := None]\<rparr>"

lemma put_fields [simp]:
  "size (put s i x) = size s" "hash (put s i x) = hash s" "eq (put s i x) = eq s"
  "table (put s i x) = (table s)[i := Some x]"
  by (simp_all add: put_def)

lemma clear_bucket_fields [simp]:
  "size (clear_bucket s i) = size s" "hash (clear_bucket s i) = hash s" "eq (clear_bucket s i) = eq s"
  "table (clear_bucket s i) = (table s)[i := None]" "itemCount (clear_bucket s i) = itemCount s - 1"
  by (simp_all add: clear_bucket_def)

lemma used_put:
  "length (table s) = size s \<Longrightarrow> i < size s \<Longrightarrow> used (put s i x) = insert i (used s)"
  by (auto simp: used_def nth_list_update)

lemma used_clear:
  "length (table s) = size s \<Longrightarrow> i < size s \<Longrightarrow> used (clear_bucket s i) = used s - {i}"
  by (auto simp: used_def nth_list_update)

lemma itemCount_put:
  assumes "length (table s) = size s" "i < size s" "itemCount s = card (used s)"
  shows "itemCount (put s i x) = card (used (put s i x))"
proof -
  have "i \<in> used s \<longleftrightarrow> table s ! i \<noteq> None" using assms(2) by (simp add: used_def)
  then show ?thesis using assms by (auto simp: used_put) (auto simp: put_def insert_absorb)
qed

text \<open>A settled item stays settled when no bucket outside \<open>U\<close> loses its item and \<open>U\<close> shrinks.\<close>

lemma settled_mono:
  assumes "settled s U q t" "size s' = size s" "hash s' = hash s" "U' \<subseteq> U"
    and "\<And>i. i < size s \<Longrightarrow> i \<notin> U \<Longrightarrow> table s ! i \<noteq> None \<Longrightarrow> table s' ! i \<noteq> None"
  shows "settled s' U' q t"
proof -
  obtain d where d: "d < size s" "q = home s t d"
    "\<forall>d' < d. table s ! home s t d' \<noteq> None \<and> home s t d' \<notin> U"
    using assms(1) unfolding settled_def by blast
  have pos: "home s t d' < size s" for d' using d(1) by simp
  have "\<forall>d' < d. table s' ! home s t d' \<noteq> None \<and> home s t d' \<notin> U'"
    using d(3) assms(4,5) pos by blast
  then show ?thesis using d(1,2) unfolding settled_def assms(2,3) by blast
qed

lemma put_chains_ok:
  assumes ok: "chains_ok s U" and d: "d < size s" and j: "j = home s item d" "j \<notin> U"
    and path: "\<forall>d' < d. table s ! home s item d' \<noteq> None \<and> home s item d' \<notin> U"
    and fresh: "\<And>q t. q < size s \<Longrightarrow> table s ! q = Some t \<Longrightarrow> eq s t item \<Longrightarrow> q = j"
    and room: "card (insert j (used s)) < size s"
  shows "chains_ok (put s j item) U"
proof -
  note len = chains_okD(2) [OF ok]
  have js: "j < size s" using j(1) d by simp
  note iq = chains_okD(1) [OF ok]
  have cnt: "itemCount (put s j item) = card (used (put s j item))"
    using len js chains_okD(3) [OF ok] by (rule itemCount_put)
  have keep: "i < size s \<Longrightarrow> i \<notin> U \<Longrightarrow> table s ! i \<noteq> None \<Longrightarrow> table (put s j item) ! i \<noteq> None" for i
    using len by (cases "i = j") auto
  have dist: "i = k" if "i < size s" "k < size s" "table (put s j item) ! i = Some a"
    "table (put s j item) ! k = Some b" "eq s a b" for i k a b
    using that len js fresh [of i a] fresh [of k b] chains_ok_distinct [OF ok, of i k a b]
      item_equality.eq_sym [OF iq] by (auto simp: nth_list_update split: if_splits)
  have sett: "settled (put s j item) U q t"
    if q: "q < size s" "q \<notin> U" "table (put s j item) ! q = Some t" for q t
  proof (cases "q = j")
    case True
    with q len js have t: "t = item" by simp
    have "settled s U q t" unfolding settled_def using d j path True t by blast
    then show ?thesis by (rule settled_mono) (use keep in auto)
  next
    case False
    with q have "table s ! q = Some t" by simp
    with chains_ok_settled [OF ok q(1,2)] have "settled s U q t" by blast
    then show ?thesis by (rule settled_mono) (use keep in auto)
  qed
  show ?thesis
    unfolding chains_ok_def
    using iq len cnt room dist sett js by (auto simp: used_put)
qed

lemma items_put:
  assumes "length (table s) = size s" "i < size s"
    and inj: "\<And>k t. k < size s \<Longrightarrow> table s ! k = Some t \<Longrightarrow> table s ! i = Some t \<Longrightarrow> k = i"
  shows "items (put s i x) = items s - set_option (table s ! i) \<union> {x}"
proof (rule set_eqI)
  fix t
  have "t \<in> items (put s i x) \<longleftrightarrow> (\<exists>k < size s. (table s)[i := Some x] ! k = Some t)"
    using assms(1) by (simp add: items_nth)
  also have "\<dots> \<longleftrightarrow> t = x \<or> (\<exists>k < size s. k \<noteq> i \<and> table s ! k = Some t)"
    using assms(1,2) by (auto simp: nth_list_update split: if_splits)
  also have "\<dots> \<longleftrightarrow> t = x \<or> (t \<in> items s \<and> table s ! i \<noteq> Some t)"
    using inj assms(1,2) by (auto simp: items_nth)
  finally show "t \<in> items (put s i x) \<longleftrightarrow> t \<in> items s - set_option (table s ! i) \<union> {x}" by auto
qed

section \<open>The table sizes\<close>

definition next_size :: "nat \<Rightarrow> nat" where
  "next_size n = tableSizes ! (size_index n + 1)"

definition max_size :: nat where
  "max_size = 3914111041"

lemma tableSizes_steps: "successively (\<lambda>a b. load_limit a + 1 \<le> load_limit b) (tl tableSizes)"
  by (simp add: tableSizes_def load_limit_def)

lemma tableSizes_less: "successively (<) tableSizes"
  by (simp add: tableSizes_def)

lemma tableSizes_load: "list_all (\<lambda>n. load_limit n < n) (tl tableSizes)"
  by (simp add: tableSizes_def load_limit_def)

lemma length_tableSizes: "length tableSizes = 51"
  by (simp add: tableSizes_def)

lemma last_tableSizes: "tableSizes ! 50 = max_size"
  by (simp add: tableSizes_def max_size_def)

lemma sorted_tableSizes: "sorted_wrt (<) tableSizes"
  using tableSizes_less by (subst (asm) successively_conv_sorted_wrt) (auto intro: transpI)

lemma size_index_nth:
  assumes "k < TABLE_SIZES_LEN"
  shows "size_index (tableSizes ! k) = k"
proof -
  have "takeWhile (\<lambda>n. n < tableSizes ! k) tableSizes = take k tableSizes"
    using assms sorted_wrt_nth_less [OF sorted_tableSizes]
    by (intro takeWhile_eq_take_P_nth) (auto simp: TABLE_SIZES_LEN_def)
  then show ?thesis using assms by (simp add: size_index_def TABLE_SIZES_LEN_def)
qed

lemma next_size_member: "size_index c + 1 < TABLE_SIZES_LEN \<Longrightarrow> next_size c \<in> set (tl tableSizes)"
  by (auto simp: next_size_def TABLE_SIZES_LEN_def in_set_conv_nth nth_tl intro!: exI [of _ "size_index c"])

lemma size_facts:
  assumes "n \<in> set (tl tableSizes)"
  shows "load_limit n < n"
    and "n \<noteq> max_size \<Longrightarrow> size_index n + 1 < TABLE_SIZES_LEN \<and> next_size n \<in> set (tl tableSizes) \<and>
      load_limit n + 1 \<le> load_limit (next_size n)"
proof -
  show "load_limit n < n" using tableSizes_load assms by (auto simp: list_all_iff)
  obtain k where k: "k < length (tl tableSizes)" "tl tableSizes ! k = n"
    using assms unfolding in_set_conv_nth by blast
  then have n: "n = tableSizes ! Suc k" "Suc k < TABLE_SIZES_LEN" by (auto simp: nth_tl TABLE_SIZES_LEN_def)
  assume "n \<noteq> max_size"
  with n(1) have "Suc k \<noteq> 50" using last_tableSizes by auto
  with n(2) have k1: "Suc k + 1 < TABLE_SIZES_LEN" by (simp add: TABLE_SIZES_LEN_def length_tableSizes)
  moreover have "load_limit n + 1 \<le> load_limit (tableSizes ! Suc (Suc k))"
    using successively_nth [OF tableSizes_steps, of k] k1 k by (simp add: TABLE_SIZES_LEN_def nth_tl)
  ultimately show "size_index n + 1 < TABLE_SIZES_LEN \<and> next_size n \<in> set (tl tableSizes) \<and>
      load_limit n + 1 \<le> load_limit (next_size n)"
    using next_size_member [of n] by (simp add: n(1) size_index_nth [OF n(2)] next_size_def)
qed

section \<open>Adding without growth\<close>

lemma add_fuel_place:
  "find_bucket s item = Some j \<Longrightarrow> itemCount (put s j item) \<le> load_limit (size s) \<Longrightarrow>
     add_fuel (Suc n) s item = Some (put s j item, table s ! j)"
  by (simp add: put_def load_limit_def Let_def)

lemma items_finite_card:
  assumes "chains_ok s U"
  shows "finite (items s)" "card (items s) = itemCount s"
proof -
  note len = chains_okD(2) [OF assms]
  have im: "items s = (\<lambda>i. the (table s ! i)) ` used s"
    using len by (force simp: items_nth used_def image_iff)
  show "finite (items s)" by (simp add: im)
  have "inj_on (\<lambda>i. the (table s ! i)) (used s)"
    using chains_ok_distinct [OF assms] item_equality.eq_refl [OF chains_okD(1) [OF assms]]
    by (fastforce intro: inj_onI simp: used_def)
  then show "card (items s) = itemCount s"
    by (simp add: im card_image chains_okD(3) [OF assms])
qed

lemma add_nogrow:
  assumes ok: "chains_ok s {}" and lim: "load_limit (size s) < size s"
    and room: "member_of s item = None \<Longrightarrow> itemCount s < load_limit (size s)"
    and load: "itemCount s \<le> load_limit (size s)"
  obtains s' where "\<forall>n. add_fuel (Suc n) s item = Some (s', member_of s item)" "chains_ok s' {}"
    "items s' = items s - set_option (member_of s item) \<union> {item}" "size s' = size s"
    "hash s' = hash s" "eq s' = eq s" "itemCount s' \<le> load_limit (size s)"
    "itemCount s' = (if member_of s item = None then itemCount s + 1 else itemCount s)"
proof -
  obtain d where d: "d < size s" "find_bucket s item = Some (home s item d)"
    "table s ! home s item d = member_of s item" "\<forall>d' < d. table s ! home s item d' \<noteq> None"
    using ok by (rule find_bucket_member)
  let ?j = "home s item d"
  note len = chains_okD(2) [OF ok]
  have js: "?j < size s" using d(1) by simp
  have cnt: "itemCount (put s ?j item) = (if member_of s item = None then itemCount s + 1 else itemCount s)"
    by (simp add: put_def d(3))
  have le: "itemCount (put s ?j item) \<le> load_limit (size s)" unfolding cnt using room load by (cases "member_of s item") auto
  have inj: "k = ?j" if "k < size s" "table s ! k = Some t" "eq s t item" for k t
  proof -
    have "t \<in> items s" using that(1,2) len by (auto simp: items_nth)
    with that(3) have "member_of s item = Some t" by (simp add: member_of_Some [OF ok])
    with d(3) have "table s ! ?j = Some t" by simp
    then show ?thesis
      using chains_ok_distinct [OF ok that(1) js that(2)] item_equality.eq_refl [OF chains_okD(1) [OF ok]] by blast
  qed
  have inj2: "k = ?j" if "k < size s" "table s ! k = Some t" "table s ! ?j = Some t" for k t
    using chains_ok_distinct [OF ok that(1) js that(2,3)] item_equality.eq_refl [OF chains_okD(1) [OF ok]] by blast
  have "itemCount (put s ?j item) = card (insert ?j (used s))"
    using itemCount_put [OF len js chains_okD(3) [OF ok]] by (simp only: used_put [OF len js])
  with le lim have rm: "card (insert ?j (used s)) < size s" by linarith
  have "chains_ok (put s ?j item) {}"
    by (rule put_chains_ok [OF ok d(1) refl _ _ inj rm]) (use d(4) in simp_all)
  moreover have "items (put s ?j item) = items s - set_option (member_of s item) \<union> {item}"
    using items_put [OF len js inj2] by (simp add: d(3))
  moreover have "\<forall>n. add_fuel (Suc n) s item = Some (put s ?j item, member_of s item)"
    using add_fuel_place [OF d(2) le] d(3) by simp
  ultimately show thesis
    by (intro that [of "put s ?j item"]) (rule le cnt put_fields | assumption)+
qed

section \<open>Growing\<close>

text \<open>The buckets of a table hold no two equal items, and none equal to an item of \<open>A\<close>.\<close>

definition fresh_buckets :: "('a \<Rightarrow> 'a \<Rightarrow> bool) \<Rightarrow> 'a set \<Rightarrow> 'a option list \<Rightarrow> bool" where
  "fresh_buckets e A bs \<longleftrightarrow>
     sorted_wrt (\<lambda>a b. \<forall>x y. a = Some x \<longrightarrow> b = Some y \<longrightarrow> \<not> e x y) bs \<and>
     (\<forall>x. Some x \<in> set bs \<longrightarrow> (\<forall>t \<in> A. \<not> e t x))"

abbreviation bucket_count :: "'a option list \<Rightarrow> nat" where
  "bucket_count bs \<equiv> length (filter (\<lambda>b. b \<noteq> None) bs)"

lemma union_fuel_fresh:
  assumes "chains_ok s {}" "load_limit (size s) < size s"
    and "fresh_buckets (eq s) (items s) bs" "itemCount s + bucket_count bs \<le> load_limit (size s)"
  shows "\<exists>s'. union_fuel (Suc n) s bs = Some s' \<and> chains_ok s' {} \<and>
    items s' = items s \<union> {t. Some t \<in> set bs} \<and> size s' = size s \<and> hash s' = hash s \<and> eq s' = eq s \<and>
    itemCount s' = itemCount s + bucket_count bs"
  using assms
proof (induction bs arbitrary: s)
  case Nil
  then show ?case by simp
next
  case (Cons b bs)
  show ?case
  proof (cases b)
    case None
    with Cons.prems have "fresh_buckets (eq s) (items s) bs" by (simp add: fresh_buckets_def)
    with Cons.IH [OF Cons.prems(1,2) this] Cons.prems(4) None show ?thesis by auto
  next
    case (Some x)
    have mem: "member_of s x = None"
      using Cons.prems(3) Some by (auto simp: member_of_None fresh_buckets_def)
    from Cons.prems(4) Some have ic: "itemCount s + Suc (bucket_count bs) \<le> load_limit (size s)" by simp
    obtain s1 where s1: "\<forall>n. add_fuel (Suc n) s x = Some (s1, member_of s x)" "chains_ok s1 {}"
      "items s1 = items s - set_option (member_of s x) \<union> {x}" "size s1 = size s" "hash s1 = hash s"
      "eq s1 = eq s" "itemCount s1 = (if member_of s x = None then itemCount s + 1 else itemCount s)"
      using Cons.prems(1,2) by (rule add_nogrow [where item = x]) (use ic in auto)
    have f1: "fresh_buckets (eq s1) (items s1) bs"
      using Cons.prems(3) Some mem by (auto simp: fresh_buckets_def s1(3,6))
    have "\<exists>s'. union_fuel (Suc n) s1 bs = Some s' \<and> chains_ok s' {} \<and>
      items s' = items s1 \<union> {t. Some t \<in> set bs} \<and> size s' = size s1 \<and> hash s' = hash s1 \<and> eq s' = eq s1 \<and>
      itemCount s' = itemCount s1 + bucket_count bs"
      by (rule Cons.IH [OF s1(2) _ f1]) (use Cons.prems(2) ic s1 mem in auto)
    then obtain s' where s': "union_fuel (Suc n) s1 bs = Some s'" "chains_ok s' {}"
      "items s' = items s1 \<union> {t. Some t \<in> set bs}" "size s' = size s1" "hash s' = hash s1" "eq s' = eq s1"
      "itemCount s' = itemCount s1 + bucket_count bs" by blast
    have "union_fuel (Suc n) s (b # bs) = Some s'"
      using s'(1) spec [OF s1(1), of n] by (simp add: Some del: add_fuel.simps)
    moreover have "items s' = items s \<union> {t. Some t \<in> set (b # bs)}"
      using s'(3) s1(3) mem Some by auto
    ultimately show ?thesis using s' s1 mem Some by auto
  qed
qed

lemma BRSetNew_wf:
  assumes "item_equality h e" "size_index cap + 1 < TABLE_SIZES_LEN"
  shows "set_wf (BRSetNew h e cap)" "items (BRSetNew h e cap) = {}" "size (BRSetNew h e cap) = next_size cap"
    "hash (BRSetNew h e cap) = h" "eq (BRSetNew h e cap) = e" "itemCount (BRSetNew h e cap) = 0"
    "chains_ok (BRSetNew h e cap) {}"
proof -
  let ?s = "BRSetNew h e cap"
  have f: "table ?s = replicate (next_size cap) None" "size ?s = next_size cap" "hash ?s = h" "eq ?s = e"
    "itemCount ?s = 0"
    using assms(2) by (auto simp: BRSetNew_def BRSetInit_def next_size_def Let_def)
  then show "size ?s = next_size cap" "hash ?s = h" "eq ?s = e" "itemCount ?s = 0" by blast+
  have mem: "next_size cap \<in> set (tl tableSizes)" using assms(2) by (rule next_size_member)
  show "items ?s = {}" by (simp add: items_def f)
  have "used ?s = {}" by (simp add: used_def f)
  then show "chains_ok ?s {}"
    using assms(1) size_facts(1) [OF mem] by (simp add: chains_ok_def f)
  then show "set_wf ?s" using mem by (simp add: set_wf_def f)
qed


lemma bucket_count_used: "length (table s) = size s \<Longrightarrow> bucket_count (table s) = card (used s)"
  by (simp add: length_filter_conv_card used_def)

lemma set_wfD:
  assumes "set_wf s"
  shows "chains_ok s {}" "size s \<in> set (tl tableSizes)" "itemCount s \<le> load_limit (size s)"
  using assms by (simp_all add: set_wf_def)

lemma add_grow:
  assumes ok: "chains_ok s {}" and sz: "size s \<in> set (tl tableSizes)" "size s \<noteq> max_size"
    and full: "itemCount s = load_limit (size s)" and mem: "member_of s item = None"
  obtains s' where "add_fuel (Suc (Suc n)) s item = Some (s', None)" "set_wf s'"
    "items s' = items s \<union> {item}" "hash s' = hash s" "eq s' = eq s" "itemCount s' = itemCount s + 1"
proof -
  obtain d where d: "d < size s" "find_bucket s item = Some (home s item d)"
    "table s ! home s item d = member_of s item" "\<forall>d' < d. table s ! home s item d' \<noteq> None"
    using ok by (rule find_bucket_member)
  define j where "j = home s item d"
  define s1 where "s1 = put s j item"
  note len = chains_okD(2) [OF ok] and iq = chains_okD(1) [OF ok]
  have js: "j < size s" using d(1) by (simp add: j_def)
  have free: "table s ! j = None" using d(3) mem by (simp add: j_def)
  have cnt: "itemCount s1 = load_limit (size s) + 1" using free full by (simp add: s1_def put_def)
  note sf = size_facts(2) [OF sz]
  let ?new = "BRSetNew (hash s) (eq s) (size s)"
  note new = BRSetNew_wf [OF iq conjunct1 [OF sf]]
  have "\<not> eq s item t" if "t \<in> items s" for t
    using that mem item_equality.eq_sym [OF iq] by (auto simp: member_of_None)
  then have no: "\<not> eq s item t \<and> \<not> eq s t item" if "k < size s" "table s ! k = Some t" for k t
    using that len item_equality.eq_sym [OF iq] by (metis items_nth)
  have "\<not> eq s x y" if "i < k" "k < size s" "table s1 ! i = Some x" "table s1 ! k = Some y" for i k x y
    using that len js no [of i x] no [of k y] chains_ok_distinct [OF ok, of i k x y]
    by (auto simp: s1_def nth_list_update split: if_splits)
  then have fb: "fresh_buckets (eq ?new) (items ?new) (table s1)"
    using len by (simp add: fresh_buckets_def sorted_wrt_iff_nth_less new s1_def)
  have bc: "bucket_count (table s1) = load_limit (size s) + 1"
    using bucket_count_used [of s1] itemCount_put [OF len js chains_okD(3) [OF ok]] cnt len
    by (simp add: s1_def)
  have U: "\<exists>s'. union_fuel (Suc n) ?new (table s1) = Some s' \<and> chains_ok s' {} \<and>
    items s' = items ?new \<union> {t. Some t \<in> set (table s1)} \<and> size s' = size ?new \<and> hash s' = hash ?new \<and>
    eq s' = eq ?new \<and> itemCount s' = itemCount ?new + bucket_count (table s1)"
    by (rule union_fuel_fresh [OF new(7) _ fb]) (use size_facts(1) sf bc in \<open>simp_all add: new\<close>)
  have E: "add_fuel (Suc (Suc n)) s item =
      map_option (\<lambda>t. (s1\<lparr>table := table t, size := size t, itemCount := itemCount t\<rparr>, None))
        (union_fuel (Suc n) ?new (table s1))"
    using sf d(2) free cnt
    by (simp only: add_fuel.simps(2) [of "Suc n"] d(2) option.case)
      (simp add: Let_def j_def [symmetric] s1_def put_def load_limit_def split: option.split)
  obtain t where u: "union_fuel (Suc n) ?new (table s1) = Some t" and t: "chains_ok t {}"
     "items t = {t. Some t \<in> set (table s1)}" "size t = next_size (size s)" "hash t = hash s"
     "eq t = eq s" "itemCount t = load_limit (size s) + 1"
    using U unfolding new bc by auto
  have "add_fuel (Suc (Suc n)) s item
        = Some (s1\<lparr>table := table t, size := size t, itemCount := itemCount t\<rparr>, None)"
    using E unfolding u by simp
  moreover have "s1\<lparr>table := table t, size := size t, itemCount := itemCount t\<rparr> = t"
    by (simp add: t(4,5) s1_def)
  moreover have "{t. Some t \<in> set (table s1)} = items s \<union> {item}"
    using items_put [OF len js, of item] free by (simp add: items_def s1_def)
  moreover have "set_wf t" using t sf by (simp add: set_wf_def)
  ultimately show thesis using t full by (intro that [of t]) auto
qed

lemma BRSetAdd_fuel: "\<exists>n. TABLE_SIZES_LEN + 1 = Suc (Suc n)"
  by (simp add: TABLE_SIZES_LEN_def length_tableSizes)

text \<open>
  \<open>BRSetAdd\<close>: the item replaces the equal one, which is returned, and the set stays
  well-formed, grown to the next table size when the load limit is passed. The only
  hypothesis is that the largest table has room.
\<close>

lemma BRSetAdd_spec:
  assumes wf: "set_wf s" and room: "member_of s item = None \<Longrightarrow> itemCount s < load_limit max_size"
  obtains s' where "BRSetAdd s item = Some (s', member_of s item)" "set_wf s'"
    "items s' = items s - set_option (member_of s item) \<union> {item}" "hash s' = hash s" "eq s' = eq s"
    "itemCount s' = (if member_of s item = None then itemCount s + 1 else itemCount s)"
    "member_of s item \<noteq> None \<or> itemCount s < load_limit (size s) \<Longrightarrow> size s' = size s"
proof -
  note ok = set_wfD(1) [OF wf] and sz = set_wfD(2) [OF wf] and load = set_wfD(3) [OF wf]
  obtain n where "TABLE_SIZES_LEN + 1 = Suc (Suc n)" using BRSetAdd_fuel by blast
  then have n: "BRSetAdd s item = add_fuel (Suc (Suc n)) s item" by (simp only: BRSetAdd_def)
  show thesis
  proof (cases "member_of s item \<noteq> None \<or> itemCount s < load_limit (size s)")
    case True
    then have r: "member_of s item = None \<Longrightarrow> itemCount s < load_limit (size s)" by simp
    obtain s' where "\<forall>n. add_fuel (Suc n) s item = Some (s', member_of s item)" "chains_ok s' {}"
      "items s' = items s - set_option (member_of s item) \<union> {item}" "size s' = size s"
      "hash s' = hash s" "eq s' = eq s" "itemCount s' \<le> load_limit (size s)"
      "itemCount s' = (if member_of s item = None then itemCount s + 1 else itemCount s)"
      using ok size_facts(1) [OF sz] r load by (rule add_nogrow)
    with sz show thesis by (intro that [of s']) (simp_all add: n set_wf_def del: add_fuel.simps)
  next
    case False
    with load have full: "itemCount s = load_limit (size s)" and mem: "member_of s item = None" by auto
    with room have "size s \<noteq> max_size" by auto
    then obtain s' where "add_fuel (Suc (Suc n)) s item = Some (s', None)" "set_wf s'"
      "items s' = items s \<union> {item}" "hash s' = hash s" "eq s' = eq s" "itemCount s' = itemCount s + 1"
      using ok sz full mem by (elim add_grow) auto
    with mem full show thesis by (intro that [of s']) (simp_all add: n del: add_fuel.simps)
  qed
qed


section \<open>Removing\<close>

text \<open>
  The invariant of the cleanup loop. The \<open>m\<close> buckets from \<open>i\<close> on are still to be looked at,
  and \<open>e\<close> is the empty bucket behind them, where the loop will stop. Every item outside of
  them is settled without them; an item in one of them does not need bucket \<open>e\<close> to be reached.
\<close>

definition run :: "nat \<Rightarrow> nat \<Rightarrow> nat \<Rightarrow> nat set" where
  "run n i m = {(i + k) mod n | k. k < m}"

definition cleanup_inv :: "'a brset \<Rightarrow> nat \<Rightarrow> nat \<Rightarrow> nat \<Rightarrow> bool" where
  "cleanup_inv s i m e \<longleftrightarrow> chains_ok s (run (size s) i m) \<and> i < size s \<and> m < size s \<and>
     e = (i + m) mod size s \<and> table s ! e = None \<and>
     (\<forall>k < m. table s ! ((i + k) mod size s) \<noteq> None) \<and>
     (\<forall>q t. q \<in> run (size s) i m \<longrightarrow> table s ! q = Some t \<longrightarrow>
        (\<exists>d < size s. q = home s t d \<and> (\<forall>d' < d. home s t d' \<noteq> e)))"

lemma run_0 [simp]: "run n i 0 = {}"
  by (simp add: run_def)

lemma run_Suc: "i < n \<Longrightarrow> run n i (Suc m) = insert i (run n ((i + 1) mod n) m)"
proof -
  assume "i < n"
  have "run n i (Suc m) = {(i + 0) mod n} \<union> {(i + Suc k) mod n | k. k < m}"
    by (auto simp: run_def) (metis less_Suc_eq_0_disj Suc_less_eq add_0_right add_Suc_right not_less_eq)+
  moreover have "(i + Suc k) mod n = ((i + 1) mod n + k) mod n" for k
    by (simp add: mod_add_left_eq)
  ultimately show ?thesis using \<open>i < n\<close> by (simp add: run_def)
qed

lemma mod_shift: "(a :: nat) mod n = b mod n \<Longrightarrow> (a + c) mod n = (b + c) mod n"
  by (metis mod_add_left_eq)

text \<open>A probe that avoids \<open>e\<close> on its way to \<open>i\<close> does not meet the run from \<open>i + 1\<close> up to \<open>e\<close>.\<close>

lemma probe_avoids_run:
  fixes h d n i m :: nat
  assumes i: "i < n" "i = (h + d) mod n" "d < n" and e: "e = (i + Suc m) mod n" "Suc m < n"
    and avoid: "\<forall>d' < d. (h + d') mod n \<noteq> e" and d': "d' < d"
  shows "(h + d') mod n \<notin> run n ((i + 1) mod n) m"
proof
  assume "(h + d') mod n \<in> run n ((i + 1) mod n) m"
  then obtain k where k: "k < m" "(h + d') mod n = (i + 1 + k) mod n"
    by (auto simp: run_def mod_add_left_eq)
  let ?x = "d - d'"
  have "(i + (1 + k + ?x)) mod n = (h + d' + ?x) mod n"
    using mod_shift [OF k(2), of ?x] by (simp add: add.assoc)
  also have "\<dots> = i" using i(2) d' by simp
  finally have "(i + (1 + k + ?x)) mod n = (i + 0) mod n" using i(1) by simp
  then have "n dvd 1 + k + ?x"
    by (metis add_left_cancel mod_eq_dvd_iff_nat le_add1 diff_add_inverse add_0_right)
  then have "n \<le> 1 + k + ?x" by (rule dvd_imp_le) simp
  with e(2) k(1) have lt: "d' + (m - k) < d" using d' by linarith
  have "(h + d' + (m - k)) mod n = (i + 1 + k + (m - k)) mod n"
    by (rule mod_shift) (rule k(2))
  also have "\<dots> = e" using k(1) e(1) by simp
  finally have "(h + (d' + (m - k))) mod n = e" by (simp add: add.assoc)
  with avoid lt show False by blast
qed

lemma clear_chains_ok:
  assumes ok: "chains_ok s (insert i U)" and i: "i < size s" "table s ! i = Some t"
  shows "chains_ok (clear_bucket s i) U" "itemCount (clear_bucket s i) + 1 = itemCount s"
proof -
  note len = chains_okD(2) [OF ok]
  have iu: "i \<in> used s" using i by (simp add: used_def)
  have c: "card (used (clear_bucket s i)) = card (used s) - 1"
    using iu by (simp add: used_clear [OF len i(1)])
  have pos: "0 < card (used s)" using iu by (auto simp: card_gt_0_iff)
  show "itemCount (clear_bucket s i) + 1 = itemCount s"
    using pos chains_okD(3) [OF ok] by simp
  have sett: "settled (clear_bucket s i) U q x"
    if q: "q < size s" "q \<notin> U" "table (clear_bucket s i) ! q = Some x" for q x
  proof -
    have "q \<noteq> i" using q len by auto
    with q have "settled s (insert i U) q x" using chains_ok_settled [OF ok, of q x] by simp
    then show ?thesis by (rule settled_mono) auto
  qed
  have dist: "a = b" if "a < size s" "b < size s" "table (clear_bucket s i) ! a = Some x"
    "table (clear_bucket s i) ! b = Some y" "eq s x y" for a b x y
    using that chains_ok_distinct [OF ok, of a b x y] len i(1) by (cases "a = i"; cases "b = i") auto
  show "chains_ok (clear_bucket s i) U"
    unfolding chains_ok_def
    using chains_okD [OF ok] c pos sett dist by auto
qed


lemma cleanup_step:
  assumes inv: "cleanup_inv s i (Suc m) e" and t: "table s ! i = Some t"
    and load: "itemCount s \<le> load_limit (size s)"
  obtains s2 where "BRSetAdd (clear_bucket s i) t = Some (s2, None)"
    "cleanup_inv s2 ((i + 1) mod size s) m e" "items s2 = items s" "size s2 = size s"
    "hash s2 = hash s" "eq s2 = eq s" "itemCount s2 = itemCount s"
proof -
  define n where "n = size s"
  define U where "U = run n ((i + 1) mod n) m"
  define s1 where "s1 = clear_bucket s i"
  have i: "i < n" and m: "Suc m < n" and e: "e = (i + Suc m) mod n" and emp: "table s ! e = None"
    and full: "\<forall>k < Suc m. table s ! ((i + k) mod n) \<noteq> None"
    and reach: "\<And>q t. q \<in> run n i (Suc m) \<Longrightarrow> table s ! q = Some t \<Longrightarrow>
        \<exists>d < n. q = home s t d \<and> (\<forall>d' < d. home s t d' \<noteq> e)"
    and ok0: "chains_ok s (run n i (Suc m))"
    using inv unfolding cleanup_inv_def n_def [symmetric] by blast+
  have runS: "run n i (Suc m) = insert i U" using i by (simp add: run_Suc U_def)
  have ok: "chains_ok s (insert i U)" using ok0 by (simp add: runS)
  note len = chains_okD(2) [OF ok, folded n_def]
  have n0: "0 < n" using i by simp
  have ok1: "chains_ok s1 U" and cnt1: "itemCount s1 + 1 = itemCount s"
    using clear_chains_ok [OF ok i [unfolded n_def] t] by (simp_all add: s1_def)
  have f1: "size s1 = n" "hash s1 = hash s" "eq s1 = eq s" "table s1 = (table s)[i := None]"
    by (simp_all add: s1_def n_def)
  have ei: "e \<noteq> i" using emp t by auto
  obtain d where d: "d < n" "i = home s t d" "\<forall>d' < d. home s t d' \<noteq> e"
    using reach [of i t] t by (auto simp: runS)
  have avoid: "home s t d' \<notin> U" if "d' < d" for d'
    using probe_avoids_run [OF i _ d(1) e m _ that, of "hash s t"] d(2,3) by (simp add: n_def U_def)
  have iU: "i \<notin> U"
  proof
    assume "i \<in> U"
    then obtain k where k: "k < m" "i = (i + Suc k) mod n"
      by (auto simp: U_def run_def mod_add_left_eq)
    then have "(i + Suc k) mod n = (i + 0) mod n" using i by simp
    then have "n dvd Suc k" by (metis add_left_cancel mod_eq_dvd_iff_nat le_add1 diff_add_inverse add_0_right)
    then show False using k(1) m by (auto dest: dvd_imp_le)
  qed
  have fresh: "\<not> eq s b t" if "q < n" "table s1 ! q = Some b" for q b
  proof
    assume "eq s b t"
    have "q \<noteq> i" using that(2) i len by (auto simp: f1)
    moreover from this that have "table s ! q = Some b" by (simp add: f1)
    ultimately show False
      using chains_ok_distinct [OF ok _ _ _ t \<open>eq s b t\<close>, of q] that(1) i by (simp add: n_def)
  qed
  have "card (used s1) < size s1" using chains_okD(3,4) [OF ok1] by simp
  then obtain d0 where d0: "d0 < n" "find_bucket s1 t = Some (home s t d0)"
    "stops s1 t (home s t d0)" "\<forall>d' < d0. \<not> stops s1 t (home s t d')"
    by (rule find_bucketE [where item = t]) (simp add: f1 n_def [symmetric])
  define j where "j = home s t d0"
  have jn: "j < n" using n0 by (simp add: j_def n_def)
  have "stops s1 t (home s t d)" using d(2) i len by (simp add: f1)
  with d0(4) have le: "d0 \<le> d" by (meson leI)
  have "table s1 ! j = None \<or> (\<exists>b. table s1 ! j = Some b \<and> eq s1 b t)"
    using d0(3) unfolding j_def [symmetric] stops_iff [OF ok1] .
  then have free: "table s1 ! j = None" using fresh [OF jn] f1(3) by auto
  have jU: "j \<notin> U" using le avoid [of d0] iU d(2) by (cases "d0 = d") (auto simp: j_def)
  have je: "j \<noteq> e" using le d(2,3) ei by (cases "d0 = d") (auto simp: j_def)
  have path: "\<forall>d' < d0. table s1 ! home s1 t d' \<noteq> None \<and> home s1 t d' \<notin> U"
    using d0(4) avoid le stops_iff [OF ok1, of t] by (auto simp: f1 n_def)
  have usd: "card (insert j (used s1)) \<le> itemCount s"
    using cnt1 chains_okD(3) [OF ok1] card_insert_le_m1 [of "Suc (card (used s1))" "used s1" j]
    by (metis Suc_eq_plus1 card_insert_if finite_used le_refl Suc_n_not_le_n nat_le_linear le_SucI)
  have room: "card (insert j (used s1)) < size s1"
    using usd chains_okD(4) [OF ok] by (simp add: f1 n_def)
  define s2 where "s2 = put s1 j t"
  have ok2: "chains_ok s2 U"
    unfolding s2_def
    by (rule put_chains_ok [OF ok1 _ _ jU path _ room])
      (use d0(1) fresh in \<open>auto simp: j_def f1 n_def\<close>)
  have f2: "size s2 = n" "hash s2 = hash s" "eq s2 = eq s" "table s2 = (table s)[i := None, j := Some t]"
    by (simp_all add: s2_def f1)
  have same: "table s2 ! q = table s ! q" if "q \<noteq> i" "q \<noteq> j" for q
    using that by (simp add: f2)
  have cnt2: "itemCount s2 = itemCount s" using free cnt1 by (simp add: s2_def put_def)
  have "BRSetAdd s1 t = Some (s2, None)"
    using add_fuel_place [OF d0(2) [folded j_def], of TABLE_SIZES_LEN] load cnt2 free
    by (simp add: BRSetAdd_def s2_def f1 n_def)
  moreover have "items s2 = items s"
  proof (rule set_eqI)
    fix x
    have "x \<in> items s2 \<longleftrightarrow> (\<exists>q < n. table s2 ! q = Some x)"
      using len by (simp add: items_nth f2)
    also have "\<dots> \<longleftrightarrow> x = t \<or> (\<exists>q < n. q \<noteq> i \<and> q \<noteq> j \<and> table s ! q = Some x)"
      using jn i len by (auto simp: f2 nth_list_update split: if_splits)
    also have "\<dots> \<longleftrightarrow> (\<exists>q < n. table s ! q = Some x)"
      using t i free by (auto simp: f1 nth_list_update len split: if_splits)
    also have "\<dots> \<longleftrightarrow> x \<in> items s" using len by (simp add: items_nth n_def)
    finally show "x \<in> items s2 \<longleftrightarrow> x \<in> items s" .
  qed
  moreover have "cleanup_inv s2 ((i + 1) mod n) m e"
    unfolding cleanup_inv_def f2(1,2) U_def [symmetric]
  proof (intro conjI allI impI)
    show "chains_ok s2 U" by (rule ok2)
    show "(i + 1) mod n < n" using n0 by simp
    show "m < n" using m by simp
    show "e = ((i + 1) mod n + m) mod n" using e by (simp add: mod_add_left_eq)
    show "table s2 ! e = None" using same [of e] ei je emp by simp
  next
    fix k assume k: "k < m"
    have eqk: "((i + 1) mod n + k) mod n = (i + Suc k) mod n" by (simp add: mod_add_left_eq)
    have "(i + Suc k) mod n \<in> U" unfolding U_def run_def eqk [symmetric] using k by blast
    then have "(i + Suc k) mod n \<noteq> i" "(i + Suc k) mod n \<noteq> j" using iU jU by auto
    moreover have "table s ! ((i + Suc k) mod n) \<noteq> None" using full k by blast
    ultimately show "table s2 ! (((i + 1) mod n + k) mod n) \<noteq> None"
      unfolding eqk using same by metis
  next
    fix q x assume q: "q \<in> U" "table s2 ! q = Some x"
    then have "q \<noteq> i" "q \<noteq> j" using iU jU by auto
    with q have "table s ! q = Some x" by (simp add: same)
    moreover have "q \<in> run n i (Suc m)" using q(1) by (simp only: runS insert_iff simp_thms)
    ultimately have "\<exists>d < n. q = home s x d \<and> (\<forall>d' < d. home s x d' \<noteq> e)" using reach by blast
    then show "\<exists>d < n. q = (hash s x + d) mod n \<and> (\<forall>d' < d. (hash s x + d') mod n \<noteq> e)"
      by (simp only: n_def)
  qed
  ultimately show thesis
    by (intro that [of s2]) (simp_all add: f2 cnt2 s1_def n_def)
qed

text \<open>The loop ends within \<open>m + 1\<close> iterations, in a well-formed table with the same items.\<close>

lemma cleanup_loop:
  assumes "cleanup_inv s i m e" "itemCount s \<le> load_limit (size s)" "m < fuel"
  shows "\<exists>s'. cleanup fuel (size s) s i = Some s' \<and> chains_ok s' {} \<and> items s' = items s \<and>
    size s' = size s \<and> hash s' = hash s \<and> eq s' = eq s \<and> itemCount s' = itemCount s"
  using assms
proof (induction m arbitrary: s i fuel)
  case 0
  then obtain n where "fuel = Suc n" by (cases fuel) auto
  with 0 show ?case by (auto simp: cleanup_inv_def)
next
  case (Suc m)
  from Suc.prems(3) obtain n where n: "fuel = Suc n" "m < n" by (cases fuel) auto
  have "table s ! ((i + 0) mod size s) \<noteq> None" "i < size s"
    using Suc.prems(1) unfolding cleanup_inv_def by blast+
  then obtain t where t: "table s ! i = Some t" by auto
  obtain s2 where s2: "BRSetAdd (clear_bucket s i) t = Some (s2, None)"
    "cleanup_inv s2 ((i + 1) mod size s) m e" "items s2 = items s" "size s2 = size s"
    "hash s2 = hash s" "eq s2 = eq s" "itemCount s2 = itemCount s"
    using Suc.prems(1) t Suc.prems(2) by (rule cleanup_step)
  have "\<exists>s'. cleanup n (size s2) s2 ((i + 1) mod size s) = Some s' \<and> chains_ok s' {} \<and> items s' = items s2 \<and>
    size s' = size s2 \<and> hash s' = hash s2 \<and> eq s' = eq s2 \<and> itemCount s' = itemCount s2"
    using s2(2) by (rule Suc.IH) (use Suc.prems(2) s2 n in auto)
  then show ?case
    using s2 t by (auto simp: n clear_bucket_def)
qed


text \<open>Behind the removed item the run of occupied buckets ends at an empty bucket \<open>e\<close>.\<close>

lemma cleanup_start:
  assumes ok: "chains_ok s {}" and p: "p < size s" "table s ! p = Some r"
  obtains m e where "cleanup_inv (clear_bucket s p) ((p + 1) mod size s) m e" "m < size s"
proof -
  define n where "n = size s"
  define s1 where "s1 = clear_bucket s p"
  note len = chains_okD(2) [OF ok, folded n_def]
  have pn: "p < n" and n0: "0 < n" using p by (simp_all add: n_def)
  have f1: "size s1 = n" "hash s1 = hash s" "eq s1 = eq s" "table s1 = (table s)[p := None]"
    by (simp_all add: s1_def n_def)
  have "card (used s) < size s" using chains_okD(3,4) [OF ok] by simp
  then obtain f where f: "f < n" "table s ! f = None" by (rule free_bucket) (simp add: n_def)
  have fp: "f \<noteq> p" using f p by auto
  obtain df where df: "df < n" "(p + 1 + df) mod n = f"
    using reach_bucket [OF f(1), of "p + 1"] by blast
  define m where "m = (LEAST m. table s ! ((p + 1 + m) mod n) = None)"
  have mdf: "m \<le> df" unfolding m_def by (rule Least_le) (simp only: df f)
  have mnone: "table s ! ((p + 1 + m) mod n) = None"
    unfolding m_def by (rule LeastI [of _ df]) (simp only: df f)
  have mfull: "table s ! ((p + 1 + k) mod n) \<noteq> None" if "k < m" for k
    using that not_less_Least unfolding m_def by blast
  define e where "e = (p + 1 + m) mod n"
  have ep: "e \<noteq> p" using mnone p(2) by (auto simp: e_def)
  have mn: "m < n" using mdf df(1) by simp
  have m1n: "m + 1 < n"
  proof (rule ccontr)
    assume "\<not> ?thesis"
    with mn have "p + 1 + m = p + n" by simp
    then have "e = (p + n) mod n" by (simp only: e_def)
    then have "e = p" using pn by simp
    with ep show False by simp
  qed
  let ?U = "run n ((p + 1) mod n) m"
  have runU: "q \<in> ?U \<longleftrightarrow> (\<exists>k < m. q = (p + 1 + k) mod n)" for q
    by (auto simp: run_def mod_add_left_eq)
  have walk: "q \<in> ?U" if q: "q = (p + k + x) mod n" "k \<le> m" "0 < x" "table s ! q \<noteq> None"
    and full: "\<forall>y < x. table s ! ((p + k + y) mod n) \<noteq> None" for q k x
  proof -
    have "\<not> m + 1 - k < x"
    proof
      assume "m + 1 - k < x"
      with full have "table s ! ((p + k + (m + 1 - k)) mod n) \<noteq> None" by blast
      with q(2) mnone show False by (simp add: algebra_simps)
    qed
    moreover have "x \<noteq> m + 1 - k" using q mnone by (auto simp: algebra_simps)
    ultimately have "x < m + 1 - k" by linarith
    then have "k + x - 1 < m" "p + k + x = p + 1 + (k + x - 1)" using q(2,3) by linarith+
    then have "k + x - 1 < m" "q = (p + 1 + (k + x - 1)) mod n" using q(1) by (simp_all only:)
    then show ?thesis unfolding runU by blast
  qed
  have sett: "settled s1 ?U q t" if q: "q < n" "q \<notin> ?U" "table s1 ! q = Some t" for q t
  proof -
    have qp: "q \<noteq> p" using q pn len by (auto simp: f1)
    with q have st: "table s ! q = Some t" by (simp add: f1)
    have "settled s {} q t" by (rule chains_ok_settled [OF ok _ _ st]) (use q(1) in \<open>simp_all add: n_def\<close>)
    then obtain d where d: "d < n" "q = home s t d" "\<forall>d' < d. table s ! home s t d' \<noteq> None"
      unfolding settled_def n_def by blast
    have "home s t d' \<noteq> p \<and> home s t d' \<notin> ?U" if d': "d' < d" for d'
    proof (rule ccontr)
      assume "\<not> ?thesis"
      then consider "home s t d' = p" | k where "k < m" "home s t d' = (p + 1 + k) mod n"
        unfolding runU by blast
      then obtain k where k: "k \<le> m" "home s t d' = (p + k) mod n"
      proof cases
        case 1
        then have "home s t d' = (p + 0) mod n" using pn by simp
        then show ?thesis using that [of 0] by simp
      next
        case (2 k)
        then show ?thesis using that [of "k + 1"] by (simp add: add.assoc)
      qed
      have sh: "home s t (d' + y) = (p + k + y) mod n" for y
        using mod_shift [OF k(2) [folded n_def], of y] by (simp add: n_def add.assoc)
      have "q = (p + k + (d - d')) mod n" using sh [of "d - d'"] d' d(2) by simp
      moreover have "\<forall>y < d - d'. table s ! ((p + k + y) mod n) \<noteq> None"
        using d(3) d' unfolding sh [symmetric] by auto
      ultimately have "q \<in> ?U" using d' st k(1) by (intro walk [of q k "d - d'"]) simp_all
      with q(2) show False by simp
    qed
    moreover have "table s1 ! j = table s ! j" if "j \<noteq> p" for j using that by (simp add: f1)
    ultimately show ?thesis unfolding settled_def f1(1-3) n_def [symmetric]
      by (intro exI [of _ d]) (use d in \<open>auto simp: n_def\<close>)
  qed
  have iq: "item_equality (hash s1) (eq s1)" using chains_okD(1) [OF ok] by (simp add: f1)
  have ok_U: "chains_ok s1 ?U"
  proof -
    have pu: "p \<in> used s" using p by (simp add: used_def)
    have "itemCount s1 = card (used s1)"
      using used_clear [OF chains_okD(2) [OF ok] p(1)] chains_okD(3) [OF ok] pu by (simp add: s1_def)
    moreover have "card (used s1) < n"
      using used_clear [OF chains_okD(2) [OF ok] p(1)] pu chains_okD(3,4) [OF ok]
      by (simp add: s1_def n_def less_imp_diff_less)
    moreover have "a = b" if "a < n" "b < n" "table s1 ! a = Some x" "table s1 ! b = Some y" "eq s x y" for a b x y
      using that chains_ok_distinct [OF ok, of a b x y] len pn
      by (cases "a = p"; cases "b = p") (auto simp: f1 n_def)
    ultimately show ?thesis
      unfolding chains_ok_def using iq sett len by (auto simp: f1)
  qed
  have same: "table s1 ! q = table s ! q" if "q \<noteq> p" for q using that by (simp add: f1)
  have notp: "(p + 1 + k) mod n \<noteq> p" if "k < m" for k
  proof
    assume "(p + 1 + k) mod n = p"
    then have "(p + 1 + k) mod n = (p + 0) mod n" using pn by simp
    then have "n dvd 1 + k" by (metis add_left_cancel mod_eq_dvd_iff_nat le_add1 diff_add_inverse add_0_right add.assoc)
    then show False using that mn by (auto dest: dvd_imp_le)
  qed
  have "cleanup_inv s1 ((p + 1) mod n) m e"
    unfolding cleanup_inv_def f1(1,2)
  proof (intro conjI allI impI)
    show "chains_ok s1 ?U" by (rule ok_U)
    show "(p + 1) mod n < n" "m < n" using n0 mn by simp_all
    show "e = ((p + 1) mod n + m) mod n" by (simp add: e_def mod_add_left_eq)
    show "table s1 ! e = None" using same [OF ep] mnone by (simp add: e_def)
  next
    fix k assume k: "k < m"
    show "table s1 ! (((p + 1) mod n + k) mod n) \<noteq> None"
      using same [OF notp [OF k]] mfull [OF k] by (simp add: mod_add_left_eq)
  next
    fix q t assume q: "q \<in> ?U" "table s1 ! q = Some t"
    then have qn: "q < n" "q \<noteq> p" using n0 notp unfolding runU by auto
    with q have st: "table s ! q = Some t" by (simp add: same)
    have "settled s {} q t" by (rule chains_ok_settled [OF ok _ _ st]) (use qn(1) in \<open>simp_all add: n_def\<close>)
    then obtain d where d: "d < n" "q = home s t d" "\<forall>d' < d. table s ! home s t d' \<noteq> None"
      unfolding settled_def n_def by blast
    then have "\<forall>d' < d. home s t d' \<noteq> e" using mnone by (auto simp: e_def)
    with d show "\<exists>d < n. q = (hash s t + d) mod n \<and> (\<forall>d' < d. (hash s t + d') mod n \<noteq> e)"
      by (auto simp: n_def)
  qed
  then show thesis using that mn by (simp add: s1_def n_def)
qed

lemma items_clear:
  assumes "length (table s) = size s" "p < size s" "table s ! p = Some r"
    and uniq: "\<And>q. q < size s \<Longrightarrow> table s ! q = Some r \<Longrightarrow> q = p"
  shows "items (clear_bucket s p) = items s - {r}"
proof (rule set_eqI)
  fix x
  have nth: "(table s)[p := None] ! q = (if q = p then None else table s ! q)" for q
    using assms(1,2) by simp
  have "x \<in> items (clear_bucket s p) \<longleftrightarrow> (\<exists>q < size s. (table s)[p := None] ! q = Some x)"
    using items_nth [of "clear_bucket s p"] assms(1) by (simp only: clear_bucket_fields length_list_update)
  also have "\<dots> \<longleftrightarrow> (\<exists>q < size s. q \<noteq> p \<and> table s ! q = Some x)"
    unfolding nth by (metis option.distinct(1))
  finally have in_clear: "x \<in> items (clear_bucket s p) \<longleftrightarrow> (\<exists>q < size s. q \<noteq> p \<and> table s ! q = Some x)" .
  have in_s: "x \<in> items s \<longleftrightarrow> (\<exists>q < size s. table s ! q = Some x)" by (rule items_nth) (rule assms(1))
  show "x \<in> items (clear_bucket s p) \<longleftrightarrow> x \<in> items s - {r}"
  proof (cases "x = r")
    case True
    then show ?thesis using in_clear uniq by blast
  next
    case False
    then have "q \<noteq> p" if "table s ! q = Some x" for q using that assms(3) by auto
    then show ?thesis using False in_clear in_s by blast
  qed
qed

text \<open>
  \<open>BRSetRemove\<close>: the item equal to the given one is taken out and returned, every other item
  stays and can still be found; the cleanup loop always ends.
\<close>

lemma BRSetRemove_spec:
  assumes wf: "set_wf s"
  obtains s' where "BRSetRemove s item = Some (s', member_of s item)" "set_wf s'"
    "items s' = items s - set_option (member_of s item)" "size s' = size s" "hash s' = hash s" "eq s' = eq s"
    "itemCount s' = itemCount s - (if member_of s item = None then 0 else 1)"
proof -
  note ok = set_wfD(1) [OF wf] and sz = set_wfD(2) [OF wf] and load = set_wfD(3) [OF wf]
  obtain d where d: "d < size s" "find_bucket s item = Some (home s item d)"
    "table s ! home s item d = member_of s item" "\<forall>d' < d. table s ! home s item d' \<noteq> None"
    using ok by (rule find_bucket_member)
  define p where "p = home s item d"
  have ps: "p < size s" using d(1) by (simp add: p_def)
  show thesis
  proof (cases "member_of s item")
    case None
    then have "BRSetRemove s item = Some (s, None)" using d by (simp add: BRSetRemove_def)
    with None wf show thesis by (intro that [of s]) simp_all
  next
    case (Some r)
    then have p: "table s ! p = Some r" using d(3) by (simp add: p_def)
    obtain m e where inv: "cleanup_inv (clear_bucket s p) ((p + 1) mod size s) m e" "m < size s"
      using ok ps p by (rule cleanup_start)
    have "itemCount (clear_bucket s p) \<le> load_limit (size (clear_bucket s p))" using load by simp
    from cleanup_loop [OF inv(1) this inv(2)]
    obtain s' where s': "cleanup (size s) (size s) (clear_bucket s p) ((p + 1) mod size s) = Some s'"
      "chains_ok s' {}" "items s' = items (clear_bucket s p)" "size s' = size s" "hash s' = hash s"
      "eq s' = eq s" "itemCount s' = itemCount s - 1" unfolding clear_bucket_fields by blast
    have uniq: "q = p" if "q < size s" "table s ! q = Some r" for q
      using chains_ok_distinct [OF ok that(1) ps that(2) p]
        item_equality.eq_refl [OF chains_okD(1) [OF ok]] by blast
    have "items (clear_bucket s p) = items s - {r}"
      using chains_okD(2) [OF ok] ps p uniq by (rule items_clear)
    moreover have "BRSetRemove s item = Some (s', Some r)"
      unfolding BRSetRemove_def d(2) p_def [symmetric] option.case p clear_bucket_def [symmetric] s'(1) by simp
    moreover have "set_wf s'" using s' sz load by (simp add: set_wf_def)
    ultimately show thesis using Some s' by (intro that [of s']) simp_all
  qed
qed

section \<open>Operations on a whole set or on two sets\<close>

lemma set_option_member_of:
  assumes "chains_ok s U"
  shows "set_option (member_of s x) = {t \<in> items s. eq s t x}"
  using member_of_Some [OF assms, of x] unfolding set_eq_iff elem_set by auto

text \<open>\<open>BRSetMinus\<close>: what is left are the items with no equal one in the other set.\<close>

lemma remove_all_spec:
  assumes "set_wf s"
  shows "\<exists>s'. remove_all s bs = Some s' \<and> set_wf s' \<and>
    items s' = {t \<in> items s. \<forall>x. Some x \<in> set bs \<longrightarrow> \<not> eq s t x} \<and> size s' = size s \<and> hash s' = hash s \<and> eq s' = eq s"
  using assms
proof (induction bs arbitrary: s)
  case Nil
  then show ?case by simp
next
  case (Cons b bs)
  show ?case
  proof (cases b)
    case None
    with Cons show ?thesis by simp
  next
    case (Some x)
    obtain s1 where s1: "BRSetRemove s x = Some (s1, member_of s x)" "set_wf s1"
      "items s1 = items s - set_option (member_of s x)" "size s1 = size s" "hash s1 = hash s" "eq s1 = eq s"
      using Cons.prems by (rule BRSetRemove_spec)
    have "items s1 = {t \<in> items s. \<not> eq s t x}"
      using s1(3) set_option_member_of [OF set_wfD(1) [OF Cons.prems]] by auto
    with Cons.IH [OF s1(2)] s1(1,4,5,6) Some show ?thesis by auto
  qed
qed

lemma BRSetMinus_spec:
  assumes "set_wf s"
  obtains s' where "BRSetMinus s other = Some s'" "set_wf s'"
    "items s' = {t \<in> items s. \<forall>x \<in> items other. \<not> eq s t x}" "hash s' = hash s" "eq s' = eq s"
  using remove_all_spec [OF assms, of "table other"] by (auto simp: BRSetMinus_def items_def)

text \<open>\<open>BRSetUnion\<close>: the items of the other set, and those of the first with no equal one there.\<close>

lemma add_all_spec:
  assumes "set_wf s" "itemCount s + bucket_count bs \<le> load_limit max_size"
    and "sorted_wrt (\<lambda>a b. \<forall>x y. a = Some x \<longrightarrow> b = Some y \<longrightarrow> \<not> eq s x y) bs"
  shows "\<exists>s'. add_all s bs = Some s' \<and> set_wf s' \<and>
    items s' = {t \<in> items s. \<forall>x. Some x \<in> set bs \<longrightarrow> \<not> eq s t x} \<union> {x. Some x \<in> set bs} \<and>
    hash s' = hash s \<and> eq s' = eq s"
  using assms
proof (induction bs arbitrary: s)
  case Nil
  then show ?case by simp
next
  case (Cons b bs)
  show ?case
  proof (cases b)
    case None
    with Cons show ?thesis by simp
  next
    case (Some x)
    have room: "member_of s x = None \<Longrightarrow> itemCount s < load_limit max_size"
      using Cons.prems(2) Some by simp
    obtain s1 where s1: "BRSetAdd s x = Some (s1, member_of s x)" "set_wf s1"
      "items s1 = items s - set_option (member_of s x) \<union> {x}" "hash s1 = hash s" "eq s1 = eq s"
      "itemCount s1 = (if member_of s x = None then itemCount s + 1 else itemCount s)"
      using Cons.prems(1) room by (rule BRSetAdd_spec)
    have it: "items s1 = {t \<in> items s. \<not> eq s t x} \<union> {x}"
      using s1(3) set_option_member_of [OF set_wfD(1) [OF Cons.prems(1)]] by auto
    have fresh: "\<not> eq s x y" if "Some y \<in> set bs" for y using Cons.prems(3) that Some by simp
    have sorted: "sorted_wrt (\<lambda>a b. \<forall>x y. a = Some x \<longrightarrow> b = Some y \<longrightarrow> \<not> eq s x y) bs"
      using Cons.prems(3) by simp
    have cnt: "itemCount s1 + bucket_count bs \<le> load_limit max_size"
      using Cons.prems(2) Some s1(6) by (simp split: if_splits)
    obtain s' where s': "add_all s1 bs = Some s'" "set_wf s'"
      "items s' = {t \<in> items s1. \<forall>x. Some x \<in> set bs \<longrightarrow> \<not> eq s1 t x} \<union> {x. Some x \<in> set bs}"
      "hash s' = hash s1" "eq s' = eq s1"
      using Cons.IH [OF s1(2) cnt sorted [folded s1(5)]] by blast
    have "items s' = {t \<in> items s. \<forall>x. Some x \<in> set (b # bs) \<longrightarrow> \<not> eq s t x} \<union> {x. Some x \<in> set (b # bs)}"
      unfolding s'(3) it s1(5) using fresh Some by auto
    with s' s1 Some show ?thesis by auto
  qed
qed

lemma sorted_buckets:
  assumes "chains_ok s U"
  shows "sorted_wrt (\<lambda>a b. \<forall>x y. a = Some x \<longrightarrow> b = Some y \<longrightarrow> \<not> eq s x y) (table s)"
  unfolding sorted_wrt_iff_nth_less
proof (intro allI impI notI)
  fix i j x y assume "i < j" "j < length (table s)" "table s ! i = Some x" "table s ! j = Some y" "eq s x y"
  then have "i = j"
    using chains_ok_distinct [OF assms, of i j x y] chains_okD(2) [OF assms] by simp
  with \<open>i < j\<close> show False by simp
qed

lemma BRSetUnion_spec:
  assumes "set_wf s" "chains_ok t U" "eq t = eq s" "itemCount s + itemCount t \<le> load_limit max_size"
  obtains s' where "BRSetUnion s t = Some s'" "set_wf s'"
    "items s' = {x \<in> items s. \<forall>y \<in> items t. \<not> eq s x y} \<union> items t" "hash s' = hash s" "eq s' = eq s"
proof -
  have cnt: "itemCount s + bucket_count (table t) \<le> load_limit max_size"
    using assms(4) chains_okD(2,3) [OF assms(2)] bucket_count_used [of t] by simp
  obtain s' where "add_all s (table t) = Some s'" "set_wf s'"
    "items s' = {x \<in> items s. \<forall>y. Some y \<in> set (table t) \<longrightarrow> \<not> eq s x y} \<union> {x. Some x \<in> set (table t)}"
    "hash s' = hash s" "eq s' = eq s"
    using add_all_spec [OF assms(1) cnt sorted_buckets [OF assms(2), unfolded assms(3)]] by blast
  then show thesis by (intro that [of s']) (auto simp: BRSetUnion_def items_def)
qed

text \<open>\<open>BRSetIntersects\<close>: whether some item of the other set has an equal one here.\<close>

lemma intersects_loop_spec:
  assumes "chains_ok s {}"
  shows "intersects_loop s bs = Some (\<exists>x. Some x \<in> set bs \<and> member_of s x \<noteq> None)"
proof (induction bs)
  case Nil
  show ?case by simp
next
  case (Cons b bs)
  then show ?case
    by (cases b) (auto simp: BRSetGet_correct [OF assms])
qed

lemma BRSetIntersects_correct:
  assumes "chains_ok s {}"
  shows "BRSetIntersects s t = Some (\<exists>x \<in> items t. \<exists>y \<in> items s. eq s y x)"
  using member_of_None [of s] by (auto simp: BRSetIntersects_def intersects_loop_spec [OF assms] items_def)

text \<open>\<open>BRSetAll\<close> lists each item once; \<open>BRSetClear\<close> leaves an empty well-formed set.\<close>

lemma set_map_filter_id: "set (List.map_filter id bs) = {x. Some x \<in> set bs}"
  by (induction bs) (auto simp: List.map_filter_def)

lemma length_map_filter_id: "length (List.map_filter id bs) = bucket_count bs"
  by (simp add: List.map_filter_def)

lemma BRSetAll_correct:
  assumes "chains_ok s U" "BRSetCount s \<le> n"
  shows "set (BRSetAll s n) = items s" "length (BRSetAll s n) = BRSetCount s"
  using chains_okD(2,3) [OF assms(1)] assms(2) bucket_count_used [of s]
  by (simp_all add: BRSetAll_def BRSetCount_def length_map_filter_id set_map_filter_id items_def)

lemma BRSetClear_wf:
  assumes "set_wf s"
  shows "set_wf (BRSetClear s)" "items (BRSetClear s) = {}"
proof -
  have u: "used (BRSetClear s) = {}" by (auto simp: used_def BRSetClear_def)
  have "0 < size s" by (rule chains_ok_size [OF set_wfD(1) [OF assms]])
  then show "set_wf (BRSetClear s)"
    using assms chains_okD(1) [OF set_wfD(1) [OF assms]] u
    by (auto simp: set_wf_def chains_ok_def BRSetClear_def)
  show "items (BRSetClear s) = {}" by (auto simp: items_def BRSetClear_def)
qed

section \<open>Properties\<close>

text \<open>
  C25: adding an item to a well-formed set always returns (the probing and the growing recursion end),
  keeps the set well-formed, replaces the equal item if there is one (which is the value returned),
  keeps every other item and counts the items correctly, across the table growing to its next size.
\<close>

theorem BRSetAdd_refines:
  assumes "set_wf s" "itemCount s < load_limit max_size"
  shows "\<exists>s'. BRSetAdd s item = Some (s', member_of s item) \<and> set_wf s' \<and>
    items s' = items s - set_option (member_of s item) \<union> {item} \<and>
    hash s' = hash s \<and> eq s' = eq s \<and> BRSetCount s' = card (items s')"
proof -
  have room: "member_of s item = None \<Longrightarrow> itemCount s < load_limit max_size" by (rule assms(2))
  obtain s' where s': "BRSetAdd s item = Some (s', member_of s item)" "set_wf s'"
    "items s' = items s - set_option (member_of s item) \<union> {item}" "hash s' = hash s" "eq s' = eq s"
    using assms(1) room by (rule BRSetAdd_spec)
  moreover have "BRSetCount s' = card (items s')"
    using items_finite_card(2) [OF set_wfD(1) [OF s'(2)]] by (simp add: BRSetCount_def)
  ultimately show ?thesis by blast
qed

text \<open>A set of numbers below 2^63 under their own value as hash, for the witnesses.\<close>

definition nat_set :: "nat brset" where
  "nat_set = BRSetNew (\<lambda>n. n) (\<lambda>a b. a = b) 1"

lemma nat_equality: "item_equality (\<lambda>n :: nat. n) (\<lambda>a b. a = b)"
  by unfold_locales auto

lemma size_index_1: "size_index (Suc 0) + 1 < TABLE_SIZES_LEN"
  by (simp add: size_index_def TABLE_SIZES_LEN_def tableSizes_def)

lemma max_size_load: "load_limit max_size > 1000"
  by (simp add: load_limit_def max_size_def)

lemma nat_set_wf: "set_wf nat_set" "items nat_set = {}" "itemCount nat_set = 0"
  using BRSetNew_wf [OF nat_equality size_index_1] by (simp_all only: nat_set_def One_nat_def)

lemma BRSetAdd_refines_witness:
  "\<exists>s'. BRSetAdd nat_set 7 = Some (s', None) \<and> set_wf s' \<and> items s' = {7}"
proof -
  have m: "member_of nat_set 7 = None" by (simp add: member_of_None nat_set_wf(2))
  have "itemCount nat_set < load_limit max_size" using max_size_load by (simp only: nat_set_wf)
  from BRSetAdd_refines [OF nat_set_wf(1) this, of 7] show ?thesis
    unfolding m nat_set_wf(2) by auto
qed

text \<open>
  C28: removing an item from a well-formed set always returns (the cleanup loop ends); it takes out exactly
  the item equal to the given one, returns it, and leaves a well-formed set in which every other
  item is still there to be found.
\<close>

theorem BRSetRemove_refines:
  assumes "set_wf s"
  shows "\<exists>s'. BRSetRemove s item = Some (s', member_of s item) \<and> set_wf s' \<and>
    items s' = items s - set_option (member_of s item) \<and> BRSetCount s' = card (items s') \<and>
    (\<forall>x. BRSetGet s' x = Some (member_of s' x))"
proof -
  obtain s' where s': "BRSetRemove s item = Some (s', member_of s item)" "set_wf s'"
    "items s' = items s - set_option (member_of s item)"
    using assms by (rule BRSetRemove_spec)
  moreover have "BRSetCount s' = card (items s')"
    using items_finite_card(2) [OF set_wfD(1) [OF s'(2)]] by (simp add: BRSetCount_def)
  moreover have "\<forall>x. BRSetGet s' x = Some (member_of s' x)"
    using BRSetGet_correct [OF set_wfD(1) [OF s'(2)]] by blast
  ultimately show ?thesis by blast
qed

lemma two_items: "\<exists>s :: nat brset. set_wf s \<and> items s = {7, 9} \<and> eq s = (\<lambda>a b. a = b)"
proof -
  have e: "eq nat_set = (\<lambda>a b. a = b)" by (simp add: nat_set_def BRSetNew_def BRSetInit_def Let_def)
  have load: "itemCount nat_set < load_limit max_size" "itemCount nat_set + 1 < load_limit max_size"
    using max_size_load by (simp_all add: nat_set_wf(3))
  obtain s where s: "set_wf s" "items s = items nat_set - set_option (member_of nat_set 7) \<union> {7}" "eq s = eq nat_set"
    "itemCount s = (if member_of nat_set 7 = None then itemCount nat_set + 1 else itemCount nat_set)"
    using BRSetAdd_spec [OF nat_set_wf(1) load(1)] by metis
  have i: "items s = {7}" using s(2) by (simp add: nat_set_wf(2))
  have "itemCount s < load_limit max_size" using s(4) load by (simp split: if_splits)
  from BRSetAdd_spec [OF s(1) this, of 9] obtain t where t: "set_wf t" "items t = items s - set_option (member_of s 9) \<union> {9}" "eq t = eq s"
    by metis
  have "set_option (member_of s 9) = {}"
    using set_option_member_of [OF set_wfD(1) [OF s(1)], of 9] by (auto simp: i s(3) e)
  then show ?thesis using t i s(3) e by auto
qed

lemma BRSetRemove_refines_witness:
  "\<exists>s s'. items s = {7, 9 :: nat} \<and> BRSetRemove s 7 = Some (s', Some 7) \<and> set_wf s' \<and> items s' = {9}"
proof -
  obtain s :: "nat brset" where s: "set_wf s" "items s = {7, 9}" "eq s = (\<lambda>a b. a = b)" using two_items by blast
  have "set_option (member_of s 7) = {7}"
    using set_option_member_of [OF set_wfD(1) [OF s(1)], of 7] by (auto simp: s(2,3))
  then have "member_of s 7 = Some 7" by (cases "member_of s 7") auto
  with BRSetRemove_refines [OF s(1), of 7] s(2) obtain s' where "BRSetRemove s 7 = Some (s', Some 7)" "set_wf s'" "items s' = {9}"
    by auto
  with s(2) show ?thesis by blast
qed

text \<open>
  The union of two well-formed sets over one equality returns, is well-formed and holds the items of the
  other set with those of the first that have no equal one there; \<open>BRSetMinus\<close> returns
  and keeps exactly the items with no equal one in the other set.
\<close>

theorem BRSetUnion_Minus_refine:
  assumes "set_wf s" "set_wf t" "eq t = eq s" "itemCount s + itemCount t \<le> load_limit max_size"
  shows "(\<exists>u. BRSetUnion s t = Some u \<and> set_wf u \<and>
      items u = {x \<in> items s. \<forall>y \<in> items t. \<not> eq s x y} \<union> items t) \<and>
    (\<exists>d. BRSetMinus s t = Some d \<and> set_wf d \<and> items d = {x \<in> items s. \<forall>y \<in> items t. \<not> eq s x y})"
proof -
  obtain u where u: "BRSetUnion s t = Some u" "set_wf u"
    "items u = {x \<in> items s. \<forall>y \<in> items t. \<not> eq s x y} \<union> items t"
    using assms(1) set_wfD(1) [OF assms(2)] assms(3,4) by (rule BRSetUnion_spec)
  obtain d where d: "BRSetMinus s t = Some d" "set_wf d" "items d = {x \<in> items s. \<forall>y \<in> items t. \<not> eq s x y}"
    using assms(1) by (rule BRSetMinus_spec)
  from u d show ?thesis by blast
qed

lemma BRSetUnion_Minus_refine_witness:
  "(\<exists>u. BRSetUnion nat_set nat_set = Some u \<and> items u = {}) \<and> (\<exists>d. BRSetMinus nat_set nat_set = Some d \<and> items d = {})"
proof -
  have "itemCount nat_set + itemCount nat_set \<le> load_limit max_size" by (simp add: nat_set_wf(3))
  from BRSetUnion_Minus_refine [OF nat_set_wf(1) nat_set_wf(1) refl this] show ?thesis
    unfolding nat_set_wf(2) by auto
qed

end
