(* ===== verification/IntBytes.thy ===== *)
theory IntBytes
  imports Prelude
begin

text \<open>
  The fixed-width integers of BRInt.h: the unaligned access helpers
  \<open>UIntNSetLE/BE\<close> and \<open>UIntNGetLE/BE\<close>, the 128 to 512 bit unions with their
  equality and zero tests, and the hexadecimal macros.

  A union \<open>UIntN\<close> is an \<open>N word\<close> whose byte \<open>i\<close> (the view \<open>u8[i]\<close>) is its bits
  \<open>8 i .. 8 i + 7\<close>; the views \<open>u32[i]\<close> and \<open>u64[i]\<close> are those of a little-endian
  machine, which BRUtilMath.h requires.
\<close>

unbundle bit_operations_syntax

section \<open>Unaligned memory access helpers\<close>

definition UInt16SetBE :: "u16 \<Rightarrow> byte list" where
  "UInt16SetBE u = [ucast (drop_bit 8 u AND 0xff), ucast (u AND 0xff)]"

definition UInt16SetLE :: "u16 \<Rightarrow> byte list" where
  "UInt16SetLE u = [ucast (u AND 0xff), ucast (drop_bit 8 u AND 0xff)]"

definition UInt32SetBE :: "u32 \<Rightarrow> byte list" where
  "UInt32SetBE u = [ucast (drop_bit 24 u AND 0xff), ucast (drop_bit 16 u AND 0xff),
     ucast (drop_bit 8 u AND 0xff), ucast (u AND 0xff)]"

definition UInt32SetLE :: "u32 \<Rightarrow> byte list" where
  "UInt32SetLE u = [ucast (u AND 0xff), ucast (drop_bit 8 u AND 0xff),
     ucast (drop_bit 16 u AND 0xff), ucast (drop_bit 24 u AND 0xff)]"

definition UInt64SetBE :: "u64 \<Rightarrow> byte list" where
  "UInt64SetBE u = [ucast (drop_bit 56 u AND 0xff), ucast (drop_bit 48 u AND 0xff),
     ucast (drop_bit 40 u AND 0xff), ucast (drop_bit 32 u AND 0xff),
     ucast (drop_bit 24 u AND 0xff), ucast (drop_bit 16 u AND 0xff),
     ucast (drop_bit 8 u AND 0xff), ucast (u AND 0xff)]"

definition UInt64SetLE :: "u64 \<Rightarrow> byte list" where
  "UInt64SetLE u = [ucast (u AND 0xff), ucast (drop_bit 8 u AND 0xff),
     ucast (drop_bit 16 u AND 0xff), ucast (drop_bit 24 u AND 0xff),
     ucast (drop_bit 32 u AND 0xff), ucast (drop_bit 40 u AND 0xff),
     ucast (drop_bit 48 u AND 0xff), ucast (drop_bit 56 u AND 0xff)]"

definition UInt16GetBE :: "byte list \<Rightarrow> u16" where
  "UInt16GetBE b = push_bit 8 (ucast (b ! 0)) OR ucast (b ! 1)"

definition UInt16GetLE :: "byte list \<Rightarrow> u16" where
  "UInt16GetLE b = push_bit 8 (ucast (b ! 1)) OR ucast (b ! 0)"

definition UInt32GetBE :: "byte list \<Rightarrow> u32" where
  "UInt32GetBE b = push_bit 24 (ucast (b ! 0)) OR push_bit 16 (ucast (b ! 1)) OR
     push_bit 8 (ucast (b ! 2)) OR ucast (b ! 3)"

definition UInt32GetLE :: "byte list \<Rightarrow> u32" where
  "UInt32GetLE b = push_bit 24 (ucast (b ! 3)) OR push_bit 16 (ucast (b ! 2)) OR
     push_bit 8 (ucast (b ! 1)) OR ucast (b ! 0)"

definition UInt64GetBE :: "byte list \<Rightarrow> u64" where
  "UInt64GetBE b = push_bit 56 (ucast (b ! 0)) OR push_bit 48 (ucast (b ! 1)) OR
     push_bit 40 (ucast (b ! 2)) OR push_bit 32 (ucast (b ! 3)) OR
     push_bit 24 (ucast (b ! 4)) OR push_bit 16 (ucast (b ! 5)) OR
     push_bit 8 (ucast (b ! 6)) OR ucast (b ! 7)"

definition UInt64GetLE :: "byte list \<Rightarrow> u64" where
  "UInt64GetLE b = push_bit 56 (ucast (b ! 7)) OR push_bit 48 (ucast (b ! 6)) OR
     push_bit 40 (ucast (b ! 5)) OR push_bit 32 (ucast (b ! 4)) OR
     push_bit 24 (ucast (b ! 3)) OR push_bit 16 (ucast (b ! 2)) OR
     push_bit 8 (ucast (b ! 1)) OR ucast (b ! 0)"

lemmas uint_set_defs = UInt16SetBE_def UInt16SetLE_def UInt32SetBE_def UInt32SetLE_def
  UInt64SetBE_def UInt64SetLE_def

lemmas uint_get_defs = UInt16GetBE_def UInt16GetLE_def UInt32GetBE_def UInt32GetLE_def
  UInt64GetBE_def UInt64GetLE_def

lemma length_uint_set [simp, len_simps]:
  "length (UInt16SetBE u16) = 2" "length (UInt16SetLE u16) = 2"
  "length (UInt32SetBE u32) = 4" "length (UInt32SetLE u32) = 4"
  "length (UInt64SetBE u64) = 8" "length (UInt64SetLE u64) = 8"
  by (simp_all add: uint_set_defs)

lemma mask_byte_ucast: "(ucast (x AND 0xff) :: byte) = ucast (x :: 'a::len word)"
proof (rule bit_word_eqI)
  fix n assume "n < LENGTH(8)"
  then have n: "n < 8" by simp
  have "bit (0xff :: 'a word) n \<longleftrightarrow> n < LENGTH('a)"
    using n by (auto simp: numeral_eq_Suc less_Suc_eq bit_Suc bit_numeral_word_iff)
  then show "bit (ucast (x AND 0xff) :: byte) n = bit (ucast x :: byte) n"
    using n by (auto simp: bit_simps dest: bit_imp_le_length)
qed

lemma nth_Cons_small:
  "(x # xs) ! 1 = xs ! 0" "(x # xs) ! 2 = xs ! 1" "(x # xs) ! 3 = xs ! 2" "(x # xs) ! 4 = xs ! 3"
  "(x # xs) ! 5 = xs ! 4" "(x # xs) ! 6 = xs ! 5" "(x # xs) ! 7 = xs ! 6"
  by (simp_all add: nth_Cons')

lemma byte_lane:
  "bit (push_bit k (ucast (ucast (drop_bit k u) :: byte)) :: 'a::len word) n
     \<longleftrightarrow> k \<le> n \<and> n < k + 8 \<and> bit (u :: 'a word) n"
  by (auto simp: bit_simps dest: bit_imp_le_length)

lemma byte_lane0:
  "bit (ucast (ucast u :: byte) :: 'a::len word) n \<longleftrightarrow> n < 8 \<and> bit (u :: 'a word) n"
  by (auto simp: bit_simps dest: bit_imp_le_length)

lemma uint_get_set [codec_simps]:
  "UInt16GetBE (UInt16SetBE a @ r) = a" "UInt16GetLE (UInt16SetLE a @ r) = a"
  "UInt32GetBE (UInt32SetBE b @ r) = b" "UInt32GetLE (UInt32SetLE b @ r) = b"
  "UInt64GetBE (UInt64SetBE c @ r) = c" "UInt64GetLE (UInt64SetLE c @ r) = c"
  by (rule bit_word_eqI;
      simp only: uint_get_defs uint_set_defs mask_byte_ucast append_Cons nth_Cons_0 nth_Cons_small;
      simp only: bit_or_iff byte_lane byte_lane0; auto)+

lemma uint_get_set0 [codec_simps]:
  "UInt16GetBE (UInt16SetBE a) = a" "UInt16GetLE (UInt16SetLE a) = a"
  "UInt32GetBE (UInt32SetBE b) = b" "UInt32GetLE (UInt32SetLE b) = b"
  "UInt64GetBE (UInt64SetBE c) = c" "UInt64GetLE (UInt64SetLE c) = c"
  using uint_get_set [where r = "[]"] by simp_all

text \<open>The little-endian setters are the base 256 digits of the value, and the getters read them back.\<close>

lemma of_nat_drop_bit: "(of_nat (drop_bit k (unat u)) :: byte) = ucast (drop_bit k (u :: 'a::len word))"
  by (rule bit_word_eqI) (auto simp: bit_simps dest: bit_imp_le_length)

lemma of_nat_div_byte:
  "(of_nat (unat u div 2 ^ k) :: byte) = ucast (drop_bit k (u :: 'a::len word))"
  using of_nat_drop_bit [of k u] by (simp only: drop_bit_eq_div)

lemma of_nat_unat_byte: "(of_nat (unat u) :: byte) = ucast (u :: 'a::len word)"
  using of_nat_drop_bit [of 0 u] by simp

lemma le_bytes_div:
  "le_bytes n (v div 2 ^ k) = (if n = 0 then [] else of_nat (v div 2 ^ k) # le_bytes (n - 1) (v div 2 ^ (k + 8)))"
  by (cases n) (simp_all add: div_mult2_eq power_add)

lemma le_bytes_unat_start:
  "le_bytes n (unat u) = (if n = 0 then [] else ucast u # le_bytes (n - 1) (unat u div 2 ^ 8))"
  by (cases n) (simp_all add: of_nat_unat_byte)

lemma UIntSetLE_le_bytes:
  "UInt16SetLE a = le_bytes 2 (unat a)"
  "UInt32SetLE b = le_bytes 4 (unat b)"
  "UInt64SetLE c = le_bytes 8 (unat c)"
  by (simp_all only: uint_set_defs mask_byte_ucast)
    (simp_all add: le_bytes_unat_start [of "numeral k" for k] le_bytes_div [where k = "numeral k" for k]
      of_nat_div_byte del: power_numeral)

lemma UIntSetBE_rev:
  "UInt16SetBE a = rev (UInt16SetLE a)" "UInt32SetBE b = rev (UInt32SetLE b)"
  "UInt64SetBE c = rev (UInt64SetLE c)"
  by (simp_all add: uint_set_defs)

section \<open>The 128 to 512 bit unions\<close>

type_synonym UInt128 = "128 word"
type_synonym UInt160 = "160 word"
type_synonym UInt256 = "256 word"
type_synonym UInt512 = "512 word"

definition u8_view :: "'a::len word \<Rightarrow> nat \<Rightarrow> byte" where
  "u8_view x i = ucast (drop_bit (8 * i) x)"

definition u32_view :: "'a::len word \<Rightarrow> nat \<Rightarrow> u32" where
  "u32_view x i = ucast (drop_bit (32 * i) x)"

definition u64_view :: "'a::len word \<Rightarrow> nat \<Rightarrow> u64" where
  "u64_view x i = ucast (drop_bit (64 * i) x)"

definition UInt128Eq :: "UInt128 \<Rightarrow> UInt128 \<Rightarrow> bool" where
  "UInt128Eq a b \<longleftrightarrow> u64_view a 0 = u64_view b 0 \<and> u64_view a 1 = u64_view b 1"

definition UInt160Eq :: "UInt160 \<Rightarrow> UInt160 \<Rightarrow> bool" where
  "UInt160Eq a b \<longleftrightarrow> u32_view a 0 = u32_view b 0 \<and> u32_view a 1 = u32_view b 1 \<and>
     u32_view a 2 = u32_view b 2 \<and> u32_view a 3 = u32_view b 3 \<and> u32_view a 4 = u32_view b 4"

definition UInt256Eq :: "UInt256 \<Rightarrow> UInt256 \<Rightarrow> bool" where
  "UInt256Eq a b \<longleftrightarrow> u64_view a 0 = u64_view b 0 \<and> u64_view a 1 = u64_view b 1 \<and>
     u64_view a 2 = u64_view b 2 \<and> u64_view a 3 = u64_view b 3"

definition UInt512Eq :: "UInt512 \<Rightarrow> UInt512 \<Rightarrow> bool" where
  "UInt512Eq a b \<longleftrightarrow> u64_view a 0 = u64_view b 0 \<and> u64_view a 1 = u64_view b 1 \<and>
     u64_view a 2 = u64_view b 2 \<and> u64_view a 3 = u64_view b 3 \<and>
     u64_view a 4 = u64_view b 4 \<and> u64_view a 5 = u64_view b 5 \<and>
     u64_view a 6 = u64_view b 6 \<and> u64_view a 7 = u64_view b 7"

definition UInt128IsZero :: "UInt128 \<Rightarrow> bool" where
  "UInt128IsZero u \<longleftrightarrow> (u64_view u 0 OR u64_view u 1) = 0"

definition UInt160IsZero :: "UInt160 \<Rightarrow> bool" where
  "UInt160IsZero u \<longleftrightarrow>
     (u32_view u 0 OR u32_view u 1 OR u32_view u 2 OR u32_view u 3 OR u32_view u 4) = 0"

definition UInt256IsZero :: "UInt256 \<Rightarrow> bool" where
  "UInt256IsZero u \<longleftrightarrow> (u64_view u 0 OR u64_view u 1 OR u64_view u 2 OR u64_view u 3) = 0"

definition UInt512IsZero :: "UInt512 \<Rightarrow> bool" where
  "UInt512IsZero u \<longleftrightarrow> (u64_view u 0 OR u64_view u 1 OR u64_view u 2 OR u64_view u 3 OR
     u64_view u 4 OR u64_view u 5 OR u64_view u 6 OR u64_view u 7) = 0"

text \<open>The unaligned copies: \<open>UIntNSet\<close> writes the bytes of the union, \<open>UIntNGet\<close> reads them.\<close>

definition bytes_of :: "nat \<Rightarrow> 'a::len word \<Rightarrow> byte list" where
  "bytes_of n u = map (u8_view u) [0..<n]"

definition word_of_bytes :: "byte list \<Rightarrow> 'a::len word" where
  "word_of_bytes bs = foldr (\<lambda>b w. ucast b OR push_bit 8 w) bs 0"

definition UInt128Set :: "UInt128 \<Rightarrow> byte list" where "UInt128Set u = bytes_of 16 u"

definition UInt160Set :: "UInt160 \<Rightarrow> byte list" where "UInt160Set u = bytes_of 20 u"

definition UInt256Set :: "UInt256 \<Rightarrow> byte list" where "UInt256Set u = bytes_of 32 u"

definition UInt128Get :: "byte list \<Rightarrow> UInt128" where "UInt128Get b = word_of_bytes (take 16 b)"

definition UInt160Get :: "byte list \<Rightarrow> UInt160" where "UInt160Get b = word_of_bytes (take 20 b)"

definition UInt256Get :: "byte list \<Rightarrow> UInt256" where "UInt256Get b = word_of_bytes (take 32 b)"

definition UInt256Reverse :: "UInt256 \<Rightarrow> UInt256" where
  "UInt256Reverse u = word_of_bytes (rev (bytes_of 32 u))"

lemma length_bytes_of [simp, len_simps]: "length (bytes_of n u) = n"
  by (simp add: bytes_of_def)

lemma length_union_set [simp, len_simps]:
  "length (UInt128Set a) = 16" "length (UInt160Set b) = 20" "length (UInt256Set c) = 32"
  by (simp_all add: UInt128Set_def UInt160Set_def UInt256Set_def)

lemma bit_word_of_bytes:
  "bit (word_of_bytes bs :: 'a::len word) n \<longleftrightarrow>
     n < LENGTH('a) \<and> n div 8 < length bs \<and> bit (bs ! (n div 8)) (n mod 8)"
proof (induction bs arbitrary: n)
  case Nil
  then show ?case by (simp add: word_of_bytes_def)
next
  case (Cons b bs)
  have eq: "word_of_bytes (b # bs) = (ucast b OR push_bit 8 (word_of_bytes bs) :: 'a word)"
    by (simp add: word_of_bytes_def)
  show ?case
  proof (cases "n < 8")
    case True
    then show ?thesis
      by (simp only: eq) (auto simp: bit_simps dest: bit_imp_le_length)
  next
    case False
    then have "n div 8 = Suc ((n - 8) div 8)" "(n - 8) mod 8 = n mod 8"
      by (simp_all add: le_div_geq le_mod_geq)
    with False show ?thesis
      by (simp only: eq) (auto simp: bit_simps Cons.IH dest: bit_imp_le_length)
  qed
qed

lemma bit_u8_view: "bit (u8_view u i) n \<longleftrightarrow> n < 8 \<and> bit u (8 * i + n)"
  by (auto simp: u8_view_def bit_simps dest: bit_imp_le_length)

lemma word_of_bytes_bytes_of [codec_simps]:
  assumes "LENGTH('a) = 8 * n"
  shows "word_of_bytes (bytes_of n u @ r) = (u :: 'a::len word)"
proof (rule bit_word_eqI)
  fix k assume k: "k < LENGTH('a)"
  with assms have "k div 8 < n" by auto
  with k show "bit (word_of_bytes (bytes_of n u @ r) :: 'a word) k = bit u k"
    by (simp add: bit_word_of_bytes bytes_of_def nth_append bit_u8_view)
qed

lemma bytes_of_word_of_bytes [codec_simps]:
  assumes "length bs = n" "LENGTH('a) = 8 * n"
  shows "bytes_of n (word_of_bytes bs :: 'a::len word) = bs"
proof (rule nth_equalityI)
  show "length (bytes_of n (word_of_bytes bs :: 'a word)) = length bs" using assms by simp
next
  fix i assume "i < length (bytes_of n (word_of_bytes bs :: 'a word))"
  then have i: "i < n" by simp
  show "bytes_of n (word_of_bytes bs :: 'a word) ! i = bs ! i"
    by (rule bit_word_eqI) (use i assms in \<open>auto simp: bytes_of_def bit_u8_view bit_word_of_bytes\<close>)
qed

lemma UInt_get_set [codec_simps]:
  "UInt128Get (UInt128Set a @ r) = a" "UInt160Get (UInt160Set b @ r) = b"
  "UInt256Get (UInt256Set c @ r) = c"
  using word_of_bytes_bytes_of [of 16 a "[]"] word_of_bytes_bytes_of [of 20 b "[]"]
    word_of_bytes_bytes_of [of 32 c "[]"]
  by (simp_all add: UInt128Get_def UInt160Get_def UInt256Get_def UInt128Set_def UInt160Set_def UInt256Set_def)

lemma UInt256Get_Set0 [codec_simps]: "UInt256Get (UInt256Set c) = c"
  using UInt_get_set(3) [of c "[]"] by simp

lemma UInt256Set_Get [codec_simps]: "length b = 32 \<Longrightarrow> UInt256Set (UInt256Get b) = b"
  by (simp add: UInt256Get_def UInt256Set_def bytes_of_word_of_bytes)

text \<open>The comparisons through the word views decide equality of the unions.\<close>

lemma views_eq:
  fixes a b :: "'a::len word"
  assumes "LENGTH('a) = w * k" "0 < w"
  shows "(\<forall>i<k. take_bit w (drop_bit (w * i) a) = take_bit w (drop_bit (w * i) b)) \<longleftrightarrow> a = b"
proof
  assume eq: "\<forall>i<k. take_bit w (drop_bit (w * i) a) = take_bit w (drop_bit (w * i) b)"
  show "a = b"
  proof (rule bit_word_eqI)
    fix n assume n: "n < LENGTH('a)"
    with assms have "n div w < k" by (simp add: less_mult_imp_div_less mult.commute)
    with eq have "bit (take_bit w (drop_bit (w * (n div w)) a)) (n mod w)
        = bit (take_bit w (drop_bit (w * (n div w)) b)) (n mod w)" by simp
    with assms show "bit a n = bit b n" by (simp add: bit_take_bit_iff bit_drop_bit_eq)
  qed
qed simp

lemma ucast_eq_take_bit:
  "(ucast (a :: 'a::len word) :: 'b::len word) = ucast b \<longleftrightarrow> take_bit LENGTH('b) a = take_bit LENGTH('b) (b :: 'a word)"
  by (auto simp: bit_eq_iff bit_simps dest: bit_imp_le_length)

lemma ex_less_numeral: "(\<forall>i<numeral k. P i) \<longleftrightarrow> (\<forall>i<pred_numeral k. P i) \<and> P (pred_numeral k)" for P :: "nat \<Rightarrow> bool"
  by (auto simp: numeral_eq_Suc less_Suc_eq)

lemma UIntEq_iff [simp]:
  "UInt128Eq a b \<longleftrightarrow> a = b" "UInt160Eq c d \<longleftrightarrow> c = d" "UInt256Eq e f \<longleftrightarrow> e = f" "UInt512Eq g h \<longleftrightarrow> g = h"
proof -
  show "UInt128Eq a b \<longleftrightarrow> a = b"
    using views_eq [of 64 2 a b] unfolding UInt128Eq_def u64_view_def ucast_eq_take_bit
    by (simp add: numeral_eq_Suc less_Suc_eq all_conj_distrib)
  show "UInt160Eq c d \<longleftrightarrow> c = d"
    using views_eq [of 32 5 c d] unfolding UInt160Eq_def u32_view_def ucast_eq_take_bit
    by (simp add: ex_less_numeral)
  show "UInt256Eq e f \<longleftrightarrow> e = f"
    using views_eq [of 64 4 e f] unfolding UInt256Eq_def u64_view_def ucast_eq_take_bit
    by (simp add: ex_less_numeral)
  show "UInt512Eq g h \<longleftrightarrow> g = h"
    using views_eq [of 64 8 g h] unfolding UInt512Eq_def u64_view_def ucast_eq_take_bit
    by (simp add: ex_less_numeral)
qed

lemma view_zero: "u64_view (0 :: 'a::len word) i = 0" "u32_view (0 :: 'a::len word) i = 0"
  by (simp_all add: u64_view_def u32_view_def)

lemma UIntIsZero_iff [simp]:
  "UInt128IsZero a \<longleftrightarrow> a = 0" "UInt160IsZero b \<longleftrightarrow> b = 0" "UInt256IsZero c \<longleftrightarrow> c = 0" "UInt512IsZero d \<longleftrightarrow> d = 0"
  using UIntEq_iff(1) [of a 0, unfolded UInt128Eq_def view_zero]
    UIntEq_iff(2) [of b 0, unfolded UInt160Eq_def view_zero]
    UIntEq_iff(3) [of c 0, unfolded UInt256Eq_def view_zero]
    UIntEq_iff(4) [of d 0, unfolded UInt512Eq_def view_zero]
  by (simp_all add: UInt128IsZero_def UInt160IsZero_def UInt256IsZero_def UInt512IsZero_def or_eq_0_iff)

lemma UInt256Reverse_involution: "UInt256Reverse (UInt256Reverse u) = u"
proof -
  have "bytes_of 32 (UInt256Reverse u) = rev (bytes_of 32 u)"
    by (simp add: UInt256Reverse_def bytes_of_word_of_bytes)
  then show ?thesis
    using word_of_bytes_bytes_of [of 32 u "[]"] by (simp add: UInt256Reverse_def)
qed

section \<open>Hexadecimal digits\<close>

text \<open>
  \<open>_hexc(u)\<close> is the digit of the low four bits of \<open>u\<close>; \<open>_hexu(c)\<close> is the value of a digit
  or -1, an \<open>int\<close>. Both work on character codes.
\<close>

definition hexc :: "byte \<Rightarrow> byte" where
  "hexc u = (u AND 0x0f) + (if (u AND 0x0f) \<le> 9 then 48 else 97 - 0x0a)"

definition hexu :: "byte \<Rightarrow> int" where
  "hexu c = (if 48 \<le> c \<and> c \<le> 57 then uint c - 48
             else if 97 \<le> c \<and> c \<le> 102 then uint c - (97 - 0x0a)
             else if 65 \<le> c \<and> c \<le> 70 then uint c - (65 - 0x0a) else -1)"

text \<open>\<open>u256hex\<close> and \<open>uint256\<close>: the digits of the 32 bytes in memory order, and back; each
  byte is assembled from two \<open>int\<close> digits and truncated to 8 bits.\<close>

definition hex_byte :: "byte \<Rightarrow> byte \<Rightarrow> byte" where
  "hex_byte c d = of_int (push_bit 4 (hexu c) OR hexu d)"

definition u256hex :: "UInt256 \<Rightarrow> byte list" where
  "u256hex u = concat (map (\<lambda>b. [hexc (drop_bit 4 b), hexc b]) (bytes_of 32 u))"

fun hex_pairs :: "byte list \<Rightarrow> byte list" where
  "hex_pairs (c # d # s) = hex_byte c d # hex_pairs s"
| "hex_pairs s = []"

definition uint256 :: "byte list \<Rightarrow> UInt256" where
  "uint256 s = word_of_bytes (hex_pairs (take 64 s))"

lemma byte_all: "(\<forall>b :: byte. P b) \<longleftrightarrow> (\<forall>k \<in> set [0..<256]. P (of_nat k))"
proof
  assume all: "\<forall>k \<in> set [0..<256]. P (of_nat k :: byte)"
  show "\<forall>b. P b"
  proof
    fix b :: byte
    have "unat b \<in> set [0..<256]" using unat_byte_less [of b] by (simp only: set_upt atLeastLessThan_iff le0 simp_thms)
    with all have "P (of_nat (unat b))" by (rule bspec)
    then show "P b" by simp
  qed
qed simp

lemma hex_byte_hexc_all: "\<forall>k \<in> set [0..<256]. hex_byte (hexc (drop_bit 4 (of_nat k))) (hexc (of_nat k)) = of_nat k"
  by code_simp

lemma hex_byte_hexc [codec_simps]: "hex_byte (hexc (drop_bit 4 b)) (hexc b) = b"
  using hex_byte_hexc_all byte_all [of "\<lambda>b. hex_byte (hexc (drop_bit 4 b)) (hexc b) = b"] by blast

lemma hex_pairs_digits [codec_simps]:
  "hex_pairs (concat (map (\<lambda>b. [hexc (drop_bit 4 b), hexc b]) bs)) = bs"
  by (induction bs) (simp_all add: hex_byte_hexc)

lemma length_digits: "length (concat (map (\<lambda>b. [hexc (drop_bit 4 b), hexc b]) bs)) = 2 * length bs"
  by (induction bs) simp_all

section \<open>The number in the bytes\<close>

lemma unat_u8_view: "unat (u8_view u i) = unat u div 256 ^ i mod 256" for u :: "'a::len word"
proof -
  have "unat (u8_view u i) = take_bit 8 (drop_bit (8 * i) (unat u))"
    unfolding u8_view_def by (simp only: unsigned_ucast_eq unsigned_take_bit_eq unat_drop_bit_eq len_num0 len_bit0 len_bit1 len_num1) simp
  then show ?thesis by (simp add: take_bit_eq_mod drop_bit_eq_div power_mult)
qed

lemma le_val_bytes_of: "le_val (bytes_of n u) = unat u mod 256 ^ n" for u :: "'a::len word"
proof (induction n)
  case (Suc n)
  have "bytes_of (Suc n) u = bytes_of n u @ [u8_view u n]" by (simp add: bytes_of_def)
  then have "le_val (bytes_of (Suc n) u) = unat u mod 256 ^ n + 256 ^ n * (unat u div 256 ^ n mod 256)"
    by (simp add: le_val_append Suc unat_u8_view)
  also have "\<dots> = unat u mod (256 ^ n * 256)" by (simp add: mod_mult2_eq)
  finally show ?case by (simp add: mult.commute)
qed (simp add: bytes_of_def)

lemma le_val_UInt256Set: "le_val (UInt256Set u) = unat u"
proof -
  have "unat u < 256 ^ 32" using unsigned_less [of u] by simp
  then show ?thesis unfolding UInt256Set_def le_val_bytes_of by simp
qed

lemma le_val_UInt32SetLE: "le_val (UInt32SetLE x) = unat x"
proof -
  have "unat x < 256 ^ 4" using unsigned_less [of x] by simp
  then show ?thesis by (simp add: UIntSetLE_le_bytes le_val_le_bytes)
qed

section \<open>Properties\<close>

text \<open>
  Reading back what was written gives the value, in both byte orders and at every width, also when
  other bytes follow; the hexadecimal macros invert each other; reversing the bytes twice
  changes nothing; and the word-wise comparison of the unions is equality.
\<close>

theorem int_codecs_roundtrip:
  "UInt16GetBE (UInt16SetBE a @ r) = a \<and> UInt16GetLE (UInt16SetLE a @ r) = a \<and>
   UInt32GetBE (UInt32SetBE b @ r) = b \<and> UInt32GetLE (UInt32SetLE b @ r) = b \<and>
   UInt64GetBE (UInt64SetBE c @ r) = c \<and> UInt64GetLE (UInt64SetLE c @ r) = c \<and>
   UInt256Get (UInt256Set d @ r) = d \<and> uint256 (u256hex d) = d \<and>
   UInt256Reverse (UInt256Reverse d) = d \<and> (UInt256Eq d e \<longleftrightarrow> d = e)"
proof -
  have "UInt256Get (UInt256Set d) = d" by (rule UInt256Get_Set0)
  then have "word_of_bytes (bytes_of 32 d) = d" by (simp add: UInt256Get_def UInt256Set_def)
  moreover have "length (u256hex d) = 64" by (simp add: u256hex_def length_digits)
  ultimately have "uint256 (u256hex d) = d"
    by (simp add: uint256_def) (simp add: u256hex_def hex_pairs_digits)
  then show ?thesis
    by (simp add: uint_get_set UInt256Get_def UInt256Set_def UInt256Reverse_involution
        UInt256Get_Set0 [unfolded UInt256Get_def UInt256Set_def, simplified])
qed

end
