(* ===== verification/Digests.thy ===== *)
theory Digests
  imports IntBytes
begin

text \<open>
  The hash functions of BRCrypto.c. A buffer of 32 bit words is read from its bytes as the
  machine does (little-endian), and the macros \<open>be32\<close>, \<open>le32\<close>, \<open>be64\<close> and \<open>le64\<close> are those
  of a little-endian machine. A \<open>_BR...Compress\<close> function takes the chaining state and the bytes
  of one block and returns the new state. Clearing memory afterwards (\<open>mem_clean\<close>,
  \<open>var_clean\<close>) has no effect on the result and is left out.

  The digest functions share one shape: a loop over full blocks, padding of the rest, one or two
  final compressions. The theorems relate it to the standard one: the fold of the
  compression function over the blocks of the padded message.
\<close>

section \<open>Words and blocks\<close>

definition le32 :: "u32 \<Rightarrow> u32" where "le32 x = x"

definition be32 :: "u32 \<Rightarrow> u32" where
  "be32 x = push_bit 24 (x AND 0xff) OR push_bit 8 (x AND 0xff00) OR drop_bit 8 (x AND 0xff0000) OR
     drop_bit 24 (x AND 0xff000000)"

definition le64 :: "u64 \<Rightarrow> u64" where "le64 x = x"

definition be64 :: "u64 \<Rightarrow> u64" where
  "be64 x = ucast (be32 (ucast (drop_bit 32 x))) OR push_bit 32 (ucast (be32 (ucast x)))"

definition rol32 :: "u32 \<Rightarrow> nat \<Rightarrow> u32" where
  "rol32 a b = push_bit b a OR drop_bit (32 - b) a"

definition ror32 :: "u32 \<Rightarrow> nat \<Rightarrow> u32" where
  "ror32 a b = drop_bit b a OR push_bit (32 - b) a"

definition ror64 :: "u64 \<Rightarrow> nat \<Rightarrow> u64" where
  "ror64 a b = drop_bit b a OR push_bit (64 - b) a"

definition rol64 :: "u64 \<Rightarrow> nat \<Rightarrow> u64" where
  "rol64 a b = push_bit b a XOR drop_bit (64 - b) a"

text \<open>The words of a byte buffer, and the bytes of a word buffer.\<close>

fun words32 :: "byte list \<Rightarrow> u32 list" where
  "words32 (b0 # b1 # b2 # b3 # bs) = UInt32GetLE [b0, b1, b2, b3] # words32 bs"
| "words32 _ = []"

fun words64 :: "byte list \<Rightarrow> u64 list" where
  "words64 (b0 # b1 # b2 # b3 # b4 # b5 # b6 # b7 # bs) =
     UInt64GetLE [b0, b1, b2, b3, b4, b5, b6, b7] # words64 bs"
| "words64 _ = []"

definition bytes32 :: "u32 list \<Rightarrow> byte list" where
  "bytes32 ws = concat (map UInt32SetLE ws)"

definition bytes64 :: "u64 list \<Rightarrow> byte list" where
  "bytes64 ws = concat (map UInt64SetLE ws)"

text \<open>
  The loop \<open>for (i = 0; i < dataLen; i += n)\<close>: full blocks are compressed, the rest is left in \<open>x\<close>.
  It is the same loop with \<open>i <= dataLen\<close>, which copies an empty rest and breaks.
\<close>

function block_loop :: "nat \<Rightarrow> ('s \<Rightarrow> byte list \<Rightarrow> 's) \<Rightarrow> 's \<Rightarrow> byte list \<Rightarrow> 's \<times> byte list" where
  "block_loop n compress buf d =
     (if n = 0 \<or> length d < n then (buf, d)
      else block_loop n compress (compress buf (take n d)) (drop n d))"
  by pat_completeness auto
termination
  by (relation "measure (\<lambda>(n, c, buf, d). length d)") auto

declare block_loop.simps [simp del]

text \<open>
  The end of the SHA-1, SHA-2, MD5 and RIPEMD functions for blocks of \<open>n\<close> bytes: the rest \<open>d\<close> of the
  data is cleared behind, 0x80 appended, and the length \<open>len\<close> goes into the last \<open>n - m\<close> bytes, of a block
  of its own if they are taken.
\<close>

definition md_finish :: "nat \<Rightarrow> nat \<Rightarrow> ('s \<Rightarrow> byte list \<Rightarrow> 's) \<Rightarrow> byte list \<Rightarrow> 's \<times> byte list \<Rightarrow> 's" where
  "md_finish n m compress len bd =
     (let (buf, d) = bd;
          x = (d @ replicate (n - length d) 0)[length d := 0x80];
          (buf, x) = (if m \<le> length d then (compress buf x, replicate n 0) else (buf, x))
      in compress buf (take m x @ len))"

text \<open>\<open>x[14] = be32(dataLen >> 29), x[15] = be32(dataLen << 3)\<close> and its variants.\<close>

definition len_be :: "nat \<Rightarrow> byte list" where
  "len_be dataLen = bytes32 [be32 (of_nat (dataLen div 2 ^ 29)), be32 (of_nat (dataLen * 8))]"

definition len_le :: "nat \<Rightarrow> byte list" where
  "len_le dataLen = bytes32 [le32 (of_nat (dataLen * 8)), le32 (of_nat (dataLen div 2 ^ 29))]"

definition len_be128 :: "nat \<Rightarrow> byte list" where
  "len_be128 dataLen = bytes64 [0, be64 (of_nat dataLen * 8)]"

section \<open>SHA-1\<close>

definition sha1_f1 :: "u32 \<Rightarrow> u32 \<Rightarrow> u32 \<Rightarrow> u32" where
  "sha1_f1 x y z = (x AND y) OR (NOT x AND z)"

definition sha1_f2 :: "u32 \<Rightarrow> u32 \<Rightarrow> u32 \<Rightarrow> u32" where
  "sha1_f2 x y z = x XOR y XOR z"

definition sha1_f3 :: "u32 \<Rightarrow> u32 \<Rightarrow> u32 \<Rightarrow> u32" where
  "sha1_f3 x y z = (x AND y) OR (x AND z) OR (y AND z)"

text \<open>The words \<open>x[16..79]\<close>, appended one by one.\<close>

fun sha1_extend :: "nat \<Rightarrow> u32 list \<Rightarrow> u32 list" where
  "sha1_extend 0 x = x"
| "sha1_extend (Suc n) x =
     (let i = length x
      in sha1_extend n (x @ [rol32 (x ! (i - 3) XOR x ! (i - 8) XOR x ! (i - 14) XOR x ! (i - 16)) 1]))"

fun sha1_op :: "(u32 \<Rightarrow> u32 \<Rightarrow> u32 \<Rightarrow> u32) \<Rightarrow> u32 \<Rightarrow> u32 list \<Rightarrow> u32 \<Rightarrow> u32 list" where
  "sha1_op f y [a, b, c, d, e] z = [rol32 a 5 + f b c d + e + y + z, a, rol32 b 30, c, d]"
| "sha1_op f y r z = r"

definition BRSHA1Compress :: "u32 list \<Rightarrow> byte list \<Rightarrow> u32 list" where
  "BRSHA1Compress r x =
     (let w = sha1_extend 64 (map be32 (words32 x));
          s = foldl (sha1_op sha1_f1 0x5a827999) r (take 20 w);
          s = foldl (sha1_op sha1_f2 0x6ed9eba1) s (take 20 (drop 20 w));
          s = foldl (sha1_op sha1_f3 0x8f1bbcdc) s (take 20 (drop 40 w));
          s = foldl (sha1_op sha1_f2 0xca62c1d6) s (take 20 (drop 60 w))
      in map2 (+) r s)"

definition BRSHA1 :: "byte list \<Rightarrow> byte list" where
  "BRSHA1 data =
     bytes32 (map be32 (md_finish 64 56 BRSHA1Compress (len_be (length data))
       (block_loop 64 BRSHA1Compress [0x67452301, 0xefcdab89, 0x98badcfe, 0x10325476, 0xc3d2e1f0] data)))"

section \<open>SHA-2\<close>

definition ch :: "'a::len word \<Rightarrow> 'a word \<Rightarrow> 'a word \<Rightarrow> 'a word" where
  "ch x y z = (x AND y) XOR (NOT x AND z)"

definition maj :: "'a::len word \<Rightarrow> 'a word \<Rightarrow> 'a word \<Rightarrow> 'a word" where
  "maj x y z = (x AND y) XOR (x AND z) XOR (y AND z)"

definition sha256_s0 :: "u32 \<Rightarrow> u32" where
  "sha256_s0 x = ror32 x 2 XOR ror32 x 13 XOR ror32 x 22"

definition sha256_s1 :: "u32 \<Rightarrow> u32" where
  "sha256_s1 x = ror32 x 6 XOR ror32 x 11 XOR ror32 x 25"

definition sha256_s2 :: "u32 \<Rightarrow> u32" where
  "sha256_s2 x = ror32 x 7 XOR ror32 x 18 XOR drop_bit 3 x"

definition sha256_s3 :: "u32 \<Rightarrow> u32" where
  "sha256_s3 x = ror32 x 17 XOR ror32 x 19 XOR drop_bit 10 x"

definition sha256_k :: "u32 list" where
  "sha256_k = 
    [0x428a2f98, 0x71374491, 0xb5c0fbcf, 0xe9b5dba5] @
    [0x3956c25b, 0x59f111f1, 0x923f82a4, 0xab1c5ed5] @
    [0xd807aa98, 0x12835b01, 0x243185be, 0x550c7dc3] @
    [0x72be5d74, 0x80deb1fe, 0x9bdc06a7, 0xc19bf174] @
    [0xe49b69c1, 0xefbe4786, 0x0fc19dc6, 0x240ca1cc] @
    [0x2de92c6f, 0x4a7484aa, 0x5cb0a9dc, 0x76f988da] @
    [0x983e5152, 0xa831c66d, 0xb00327c8, 0xbf597fc7] @
    [0xc6e00bf3, 0xd5a79147, 0x06ca6351, 0x14292967] @
    [0x27b70a85, 0x2e1b2138, 0x4d2c6dfc, 0x53380d13] @
    [0x650a7354, 0x766a0abb, 0x81c2c92e, 0x92722c85] @
    [0xa2bfe8a1, 0xa81a664b, 0xc24b8b70, 0xc76c51a3] @
    [0xd192e819, 0xd6990624, 0xf40e3585, 0x106aa070] @
    [0x19a4c116, 0x1e376c08, 0x2748774c, 0x34b0bcb5] @
    [0x391c0cb3, 0x4ed8aa4a, 0x5b9cca4f, 0x682e6ff3] @
    [0x748f82ee, 0x78a5636f, 0x84c87814, 0x8cc70208] @
    [0x90befffa, 0xa4506ceb, 0xbef9a3f7, 0xc67178f2]"

fun sha256_extend :: "nat \<Rightarrow> u32 list \<Rightarrow> u32 list" where
  "sha256_extend 0 w = w"
| "sha256_extend (Suc n) w =
     (let i = length w
      in sha256_extend n (w @ [sha256_s3 (w ! (i - 2)) + w ! (i - 7) + sha256_s2 (w ! (i - 15)) + w ! (i - 16)]))"

fun sha256_round :: "u32 list \<Rightarrow> u32 \<times> u32 \<Rightarrow> u32 list" where
  "sha256_round [a, b, c, d, e, f, g, h] (k, w) =
     (let t1 = h + sha256_s1 e + ch e f g + k + w;
          t2 = sha256_s0 a + maj a b c
      in [t1 + t2, a, b, c, d + t1, e, f, g])"
| "sha256_round r kw = r"

definition BRSHA256Compress :: "u32 list \<Rightarrow> byte list \<Rightarrow> u32 list" where
  "BRSHA256Compress r x =
     (let w = sha256_extend 48 (map be32 (words32 x))
      in map2 (+) r (foldl sha256_round r (zip sha256_k w)))"

definition BRSHA224 :: "byte list \<Rightarrow> byte list" where
  "BRSHA224 data =
     take 28 (bytes32 (map be32 (md_finish 64 56 BRSHA256Compress (len_be (length data))
       (block_loop 64 BRSHA256Compress
         [0xc1059ed8, 0x367cd507, 0x3070dd17, 0xf70e5939, 0xffc00b31, 0x68581511, 0x64f98fa7, 0xbefa4fa4] data))))"

definition sha256_init :: "u32 list" where
  "sha256_init = [0x6a09e667, 0xbb67ae85, 0x3c6ef372, 0xa54ff53a, 0x510e527f, 0x9b05688c, 0x1f83d9ab, 0x5be0cd19]"

definition BRSHA256 :: "byte list \<Rightarrow> byte list" where
  "BRSHA256 data =
     bytes32 (map be32 (md_finish 64 56 BRSHA256Compress (len_be (length data))
       (block_loop 64 BRSHA256Compress sha256_init data)))"

definition BRSHA256_2 :: "byte list \<Rightarrow> byte list" where
  "BRSHA256_2 data = BRSHA256 (BRSHA256 data)"

definition sha512_S0 :: "u64 \<Rightarrow> u64" where
  "sha512_S0 x = ror64 x 28 XOR ror64 x 34 XOR ror64 x 39"

definition sha512_S1 :: "u64 \<Rightarrow> u64" where
  "sha512_S1 x = ror64 x 14 XOR ror64 x 18 XOR ror64 x 41"

definition sha512_S2 :: "u64 \<Rightarrow> u64" where
  "sha512_S2 x = ror64 x 1 XOR ror64 x 8 XOR drop_bit 7 x"

definition sha512_S3 :: "u64 \<Rightarrow> u64" where
  "sha512_S3 x = ror64 x 19 XOR ror64 x 61 XOR drop_bit 6 x"

definition sha512_k :: "u64 list" where
  "sha512_k = 
    [0x428a2f98d728ae22, 0x7137449123ef65cd, 0xb5c0fbcfec4d3b2f, 0xe9b5dba58189dbbc] @
    [0x3956c25bf348b538, 0x59f111f1b605d019, 0x923f82a4af194f9b, 0xab1c5ed5da6d8118] @
    [0xd807aa98a3030242, 0x12835b0145706fbe, 0x243185be4ee4b28c, 0x550c7dc3d5ffb4e2] @
    [0x72be5d74f27b896f, 0x80deb1fe3b1696b1, 0x9bdc06a725c71235, 0xc19bf174cf692694] @
    [0xe49b69c19ef14ad2, 0xefbe4786384f25e3, 0x0fc19dc68b8cd5b5, 0x240ca1cc77ac9c65] @
    [0x2de92c6f592b0275, 0x4a7484aa6ea6e483, 0x5cb0a9dcbd41fbd4, 0x76f988da831153b5] @
    [0x983e5152ee66dfab, 0xa831c66d2db43210, 0xb00327c898fb213f, 0xbf597fc7beef0ee4] @
    [0xc6e00bf33da88fc2, 0xd5a79147930aa725, 0x06ca6351e003826f, 0x142929670a0e6e70] @
    [0x27b70a8546d22ffc, 0x2e1b21385c26c926, 0x4d2c6dfc5ac42aed, 0x53380d139d95b3df] @
    [0x650a73548baf63de, 0x766a0abb3c77b2a8, 0x81c2c92e47edaee6, 0x92722c851482353b] @
    [0xa2bfe8a14cf10364, 0xa81a664bbc423001, 0xc24b8b70d0f89791, 0xc76c51a30654be30] @
    [0xd192e819d6ef5218, 0xd69906245565a910, 0xf40e35855771202a, 0x106aa07032bbd1b8] @
    [0x19a4c116b8d2d0c8, 0x1e376c085141ab53, 0x2748774cdf8eeb99, 0x34b0bcb5e19b48a8] @
    [0x391c0cb3c5c95a63, 0x4ed8aa4ae3418acb, 0x5b9cca4f7763e373, 0x682e6ff3d6b2b8a3] @
    [0x748f82ee5defb2fc, 0x78a5636f43172f60, 0x84c87814a1f0ab72, 0x8cc702081a6439ec] @
    [0x90befffa23631e28, 0xa4506cebde82bde9, 0xbef9a3f7b2c67915, 0xc67178f2e372532b] @
    [0xca273eceea26619c, 0xd186b8c721c0c207, 0xeada7dd6cde0eb1e, 0xf57d4f7fee6ed178] @
    [0x06f067aa72176fba, 0x0a637dc5a2c898a6, 0x113f9804bef90dae, 0x1b710b35131c471b] @
    [0x28db77f523047d84, 0x32caab7b40c72493, 0x3c9ebe0a15c9bebc, 0x431d67c49c100d4c] @
    [0x4cc5d4becb3e42b6, 0x597f299cfc657e2a, 0x5fcb6fab3ad6faec, 0x6c44198c4a475817]"

fun sha512_extend :: "nat \<Rightarrow> u64 list \<Rightarrow> u64 list" where
  "sha512_extend 0 w = w"
| "sha512_extend (Suc n) w =
     (let i = length w
      in sha512_extend n (w @ [sha512_S3 (w ! (i - 2)) + w ! (i - 7) + sha512_S2 (w ! (i - 15)) + w ! (i - 16)]))"

fun sha512_round :: "u64 list \<Rightarrow> u64 \<times> u64 \<Rightarrow> u64 list" where
  "sha512_round [a, b, c, d, e, f, g, h] (k, w) =
     (let t1 = h + sha512_S1 e + ch e f g + k + w;
          t2 = sha512_S0 a + maj a b c
      in [t1 + t2, a, b, c, d + t1, e, f, g])"
| "sha512_round r kw = r"

definition BRSHA512Compress :: "u64 list \<Rightarrow> byte list \<Rightarrow> u64 list" where
  "BRSHA512Compress r x =
     (let w = sha512_extend 64 (map be64 (words64 x))
      in map2 (+) r (foldl sha512_round r (zip sha512_k w)))"

definition BRSHA384 :: "byte list \<Rightarrow> byte list" where
  "BRSHA384 data =
     take 48 (bytes64 (map be64 (md_finish 128 112 BRSHA512Compress (len_be128 (length data))
       (block_loop 128 BRSHA512Compress
         [0xcbbb9d5dc1059ed8, 0x629a292a367cd507, 0x9159015a3070dd17, 0x152fecd8f70e5939,
          0x67332667ffc00b31, 0x8eb44a8768581511, 0xdb0c2e0d64f98fa7, 0x47b5481dbefa4fa4] data))))"

definition BRSHA512 :: "byte list \<Rightarrow> byte list" where
  "BRSHA512 data =
     bytes64 (map be64 (md_finish 128 112 BRSHA512Compress (len_be128 (length data))
       (block_loop 128 BRSHA512Compress
         [0x6a09e667f3bcc908, 0xbb67ae8584caa73b, 0x3c6ef372fe94f82b, 0xa54ff53a5f1d36f1,
          0x510e527fade682d1, 0x9b05688c2b3e6c1f, 0x1f83d9abfb41bd6b, 0x5be0cd19137e2179] data)))"

section \<open>RIPEMD-160\<close>

definition rmd_f :: "u32 \<Rightarrow> u32 \<Rightarrow> u32 \<Rightarrow> u32" where "rmd_f x y z = x XOR y XOR z"
definition rmd_g :: "u32 \<Rightarrow> u32 \<Rightarrow> u32 \<Rightarrow> u32" where "rmd_g x y z = (x AND y) OR (NOT x AND z)"
definition rmd_h :: "u32 \<Rightarrow> u32 \<Rightarrow> u32 \<Rightarrow> u32" where "rmd_h x y z = (x OR NOT y) XOR z"
definition rmd_i :: "u32 \<Rightarrow> u32 \<Rightarrow> u32 \<Rightarrow> u32" where "rmd_i x y z = (x AND z) OR (y AND NOT z)"
definition rmd_j :: "u32 \<Rightarrow> u32 \<Rightarrow> u32 \<Rightarrow> u32" where "rmd_j x y z = x XOR (y OR NOT z)"

text \<open>
  One round of 16 steps of a line: \<open>rmd(t, F(b, c, d), x[idx[i]], k, sh[i], a, e, d, c, b)\<close> on the
  state \<open>[a, b, c, d, e]\<close>.
\<close>

fun rmd_op :: "(u32 \<Rightarrow> u32 \<Rightarrow> u32 \<Rightarrow> u32) \<Rightarrow> u32 \<Rightarrow> u32 list \<Rightarrow> u32 list \<Rightarrow> nat \<times> nat \<Rightarrow> u32 list" where
  "rmd_op F k x [a, b, c, d, e] (idx, sh) =
     [e, rol32 (a + F b c d + le32 (x ! idx) + k) sh + e, b, rol32 c 10, d]"
| "rmd_op F k x r is = r"

definition rmd_round :: "(u32 \<Rightarrow> u32 \<Rightarrow> u32 \<Rightarrow> u32) \<Rightarrow> u32 \<Rightarrow> nat list \<Rightarrow> nat list \<Rightarrow> u32 list \<Rightarrow> u32 list \<Rightarrow> u32 list" where
  "rmd_round F k idx sh x r = foldl (rmd_op F k x) r (zip idx sh)"

definition rmd_left :: "u32 list \<Rightarrow> u32 list \<Rightarrow> u32 list" where
  "rmd_left x =
     rmd_round rmd_j 0xa953fd4e [4, 0, 5, 9, 7, 12, 2, 10, 14, 1, 3, 8, 11, 6, 15, 13]
       [9, 15, 5, 11, 6, 8, 13, 12, 5, 12, 13, 14, 11, 8, 5, 6] x \<circ>
     rmd_round rmd_i 0x8f1bbcdc [1, 9, 11, 10, 0, 8, 12, 4, 13, 3, 7, 15, 14, 5, 6, 2]
       [11, 12, 14, 15, 14, 15, 9, 8, 9, 14, 5, 6, 8, 6, 5, 12] x \<circ>
     rmd_round rmd_h 0x6ed9eba1 [3, 10, 14, 4, 9, 15, 8, 1, 2, 7, 0, 6, 13, 11, 5, 12]
       [11, 13, 6, 7, 14, 9, 13, 15, 14, 8, 13, 6, 5, 12, 7, 5] x \<circ>
     rmd_round rmd_g 0x5a827999 [7, 4, 13, 1, 10, 6, 15, 3, 12, 0, 9, 5, 2, 14, 11, 8]
       [7, 6, 8, 13, 11, 9, 7, 15, 7, 12, 15, 9, 11, 7, 13, 12] x \<circ>
     rmd_round rmd_f 0x00000000 [0, 1, 2, 3, 4, 5, 6, 7, 8, 9, 10, 11, 12, 13, 14, 15]
       [11, 14, 15, 12, 5, 8, 7, 9, 11, 13, 14, 15, 6, 7, 9, 8] x"

definition rmd_right :: "u32 list \<Rightarrow> u32 list \<Rightarrow> u32 list" where
  "rmd_right x =
     rmd_round rmd_f 0x00000000 [12, 15, 10, 4, 1, 5, 8, 7, 6, 2, 13, 14, 0, 3, 9, 11]
       [8, 5, 12, 9, 12, 5, 14, 6, 8, 13, 6, 5, 15, 13, 11, 11] x \<circ>
     rmd_round rmd_g 0x7a6d76e9 [8, 6, 4, 1, 3, 11, 15, 0, 5, 12, 2, 13, 9, 7, 10, 14]
       [15, 5, 8, 11, 14, 14, 6, 14, 6, 9, 12, 9, 12, 5, 15, 8] x \<circ>
     rmd_round rmd_h 0x6d703ef3 [15, 5, 1, 3, 7, 14, 6, 9, 11, 8, 12, 2, 10, 0, 4, 13]
       [9, 7, 15, 11, 8, 6, 6, 14, 12, 13, 5, 14, 13, 13, 7, 5] x \<circ>
     rmd_round rmd_i 0x5c4dd124 [6, 11, 3, 7, 0, 13, 5, 10, 14, 15, 8, 12, 4, 9, 1, 2]
       [9, 13, 15, 7, 12, 8, 9, 11, 7, 7, 12, 7, 6, 15, 13, 11] x \<circ>
     rmd_round rmd_j 0x50a28be6 [5, 14, 7, 0, 9, 2, 11, 4, 13, 6, 15, 8, 1, 10, 3, 12]
       [8, 9, 9, 11, 13, 15, 15, 5, 7, 7, 8, 11, 14, 14, 12, 6] x"

fun rmd_combine :: "u32 list \<Rightarrow> u32 list \<Rightarrow> u32 list \<Rightarrow> u32 list" where
  "rmd_combine [r0, r1, r2, r3, r4] [al, bl, cl, dl, el] [ar, br, cr, dr, er] =
     [r1 + cl + dr, r2 + dl + er, r3 + el + ar, r4 + al + br, r0 + bl + cr]"
| "rmd_combine r _ _ = r"

definition BRRMDCompress :: "u32 list \<Rightarrow> byte list \<Rightarrow> u32 list" where
  "BRRMDCompress r x = rmd_combine r (rmd_left (words32 x) r) (rmd_right (words32 x) r)"

definition BRRMD160 :: "byte list \<Rightarrow> byte list" where
  "BRRMD160 data =
     bytes32 (map le32 (md_finish 64 56 BRRMDCompress (len_le (length data))
       (block_loop 64 BRRMDCompress [0x67452301, 0xefcdab89, 0x98badcfe, 0x10325476, 0xc3d2e1f0] data)))"

definition BRHash160 :: "byte list \<Rightarrow> byte list" where
  "BRHash160 data = BRRMD160 (BRSHA256 data)"

section \<open>SHA3 and Keccak\<close>

definition sha3_k :: "u64 list" where
  "sha3_k = [
    0x0000000000000001, 0x0000000000008082, 0x800000000000808a, 0x8000000080008000,
    0x000000000000808b, 0x0000000080000001, 0x8000000080008081, 0x8000000000008009,
    0x000000000000008a, 0x0000000000000088, 0x0000000080008009, 0x000000008000000a,
    0x000000008000808b, 0x800000000000008b, 0x8000000000008089, 0x8000000000008003,
    0x8000000000008002, 0x8000000000000080, 0x000000000000800a, 0x800000008000000a,
    0x8000000080008081, 0x8000000000008080, 0x0000000080000001, 0x8000000080008008]"

definition sha3_theta :: "u64 list \<Rightarrow> u64 list" where
  "sha3_theta r =
     (let a = map (\<lambda>j. r ! j XOR r ! (j + 5) XOR r ! (j + 10) XOR r ! (j + 15) XOR r ! (j + 20)) [0, 1, 2, 3, 4];
          b = [rol64 (a ! 1) 1 XOR a ! 4, rol64 (a ! 2) 1 XOR a ! 0, rol64 (a ! 3) 1 XOR a ! 1,
               rol64 (a ! 4) 1 XOR a ! 2, rol64 (a ! 0) 1 XOR a ! 3]
      in map2 (XOR) r (b @ b @ b @ b @ b))"

text \<open>The rotations of \<open>rho\<close>; \<open>r[0]\<close> is left as is.\<close>

definition sha3_rho :: "u64 list \<Rightarrow> u64 list" where
  "sha3_rho r = r ! 0 # map2 rol64 (tl r)
     [1, 62, 28, 27, 36, 44, 6, 55, 20, 3, 10, 43, 25, 39, 41, 45, 15, 21, 8, 18, 2, 61, 56, 14]"

text \<open>The cycle of moves of \<open>pi\<close>: entry \<open>i\<close> of the list is the index of the word that ends in \<open>r[i]\<close>.\<close>

definition sha3_pi :: "u64 list \<Rightarrow> u64 list" where
  "sha3_pi r = map (\<lambda>i. r ! i)
     [0, 6, 12, 18, 24, 3, 9, 10, 16, 22, 1, 7, 13, 19, 20, 4, 5, 11, 17, 23, 2, 8, 14, 15, 21]"

fun sha3_chi :: "u64 list \<Rightarrow> u64 list" where
  "sha3_chi (r0 # r1 # r2 # r3 # r4 # r) =
     [r0 XOR (NOT r1 AND r2), r1 XOR (NOT r2 AND r3), r2 XOR (NOT r3 AND r4), r3 XOR (NOT r4 AND r0),
      r4 XOR (NOT r0 AND r1)] @ sha3_chi r"
| "sha3_chi r = r"

definition sha3_iota :: "u64 \<Rightarrow> u64 list \<Rightarrow> u64 list" where
  "sha3_iota k r = r[0 := r ! 0 XOR k]"

definition sha3_round :: "u64 list \<Rightarrow> u64 \<Rightarrow> u64 list" where
  "sha3_round r k = sha3_iota k (sha3_chi (sha3_pi (sha3_rho (sha3_theta r))))"

text \<open>\<open>r[i] ^= le64(x[i])\<close> for the words of the block, then 24 rounds.\<close>

definition BRSHA3Compress :: "u64 list \<Rightarrow> byte list \<Rightarrow> u64 list" where
  "BRSHA3Compress r x =
     (let x = map le64 (words64 x)
      in foldl sha3_round (map2 (XOR) r x @ drop (length x) r) sha3_k)"

definition sha3_finish :: "byte \<Rightarrow> u64 list \<times> byte list \<Rightarrow> byte list" where
  "sha3_finish p bd =
     (let (buf, d) = bd;
          x = d @ replicate (136 - length d) 0;
          x = x[length d := x ! length d OR p];
          x = x[135 := x ! 135 OR 0x80]
      in take 32 (bytes64 (map le64 (BRSHA3Compress buf x))))"

definition BRSHA3_256 :: "byte list \<Rightarrow> byte list" where
  "BRSHA3_256 data = sha3_finish 0x06 (block_loop 136 BRSHA3Compress (replicate 25 0) data)"

definition BRKeccak256 :: "byte list \<Rightarrow> byte list" where
  "BRKeccak256 data = sha3_finish 0x01 (block_loop 136 BRSHA3Compress (replicate 25 0) data)"

section \<open>MD5\<close>

definition md5_F :: "u32 \<Rightarrow> u32 \<Rightarrow> u32 \<Rightarrow> u32" where "md5_F x y z = z XOR (x AND (y XOR z))"
definition md5_G :: "u32 \<Rightarrow> u32 \<Rightarrow> u32 \<Rightarrow> u32" where "md5_G x y z = y XOR (z AND (x XOR y))"
definition md5_H :: "u32 \<Rightarrow> u32 \<Rightarrow> u32 \<Rightarrow> u32" where "md5_H x y z = x XOR y XOR z"
definition md5_I :: "u32 \<Rightarrow> u32 \<Rightarrow> u32 \<Rightarrow> u32" where "md5_I x y z = y XOR (x OR NOT z)"

definition md5_k :: "u32 list" where
  "md5_k = [
    0xd76aa478, 0xe8c7b756, 0x242070db, 0xc1bdceee, 0xf57c0faf, 0x4787c62a,
    0xa8304613, 0xfd469501, 0x698098d8, 0x8b44f7af, 0xffff5bb1, 0x895cd7be,
    0x6b901122, 0xfd987193, 0xa679438e, 0x49b40821, 0xf61e2562, 0xc040b340,
    0x265e5a51, 0xe9b6c7aa, 0xd62f105d, 0x02441453, 0xd8a1e681, 0xe7d3fbc8,
    0x21e1cde6, 0xc33707d6, 0xf4d50d87, 0x455a14ed, 0xa9e3e905, 0xfcefa3f8,
    0x676f02d9, 0x8d2a4c8a, 0xfffa3942, 0x8771f681, 0x6d9d6122, 0xfde5380c,
    0xa4beea44, 0x4bdecfa9, 0xf6bb4b60, 0xbebfbc70, 0x289b7ec6, 0xeaa127fa,
    0xd4ef3085, 0x04881d05, 0xd9d4d039, 0xe6db99e5, 0x1fa27cf8, 0xc4ac5665,
    0xf4292244, 0x432aff97, 0xab9423a7, 0xfc93a039, 0x655b59c3, 0x8f0ccc92,
    0xffeff47d, 0x85845dd1, 0x6fa87e4f, 0xfe2ce6e0, 0xa3014314, 0x4e0811a1,
    0xf7537e82, 0xbd3af235, 0x2ad7d2bb, 0xeb86d391]"

definition md5_s :: "nat list" where
  "md5_s = [7, 12, 17, 22, 5, 9, 14, 20, 4, 11, 16, 23, 6, 10, 15, 21]"

fun md5_op :: "(u32 \<Rightarrow> u32 \<Rightarrow> u32 \<Rightarrow> u32) \<Rightarrow> u32 list \<Rightarrow> u32 \<times> u32 \<times> nat \<Rightarrow> u32 list" where
  "md5_op f [a, b, c, d] (x, k, s) = [d, rol32 (a + (f b c d + le32 x + k)) s + b, b, c]"
| "md5_op f r xks = r"

definition md5_round :: "(u32 \<Rightarrow> u32 \<Rightarrow> u32 \<Rightarrow> u32) \<Rightarrow> (nat \<Rightarrow> nat) \<Rightarrow> nat \<Rightarrow> u32 list \<Rightarrow> u32 list \<Rightarrow> u32 list" where
  "md5_round f idx n x r =
     foldl (md5_op f) r (map (\<lambda>i. (x ! idx i, md5_k ! i, md5_s ! (4 * n + i mod 4))) [16 * n..<16 * n + 16])"

definition BRMD5Compress :: "u32 list \<Rightarrow> byte list \<Rightarrow> u32 list" where
  "BRMD5Compress r x =
     (let x = words32 x;
          s = md5_round md5_F (\<lambda>i. i) 0 x r;
          s = md5_round md5_G (\<lambda>i. (5 * i + 1) mod 16) 1 x s;
          s = md5_round md5_H (\<lambda>i. (3 * i + 5) mod 16) 2 x s;
          s = md5_round md5_I (\<lambda>i. (7 * i) mod 16) 3 x s
      in map2 (+) r s)"

definition BRMD5 :: "byte list \<Rightarrow> byte list" where
  "BRMD5 data =
     bytes32 (map le32 (md_finish 64 56 BRMD5Compress (len_le (length data))
       (block_loop 64 BRMD5Compress [0x67452301, 0xefcdab89, 0x98badcfe, 0x10325476] data)))"

section \<open>Murmur3\<close>

definition fmix32 :: "u32 \<Rightarrow> u32" where
  "fmix32 h =
     (let h = h XOR drop_bit 16 h; h = h * 0x85ebca6b; h = h XOR drop_bit 13 h; h = h * 0xc2b2ae35
      in h XOR drop_bit 16 h)"

definition murmur_step :: "u32 \<Rightarrow> u32 \<Rightarrow> u32" where
  "murmur_step h w = rol32 (h XOR (rol32 (le32 w * 0xcc9e2d51) 15 * 0x1b873593)) 13 * 5 + 0xe6546b64"

text \<open>The \<open>switch\<close> falls through: the tail bytes come in from the last to the first.\<close>

definition murmur_tail :: "byte list \<Rightarrow> u32 \<Rightarrow> u32" where
  "murmur_tail t h =
     (case t of
        [b0, b1, b2] \<Rightarrow> h XOR (rol32 ((push_bit 16 (ucast b2) XOR push_bit 8 (ucast b1) XOR ucast b0) * 0xcc9e2d51) 15 * 0x1b873593)
      | [b0, b1] \<Rightarrow> h XOR (rol32 ((push_bit 8 (ucast b1) XOR ucast b0) * 0xcc9e2d51) 15 * 0x1b873593)
      | [b0] \<Rightarrow> h XOR (rol32 (ucast b0 * 0xcc9e2d51) 15 * 0x1b873593)
      | _ \<Rightarrow> h)"

definition BRMurmur3_32 :: "byte list \<Rightarrow> u32 \<Rightarrow> u32" where
  "BRMurmur3_32 data seed =
     (let n = length data div 4;
          h = foldl murmur_step seed (words32 (take (n * 4) data));
          h = murmur_tail (drop (n * 4) data) h
      in fmix32 (h XOR of_nat (length data)))"

section \<open>The padded message\<close>

function chunks :: "nat \<Rightarrow> 'a list \<Rightarrow> 'a list list" where
  "chunks n xs = (if n = 0 \<or> xs = [] then [] else take n xs # chunks n (drop n xs))"
  by pat_completeness auto
termination by (relation "measure (\<lambda>(n, xs). length xs)") auto

declare chunks.simps [simp del]

lemma chunks_append:
  assumes "length xs = n" "0 < n"
  shows "chunks n (xs @ ys) = xs # chunks n ys"
  using assms by (subst chunks.simps) auto

lemma chunks_single: "length xs = n \<Longrightarrow> 0 < n \<Longrightarrow> chunks n xs = [xs]"
  using chunks_append [of xs n "[]"] by (simp add: chunks.simps)

text \<open>The padding of the standards: 0x80, zeros up to \<open>m\<close> modulo the block size \<open>n\<close>, the length.\<close>

definition md_pad :: "nat \<Rightarrow> nat \<Rightarrow> byte list \<Rightarrow> byte list \<Rightarrow> byte list" where
  "md_pad n m len d = d @ 0x80 # replicate ((m + n - (length d + 1) mod n) mod n) 0 @ len"

lemma md_pad_drop:
  assumes "n \<le> length d" "0 < n"
  shows "md_pad n m len d = take n d @ md_pad n m len (drop n d)"
proof -
  have "(length d + 1) mod n = (length d - n + 1) mod n"
    using assms by (metis Nat.add_diff_assoc2 add.commute le_add_diff_inverse2 mod_add_self2 add.assoc)
  then show ?thesis by (simp add: md_pad_def flip: append_assoc)
qed

lemma append_byte_rest:
  "length d < n \<Longrightarrow> (d @ replicate (n - length d) 0)[length d := b] = d @ b # replicate (n - length d - 1) 0"
  by (cases "n - length d") auto

lemma md_finish_pad:
  assumes "length d < n" "m < n" "length len = n - m"
  shows "md_finish n m compress len (buf, d) = foldl compress buf (chunks n (md_pad n m len d))"
proof (cases "m \<le> length d")
  case True
  have z: "(m + n - (length d + 1) mod n) mod n = (n - length d - 1) + m"
  proof (cases "length d + 1 = n")
    case True
    with assms show ?thesis by simp
  next
    case False
    with assms True show ?thesis by simp
  qed
  let ?x = "d @ 0x80 # replicate (n - length d - 1) 0"
  have "md_pad n m len d = ?x @ (replicate m 0 @ len)"
    unfolding md_pad_def z by (simp add: replicate_add)
  moreover have "chunks n (?x @ (replicate m 0 @ len)) = [?x, replicate m 0 @ len]"
    using assms by (subst chunks_append) (auto intro: chunks_single)
  ultimately show ?thesis
    using assms True by (simp add: md_finish_def append_byte_rest)
next
  case False
  then have z: "(m + n - (length d + 1) mod n) mod n = m - (length d + 1)"
  proof -
    have "m + n - (length d + 1) = (m - (length d + 1)) + n" "m - (length d + 1) < n" using False assms by simp_all
    moreover have "(length d + 1) mod n = length d + 1" using False assms by simp
    ultimately show ?thesis by (simp only: mod_add_self2 mod_less)
  qed
  let ?x = "d @ 0x80 # replicate (m - (length d + 1)) 0 @ len"
  have "take m (d @ 0x80 # replicate (n - length d - 1) 0) = d @ 0x80 # replicate (m - (length d + 1)) 0"
    using False assms by (simp add: take_Cons' take_replicate)
  moreover have "chunks n ?x = [?x]" using assms False by (intro chunks_single) auto
  moreover have "md_pad n m len d = ?x" unfolding md_pad_def z ..
  ultimately show ?thesis
    using assms False by (simp add: md_finish_def append_byte_rest)
qed

lemma md_digest_pad:
  assumes "m < n" "length len = n - m"
  shows "md_finish n m compress len (block_loop n compress buf d) = foldl compress buf (chunks n (md_pad n m len d))"
  using assms
proof (induction n compress buf d rule: block_loop.induct)
  case (1 n compress buf d)
  show ?case
  proof (cases "length d < n")
    case True
    then show ?thesis using 1 by (simp add: block_loop.simps md_finish_pad)
  next
    case False
    with 1 have "chunks n (md_pad n m len d) = take n d # chunks n (md_pad n m len (drop n d))"
      by (subst md_pad_drop) (simp_all add: chunks_append)
    with False 1 show ?thesis by (subst block_loop.simps) simp
  qed
qed

section \<open>Digest lengths\<close>

lemma block_loop_inv:
  assumes "P buf" "\<And>r x. P r \<Longrightarrow> P (compress r x)"
  shows "P (fst (block_loop n compress buf d))"
  using assms
proof (induction n compress buf d rule: block_loop.induct)
  case (1 n compress buf d)
  then show ?case by (subst block_loop.simps) (cases "n = 0 \<or> length d < n"; simp)
qed

lemma md_finish_inv:
  assumes "P (fst bd)" "\<And>r x. P r \<Longrightarrow> P (compress r x)"
  shows "P (md_finish n m compress len bd)"
  using assms by (cases bd) (simp add: md_finish_def Let_def)

lemma md_digest_inv:
  assumes "P buf" "\<And>r x. P r \<Longrightarrow> P (compress r x)"
  shows "P (md_finish n m compress len (block_loop n compress buf d))"
  by (rule md_finish_inv, rule block_loop_inv) (rule assms | assumption)+

lemma foldl_inv: "P r \<Longrightarrow> (\<And>r x. P r \<Longrightarrow> P (f r x)) \<Longrightarrow> P (foldl f r xs)"
  by (induction xs arbitrary: r) auto

lemma length_bytes32 [simp, len_simps]: "length (bytes32 ws) = 4 * length ws"
  by (induction ws) (simp_all add: bytes32_def)

lemma length_bytes64 [simp, len_simps]: "length (bytes64 ws) = 8 * length ws"
  by (induction ws) (simp_all add: bytes64_def)

lemma length_sha1_op: "length (sha1_op f y r z) = length r"
  by (cases "(f, y, r, z)" rule: sha1_op.cases) simp_all

lemma length_sha256_round: "length (sha256_round r kw) = length r"
  by (cases "(r, kw)" rule: sha256_round.cases) (simp_all add: Let_def)

lemma length_sha512_round: "length (sha512_round r kw) = length r"
  by (cases "(r, kw)" rule: sha512_round.cases) (simp_all add: Let_def)

lemma length_md5_op: "length (md5_op f r xks) = length r"
  by (cases "(f, r, xks)" rule: md5_op.cases) simp_all

lemma length_rmd_combine: "length (rmd_combine r l q) = length r"
  by (cases "(r, l, q)" rule: rmd_combine.cases) simp_all

lemma length_sha3_chi: "length (sha3_chi r) = length r"
  by (induction r rule: sha3_chi.induct) simp_all

lemma length_foldl: "(\<And>r x. length (f r x) = length r) \<Longrightarrow> length (foldl f r xs) = length r"
  by (rule foldl_inv [where P = "\<lambda>q. length q = length r"]) auto

lemma length_compress [len_simps]:
  "length (BRSHA1Compress r x) = length r" "length (BRSHA256Compress r x) = length r"
  "length (BRSHA512Compress q x) = length q" "length (BRMD5Compress r x) = length r"
  "length (BRRMDCompress r x) = length r"
  by (simp_all add: BRSHA1Compress_def BRSHA256Compress_def BRSHA512Compress_def BRMD5Compress_def
      md5_round_def BRRMDCompress_def Let_def length_foldl length_sha1_op length_sha256_round
      length_sha512_round length_md5_op length_rmd_combine)

lemma length_sha3_round: "length r = 25 \<Longrightarrow> length (sha3_round r k) = 25"
  by (simp add: sha3_round_def sha3_iota_def length_sha3_chi sha3_pi_def)

lemma length_SHA3Compress [len_simps]:
  assumes "length r = 25"
  shows "length (BRSHA3Compress r x) = 25"
proof -
  have "length (map2 (XOR) r (map le64 (words64 x)) @ drop (length (map le64 (words64 x))) r) = 25"
    using assms by simp
  then show ?thesis
    unfolding BRSHA3Compress_def Let_def
    by (intro foldl_inv [where P = "\<lambda>q. length q = 25"]) (simp_all add: length_sha3_round)
qed

lemma md_digest_length:
  assumes "length buf = k" "\<And>r x. length (compress r x) = length (r :: 'b list)"
  shows "length (md_finish n m compress len (block_loop n compress buf d)) = k"
  using assms by (intro md_digest_inv [where P = "\<lambda>r. length r = k"]) auto

theorem digest_lengths [simp, len_simps]:
  "length (BRSHA1 d) = 20" "length (BRSHA224 d) = 28" "length (BRSHA256 d) = 32" "length (BRSHA256_2 d) = 32"
  "length (BRSHA384 d) = 48" "length (BRSHA512 d) = 64" "length (BRRMD160 d) = 20" "length (BRHash160 d) = 20"
  "length (BRMD5 d) = 16"
  by (simp_all add: BRSHA1_def BRSHA224_def BRSHA256_def BRSHA256_2_def BRSHA384_def BRSHA512_def
      BRRMD160_def BRHash160_def BRMD5_def sha256_init_def
      md_digest_length [where k = 5] md_digest_length [where k = 8] md_digest_length [where k = 4] length_compress)

lemma length_sha3_finish:
  assumes "length (fst bd) = 25"
  shows "length (sha3_finish p bd) = 32"
  using assms by (cases bd) (simp add: sha3_finish_def Let_def length_SHA3Compress)

lemma length_sha3 [simp, len_simps]: "length (BRSHA3_256 d) = 32" "length (BRKeccak256 d) = 32"
  unfolding BRSHA3_256_def BRKeccak256_def
  by (rule length_sha3_finish, rule block_loop_inv [where P = "\<lambda>q. length q = 25"];
      simp add: length_SHA3Compress)+

section \<open>Properties\<close>

text \<open>
  SHA-512 and RIPEMD-160 are the folds of their compression functions over the padded message, with 128 byte blocks and a
  16 byte big-endian length, and with 64 byte blocks and a little-endian length.
\<close>

theorem BRSHA512_RMD160_padded_blocks:
  "BRSHA512 d = bytes64 (map be64 (foldl BRSHA512Compress
      [0x6a09e667f3bcc908, 0xbb67ae8584caa73b, 0x3c6ef372fe94f82b, 0xa54ff53a5f1d36f1,
       0x510e527fade682d1, 0x9b05688c2b3e6c1f, 0x1f83d9abfb41bd6b, 0x5be0cd19137e2179]
      (chunks 128 (md_pad 128 112 (len_be128 (length d)) d)))) \<and>
   BRRMD160 d = bytes32 (map le32 (foldl BRRMDCompress
      [0x67452301, 0xefcdab89, 0x98badcfe, 0x10325476, 0xc3d2e1f0] (chunks 64 (md_pad 64 56 (len_le (length d)) d))))"
  unfolding BRSHA512_def BRRMD160_def
  by (subst md_digest_pad, simp, simp add: len_be128_def, subst md_digest_pad) (simp_all add: len_le_def)

end
