(* ===== verification/Sha256.thy ===== *)
theory Sha256
  imports Complex_Main Digests
begin

text \<open>
  SHA-256 as the standard (FIPS 180-4) defines it, with bytes for its bits, and the proof that \<open>BRSHA256\<close> is this function.
  The definitions here follow the text of the standard and use nothing of the code: numbers are written in base
  256 by division, rotations are those of the word library, and the constants are not copied but given by what
  they are, the first 32 bits of the fractional parts of the cube roots and square roots of the first primes.
\<close>

section \<open>The standard\<close>

text \<open>Section 5.1.1: the message, the bit 1, the least number of zeros, and the length in bits as a 64 bit number.\<close>

definition be_bytes :: "nat \<Rightarrow> nat \<Rightarrow> byte list" where
  "be_bytes n v = map (\<lambda>i. of_nat (v div 256 ^ (n - 1 - i))) [0..<n]"

definition fips_zeros :: "nat \<Rightarrow> nat" where
  "fips_zeros l = (LEAST k. (l + 1 + k) mod 64 = 56)"

definition fips_pad :: "byte list \<Rightarrow> byte list" where
  "fips_pad M = M @ [0x80] @ replicate (fips_zeros (length M)) 0 @ be_bytes 8 (8 * length M)"

text \<open>Section 5.2.1: the blocks of 512 bits and their sixteen words.\<close>

definition fips_blocks :: "byte list \<Rightarrow> byte list list" where
  "fips_blocks M = map (\<lambda>i. take 64 (drop (64 * i) M)) [0..<length M div 64]"

definition fips_word :: "byte list \<Rightarrow> nat \<Rightarrow> u32" where
  "fips_word B t = of_nat (foldl (\<lambda>v b. 256 * v + unat b) 0 (take 4 (drop (4 * t) B)))"

text \<open>Section 4.1.2: the functions.\<close>

definition fips_Ch :: "u32 \<Rightarrow> u32 \<Rightarrow> u32 \<Rightarrow> u32" where
  "fips_Ch x y z = (x AND y) XOR (NOT x AND z)"

definition fips_Maj :: "u32 \<Rightarrow> u32 \<Rightarrow> u32 \<Rightarrow> u32" where
  "fips_Maj x y z = (x AND y) XOR (x AND z) XOR (y AND z)"

definition fips_Sigma0 :: "u32 \<Rightarrow> u32" where
  "fips_Sigma0 x = word_rotr 2 x XOR word_rotr 13 x XOR word_rotr 22 x"

definition fips_Sigma1 :: "u32 \<Rightarrow> u32" where
  "fips_Sigma1 x = word_rotr 6 x XOR word_rotr 11 x XOR word_rotr 25 x"

definition fips_sigma0 :: "u32 \<Rightarrow> u32" where
  "fips_sigma0 x = word_rotr 7 x XOR word_rotr 18 x XOR drop_bit 3 x"

definition fips_sigma1 :: "u32 \<Rightarrow> u32" where
  "fips_sigma1 x = word_rotr 17 x XOR word_rotr 19 x XOR drop_bit 10 x"

text \<open>
  Sections 4.2.2 and 5.3.3: the constants, for the primes up to 311. A composite number below \<open>18\<^sup>2\<close> has a prime divisor below 18. The
  conversion to a word keeps the last 32 bits of the integer part.
\<close>

definition first_primes :: "nat list" where
  "first_primes = filter (\<lambda>p. \<forall>d \<in> {2, 3, 5, 7, 11, 13, 17}. d dvd p \<longrightarrow> p = d) [2..<312]"

definition fraction_bits :: "real \<Rightarrow> u32" where
  "fraction_bits x = of_int \<lfloor>2 ^ 32 * x\<rfloor>"

definition fips_K :: "nat \<Rightarrow> u32" where
  "fips_K t = fraction_bits (root 3 (real (first_primes ! t)))"

type_synonym fips_state = "u32 \<times> u32 \<times> u32 \<times> u32 \<times> u32 \<times> u32 \<times> u32 \<times> u32"

definition fips_H0 :: fips_state where
  "fips_H0 = (let h = \<lambda>i. fraction_bits (root 2 (real (first_primes ! i))) in (h 0, h 1, h 2, h 3, h 4, h 5, h 6, h 7))"

text \<open>Section 6.2.2: the message schedule, the rounds and the intermediate hash value.\<close>

fun fips_W :: "byte list \<Rightarrow> nat \<Rightarrow> u32" where
  "fips_W B t = (if t < 16 then fips_word B t
     else fips_sigma1 (fips_W B (t - 2)) + fips_W B (t - 7) + fips_sigma0 (fips_W B (t - 15)) + fips_W B (t - 16))"

declare fips_W.simps [simp del]

fun fips_round :: "u32 \<Rightarrow> u32 \<Rightarrow> fips_state \<Rightarrow> fips_state" where
  "fips_round k w (a, b, c, d, e, f, g, h) =
     (let T1 = h + fips_Sigma1 e + fips_Ch e f g + k + w;
          T2 = fips_Sigma0 a + fips_Maj a b c
      in (T1 + T2, a, b, c, d + T1, e, f, g))"

primrec fips_rounds :: "byte list \<Rightarrow> nat \<Rightarrow> fips_state \<Rightarrow> fips_state" where
  "fips_rounds B 0 s = s"
| "fips_rounds B (Suc t) s = fips_round (fips_K t) (fips_W B t) (fips_rounds B t s)"

fun fips_add :: "fips_state \<Rightarrow> fips_state \<Rightarrow> fips_state" where
  "fips_add (a, b, c, d, e, f, g, h) (a', b', c', d', e', f', g', h') =
     (a' + a, b' + b, c' + c, d' + d, e' + e, f' + f, g' + g, h' + h)"

definition fips_hash :: "byte list \<Rightarrow> fips_state" where
  "fips_hash M = foldl (\<lambda>H B. fips_add H (fips_rounds B 64 H)) fips_H0 (fips_blocks (fips_pad M))"

fun state_words :: "fips_state \<Rightarrow> u32 list" where
  "state_words (a, b, c, d, e, f, g, h) = [a, b, c, d, e, f, g, h]"

definition fips_sha256 :: "byte list \<Rightarrow> byte list" where
  "fips_sha256 M = concat (map (\<lambda>x. be_bytes 4 (unat x)) (state_words (fips_hash M)))"

section \<open>The constants of the code\<close>

lemma first_primes:
  "first_primes = [2, 3, 5, 7, 11, 13, 17, 19, 23, 29, 31, 37, 41, 43, 47, 53, 59, 61, 67, 71, 73, 79, 83, 89, 97, 101, 103,
     107, 109, 113, 127, 131, 137, 139, 149, 151, 157, 163, 167, 173, 179, 181, 191, 193, 197, 199, 211, 223, 227, 229, 233,
     239, 241, 251, 257, 263, 269, 271, 277, 281, 283, 293, 307, 311]"
  unfolding first_primes_def by simp

lemma length_primes: "length first_primes = 64"
  by (simp add: first_primes)

lemma fraction_bits_root:
  assumes "0 < n" "k ^ n \<le> p * (2 ^ 32) ^ n" "p * (2 ^ 32) ^ n < (k + 1) ^ n"
  shows "fraction_bits (root n (real p)) = of_nat k"
proof -
  have eq: "2 ^ 32 * root n (real p) = root n (real (p * (2 ^ 32) ^ n))"
    using assms(1) by (simp add: real_root_mult real_root_power_cancel)
  have "real k = root n (real (k ^ n))" "real (k + 1) = root n (real ((k + 1) ^ n))"
    using assms(1) by (simp_all add: real_root_power_cancel)
  moreover have "root n (real (k ^ n)) \<le> root n (real (p * (2 ^ 32) ^ n))"
    using assms(1,2) by (simp only: real_root_le_iff of_nat_le_iff)
  moreover have "root n (real (p * (2 ^ 32) ^ n)) < root n (real ((k + 1) ^ n))"
    using assms(1,3) by (simp only: real_root_less_iff of_nat_less_iff)
  ultimately have "\<lfloor>2 ^ 32 * root n (real p)\<rfloor> = int k" unfolding eq by (simp add: floor_eq_iff)
  then show ?thesis by (simp add: fraction_bits_def)
qed

lemma map_eq_all2: "list_all2 (\<lambda>x y. f x = g y) xs ys \<Longrightarrow> map f xs = map g ys"
  by (induction rule: list_all2_induct) simp_all

text \<open>The roots with their integer parts.\<close>

lemma cube_roots:
  "map fips_K [0..<64] = sha256_k"
proof -
  let ?ks =
    "[0x1428a2f98, 0x171374491, 0x1b5c0fbcf, 0x1e9b5dba5, 0x23956c25b, 0x259f111f1, 0x2923f82a4, 0x2ab1c5ed5,
     0x2d807aa98, 0x312835b01, 0x3243185be, 0x3550c7dc3, 0x372be5d74, 0x380deb1fe, 0x39bdc06a7, 0x3c19bf174,
     0x3e49b69c1, 0x3efbe4786, 0x40fc19dc6, 0x4240ca1cc, 0x42de92c6f, 0x44a7484aa, 0x45cb0a9dc, 0x476f988da,
     0x4983e5152, 0x4a831c66d, 0x4b00327c8, 0x4bf597fc7, 0x4c6e00bf3, 0x4d5a79147, 0x506ca6351, 0x514292967,
     0x527b70a85, 0x52e1b2138, 0x54d2c6dfc, 0x553380d13, 0x5650a7354, 0x5766a0abb, 0x581c2c92e, 0x592722c85,
     0x5a2bfe8a1, 0x5a81a664b, 0x5c24b8b70, 0x5c76c51a3, 0x5d192e819, 0x5d6990624, 0x5f40e3585, 0x6106aa070,
     0x619a4c116, 0x61e376c08, 0x62748774c, 0x634b0bcb5, 0x6391c0cb3, 0x64ed8aa4a, 0x65b9cca4f, 0x6682e6ff3,
     0x6748f82ee, 0x678a5636f, 0x684c87814, 0x68cc70208, 0x690befffa, 0x6a4506ceb, 0x6bef9a3f7, 0x6c67178f2] :: nat list"
  have "list_all2 (\<lambda>p k. k ^ 3 \<le> p * (2 ^ 32) ^ 3 \<and> p * (2 ^ 32) ^ 3 < (k + 1) ^ 3) first_primes ?ks"
    unfolding first_primes by simp
  then have "list_all2 (\<lambda>p k. fraction_bits (root 3 (real p)) = of_nat k) first_primes ?ks"
    by (rule list_all2_mono) (auto intro!: fraction_bits_root)
  then have "map (\<lambda>p. fraction_bits (root 3 (real p))) first_primes = map of_nat ?ks"
    by (rule map_eq_all2)
  moreover have "map fips_K [0..<64] = map (\<lambda>p. fraction_bits (root 3 (real p))) first_primes"
    by (rule nth_equalityI) (simp_all add: length_primes fips_K_def)
  moreover have "map of_nat ?ks = sha256_k" unfolding sha256_k_def by simp
  ultimately show ?thesis by simp
qed

lemma square_roots: "state_words fips_H0 = sha256_init"
proof -
  have "list_all2 (\<lambda>p k. k ^ 2 \<le> p * (2 ^ 32) ^ 2 \<and> p * (2 ^ 32) ^ 2 < (k + 1) ^ 2) (take 8 first_primes)
    [0x16a09e667, 0x1bb67ae85, 0x23c6ef372, 0x2a54ff53a, 0x3510e527f, 0x39b05688c, 0x41f83d9ab, 0x45be0cd19]"
    unfolding first_primes by simp
  then have "list_all2 (\<lambda>p k. fraction_bits (root 2 (real p)) = of_nat k) (take 8 first_primes)
    [0x16a09e667, 0x1bb67ae85, 0x23c6ef372, 0x2a54ff53a, 0x3510e527f, 0x39b05688c, 0x41f83d9ab, 0x45be0cd19]"
    by (rule list_all2_mono) (auto intro!: fraction_bits_root)
  then show ?thesis unfolding fips_H0_def Let_def sha256_init_def by (simp add: first_primes)
qed

section \<open>Words and padding\<close>

lemma byte_of_low:
  assumes "k + 8 \<le> n"
  shows "(of_nat (m mod 2 ^ n div 2 ^ k) :: byte) = of_nat (m div 2 ^ k)"
  using assms unfolding take_bit_eq_mod [symmetric] drop_bit_eq_div [symmetric]
  by (intro bit_word_eqI) (simp add: bit_simps)

lemma UInt32SetLE_be32: "UInt32SetLE (be32 x) = UInt32SetBE x"
proof -
  have m: "(0xff :: u32) = mask 8" "(0xff00 :: u32) = push_bit 8 (mask 8)" "(0xff0000 :: u32) = push_bit 16 (mask 8)"
    "(0xff000000 :: u32) = push_bit 24 (mask 8)" by (simp_all add: mask_eq_exp_minus_1)
  have "(ucast (be32 x) :: byte) = ucast (drop_bit 24 x)" "(ucast (drop_bit 8 (be32 x)) :: byte) = ucast (drop_bit 16 x)"
    "(ucast (drop_bit 16 (be32 x)) :: byte) = ucast (drop_bit 8 x)" "(ucast (drop_bit 24 (be32 x)) :: byte) = ucast x"
    unfolding be32_def m by (intro bit_word_eqI; auto simp: bit_simps)+
  then show ?thesis unfolding UInt32SetLE_def UInt32SetBE_def mask_byte_ucast by simp
qed

lemma UInt32SetBE_bytes: "UInt32SetBE x = be_bytes 4 (unat x)"
proof -
  have "[0..<4] = [0, 1, 2, 3 :: nat]" by (simp add: upt_rec)
  then show ?thesis
    unfolding UInt32SetBE_def mask_byte_ucast be_bytes_def
    using of_nat_div_byte [of x 24] of_nat_div_byte [of x 16] of_nat_div_byte [of x 8] of_nat_unat_byte [of x] by simp
qed

lemma bytes32_be32: "bytes32 (map be32 ws) = concat (map (\<lambda>x. be_bytes 4 (unat x)) ws)"
  unfolding bytes32_def by (simp add: UInt32SetLE_be32 UInt32SetBE_bytes comp_def)

lemma be_bytes_4: "be_bytes 4 v = [of_nat (v div 2 ^ 24), of_nat (v div 2 ^ 16), of_nat (v div 2 ^ 8), of_nat (v div 2 ^ 0)]"
proof -
  have "[0..<4] = [0, 1, 2, 3 :: nat]" by (simp add: upt_rec)
  then show ?thesis by (simp add: be_bytes_def)
qed

lemma be_bytes_8: "be_bytes 8 v = be_bytes 4 (v div 2 ^ 32) @ be_bytes 4 v"
proof -
  have "[0..<8] = [0, 1, 2, 3, 4, 5, 6, 7 :: nat]" by (simp add: upt_rec)
  then show ?thesis unfolding be_bytes_4 by (simp add: be_bytes_def flip: div_mult2_eq)
qed

lemma be_bytes_4_mod: "be_bytes 4 (v mod 2 ^ 32) = be_bytes 4 v"
  unfolding be_bytes_4 by (simp only: byte_of_low)

lemma len_be_bytes: "len_be n = be_bytes 8 (8 * n)"
proof -
  have "8 * n div 2 ^ 32 = 8 * n div (8 * 2 ^ 29)" by simp
  then have e: "8 * n div 2 ^ 32 = n div 2 ^ 29" by (simp only: div_mult_mult1_if) simp
  have w: "unat (of_nat m :: u32) = m mod 2 ^ 32" for m by (simp add: unat_of_nat take_bit_eq_mod)
  show ?thesis
    using bytes32_be32 [of "[of_nat (n div 2 ^ 29), of_nat (n * 8)]"]
    by (simp only: len_be_def list.map w concat.simps append_Nil2 be_bytes_8 be_bytes_4_mod e mult.commute [of n 8])
qed

lemma zeros_sum: "(l + 1 + (56 + 64 - (l + 1) mod 64) mod 64) mod 64 = (56 :: nat)"
proof -
  have "(l + 1 + (56 + 64 - (l + 1) mod 64) mod 64) mod 64 = ((l + 1) mod 64 + (56 + 64 - (l + 1) mod 64)) mod 64"
    by (simp only: mod_add_left_eq mod_add_right_eq)
  moreover have "(l + 1) mod 64 \<le> 56 + 64" using mod_less_divisor [of 64 "l + 1"] by linarith
  ultimately show ?thesis by (simp only: le_add_diff_inverse) simp
qed

lemma fips_zeros: "fips_zeros l = (56 + 64 - (l + 1) mod 64) mod 64"
  unfolding fips_zeros_def
proof (rule Least_equality)
  let ?k = "(56 + 64 - (l + 1) mod 64) mod 64"
  show "(l + 1 + ?k) mod 64 = 56" by (rule zeros_sum)
  fix y assume "(l + 1 + y) mod 64 = 56"
  define a r where "a = (l + 1) mod 64" and "r = y mod 64"
  have "(a + r) mod 64 = 56" using \<open>(l + 1 + y) mod 64 = 56\<close> unfolding a_def r_def by (simp only: mod_add_eq)
  then obtain q where q: "64 * q + 56 = a + r" using mult_div_mod_eq [of 64 "a + r"] by metis
  have "a < 64" "r < 64" "r \<le> y" by (simp_all add: a_def r_def)
  with q have "q = 0 \<or> q = 1" by linarith
  with q \<open>a < 64\<close> \<open>r < 64\<close> have "r = (if a \<le> 56 then 56 - a else 56 + 64 - a)" by auto
  then have "(56 + 64 - a) mod 64 = r" using \<open>a < 64\<close> by (simp add: mod_if)
  then show "?k \<le> y" using \<open>r \<le> y\<close> by (simp add: a_def)
qed

lemma md_pad_fips: "md_pad 64 56 (len_be (length d)) d = fips_pad d"
  unfolding md_pad_def fips_pad_def fips_zeros len_be_bytes by simp

lemma length_fips_pad: "64 dvd length (fips_pad d)"
proof -
  have "(length d + 1 + fips_zeros (length d)) mod 64 = 56" unfolding fips_zeros by (rule zeros_sum)
  then have "(length d + 1 + fips_zeros (length d) + 8) mod 64 = (56 + 8) mod 64" by (metis mod_add_left_eq)
  moreover have "length (fips_pad d) = length d + 1 + fips_zeros (length d) + 8" by (simp add: fips_pad_def be_bytes_def)
  ultimately show ?thesis by (simp add: dvd_eq_mod_eq_0)
qed

lemma chunks_blocks: "64 dvd length d \<Longrightarrow> chunks 64 d = fips_blocks d"
proof (induction "64 :: nat" d rule: chunks.induct)
  case (1 d)
  show ?case
  proof (cases "d = []")
    case False
    with 1 have l: "64 \<le> length d" by (auto dest: dvd_imp_le)
    then obtain k where k: "length d div 64 = Suc k" by (cases "length d div 64") auto
    then have "length (drop 64 d) div 64 = k" by simp
    with 1 False l k show ?thesis
      by (subst chunks.simps) (simp add: fips_blocks_def upt_conv_Cons del: upt_Suc flip: map_Suc_upt, simp add: comp_def add.commute)
  qed (simp add: fips_blocks_def chunks.simps)
qed

section \<open>The compression function\<close>

lemma ror32_rotr: "0 < n \<Longrightarrow> n < 32 \<Longrightarrow> ror32 x n = word_rotr n x"
  by (rule bit_word_eqI) (auto simp: ror32_def bit_simps mod_if add.commute [of n] dest: bit_imp_le_length)

lemma sha256_functions:
  "sha256_s0 = fips_Sigma0" "sha256_s1 = fips_Sigma1" "sha256_s2 = fips_sigma0" "sha256_s3 = fips_sigma1" "ch = fips_Ch" "maj = fips_Maj"
  by (simp_all add: fun_eq_iff sha256_s0_def sha256_s1_def sha256_s2_def sha256_s3_def ch_def maj_def fips_Sigma0_def
      fips_Sigma1_def fips_sigma0_def fips_sigma1_def fips_Ch_def fips_Maj_def ror32_rotr)

lemma be32_word: "be32 (UInt32GetLE [b0, b1, b2, b3]) = of_nat (256 * (256 * (256 * unat b0 + unat b1) + unat b2) + unat b3)"
  (is "?x = of_nat ?v")
proof -
  have "be32 (be32 y) = y" for y
    using UInt32SetLE_be32 [of "be32 y"] UInt32SetLE_be32 [of y] by (metis UIntSetBE_rev(2) rev_swap uint_get_set0(4))
  moreover have "UInt32SetLE (UInt32GetLE [b0, b1, b2, b3]) = [b0, b1, b2, b3]"
    unfolding UInt32SetLE_def mask_byte_ucast UInt32GetLE_def
    by (simp; intro conjI bit_word_eqI; auto simp: bit_simps nth_Cons' dest: bit_imp_le_length)
  ultimately have "UInt32SetLE ?x = [b3, b2, b1, b0]" by (simp add: UInt32SetLE_be32 UIntSetBE_rev)
  then have "unat ?x = ?v" using le_val_UInt32SetLE [of ?x] by simp
  moreover have "?x = of_nat (unat ?x)" by simp
  ultimately show ?thesis by (simp only:)
qed

lemma words_fips:
  "length B = 4 * n \<Longrightarrow> map be32 (words32 B) = map (fips_word B) [0..<n]"
proof (induction n arbitrary: B)
  case (Suc n)
  have "length B = Suc (Suc (Suc (Suc (4 * n))))" using Suc.prems by simp
  then obtain b0 b1 b2 b3 B' where B: "B = b0 # b1 # b2 # b3 # B'" by (auto simp: length_Suc_conv)
  have "drop (4 * Suc t) B = drop (4 * t) (drop 4 B)" for t by (simp only: drop_drop) (simp add: add.commute)
  then have "fips_word B (Suc t) = fips_word B' t" for t by (simp add: fips_word_def B del: mult_Suc_right)
  then have "map (fips_word B) [0..<Suc n] = fips_word B 0 # map (fips_word B') [0..<n]"
    by (simp add: upt_conv_Cons comp_def del: upt_Suc flip: map_Suc_upt)
  moreover have "fips_word B 0 = be32 (UInt32GetLE [b0, b1, b2, b3])" unfolding be32_word by (simp add: fips_word_def B)
  ultimately show ?case using Suc B by simp
qed simp

lemma schedule_fips: "16 \<le> k \<Longrightarrow> sha256_extend n (map (fips_W B) [0..<k]) = map (fips_W B) [0..<k + n]"
proof (induction n arbitrary: k)
  case (Suc n)
  have "fips_W B k = fips_sigma1 (fips_W B (k - 2)) + fips_W B (k - 7) + fips_sigma0 (fips_W B (k - 15)) + fips_W B (k - 16)"
    using Suc.prems by (subst fips_W.simps) simp
  then have "sha256_extend (Suc n) (map (fips_W B) [0..<k]) = sha256_extend n (map (fips_W B) [0..<Suc k])"
    using Suc.prems by (simp add: Let_def sha256_functions)
  then show ?case using Suc.IH [of "Suc k"] Suc.prems by simp
qed simp

lemma round_fips: "sha256_round (state_words s) (k, w) = state_words (fips_round k w s)"
  by (cases s rule: state_words.cases) (simp add: Let_def sha256_functions)

lemma rounds_fips:
  "foldl sha256_round (state_words s) (map (\<lambda>t. (fips_K t, fips_W B t)) [0..<n]) = state_words (fips_rounds B n s)"
  by (induction n) (simp_all add: round_fips)

lemma compress_fips:
  assumes "length B = 64"
  shows "BRSHA256Compress (state_words H) B = state_words (fips_add H (fips_rounds B 64 H))"
proof -
  have "map be32 (words32 B) = map (fips_W B) [0..<16]"
    using words_fips [of B 16] assms by (auto simp: fips_W.simps)
  then have "sha256_extend 48 (map be32 (words32 B)) = map (fips_W B) [0..<64]" by (simp only: schedule_fips) simp
  then have "zip sha256_k (sha256_extend 48 (map be32 (words32 B))) = map (\<lambda>t. (fips_K t, fips_W B t)) [0..<64]"
    unfolding cube_roots [symmetric] by (simp only: zip_map_map zip_same_conv_map map_map) (simp add: comp_def)
  moreover have "map2 (+) (state_words H) (state_words s) = state_words (fips_add H s)" for s
    by (cases H rule: state_words.cases; cases s rule: state_words.cases) (simp add: add.commute)
  ultimately show ?thesis unfolding BRSHA256Compress_def Let_def by (simp only: rounds_fips)
qed

section \<open>Properties\<close>

text \<open>
  C31: SHA-256 as the code computes it, in one pass that compresses full blocks from the message, pads the rest in place, with an
  extra block when the length does not fit, reads and writes words in the byte order of the machine, and keeps
  the message schedule and the eight state words in arrays, is the hash function of the standard, for
  every message.
\<close>

theorem BRSHA256_is_standard: "BRSHA256 d = fips_sha256 d"
proof -
  have len: "length B = 64" if "B \<in> set (fips_blocks (fips_pad d))" for B
  proof -
    have "B \<in> (\<lambda>i. take 64 (drop (64 * i) (fips_pad d))) ` {0..<length (fips_pad d) div 64}"
      using that by (simp only: fips_blocks_def set_map set_upt)
    then obtain i where i: "i \<in> {0..<length (fips_pad d) div 64}" "B = take 64 (drop (64 * i) (fips_pad d))" by blast
    then have "i < length (fips_pad d) div 64" by simp
    then have "64 * i + 64 \<le> length (fips_pad d)" by linarith
    with i(2) show ?thesis by simp
  qed
  have "foldl BRSHA256Compress (state_words H) Bs = state_words (foldl (\<lambda>H B. fips_add H (fips_rounds B 64 H)) H Bs)"
    if "\<forall>B \<in> set Bs. length B = 64" for H Bs
    using that by (induction Bs arbitrary: H) (simp_all add: compress_fips)
  then have "foldl BRSHA256Compress sha256_init (fips_blocks (fips_pad d)) = state_words (fips_hash d)"
    using len unfolding fips_hash_def square_roots [symmetric] by simp
  then have "foldl BRSHA256Compress sha256_init (chunks 64 (md_pad 64 56 (len_be (length d)) d)) = state_words (fips_hash d)"
    by (simp only: md_pad_fips chunks_blocks [OF length_fips_pad])
  moreover have "length (len_be (length d)) = 64 - 56" by (simp add: len_be_def)
  ultimately have "BRSHA256 d = bytes32 (map be32 (state_words (fips_hash d)))"
    unfolding BRSHA256_def by (subst md_digest_pad) simp_all
  then show ?thesis by (simp add: fips_sha256_def bytes32_be32)
qed

end
