(* ===== verification/Ciphers.thy ===== *)
theory Ciphers
  imports Digests
begin

text \<open>
  The keyed primitives of BRCrypto.c: HMAC, the HMAC-DRBG, PBKDF2, Poly1305, ChaCha20, their
  combination as authenticated encryption, and scrypt. A hash function pointer is a
  function on byte lists, with its digest length as the argument \<open>hashLen\<close> of the code. A failed
  \<open>assert\<close> is \<open>None\<close>.
\<close>

section \<open>HMAC, DRBG and PBKDF2\<close>

definition hash_len_ok :: "nat \<Rightarrow> bool" where
  "hash_len_ok hashLen \<longleftrightarrow> 0 < hashLen \<and> hashLen mod 4 = 0"

text \<open>The body of \<open>BRHMAC\<close>, after its assertions.\<close>

definition hmac :: "(byte list \<Rightarrow> byte list) \<Rightarrow> nat \<Rightarrow> byte list \<Rightarrow> byte list \<Rightarrow> byte list" where
  "hmac hsh hashLen key dat =
     (let blockLen = (if hashLen > 32 then 128 else 64);
          key = (if length key > blockLen then hsh key else key);
          k = key @ replicate (blockLen - length key) 0;
          kipad = map (\<lambda>b. b XOR 0x36) k;
          kopad = map (\<lambda>b. b XOR 0x5c) k
      in hsh (kopad @ hsh (kipad @ dat)))"

definition BRHMAC :: "(byte list \<Rightarrow> byte list) \<Rightarrow> nat \<Rightarrow> byte list \<Rightarrow> byte list \<Rightarrow> byte list option" where
  "BRHMAC hsh hashLen key dat = (if hash_len_ok hashLen then Some (hmac hsh hashLen key dat) else None)"

text \<open>
  The output loop of \<open>BRHMACDRBG\<close>: block \<open>i\<close> of the output is the next \<open>V\<close>, or the part of it
  that still fits.
\<close>

fun drbg_loop :: "(byte list \<Rightarrow> byte list) \<Rightarrow> nat \<Rightarrow> nat \<Rightarrow> byte list \<Rightarrow> nat \<Rightarrow> nat \<Rightarrow> byte list \<Rightarrow> byte list \<times> byte list" where
  "drbg_loop hsh hashLen outLen K 0 i V = ([], V)"
| "drbg_loop hsh hashLen outLen K (Suc n) i V =
     (let V = hmac hsh hashLen K V;
          (out, V') = drbg_loop hsh hashLen outLen K n (i + 1) V
      in (take (if i * hashLen + hashLen \<le> outLen then hashLen else outLen mod hashLen) V @ out, V'))"

text \<open>The result is \<open>(out, K, V)\<close>; a null pointer is \<open>None\<close>.\<close>

definition BRHMACDRBG :: "nat \<Rightarrow> byte list \<Rightarrow> byte list \<Rightarrow> (byte list \<Rightarrow> byte list) \<Rightarrow> nat \<Rightarrow>
    byte list option \<Rightarrow> byte list option \<Rightarrow> byte list option \<Rightarrow> (byte list \<times> byte list \<times> byte list) option" where
  "BRHMACDRBG outLen K V hsh hashLen seed nonce ps =
     (if \<not> hash_len_ok hashLen then None
      else
        let init = (seed \<noteq> None \<or> nonce \<noteq> None \<or> ps \<noteq> None);
            bytes = (\<lambda>p. case p of None \<Rightarrow> [] | Some b \<Rightarrow> b);
            K = (if init then replicate hashLen 0x00 else K);
            V = (if init then replicate hashLen 0x01 else V);
            rest = bytes seed @ bytes nonce @ bytes ps;
            K = hmac hsh hashLen K (V @ 0x00 # rest);
            V = hmac hsh hashLen K V;
            K' = (if init then hmac hsh hashLen K (V @ 0x01 # rest) else K);
            V = (if init then hmac hsh hashLen K' V else V);
            (out, V) = drbg_loop hsh hashLen outLen K' ((outLen + hashLen - 1) div hashLen) 0 V
        in Some (out, K', V))"

text \<open>\<open>U1 ^ U2 ^ ... ^ Urounds\<close>, with \<open>n = rounds - 1\<close> steps left.\<close>

fun pbkdf2_rounds :: "(byte list \<Rightarrow> byte list) \<Rightarrow> nat \<Rightarrow> byte list \<Rightarrow> nat \<Rightarrow> byte list \<Rightarrow> byte list \<Rightarrow> byte list" where
  "pbkdf2_rounds hsh hashLen pw 0 U T = T"
| "pbkdf2_rounds hsh hashLen pw (Suc n) U T =
     (let U = hmac hsh hashLen pw U in pbkdf2_rounds hsh hashLen pw n U (map2 (XOR) T U))"

definition pbkdf2_block :: "(byte list \<Rightarrow> byte list) \<Rightarrow> nat \<Rightarrow> byte list \<Rightarrow> byte list \<Rightarrow> nat \<Rightarrow> nat \<Rightarrow> byte list" where
  "pbkdf2_block hsh hashLen pw salt rounds i =
     (let U = hmac hsh hashLen pw (salt @ UInt32SetLE (be32 (of_nat (i + 1))))
      in pbkdf2_rounds hsh hashLen pw (rounds - 1) U U)"

definition BRPBKDF2 :: "nat \<Rightarrow> (byte list \<Rightarrow> byte list) \<Rightarrow> nat \<Rightarrow> byte list \<Rightarrow> byte list \<Rightarrow> nat \<Rightarrow> byte list option" where
  "BRPBKDF2 dkLen hsh hashLen pw salt rounds =
     (if hash_len_ok hashLen \<and> 0 < rounds
      then Some (concat (map (\<lambda>i.
             take (if i * hashLen + hashLen \<le> dkLen then hashLen else dkLen mod hashLen)
               (pbkdf2_block hsh hashLen pw salt rounds i)) [0..<(dkLen + hashLen - 1) div hashLen]))
      else None)"

section \<open>Poly1305\<close>

text \<open>The accumulator \<open>h\<close> has five limbs of 26 bits; \<open>r\<close> is the clamped key.\<close>

definition poly_r :: "byte list \<Rightarrow> u32 list" where
  "poly_r key32 =
     (let x = words32 (take 16 key32); t0 = le32 (x ! 0); t1 = le32 (x ! 1); t2 = le32 (x ! 2); t3 = le32 (x ! 3)
      in [t0 AND 0x03ffffff, (drop_bit 26 t0 OR push_bit 6 t1) AND 0x03ffff03,
          (drop_bit 20 t1 OR push_bit 12 t2) AND 0x03ffc0ff, (drop_bit 14 t2 OR push_bit 18 t3) AND 0x03f03fff,
          drop_bit 8 t3 AND 0x000fffff])"

text \<open>\<open>h += x\<close>, with the bit 2^128 of a full block.\<close>

definition poly_add :: "u32 list \<Rightarrow> byte list \<Rightarrow> u32 \<Rightarrow> u32 list" where
  "poly_add h b hibit =
     (let x = words32 b; t0 = le32 (x ! 0); t1 = le32 (x ! 1); t2 = le32 (x ! 2); t3 = le32 (x ! 3)
      in [h ! 0 + (t0 AND 0x03ffffff), h ! 1 + ((drop_bit 26 t0 OR push_bit 6 t1) AND 0x03ffffff),
          h ! 2 + ((drop_bit 20 t1 OR push_bit 12 t2) AND 0x03ffffff),
          h ! 3 + ((drop_bit 14 t2 OR push_bit 18 t3) AND 0x03ffffff),
          h ! 4 + (drop_bit 8 t3 OR hibit)])"

definition mul64 :: "u32 \<Rightarrow> u32 \<Rightarrow> u64" where
  "mul64 a b = ucast a * ucast b"

text \<open>\<open>h *= r\<close> and the partial reduction modulo 2^130 - 5.\<close>

definition poly_mul :: "u32 list \<Rightarrow> u32 list \<Rightarrow> u32 list" where
  "poly_mul r h =
     (let d0 = mul64 (h!0) (r!0) + mul64 (h!1) (r!4) * 5 + mul64 (h!2) (r!3) * 5 + mul64 (h!3) (r!2) * 5 + mul64 (h!4) (r!1) * 5;
          d1 = mul64 (h!0) (r!1) + mul64 (h!1) (r!0) + mul64 (h!2) (r!4) * 5 + mul64 (h!3) (r!3) * 5 + mul64 (h!4) (r!2) * 5;
          d2 = mul64 (h!0) (r!2) + mul64 (h!1) (r!1) + mul64 (h!2) (r!0) + mul64 (h!3) (r!4) * 5 + mul64 (h!4) (r!3) * 5;
          d3 = mul64 (h!0) (r!3) + mul64 (h!1) (r!2) + mul64 (h!2) (r!1) + mul64 (h!3) (r!0) + mul64 (h!4) (r!4) * 5;
          d4 = mul64 (h!0) (r!4) + mul64 (h!1) (r!3) + mul64 (h!2) (r!2) + mul64 (h!3) (r!1) + mul64 (h!4) (r!0);
          d1 = d1 + ucast (ucast (drop_bit 26 d0) :: u32); h1 = ucast (d1 AND 0x03ffffff);
          d2 = d2 + ucast (ucast (drop_bit 26 d1) :: u32); h2 = ucast (d2 AND 0x03ffffff);
          d3 = d3 + ucast (ucast (drop_bit 26 d2) :: u32); h3 = ucast (d3 AND 0x03ffffff);
          d4 = d4 + ucast (ucast (drop_bit 26 d3) :: u32); h4 = ucast (d4 AND 0x03ffffff);
          h0 = ucast ((d0 AND 0x03ffffff) + ucast ((ucast (drop_bit 26 d4) :: u32) * 5));
          h1 = h1 + drop_bit 26 h0; h0 = h0 AND 0x03ffffff
      in [h0, h1, h2, h3, h4])"

function poly_blocks :: "u32 list \<Rightarrow> u32 list \<Rightarrow> byte list \<Rightarrow> u32 list" where
  "poly_blocks r h d =
     (if d = [] then h
      else if length d < 16
      then poly_mul r (poly_add h ((d @ replicate (16 - length d) 0)[length d := 1]) 0)
      else poly_blocks r (poly_mul r (poly_add h (take 16 d) 0x01000000)) (drop 16 d))"
  by pat_completeness auto
termination by (relation "measure (\<lambda>(r, h, d). length d)") auto

declare poly_blocks.simps [simp del]

definition poly_final :: "byte list \<Rightarrow> u32 list \<Rightarrow> u32 list" where
  "poly_final key32 h =
     (let h2 = h!2 + drop_bit 26 (h!1); h1 = h!1 AND 0x03ffffff; h3 = h!3 + drop_bit 26 h2; h2 = h2 AND 0x03ffffff;
          h4 = h!4 + drop_bit 26 h3; h3 = h3 AND 0x03ffffff; h0 = h!0 + drop_bit 26 h4 * 5; h4 = h4 AND 0x03ffffff;
          h1 = h1 + drop_bit 26 h0; h0 = h0 AND 0x03ffffff;
          t0 = h0 + 5; t1 = h1 + drop_bit 26 t0; t0 = t0 AND 0x03ffffff; t2 = h2 + drop_bit 26 t1; t1 = t1 AND 0x03ffffff;
          t3 = h3 + drop_bit 26 t2; t2 = t2 AND 0x03ffffff; t4 = h4 + drop_bit 26 t3 - push_bit 26 1; t3 = t3 AND 0x03ffffff;
          b = drop_bit 31 t4 - 1;
          h0 = (h0 AND NOT b) OR (t0 AND b); h1 = (h1 AND NOT b) OR (t1 AND b); h2 = (h2 AND NOT b) OR (t2 AND b);
          h3 = (h3 AND NOT b) OR (t3 AND b); h4 = (h4 AND NOT b) OR (t4 AND b);
          h0 = h0 OR push_bit 26 h1; h1 = drop_bit 6 h1 OR push_bit 20 h2; h2 = drop_bit 12 h2 OR push_bit 14 h3;
          h3 = drop_bit 18 h3 OR push_bit 8 h4;
          x = words32 (take 16 (drop 16 key32));
          d0 = (ucast h0 :: u64) + ucast (le32 (x!0)); d1 = ucast h1 + ucast (le32 (x!1)) + drop_bit 32 d0;
          d2 = ucast h2 + ucast (le32 (x!2)) + drop_bit 32 d1; d3 = ucast h3 + ucast (le32 (x!3)) + drop_bit 32 d2
      in [le32 (ucast d0), le32 (ucast d1), le32 (ucast d2), le32 (ucast d3), h4])"

definition BRPoly1305Compress :: "u32 list \<Rightarrow> byte list \<Rightarrow> byte list \<Rightarrow> bool \<Rightarrow> u32 list" where
  "BRPoly1305Compress h key32 d final =
     (let h = poly_blocks (poly_r key32) h d in if final then poly_final key32 h else h)"

definition BRPoly1305 :: "byte list \<Rightarrow> byte list \<Rightarrow> byte list" where
  "BRPoly1305 key32 d = bytes32 (take 4 (BRPoly1305Compress [0, 0, 0, 0, 0] key32 d True))"

section \<open>ChaCha20\<close>

definition qr :: "nat \<Rightarrow> nat \<Rightarrow> nat \<Rightarrow> nat \<Rightarrow> u32 list \<Rightarrow> u32 list" where
  "qr i j k l x =
     (let a = x ! i + x ! j; d = rol32 (x ! l XOR a) 16; c = x ! k + d; b = rol32 (x ! j XOR c) 12;
          a = a + b; d = rol32 (d XOR a) 8; c = c + d; b = rol32 (b XOR c) 7
      in x[i := a, j := b, k := c, l := d])"

definition chacha_double_round :: "u32 list \<Rightarrow> u32 list" where
  "chacha_double_round =
     qr 3 4 9 14 \<circ> qr 2 7 8 13 \<circ> qr 1 6 11 12 \<circ> qr 0 5 10 15 \<circ>
     qr 3 7 11 15 \<circ> qr 2 6 10 14 \<circ> qr 1 5 9 13 \<circ> qr 0 4 8 12"

definition chacha_block :: "u32 list \<Rightarrow> byte list" where
  "chacha_block s = bytes32 (map le32 (map2 (+) s ((chacha_double_round ^^ 10) s)))"

text \<open>\<open>s[12]++; if (s[12] == 0) s[13]++\<close>\<close>

definition chacha_next :: "u32 list \<Rightarrow> u32 list" where
  "chacha_next s = (let s = s[12 := s ! 12 + 1] in if s ! 12 = 0 then s[13 := s ! 13 + 1] else s)"

text \<open>The loop over the data, 64 bytes for each new block \<open>b\<close> of the key stream.\<close>

function chacha_loop :: "u32 list \<Rightarrow> byte list \<Rightarrow> byte list" where
  "chacha_loop s d =
     (if d = [] then []
      else map2 (XOR) (take 64 d) (chacha_block s) @ chacha_loop (chacha_next s) (drop 64 d))"
  by pat_completeness auto
termination by (relation "measure (\<lambda>(s, d). length d)") auto

declare chacha_loop.simps [simp del]

definition chacha_sigma :: "byte list" where
  "chacha_sigma = map (of_nat \<circ> of_char) ''expand 32-byte k''"

definition chacha_init :: "byte list \<Rightarrow> byte list \<Rightarrow> u64 \<Rightarrow> u32 list" where
  "chacha_init key32 iv8 counter =
     map le32 (words32 chacha_sigma @ words32 (take 32 key32) @
       [le32 (ucast counter), le32 (ucast (drop_bit 32 counter))] @ words32 (take 8 iv8))"

definition BRChacha20 :: "byte list \<Rightarrow> byte list \<Rightarrow> byte list \<Rightarrow> u64 \<Rightarrow> byte list" where
  "BRChacha20 key32 iv8 d counter = chacha_loop (chacha_init key32 iv8 counter) d"

section \<open>Authenticated encryption\<close>

definition aead_counter :: "byte list \<Rightarrow> u64" where
  "aead_counter nonce12 = UInt64GetLE ([0, 0, 0, 0] @ take 4 nonce12)"

text \<open>The part of \<open>d\<close> in full 16 byte blocks, then the zero padded rest if there is one.\<close>

definition aead_absorb :: "byte list \<Rightarrow> byte list \<Rightarrow> u32 list \<Rightarrow> u32 list" where
  "aead_absorb macKey d h =
     (let n = (length d div 16) * 16;
          h = BRPoly1305Compress h macKey (take n d) False;
          pad = drop n d @ replicate (16 - length d mod 16) 0
      in if length d mod 16 \<noteq> 0 then BRPoly1305Compress h macKey pad False else h)"

definition aead_mac :: "byte list \<Rightarrow> byte list \<Rightarrow> byte list \<Rightarrow> byte list \<Rightarrow> u32 list" where
  "aead_mac key32 nonce12 ad ct =
     (let macKey = BRChacha20 key32 (drop 4 nonce12) (replicate 32 0) (le64 (aead_counter nonce12));
          h = aead_absorb macKey ct (aead_absorb macKey ad [0, 0, 0, 0, 0])
      in BRPoly1305Compress h macKey (bytes64 [le64 (of_nat (length ad)), le64 (of_nat (length ct))]) True)"

text \<open>
  \<open>outLen\<close> is \<open>None\<close> when \<open>out\<close> is \<open>NULL\<close>. The result is the return value and the bytes
  written to \<open>out\<close>.
\<close>

definition BRChacha20Poly1305AEADEncrypt :: "nat option \<Rightarrow> byte list \<Rightarrow> byte list \<Rightarrow> byte list \<Rightarrow> byte list \<Rightarrow> nat \<times> byte list" where
  "BRChacha20Poly1305AEADEncrypt outLen key32 nonce12 d ad =
     (case outLen of
        None \<Rightarrow> (length d + 16, [])
      | Some n \<Rightarrow>
          if n < length d + 16 \<or> length d div 64 \<ge> 2 ^ 32 - 1 then (0, [])
          else
            let ct = BRChacha20 key32 (drop 4 nonce12) d (le64 (aead_counter nonce12) + 1)
            in (length d + 16, ct @ bytes32 (take 4 (aead_mac key32 nonce12 ad ct))))"

text \<open>
  The comparison of the tag: \<open>!=\<close> binds stronger than \<open>|\<close>, so the last word
  enters as 0 or 1.
\<close>

definition tag_differs :: "u32 list \<Rightarrow> u32 list \<Rightarrow> bool" where
  "tag_differs mac h \<longleftrightarrow>
     (mac ! 0 XOR h ! 0) OR (mac ! 1 XOR h ! 1) OR (mac ! 2 XOR h ! 2) OR
       (if mac ! 3 XOR h ! 3 \<noteq> 0 then 1 else 0) \<noteq> 0"

definition BRChacha20Poly1305AEADDecrypt :: "nat option \<Rightarrow> byte list \<Rightarrow> byte list \<Rightarrow> byte list \<Rightarrow> byte list \<Rightarrow> nat \<times> byte list" where
  "BRChacha20Poly1305AEADDecrypt outLen key32 nonce12 d ad =
     (case outLen of
        None \<Rightarrow> (if length d < 16 then 0 else length d - 16, [])
      | Some n \<Rightarrow>
          if length d < 16 \<or> (length d - 16) div 64 \<ge> 2 ^ 32 - 1 \<or> n + 16 < length d then (0, [])
          else
            let len = length d - 16;
                ct = take len d;
                h = aead_mac key32 nonce12 ad ct;
                len = (if tag_differs (words32 (drop len d)) h then 0 else len)
            in (len, BRChacha20 key32 (drop 4 nonce12) (take len d) (le64 (aead_counter nonce12) + 1)))"

section \<open>Salsa20/8 and scrypt\<close>

text \<open>\<open>x[i] ^= rol32(x[j] + x[k], n)\<close>\<close>

definition salsa_op :: "nat \<Rightarrow> nat \<Rightarrow> nat \<Rightarrow> nat \<Rightarrow> u32 list \<Rightarrow> u32 list" where
  "salsa_op i j k n x = x[i := x ! i XOR rol32 (x ! j + x ! k) n]"

definition salsa_ops :: "(nat \<times> nat \<times> nat \<times> nat) list" where
  "salsa_ops = [
    (4, 0, 12, 7), (8, 4, 0, 9), (12, 8, 4, 13), (0, 12, 8, 18),
    (9, 5, 1, 7), (13, 9, 5, 9), (1, 13, 9, 13), (5, 1, 13, 18),
    (14, 10, 6, 7), (2, 14, 10, 9), (6, 2, 14, 13), (10, 6, 2, 18),
    (3, 15, 11, 7), (7, 3, 15, 9), (11, 7, 3, 13), (15, 11, 7, 18),
    (1, 0, 3, 7), (2, 1, 0, 9), (3, 2, 1, 13), (0, 3, 2, 18),
    (6, 5, 4, 7), (7, 6, 5, 9), (4, 7, 6, 13), (5, 4, 7, 18),
    (11, 10, 9, 7), (8, 11, 10, 9), (9, 8, 11, 13), (10, 9, 8, 18),
    (12, 15, 14, 7), (13, 12, 15, 9), (14, 13, 12, 13), (15, 14, 13, 18)]"

definition salsa_double_round :: "u32 list \<Rightarrow> u32 list" where
  "salsa_double_round x = foldl (\<lambda>x (i, j, k, n). salsa_op i j k n x) x salsa_ops"

definition salsa20_8 :: "u32 list \<Rightarrow> u32 list" where
  "salsa20_8 b = map2 (+) b ((salsa_double_round ^^ 4) b)"

text \<open>
  \<open>_blockmix_salsa8\<close> on a block of \<open>2 r\<close> pieces of 16 words: the outputs of the even pieces come first,
  then those of the odd ones.
\<close>

fun blockmix_loop :: "u32 list \<Rightarrow> u32 list list \<Rightarrow> u32 list list \<times> u32 list list" where
  "blockmix_loop b (s0 # s1 # src) =
     (let b0 = salsa20_8 (map2 (XOR) b s0);
          b1 = salsa20_8 (map2 (XOR) b0 s1);
          (ev, od) = blockmix_loop b1 src
      in (b0 # ev, b1 # od))"
| "blockmix_loop b _ = ([], [])"

definition blockmix_salsa8 :: "u32 list list \<Rightarrow> u32 list list" where
  "blockmix_salsa8 src = (let (ev, od) = blockmix_loop (last src) src in ev @ od)"

text \<open>The first loop of \<open>BRScrypt\<close> fills \<open>v\<close>, two entries in an iteration.\<close>

fun scrypt_fill :: "nat \<Rightarrow> u32 list list \<Rightarrow> u32 list list list \<Rightarrow> u32 list list \<times> u32 list list list" where
  "scrypt_fill 0 x v = (x, v)"
| "scrypt_fill (Suc j) x v =
     (let y = blockmix_salsa8 x in scrypt_fill j (blockmix_salsa8 y) (v @ [x, y]))"

text \<open>\<open>m = le64(x[(2*r - 1)*8]) & (n - 1)\<close>: the first eight bytes of the last piece.\<close>

definition scrypt_index :: "nat \<Rightarrow> u32 list list \<Rightarrow> nat" where
  "scrypt_index n x = unat (le64 (UInt64GetLE (bytes32 (take 2 (last x)))) AND of_nat (n - 1))"

definition scrypt_mix :: "nat \<Rightarrow> u32 list list list \<Rightarrow> u32 list list \<Rightarrow> u32 list list" where
  "scrypt_mix n v x = blockmix_salsa8 (map2 (map2 (XOR)) x (v ! scrypt_index n x))"

definition scrypt_rom :: "nat \<Rightarrow> u32 list list \<Rightarrow> u32 list list" where
  "scrypt_rom n x = (let (x, v) = scrypt_fill (n div 2) x [] in (scrypt_mix n v ^^ n) x)"

text \<open>
  \<open>r\<close>, \<open>n\<close> and \<open>p\<close> as in the code, which needs an even \<open>n\<close> (an odd one makes the first loop write
  behind \<open>v\<close>) and an allocation of \<open>128 r n\<close> bytes that does not wrap at 32 bits.
\<close>

definition BRScrypt :: "nat \<Rightarrow> byte list \<Rightarrow> byte list \<Rightarrow> nat \<Rightarrow> nat \<Rightarrow> nat \<Rightarrow> byte list option" where
  "BRScrypt dkLen pw salt n r p =
     (if 0 < n \<and> 0 < r \<and> 0 < p \<and> even n \<and> 128 * r * n < 2 ^ 32
      then case BRPBKDF2 (128 * r * p) BRSHA256 32 pw salt 1 of
             None \<Rightarrow> None
           | Some b \<Rightarrow>
               let blocks = chunks (2 * r) (chunks 16 (map le32 (words32 b)));
                   b = bytes32 (map le32 (concat (map (\<lambda>x. concat (scrypt_rom n x)) blocks)))
               in BRPBKDF2 dkLen BRSHA256 32 pw b 1
      else None)"

section \<open>Words and bytes\<close>

lemma UIntSetLE_GetLE [codec_simps]:
  "UInt32SetLE (UInt32GetLE [a, b, c, d]) = [a, b, c, d]"
  "UInt64SetLE (UInt64GetLE [a, b, c, d, e, f, g, h]) = [a, b, c, d, e, f, g, h]"
  unfolding UInt32SetLE_def UInt32GetLE_def UInt64SetLE_def UInt64GetLE_def mask_byte_ucast
  by (auto intro!: bit_word_eqI simp: bit_simps bit_byte_high)

lemma bytes32_words32 [codec_simps]: "length bs mod 4 = 0 \<Longrightarrow> bytes32 (words32 bs) = bs"
proof (induction bs rule: words32.induct)
  case (1 b0 b1 b2 b3 bs)
  then have "length bs mod 4 = 0" by (simp add: mod_Suc split: if_splits)
  with 1 show ?case by (simp add: bytes32_def UIntSetLE_GetLE)
qed (simp_all add: bytes32_def)

lemma words32_UInt32SetLE: "words32 (UInt32SetLE w @ bs) = w # words32 bs"
  using uint_get_set0(4) [of w] by (simp add: UInt32SetLE_def)

lemma words32_bytes32 [codec_simps]: "words32 (bytes32 ws) = ws"
  by (induction ws) (simp_all add: bytes32_def words32_UInt32SetLE)

lemma bytes32_inject [simp]: "bytes32 xs = bytes32 ys \<longleftrightarrow> xs = ys"
  by (metis words32_bytes32)

lemma length_words32 [simp, len_simps]: "length (words32 bs) = length bs div 4"
  by (induction bs rule: words32.induct) simp_all

section \<open>The stream cipher\<close>

lemma length_qr [simp]: "length (qr i j k l x) = length x"
  by (simp add: qr_def Let_def)

lemma length_chacha_rounds: "length ((chacha_double_round ^^ n) s) = length s"
  by (induction n) (simp_all add: chacha_double_round_def)

lemma length_chacha_block [simp, len_simps]: "length (chacha_block s) = 4 * length s"
  by (simp add: chacha_block_def length_chacha_rounds)

lemma length_chacha_next [simp, len_simps]: "length (chacha_next s) = length s"
  by (simp add: chacha_next_def Let_def)

lemma map2_xor_twice:
  fixes xs :: "'a::len word list"
  assumes "length xs \<le> length ks"
  shows "map2 (XOR) (map2 (XOR) xs ks) ks = xs"
  using assms by (intro nth_equalityI) (simp_all add: xor.assoc)

lemma length_chacha_loop:
  assumes "length s = 16"
  shows "length (chacha_loop s d) = length d"
  using assms
proof (induction s d rule: chacha_loop.induct)
  case (1 s d)
  then show ?case by (subst chacha_loop.simps) (cases "d = []", auto)
qed

text \<open>The key stream depends on the position only, so applying it twice gives the data back.\<close>

lemma chacha_loop_involution:
  assumes "length s = 16"
  shows "chacha_loop s (chacha_loop s d) = d"
  using assms
proof (induction s d rule: chacha_loop.induct)
  case (1 s d)
  show ?case
  proof (cases "d = []")
    case True
    then show ?thesis by (simp add: chacha_loop.simps)
  next
    case False
    let ?e = "map2 (XOR) (take 64 d) (chacha_block s)"
    have e: "chacha_loop s d = ?e @ chacha_loop (chacha_next s) (drop 64 d)"
      using False by (subst chacha_loop.simps) simp
    have IH: "chacha_loop (chacha_next s) (chacha_loop (chacha_next s) (drop 64 d)) = drop 64 d"
      using 1 False by simp
    have blk: "length (chacha_block s) = 64" using 1(2) by simp
    have ne: "?e \<noteq> []" using False blk by (cases d; cases "chacha_block s") auto
    have tl: "take 64 (?e @ r) = ?e \<and> drop 64 (?e @ r) = r" if "length d < 64 \<Longrightarrow> r = []" for r
      using that blk by (cases "length d < 64") simp_all
    have r: "length d < 64 \<Longrightarrow> chacha_loop (chacha_next s) (drop 64 d) = []"
      by (simp add: chacha_loop.simps)
    have "chacha_loop s (?e @ chacha_loop (chacha_next s) (drop 64 d)) =
        map2 (XOR) ?e (chacha_block s) @ drop 64 d"
      using ne conjunct1 [OF tl [OF r]] conjunct2 [OF tl [OF r]] IH
      by (subst chacha_loop.simps) (simp only: append_is_Nil_conv simp_thms if_False)
    also have "\<dots> = d" using blk by (simp add: map2_xor_twice)
    finally show ?thesis unfolding e .
  qed
qed

lemma length_chacha_init:
  assumes "length key32 = 32" "length iv8 = 8"
  shows "length (chacha_init key32 iv8 c) = 16"
  using assms by (simp add: chacha_init_def chacha_sigma_def)

lemma BRChacha20_length:
  "length key32 = 32 \<Longrightarrow> length iv8 = 8 \<Longrightarrow> length (BRChacha20 key32 iv8 d c) = length d"
  by (simp add: BRChacha20_def length_chacha_loop length_chacha_init)

lemma BRChacha20_twice:
  "length key32 = 32 \<Longrightarrow> length iv8 = 8 \<Longrightarrow> BRChacha20 key32 iv8 (BRChacha20 key32 iv8 d c) c = d"
  by (simp add: BRChacha20_def chacha_loop_involution length_chacha_init)

section \<open>The authenticated encryption\<close>

lemma length_poly_final [simp]: "length (poly_final k h) = 5"
  by (simp add: poly_final_def Let_def)

lemma length_aead_mac: "length (aead_mac k n ad ct) = 5"
  by (simp add: aead_mac_def BRPoly1305Compress_def Let_def)

lemma or_zero_iff: "(a :: 'a::len word) OR b = 0 \<longleftrightarrow> a = 0 \<and> b = 0"
  by (auto simp: bit_eq_iff bit_simps)

lemma xor_zero_iff: "(a :: 'a::len word) XOR b = 0 \<longleftrightarrow> a = b"
  by (metis xor.assoc xor.right_neutral xor_self_eq)

text \<open>The comparison of the tag, with its operator precedence, is the comparison of all four words.\<close>

lemma tag_differs_iff:
  assumes "length mac = 4" "4 \<le> length h"
  shows "tag_differs mac h \<longleftrightarrow> mac \<noteq> take 4 h"
proof -
  have h: "take 4 h = [h ! 0, h ! 1, h ! 2, h ! 3]"
    using assms(2) by (intro nth_equalityI) (auto simp: less_Suc_eq numeral_eq_Suc)
  have m: "mac = [mac ! 0, mac ! 1, mac ! 2, mac ! 3]"
    using assms(1) by (intro nth_equalityI) (auto simp: less_Suc_eq numeral_eq_Suc)
  have "mac = take 4 h \<longleftrightarrow> mac ! 0 = h ! 0 \<and> mac ! 1 = h ! 1 \<and> mac ! 2 = h ! 2 \<and> mac ! 3 = h ! 3"
    by (subst m, subst h) simp
  then show ?thesis unfolding tag_differs_def by (simp add: or_zero_iff xor_zero_iff)
qed

section \<open>Properties\<close>

text \<open>
  With a 32 byte key, a 12 byte nonce and room in the output, decrypting what was encrypted under the
  same key, nonce and associated data returns the length of the data and the data.
\<close>

theorem AEAD_decrypt_encrypt:
  assumes "length key32 = 32" "length nonce12 = 12" "length d div 64 < 2 ^ 32 - 1"
    and "length d + 16 \<le> n" "length d \<le> m"
    and "BRChacha20Poly1305AEADEncrypt (Some n) key32 nonce12 d ad = (len, out)"
  shows "len = length d + 16 \<and> length out = len \<and>
    BRChacha20Poly1305AEADDecrypt (Some m) key32 nonce12 out ad = (length d, d)"
proof -
  let ?iv = "drop 4 nonce12" and ?c = "le64 (aead_counter nonce12) + 1"
  let ?ct = "BRChacha20 key32 ?iv d ?c"
  let ?h = "aead_mac key32 nonce12 ad ?ct"
  have iv: "length ?iv = 8" using assms(2) by simp
  have ct: "length ?ct = length d" by (rule BRChacha20_length [OF assms(1) iv])
  have out: "len = length d + 16" "out = ?ct @ bytes32 (take 4 ?h)"
    using assms(3,4,6) by (auto simp: BRChacha20Poly1305AEADEncrypt_def Let_def)
  have lo: "length out = length d + 16" using ct by (simp add: out(2) length_aead_mac)
  moreover have "take (length d) out = ?ct" "drop (length d) out = bytes32 (take 4 ?h)"
    using ct by (simp_all add: out(2))
  moreover have "\<not> tag_differs (take 4 ?h) ?h"
    by (subst tag_differs_iff) (simp_all add: length_aead_mac)
  ultimately show ?thesis
    using assms(3,5) out(1) BRChacha20_twice [OF assms(1) iv]
    by (simp add: BRChacha20Poly1305AEADDecrypt_def Let_def words32_bytes32)
qed

lemma AEAD_decrypt_encrypt_witness:
  "\<exists>out. BRChacha20Poly1305AEADDecrypt (Some 3) (replicate 32 7) (replicate 12 9) out [1, 2] = (3, [65, 66, 67])"
proof -
  let ?d = "[65, 66, 67] :: byte list"
  obtain len out where
    e: "BRChacha20Poly1305AEADEncrypt (Some 19) (replicate 32 7) (replicate 12 9) ?d [1, 2] = (len, out)"
    by (rule prod.exhaust)
  have "length ?d = 3" by simp
  moreover have "BRChacha20Poly1305AEADDecrypt (Some 3) (replicate 32 7) (replicate 12 9) out [1, 2] = (length ?d, ?d)"
    using AEAD_decrypt_encrypt [OF _ _ _ _ _ e, of 3] by simp
  ultimately show ?thesis by metis
qed

text \<open>
  C27: what decryption accepts is authentic: a non-zero return value means that the input is exactly what
  encryption makes of the returned bytes; input with any other tag gives 0 and no output.
\<close>

theorem AEAD_accepts_only_encrypted:
  assumes "length key32 = 32" "length nonce12 = 12"
    and "BRChacha20Poly1305AEADDecrypt (Some m) key32 nonce12 d ad = (len, out)"
  shows "(len = 0 \<and> out = []) \<or>
    (length out = len \<and> BRChacha20Poly1305AEADEncrypt (Some (length d)) key32 nonce12 out ad = (length d, d))"
proof (cases "len = 0")
  case True
  then have "out = []"
    using assms(3)
    by (auto simp: BRChacha20Poly1305AEADDecrypt_def Let_def BRChacha20_def chacha_loop.simps split: if_splits)
  with True show ?thesis by simp
next
  case False
  let ?iv = "drop 4 nonce12" and ?c = "le64 (aead_counter nonce12) + 1"
  let ?ct = "take (length d - 16) d"
  let ?h = "aead_mac key32 nonce12 ad ?ct"
  have iv: "length ?iv = 8" using assms(2) by simp
  have g: "\<not> length d < 16" "(length d - 16) div 64 < 2 ^ 32 - 1"
    and t: "\<not> tag_differs (words32 (drop (length d - 16) d)) ?h"
    and len: "len = length d - 16" and out: "out = BRChacha20 key32 ?iv ?ct ?c"
    using False assms(3) by (auto simp: BRChacha20Poly1305AEADDecrypt_def Let_def split: if_splits)
  have lo: "length out = len"
    using BRChacha20_length [OF assms(1) iv] len by (simp add: out)
  have "words32 (drop (length d - 16) d) = take 4 ?h"
    using t by (subst (asm) tag_differs_iff) (use g in \<open>simp_all add: length_aead_mac\<close>)
  then have "bytes32 (take 4 ?h) = drop (length d - 16) d"
    using bytes32_words32 [of "drop (length d - 16) d"] g(1) by simp
  moreover have "BRChacha20 key32 ?iv out ?c = ?ct"
    unfolding out by (rule BRChacha20_twice [OF assms(1) iv])
  ultimately show ?thesis
    using g lo len by (simp add: BRChacha20Poly1305AEADEncrypt_def Let_def)
qed

lemma AEAD_accepts_only_encrypted_witness:
  "\<exists>d. BRChacha20Poly1305AEADDecrypt (Some 3) (replicate 32 7) (replicate 12 9) d [1, 2] = (3, [65, 66, 67]) \<and>
     BRChacha20Poly1305AEADEncrypt (Some (length d)) (replicate 32 7) (replicate 12 9) [65, 66, 67] [1, 2] = (length d, d)"
proof -
  obtain d where d: "BRChacha20Poly1305AEADDecrypt (Some 3) (replicate 32 7) (replicate 12 9) d [1, 2] = (3, [65, 66, 67])"
    using AEAD_decrypt_encrypt_witness by blast
  from AEAD_accepts_only_encrypted [OF _ _ d] d show ?thesis by (intro exI [of _ d]) simp
qed

end
