(* ===== verification/Radix.thy ===== *)
theory Radix
  imports Prelude
begin

text \<open>
  Positional numerals, most significant digit first, as the radix conversions of the code use
  them: the value of a digit list, its uniqueness, and the step that multiplies a
  fixed-width buffer by one base and adds a digit, carrying in the other base.
\<close>

definition be_val :: "nat \<Rightarrow> nat list \<Rightarrow> nat" where
  "be_val B ds = foldl (\<lambda>a d. a * B + d) 0 ds"

lemma be_val_Nil [simp]: "be_val B [] = 0"
  by (simp add: be_val_def)

lemma foldl_digits: "foldl (\<lambda>a d. a * B + d) v ds = v * B ^ length ds + be_val B ds"
proof (induction ds arbitrary: v)
  case (Cons d ds)
  show ?case
    using Cons [of "v * B + d"] Cons [of d] by (simp add: be_val_def distrib_right mult.assoc)
qed (simp add: be_val_def)

lemma be_val_Cons [simp]: "be_val B (d # ds) = d * B ^ length ds + be_val B ds"
  using foldl_digits [of B d ds] by (simp add: be_val_def)

lemma be_val_append: "be_val B (xs @ ys) = be_val B xs * B ^ length ys + be_val B ys"
  by (induction xs) (simp_all add: algebra_simps power_add)

lemma be_val_snoc [simp]: "be_val B (xs @ [d]) = be_val B xs * B + d"
  by (simp add: be_val_append)

lemma be_val_zeros [simp]: "be_val B (replicate n 0) = 0"
  by (induction n) simp_all

lemma be_val_bound: "\<forall>d \<in> set ds. d < B \<Longrightarrow> be_val B ds < B ^ length ds"
proof (induction ds)
  case (Cons d ds)
  then have "d * B ^ length ds + be_val B ds < (d + 1) * B ^ length ds" by simp
  also have "\<dots> \<le> B * B ^ length ds" using Cons.prems by (intro mult_right_mono) auto
  finally show ?case by simp
qed simp

lemma be_val_inject:
  assumes "length xs = length ys" "\<forall>d \<in> set xs. d < B" "\<forall>d \<in> set ys. d < B" "be_val B xs = be_val B ys"
  shows "xs = ys"
  using assms
proof (induction xs ys rule: list_induct2)
  case (Cons x xs y ys)
  have b: "be_val B xs < B ^ length xs" "be_val B ys < B ^ length xs"
    using be_val_bound [of xs B] be_val_bound [of ys B] Cons by simp_all
  have e: "x * B ^ length xs + be_val B xs = y * B ^ length xs + be_val B ys" using Cons by simp
  have dv: "(a * n + v) div n = a" if "v < n" for a n v :: nat using that by simp
  have "x = y" using dv [OF b(1), of x] dv [OF b(2), of y] e by simp
  with e Cons show ?case by simp
qed simp

text \<open>Leading zeros.\<close>

definition strip0 :: "'a::zero list \<Rightarrow> 'a list" where
  "strip0 = dropWhile (\<lambda>d. d = 0)"

definition lead0 :: "'a::zero list \<Rightarrow> nat" where
  "lead0 ds = length (takeWhile (\<lambda>d. d = 0) ds)"

lemma lead0_strip0: "ds = replicate (lead0 ds) 0 @ strip0 ds"
proof -
  have "takeWhile (\<lambda>d. d = 0) ds = replicate (lead0 ds) 0"
    unfolding lead0_def by (metis (mono_tags, lifting) replicate_eqI set_takeWhileD)
  then show ?thesis unfolding strip0_def by (metis takeWhile_dropWhile_id)
qed

lemma strip0_head: "strip0 ds = [] \<or> hd (strip0 ds) \<noteq> 0"
  unfolding strip0_def by (metis (mono_tags) hd_dropWhile)

lemma set_strip0: "set (strip0 ds) \<subseteq> set ds"
  unfolding strip0_def by (meson set_dropWhileD subsetI)

lemma lead0_le: "lead0 ds \<le> length ds"
  unfolding lead0_def by (rule length_takeWhile_le)

lemma length_strip0: "length (strip0 ds) = length ds - lead0 ds"
  using lead0_strip0 [of ds] by (metis add_diff_cancel_left' length_append length_replicate)

lemma strip0_drop: "strip0 ds = drop (lead0 ds) ds"
  unfolding strip0_def lead0_def by (rule dropWhile_eq_drop)

lemma lead0_append: "strip0 ds = ds \<Longrightarrow> lead0 (replicate n 0 @ ds) = n \<and> strip0 (replicate n 0 @ ds) = ds"
  by (induction n) (auto simp: lead0_def strip0_def dropWhile_eq_self_iff takeWhile_eq_Nil_iff)

lemma strip0_id: "ds = [] \<or> hd ds \<noteq> 0 \<Longrightarrow> strip0 ds = ds"
  by (auto simp: strip0_def dropWhile_eq_self_iff)

lemma be_val_strip0: "be_val B (strip0 ds) = be_val B ds"
  by (subst (2) lead0_strip0) (simp add: be_val_append)

lemma be_val_lower: "ds \<noteq> [] \<Longrightarrow> hd ds \<noteq> 0 \<Longrightarrow> B ^ (length ds - 1) \<le> be_val B ds"
  by (cases ds) (auto intro: order.trans [of _ "hd ds * B ^ (length ds - 1)"])

text \<open>Two numerals without leading zeros of the same value are the same.\<close>

lemma stripped_length_le:
  assumes "be_val B xs = be_val B ys" "\<forall>d \<in> set ys. d < B" "xs = [] \<or> hd xs \<noteq> 0" "1 < B"
  shows "length xs \<le> length ys"
proof (rule ccontr)
  assume "\<not> ?thesis"
  then have ne: "xs \<noteq> []" and le: "length ys \<le> length xs - 1" by auto
  have "be_val B ys < B ^ length ys" using assms(2) by (rule be_val_bound)
  also have "\<dots> \<le> B ^ (length xs - 1)" using le assms(4) by (simp add: power_increasing)
  also have "\<dots> \<le> be_val B xs" using be_val_lower [OF ne] assms(3) ne by simp
  finally show False using assms(1) by simp
qed

lemma stripped_unique:
  assumes "be_val B xs = be_val B ys" "\<forall>d \<in> set xs. d < B" "\<forall>d \<in> set ys. d < B" "1 < B"
    and "xs = [] \<or> hd xs \<noteq> 0" "ys = [] \<or> hd ys \<noteq> 0"
  shows "xs = ys"
proof (rule be_val_inject [where B = B])
  show "length xs = length ys"
    using stripped_length_le [of B xs ys] stripped_length_le [of B ys xs] assms by (intro antisym) simp_all
qed (use assms in auto)

text \<open>
  One step of a conversion, from the last digit of the buffer to the first:
  \<open>carry += buf[j] * m; buf[j] = carry % B; carry /= B\<close>.
\<close>

fun mul_add :: "nat \<Rightarrow> nat \<Rightarrow> nat list \<Rightarrow> nat \<Rightarrow> nat \<times> nat list" where
  "mul_add B m [] c = (c, [])"
| "mul_add B m (d # ds) c =
     (let (c, ds') = mul_add B m ds c in ((c + d * m) div B, (c + d * m) mod B # ds'))"

lemma mul_add_value:
  "mul_add B m ds c = (q, ds') \<Longrightarrow>
     be_val B ds * m + c = q * B ^ length ds + be_val B ds' \<and> length ds' = length ds"
proof (induction ds arbitrary: c q ds')
  case (Cons d ds)
  obtain q1 ds1 where r: "mul_add B m ds c = (q1, ds1)" by (cases "mul_add B m ds c")
  from Cons.IH [OF r] have IH: "be_val B ds * m + c = q1 * B ^ length ds + be_val B ds1" "length ds1 = length ds"
    by blast+
  have q: "q = (q1 + d * m) div B" "ds' = (q1 + d * m) mod B # ds1" using Cons.prems r by auto
  have "be_val B (d # ds) * m + c = (q1 + d * m) * B ^ length ds + be_val B ds1"
    using IH(1) by (simp add: algebra_simps)
  also have "\<dots> = (q * B + (q1 + d * m) mod B) * B ^ length ds + be_val B ds1"
    unfolding q(1) by simp
  also have "\<dots> = q * B ^ length (d # ds) + be_val B ds'"
    using IH(2) q(2) by (simp add: distrib_right mult.assoc)
  finally show ?case using IH(2) q by simp
qed simp

lemma mul_add_digits: "0 < B \<Longrightarrow> set (snd (mul_add B m ds c)) \<subseteq> {..<B}"
  by (induction ds) (auto split: prod.splits)

lemma length_mul_add [simp]: "length (snd (mul_add B m ds c)) = length ds"
  by (induction ds) (auto split: prod.splits)

text \<open>Converting a whole numeral: no digit is lost when the buffer is wide enough.\<close>

definition convert :: "nat \<Rightarrow> nat \<Rightarrow> nat \<Rightarrow> nat list \<Rightarrow> nat list" where
  "convert B m n ds = foldl (\<lambda>buf d. snd (mul_add B m buf d)) (replicate n 0) ds"

lemma convert_steps:
  assumes "1 < B" "\<forall>d \<in> set ds. d < m" "m ^ length ds \<le> B ^ n"
  shows "length (convert B m n ds) = n \<and> set (convert B m n ds) \<subseteq> {..<B} \<and> be_val B (convert B m n ds) = be_val m ds"
  using assms(2,3)
proof (induction ds rule: rev_induct)
  case Nil
  show ?case using assms(1) by (auto simp: convert_def)
next
  case (snoc d ds)
  let ?b = "convert B m n ds"
  have "0 < m" using snoc.prems(1) by auto
  then have "m ^ length ds \<le> m ^ length (ds @ [d])" by simp
  with snoc have IH: "length ?b = n" "set ?b \<subseteq> {..<B}" "be_val B ?b = be_val m ds" by auto
  obtain q b' where s: "mul_add B m ?b d = (q, b')" by (cases "mul_add B m ?b d")
  from mul_add_value [OF s] have v: "be_val B ?b * m + d = q * B ^ n + be_val B b'" "length b' = n"
    using IH(1) by simp_all
  have "be_val m (ds @ [d]) < m ^ length (ds @ [d])" by (rule be_val_bound) (rule snoc.prems(1))
  then have "q * B ^ n + be_val B b' < B ^ n" using v(1) IH(3) snoc.prems(2) by simp
  then have "q = 0" by (cases q) auto
  then have "be_val B b' = be_val m (ds @ [d])" using v(1) IH(3) by simp
  moreover have "set b' \<subseteq> {..<B}" using mul_add_digits [of B m ?b d] assms(1) s by simp
  moreover have "convert B m n (ds @ [d]) = b'" by (simp add: convert_def s [unfolded convert_def])
  ultimately show ?case using v(2) by simp
qed

text \<open>A width that is enough, from a comparison of fixed powers of the two bases.\<close>

lemma power_width:
  fixes m B :: nat
  assumes "m ^ p \<le> B ^ q" "q * t \<le> s * p" "0 < p" "0 < t" "1 < B"
  shows "m ^ n \<le> B ^ (n * s div t + 1)"
proof -
  define k where "k = n * s div t + 1"
  have "n * s \<le> t * k"
    unfolding k_def using assms(4)
    by (metis add.commute dividend_less_div_times less_imp_le mult.commute mult_Suc_right Suc_eq_plus1)
  then have "n * s * p \<le> t * k * p" by simp
  moreover have "n * (q * t) \<le> n * (s * p)" using assms(2) by simp
  moreover have "n * (q * t) = t * (n * q)" "n * (s * p) = n * s * p" "t * k * p = t * (k * p)" by (simp_all only: ac_simps)
  ultimately have "t * (n * q) \<le> t * (k * p)" by linarith
  then have "n * q \<le> k * p" using assms(4) by simp
  then have "B ^ (n * q) \<le> B ^ (k * p)" using assms(5) by (simp add: power_increasing)
  moreover have "(m ^ n) ^ p \<le> B ^ (n * q)"
    using power_mono [OF assms(1), of n] by (simp flip: power_mult add: mult.commute)
  ultimately have "(m ^ n) ^ p \<le> (B ^ k) ^ p" by (simp flip: power_mult)
  then show ?thesis using assms(3) unfolding k_def by (metis not_less power_strict_mono zero_le)
qed

end
