(* ===== verification/Base58.thy ===== *)
theory Base58
  imports Radix Digests
begin

text \<open>
  Base58 and Base58Check of BRBase58.c. A C string is the list of its characters without the
  terminating zero; a destination buffer is \<open>None\<close> for a null pointer and otherwise \<open>Some\<close>
  its length, and the result is the returned length with what is written to the buffer.

  The theorems: the buffers sized by the constants 138/100 and 733/1000 lose no digit, decoding inverts
  encoding and the other way round, and Base58Check accepts what it encoded and only that.
\<close>

section \<open>Base58\<close>

definition base58_chars :: "byte list" where
  "base58_chars = map (of_nat \<circ> of_char) ''123456789ABCDEFGHJKLMNPQRSTUVWXYZabcdefghijkmnopqrstuvwxyz''"

text \<open>The inner loop of \<open>BRBase58Encode\<close>, from the last byte of \<open>buf\<close> to the first.\<close>

fun enc_add :: "byte list \<Rightarrow> u32 \<Rightarrow> u32 \<times> byte list" where
  "enc_add [] carry = (carry, [])"
| "enc_add (b # bs) carry =
     (let (carry, bs') = enc_add bs carry; carry = carry + push_bit 8 (ucast b)
      in (carry div 58, ucast (carry mod 58) # bs'))"

definition BRBase58Encode :: "nat option \<Rightarrow> byte list \<Rightarrow> nat \<times> byte list" where
  "BRBase58Encode str data =
     (let zcount = lead0 data;
          buf = foldl (\<lambda>buf d. snd (enc_add buf (ucast d)))
                  (replicate ((length data - zcount) * 138 div 100 + 1) 0) (drop zcount data);
          i = lead0 buf;
          len = (zcount + length buf - i) + 1
      in case str of
           None \<Rightarrow> (len, [])
         | Some strLen \<Rightarrow>
             if len \<le> strLen
             then (len, replicate zcount (base58_chars ! 0) @ map (\<lambda>b. base58_chars ! unat b) (drop i buf) @ [0])
             else (0, []))"

definition base58_digit :: "byte \<Rightarrow> u32" where
  "base58_digit c =
     (let carry = ucast c :: u32
      in if 49 \<le> carry \<and> carry \<le> 57 then carry - 49
         else if 65 \<le> carry \<and> carry \<le> 72 then carry + (9 - 65)
         else if 74 \<le> carry \<and> carry \<le> 78 then carry + (17 - 74)
         else if 80 \<le> carry \<and> carry \<le> 90 then carry + (22 - 80)
         else if 97 \<le> carry \<and> carry \<le> 107 then carry + (33 - 97)
         else if 109 \<le> carry \<and> carry \<le> 122 then carry + (44 - 109)
         else 0xffffffff)"

fun dec_add :: "byte list \<Rightarrow> u32 \<Rightarrow> u32 \<times> byte list" where
  "dec_add [] carry = (carry, [])"
| "dec_add (b # bs) carry =
     (let (carry, bs') = dec_add bs carry; carry = carry + ucast b * 58
      in (drop_bit 8 carry, ucast (carry AND 0xff) # bs'))"

text \<open>The loop over the characters, left at the first invalid one.\<close>

fun dec_loop :: "byte list \<Rightarrow> byte list \<Rightarrow> byte list" where
  "dec_loop buf [] = buf"
| "dec_loop buf (c # cs) =
     (let carry = base58_digit c in if carry \<ge> 58 then buf else dec_loop (snd (dec_add buf carry)) cs)"

definition BRBase58Decode :: "nat option \<Rightarrow> byte list \<Rightarrow> nat \<times> byte list" where
  "BRBase58Decode dst str =
     (let zcount = length (takeWhile (\<lambda>c. c = 49) str);
          s = drop zcount str;
          buf = dec_loop (replicate (length s * 733 div 1000 + 1) 0) s;
          i = lead0 buf;
          len = zcount + length buf - i
      in case dst of
           None \<Rightarrow> (len, [])
         | Some dataLen \<Rightarrow> if len \<le> dataLen then (len, replicate zcount 0 @ drop i buf) else (0, []))"

section \<open>Base58Check\<close>

definition BRBase58CheckEncode :: "nat option \<Rightarrow> byte list \<Rightarrow> nat \<times> byte list" where
  "BRBase58CheckEncode str data = BRBase58Encode str (data @ take 4 (BRSHA256_2 data))"

text \<open>
  The scratch buffer of \<open>BRBase58CheckDecode\<close> has the length of the string, so the inner decode
  always fits. The bytes are copied to \<open>data\<close> before the final length test.
\<close>

definition BRBase58CheckDecode :: "nat option \<Rightarrow> byte list \<Rightarrow> nat \<times> byte list" where
  "BRBase58CheckDecode dst str =
     (let (len, buf) = BRBase58Decode (Some (length str)) str;
          (len, copied) =
            (if len \<ge> 4
             then let len = len - 4;
                      len = (if take 4 (drop len buf) \<noteq> take 4 (BRSHA256_2 (take len buf)) then 0 else len)
                  in (len, take len buf)
             else (0, []))
      in case dst of None \<Rightarrow> (len, []) | Some dataLen \<Rightarrow> if len \<le> dataLen then (len, copied) else (0, []))"

section \<open>The conversion loops are the radix conversion\<close>

abbreviation digits :: "byte list \<Rightarrow> nat list" where
  "digits \<equiv> map unat"

lemma of_nat_unat_self: "(of_nat (unat w) :: 'a::len word) = w"
  by simp

lemma unat_ucast_byte32: "unat (ucast (b :: byte) :: u32) = unat b"
  by (simp add: unsigned_ucast_eq take_bit_nat_eq_self_iff order.strict_trans [OF unat_byte_less])

lemma unat_ucast_u32_byte: "unat (ucast (w :: u32) :: byte) = unat w mod 256"
  by (simp add: unsigned_ucast_eq take_bit_eq_mod)

lemma enc_add_refines:
  assumes "\<forall>b \<in> set bs. unat b < 58" "unat c < 256"
  shows "unat (fst (enc_add bs c)) = fst (mul_add 58 256 (digits bs) (unat c)) \<and>
    digits (snd (enc_add bs c)) = snd (mul_add 58 256 (digits bs) (unat c)) \<and> unat (fst (enc_add bs c)) < 256"
  using assms(1)
proof (induction bs)
  case Nil
  show ?case using assms(2) by simp
next
  case (Cons b bs)
  obtain k cs where e: "enc_add bs c = (k, cs)" by (cases "enc_add bs c")
  obtain q ds where m: "mul_add 58 256 (digits bs) (unat c) = (q, ds)" by (cases "mul_add 58 256 (digits bs) (unat c)")
  have IH: "unat k = q" "digits cs = ds" "q < 256" using Cons e m by auto
  have pb: "unat (push_bit 8 (ucast b :: u32)) = unat b * 256"
    using Cons.prems by (simp add: push_bit_eq_mult unat_word_ariths unat_ucast_byte32)
  have s: "unat (k + push_bit 8 (ucast b)) = q + unat b * 256"
    using Cons.prems IH by (subst unat_add_lem [THEN iffD1]) (auto simp: pb)
  have "q + unat b * 256 < 256 * 58" using IH(3) Cons.prems by simp
  then have "unat (k + push_bit 8 (ucast b)) div 58 < 256" using s by (simp add: less_mult_imp_div_less)
  then show ?case
    using IH s by (simp add: e m Let_def unat_div unat_ucast_u32_byte unat_mod)
qed

lemma dec_add_refines:
  assumes "unat c < 58"
  shows "unat (fst (dec_add bs c)) = fst (mul_add 256 58 (digits bs) (unat c)) \<and>
    digits (snd (dec_add bs c)) = snd (mul_add 256 58 (digits bs) (unat c)) \<and> unat (fst (dec_add bs c)) < 58"
proof (induction bs)
  case Nil
  show ?case using assms by simp
next
  case (Cons b bs)
  obtain k cs where e: "dec_add bs c = (k, cs)" by (cases "dec_add bs c")
  obtain q ds where m: "mul_add 256 58 (digits bs) (unat c) = (q, ds)" by (cases "mul_add 256 58 (digits bs) (unat c)")
  have IH: "unat k = q" "digits cs = ds" "q < 58" using Cons e m by auto
  have b: "unat b * 58 \<le> 255 * 58" using unat_byte_less [of b] by linarith
  then have "unat b * 58 < 4294967296" by linarith
  then have pb: "unat ((ucast b :: u32) * 58) = unat b * 58" by (simp add: unat_word_ariths unat_ucast_byte32)
  have s: "unat (k + ucast b * 58) = q + unat b * 58"
    using b IH pb by (simp add: unat_word_ariths)
  have "unat (drop_bit 8 (k + ucast b * 58)) = (q + unat b * 58) div 256"
    using s by (simp add: drop_bit_eq_div unat_div)
  moreover have "(q + unat b * 58) div 256 < 58" using b IH by simp
  moreover have "unat (ucast (k + ucast b * 58 AND 0xff) :: byte) = (q + unat b * 58) mod 256"
    using s unfolding mask_byte_ucast by (simp add: unat_ucast_u32_byte)
  ultimately show ?case
    using IH by (simp add: e m Let_def)
qed

lemma encode_digits:
  assumes "\<forall>b \<in> set buf. unat b < 58"
  shows "digits (foldl (\<lambda>buf d. snd (enc_add buf (ucast d))) buf ds) =
      foldl (\<lambda>buf d. snd (mul_add 58 256 buf d)) (digits buf) (digits ds)"
  using assms
proof (induction ds arbitrary: buf)
  case (Cons d ds)
  have u: "unat (ucast d :: u32) = unat d" by (rule unat_ucast_byte32)
  have r: "digits (snd (enc_add buf (ucast d))) = snd (mul_add 58 256 (digits buf) (unat d))"
    using enc_add_refines [OF Cons.prems, of "ucast d"] by (simp add: u)
  have "\<forall>b \<in> set (snd (enc_add buf (ucast d))). unat b < 58"
  proof
    fix b assume "b \<in> set (snd (enc_add buf (ucast d)))"
    then have "unat b \<in> set (digits (snd (enc_add buf (ucast d))))" by simp
    then show "unat b < 58" using mul_add_digits [of 58 256 "digits buf" "unat d"] unfolding r by auto
  qed
  with Cons.IH r show ?case by simp
qed simp

lemma decode_digits:
  assumes "\<forall>c \<in> set cs. base58_digit c < 58"
  shows "digits (dec_loop buf cs) =
      foldl (\<lambda>buf d. snd (mul_add 256 58 buf d)) (digits buf) (map (\<lambda>c. unat (base58_digit c)) cs)"
  using assms
proof (induction cs arbitrary: buf)
  case (Cons c cs)
  have lt: "base58_digit c < 58" using Cons.prems by simp
  then have "unat (base58_digit c) < 58" by (simp add: word_less_nat_alt)
  then have "digits (snd (dec_add buf (base58_digit c))) =
      snd (mul_add 256 58 (digits buf) (unat (base58_digit c)))"
    using dec_add_refines by blast
  moreover have "\<not> 58 \<le> base58_digit c" using lt by (simp add: not_le)
  ultimately show ?case using Cons by (simp add: Let_def)
qed simp

text \<open>The constants 138/100 and 733/1000 make both buffers wide enough.\<close>

lemma widths:
  "(256 :: nat) ^ n \<le> 58 ^ (n * 138 div 100 + 1)" "(58 :: nat) ^ n \<le> 256 ^ (n * 733 div 1000 + 1)"
proof -
  have "(256 :: nat) ^ 100 \<le> 58 ^ 138" by simp
  then show "(256 :: nat) ^ n \<le> 58 ^ (n * 138 div 100 + 1)" by (rule power_width) simp_all
  have "(58 :: nat) ^ 71 \<le> 256 ^ 52" by simp
  then show "(58 :: nat) ^ n \<le> 256 ^ (n * 733 div 1000 + 1)" by (rule power_width) simp_all
qed

text \<open>The alphabet.\<close>

lemma base58_chars_list: "base58_chars =
  [49, 50, 51, 52, 53, 54, 55, 56, 57, 65, 66, 67, 68, 69, 70, 71, 72, 74, 75, 76, 77, 78, 80, 81, 82,
   83, 84, 85, 86, 87, 88, 89, 90, 97, 98, 99, 100, 101, 102, 103, 104, 105, 106, 107, 109, 110, 111,
   112, 113, 114, 115, 116, 117, 118, 119, 120, 121, 122]"
  by (simp add: base58_chars_def)

lemma base58_alphabet: "map base58_digit base58_chars = map of_nat [0..<58]"
  by (simp add: base58_chars_list base58_digit_def upt_rec)

lemma base58_char_set:
  assumes "base58_digit c < 58"
  shows "c \<in> set base58_chars"
proof -
  have "unat c \<in> set ([49..<58] @ [65..<73] @ [74..<79] @ [80..<91] @ [97..<108] @ [109..<123])"
    unfolding set_append set_upt Un_iff atLeastLessThan_iff
    using assms by (auto simp: base58_digit_def Let_def word_le_nat_alt unat_ucast_byte32 split: if_splits)
  moreover have "\<forall>k \<in> set ([49..<58] @ [65..<73] @ [74..<79] @ [80..<91] @ [97..<108] @ [109..<123]). of_nat k \<in> set base58_chars"
    by (simp add: base58_chars_list upt_rec)
  ultimately show ?thesis by (metis of_nat_unat_self)
qed
lemma length_base58_chars: "length base58_chars = 58"
  by (simp add: base58_chars_list)

lemma base58_char_digit: "i < 58 \<Longrightarrow> base58_digit (base58_chars ! i) = of_nat i"
  using arg_cong [OF base58_alphabet, of "\<lambda>l. l ! i"] by (simp add: length_base58_chars)

lemma base58_chars_one: "i < 58 \<Longrightarrow> base58_chars ! i = 49 \<longleftrightarrow> i = 0"
  using base58_char_digit [of i] base58_char_digit [of 0]
  by (auto simp: base58_chars_list unat_of_nat dest: arg_cong [where f = unat])

lemma base58_chars_nonzero: "0 \<notin> set base58_chars"
  by (simp add: base58_chars_list)

lemma base58_digit_char:
  assumes "base58_digit c < 58"
  shows "base58_chars ! unat (base58_digit c) = c"
proof -
  obtain i where "i < 58" "c = base58_chars ! i"
    using base58_char_set [OF assms] by (metis in_set_conv_nth length_base58_chars)
  then show ?thesis by (simp add: base58_char_digit unat_of_nat)
qed

section \<open>Encoding and decoding are inverse\<close>

lemma digits_strip0: "digits (strip0 bs) = strip0 (digits bs)"
  by (induction bs) (simp_all add: strip0_def unat_eq_0)

lemma digits_inject: "digits xs = digits ys \<longleftrightarrow> xs = ys"
  by (simp add: inj_map_eq_map)

lemma digits_hd: "bs = [] \<or> hd bs \<noteq> 0 \<Longrightarrow> digits bs = [] \<or> hd (digits bs) \<noteq> 0"
  by (cases bs) (auto simp: unat_eq_0)

lemma digits_less: "\<forall>d \<in> set (digits bs). d < 256"
  by auto

text \<open>The significant base 58 digits of the data, and the significant bytes of a digit list.\<close>

definition to58 :: "byte list \<Rightarrow> byte list" where
  "to58 ds = strip0 (foldl (\<lambda>buf d. snd (enc_add buf (ucast d))) (replicate (length ds * 138 div 100 + 1) 0) ds)"

definition from58 :: "byte list \<Rightarrow> byte list" where
  "from58 cs = strip0 (dec_loop (replicate (length cs * 733 div 1000 + 1) 0) cs)"

lemma to58_value:
  "be_val 58 (digits (to58 ds)) = be_val 256 (digits ds)" "\<forall>d \<in> set (digits (to58 ds)). d < 58"
  "to58 ds = [] \<or> hd (to58 ds) \<noteq> 0"
proof -
  let ?n = "length ds * 138 div 100 + 1"
  let ?b = "foldl (\<lambda>buf d. snd (enc_add buf (ucast d))) (replicate ?n 0) ds"
  have b: "digits ?b = convert 58 256 ?n (digits ds)"
    by (subst encode_digits) (simp_all add: convert_def)
  have c: "set (convert 58 256 ?n (digits ds)) \<subseteq> {..<58} \<and> be_val 58 (convert 58 256 ?n (digits ds)) = be_val 256 (digits ds)"
    using convert_steps [of 58 "digits ds" 256 ?n] widths(1) [of "length ds"] digits_less by simp
  show "be_val 58 (digits (to58 ds)) = be_val 256 (digits ds)"
    unfolding to58_def digits_strip0 be_val_strip0 b using c by blast
  show "\<forall>d \<in> set (digits (to58 ds)). d < 58"
    unfolding to58_def digits_strip0 b using c set_strip0 by blast
  show "to58 ds = [] \<or> hd (to58 ds) \<noteq> 0" unfolding to58_def by (rule strip0_head)
qed

lemma from58_value:
  assumes "\<forall>c \<in> set cs. base58_digit c < 58"
  shows "be_val 256 (digits (from58 cs)) = be_val 58 (map (\<lambda>c. unat (base58_digit c)) cs)"
    "from58 cs = [] \<or> hd (from58 cs) \<noteq> 0"
proof -
  let ?n = "length cs * 733 div 1000 + 1" and ?d = "map (\<lambda>c. unat (base58_digit c)) cs"
  have b: "digits (dec_loop (replicate ?n 0) cs) = convert 256 58 ?n ?d"
    using decode_digits [OF assms] by (simp add: convert_def)
  have "\<forall>d \<in> set ?d. d < 58" using assms by (auto simp: word_less_nat_alt)
  then have c: "be_val 256 (convert 256 58 ?n ?d) = be_val 58 ?d"
    using convert_steps [of 256 ?d 58 ?n] widths(2) [of "length cs"] by simp
  show "be_val 256 (digits (from58 cs)) = be_val 58 ?d"
    unfolding from58_def digits_strip0 be_val_strip0 b using c by blast
  show "from58 cs = [] \<or> hd (from58 cs) \<noteq> 0" unfolding from58_def by (rule strip0_head)
qed

definition base58_string :: "byte list \<Rightarrow> byte list" where
  "base58_string d = replicate (lead0 d) 49 @ map (\<lambda>b. base58_chars ! unat b) (to58 (strip0 d))"

lemma encode_form:
  "BRBase58Encode str d =
     (let s = base58_string d
      in case str of None \<Rightarrow> (length s + 1, [])
         | Some n \<Rightarrow> if length s + 1 \<le> n then (length s + 1, s @ [0]) else (0, []))"
proof -
  let ?b = "foldl (\<lambda>buf d. snd (enc_add buf (ucast d)))
      (replicate (length (strip0 d) * 138 div 100 + 1) 0) (strip0 d)"
  have "length (to58 (strip0 d)) = length ?b - lead0 ?b" by (simp only: to58_def length_strip0)
  then have l: "lead0 d + length ?b - lead0 ?b = length (base58_string d)"
    using lead0_le [of ?b] by (simp add: base58_string_def)
  have c: "base58_chars ! 0 = 49" by (simp add: base58_chars_list)
  show ?thesis
    unfolding BRBase58Encode_def Let_def strip0_drop [symmetric] length_strip0 [symmetric] l
    by (auto simp: base58_string_def to58_def c split: option.splits)
qed

lemma decode_form:
  assumes "cs = [] \<or> hd cs \<noteq> 49"
  shows "BRBase58Decode dst (replicate z 49 @ cs) =
     (let d = replicate z 0 @ from58 cs
      in case dst of None \<Rightarrow> (length d, []) | Some n \<Rightarrow> if length d \<le> n then (length d, d) else (0, []))"
proof -
  have tw: "length (takeWhile (\<lambda>c. c = 49) (replicate z 49 @ cs)) = z"
    using assms by (induction z) (auto simp: takeWhile_eq_Nil_iff)
  have dr: "drop z (replicate z 49 @ cs) = cs" by simp
  let ?b = "dec_loop (replicate (length cs * 733 div 1000 + 1) 0) cs"
  have "length (from58 cs) = length ?b - lead0 ?b" by (simp only: from58_def length_strip0)
  then have l: "z + length ?b - lead0 ?b = length (replicate z 0 @ from58 cs)"
    using lead0_le [of ?b] by simp
  show ?thesis
    unfolding BRBase58Decode_def tw Let_def dr l strip0_drop [symmetric] from58_def [symmetric] ..
qed

text \<open>The characters of an encoding: digits of the alphabet, with no leading one.\<close>

lemma base58_string_chars:
  "\<forall>c \<in> set (base58_string d). base58_digit c < 58" "0 \<notin> set (base58_string d)"
proof -
  have in_chars: "set (base58_string d) \<subseteq> set base58_chars"
    using to58_value(2) [of "strip0 d"]
    by (auto simp: base58_string_def base58_chars_list [symmetric] length_base58_chars intro!: nth_mem)
      (simp add: base58_chars_list)
  have "base58_digit c < 58" if "c \<in> set base58_chars" for c
  proof -
    obtain i where "i < 58" "c = base58_chars ! i" using \<open>c \<in> set base58_chars\<close> by (metis in_set_conv_nth length_base58_chars)
    then show ?thesis by (simp add: base58_char_digit word_less_nat_alt unat_of_nat)
  qed
  with in_chars show "\<forall>c \<in> set (base58_string d). base58_digit c < 58" by blast
  show "0 \<notin> set (base58_string d)" using in_chars base58_chars_nonzero by blast
qed

lemma from58_to58:
  assumes "ds = [] \<or> hd ds \<noteq> 0"
  shows "from58 (map (\<lambda>b. base58_chars ! unat b) (to58 ds)) = ds"
proof -
  let ?e = "to58 ds" and ?cs = "map (\<lambda>b. base58_chars ! unat b) (to58 ds)"
  have dig: "base58_digit (base58_chars ! unat b) = of_nat (unat b) \<and> unat b < 58" if "b \<in> set ?e" for b
    using to58_value(2) [of ds] that by (simp add: base58_char_digit)
  have un: "map (\<lambda>c. unat (base58_digit c)) ?cs = digits ?e"
  proof -
    have "unat (base58_digit (base58_chars ! unat b)) = unat b" if "b \<in> set ?e" for b
      using dig [OF that] by (simp only: unat_of_nat) simp
    then show ?thesis by simp
  qed
  have "\<forall>c \<in> set ?cs. base58_digit c < 58"
  proof
    fix c assume "c \<in> set ?cs"
    then obtain b where b: "b \<in> set ?e" "c = base58_chars ! unat b" by auto
    with dig [OF b(1)] show "base58_digit c < 58"
      by (simp add: word_less_nat_alt unat_ucast_byte32)
  qed
  note v = from58_value [OF this, unfolded un to58_value(1)]
  have "digits (from58 ?cs) = digits ds"
    by (rule stripped_unique [OF v(1) digits_less digits_less _ digits_hd [OF v(2)] digits_hd [OF assms]]) simp
  then show ?thesis by (simp only: digits_inject)
qed

lemma to58_hd_char:
  "map (\<lambda>b. base58_chars ! unat b) (to58 ds) = [] \<or> hd (map (\<lambda>b. base58_chars ! unat b) (to58 ds)) \<noteq> 49"
  using to58_value(2,3) [of ds] by (cases "to58 ds") (auto simp: base58_chars_one unat_eq_0)

lemma decode_base58_string:
  "BRBase58Decode dst (base58_string d) =
     (case dst of None \<Rightarrow> (length d, []) | Some n \<Rightarrow> if length d \<le> n then (length d, d) else (0, []))"
proof -
  have d: "replicate (lead0 d) 0 @ strip0 d = d" using lead0_strip0 [of d] by simp
  show ?thesis
    unfolding base58_string_def decode_form [OF to58_hd_char] from58_to58 [OF strip0_head] d Let_def ..
qed

text \<open>
  The length query gives the exact size of the encoding; the encoding fills it with alphabet characters
  and a terminator; and decoding it into a buffer of the data's length gives the
  data back, for all data. The buffers of the conversion loops are never too small.
\<close>

theorem Base58_decode_encode:
  "let n = fst (BRBase58Encode None d); (len, out) = BRBase58Encode (Some n) d; s = butlast out
   in len = n \<and> length out = n \<and> last out = 0 \<and> 0 \<notin> set s \<and> BRBase58Decode (Some (length d)) s = (length d, d)"
  by (simp add: encode_form Let_def decode_base58_string base58_string_chars(2))

text \<open>
  Decoding a string of alphabet characters and encoding the result gives the string back, so a
  byte string has one encoding only.
\<close>

theorem Base58_encode_decode:
  assumes "\<forall>c \<in> set s. base58_digit c < 58"
  shows "let n = fst (BRBase58Decode None s); (len, d) = BRBase58Decode (Some n) s
         in len = n \<and> length d = n \<and> BRBase58Encode (Some (length s + 1)) d = (length s + 1, s @ [0])"
proof -
  let ?z = "length (takeWhile (\<lambda>c. c = 49) s)" and ?cs = "dropWhile (\<lambda>c. c = 49) s"
  have "takeWhile (\<lambda>c. c = 49) s = replicate ?z 49"
    by (metis (mono_tags, lifting) replicate_eqI set_takeWhileD)
  then have s: "s = replicate ?z 49 @ ?cs" by (metis takeWhile_dropWhile_id)
  have hd: "?cs = [] \<or> hd ?cs \<noteq> 49" by (metis (mono_tags) hd_dropWhile)
  have dig: "\<forall>c \<in> set ?cs. base58_digit c < 58" using assms set_dropWhileD by metis
  let ?f = "from58 ?cs" and ?d = "map (\<lambda>c. unat (base58_digit c)) ?cs"
  have f0: "strip0 ?f = ?f" by (rule strip0_id) (rule from58_value(2) [OF dig])
  have ch: "base58_chars ! unat (base58_digit c) = c" if "c \<in> set ?cs" for c
    using dig that base58_digit_char by blast
  have "digits (to58 ?f) = ?d"
  proof (rule stripped_unique [where B = 58])
    show "be_val 58 (digits (to58 ?f)) = be_val 58 ?d"
      using to58_value(1) [of ?f] from58_value(1) [OF dig] by simp
    show "\<forall>d \<in> set (digits (to58 ?f)). d < 58" by (rule to58_value(2))
    show "\<forall>d \<in> set ?d. d < 58" using dig by (auto simp: word_less_nat_alt)
    show "digits (to58 ?f) = [] \<or> hd (digits (to58 ?f)) \<noteq> 0"
      using to58_value(3) [of ?f] by (cases "to58 ?f") (auto simp: unat_eq_0)
    have "unat (base58_digit (hd ?cs)) \<noteq> 0" if "?cs \<noteq> []"
    proof
      assume "unat (base58_digit (hd ?cs)) = 0"
      moreover have "base58_chars ! unat (base58_digit (hd ?cs)) = hd ?cs" using that by (intro ch) simp
      ultimately have "hd ?cs = 49" using base58_chars_one [of 0] by simp
      with hd that show False by simp
    qed
    then show "?d = [] \<or> hd ?d \<noteq> 0" by (cases "?cs = []") (auto simp: hd_map)
  qed simp
  from arg_cong [OF this, of "map (\<lambda>i. base58_chars ! i)"]
  have "map (\<lambda>b. base58_chars ! unat b) (to58 ?f) = map (\<lambda>c. base58_chars ! unat (base58_digit c)) ?cs"
    by (simp only: map_map comp_def)
  also have "\<dots> = ?cs" using ch by (simp add: map_idI)
  finally have e: "map (\<lambda>b. base58_chars ! unat b) (to58 ?f) = ?cs" .
  have "base58_string (replicate ?z 0 @ ?f) = s"
    using lead0_append [OF f0, of ?z] e s by (simp add: base58_string_def)
  then show ?thesis
    using decode_form [OF hd, of _ ?z] unfolding s [symmetric] by (simp add: encode_form Let_def)
qed

lemma Base58_encode_decode_witness:
  "let s = [0x32, 0x7a] in BRBase58Encode (Some (length s + 1)) (snd (BRBase58Decode (Some (fst (BRBase58Decode None s))) s)) =
     (length s + 1, s @ [0])"
proof -
  have "\<forall>c \<in> set [0x32, 0x7a]. base58_digit c < 58" by (simp add: base58_digit_def)
  from Base58_encode_decode [OF this] show ?thesis by (simp only: Let_def case_prod_beta)
qed

text \<open>An encoding is at least as long as the data, so the scratch buffer of \<open>BRBase58CheckDecode\<close> holds it.\<close>

lemma base58_string_longer: "length c \<le> length (base58_string c)"
proof -
  have "lead0 c + length (strip0 c) = length c" using length_strip0 [of c] lead0_le [of c] by simp
  moreover have "length (strip0 c) \<le> length (to58 (strip0 c))"
  proof -
    have v: "be_val 256 (digits (strip0 c)) = be_val 58 (digits (to58 (strip0 c)))" using to58_value(1) by simp
    have "be_val 58 (digits (to58 (strip0 c))) < 58 ^ length (to58 (strip0 c))"
      using be_val_bound [OF to58_value(2)] by simp
    moreover have "(58 :: nat) ^ n \<le> 256 ^ n" for n by (rule power_mono) simp_all
    ultimately have lt: "be_val 256 (digits (strip0 c)) < 256 ^ length (to58 (strip0 c))"
      unfolding v by (meson order.strict_trans2)
    show ?thesis
    proof (rule ccontr)
      assume a: "\<not> ?thesis"
      then have ne: "strip0 c \<noteq> []" by auto
      have "256 ^ (length (strip0 c) - 1) \<le> be_val 256 (digits (strip0 c))"
        using be_val_lower [of "digits (strip0 c)" 256] ne strip0_head [of c] by (simp add: hd_map unat_eq_0)
      with lt have "(256 :: nat) ^ (length (strip0 c) - 1) < 256 ^ length (to58 (strip0 c))" by linarith
      then have "length (strip0 c) - 1 < length (to58 (strip0 c))" by (rule power_less_imp_less_exp [rotated]) simp
      with a show False by simp
    qed
  qed
  ultimately show ?thesis by (simp add: base58_string_def)
qed

definition check_string :: "byte list \<Rightarrow> byte list" where
  "check_string d = base58_string (d @ take 4 (BRSHA256_2 d))"

lemma check_encode_form:
  "BRBase58CheckEncode str d =
     (case str of None \<Rightarrow> (length (check_string d) + 1, [])
      | Some n \<Rightarrow> if length (check_string d) + 1 \<le> n then (length (check_string d) + 1, check_string d @ [0]) else (0, []))"
  unfolding BRBase58CheckEncode_def encode_form check_string_def Let_def ..

text \<open>Whatever string decodes to the data and its checksum is accepted.\<close>

lemma check_decode_accepts:
  assumes "BRBase58Decode (Some (length s)) s = (length c, c)" "c = d @ take 4 (BRSHA256_2 d)"
  shows "BRBase58CheckDecode dst s =
     (case dst of None \<Rightarrow> (length d, []) | Some n \<Rightarrow> if length d \<le> n then (length d, d) else (0, []))"
  using assms(1) unfolding assms(2) by (simp add: BRBase58CheckDecode_def)

lemma check_decode_string:
  "BRBase58CheckDecode dst (check_string d) =
     (case dst of None \<Rightarrow> (length d, []) | Some n \<Rightarrow> if length d \<le> n then (length d, d) else (0, []))"
proof (rule check_decode_accepts [OF _ refl])
  show "BRBase58Decode (Some (length (check_string d))) (check_string d) =
      (length (d @ take 4 (BRSHA256_2 d)), d @ take 4 (BRSHA256_2 d))"
    using base58_string_longer [of "d @ take 4 (BRSHA256_2 d)"]
    by (simp only: check_string_def decode_base58_string option.case if_True)
qed

section \<open>A character outside of the alphabet ends the decoding\<close>

lemma from58_width:
  assumes "\<forall>c \<in> set cs. base58_digit c < 58" "length cs * 733 div 1000 + 1 \<le> n"
  shows "strip0 (dec_loop (replicate n 0) cs) = from58 cs"
proof -
  let ?d = "map (\<lambda>c. unat (base58_digit c)) cs"
  have b: "digits (dec_loop (replicate n 0) cs) = convert 256 58 n ?d"
    using decode_digits [OF assms(1)] by (simp add: convert_def)
  have "(58 :: nat) ^ length ?d \<le> 256 ^ n"
    using widths(2) [of "length cs"] power_increasing [OF assms(2), of "256 :: nat"] by simp
  moreover have "\<forall>d \<in> set ?d. d < 58" using assms(1) by (auto simp: word_less_nat_alt)
  ultimately have "be_val 256 (convert 256 58 n ?d) = be_val 58 ?d" by (intro convert_steps [THEN conjunct2, THEN conjunct2]) simp_all
  then have v: "be_val 256 (digits (strip0 (dec_loop (replicate n 0) cs))) = be_val 256 (digits (from58 cs))"
    unfolding digits_strip0 be_val_strip0 b from58_value(1) [OF assms(1)] .
  have "digits (strip0 (dec_loop (replicate n 0) cs)) = digits (from58 cs)"
    by (rule stripped_unique [OF v digits_less digits_less _ digits_hd [OF strip0_head] digits_hd [OF from58_value(2) [OF assms(1)]]]) simp
  then show ?thesis by (simp only: digits_inject)
qed

lemma dec_loop_stops:
  assumes "\<forall>c \<in> set cs. base58_digit c < 58" "58 \<le> base58_digit c"
  shows "dec_loop buf (cs @ c # junk) = dec_loop buf cs"
  using assms
proof (induction cs arbitrary: buf)
  case (Cons a cs)
  then show ?case by (cases "58 \<le> base58_digit a") (simp_all add: Let_def)
qed (simp add: Let_def)

lemma decode_stops:
  assumes "\<forall>c \<in> set s. base58_digit c < 58" "58 \<le> base58_digit c"
  shows "BRBase58Decode dst (s @ c # junk) = BRBase58Decode dst s"
proof -
  let ?z = "length (takeWhile (\<lambda>c. c = 49) s)" and ?cs = "dropWhile (\<lambda>c. c = 49) s"
  have c: "c \<noteq> 49" using assms(2) by (auto simp: base58_digit_def)
  have z: "length (takeWhile (\<lambda>c. c = 49) (s @ c # junk)) = ?z"
    using c by (metis (mono_tags, lifting) takeWhile_append takeWhile.simps(2) self_append_conv takeWhile_eq_all_conv)
  have d: "drop ?z (s @ c # junk) = ?cs @ c # junk" "drop ?z s = ?cs"
    using length_takeWhile_le [of "\<lambda>c. c = 49" s] by (simp_all add: dropWhile_eq_drop)
  have dig: "\<forall>c \<in> set ?cs. base58_digit c < 58" using assms(1) set_dropWhileD by metis
  let ?n = "length (?cs @ c # junk) * 733 div 1000 + 1"
  have w: "length ?cs * 733 div 1000 + 1 \<le> ?n" by (simp add: div_le_mono)
  have b: "drop (lead0 b) b = strip0 b" "length b - lead0 b = length (strip0 b)"
    "k + length b - lead0 b = k + length (strip0 b)" for b :: "byte list" and k
    using lead0_le [of b] by (simp_all add: strip0_drop length_strip0)
  have e: "strip0 (dec_loop (replicate ?n 0) (?cs @ c # junk)) = strip0 (dec_loop (replicate (length ?cs * 733 div 1000 + 1) 0) ?cs)"
    unfolding dec_loop_stops [OF dig assms(2)] from58_width [OF dig w] from58_width [OF dig order.refl] ..
  show ?thesis
    unfolding BRBase58Decode_def Let_def z d b e ..
qed

text \<open>
  Base58Check: the length query gives the exact size, and decoding what was encoded, which verifies
  the four checksum bytes against the double SHA-256 of the payload, returns the data.
\<close>

theorem Base58Check_roundtrip:
  "let n = fst (BRBase58CheckEncode None d); (len, out) = BRBase58CheckEncode (Some n) d
   in len = n \<and> length out = n \<and> BRBase58CheckDecode (Some (length d)) (butlast out) = (length d, d)"
  by (simp add: check_encode_form check_decode_string Let_def)

end
