(* ===== verification/Quintets.thy ===== *)
theory Quintets
  imports IntBytes
begin

text \<open>
  What Bech32 (BRBech32.c) and the CashAddr format (bcash/BRBCashAddr.c) share: the 32 character
  alphabet, the regrouping of 8 bit bytes into 5 bit digits and back, and the
  checksum argument, stated as a locale over a polynomial step of \<open>n\<close> digits.

  The decoders write into a fixed buffer with \<open>buf[k] |= ...\<close>; a write outside of it makes the
  model return \<open>None\<close>.
\<close>

section \<open>Characters\<close>

definition islower_c :: "byte \<Rightarrow> bool" where "islower_c c \<longleftrightarrow> 97 \<le> c \<and> c \<le> 122"

definition isupper_c :: "byte \<Rightarrow> bool" where "isupper_c c \<longleftrightarrow> 65 \<le> c \<and> c \<le> 90"

definition tolower_c :: "byte \<Rightarrow> byte" where "tolower_c c = (if isupper_c c then c + 32 else c)"

definition quintet_chars :: "byte list" where
  "quintet_chars = map (of_nat \<circ> of_char) ''qpzry9x8gf2tvdw0s3jn54khce6mua7l''"

text \<open>The \<open>switch\<close> of the decoders is the position of the character in the alphabet.\<close>

definition quintet_of :: "byte \<Rightarrow> byte option" where
  "quintet_of c = map_of (zip quintet_chars (map of_nat [0..<32])) c"

section \<open>Regrouping\<close>

text \<open>
  The encoders' loop \<open>for (j = 0; j <= len; j++)\<close>: in iteration \<open>j\<close>, \<open>a\<close> is the previous byte and \<open>b\<close>
  the current one, 0 behind the last; one or two digits are put out.
\<close>

definition enc_x :: "nat \<Rightarrow> nat" where
  "enc_x j = (j mod 5) * 8 - ((j mod 5) * 8 div 5) * 5"

definition low5 :: "byte \<Rightarrow> byte" where
  "low5 c = c AND 0x1f"

definition enc_step :: "nat \<Rightarrow> nat \<Rightarrow> byte \<Rightarrow> byte \<Rightarrow> byte list" where
  "enc_step len j a b =
     (let x = enc_x j;
          c1 = low5 (push_bit (5 - x) a OR drop_bit (3 + x) b);
          c2 = low5 (drop_bit (x - 2) b)
      in (if j < len \<or> j mod 5 > 0 then [c1] else []) @ (if x \<ge> 2 \<and> j < len then [c2] else []))"

fun enc_loop :: "nat \<Rightarrow> nat \<Rightarrow> byte \<Rightarrow> byte list \<Rightarrow> byte list" where
  "enc_loop len j a [] = enc_step len j a 0"
| "enc_loop len j a (b # bs) = enc_step len j a b @ enc_loop len (j + 1) b bs"

definition to_quintets :: "byte list \<Rightarrow> byte list" where
  "to_quintets bs = enc_loop (length bs) 0 0 bs"

text \<open>The decoders' write of digit \<open>j\<close> into the buffer.\<close>

definition or_at :: "nat \<Rightarrow> byte \<Rightarrow> byte list \<Rightarrow> byte list option" where
  "or_at k v buf = (if k < length buf then Some (buf[k := buf ! k OR v]) else None)"

definition put_quintet :: "nat \<Rightarrow> byte \<Rightarrow> byte list \<Rightarrow> byte list option" where
  "put_quintet j c buf =
     (let x = (j mod 8) * 5 - ((j mod 8) * 5 div 8) * 8;
          k = (j div 8) * 5 + (j mod 8) * 5 div 8
      in case or_at k (drop_bit x (push_bit 3 c)) buf of
           None \<Rightarrow> None
         | Some buf \<Rightarrow> if x > 3 then or_at (k + 1) (push_bit (11 - x) c) buf else Some buf)"

fun put_quintets :: "nat \<Rightarrow> byte list \<Rightarrow> byte list \<Rightarrow> byte list option" where
  "put_quintets j [] buf = Some buf"
| "put_quintets j (c # cs) buf =
     (case put_quintet j c buf of None \<Rightarrow> None | Some buf \<Rightarrow> put_quintets (j + 1) cs buf)"

section \<open>The alphabet\<close>

lemma quintet_chars_list: "quintet_chars =
  [113, 112, 122, 114, 121, 57, 120, 56, 103, 102, 50, 116, 118, 100, 119, 48, 115, 51, 106, 110, 53, 52,
   107, 104, 99, 101, 54, 109, 117, 97, 55, 108]"
  by (simp add: quintet_chars_def)

lemma length_quintet_chars [simp]: "length quintet_chars = 32"
  by (simp add: quintet_chars_list)

lemma quintet_chars_props:
  "distinct quintet_chars" "list_all (\<lambda>c. \<not> isupper_c c \<and> 33 \<le> c \<and> c \<le> 126 \<and> c \<noteq> 49 \<and> c \<noteq> 58 \<and> c \<noteq> 0) quintet_chars"
  by (simp_all add: quintet_chars_list isupper_c_def)

lemma quintet_char_props:
  assumes "c < 32"
  shows "quintet_of (quintet_chars ! unat c) = Some c" "tolower_c (quintet_chars ! unat c) = quintet_chars ! unat c"
    "\<not> isupper_c (quintet_chars ! unat c)" "33 \<le> quintet_chars ! unat c" "quintet_chars ! unat c \<le> 126"
    "quintet_chars ! unat c \<noteq> 49" "quintet_chars ! unat c \<noteq> 58" "quintet_chars ! unat c \<noteq> 0"
proof -
  have c: "unat c < 32" using assms by (simp add: word_less_nat_alt)
  have "map_of (zip quintet_chars (map of_nat [0..<32])) (quintet_chars ! unat c) = Some (map of_nat [0..<32] ! unat c :: byte)"
    using quintet_chars_props(1) c by (intro map_of_zip_nth) simp_all
  then show "quintet_of (quintet_chars ! unat c) = Some c" using c by (simp add: quintet_of_def)
  have p: "(\<lambda>c. \<not> isupper_c c \<and> 33 \<le> c \<and> c \<le> 126 \<and> c \<noteq> 49 \<and> c \<noteq> 58 \<and> c \<noteq> 0) (quintet_chars ! unat c)"
    using quintet_chars_props(2) c unfolding list_all_length length_quintet_chars by blast
  then show "tolower_c (quintet_chars ! unat c) = quintet_chars ! unat c"
    "\<not> isupper_c (quintet_chars ! unat c)" "33 \<le> quintet_chars ! unat c" "quintet_chars ! unat c \<le> 126"
    "quintet_chars ! unat c \<noteq> 49" "quintet_chars ! unat c \<noteq> 58" "quintet_chars ! unat c \<noteq> 0"
    by (auto simp: tolower_c_def)
qed

lemma quintet_of_less:
  assumes "quintet_of c = Some q"
  shows "q < 32" "c = quintet_chars ! unat q"
proof -
  have "(c, q) \<in> set (zip quintet_chars (map of_nat [0..<32]))"
    using assms unfolding quintet_of_def by (rule map_of_SomeD)
  then obtain i where i: "i < 32" "c = quintet_chars ! i" "q = of_nat i"
    by (auto simp: set_zip)
  then show "q < 32" "c = quintet_chars ! unat q" by (simp_all add: word_less_nat_alt unat_of_nat)
qed

section \<open>Checksums\<close>

lemma mask5: "(0x1f :: 'a::len word) = mask 5"
  by (simp add: mask_eq_exp_minus_1)

text \<open>
  A step \<open>p\<close> on checksums of \<open>n\<close> digits of 5 bits: linear, a plain shift while nothing falls out at the top, and
  never more than \<open>5 n\<close> bits.
\<close>

locale quintet_checksum =
  fixes p :: "'a::len word \<Rightarrow> 'a word" and n :: nat
  assumes width: "5 * n \<le> LENGTH('a)" and n_pos: "0 < n"
    and linear: "p (x XOR y) = p x XOR p y"
    and shift: "(\<And>i. bit x i \<Longrightarrow> i < 5 * (n - 1)) \<Longrightarrow> p x = push_bit 5 x"
    and bounded: "bit (p x) i \<Longrightarrow> i < 5 * n"
begin

definition run :: "'a word \<Rightarrow> 'a word list \<Rightarrow> 'a word" where
  "run s qs = foldl (\<lambda>s q. p s XOR q) s qs"

lemma run_append: "run s (xs @ ys) = run (run s xs) ys"
  by (simp add: run_def)

lemma run_xor: "length xs = length ys \<Longrightarrow> run (s XOR t) (map2 (XOR) xs ys) = run s xs XOR run t ys"
proof (induction xs ys arbitrary: s t rule: list_induct2)
  case (Cons x xs y ys)
  have "p (s XOR t) XOR (x XOR y) = (p s XOR x) XOR (p t XOR y)"
    by (simp add: linear ac_simps)
  with Cons show ?case by (simp add: run_def)
qed (simp add: run_def)

text \<open>Digits fed into a zero checksum are packed one behind the other.\<close>

lemma run_packs:
  assumes "k \<le> n" "\<And>i. bit c i \<Longrightarrow> i < 5 * n"
  shows "run 0 (map (\<lambda>i. drop_bit (5 * (n - 1 - i)) c AND 0x1f) [0..<k]) = drop_bit (5 * (n - k)) c"
  using assms(1)
proof (induction k)
  case 0
  have "drop_bit (5 * n) c = 0"
    using assms(2) by (intro bit_word_eqI) (auto simp: bit_simps)
  then show ?case by (simp add: run_def)
next
  case (Suc k)
  let ?d = "drop_bit (5 * (n - k)) c" and ?q = "drop_bit (5 * (n - 1 - k)) c AND 0x1f"
  have "run 0 (map (\<lambda>i. drop_bit (5 * (n - 1 - i)) c AND 0x1f) [0..<Suc k]) = p ?d XOR ?q"
    using Suc by (simp add: run_append run_def)
  also have "p ?d = push_bit 5 ?d"
  proof (rule shift)
    fix i assume "bit ?d i"
    then have "i + 5 * (n - k) < 5 * n" using assms(2) by (auto simp: bit_simps add.commute)
    then show "i < 5 * (n - 1)" using Suc.prems by linarith
  qed
  also have "push_bit 5 ?d XOR ?q = drop_bit (5 * (n - Suc k)) c"
  proof (rule bit_word_eqI)
    fix i assume i: "i < LENGTH('a)"
    have nk: "5 * (n - k) = 5 * (n - Suc k) + 5" "n - 1 - k = n - Suc k" using Suc.prems by simp_all
    show "bit (push_bit 5 ?d XOR ?q) i = bit (drop_bit (5 * (n - Suc k)) c) i"
      unfolding nk mask5 using i by (auto simp: bit_simps not_less add.assoc)
  qed
  finally show ?case .
qed

text \<open>
  The digits of \<open>run s (0, ..., 0) XOR 1\<close> bring the checksum \<open>s\<close> to 1, which is what decoders test.
\<close>

lemma checksum_valid:
  "run s (map (\<lambda>i. drop_bit (5 * (n - 1 - i)) (run s (replicate n 0) XOR 1) AND 0x1f) [0..<n]) = 1"
proof -
  define c where "c = run s (replicate n 0) XOR 1"
  let ?q = "map (\<lambda>i. drop_bit (5 * (n - 1 - i)) c AND 0x1f) [0..<n]"
  obtain m where m: "n = Suc m" using n_pos by (cases n) auto
  have "run s (replicate n 0) = p (run s (replicate m 0))"
  proof -
    have "replicate n 0 = replicate m 0 @ [0 :: 'a word]" by (simp add: m replicate_append_same)
    then show ?thesis by (simp add: run_append) (simp add: run_def)
  qed
  then have cb: "i < 5 * n" if "bit c i" for i
    using that bounded m by (auto simp: c_def bit_simps bit_1_iff)
  have "run s ?q = run (s XOR 0) (map2 (XOR) (replicate n 0) ?q)"
    by (simp add: map2_map_map zip_replicate1 comp_def)
  also have "\<dots> = run s (replicate n 0) XOR run 0 ?q"
    by (rule run_xor) simp
  also have "run 0 ?q = c" using run_packs [OF order_refl cb] by simp
  finally show ?thesis unfolding c_def by (simp add: xor.assoc [symmetric])
qed

end

section \<open>The regrouping is inverted\<close>

lemma or_at_append:
  "length pre = m \<Longrightarrow> or_at (m + k) v (pre @ ys) = map_option (append pre) (or_at k v ys)"
  by (simp add: or_at_def nth_append list_update_append)

lemma or_at_twice_append:
  assumes "length pre = m"
  shows "(case or_at (m + k) v (pre @ ys) of None \<Rightarrow> None | Some b \<Rightarrow> if Q then or_at (m + (k + 1)) w b else Some b) =
    map_option (append pre) (case or_at k v ys of None \<Rightarrow> None | Some b \<Rightarrow> if Q then or_at (k + 1) w b else Some b)"
  unfolding or_at_append [OF assms]
  by (cases "or_at k v ys") (simp_all add: or_at_append [OF assms] del: add_Suc_right)

lemma put_quintet_append:
  assumes "length pre = 5"
  shows "put_quintet (8 + j) c (pre @ ys) = map_option (append pre) (put_quintet j c ys)"
proof -
  have m: "(8 + j) mod 8 = j mod 8" "(8 + j) div 8 * 5 + t = 5 + (j div 8 * 5 + t)"
    "5 + t + 1 = 5 + (t + 1)" for t
    by (simp_all add: div_add_self1)
  show ?thesis
    unfolding put_quintet_def Let_def m by (rule or_at_twice_append [OF assms])
qed

lemma put_quintets_append:
  assumes "length pre = 5"
  shows "put_quintets (8 + j) cs (pre @ ys) = map_option (append pre) (put_quintets j cs ys)"
proof (induction cs arbitrary: j ys)
  case (Cons c cs)
  show ?case
    using Cons [of "j + 1"] by (simp add: put_quintet_append [OF assms] split: option.splits)
qed simp

lemma enc_loop_shift: "enc_loop (5 + len) (5 + j) a bs = enc_loop len j a bs"
proof (induction bs arbitrary: j a)
  case (Cons b bs)
  from Cons [of "j + 1" b] show ?case by (simp add: enc_step_def enc_x_def)
qed (simp add: enc_step_def enc_x_def)

lemma bit_low5: "bit (low5 c) n \<longleftrightarrow> n < 5 \<and> bit c n"
  unfolding low5_def mask5 by (auto simp: bit_simps)

lemma enc_first: "low5 (push_bit 5 a OR b) = low5 b"
  by (rule bit_word_eqI) (auto simp: bit_simps bit_low5)

lemma enc_loop_start: "bs \<noteq> [] \<or> len = 0 \<Longrightarrow> enc_loop len 0 a bs = enc_loop len 0 0 bs"
  by (cases bs) (simp_all add: enc_step_def enc_x_def enc_first)

definition eight :: "byte \<Rightarrow> byte \<Rightarrow> byte \<Rightarrow> byte \<Rightarrow> byte \<Rightarrow> byte list" where
  "eight b0 b1 b2 b3 b4 =
     [low5 (drop_bit 3 b0), low5 (push_bit 2 b0 OR drop_bit 6 b1), low5 (drop_bit 1 b1),
      low5 (push_bit 4 b1 OR drop_bit 4 b2), low5 (push_bit 1 b2 OR drop_bit 7 b3), low5 (drop_bit 2 b3),
      low5 (push_bit 3 b3 OR drop_bit 5 b4), low5 b4]"

lemma enc_loop_eight:
  "enc_loop (5 + len) 0 a (b0 # b1 # b2 # b3 # b4 # bs) = eight b0 b1 b2 b3 b4 @ enc_loop len 0 b4 bs"
  using enc_loop_shift [of len 0 b4 bs]
  by (simp add: enc_step_def enc_x_def eight_def enc_first push_bit_Suc drop_bit_Suc One_nat_def [symmetric] del: One_nat_def)

lemma put_quintets_app:
  "put_quintets j (xs @ ys) buf = (case put_quintets j xs buf of None \<Rightarrow> None | Some b \<Rightarrow> put_quintets (j + length xs) ys b)"
  by (induction xs arbitrary: j buf) (auto split: option.splits)

lemma list_update_Cons_numeral: "(x # xs)[numeral v := y] = x # xs[pred_numeral v := y]"
  by (simp add: numeral_eq_Suc)

lemma list_update_Cons_one: "(x # xs)[1 := y] = x # xs[0 := y]"
  by simp

lemma bit_double: "bit (x * 2 :: byte) n \<longleftrightarrow> 0 < n \<and> n < 8 \<and> bit x (n - 1)"
proof -
  have "x * 2 = push_bit 1 x" by simp
  then show ?thesis by (simp only: bit_simps) auto
qed

lemma byte_bits_eqI:
  assumes "bit a 0 = bit b 0" "bit a 1 = bit b 1" "bit a 2 = bit b 2" "bit a 3 = bit b 3" "bit a 4 = bit b 4"
    "bit a 5 = bit b 5" "bit a 6 = bit b 6" "bit a 7 = bit b 7"
  shows "a = (b :: byte)"
proof (rule bit_word_eqI)
  fix n assume "n < LENGTH(8)"
  then have "n = 0 \<or> n = 1 \<or> n = 2 \<or> n = 3 \<or> n = 4 \<or> n = 5 \<or> n = 6 \<or> n = 7" by simp linarith
  with assms show "bit a n = bit b n" by auto
qed

lemma regroup_bytes:
  "push_bit 3 (low5 (drop_bit 3 b0)) OR drop_bit 5 (push_bit 3 (low5 (push_bit 2 b0 OR drop_bit 6 b1))) = b0"
  "(push_bit 6 (low5 (push_bit 2 b0 OR drop_bit 6 b1)) OR drop_bit 2 (push_bit 3 (low5 (drop_bit (Suc 0) b1)))) OR
     drop_bit 7 (push_bit 3 (low5 (push_bit 4 b1 OR drop_bit 4 b2))) = b1"
  "push_bit 4 (low5 (push_bit 4 b1 OR drop_bit 4 b2)) OR
     drop_bit 4 (push_bit 3 (low5 (b2 * 2 OR drop_bit 7 b3))) = b2"
  "(push_bit 7 (low5 (b2 * 2 OR drop_bit 7 b3)) OR drop_bit (Suc 0) (push_bit 3 (low5 (drop_bit 2 b3)))) OR
     drop_bit 6 (push_bit 3 (low5 (push_bit 3 b3 OR drop_bit 5 b4))) = b3"
  "push_bit 5 (low5 (push_bit 3 b3 OR drop_bit 5 b4)) OR drop_bit 3 (push_bit 3 (low5 b4)) = b4"
  by (rule byte_bits_eqI; (simp add: bit_simps bit_low5 bit_byte_high bit_double); (simp add: numeral_2_eq_2 numeral_3_eq_3)?)+

lemma put_quintet_at:
  "put_quintet 0 c (x0 # ys) = Some ((x0 OR push_bit 3 c) # ys)"
  "put_quintet 1 c (x0 # x1 # ys) = Some ((x0 OR drop_bit 5 (push_bit 3 c)) # (x1 OR push_bit 6 c) # ys)"
  "put_quintet 2 c (x0 # x1 # ys) = Some (x0 # (x1 OR drop_bit 2 (push_bit 3 c)) # ys)"
  "put_quintet 3 c (x0 # x1 # x2 # ys) = Some (x0 # (x1 OR drop_bit 7 (push_bit 3 c)) # (x2 OR push_bit 4 c) # ys)"
  "put_quintet 4 c (x0 # x1 # x2 # x3 # ys) =
     Some (x0 # x1 # (x2 OR drop_bit 4 (push_bit 3 c)) # (x3 OR push_bit 7 c) # ys)"
  "put_quintet 5 c (x0 # x1 # x2 # x3 # ys) = Some (x0 # x1 # x2 # (x3 OR drop_bit (Suc 0) (push_bit 3 c)) # ys)"
  "put_quintet 6 c (x0 # x1 # x2 # x3 # x4 # ys) =
     Some (x0 # x1 # x2 # (x3 OR drop_bit 6 (push_bit 3 c)) # (x4 OR push_bit 5 c) # ys)"
  "put_quintet 7 c (x0 # x1 # x2 # x3 # x4 # ys) =
     Some (x0 # x1 # x2 # x3 # (x4 OR drop_bit 3 (push_bit 3 c)) # ys)"
  by (simp_all add: put_quintet_def or_at_def list_update_Cons_numeral)

lemma put_eight: "put_quintets 0 (eight b0 b1 b2 b3 b4) (0 # 0 # 0 # 0 # 0 # ys) = Some (b0 # b1 # b2 # b3 # b4 # ys)"
  using regroup_bytes(1) [of b0 b1] regroup_bytes(2) [of b0 b1 b2] regroup_bytes(3) [of b1 b2 b3]
    regroup_bytes(4) [of b2 b3 b4] regroup_bytes(5) [of b3 b4]
  by (simp add: eight_def put_quintet_at del: One_nat_def) (simp add: One_nat_def)

text \<open>The last one to four bytes: the padding bits are zero and spill nothing into the next byte.\<close>

lemma regroup_zero: "low5 0 = 0" "push_bit 7 (low5 (x * 2)) = 0" 
  "push_bit 6 (low5 (push_bit 2 x)) = 0" "push_bit 4 (low5 (push_bit 4 x)) = 0" "push_bit 5 (low5 (push_bit 3 x)) = 0"
  by (rule byte_bits_eqI; simp add: bit_simps bit_low5 bit_byte_high bit_double)+

lemma put_tail:
  "put_quintets 0 (enc_loop 1 0 0 [b0]) (0 # 0 # ys) = Some (b0 # 0 # ys)"
  "put_quintets 0 (enc_loop 2 0 0 [b0, b1]) (0 # 0 # 0 # ys) = Some (b0 # b1 # 0 # ys)"
  "put_quintets 0 (enc_loop 3 0 0 [b0, b1, b2]) (0 # 0 # 0 # 0 # ys) = Some (b0 # b1 # b2 # 0 # ys)"
  "put_quintets 0 (enc_loop 4 0 0 [b0, b1, b2, b3]) (0 # 0 # 0 # 0 # 0 # ys) = Some (b0 # b1 # b2 # b3 # 0 # ys)"
  using regroup_bytes(1) [of b0 0] regroup_bytes(1) [of b0 b1] regroup_bytes(2) [of b0 b1 0] regroup_bytes(2) [of b0 b1 b2]
    regroup_bytes(3) [of b1 b2 0] regroup_bytes(3) [of b1 b2 b3] regroup_bytes(4) [of b2 b3 0]
  by (simp add: enc_step_def enc_x_def put_quintet_at regroup_zero del: One_nat_def; simp add: One_nat_def regroup_zero)+

text \<open>The digits by groups: eight for five bytes, two, four, five or seven for a rest of one to four.\<close>

fun quintet_groups :: "byte list \<Rightarrow> byte list" where
  "quintet_groups (b0 # b1 # b2 # b3 # b4 # r) = eight b0 b1 b2 b3 b4 @ quintet_groups r"
| "quintet_groups [b0, b1, b2, b3] = enc_loop 4 0 0 [b0, b1, b2, b3]"
| "quintet_groups [b0, b1, b2] = enc_loop 3 0 0 [b0, b1, b2]"
| "quintet_groups [b0, b1] = enc_loop 2 0 0 [b0, b1]"
| "quintet_groups [b0] = enc_loop 1 0 0 [b0]"
| "quintet_groups [] = []"

lemma to_quintets_groups: "to_quintets bs = quintet_groups bs"
proof (induction bs rule: quintet_groups.induct)
  case (1 b0 b1 b2 b3 b4 r)
  have len: "length (b0 # b1 # b2 # b3 # b4 # r) = 5 + length r" by simp
  have "enc_loop (length r) 0 b4 r = enc_loop (length r) 0 0 r" by (rule enc_loop_start) auto
  with 1 show ?case unfolding to_quintets_def len enc_loop_eight by simp
next
  case 6
  show ?case by (simp add: to_quintets_def enc_step_def)
qed (simp_all add: to_quintets_def numeral_eq_Suc del: enc_loop.simps)

lemma put_to_quintets:
  "length bs < n \<Longrightarrow> put_quintets 0 (to_quintets bs) (replicate n 0) = Some (bs @ replicate (n - length bs) 0)"
  unfolding to_quintets_groups
proof (induction bs arbitrary: n rule: quintet_groups.induct)
  case (1 b0 b1 b2 b3 b4 r)
  then obtain m where m: "n = Suc (Suc (Suc (Suc (Suc m))))" "length r < m" by (auto simp: less_iff_Suc_add)
  have IH: "put_quintets 0 (quintet_groups r) (replicate m 0) = Some (r @ replicate (m - length r) 0)"
    using 1(1) m(2) .
  have "put_quintets (8 + 0) (quintet_groups r) ([b0, b1, b2, b3, b4] @ replicate m 0) =
      Some ([b0, b1, b2, b3, b4] @ r @ replicate (m - length r) 0)"
    by (subst put_quintets_append) (simp_all add: IH)
  moreover have "length (eight b0 b1 b2 b3 b4) = 8" by (simp add: eight_def)
  ultimately show ?case
    using put_eight [of b0 b1 b2 b3 b4 "replicate m 0"] m(1) by (simp add: put_quintets_app)
next
  case (2 b0 b1 b2 b3)
  then obtain m where "n = Suc (Suc (Suc (Suc (Suc m))))" by (auto simp: less_iff_Suc_add)
  then show ?case using put_tail(4) by (simp del: enc_loop.simps)
next
  case (3 b0 b1 b2)
  then obtain m where "n = Suc (Suc (Suc (Suc m)))" by (auto simp: less_iff_Suc_add)
  then show ?case using put_tail(3) by (simp del: enc_loop.simps)
next
  case (4 b0 b1)
  then obtain m where "n = Suc (Suc (Suc m))" by (auto simp: less_iff_Suc_add)
  then show ?case using put_tail(2) by (simp del: enc_loop.simps)
next
  case (5 b0)
  then obtain m where "n = Suc (Suc m)" by (auto simp: less_iff_Suc_add)
  then show ?case using put_tail(1) by (simp del: enc_loop.simps)
qed simp

lemma low5_less: "low5 c < 32"
  unfolding low5_def mask5
  by (simp add: word_less_nat_alt unsigned_take_bit_eq flip: take_bit_eq_mask) (simp add: take_bit_nat_less_exp order.strict_trans2 [OF take_bit_nat_less_exp])

lemma to_quintets_less: "\<forall>c \<in> set (to_quintets bs). c < 32"
proof -
  have "\<forall>c \<in> set (enc_loop len j a bs). c < 32" for len j a
    by (induction bs arbitrary: j a) (auto simp: enc_step_def Let_def low5_less)
  then show ?thesis unfolding to_quintets_def .
qed

lemma length_to_quintets: "length (to_quintets bs) = (8 * length bs + 4) div 5"
  unfolding to_quintets_groups
proof (induction bs rule: quintet_groups.induct)
  case (1 b0 b1 b2 b3 b4 r)
  then show ?case by (simp add: eight_def)
qed (simp_all add: enc_step_def enc_x_def del: One_nat_def)

text \<open>Digit \<open>j\<close> is written inside of the buffer when its last bit is.\<close>

lemma put_quintet_ok:
  assumes "(5 * j + 4) div 8 < length buf"
  shows "\<exists>b. put_quintet j c buf = Some b \<and> length b = length buf"
proof -
  have j: "5 * j = j mod 8 * 5 + 8 * (j div 8 * 5)"
    using mult_div_mod_eq [of 8 j] by linarith
  have k: "j div 8 * 5 + j mod 8 * 5 div 8 = (5 * j) div 8" unfolding j by simp
  have x: "j mod 8 * 5 - j mod 8 * 5 div 8 * 8 = (5 * j) mod 8"
    unfolding j mod_mult_self2 by (rule minus_div_mult_eq_mod)
  have "(5 * j) div 8 \<le> (5 * j + 4) div 8" by (simp add: div_le_mono)
  moreover have "m div 8 + 1 = (m + 4) div 8" if "m mod 8 > 3" for m :: nat
  proof -
    have g: "(8 * q + r) div 8 = q + r div 8" for q r :: nat by simp
    note g [of "m div 8" "m mod 8 + 4"]
    moreover have "(m mod 8 + 4) div 8 = 1"
      using that mod_less_divisor [of 8 m] by (intro div_nat_eqI) simp_all
    moreover have "m + 4 = 8 * (m div 8) + (m mod 8 + 4)" using mult_div_mod_eq [of 8 m] by linarith
    ultimately show ?thesis by presburger
  qed
  note this [of "5 * j"]
  ultimately show ?thesis
    unfolding put_quintet_def Let_def k x using assms by (auto simp: or_at_def)
qed

lemma put_quintets_ok:
  assumes "cs = [] \<or> (5 * (j + length cs) - 1) div 8 < length buf"
  shows "\<exists>b. put_quintets j cs buf = Some b \<and> length b = length buf"
  using assms
proof (induction cs arbitrary: j buf)
  case (Cons c cs)
  have "(5 * j + 4) div 8 \<le> (5 * (j + length (c # cs)) - 1) div 8" by (rule div_le_mono) simp
  then have "(5 * j + 4) div 8 < length buf" using Cons.prems by simp
  from put_quintet_ok [OF this] obtain b where b: "put_quintet j c buf = Some b" "length b = length buf" by blast
  have "cs = [] \<or> (5 * (j + 1 + length cs) - 1) div 8 < length b" using Cons.prems b by simp
  from Cons.IH [OF this] b show ?case by auto
qed simp

end
