(* ===== verification/Bech32.thy ===== *)
theory Bech32
  imports Quintets
begin

text \<open>
  BRBech32.c. The functions return \<open>None\<close> for an access outside of one of their buffers, \<open>Some None\<close>
  for the return value 0, and otherwise what they write: the decoder the human readable part (a C string with
  its terminator) and the witness program, the encoder the address with its terminator.
\<close>

definition polymod :: "u32 \<Rightarrow> u32" where
  "polymod x = push_bit 5 (x AND 0x1ffffff) XOR (- (drop_bit 25 x AND 1) AND 0x3b6a57b2) XOR
     (- (drop_bit 26 x AND 1) AND 0x26508e6d) XOR (- (drop_bit 27 x AND 1) AND 0x1ea119fa) XOR
     (- (drop_bit 28 x AND 1) AND 0x3d4233dd) XOR (- (drop_bit 29 x AND 1) AND 0x2a1462b3)"

text \<open>\<open>while (sep > 0 && addr[sep] != c) sep--\<close>; \<open>addr\<close> is followed by its terminator.\<close>

fun scan_sep :: "byte \<Rightarrow> byte list \<Rightarrow> nat \<Rightarrow> nat" where
  "scan_sep c addr 0 = 0"
| "scan_sep c addr (Suc n) = (if (addr @ [0]) ! Suc n \<noteq> c then scan_sep c addr n else Suc n)"

text \<open>The human readable part enters the checksum twice, with its high and its low bits.\<close>

definition hrp_checksum :: "byte list \<Rightarrow> u32" where
  "hrp_checksum hrp =
     (let chk = foldl (\<lambda>chk c. polymod chk XOR drop_bit 5 (ucast (tolower_c c))) 1 hrp
      in foldl (\<lambda>chk c. polymod chk XOR (ucast c AND 0x1f)) (polymod chk) hrp)"

text \<open>
  The loop over the data part, \<open>j\<close> from -1: the first digit is the version, the last six are the
  checksum and are not stored.
\<close>

fun bech32_loop :: "byte list \<Rightarrow> int \<Rightarrow> u32 \<Rightarrow> byte \<Rightarrow> byte list \<Rightarrow> (u32 \<times> byte \<times> byte list) option option" where
  "bech32_loop [] j chk ver buf = Some (Some (chk, ver, buf))"
| "bech32_loop (a # as) j chk ver buf =
     (case quintet_of (tolower_c a) of
        None \<Rightarrow> Some None
      | Some c \<Rightarrow>
          let chk = polymod chk XOR ucast c; ver = (if j = -1 then c else ver)
          in if j = -1 \<or> length (a # as) \<le> 6 then bech32_loop as (j + 1) chk ver buf
             else case put_quintet (nat j) c buf of
                    None \<Rightarrow> None
                  | Some buf \<Rightarrow> bech32_loop as (j + 1) chk ver buf)"

definition BRBech32Decode :: "byte list \<Rightarrow> (byte list \<times> byte list) option option" where
  "BRBech32Decode addr =
     (if list_ex (\<lambda>c. c < 33 \<or> c > 126) addr then Some None
      else
        let lower = list_ex islower_c addr; upper = list_ex isupper_c addr;
            addrLen = length addr; sep = scan_sep 49 addr addrLen
        in if addrLen < 8 \<or> addrLen > 90 \<or> sep < 1 \<or> sep + 2 + 6 > addrLen \<or> (upper \<and> lower) then Some None
           else
             case bech32_loop (drop (sep + 1) addr) (-1) (hrp_checksum (take sep addr)) 0xff (replicate 52 0) of
               None \<Rightarrow> None
             | Some None \<Rightarrow> Some None
             | Some (Some (chk, ver, buf)) \<Rightarrow>
                 let bufLen = (addrLen - (sep + 2 + 6)) * 5 div 8
                 in if chk \<noteq> 1 \<or> ver > 16 \<or> bufLen < 2 \<or> bufLen > 40 then Some None
                    else Some (Some (map tolower_c (take sep addr) @ [0],
                           (if ver = 0 then 0 else ver + 0x51 - 1) # of_nat bufLen # take bufLen buf)))"

text \<open>
  The encoder fills \<open>addr[91]\<close> from the front, so a write outside of it happens exactly when the final
  length is over 91. It reads \<open>data[0 .. 1 + data[1]]\<close>.
\<close>

definition BRBech32Encode :: "byte list \<Rightarrow> byte list \<Rightarrow> byte list option option" where
  "BRBech32Encode hrp data =
     (if length hrp > 84 \<or> list_ex (\<lambda>c. c < 33 \<or> c > 126 \<or> isupper_c c) hrp then Some None
      else if data ! 0 > 0 \<and> data ! 0 < 0x51 then Some None
      else
        let ver = (if data ! 0 \<ge> 0x51 then data ! 0 + 1 - 0x51 else 0);
            len = unat (data ! 1); i = length hrp + 1
        in if ver > 16 \<or> len < 2 \<or> len > 40 \<or> i + 1 + len + 6 \<ge> 91 then Some None
           else if length data < 2 + len then None
           else
             let q = ver # to_quintets (take len (drop 2 data));
                 chk = foldl (\<lambda>chk c. polymod chk XOR ucast c) (hrp_checksum hrp) q;
                 chk = (polymod ^^ 6) chk XOR 1;
                 digit = (\<lambda>j. ucast (drop_bit ((5 - j) * 5) chk AND 0x1f));
                 addr = hrp @ [49] @ map (\<lambda>c. quintet_chars ! unat c) (q @ map digit [0..<6]) @ [0]
             in if length addr > 91 then None else Some (Some addr))"

section \<open>The checksum\<close>

lemma neg_bit_and: "- (drop_bit k x AND 1) AND c = (if bit x k then c else 0)" for x :: "'a::len word"
proof -
  have "drop_bit k x AND 1 = (if bit x k then 1 else 0)"
    by (simp add: and_one_eq bit_iff_odd_drop_bit mod_2_eq_odd)
  then show ?thesis by simp
qed

lemma polymod_bits:
  "polymod x = push_bit 5 (x AND mask 25) XOR (if bit x 25 then 0x3b6a57b2 else 0) XOR
     (if bit x 26 then 0x26508e6d else 0) XOR (if bit x 27 then 0x1ea119fa else 0) XOR
     (if bit x 28 then 0x3d4233dd else 0) XOR (if bit x 29 then 0x2a1462b3 else 0)"
proof -
  have "(0x1ffffff :: u32) = mask 25" by (simp add: mask_eq_exp_minus_1)
  then show ?thesis unfolding polymod_def neg_bit_and by simp
qed

lemma if_bit_xor: "(if bit (x XOR y) k then c else 0) = (if bit x k then c else 0) XOR (if bit y k then c else 0)"
  for x y c :: "'a::len word"
  by (simp add: bit_simps)

lemma push_mask_xor: "push_bit n ((x XOR y) AND m) = push_bit n (x AND m) XOR push_bit n (y AND m)"
  for x y m :: "'a::len word"
  by (rule bit_word_eqI) (auto simp: bit_simps)

interpretation bech32: quintet_checksum polymod 6
proof
  show "5 * 6 \<le> LENGTH(32)" "0 < (6 :: nat)" by simp_all
next
  fix x y :: u32
  show "polymod (x XOR y) = polymod x XOR polymod y"
    unfolding polymod_bits if_bit_xor push_mask_xor by (simp only: ac_simps)
next
  fix x :: u32 assume *: "\<And>i. bit x i \<Longrightarrow> i < 5 * (6 - 1)"
  have "\<not> bit x k" if "25 \<le> k" for k using * [of k] that by auto
  moreover have "x AND mask 25 = x" using * by (intro bit_word_eqI) (auto simp: bit_simps)
  ultimately show "polymod x = push_bit 5 x" unfolding polymod_bits by simp
next
  fix x :: u32 and i assume b: "bit (polymod x) i"
  have k: "bit (if P then c else 0) i \<Longrightarrow> take_bit 30 c = c \<Longrightarrow> i < 30" for P and c :: u32
    by (metis bit_take_bit_iff bit_0_eq bot_apply bot_bool_def)
  have t: "take_bit 30 (0x3b6a57b2 :: u32) = 0x3b6a57b2" "take_bit 30 (0x26508e6d :: u32) = 0x26508e6d"
    "take_bit 30 (0x1ea119fa :: u32) = 0x1ea119fa" "take_bit 30 (0x3d4233dd :: u32) = 0x3d4233dd"
    "take_bit 30 (0x2a1462b3 :: u32) = 0x2a1462b3" by simp_all
  have "bit (push_bit 5 (x AND mask 25)) i \<or> bit (if bit x 25 then 0x3b6a57b2 else 0 :: u32) i \<or>
      bit (if bit x 26 then 0x26508e6d else 0 :: u32) i \<or> bit (if bit x 27 then 0x1ea119fa else 0 :: u32) i \<or>
      bit (if bit x 28 then 0x3d4233dd else 0 :: u32) i \<or> bit (if bit x 29 then 0x2a1462b3 else 0 :: u32) i"
    using b unfolding polymod_bits bit_xor_iff by blast
  moreover have "bit (push_bit 5 (x AND mask 25)) i \<Longrightarrow> i < 30" by (auto simp: bit_simps)
  ultimately have "i < 30"
    using k [of "bit x 25" "0x3b6a57b2"] k [of "bit x 26" "0x26508e6d"] k [of "bit x 27" "0x1ea119fa"]
      k [of "bit x 28" "0x3d4233dd"] k [of "bit x 29" "0x2a1462b3"] t by blast
  then show "i < 5 * 6" by simp
qed

section \<open>Decoding is memory safe and inverts encoding\<close>

text \<open>Every digit of an address of at most 90 characters is stored inside of the 52 byte buffer.\<close>

lemma bech32_loop_safe:
  assumes "0 \<le> j" "(5 * (nat j + (length as - 6)) - 1) div 8 < length buf"
  shows "bech32_loop as j chk ver buf \<noteq> None"
  using assms
proof (induction as arbitrary: j chk ver buf)
  case (Cons a as)
  have n: "nat (j + 1) = nat j + 1" using Cons.prems(1) by simp
  show ?case
  proof (cases "quintet_of (tolower_c a)")
    case None
    then show ?thesis by simp
  next
    case (Some c)
    show ?thesis
    proof (cases "length (a # as) \<le> 6")
      case True
      have "(5 * (nat (j + 1) + (length as - 6)) - 1) div 8 < length buf \<or> length as \<le> 6" using True by simp
      have "bech32_loop as' i chk ver buf \<noteq> None" if "length as' \<le> 6" for as' i chk ver
        using that by (induction as' arbitrary: i chk ver) (auto split: option.splits)
      then show ?thesis using Some True by simp
    next
      case False
      then have l: "length (a # as) - 6 = Suc (length as - 6)" by simp
      have "(5 * nat j + 4) div 8 \<le> (5 * (nat j + (length (a # as) - 6)) - 1) div 8"
        unfolding l by (rule div_le_mono) simp
      then have "(5 * nat j + 4) div 8 < length buf" using Cons.prems(2) by linarith
      from put_quintet_ok [OF this] obtain b where b: "put_quintet (nat j) c buf = Some b" "length b = length buf" by blast
      have "(5 * (nat (j + 1) + (length as - 6)) - 1) div 8 < length b"
        using Cons.prems(2) unfolding n l b(2) by simp
      from Cons.IH [OF _ this] Cons.prems(1) Some False b show ?thesis by (simp add: Let_def)
    qed
  qed
qed simp

lemma scan_sep_le: "scan_sep c addr n \<le> n"
  by (induction n) auto

lemma bech32_decode_safe: "BRBech32Decode addr \<noteq> None"
proof -
  have "bech32_loop (drop (sep + 1) addr) (-1) chk 0xff (replicate 52 0) \<noteq> None"
    if b: "length addr \<le> 90" "1 \<le> sep" "sep + 8 \<le> length addr" for sep chk
  proof -
    obtain a as where d: "drop (sep + 1) addr = a # as" using b by (cases "drop (sep + 1) addr") auto
    have "length as \<le> 87" using arg_cong [OF d, of length] b by simp
    then have "(5 * (nat 0 + (length as - 6)) - 1) div 8 < length (replicate 52 (0 :: byte))" by simp
    from bech32_loop_safe [OF _ this] show ?thesis unfolding d by (auto simp: Let_def split: option.splits)
  qed
  note safe = this
  let ?sep = "scan_sep 49 addr (length addr)"
  let ?loop = "bech32_loop (drop (?sep + 1) addr) (-1) (hrp_checksum (take ?sep addr)) 0xff (replicate 52 0)"
  show ?thesis
  proof (cases ?loop)
    case None
    then have "\<not> (length addr \<le> 90 \<and> 1 \<le> ?sep \<and> ?sep + 8 \<le> length addr)" using safe by blast
    then have "length addr < 8 \<or> length addr > 90 \<or> ?sep < 1 \<or> ?sep + 2 + 6 > length addr" by linarith
    then show ?thesis unfolding BRBech32Decode_def Let_def by auto
  next
    case (Some r)
    then show ?thesis
      unfolding BRBech32Decode_def Let_def by (auto split: option.splits prod.splits)
  qed
qed

lemma scan_sep_found:
  assumes "c \<notin> set ys" "c \<noteq> 0" "length xs \<le> n" "n \<le> length xs + 1 + length ys" "0 < length xs"
  shows "scan_sep c (xs @ c # ys) n = length xs"
  using assms(3,4)
proof (induction n)
  case 0
  with assms(5) show ?case by simp
next
  case (Suc n)
  show ?case
  proof (cases "Suc n = length xs")
    case True
    then have "((xs @ c # ys) @ [0]) ! Suc n = c" by (simp add: nth_append)
    then have "scan_sep c (xs @ c # ys) (Suc n) = Suc n" by simp
    then show ?thesis by (simp only: True)
  next
    case False
    then have "((xs @ c # ys) @ [0]) ! Suc n = (ys @ [0]) ! (n - length xs)"
      using Suc.prems(1) by (simp add: nth_append Suc_diff_le)
    also have "\<dots> \<noteq> c"
      using assms(1,2) Suc.prems False by (auto simp: nth_append in_set_conv_nth)
    finally show ?thesis using False Suc by simp
  qed
qed

text \<open>On digits of the alphabet the loop runs the checksum over all and stores all but the last six.\<close>

abbreviation quintet_string :: "byte list \<Rightarrow> byte list" where
  "quintet_string q \<equiv> map (\<lambda>c. quintet_chars ! unat c) q"

lemma bech32_loop_string:
  assumes "\<forall>c \<in> set q. c < 32" "put_quintets j (take (length q - 6) q) buf = Some b"
  shows "bech32_loop (quintet_string q) (int j) chk ver buf =
      Some (Some (foldl (\<lambda>chk c. polymod chk XOR ucast c) chk q, ver, b))"
  using assms
proof (induction q arbitrary: j chk buf)
  case (Cons c q)
  have c: "quintet_of (tolower_c (quintet_chars ! unat c)) = Some c"
    using Cons.prems(1) by (simp add: quintet_char_props)
  show ?case
  proof (cases "length (c # q) \<le> 6")
    case True
    with Cons.prems(2) have "put_quintets (j + 1) (take (length q - 6) q) buf = Some b" by simp
    with Cons.IH [OF _ this] Cons.prems(1) c True show ?thesis by (simp add: add.commute Let_def)
  next
    case False
    then have "length (c # q) - 6 = Suc (length q - 6)" by simp
    with Cons.prems(2) obtain b1 where b1: "put_quintet j c buf = Some b1"
      "put_quintets (j + 1) (take (length q - 6) q) b1 = Some b" by (auto split: option.splits)
    with Cons.IH [OF _ b1(2)] Cons.prems(1) c False show ?thesis by (simp add: add.commute Let_def)
  qed
qed simp

lemma bech32_run_fold:
  "foldl (\<lambda>chk c. polymod chk XOR ucast c) s q = bech32.run s (map ucast q)"
  by (simp add: bech32.run_def foldl_map)

lemma run_zeros: "bech32.run s (replicate k 0) = (polymod ^^ k) s"
  by (induction k arbitrary: s) (simp_all add: bech32.run_def funpow_swap1)

lemma checksum_digits:
  fixes s :: u32
  defines "ck \<equiv> (polymod ^^ 6) s XOR 1"
  shows "foldl (\<lambda>chk c. polymod chk XOR ucast c) s (map (\<lambda>j. ucast (drop_bit ((5 - j) * 5) ck AND 0x1f) :: byte) [0..<6]) = 1"
proof -
  have u: "ucast (ucast (x AND 0x1f) :: byte) = x AND 0x1f" for x :: u32
    unfolding mask5 by (rule bit_word_eqI) (auto simp: bit_simps)
  show ?thesis
    using bech32.checksum_valid [of s] unfolding run_zeros ck_def [symmetric] bech32_run_fold
    by (simp add: u comp_def mult.commute)
qed

lemma checksum_digit_less: "(ucast (x AND 0x1f :: u32) :: byte) < 32"
proof -
  have "ucast (x AND 0x1f) = low5 (ucast x)"
    unfolding low5_def mask5 by (rule bit_word_eqI) (auto simp: bit_simps)
  then show ?thesis by (simp add: low5_less)
qed

lemma hrp_checksum_lower:
  assumes "list_all (\<lambda>c. \<not> isupper_c c) hrp"
  shows "map tolower_c hrp = hrp"
  using assms by (induction hrp) (simp_all add: tolower_c_def)


text \<open>What the encoder puts out for a witness program, and that the decoder reads it back.\<close>

lemma in_range_chars:
  assumes "\<forall>c \<in> set q. c < 32"
  shows "\<not> list_ex (\<lambda>c. c < 33 \<or> c > 126) (quintet_string q)" "\<not> list_ex isupper_c (quintet_string q)"
    "49 \<notin> set (quintet_string q)" "58 \<notin> set (quintet_string q)" "0 \<notin> set (quintet_string q)"
  using assms by (auto simp: list_ex_iff not_less quintet_char_props dest!: sym [of _ "quintet_chars ! _"])

definition witness_program :: "byte list \<Rightarrow> bool" where
  "witness_program data \<longleftrightarrow> 2 \<le> length data \<and> length data = 2 + unat (data ! 1) \<and> 2 \<le> data ! 1 \<and> data ! 1 \<le> 40 \<and>
     (data ! 0 = 0 \<or> 0x51 \<le> data ! 0 \<and> data ! 0 \<le> 0x60)"

definition valid_hrp :: "byte list \<Rightarrow> bool" where
  "valid_hrp hrp \<longleftrightarrow> hrp \<noteq> [] \<and> length hrp \<le> 83 \<and> list_all (\<lambda>c. 33 \<le> c \<and> c \<le> 126 \<and> \<not> isupper_c c) hrp"

lemma bech32_roundtrip:
  assumes hrp: "valid_hrp hrp" and wp: "witness_program data"
    and room: "length hrp + 1 + 1 + (8 * unat (data ! 1) + 4) div 5 + 6 \<le> 90"
  obtains addr where "BRBech32Encode hrp data = Some (Some (addr @ [0]))" "0 \<notin> set addr"
    "length addr = length hrp + 1 + 1 + (8 * unat (data ! 1) + 4) div 5 + 6"
    "BRBech32Decode addr = Some (Some (hrp @ [0], data))"
proof -
  define ver where "ver = (if data ! 0 \<ge> 0x51 then data ! 0 + 1 - 0x51 else 0)"
  define prog where "prog = take (unat (data ! 1)) (drop 2 data)"
  define qs where "qs = to_quintets prog"
  define s where "s = foldl (\<lambda>chk c. polymod chk XOR ucast c) (hrp_checksum hrp) (ver # qs)"
  define ck where "ck = (polymod ^^ 6) s XOR 1"
  define ds where "ds = map (\<lambda>j. ucast (drop_bit ((5 - j) * 5) ck AND 0x1f) :: byte) [0..<6]"
  define q where "q = ver # qs @ ds"
  define addr where "addr = hrp @ 49 # quintet_string q"
  have data: "length data = 2 + unat (data ! 1)" "2 \<le> unat (data ! 1)" "unat (data ! 1) \<le> 40"
    using wp by (auto simp: witness_program_def word_le_nat_alt)
  have ver16: "ver \<le> 16" "data ! 0 = (if ver = 0 then 0 else ver + 0x51 - 1)"
  proof -
    have "unat (data ! 0) = 0 \<or> 0x51 \<le> unat (data ! 0) \<and> unat (data ! 0) \<le> 0x60"
      using wp by (auto simp: witness_program_def word_le_nat_alt)
    moreover have "data ! 0 = of_nat (unat (data ! 0))" by simp
    moreover have "\<forall>k \<in> set (0 # [0x51..<0x61]). (let b = of_nat k :: byte; v = (if b \<ge> 0x51 then b + 1 - 0x51 else 0)
        in v \<le> 16 \<and> b = (if v = 0 then 0 else v + 0x51 - 1))" by (simp add: upt_rec)
    ultimately show "ver \<le> 16" "data ! 0 = (if ver = 0 then 0 else ver + 0x51 - 1)"
      unfolding ver_def Let_def by (metis atLeastLessThan_iff list.set_intros set_upt less_Suc_eq_le eval_nat_numeral(3) set_ConsD)+
  qed
  have prog: "length prog = unat (data ! 1)" "data = data ! 0 # data ! 1 # prog"
  proof -
    show "length prog = unat (data ! 1)" using data by (simp add: prog_def)
    have "data = take 2 data @ drop 2 data" by simp
    moreover have "take 2 data = [data ! 0, data ! 1]" using data by (cases data; cases "tl data") auto
    moreover have "prog = drop 2 data" using data by (simp add: prog_def)
    ultimately show "data = data ! 0 # data ! 1 # prog" by simp
  qed
  have q32: "\<forall>c \<in> set q. c < 32"
    using ver16(1) to_quintets_less [of prog] checksum_digit_less
    by (auto simp: q_def qs_def ds_def intro: order.strict_trans1)
  have lq: "length q = 1 + (8 * unat (data ! 1) + 4) div 5 + 6"
    by (simp add: q_def ds_def qs_def length_to_quintets prog(1))
  have la: "length addr = length hrp + 1 + 1 + (8 * unat (data ! 1) + 4) div 5 + 6"
    by (simp add: addr_def lq)
  have enc: "BRBech32Encode hrp data = Some (Some (addr @ [0]))"
  proof -
    have g: "\<not> (data ! 0 > 0 \<and> data ! 0 < 0x51)" "length hrp \<le> 84" "\<not> list_ex (\<lambda>c. c < 33 \<or> c > 126 \<or> isupper_c c) hrp"
      using wp hrp by (auto simp: witness_program_def valid_hrp_def list_ex_iff list_all_iff not_le not_less)
    have "hrp @ [49] @ quintet_string ((ver # qs) @ ds) @ [0] = addr @ [0]" by (simp add: addr_def q_def)
    moreover have "length hrp + 1 + 1 + unat (data ! 1) + 6 < 91" "length (addr @ [0]) \<le> 91"
      using room la by simp_all
    moreover have "length hrp + (length qs + length ds) \<le> 88"
      using room by (simp add: ds_def qs_def length_to_quintets prog(1))
    ultimately show ?thesis
      using g data ver16(1)
      unfolding BRBech32Encode_def Let_def ver_def [symmetric] prog_def [symmetric] qs_def [symmetric] s_def [symmetric]
        ck_def [symmetric] ds_def [symmetric]
      by (simp add: not_le not_less)
  qed
  have dec: "BRBech32Decode addr = Some (Some (hrp @ [0], data))"
  proof -
    have h: "hrp \<noteq> []" "list_all (\<lambda>c. \<not> isupper_c c) hrp" "\<not> list_ex (\<lambda>c. c < 33 \<or> c > 126) hrp" "\<not> list_ex isupper_c hrp"
      using hrp by (auto simp: valid_hrp_def list_ex_iff list_all_iff not_le not_less)
    have range: "\<not> list_ex (\<lambda>c. c < 33 \<or> c > 126) addr" "\<not> list_ex isupper_c addr"
      using h in_range_chars [OF q32] by (simp_all add: addr_def isupper_c_def)
    have sep: "scan_sep 49 addr (length addr) = length hrp"
      unfolding addr_def by (rule scan_sep_found) (use in_range_chars(3) [OF q32] h(1) in auto)
    have put: "put_quintets 0 (take (length (qs @ ds) - 6) (qs @ ds)) (replicate 52 0) =
        Some (prog @ replicate (52 - length prog) 0)"
      using put_to_quintets [of prog 52] data prog(1) by (simp add: ds_def qs_def)
    have st: "hrp_checksum (take (length hrp) addr) = hrp_checksum hrp" by (simp add: addr_def)
    have "bech32_loop (quintet_string (qs @ ds)) (int 0) (polymod (hrp_checksum hrp) XOR ucast ver) ver (replicate 52 0) =
        Some (Some (foldl (\<lambda>chk c. polymod chk XOR ucast c) (polymod (hrp_checksum hrp) XOR ucast ver) (qs @ ds), ver,
          prog @ replicate (52 - length prog) 0))"
      by (rule bech32_loop_string [OF _ put]) (use q32 in \<open>simp add: q_def\<close>)
    moreover have "foldl (\<lambda>chk c. polymod chk XOR ucast c) (polymod (hrp_checksum hrp) XOR ucast ver) (qs @ ds) = 1"
      using checksum_digits [of s] by (simp add: ds_def ck_def s_def)
    ultimately have loop: "bech32_loop (drop (length hrp + 1) addr) (-1) (hrp_checksum hrp) 0xff (replicate 52 0) =
        Some (Some (1, ver, prog @ replicate (52 - length prog) 0))"
      using q32 quintet_char_props(1,2) [of ver] by (simp add: addr_def q_def)
    have len: "(length addr - (length hrp + 2 + 6)) * 5 div 8 = unat (data ! 1)"
      using la by simp
    have low: "map tolower_c (take (length hrp) addr) = hrp" by (simp add: addr_def hrp_checksum_lower [OF h(2)])
    have ob: "of_nat (unat (data ! 1)) = data ! 1" by simp
    have "BRBech32Decode addr = Some (Some (hrp @ [0], data ! 0 # data ! 1 # take (unat (data ! 1)) (prog @ replicate (52 - length prog) 0)))"
      using range la room data ver16 h(1)
      unfolding BRBech32Decode_def Let_def sep st loop len low ob by simp
    then show ?thesis using prog by simp
  qed
  have "0 \<notin> set hrp" using hrp by (auto simp: valid_hrp_def list_all_iff)
  then have "0 \<notin> set addr" using in_range_chars(5) [OF q32] by (simp add: addr_def)
  with enc la dec show thesis using that by blast
qed


lemma put_quintet_length: "put_quintet j c buf = Some b \<Longrightarrow> length b = length buf"
proof -
  have "or_at k v b0 = Some b1 \<Longrightarrow> length b1 = length b0" for k v b0 b1
    by (auto simp: or_at_def split: if_splits)
  then show "put_quintet j c buf = Some b \<Longrightarrow> length b = length buf"
    unfolding put_quintet_def Let_def by (auto split: option.splits if_splits)
qed

lemma bech32_loop_length:
  "bech32_loop as j chk ver buf = Some (Some (c, v, b)) \<Longrightarrow> length b = length buf"
proof (induction as arbitrary: j chk ver buf)
  case (Cons a as)
  from Cons.prems obtain q where q: "quintet_of (tolower_c a) = Some q" by (auto split: option.splits)
  show ?case
  proof (cases "j = -1 \<or> length (a # as) \<le> 6")
    case True
    then show ?thesis using Cons.prems q Cons.IH by (simp add: Let_def)
  next
    case False
    with Cons.prems q obtain b1 where "put_quintet (nat j) q buf = Some b1"
      by (auto simp: Let_def split: option.splits)
    moreover from this have "length b = length b1"
      using Cons.prems q False by (intro Cons.IH) (simp add: Let_def)
    ultimately show ?thesis using put_quintet_length by metis
  qed
qed simp

section \<open>Properties\<close>

text \<open>
  C18: For a valid human readable part and witness program that fit into the 90 characters of an address,
  encoding returns the address and stays inside of its 91 byte buffer, and decoding
  it gives the human readable part and the program back: the checksum appended makes the decoder's test succeed, and
  the regrouping of bits is undone.
\<close>

theorem Bech32_decode_encode:
  assumes "valid_hrp hrp" "witness_program data" "length hrp + (8 * unat (data ! 1) + 4) div 5 + 8 \<le> 90"
  shows "\<exists>addr. BRBech32Encode hrp data = Some (Some (addr @ [0])) \<and> 0 \<notin> set addr \<and>
    length (addr @ [0]) \<le> 91 \<and> BRBech32Decode addr = Some (Some (hrp @ [0], data))"
proof -
  have "length hrp + 1 + 1 + (8 * unat (data ! 1) + 4) div 5 + 6 \<le> 90" using assms(3) by simp
  from bech32_roundtrip [OF assms(1,2) this] show ?thesis using assms(3) by force
qed

lemma Bech32_decode_encode_witness:
  "\<exists>addr. BRBech32Encode [98, 99] ([0, 20] @ replicate 20 7) = Some (Some (addr @ [0])) \<and>
     BRBech32Decode addr = Some (Some ([98, 99, 0], [0, 20] @ replicate 20 7))"
  using Bech32_decode_encode [of "[98, 99]" "[0, 20] @ replicate 20 7"]
  by (auto simp: valid_hrp_def witness_program_def isupper_c_def)

text \<open>
  Whatever string is decoded, no access leaves the buffers of the decoder, the result has at most 42
  bytes and the human readable part at most 83 characters.
\<close>

theorem Bech32_decode_safe:
  "\<exists>r. BRBech32Decode addr = Some r \<and>
     (case r of None \<Rightarrow> True | Some (hrp, data) \<Rightarrow> length hrp \<le> 84 \<and> 4 \<le> length data \<and> length data \<le> 42)"
proof -
  obtain r where r: "BRBech32Decode addr = Some r" using bech32_decode_safe by blast
  show ?thesis
  proof (cases r)
    case None
    with r show ?thesis by simp
  next
    case (Some hd)
    obtain hrp data where hd: "hd = (hrp, data)" by (rule prod.exhaust)
    let ?sep = "scan_sep 49 addr (length addr)"
    obtain chk ver b where l: "length addr \<le> 90" "?sep + 8 \<le> length addr"
      and lp: "bech32_loop (drop (?sep + 1) addr) (-1) (hrp_checksum (take ?sep addr)) 0xff (replicate 52 0) = Some (Some (chk, ver, b))"
      and n: "2 \<le> (length addr - (?sep + 2 + 6)) * 5 div 8" "(length addr - (?sep + 2 + 6)) * 5 div 8 \<le> 40"
      and h: "hrp = map tolower_c (take ?sep addr) @ [0]"
      and d: "tl (tl data) = take ((length addr - (?sep + 2 + 6)) * 5 div 8) b" "length data = 2 + length (tl (tl data))"
      using r unfolding Some hd BRBech32Decode_def Let_def
      by (auto split: option.splits prod.splits if_splits simp: not_less not_le)
    have "length b = 52" using bech32_loop_length [OF lp] by simp
    then show ?thesis using r l n h d unfolding Some hd by simp
  qed
qed

text \<open>
  The encoder's length test counts the bytes of the program and not the digits they become, so a long human
  readable part passes it and overruns the 91 byte buffer \<open>addr\<close>.
\<close>

theorem Bech32_encode_overrun:
  "valid_hrp (replicate 60 97) \<and> witness_program ([0, 20] @ replicate 20 0) \<and>
   BRBech32Encode (replicate 60 97) ([0, 20] @ replicate 20 0) = None"
proof -
  have w: "witness_program ([0, 20] @ replicate 20 0)" by (simp add: witness_program_def)
  have h: "valid_hrp (replicate 60 97)" by (simp add: valid_hrp_def isupper_c_def list_all_iff)
  have l: "length (to_quintets (take 20 (drop 2 ([0, 20] @ replicate 20 0)))) = 32"
    by (simp add: length_to_quintets)
  have "BRBech32Encode (replicate 60 97) ([0, 20] @ replicate 20 0) = None"
    unfolding BRBech32Encode_def Let_def using l by (simp add: isupper_c_def list_ex_iff)
  with w h show ?thesis by blast
qed

end
