(* ===== verification/Script.thy ===== *)
theory Script
  imports IntBytes
begin

text \<open>
  Variable length integers and the script element functions of BRAddress.c. A pointer into a script is an offset;
  a function that dereferences one returns \<open>None\<close> when it reads past the end of the bytes it was given.
\<close>

section \<open>Variable length integers\<close>

text \<open>
  \<open>BRVarInt\<close>: the value and the length stored in \<open>intLen\<close>. The buffer is \<open>None\<close> for \<open>NULL\<close>.
\<close>

definition BRVarInt :: "byte list option \<Rightarrow> u64 \<times> nat" where
  "BRVarInt buf =
     (let h = (case buf of Some b \<Rightarrow> if 1 \<le> length b then b ! 0 else 0 | None \<Rightarrow> 0);
          tail = (case buf of Some b \<Rightarrow> drop 1 b | None \<Rightarrow> [])
      in if h = 0xfd then (if 2 \<le> length tail then ucast (UInt16GetLE tail) else 0, 1 + 2)
         else if h = 0xfe then (if 4 \<le> length tail then ucast (UInt32GetLE tail) else 0, 1 + 4)
         else if h = 0xff then (if 8 \<le> length tail then UInt64GetLE tail else 0, 1 + 8)
         else (ucast h, 1))"

text \<open>\<open>BRVarIntSet\<close>: what is returned and the bytes written.\<close>

definition varint_bytes :: "u64 \<Rightarrow> byte list" where
  "varint_bytes i =
     (if i < 0xfd then [ucast i]
      else if i \<le> 0xffff then 0xfd # UInt16SetLE (ucast i)
      else if i \<le> 0xffffffff then 0xfe # UInt32SetLE (ucast i)
      else 0xff # UInt64SetLE i)"

definition BRVarIntSet :: "nat option \<Rightarrow> u64 \<Rightarrow> nat \<times> byte list" where
  "BRVarIntSet buf i =
     (let need = (if i < 0xfd then 1 else if i \<le> 0xffff then 1 + 2 else if i \<le> 0xffffffff then 1 + 4 else 1 + 8)
      in case buf of
           None \<Rightarrow> (need, [])
         | Some bufLen \<Rightarrow> if need \<le> bufLen then (need, varint_bytes i) else (0, []))"

definition BRVarIntSize :: "u64 \<Rightarrow> nat" where
  "BRVarIntSize i = fst (BRVarIntSet None i)"

section \<open>Guarded reads of the parsers\<close>

text \<open>
  The parsers read a field at \<open>off\<close> as \<open>(off + n <= bufLen) ? Get(&buf[off]) : 0\<close>, in \<open>size_t\<close> arithmetic. \<open>None\<close> is a read
  outside of the buffer, which the test does not exclude when \<open>off + n\<close> wraps.
\<close>

definition get_field :: "nat \<Rightarrow> (byte list \<Rightarrow> 'a) \<Rightarrow> 'a \<Rightarrow> byte list \<Rightarrow> nat \<Rightarrow> 'a option" where
  "get_field n get dflt buf off =
     (if size_add off n \<le> length buf
      then (if off + n \<le> length buf then Some (get (drop off buf)) else None)
      else Some dflt)"

definition get_u32 :: "byte list \<Rightarrow> nat \<Rightarrow> u32 option" where
  "get_u32 = get_field 4 UInt32GetLE 0"

definition get_u64 :: "byte list \<Rightarrow> nat \<Rightarrow> u64 option" where
  "get_u64 = get_field 8 UInt64GetLE 0"

definition get_u8 :: "byte list \<Rightarrow> nat \<Rightarrow> byte option" where
  "get_u8 = get_field 1 (\<lambda>b. b ! 0) 0"

text \<open>\<open>BRVarInt(&buf[off], (off <= bufLen ? bufLen - off : 0), &len)\<close>\<close>

definition varint_at :: "byte list \<Rightarrow> nat \<Rightarrow> nat \<times> nat" where
  "varint_at buf off = (let (v, len) = BRVarInt (Some (drop off buf)) in (unat v, len))"

lemma get_field_in [codec_simps]:
  "off = length p \<Longrightarrow> length x = n \<Longrightarrow> length p + n + length r < 2 ^ 64 \<Longrightarrow> get_field n get dflt (p @ x @ r) off = Some (get (x @ r))"
  by (simp add: get_field_def size_add_small)

section \<open>Script elements\<close>

abbreviation "OP_0 \<equiv> 0x00 :: byte"
abbreviation "OP_PUSHDATA1 \<equiv> 0x4c :: byte"
abbreviation "OP_PUSHDATA2 \<equiv> 0x4d :: byte"
abbreviation "OP_PUSHDATA4 \<equiv> 0x4e :: byte"
abbreviation "OP_1 \<equiv> 0x51 :: byte"
abbreviation "OP_16 \<equiv> 0x60 :: byte"
abbreviation "OP_DUP \<equiv> 0x76 :: byte"
abbreviation "OP_EQUAL \<equiv> 0x87 :: byte"
abbreviation "OP_EQUALVERIFY \<equiv> 0x88 :: byte"
abbreviation "OP_HASH160 \<equiv> 0xa9 :: byte"
abbreviation "OP_CHECKSIG \<equiv> 0xac :: byte"

text \<open>
  One pass of the loop of \<open>BRScriptElements\<close> at offset \<open>off\<close>: the next offset and the new value of \<open>len\<close>, which
  keeps its old value when a length field is cut off.
\<close>

definition elem_step :: "byte list \<Rightarrow> nat \<Rightarrow> nat \<Rightarrow> nat \<times> nat" where
  "elem_step script off len =
     (let op = script ! off; off = off + 1; n = length script in
      if op = OP_PUSHDATA1 then
        let len = (if off + 1 \<le> n then unat (script ! off) else len) in (off + 1 + len, len)
      else if op = OP_PUSHDATA2 then
        let len = (if off + 2 \<le> n then unat (UInt16GetLE (drop off script)) else len) in (off + 2 + len, len)
      else if op = OP_PUSHDATA4 then
        let len = (if off + 4 \<le> n then unat (UInt32GetLE (drop off script)) else len) in (off + 4 + len, len)
      else let len = (if op > OP_PUSHDATA4 then 0 else unat op) in (off + len, len))"

lemma elem_step_progress: "off < fst (elem_step script off len)"
  by (simp add: elem_step_def Let_def)

text \<open>The loop: the offsets of the elements, and the final \<open>off\<close>.\<close>

function elem_loop :: "byte list \<Rightarrow> nat \<Rightarrow> nat \<Rightarrow> nat list \<times> nat" where
  "elem_loop script off len =
     (if off < length script
      then let (off', len') = elem_step script off len; (os, fin) = elem_loop script off' len' in (off # os, fin)
      else ([], off))"
  by pat_completeness auto
termination
proof (relation "measure (\<lambda>(script, off, len). length script - off)")
  fix script off len x off' len'
  assume "off < length script" "x = elem_step script off len" "(off', len') = x"
  then have "off < off'" using elem_step_progress [of off script len] by (simp add: prod_eq_iff)
  with \<open>off < length script\<close> show "((script, off', len'), (script, off, len)) \<in> measure (\<lambda>(script, off, len). length script - off)"
    by simp
qed simp

declare elem_loop.simps [simp del]

definition BRScriptElements :: "nat option \<Rightarrow> byte list \<Rightarrow> nat \<times> nat list" where
  "BRScriptElements elems script =
     (let (os, off) = elem_loop script 0 0; i = length os in
      case elems of
        None \<Rightarrow> (if off = length script then i else 0, [])
      | Some elemsCount \<Rightarrow> (if i \<le> elemsCount \<and> off = length script then i else 0, take elemsCount os))"

text \<open>\<open>BRScriptData\<close>: the offset of the data from the element, \<open>None\<close> for \<open>NULL\<close>, and \<open>dataLen\<close>.\<close>

definition BRScriptData :: "byte list \<Rightarrow> (nat option \<times> nat) option" where
  "BRScriptData elem =
     (if elem = [] then None
      else
        case (if elem ! 0 = OP_PUSHDATA1 then
                (if 1 + 1 \<le> length elem then Some (2, unat (elem ! 1)) else None)
              else if elem ! 0 = OP_PUSHDATA2 then
                (if 1 + 2 \<le> length elem then Some (3, unat (UInt16GetLE (drop 1 elem))) else None)
              else if elem ! 0 = OP_PUSHDATA4 then
                (if 1 + 4 \<le> length elem then Some (5, unat (UInt32GetLE (drop 1 elem))) else None)
              else Some (1, if elem ! 0 > OP_PUSHDATA4 then 0 else unat (elem ! 0)))
        of None \<Rightarrow> None
        | Some (off, dataLen) \<Rightarrow> Some (if dataLen > 0 then Some off else None, dataLen))"

definition BRScriptPushData :: "nat option \<Rightarrow> byte list \<Rightarrow> nat \<times> byte list" where
  "BRScriptPushData script data =
     (let dataLen = length data;
          header = (if dataLen < 0x4c then [of_nat dataLen]
                    else if dataLen < 0xff then [OP_PUSHDATA1, of_nat dataLen]
                    else if dataLen < 0xffff then OP_PUSHDATA2 # UInt16SetLE (of_nat dataLen)
                    else OP_PUSHDATA4 # UInt32SetLE (of_nat dataLen));
          len = dataLen + length header
      in case script of
           None \<Rightarrow> (len, [])
         | Some scriptLen \<Rightarrow> if len \<le> scriptLen then (len, header @ data) else (0, []))"

section \<open>Variable length integers are read back\<close>

lemma unat_ucast_le:
  fixes w :: "'a::len word"
  assumes "unat w < 2 ^ LENGTH('b::len)"
  shows "unat (ucast w :: 'b word) = unat w"
  using assms by (simp add: unsigned_ucast_eq take_bit_nat_eq_self_iff)

lemma ucast_ucast_id:
  fixes w :: "'a::len word"
  assumes "unat w < 2 ^ LENGTH('b::len)" "LENGTH('b) \<le> LENGTH('a)"
  shows "(ucast (ucast w :: 'b word) :: 'a word) = w"
proof (rule word_unat_eq_iff [THEN iffD2])
  have "unat (ucast w :: 'b word) < 2 ^ LENGTH('a)"
    using assms(2) by (intro less_le_trans [OF unsigned_less] power_increasing) simp_all
  then show "unat (ucast (ucast w :: 'b word) :: 'a word) = unat w"
    by (simp only: unat_ucast_le [OF assms(1)] unat_ucast_le)
qed

lemma length_varint_bytes [simp, len_simps]: "length (varint_bytes i) = BRVarIntSize i"
  by (simp add: varint_bytes_def BRVarIntSize_def BRVarIntSet_def)

lemma varint_read_written: "BRVarInt (Some (varint_bytes i @ r)) = (i, BRVarIntSize i)"
proof -
  have u: "i < 0xfd \<Longrightarrow> unat i < 0xfd" "i \<le> 0xffff \<Longrightarrow> unat i < 2 ^ 16" "i \<le> 0xffffffff \<Longrightarrow> unat i < 2 ^ 32"
    by (auto simp: word_less_nat_alt word_le_nat_alt)
  consider "i < 0xfd" | "\<not> i < 0xfd" "i \<le> 0xffff" | "\<not> i \<le> 0xffff" "i \<le> 0xffffffff" "\<not> i < 0xfd"
    | "\<not> i \<le> 0xffff" "\<not> i \<le> 0xffffffff" "\<not> i < 0xfd"
    by blast
  then show ?thesis
  proof cases
    case 1
    then have n: "unat (ucast i :: byte) = unat i" using u(1) by (intro unat_ucast_le) simp
    have "(ucast i :: byte) \<noteq> 0xfd" "(ucast i :: byte) \<noteq> 0xfe" "(ucast i :: byte) \<noteq> 0xff"
      using n u(1) [OF 1] by (auto dest: arg_cong [where f = unat])
    moreover have "(ucast (ucast i :: byte) :: u64) = i" using u(1) [OF 1] by (intro ucast_ucast_id) simp_all
    ultimately show ?thesis using 1 by (simp add: BRVarInt_def varint_bytes_def BRVarIntSize_def BRVarIntSet_def)
  next
    case 2
    have "(ucast (ucast i :: u16) :: u64) = i" using u(2) [OF 2(2)] by (intro ucast_ucast_id) simp_all
    then show ?thesis using 2
      by (simp add: BRVarInt_def varint_bytes_def BRVarIntSize_def BRVarIntSet_def uint_get_set)
  next
    case 3
    have "(ucast (ucast i :: u32) :: u64) = i" using u(3) [OF 3(2)] by (intro ucast_ucast_id) simp_all
    then show ?thesis using 3
      by (simp add: BRVarInt_def varint_bytes_def BRVarIntSize_def BRVarIntSet_def uint_get_set)
  next
    case 4
    then show ?thesis
      by (simp add: BRVarInt_def varint_bytes_def BRVarIntSize_def BRVarIntSet_def uint_get_set)
  qed
qed

section \<open>What a script element is\<close>

text \<open>One whole element: an opcode, or a push with all of its length field and of its data.\<close>

fun whole_elem :: "byte list \<Rightarrow> bool" where
  "whole_elem [] = False"
| "whole_elem (op # r) =
     (if op = OP_PUSHDATA1 then 1 \<le> length r \<and> length r = 1 + unat (r ! 0)
      else if op = OP_PUSHDATA2 then 2 \<le> length r \<and> length r = 2 + unat (UInt16GetLE r)
      else if op = OP_PUSHDATA4 then 4 \<le> length r \<and> length r = 4 + unat (UInt32GetLE r)
      else if op > OP_PUSHDATA4 then r = [] else length r = unat op)"

fun offsets :: "nat \<Rightarrow> byte list list \<Rightarrow> nat list" where
  "offsets off [] = []"
| "offsets off (e # es) = off # offsets (off + length e) es"

lemma length_offsets [simp]: "length (offsets off es) = length es"
  by (induction es arbitrary: off) simp_all

lemma UInt_GetLE_prefix:
  "2 \<le> length r \<Longrightarrow> UInt16GetLE (r @ s) = UInt16GetLE r" "4 \<le> length r \<Longrightarrow> UInt32GetLE (r @ s) = UInt32GetLE r"
  by (auto simp add: uint_get_defs nth_append)

text \<open>The step at an element, with the script split at its opcode.\<close>

lemma elem_step_at:
  "elem_step (p @ op # t) (length p) len =
     (if op = OP_PUSHDATA1 then
        let len = (if 1 \<le> length t then unat (t ! 0) else len) in (length p + 2 + len, len)
      else if op = OP_PUSHDATA2 then
        let len = (if 2 \<le> length t then unat (UInt16GetLE t) else len) in (length p + 3 + len, len)
      else if op = OP_PUSHDATA4 then
        let len = (if 4 \<le> length t then unat (UInt32GetLE t) else len) in (length p + 5 + len, len)
      else let len = (if op > OP_PUSHDATA4 then 0 else unat op) in (length p + 1 + len, len))"
proof -
  have "drop (length p + 1) (p @ op # t) = t" "(p @ op # t) ! length p = op" "(p @ op # t) ! (length p + 1) = t ! 0"
    by (simp_all add: nth_append)
  then show ?thesis by (auto simp: elem_step_def Let_def)
qed

lemma elem_step_whole:
  assumes "whole_elem e"
  shows "fst (elem_step (p @ e @ s) (length p) len) = length p + length e"
proof (cases e)
  case (Cons op r)
  have "elem_step (p @ e @ s) (length p) len = elem_step (p @ op # (r @ s)) (length p) len" by (simp add: Cons)
  moreover have "length r = Suc n \<Longrightarrow> (r @ s) ! 0 = r ! 0" for n by (cases r) simp_all
  ultimately show ?thesis
    using assms by (auto simp: elem_step_at Let_def Cons UInt_GetLE_prefix split: if_splits)
qed (use assms in simp)

lemma whole_elem_nonempty: "whole_elem e \<Longrightarrow> 0 < length e"
  by (cases e) simp_all

lemma elem_loop_whole:
  assumes "list_all whole_elem es"
  shows "elem_loop (p @ concat es) (length p) len = (offsets (length p) es, length p + length (concat es))"
  using assms
proof (induction es arbitrary: p len)
  case Nil
  then show ?case by (simp add: elem_loop.simps)
next
  case (Cons e es)
  then have e: "whole_elem e" by simp
  obtain off' len' where st: "elem_step (p @ e @ concat es) (length p) len = (off', len')" by (rule prod.exhaust)
  then have off: "off' = length (p @ e)" using elem_step_whole [OF e, of p "concat es" len] by simp
  have "elem_loop ((p @ e) @ concat es) off' len' = (offsets off' es, off' + length (concat es))"
    unfolding off using Cons.prems by (intro Cons.IH) simp
  then have "elem_loop (p @ e @ concat es) off' len' = (offsets off' es, off' + length (concat es))" by simp
  then show ?case
    using whole_elem_nonempty [OF e] st off by (subst elem_loop.simps) simp
qed

lemma elem_step_inside:
  assumes "off < length script" "fst (elem_step script off len) \<le> length script"
  shows "whole_elem (take (fst (elem_step script off len) - off) (drop off script))"
proof -
  obtain p op t where s: "script = p @ op # t" "length p = off"
    using id_take_nth_drop [OF assms(1)] assms(1) by (metis length_take min.absorb4)
  have "take (fst (elem_step script off len) - off) (drop off script) =
      op # take (fst (elem_step script off len) - off - 1) t"
    using elem_step_progress [of off script len] s by (cases "fst (elem_step script off len) - off") auto
  then show ?thesis
    using assms(2) UInt_GetLE_prefix [of "take n t" "drop n t" for n]
    unfolding s(1) s(2) [symmetric] elem_step_at
    by (auto simp: Let_def uint_get_defs split: if_splits)
qed

lemma elem_loop_end: "off \<ge> length script \<Longrightarrow> elem_loop script off len = ([], off)"
  by (simp add: elem_loop.simps)

lemma elem_loop_parses:
  assumes "snd (elem_loop script off len) = length script" "off \<le> length script"
  shows "\<exists>es. drop off script = concat es \<and> list_all whole_elem es \<and> fst (elem_loop script off len) = offsets off es"
  using assms
proof (induction script off len rule: elem_loop.induct)
  case (1 script off len)
  show ?case
  proof (cases "off < length script")
    case True
    obtain off' len' where st: "elem_step script off len = (off', len')" by (rule prod.exhaust)
    obtain os fin where lp: "elem_loop script off' len' = (os, fin)" by (rule prod.exhaust)
    have lp0: "elem_loop script off len = (off # os, fin)" using True st lp by (subst elem_loop.simps) simp
    then have fin: "fin = length script" using 1(2) by simp
    have le: "off' \<le> length script" using elem_loop_end [of script off' len'] lp fin by (cases "off' \<le> length script") auto
    have prog: "off < off'" using elem_step_progress [of off script len] st by simp
    obtain es where es: "drop off' script = concat es" "list_all whole_elem es" "os = offsets off' es"
      using 1(1) [OF True st [symmetric] refl] lp fin le by auto
    let ?e = "take (off' - off) (drop off script)"
    have "whole_elem ?e" using elem_step_inside [OF True, of len] st le by simp
    moreover have "drop off script = ?e @ drop off' script"
      using prog by (metis append_take_drop_id drop_drop le_add_diff_inverse2 less_imp_le)
    moreover have "length ?e = off' - off" using le by simp
    ultimately have "drop off script = concat (?e # es)" "list_all whole_elem (?e # es)"
      "fst (elem_loop script off len) = offsets off (?e # es)"
      using es lp0 prog by simp_all
    then show ?thesis by blast
  next
    case False
    with 1(3) have "drop off script = concat []" "fst (elem_loop script off len) = offsets off []"
      by (simp_all add: elem_loop_end)
    moreover have "list_all whole_elem []" by simp
    ultimately show ?thesis by blast
  qed
qed

lemma BRScriptElements_whole:
  assumes "list_all whole_elem es" "length es \<le> n"
  shows "BRScriptElements (Some n) (concat es) = (length es, offsets 0 es)"
  using elem_loop_whole [OF assms(1), of "[]" 0] assms(2) by (simp add: BRScriptElements_def)

lemma BRScriptElements_count:
  "BRScriptElements None script = (fst (BRScriptElements (Some (length (fst (elem_loop script 0 0)))) script), [])"
  by (simp add: BRScriptElements_def split: prod.splits)

section \<open>Data pushes\<close>

lemma of_nat_small_ne:
  assumes "n < 2 ^ LENGTH('a::len)"
  shows "unat (of_nat n :: 'a word) = n"
  using assms by (simp add: unat_of_nat take_bit_nat_eq_self_iff)

lemma BRScriptData_whole:
  assumes "whole_elem e"
  shows "\<exists>off n. BRScriptData (e @ r) = Some (if n > 0 then Some off else None, n) \<and> off + n = length e"
proof (cases e)
  case (Cons op t)
  have "length t = Suc n \<Longrightarrow> (t @ r) ! 0 = t ! 0" for n by (cases t) simp_all
  then show ?thesis using assms
    by (auto simp: Cons BRScriptData_def UInt_GetLE_prefix split: if_splits)
qed (use assms in simp)

lemma push_whole:
  assumes "length d < 2 ^ 32"
  defines "e \<equiv> snd (BRScriptPushData (Some (fst (BRScriptPushData None d))) d)"
  shows "whole_elem e \<and> length e = fst (BRScriptPushData None d) \<and>
    (\<exists>off. BRScriptData (e @ r) = Some (if d = [] then None else Some off, length d) \<and>
           mem_read (e @ r) off (length d) = Some d)"
proof -
  have u: "length d < 0xff \<Longrightarrow> unat (of_nat (length d) :: byte) = length d"
    "length d < 0xffff \<Longrightarrow> unat (of_nat (length d) :: u16) = length d"
    "unat (of_nat (length d) :: u32) = length d"
    using assms(1) by (simp_all add: of_nat_small_ne)
  consider "length d < 0x4c" | "\<not> length d < 0x4c" "length d < 0xff" | "\<not> length d < 0xff" "length d < 0xffff"
    | "\<not> length d < 0xffff" by linarith
  then show ?thesis
  proof cases
    case 1
    then have n: "unat (of_nat (length d) :: byte) = length d" using u(1) by simp
    have op: "\<not> OP_PUSHDATA4 < (of_nat (length d) :: byte)" "(of_nat (length d) :: byte) \<noteq> OP_PUSHDATA1"
      "(of_nat (length d) :: byte) \<noteq> OP_PUSHDATA2" "(of_nat (length d) :: byte) \<noteq> OP_PUSHDATA4"
      using n 1 by (auto simp: word_less_nat_alt dest: arg_cong [where f = unat])
    have e: "e = of_nat (length d) # d" using 1 by (simp add: e_def BRScriptPushData_def Let_def)
    have "mem_read (e @ r) 1 (length d) = Some d" unfolding e by (simp add: mem_read_def)
    then show ?thesis unfolding e using n op 1 by (auto simp: BRScriptData_def BRScriptPushData_def Let_def)
  next
    case 2
    then have n: "unat (of_nat (length d) :: byte) = length d" using u(1) by simp
    have e: "e = OP_PUSHDATA1 # of_nat (length d) # d" using 2 by (simp add: e_def BRScriptPushData_def Let_def)
    have "mem_read (e @ r) 2 (length d) = Some d" unfolding e by (simp add: mem_read_def)
    then show ?thesis unfolding e using n 2 by (auto simp: BRScriptData_def BRScriptPushData_def Let_def)
  next
    case 3
    have e: "e = OP_PUSHDATA2 # UInt16SetLE (of_nat (length d)) @ d" using 3 by (simp add: e_def BRScriptPushData_def Let_def)
    have "mem_read (e @ r) 3 (length d) = Some d" unfolding e by (simp add: mem_read_def)
    then show ?thesis unfolding e using u(2) [OF 3(2)] 3
      by (auto simp: BRScriptData_def BRScriptPushData_def Let_def uint_get_set)
  next
    case 4
    have e: "e = OP_PUSHDATA4 # UInt32SetLE (of_nat (length d)) @ d" using 4 by (simp add: e_def BRScriptPushData_def Let_def)
    have "mem_read (e @ r) 5 (length d) = Some d" unfolding e by (simp add: mem_read_def)
    then show ?thesis unfolding e using u(3) 4
      by (auto simp: BRScriptData_def BRScriptPushData_def Let_def uint_get_set)
  qed
qed

lemma script_elements_split:
  assumes "fst (BRScriptElements None script) = n" "0 < n"
  shows "\<exists>es. list_all whole_elem es \<and> script = concat es \<and> length es = n \<and>
    BRScriptElements (Some n) script = (n, offsets 0 es)"
proof -
  have end0: "snd (elem_loop script 0 0) = length script" and len: "length (fst (elem_loop script 0 0)) = n"
    using assms by (auto simp: BRScriptElements_def split: prod.splits if_splits)
  from elem_loop_parses [OF end0] obtain es where
    es: "script = concat es" "list_all whole_elem es" "fst (elem_loop script 0 0) = offsets 0 es" by auto
  then have "length es = n" using len by simp
  with es BRScriptElements_whole [of es n] show ?thesis by auto
qed

section \<open>Properties\<close>

text \<open>
  A variable length integer is read back from what was written for it, whatever follows in the buffer; the
  size query gives the number of bytes written and consumed; and a buffer that is too small is left alone.
\<close>

theorem varint_roundtrip:
  "let (n, b) = BRVarIntSet (Some (BRVarIntSize i)) i
   in n = BRVarIntSize i \<and> length b = n \<and> BRVarInt (Some (b @ r)) = (i, n) \<and>
      (\<forall>m. BRVarIntSet (Some m) i = (if n \<le> m then (n, b) else (0, [])))"
proof -
  have "BRVarIntSet (Some m) i = (if BRVarIntSize i \<le> m then (BRVarIntSize i, varint_bytes i) else (0, []))" for m
    by (simp add: BRVarIntSet_def BRVarIntSize_def Let_def)
  then show ?thesis by (simp add: varint_read_written)
qed

text \<open>
  \<open>BRScriptElements\<close> splits a script into whole elements and nothing else: a script has the result \<open>n > 0\<close>
  exactly when it is the concatenation of \<open>n\<close> whole opcodes and data pushes, whose offsets are then stored; a
  script with a cut off push gives 0.
\<close>

theorem script_elements_partition:
  "fst (BRScriptElements None script) = n \<and> 0 < n \<longleftrightarrow>
     (\<exists>es. list_all whole_elem es \<and> concat es = script \<and> length es = n \<and> 0 < n \<and>
           BRScriptElements (Some n) script = (n, offsets 0 es))"
proof
  assume n: "fst (BRScriptElements None script) = n \<and> 0 < n"
  then show "\<exists>es. list_all whole_elem es \<and> concat es = script \<and> length es = n \<and> 0 < n \<and>
      BRScriptElements (Some n) script = (n, offsets 0 es)"
    using script_elements_split [of script n] by metis
next
  assume "\<exists>es. list_all whole_elem es \<and> concat es = script \<and> length es = n \<and> 0 < n \<and>
      BRScriptElements (Some n) script = (n, offsets 0 es)"
  then obtain es where es: "list_all whole_elem es" "concat es = script" "length es = n" "0 < n" by blast
  have "fst (elem_loop script 0 0) = offsets 0 es" using elem_loop_whole [OF es(1), of "[]" 0] es(2) by simp
  then have "length (fst (elem_loop script 0 0)) = n" using es(3) by simp
  with BRScriptElements_count [of script] BRScriptElements_whole [OF es(1), of n] es
  show "fst (BRScriptElements None script) = n \<and> 0 < n" by simp
qed

text \<open>
  What \<open>BRScriptPushData\<close> writes for any data of less than \<open>2 ^ 32\<close> bytes is one whole script element, of the
  size its length query announced, and \<open>BRScriptData\<close> finds the data in it again, in any script it is part of.
\<close>

theorem script_push_roundtrip:
  assumes "length d < 2 ^ 32"
  shows "let (n, e) = BRScriptPushData (Some (fst (BRScriptPushData None d))) d
     in n = length e \<and> whole_elem e \<and>
        (\<exists>off. BRScriptData (e @ r) = Some (if d = [] then None else Some off, length d) \<and>
               mem_read (e @ r) off (length d) = Some d)"
proof -
  have "fst (BRScriptPushData (Some (fst (BRScriptPushData None d))) d) = fst (BRScriptPushData None d)"
    by (simp add: BRScriptPushData_def Let_def)
  with push_whole [OF assms, of r] show ?thesis by (simp add: case_prod_beta)
qed

lemma script_push_roundtrip_witness:
  "whole_elem (snd (BRScriptPushData (Some 4) [1, 2, 3]))"
  using script_push_roundtrip [of "[1, 2, 3]" "[]"] by (simp add: BRScriptPushData_def Let_def)

end
