(* ===== verification/Address.thy ===== *)
theory Address
  imports Script Base58 Bech32
begin

text \<open>
  The address functions of BRAddress.c. The flag \<open>tn\<close> is the compile time switch \<open>BITCOIN_TESTNET\<close>. A result is
  \<open>None\<close> when the code would leave one of its memory objects, and otherwise the returned length with the bytes
  written to the output.
\<close>

definition MAX_SCRIPT_LENGTH :: nat where
  "MAX_SCRIPT_LENGTH = 0x100"

definition pubkey_address :: "bool \<Rightarrow> byte" where
  "pubkey_address tn = (if tn then 111 else 0)"

definition script_address :: "bool \<Rightarrow> byte" where
  "script_address tn = (if tn then 196 else 5)"

definition bech32_prefix :: "bool \<Rightarrow> byte list" where
  "bech32_prefix tn = (if tn then [116, 98] else [98, 99])"

text \<open>\<open>memcpy(dst, BRScriptData(elem, &l), n)\<close> and the data \<open>(d, l)\<close> of an element at offset \<open>e\<close> of a script.\<close>

definition copy_data :: "byte list \<Rightarrow> nat \<Rightarrow> nat \<Rightarrow> byte list option" where
  "copy_data script e n =
     (case BRScriptData (drop e script) of Some (Some off, l) \<Rightarrow> mem_read script (e + off) n | _ \<Rightarrow> None)"

definition elem_data :: "byte list \<Rightarrow> nat \<Rightarrow> byte list option option" where
  "elem_data script e =
     (case BRScriptData (drop e script) of
        None \<Rightarrow> None
      | Some (None, l) \<Rightarrow> Some None
      | Some (Some off, l) \<Rightarrow> (case mem_read script (e + off) l of None \<Rightarrow> None | Some d \<Rightarrow> Some (Some d)))"

definition BRAddressFromScriptPubKey :: "bool \<Rightarrow> nat option \<Rightarrow> byte list \<Rightarrow> (nat \<times> byte list) option" where
  "BRAddressFromScriptPubKey tn addr script =
     (if length script = 0 \<or> length script > MAX_SCRIPT_LENGTH then Some (0, [])
      else
        let n = fst (BRScriptElements None script);
            (count, elems) = BRScriptElements (Some n) script;
            op = (\<lambda>i. script ! (elems ! i))
        in if count = 5 \<and> op 0 = OP_DUP \<and> op 1 = OP_HASH160 \<and> op 2 = 20 \<and> op 3 = OP_EQUALVERIFY \<and> op 4 = OP_CHECKSIG then
             (case copy_data script (elems ! 2) 20 of
                None \<Rightarrow> None
              | Some d \<Rightarrow> Some (BRBase58CheckEncode addr (pubkey_address tn # d)))
           else if count = 3 \<and> op 0 = OP_HASH160 \<and> op 1 = 20 \<and> op 2 = OP_EQUAL then
             (case copy_data script (elems ! 1) 20 of
                None \<Rightarrow> None
              | Some d \<Rightarrow> Some (BRBase58CheckEncode addr (script_address tn # d)))
           else if count = 2 \<and> (op 0 = 65 \<or> op 0 = 33) \<and> op 1 = OP_CHECKSIG then
             (case elem_data script (elems ! 0) of
                Some (Some d) \<Rightarrow> Some (BRBase58CheckEncode addr (pubkey_address tn # BRHash160 d))
              | _ \<Rightarrow> None)
           else if count = 2 \<and> ((op 0 = OP_0 \<and> (op 1 = 20 \<or> op 1 = 32)) \<or>
                   (OP_1 \<le> op 0 \<and> op 0 \<le> OP_16 \<and> 2 \<le> op 1 \<and> op 1 \<le> 40)) then
             (case BRBech32Encode (bech32_prefix False) script of
                None \<Rightarrow> None
              | Some r \<Rightarrow>
                  case (if tn then BRBech32Encode (bech32_prefix True) script else Some r) of
                    None \<Rightarrow> None
                  | Some r \<Rightarrow>
                      let a = (case r of None \<Rightarrow> [] | Some a \<Rightarrow> a) in
                      Some (case addr of
                              None \<Rightarrow> (length a, [])
                            | Some addrLen \<Rightarrow> if length a > addrLen then (0, []) else (length a, a)))
           else Some (0, []))"

definition BRAddressFromScriptSig :: "bool \<Rightarrow> nat option \<Rightarrow> byte list \<Rightarrow> (nat \<times> byte list) option" where
  "BRAddressFromScriptSig tn addr script =
     (if length script = 0 \<or> length script > MAX_SCRIPT_LENGTH then Some (0, [])
      else
        let n = fst (BRScriptElements None script);
            (count, elems) = BRScriptElements (Some n) script;
            op = (\<lambda>i. script ! (elems ! i));
            finish = (\<lambda>ver d. Some (case d of None \<Rightarrow> (0, []) | Some d \<Rightarrow> BRBase58CheckEncode addr (ver # BRHash160 d)))
        in if count \<ge> 2 \<and> op (count - 2) \<le> OP_PUSHDATA4 \<and> (op (count - 1) = 65 \<or> op (count - 1) = 33) then
             (case elem_data script (elems ! (count - 1)) of
                None \<Rightarrow> None
              | Some d \<Rightarrow> finish (pubkey_address tn)
                  (case d of Some d \<Rightarrow> if length d \<noteq> 65 \<and> length d \<noteq> 33 then None else Some d | None \<Rightarrow> None))
           else if count \<ge> 2 \<and> op (count - 2) \<le> OP_PUSHDATA4 \<and> op (count - 1) \<le> OP_PUSHDATA4 \<and> op (count - 1) > 0 then
             (case elem_data script (elems ! (count - 1)) of
                None \<Rightarrow> None
              | Some d \<Rightarrow> finish (script_address tn) d)
           else Some (0, []))"

text \<open>\<open>BRAddressFromWitness\<close> is not implemented by the code.\<close>

definition BRAddressFromWitness :: "nat option \<Rightarrow> byte list \<Rightarrow> nat \<times> byte list" where
  "BRAddressFromWitness addr witness = (0, [])"

text \<open>
  The script template of an address, as the code writes it byte by byte. \<open>data\<close> is \<open>data[42]\<close>; the outer option is
  the fault of the Bech32 decoder, which cannot happen.
\<close>

definition put_script :: "nat option \<Rightarrow> byte list \<Rightarrow> nat \<times> byte list" where
  "put_script script s =
     (case script of
        None \<Rightarrow> (length s, [])
      | Some scriptLen \<Rightarrow> if length s \<le> scriptLen then (length s, s) else (0, []))"

definition BRAddressScriptPubKey :: "bool \<Rightarrow> nat option \<Rightarrow> byte list \<Rightarrow> (nat \<times> byte list) option" where
  "BRAddressScriptPubKey tn script addr =
     (let (len, data) = BRBase58CheckDecode (Some 42) addr in
      if len = 21 then
        Some (if data ! 0 = pubkey_address tn then
                put_script script ([OP_DUP, OP_HASH160, 20] @ take 20 (drop 1 data) @ [OP_EQUALVERIFY, OP_CHECKSIG])
              else if data ! 0 = script_address tn then
                put_script script ([OP_HASH160, 20] @ take 20 (drop 1 data) @ [OP_EQUAL])
              else (0, []))
      else
        case BRBech32Decode addr of
          None \<Rightarrow> None
        | Some None \<Rightarrow> Some (0, [])
        | Some (Some (hrp, data)) \<Rightarrow>
            Some (if length data > 2 \<and> hrp = bech32_prefix tn @ [0] \<and> (data ! 0 \<noteq> OP_0 \<or> data ! 1 = 20 \<or> data ! 1 = 32)
                  then put_script script data else (0, [])))"

definition BRAddressIsValid :: "bool \<Rightarrow> byte list \<Rightarrow> bool option" where
  "BRAddressIsValid tn addr =
     (let (len, data) = BRBase58CheckDecode (Some 42) addr in
      if len = 21 then Some (data ! 0 = pubkey_address tn \<or> data ! 0 = script_address tn)
      else
        case BRBech32Decode addr of
          None \<Rightarrow> None
        | Some None \<Rightarrow> Some False
        | Some (Some (hrp, data)) \<Rightarrow>
            Some (length data > 2 \<and> hrp = bech32_prefix tn @ [0] \<and> (data ! 0 \<noteq> OP_0 \<or> data ! 1 = 20 \<or> data ! 1 = 32)))"

text \<open>The 20 byte hash, when the function returns true; its buffer has 21 bytes.\<close>

definition BRAddressHash160 :: "byte list \<Rightarrow> byte list option" where
  "BRAddressHash160 addr =
     (let (len, data) = BRBase58CheckDecode (Some 21) addr
      in if len = 21 then Some (take 20 (drop 1 data)) else None)"

definition BRAddressHash :: "byte list \<Rightarrow> u32" where
  "BRAddressHash addr = BRMurmur3_32 addr 0"

text \<open>\<open>strncmp\<close> over the 75 bytes of a \<open>BRAddress\<close>.\<close>

definition BRAddressEq :: "byte list \<Rightarrow> byte list \<Rightarrow> bool" where
  "BRAddressEq addr other \<longleftrightarrow> take 75 (addr @ [0]) = take 75 (other @ [0])"

section \<open>Elements inside of a script\<close>

lemma offsets_nth:
  "i < length es \<Longrightarrow> offsets off es ! i = off + length (concat (take i es))"
proof (induction es arbitrary: off i)
  case (Cons e es)
  then show ?case by (cases i) simp_all
qed simp

lemma drop_concat_take: "drop (length (concat (take i es))) (concat es) = concat (drop i es)"
  by (metis append_eq_conv_conj append_take_drop_id concat_append)

lemma elem_at:
  assumes "list_all whole_elem es" "i < length es"
  shows "drop (offsets 0 es ! i) (concat es) = es ! i @ concat (drop (Suc i) es)"
    "concat es ! (offsets 0 es ! i) = es ! i ! 0" "whole_elem (es ! i)" "offsets 0 es ! i + length (es ! i) \<le> length (concat es)"
proof -
  show d: "drop (offsets 0 es ! i) (concat es) = es ! i @ concat (drop (Suc i) es)"
    using assms(2) by (simp add: offsets_nth drop_concat_take Cons_nth_drop_Suc [symmetric])
  show w: "whole_elem (es ! i)" using assms by (simp add: list_all_length)
  then have "es ! i \<noteq> []" by auto
  then have ne: "0 < length (drop (offsets 0 es ! i) (concat es))" unfolding d by simp
  have "concat es ! (offsets 0 es ! i) = hd (drop (offsets 0 es ! i) (concat es))"
    using ne by (simp add: hd_drop_conv_nth)
  also have "\<dots> = es ! i ! 0" unfolding d using \<open>es ! i \<noteq> []\<close> by (metis hd_append2 hd_conv_nth)
  finally show "concat es ! (offsets 0 es ! i) = es ! i ! 0" .
  show "offsets 0 es ! i + length (es ! i) \<le> length (concat es)"
    using arg_cong [OF d, of length] ne unfolding length_drop length_append by linarith
qed

lemma elements_of:
  assumes "fst (BRScriptElements None script) = n" "0 < n"
  obtains es where "list_all whole_elem es" "script = concat es" "length es = n"
    "BRScriptElements (Some n) script = (n, offsets 0 es)"
  using script_elements_split [OF assms] that by blast

text \<open>The data of a whole element; a direct push of \<open>n\<close> bytes has them behind its opcode.\<close>

lemma elem_data_ok:
  assumes "list_all whole_elem es" "i < length es"
  shows "elem_data (concat es) (offsets 0 es ! i) \<noteq> None"
proof -
  note d = elem_at [OF assms]
  obtain off n where o: "BRScriptData (es ! i @ concat (drop (Suc i) es)) = Some (if n > 0 then Some off else None, n)"
    "off + n = length (es ! i)" using BRScriptData_whole [OF d(3)] by blast
  have "mem_read (concat es) (offsets 0 es ! i + off) n \<noteq> None" using d(4) o(2) by (simp add: mem_read_def)
  then show ?thesis using o(1) by (auto simp: elem_data_def d(1))
qed

lemma direct_push:
  assumes "whole_elem e" "e ! 0 = op" "op < OP_PUSHDATA1"
  obtains d where "e = op # d" "length d = unat op"
proof (cases e)
  case (Cons a r)
  with assms that [of r] show thesis by (auto simp: word_less_nat_alt split: if_splits)
qed (use assms in simp)

lemma direct_data:
  assumes "list_all whole_elem es" "i < length es" "es ! i = op # d" "length d = unat op" "0 < op" "op < OP_PUSHDATA1"
  shows "elem_data (concat es) (offsets 0 es ! i) = Some (Some d)"
    "copy_data (concat es) (offsets 0 es ! i) (unat op) = Some d"
proof -
  note d = elem_at [OF assms(1,2)]
  have n: "op \<noteq> OP_PUSHDATA1" "op \<noteq> OP_PUSHDATA2" "op \<noteq> OP_PUSHDATA4" "\<not> op > OP_PUSHDATA4" "0 < unat op"
    using assms(5,6) by (auto simp: word_less_nat_alt unat_gt_0)
  have b: "BRScriptData (drop (offsets 0 es ! i) (concat es)) = Some (Some 1, unat op)"
    unfolding d(1) assms(3) using n by (simp add: BRScriptData_def)
  have "mem_read (concat es) (offsets 0 es ! i + 1) (unat op) = Some d"
  proof -
    have "drop (offsets 0 es ! i + 1) (concat es) = d @ concat (drop (Suc i) es)"
      using d(1) unfolding assms(3) by (metis Cons_eq_appendI drop_Suc_Cons drop_drop drop0 One_nat_def add.commute)
    then show ?thesis using d(4) assms(3,4) by (simp add: mem_read_def)
  qed
  with b show "elem_data (concat es) (offsets 0 es ! i) = Some (Some d)"
    "copy_data (concat es) (offsets 0 es ! i) (unat op) = Some d"
    by (simp_all add: elem_data_def copy_data_def)
qed

section \<open>No script makes the code leave its buffers\<close>

lemma concat2: "length es = 2 \<Longrightarrow> concat es = es ! 0 @ es ! 1"
  by (cases es; cases "tl es") auto

lemma byte_le: "a \<le> b \<longleftrightarrow> unat a \<le> unat b" "a < b \<longleftrightarrow> unat a < unat b" for a b :: byte
  by (simp_all add: word_le_nat_alt word_less_nat_alt)

lemma witness_script:
  assumes "list_all whole_elem es" "length es = 2"
    and op: "(es ! 0 ! 0 = OP_0 \<and> (es ! 1 ! 0 = 20 \<or> es ! 1 ! 0 = 32)) \<or>
      (OP_1 \<le> es ! 0 ! 0 \<and> es ! 0 ! 0 \<le> OP_16 \<and> 2 \<le> es ! 1 ! 0 \<and> es ! 1 ! 0 \<le> 40)"
  shows "witness_program (concat es)"
proof -
  have w: "whole_elem (es ! 0)" "whole_elem (es ! 1)" using assms(1,2) by (auto simp: list_all_length)
  have e0: "es ! 0 = [es ! 0 ! 0]"
  proof (cases "es ! 0")
    case (Cons a r)
    then have "a = 0 \<or> OP_1 \<le> a" using op by auto
    then have "a = 0 \<or> a > OP_PUSHDATA4 \<and> a \<noteq> OP_PUSHDATA1 \<and> a \<noteq> OP_PUSHDATA2 \<and> a \<noteq> OP_PUSHDATA4"
      by (auto simp: byte_le)
    with w(1) Cons show ?thesis by auto
  qed (use w in simp)
  have r: "2 \<le> es ! 1 ! 0" "es ! 1 ! 0 \<le> 40" using op by auto
  then have "es ! 1 ! 0 < OP_PUSHDATA1" by (auto simp: byte_le)
  from direct_push [OF w(2) refl this] obtain d where d: "es ! 1 = es ! 1 ! 0 # d" "length d = unat (es ! 1 ! 0)" .
  have "concat es = [es ! 0 ! 0, es ! 1 ! 0] @ d"
    using concat2 [OF assms(2)] e0 d(1) by (metis append_Cons append_Nil)
  then show ?thesis using d(2) r op by (auto simp: witness_program_def)
qed

lemma bech32_script_encode:
  assumes "witness_program script"
  obtains addr where "BRBech32Encode (bech32_prefix tn) script = Some (Some (addr @ [0]))" "0 \<notin> set addr" "length addr \<le> 90"
    "length addr = 10 + (8 * unat (script ! 1) + 4) div 5"
    "BRBech32Decode addr = Some (Some (bech32_prefix tn @ [0], script))"
proof -
  have h: "valid_hrp (bech32_prefix tn)" by (simp add: valid_hrp_def bech32_prefix_def isupper_c_def)
  have l: "length (bech32_prefix tn) = 2" by (simp add: bech32_prefix_def)
  have "unat (script ! 1) \<le> 40" using assms by (auto simp: witness_program_def byte_le)
  then have room: "length (bech32_prefix tn) + 1 + 1 + (8 * unat (script ! 1) + 4) div 5 + 6 \<le> 90" unfolding l by simp
  from bech32_roundtrip [OF h assms this] obtain addr where
    "BRBech32Encode (bech32_prefix tn) script = Some (Some (addr @ [0]))" "0 \<notin> set addr"
    "length addr = length (bech32_prefix tn) + 1 + 1 + (8 * unat (script ! 1) + 4) div 5 + 6"
    "BRBech32Decode addr = Some (Some (bech32_prefix tn @ [0], script))" .
  with that room l show thesis by simp
qed

text \<open>The shape of every result.\<close>

definition fits :: "nat option \<Rightarrow> nat \<times> byte list \<Rightarrow> bool" where
  "fits out r = (case out of None \<Rightarrow> snd r = [] | Some n \<Rightarrow> length (snd r) = fst r \<and> fst r \<le> n)"

lemma fits_zero [simp]: "fits out (0, [])"
  by (simp add: fits_def split: option.splits)

lemma fits_check_encode [simp]: "fits out (BRBase58CheckEncode out d)"
  by (auto simp: fits_def check_encode_form split: option.splits)

lemma fits_put_script [simp]: "fits out (put_script out s)"
  by (auto simp: fits_def put_script_def split: option.splits)

text \<open>The cases of \<open>BRAddressFromScriptPubKey\<close> by the number of elements.\<close>

definition p2wpkh :: "byte \<Rightarrow> byte \<Rightarrow> bool" where
  "p2wpkh a b \<longleftrightarrow> (a = OP_0 \<and> (b = 20 \<or> b = 32)) \<or> (OP_1 \<le> a \<and> a \<le> OP_16 \<and> 2 \<le> b \<and> b \<le> 40)"

lemma FromScriptPubKey_cases:
  assumes "list_all whole_elem es" "script = concat es" "es \<noteq> []" "length script \<le> MAX_SCRIPT_LENGTH"
  defines "op \<equiv> \<lambda>i. es ! i ! 0" and "n \<equiv> length es" and "off \<equiv> \<lambda>i. offsets 0 es ! i"
  shows "BRAddressFromScriptPubKey tn addr script =
    (if n = 5 \<and> op 0 = OP_DUP \<and> op 1 = OP_HASH160 \<and> op 2 = 20 \<and> op 3 = OP_EQUALVERIFY \<and> op 4 = OP_CHECKSIG then
       map_option (\<lambda>d. BRBase58CheckEncode addr (pubkey_address tn # d)) (copy_data script (off 2) 20)
     else if n = 3 \<and> op 0 = OP_HASH160 \<and> op 1 = 20 \<and> op 2 = OP_EQUAL then
       map_option (\<lambda>d. BRBase58CheckEncode addr (script_address tn # d)) (copy_data script (off 1) 20)
     else if n = 2 \<and> (op 0 = 65 \<or> op 0 = 33) \<and> op 1 = OP_CHECKSIG then
       (case elem_data script (off 0) of
          Some (Some d) \<Rightarrow> Some (BRBase58CheckEncode addr (pubkey_address tn # BRHash160 d)) | _ \<Rightarrow> None)
     else if n = 2 \<and> p2wpkh (op 0) (op 1) then
       (case BRBech32Encode (bech32_prefix False) script of
          None \<Rightarrow> None
        | Some r \<Rightarrow> map_option (\<lambda>r. let a = (case r of None \<Rightarrow> [] | Some a \<Rightarrow> a) in
             case addr of None \<Rightarrow> (length a, []) | Some m \<Rightarrow> if length a > m then (0, []) else (length a, a))
             (if tn then BRBech32Encode (bech32_prefix True) script else Some r))
     else Some (0, []))"
proof -
  have el: "fst (BRScriptElements None script) = n" "BRScriptElements (Some n) script = (n, offsets 0 es)"
    using BRScriptElements_whole [OF assms(1), of n] elem_loop_whole [OF assms(1), of "[]" 0]
    by (simp_all add: BRScriptElements_def assms(2) n_def)
  have ne: "\<not> (length script = 0 \<or> MAX_SCRIPT_LENGTH < length script)"
    using assms(1,3,4) unfolding assms(2) by (cases es) (auto dest: whole_elem_nonempty)
  have o: "script ! off i = op i" if "i < n" for i
    using elem_at(2) [OF assms(1)] that by (simp add: assms(2) n_def off_def op_def)
  note unf = BRAddressFromScriptPubKey_def Let_def el prod.case if_not_P [OF ne] off_def [symmetric]
  consider "n = 5" | "n = 3" | "n = 2" | "n \<noteq> 5 \<and> n \<noteq> 3 \<and> n \<noteq> 2" by blast
  then show ?thesis
  proof cases
    case 1
    then have i: "0 < n" "1 < n" "2 < n" "3 < n" "4 < n" by simp_all
    have m: "n \<noteq> 3" "n \<noteq> 2" using 1 by simp_all
    show ?thesis unfolding unf i [THEN o] using 1 m
      by (simp only: simp_thms if_False map_option_case cong: if_cong)
  next
    case 2
    then have i: "0 < n" "1 < n" "2 < n" by simp_all
    have m: "n \<noteq> 5" "n \<noteq> 2" using 2 by simp_all
    show ?thesis unfolding unf i [THEN o] using 2 m
      by (simp only: simp_thms if_False map_option_case cong: if_cong)
  next
    case 3
    then have i: "0 < n" "1 < n" by simp_all
    have m: "n \<noteq> 5" "n \<noteq> 3" using 3 by simp_all
    show ?thesis unfolding unf i [THEN o] using 3 m
      by (simp only: simp_thms if_False p2wpkh_def map_option_case Let_def cong: if_cong)
  next
    case 4
    then show ?thesis unfolding unf by (simp only: simp_thms if_False cong: if_cong)
  qed
qed

lemma FromScriptPubKey_none:
  assumes "length script = 0 \<or> length script > MAX_SCRIPT_LENGTH \<or> fst (BRScriptElements None script) = 0"
  shows "BRAddressFromScriptPubKey tn addr script = Some (0, [])" "BRAddressFromScriptSig tn addr script = Some (0, [])"
  using assms unfolding BRAddressFromScriptPubKey_def BRAddressFromScriptSig_def
  by (auto simp: BRScriptElements_def Let_def split: prod.splits)

lemma push_at:
  assumes "list_all whole_elem es" "i < length es" "es ! i ! 0 = op" "0 < op" "op < OP_PUSHDATA1"
  shows "\<exists>d. copy_data (concat es) (offsets 0 es ! i) (unat op) = Some d \<and> length d = unat op \<and>
     elem_data (concat es) (offsets 0 es ! i) = Some (Some d)"
proof -
  obtain d where d: "es ! i = op # d" "length d = unat op"
    using direct_push [OF elem_at(3) [OF assms(1,2)] assms(3,5)] .
  with direct_data [OF assms(1,2) d assms(4,5)] show ?thesis by blast
qed

lemma safe_if:
  assumes "A \<Longrightarrow> \<exists>r. x = Some r \<and> fits addr r" "\<not> A \<Longrightarrow> \<exists>r. y = Some r \<and> fits addr r"
  shows "\<exists>r. (if A then x else y) = Some r \<and> fits addr r"
  using assms by (cases A) simp_all

lemma safe_some: "fits addr x \<Longrightarrow> \<exists>r. Some x = Some r \<and> fits addr r"
  by simp

lemma safe_map:
  assumes "m \<noteq> None" "\<And>d. fits addr (g d)"
  shows "\<exists>r. map_option g m = Some r \<and> fits addr r"
  using assms by (cases m) simp_all

lemma FromScriptPubKey_safe: "\<exists>r. BRAddressFromScriptPubKey tn addr script = Some r \<and> fits addr r"
proof (cases "length script = 0 \<or> length script > MAX_SCRIPT_LENGTH \<or> fst (BRScriptElements None script) = 0")
  case True
  then show ?thesis using FromScriptPubKey_none by simp
next
  case False
  then obtain es where es: "list_all whole_elem es" "script = concat es" "es \<noteq> []"
    using elements_of [of script] by (metis list.size(3) neq0_conv)
  have le: "length script \<le> MAX_SCRIPT_LENGTH" using False by simp
  have two: "\<exists>d. copy_data script (offsets 0 es ! i) 20 = Some d" if "i < length es" "es ! i ! 0 = 20" for i
    using push_at [OF es(1) that] unfolding es(2) by auto
  have pk: "\<exists>d. elem_data script (offsets 0 es ! i) = Some (Some d)" if "i < length es" "es ! i ! 0 = 65 \<or> es ! i ! 0 = 33" for i
    using that push_at [OF es(1) that(1), of 65] push_at [OF es(1) that(1), of 33] unfolding es(2) by auto
  have wit: "\<exists>a. BRBech32Encode (bech32_prefix t) script = Some (Some a)"
    if "length es = 2" "p2wpkh (es ! 0 ! 0) (es ! 1 ! 0)" for t
    using bech32_script_encode [OF witness_script [OF es(1) that(1) that(2) [unfolded p2wpkh_def]]] es(2) by metis
  have f: "fits addr (case addr of None \<Rightarrow> (length a, []) | Some m \<Rightarrow> if length a > m then (0, []) else (length a, a))" for a
    by (auto simp: fits_def split: option.splits)
  show ?thesis
    unfolding FromScriptPubKey_cases [OF es le, of tn addr]
  proof (intro safe_if safe_map)
    assume "length es = 5 \<and> es ! 0 ! 0 = OP_DUP \<and> es ! 1 ! 0 = OP_HASH160 \<and> es ! 2 ! 0 = 20 \<and>
      es ! 3 ! 0 = OP_EQUALVERIFY \<and> es ! 4 ! 0 = OP_CHECKSIG"
    then show "copy_data script (offsets 0 es ! 2) 20 \<noteq> None" using two [of 2] by simp
  next
    assume "length es = 3 \<and> es ! 0 ! 0 = OP_HASH160 \<and> es ! 1 ! 0 = 20 \<and> es ! 2 ! 0 = OP_EQUAL"
    then show "copy_data script (offsets 0 es ! 1) 20 \<noteq> None" using two [of 1] by simp
  next
    assume *: "length es = 2 \<and> (es ! 0 ! 0 = 65 \<or> es ! 0 ! 0 = 33) \<and> es ! 1 ! 0 = OP_CHECKSIG"
    then have "0 < length es" by simp
    with * obtain d where "elem_data script (offsets 0 es ! 0) = Some (Some d)" using pk by blast
    then show "\<exists>r. (case elem_data script (offsets 0 es ! 0) of
        Some (Some d) \<Rightarrow> Some (BRBase58CheckEncode addr (pubkey_address tn # BRHash160 d)) | _ \<Rightarrow> None) = Some r \<and> fits addr r"
      by simp
  next
    assume "length es = 2 \<and> p2wpkh (es ! 0 ! 0) (es ! 1 ! 0)"
    then obtain a b where "BRBech32Encode (bech32_prefix False) script = Some (Some a)"
      "BRBech32Encode (bech32_prefix True) script = Some (Some b)" using wit by blast
    then show "\<exists>r. (case BRBech32Encode (bech32_prefix False) script of None \<Rightarrow> None
        | Some r \<Rightarrow> map_option (\<lambda>r. let a = (case r of None \<Rightarrow> [] | Some a \<Rightarrow> a) in
             case addr of None \<Rightarrow> (length a, []) | Some m \<Rightarrow> if length a > m then (0, []) else (length a, a))
             (if tn then BRBech32Encode (bech32_prefix True) script else Some r)) = Some r \<and> fits addr r"
      using f by (cases tn) simp_all
  qed simp_all
qed

lemma FromScriptSig_safe: "\<exists>r. BRAddressFromScriptSig tn addr script = Some r \<and> fits addr r"
proof (cases "length script = 0 \<or> length script > MAX_SCRIPT_LENGTH \<or> fst (BRScriptElements None script) = 0")
  case True
  then show ?thesis using FromScriptPubKey_none by simp
next
  case False
  define n where "n = fst (BRScriptElements None script)"
  obtain es where es: "list_all whole_elem es" "script = concat es" "length es = n"
    "BRScriptElements (Some n) script = (n, offsets 0 es)"
    using False elements_of [OF n_def [symmetric]] n_def by blast
  have "n - 1 < length es" using False es(3) n_def by simp
  from elem_data_ok [OF es(1) this] obtain d where d: "elem_data script (offsets 0 es ! (n - 1)) = Some d"
    unfolding es(2) by blast
  have f: "fits addr (case d of None \<Rightarrow> (0, []) | Some d \<Rightarrow> BRBase58CheckEncode addr (v # BRHash160 d))" for d v
    by (simp split: option.split)
  have ne: "\<not> (length script = 0 \<or> MAX_SCRIPT_LENGTH < length script)" using False by blast
  note unf = BRAddressFromScriptSig_def Let_def n_def [symmetric] es(4) prod.case if_not_P [OF ne] d option.case
  show ?thesis
    unfolding unf by (intro safe_if safe_some f fits_zero)
qed

section \<open>Addresses and scripts\<close>

definition p2pkh_script :: "byte list \<Rightarrow> byte list" where
  "p2pkh_script h = [OP_DUP, OP_HASH160, 20] @ h @ [OP_EQUALVERIFY, OP_CHECKSIG]"

definition p2sh_script :: "byte list \<Rightarrow> byte list" where
  "p2sh_script h = [OP_HASH160, 20] @ h @ [OP_EQUAL]"

lemma address_of_template:
  assumes "length h = 20"
  shows "BRAddressFromScriptPubKey tn addr (p2pkh_script h) = Some (BRBase58CheckEncode addr (pubkey_address tn # h))"
    "BRAddressFromScriptPubKey tn addr (p2sh_script h) = Some (BRBase58CheckEncode addr (script_address tn # h))"
proof -
  let ?es = "[[OP_DUP], [OP_HASH160], 20 # h, [OP_EQUALVERIFY], [OP_CHECKSIG]]"
  have w: "list_all whole_elem ?es" using assms by simp
  have c: "p2pkh_script h = concat ?es" by (simp add: p2pkh_script_def)
  have "copy_data (concat ?es) (offsets 0 ?es ! 2) (unat (20 :: byte)) = Some h"
    by (rule direct_data(2) [OF w]) (simp_all add: assms)
  then show "BRAddressFromScriptPubKey tn addr (p2pkh_script h) = Some (BRBase58CheckEncode addr (pubkey_address tn # h))"
    by (subst FromScriptPubKey_cases [OF w c]) (simp_all add: c assms MAX_SCRIPT_LENGTH_def)
  let ?es = "[[OP_HASH160], 20 # h, [OP_EQUAL]]"
  have w: "list_all whole_elem ?es" using assms by simp
  have c: "p2sh_script h = concat ?es" by (simp add: p2sh_script_def)
  have "copy_data (concat ?es) (offsets 0 ?es ! 1) (unat (20 :: byte)) = Some h"
    by (rule direct_data(2) [OF w]) (simp_all add: assms)
  then show "BRAddressFromScriptPubKey tn addr (p2sh_script h) = Some (BRBase58CheckEncode addr (script_address tn # h))"
    by (subst FromScriptPubKey_cases [OF w c]) (simp_all add: c assms MAX_SCRIPT_LENGTH_def)
qed

lemma template_of_address:
  assumes "length h = 20" "\<And>dst. BRBase58CheckDecode dst addr =
     (case dst of None \<Rightarrow> (21, []) | Some n \<Rightarrow> if 21 \<le> n then (21, v # h) else (0, []))"
  shows "v = pubkey_address tn \<Longrightarrow> BRAddressScriptPubKey tn out addr = Some (put_script out (p2pkh_script h))"
    "v = script_address tn \<Longrightarrow> BRAddressScriptPubKey tn out addr = Some (put_script out (p2sh_script h))"
    "BRAddressIsValid tn addr = Some (v = pubkey_address tn \<or> v = script_address tn)"
    "BRAddressHash160 addr = Some h"
  using assms by (simp_all add: BRAddressScriptPubKey_def BRAddressIsValid_def BRAddressHash160_def p2pkh_script_def
      p2sh_script_def pubkey_address_def script_address_def)

lemma check_decode_payload:
  "length h = 20 \<Longrightarrow> BRBase58CheckDecode dst (check_string (v # h)) =
     (case dst of None \<Rightarrow> (21, []) | Some n \<Rightarrow> if 21 \<le> n then (21, v # h) else (0, []))"
  by (simp add: check_decode_string split: option.split)

lemma check_decode_garbage:
  assumes "length h = 20" "58 \<le> base58_digit c"
  shows "BRBase58CheckDecode dst (check_string (v # h) @ c # junk) =
     (case dst of None \<Rightarrow> (21, []) | Some n \<Rightarrow> if 21 \<le> n then (21, v # h) else (0, []))"
proof -
  let ?p = "(v # h) @ take 4 (BRSHA256_2 (v # h))"
  have "length ?p \<le> length (check_string (v # h) @ c # junk)"
    using base58_string_longer [of ?p] by (simp add: check_string_def)
  then have "BRBase58Decode (Some (length (check_string (v # h) @ c # junk))) (check_string (v # h) @ c # junk) = (length ?p, ?p)"
    using decode_stops [OF base58_string_chars(1) assms(2), of _ ?p junk]
    by (simp only: check_string_def decode_base58_string option.case if_True)
  from check_decode_accepts [OF this refl] show ?thesis using assms(1) by (simp split: option.split)
qed

lemma ScriptPubKey_safe:
  "\<exists>r. BRAddressScriptPubKey tn out addr = Some r \<and> fits out r" "BRAddressIsValid tn addr \<noteq> None"
proof -
  obtain len data where d: "BRBase58CheckDecode (Some 42) addr = (len, data)" by (rule prod.exhaust)
  obtain r where r: "BRBech32Decode addr = Some r" using bech32_decode_safe by blast
  show "BRAddressIsValid tn addr \<noteq> None"
    unfolding BRAddressIsValid_def d r by (auto split: option.splits)
  show "\<exists>r. BRAddressScriptPubKey tn out addr = Some r \<and> fits out r"
  proof (cases "len = 21")
    case True
    show ?thesis unfolding BRAddressScriptPubKey_def d prod.case Let_def
      unfolding if_P [OF True] by (rule safe_some) (simp split: if_split)
  next
    case False
    have "\<exists>r'. (case r of None \<Rightarrow> Some (0, []) | Some (hrp, data) \<Rightarrow>
        Some (if P hrp data then put_script out data else (0, []))) = Some r' \<and> fits out r'" for P
    proof (cases r)
      case (Some hd)
      obtain hrp data where hd: "hd = (hrp, data)" by (rule prod.exhaust)
      show ?thesis unfolding Some hd option.case prod.case by (rule safe_some) (simp split: if_split)
    qed simp
    then show ?thesis unfolding BRAddressScriptPubKey_def d prod.case Let_def r option.case if_not_P [OF False]
      by (simp only: option.case_distrib)
  qed
qed

lemma witness_script_form:
  assumes "witness_program s" "s ! 0 = 0 \<longrightarrow> s ! 1 = 20 \<or> s ! 1 = 32"
  obtains es where "list_all whole_elem es" "s = concat es" "length es = 2" "p2wpkh (es ! 0 ! 0) (es ! 1 ! 0)"
    "length s \<le> MAX_SCRIPT_LENGTH"
proof -
  obtain v n d where s: "s = v # n # d" "length d = unat n"
    using assms(1) by (cases s; cases "tl s") (auto simp: witness_program_def)
  have v: "v = 0 \<or> OP_1 \<le> v \<and> v \<le> OP_16" and n: "2 \<le> n" "n \<le> 40" using assms(1) s by (auto simp: witness_program_def)
  have "whole_elem [v]" using v by (auto simp: byte_le)
  moreover have "n \<noteq> OP_PUSHDATA1" "n \<noteq> OP_PUSHDATA2" "n \<noteq> OP_PUSHDATA4" "\<not> n > OP_PUSHDATA4"
    using n by (auto simp: byte_le)
  ultimately have "list_all whole_elem [[v], n # d]" using s(2) by simp
  moreover have "p2wpkh v n" using v n assms(2) s by (auto simp: p2wpkh_def)
  moreover have "length s \<le> MAX_SCRIPT_LENGTH" using s n by (simp add: MAX_SCRIPT_LENGTH_def byte_le)
  ultimately show thesis using that [of "[[v], n # d]"] s by simp
qed

lemma not_base58check:
  assumes "fst (BRBase58Decode None a) \<noteq> 25"
  shows "fst (BRBase58CheckDecode dst a) \<noteq> 21"
proof -
  have "fst (BRBase58Decode (Some n) a) = fst (BRBase58Decode None a) \<or> fst (BRBase58Decode (Some n) a) = 0" for n
    by (simp add: BRBase58Decode_def Let_def)
  then have "fst (BRBase58Decode (Some (length a)) a) \<noteq> 25" using assms by (metis zero_neq_numeral)
  then show ?thesis
    unfolding BRBase58CheckDecode_def Let_def by (auto split: prod.splits option.splits if_splits)
qed

lemma decode_length: "fst (BRBase58Decode None s) \<le> length s + 1"
proof -
  let ?z = "length (takeWhile (\<lambda>c. c = 49) s)"
  have l: "length (dec_loop buf cs) = length buf" for buf cs
  proof (induction buf cs rule: dec_loop.induct)
    case (2 buf c cs)
    have "length (snd (dec_add b d)) = length b" for b d
      by (induction b arbitrary: d) (simp_all add: Let_def case_prod_beta)
    with 2 show ?case by (simp add: Let_def)
  qed simp
  have "(length s - ?z) * 733 div 1000 \<le> length s - ?z" by simp
  moreover have "?z \<le> length s" by (rule length_takeWhile_le)
  ultimately show ?thesis by (simp add: BRBase58Decode_def Let_def l)
qed

section \<open>Properties\<close>

text \<open>
  For every script, signature script and address string, well formed or not, the address functions stay inside
  of the script, of the element array they size by a first call, and of their local buffers, and an output
  buffer is filled exactly up to the returned length, which never exceeds its size.
\<close>

theorem address_functions_safe:
  "(\<exists>r. BRAddressFromScriptPubKey tn out script = Some r \<and> fits out r) \<and>
   (\<exists>r. BRAddressFromScriptSig tn out script = Some r \<and> fits out r) \<and>
   (\<exists>r. BRAddressScriptPubKey tn out addr = Some r \<and> fits out r) \<and> BRAddressIsValid tn addr \<noteq> None"
  using FromScriptPubKey_safe FromScriptSig_safe ScriptPubKey_safe by simp

text \<open>
  C29: the address of a pay-to-pubkey-hash or pay-to-script-hash script is valid on its own network and not on the
  other, gives the hash back, and leads back to the same script.
\<close>

theorem address_script_roundtrip:
  assumes "length h = 20" "s = p2pkh_script h \<or> s = p2sh_script h"
  shows "\<exists>n a. BRAddressFromScriptPubKey tn None s = Some (n, []) \<and> BRAddressFromScriptPubKey tn (Some n) s = Some (n, a @ [0]) \<and>
    n = length a + 1 \<and> BRAddressIsValid tn a = Some True \<and> BRAddressIsValid (\<not> tn) a = Some False \<and>
    BRAddressHash160 a = Some h \<and> BRAddressScriptPubKey tn (Some (length s)) a = Some (length s, s)"
proof -
  define v where "v = (if s = p2pkh_script h then pubkey_address tn else script_address tn)"
  have ne: "p2pkh_script h \<noteq> p2sh_script h" by (simp add: p2pkh_script_def p2sh_script_def)
  have "BRAddressFromScriptPubKey tn out s = Some (BRBase58CheckEncode out (v # h))" for out
    using assms(2) address_of_template [OF assms(1)] ne by (auto simp: v_def)
  moreover have "BRAddressScriptPubKey tn out (check_string (v # h)) = Some (put_script out s)" for out
    using assms(2) template_of_address(1,2) [OF assms(1) check_decode_payload [OF assms(1)]] ne by (auto simp: v_def)
  moreover have "BRAddressIsValid t (check_string (v # h)) = Some (t = tn)" for t
    unfolding template_of_address(3) [OF assms(1) check_decode_payload [OF assms(1)]]
    by (auto simp: v_def pubkey_address_def script_address_def)
  ultimately show ?thesis
    using template_of_address(4) [OF assms(1) check_decode_payload [OF assms(1)], of v]
    by (simp add: check_encode_form put_script_def)
qed

lemma address_script_roundtrip_witness:
  "\<exists>n a. BRAddressFromScriptPubKey False (Some n) (p2pkh_script (replicate 20 1)) = Some (n, a @ [0]) \<and>
     BRAddressScriptPubKey False (Some 25) a = Some (25, p2pkh_script (replicate 20 1))"
  using address_script_roundtrip [of "replicate 20 1" "p2pkh_script (replicate 20 1)" False]
  by (auto simp: p2pkh_script_def)

text \<open>
  A pay-to-witness script (version 0 with 20 or 32 bytes, or a later version) gives a Bech32 address, and
  unless the string happens to be a Base58 string of 25 bytes as well, which the code tries first, it is valid and leads back
  to the script.
\<close>

theorem witness_address_roundtrip:
  assumes "witness_program s" "s ! 0 = 0 \<longrightarrow> s ! 1 = 20 \<or> s ! 1 = 32"
  shows "\<exists>a. BRAddressFromScriptPubKey tn (Some 91) s = Some (length a + 1, a @ [0]) \<and>
    length a = 10 + (8 * unat (s ! 1) + 4) div 5 \<and>
    (fst (BRBase58Decode None a) \<noteq> 25 \<longrightarrow> BRAddressIsValid tn a = Some True \<and>
       BRAddressScriptPubKey tn (Some (length s)) a = Some (length s, s))"
proof -
  obtain es where es: "list_all whole_elem es" "s = concat es" "length es = 2" "p2wpkh (es ! 0 ! 0) (es ! 1 ! 0)"
    "length s \<le> MAX_SCRIPT_LENGTH" using witness_script_form [OF assms] .
  have ne: "es \<noteq> []" using es(3) by auto
  obtain a where a: "BRBech32Encode (bech32_prefix tn) s = Some (Some (a @ [0]))" "length a \<le> 90"
    "length a = 10 + (8 * unat (s ! 1) + 4) div 5"
    "BRBech32Decode a = Some (Some (bech32_prefix tn @ [0], s))" using bech32_script_encode [OF assms(1)] by metis
  obtain b where b: "BRBech32Encode (bech32_prefix False) s = Some b" using bech32_script_encode [OF assms(1)] by metis
  have op: "es ! 0 ! 0 \<noteq> 65 \<and> es ! 0 ! 0 \<noteq> 33" using es(4) by (auto simp: p2wpkh_def byte_le)
  have "BRAddressFromScriptPubKey tn (Some 91) s = Some (length a + 1, a @ [0])"
    unfolding FromScriptPubKey_cases [OF es(1,2) ne es(5)] using es(3,4) op a(1,2) b by (cases tn) simp_all
  moreover have "BRAddressIsValid tn a = Some True \<and> BRAddressScriptPubKey tn (Some (length s)) a = Some (length s, s)"
    if *: "fst (BRBase58Decode None a) \<noteq> 25"
  proof -
    obtain len data where d: "BRBase58CheckDecode (Some 42) a = (len, data)" by (rule prod.exhaust)
    have "len \<noteq> 21" using not_base58check [OF *, of "Some 42"] d by simp
    moreover have "2 < length s" using assms(1) by (auto simp: witness_program_def byte_le)
    moreover have "s ! 0 \<noteq> OP_0 \<or> s ! 1 = 20 \<or> s ! 1 = 32" using assms(2) by blast
    ultimately show ?thesis
      unfolding BRAddressIsValid_def BRAddressScriptPubKey_def d a(4) prod.case Let_def option.case put_script_def
      by simp
  qed
  ultimately show ?thesis using a(3) by blast
qed

lemma witness_address_roundtrip_witness:
  "\<exists>a. BRAddressFromScriptPubKey False (Some 91) [0x51, 2, 7, 8] = Some (length a + 1, a @ [0]) \<and>
     BRAddressScriptPubKey False (Some 4) a = Some (4, [0x51, 2, 7, 8])"
proof -
  have "witness_program [0x51, 2, 7, 8]" by (simp add: witness_program_def)
  moreover have "[0x51, 2, 7, 8] ! 0 = (0 :: byte) \<longrightarrow> [0x51, 2, 7, 8] ! 1 = (20 :: byte) \<or> [0x51, 2, 7, 8] ! 1 = (32 :: byte)"
    by simp
  moreover have l: "length [0x51, 2, 7, 8 :: byte] = 4" by simp
  ultimately obtain a where
    a: "BRAddressFromScriptPubKey False (Some 91) [0x51, 2, 7, 8] = Some (length a + 1, a @ [0])"
      "length a = 10 + (8 * unat ([0x51, 2, 7, 8 :: byte] ! 1) + 4) div 5"
      "fst (BRBase58Decode None a) \<noteq> 25 \<longrightarrow> BRAddressScriptPubKey False (Some 4) a = Some (4, [0x51, 2, 7, 8])"
    using witness_address_roundtrip [of "[0x51, 2, 7, 8]" False, unfolded l] by blast
  have "fst (BRBase58Decode None a) \<le> length a + 1" by (rule decode_length)
  then have "fst (BRBase58Decode None a) \<noteq> 25" using a(2) by simp
  with a show ?thesis by blast
qed

text \<open>
  The Base58 decoder stops at the first character outside of its alphabet instead of failing, so an address
  followed by such a character and any text at all is accepted as valid and leads to the same script.
\<close>

theorem address_trailing_text:
  assumes "length h = 20" "58 \<le> base58_digit c"
  shows "\<exists>a. BRAddressFromScriptPubKey tn (Some (length a + 1)) (p2pkh_script h) = Some (length a + 1, a @ [0]) \<and>
    BRAddressIsValid tn (a @ c # rest) = Some True \<and>
    BRAddressScriptPubKey tn (Some 25) (a @ c # rest) = Some (25, p2pkh_script h)"
proof -
  let ?a = "check_string (pubkey_address tn # h)"
  have "length (p2pkh_script h) = 25" using assms(1) by (simp add: p2pkh_script_def)
  then have "BRAddressFromScriptPubKey tn (Some (length ?a + 1)) (p2pkh_script h) = Some (length ?a + 1, ?a @ [0]) \<and>
    BRAddressIsValid tn (?a @ c # rest) = Some True \<and>
    BRAddressScriptPubKey tn (Some 25) (?a @ c # rest) = Some (25, p2pkh_script h)"
    using address_of_template [OF assms(1)] template_of_address [OF assms(1) check_decode_garbage [OF assms]]
    by (simp add: check_encode_form put_script_def)
  then show ?thesis by blast
qed

lemma address_trailing_text_witness:
  "\<exists>a. BRAddressIsValid False (a @ [0x21, 0x21]) = Some True"
  using address_trailing_text [where h = "replicate 20 1" and c = "0x21" and tn = False and rest = "[0x21]"] by (auto simp: base58_digit_def)

end
