(* ===== verification/CashAddr.thy ===== *)
theory CashAddr
  imports Address
begin

text \<open>
  bcash/BRBCashAddr.c: addresses in the CashAddr format. As in BRBech32.c, the decoder collects 5 bit digits in a
  fixed buffer, here of 22 bytes; \<open>None\<close> is an access outside of it, or a failed assertion.
\<close>

definition cash_polymod :: "u64 \<Rightarrow> u64" where
  "cash_polymod x = push_bit 5 (x AND 0x07ffffffff) XOR (- (drop_bit 35 x AND 1) AND 0x98f2bc8e61) XOR
     (- (drop_bit 36 x AND 1) AND 0x79b76d99e2) XOR (- (drop_bit 37 x AND 1) AND 0xf33e5fb3c4) XOR
     (- (drop_bit 38 x AND 1) AND 0xae2eabe2a8) XOR (- (drop_bit 39 x AND 1) AND 0x1e4f43e470)"

definition cash_hrp_checksum :: "byte list \<Rightarrow> u64" where
  "cash_hrp_checksum hrp = cash_polymod (foldl (\<lambda>chk c. cash_polymod chk XOR (ucast c AND 0x1f)) 1 hrp)"

text \<open>The loop over the digits; the last eight are the checksum and are not stored.\<close>

fun cash_loop :: "byte list \<Rightarrow> nat \<Rightarrow> u64 \<Rightarrow> byte list \<Rightarrow> (u64 \<times> byte list) option option" where
  "cash_loop [] j chk buf = Some (Some (chk, buf))"
| "cash_loop (a # as) j chk buf =
     (case quintet_of (tolower_c a) of
        None \<Rightarrow> Some None
      | Some c \<Rightarrow>
          let chk = cash_polymod chk XOR ucast c
          in if length (a # as) \<le> 8 then cash_loop as (j + 1) chk buf
             else case put_quintet j c buf of
                    None \<Rightarrow> None
                  | Some buf \<Rightarrow> cash_loop as (j + 1) chk buf)"

text \<open>\<open>_BRBCashAddrDecode\<close>: the human readable part with its terminator, and \<open>data21\<close>.\<close>

definition cash_decode :: "byte list \<Rightarrow> (byte list \<times> byte list) option option" where
  "cash_decode addr =
     (if list_ex (\<lambda>c. c < 33 \<or> c > 126) addr then Some None
      else
        let lower = list_ex islower_c addr; upper = list_ex isupper_c addr;
            addrLen = length addr; sep = scan_sep 58 addr addrLen
        in if sep > 11 \<or> sep + 34 + 8 > addrLen \<or> (upper \<and> lower) then Some None
           else
             case cash_loop (drop (sep + 1) addr) 0 (cash_hrp_checksum (take sep addr)) (replicate 22 0) of
               None \<Rightarrow> None
             | Some None \<Rightarrow> Some None
             | Some (Some (chk, buf)) \<Rightarrow>
                 let bufLen = (addrLen - (sep + 8)) * 5 div 8
                 in if chk \<noteq> 1 \<or> bufLen \<noteq> 21 then Some None
                    else Some (Some (map tolower_c (take sep addr) @ [0], take bufLen buf)))"

text \<open>\<open>_BRBCashAddrEncode\<close>, which is called with 21 bytes of data; its buffer has 55 bytes.\<close>

definition cash_encode :: "byte list option \<Rightarrow> byte list \<Rightarrow> byte list option option" where
  "cash_encode hrp data =
     (case hrp of
        None \<Rightarrow> None
      | Some hrp \<Rightarrow>
          if length data \<noteq> 21 then None
          else if length hrp > 13 \<or> list_ex (\<lambda>c. c < 33 \<or> c > 126 \<or> isupper_c c) hrp then Some None
          else
            let q = to_quintets data;
                chk = foldl (\<lambda>chk c. cash_polymod chk XOR ucast c) (cash_hrp_checksum hrp) q;
                chk = (cash_polymod ^^ 8) chk XOR 1;
                digit = (\<lambda>j. ucast (drop_bit ((7 - j) * 5) chk AND 0x1f));
                addr = hrp @ [58] @ map (\<lambda>c. quintet_chars ! unat c) (q @ map digit [0..<8]) @ [0]
            in if length addr > 55 then None else Some (Some addr))"

abbreviation s_bitcoincash :: "byte list" where
  "s_bitcoincash \<equiv> [98, 105, 116, 99, 111, 105, 110, 99, 97, 115, 104]"

abbreviation s_bchtest :: "byte list" where
  "s_bchtest \<equiv> [98, 99, 104, 116, 101, 115, 116]"

abbreviation s_bchreg :: "byte list" where
  "s_bchreg \<equiv> [98, 99, 104, 114, 101, 103]"

definition toupper_s :: "byte list \<Rightarrow> byte list" where
  "toupper_s = map (\<lambda>c. c - 32)"

text \<open>The version byte for the two kinds of hash, on the main and on the test networks.\<close>

definition cash_version :: "bool \<Rightarrow> byte \<Rightarrow> byte" where
  "cash_version tn d = (if d = 0x08 then script_address tn else if d = 0x00 then pubkey_address tn else 0xff)"

text \<open>
  \<open>_BRBCashAddrDecode(hrp, data, a) == 21 || ...\<close>, left to right: the data of the first candidate that decodes.
\<close>

fun first_decoded :: "byte list list \<Rightarrow> byte list option option" where
  "first_decoded [] = Some None"
| "first_decoded (a # as) =
     (case cash_decode a of
        None \<Rightarrow> None
      | Some (Some (hrp, data)) \<Rightarrow> Some (Some data)
      | Some None \<Rightarrow> first_decoded as)"

definition BRBCashAddrDecode :: "byte list \<Rightarrow> (nat \<times> byte list) option" where
  "BRBCashAddrDecode bCashAddr =
     (let finish = (\<lambda>ver data. Some (if ver \<noteq> 0xff then BRBase58CheckEncode (Some 36) (ver # tl data) else (0, []))) in
      case cash_decode bCashAddr of
        None \<Rightarrow> None
      | Some (Some (hrp, data)) \<Rightarrow>
          finish (if hrp = s_bitcoincash @ [0] then cash_version False (data ! 0)
                  else if hrp = s_bchtest @ [0] \<or> hrp = s_bchreg @ [0] then cash_version True (data ! 0)
                  else 0xff) data
      | Some None \<Rightarrow>
          let (len, data) = BRBase58CheckDecode (Some 21) bCashAddr in
          if len = 21 then
            finish (if data ! 0 = 40 then script_address False else if data ! 0 = 28 then pubkey_address False else 0xff) data
          else
            case first_decoded [s_bitcoincash @ [58] @ take 42 bCashAddr, toupper_s s_bitcoincash @ [58] @ take 42 bCashAddr] of
              None \<Rightarrow> None
            | Some (Some data) \<Rightarrow> finish (cash_version False (data ! 0)) data
            | Some None \<Rightarrow>
                case first_decoded [s_bchtest @ [58] @ take 46 bCashAddr, toupper_s s_bchtest @ [58] @ take 46 bCashAddr,
                       s_bchreg @ [58] @ take 47 bCashAddr, toupper_s s_bchreg @ [58] @ take 47 bCashAddr] of
                  None \<Rightarrow> None
                | Some (Some data) \<Rightarrow> finish (cash_version True (data ! 0)) data
                | Some None \<Rightarrow> Some (0, []))"

definition BRBCashAddrEncode :: "byte list \<Rightarrow> byte list option option" where
  "BRBCashAddrEncode bitcoinAddr =
     (let (len, data) = BRBase58CheckDecode (Some 21) bitcoinAddr in
      if len \<noteq> 21 then Some None
      else
        let v = data ! 0;
            ver = (if v = script_address False \<or> v = script_address True then 0x08 else 0x00);
            hrp = (if v = pubkey_address False \<or> v = script_address False then Some s_bitcoincash
                   else if v = pubkey_address True \<or> v = script_address True then Some s_bchtest else None)
        in cash_encode hrp (ver # tl data))"

section \<open>The checksum\<close>

lemma cash_polymod_bits:
  "cash_polymod x = push_bit 5 (x AND mask 35) XOR (if bit x 35 then 0x98f2bc8e61 else 0) XOR
     (if bit x 36 then 0x79b76d99e2 else 0) XOR (if bit x 37 then 0xf33e5fb3c4 else 0) XOR
     (if bit x 38 then 0xae2eabe2a8 else 0) XOR (if bit x 39 then 0x1e4f43e470 else 0)"
proof -
  have "(0x07ffffffff :: u64) = mask 35" by (simp add: mask_eq_exp_minus_1)
  then show ?thesis unfolding cash_polymod_def neg_bit_and by simp
qed

interpretation cash: quintet_checksum cash_polymod 8
proof
  show "5 * 8 \<le> LENGTH(64)" "0 < (8 :: nat)" by simp_all
next
  fix x y :: u64
  show "cash_polymod (x XOR y) = cash_polymod x XOR cash_polymod y"
    unfolding cash_polymod_bits if_bit_xor push_mask_xor by (simp only: ac_simps)
next
  fix x :: u64 assume *: "\<And>i. bit x i \<Longrightarrow> i < 5 * (8 - 1)"
  have "\<not> bit x k" if "35 \<le> k" for k using * [of k] that by auto
  moreover have "x AND mask 35 = x" using * by (intro bit_word_eqI) (auto simp: bit_simps)
  ultimately show "cash_polymod x = push_bit 5 x" unfolding cash_polymod_bits by simp
next
  fix x :: u64 and i assume b: "bit (cash_polymod x) i"
  have k: "bit (if P then c else 0) i \<Longrightarrow> take_bit 40 c = c \<Longrightarrow> i < 40" for P and c :: u64
    by (metis bit_take_bit_iff bit_0_eq bot_apply bot_bool_def)
  have t: "take_bit 40 (0x98f2bc8e61 :: u64) = 0x98f2bc8e61" "take_bit 40 (0x79b76d99e2 :: u64) = 0x79b76d99e2"
    "take_bit 40 (0xf33e5fb3c4 :: u64) = 0xf33e5fb3c4" "take_bit 40 (0xae2eabe2a8 :: u64) = 0xae2eabe2a8"
    "take_bit 40 (0x1e4f43e470 :: u64) = 0x1e4f43e470" by simp_all
  have "bit (push_bit 5 (x AND mask 35)) i \<or> bit (if bit x 35 then 0x98f2bc8e61 else 0 :: u64) i \<or>
      bit (if bit x 36 then 0x79b76d99e2 else 0 :: u64) i \<or> bit (if bit x 37 then 0xf33e5fb3c4 else 0 :: u64) i \<or>
      bit (if bit x 38 then 0xae2eabe2a8 else 0 :: u64) i \<or> bit (if bit x 39 then 0x1e4f43e470 else 0 :: u64) i"
    using b unfolding cash_polymod_bits bit_xor_iff by blast
  moreover have "bit (push_bit 5 (x AND mask 35)) i \<Longrightarrow> i < 40" by (auto simp: bit_simps)
  ultimately have "i < 40"
    using k [of "bit x 35" "0x98f2bc8e61"] k [of "bit x 36" "0x79b76d99e2"] k [of "bit x 37" "0xf33e5fb3c4"]
      k [of "bit x 38" "0xae2eabe2a8"] k [of "bit x 39" "0x1e4f43e470"] t by blast
  then show "i < 5 * 8" by simp
qed

section \<open>Decoding inverts encoding\<close>

lemma cash_loop_string:
  assumes "\<forall>c \<in> set q. c < 32" "put_quintets j (take (length q - 8) q) buf = Some b"
  shows "cash_loop (quintet_string q) j chk buf =
      Some (Some (foldl (\<lambda>chk c. cash_polymod chk XOR ucast c) chk q, b))"
  using assms
proof (induction q arbitrary: j chk buf)
  case (Cons c q)
  have c: "quintet_of (tolower_c (quintet_chars ! unat c)) = Some c"
    using Cons.prems(1) by (simp add: quintet_char_props)
  show ?case
  proof (cases "length (c # q) \<le> 8")
    case True
    with Cons.prems(2) have "put_quintets (j + 1) (take (length q - 8) q) buf = Some b" by simp
    with Cons.IH [OF _ this] Cons.prems(1) c True show ?thesis by (simp add: Let_def)
  next
    case False
    then have "length (c # q) - 8 = Suc (length q - 8)" by simp
    with Cons.prems(2) obtain b1 where b1: "put_quintet j c buf = Some b1"
      "put_quintets (j + 1) (take (length q - 8) q) b1 = Some b" by (auto split: option.splits)
    with Cons.IH [OF _ b1(2)] Cons.prems(1) c False show ?thesis by (simp add: Let_def)
  qed
qed simp

lemma cash_run_fold:
  "foldl (\<lambda>chk c. cash_polymod chk XOR ucast c) s q = cash.run s (map ucast q)"
  by (simp add: cash.run_def foldl_map)

lemma cash_run_zeros: "cash.run s (replicate k 0) = (cash_polymod ^^ k) s"
  by (induction k arbitrary: s) (simp_all add: cash.run_def funpow_swap1)

lemma cash_checksum_digits:
  fixes s :: u64
  defines "ck \<equiv> (cash_polymod ^^ 8) s XOR 1"
  shows "foldl (\<lambda>chk c. cash_polymod chk XOR ucast c) s
      (map (\<lambda>j. ucast (drop_bit ((7 - j) * 5) ck AND 0x1f) :: byte) [0..<8]) = 1"
proof -
  have u: "ucast (ucast (x AND 0x1f) :: byte) = x AND 0x1f" for x :: u64
    unfolding mask5 by (rule bit_word_eqI) (auto simp: bit_simps)
  show ?thesis
    using cash.checksum_valid [of s] unfolding cash_run_zeros ck_def [symmetric] cash_run_fold
    by (simp add: u comp_def mult.commute)
qed

lemma cash_digit_less: "(ucast (x AND 0x1f :: u64) :: byte) < 32"
proof -
  have "ucast (x AND 0x1f) = low5 (ucast x)"
    unfolding low5_def mask5 by (rule bit_word_eqI) (auto simp: bit_simps)
  then show ?thesis by (simp add: low5_less)
qed

definition cash_hrp :: "byte list \<Rightarrow> bool" where
  "cash_hrp hrp \<longleftrightarrow> hrp \<noteq> [] \<and> length hrp \<le> 11 \<and> list_all (\<lambda>c. 33 \<le> c \<and> c \<le> 126 \<and> \<not> isupper_c c \<and> c \<noteq> 58) hrp"

lemma cash_roundtrip:
  assumes hrp: "cash_hrp hrp" and len: "length data = 21"
  obtains addr where "cash_encode (Some hrp) data = Some (Some (addr @ [0]))" "0 \<notin> set addr" "length addr = length hrp + 43"
    "cash_decode addr = Some (Some (hrp @ [0], data))"
proof -
  define qs where "qs = to_quintets data"
  define s where "s = foldl (\<lambda>chk c. cash_polymod chk XOR ucast c) (cash_hrp_checksum hrp) qs"
  define ck where "ck = (cash_polymod ^^ 8) s XOR 1"
  define ds where "ds = map (\<lambda>j. ucast (drop_bit ((7 - j) * 5) ck AND 0x1f) :: byte) [0..<8]"
  define addr where "addr = hrp @ 58 # quintet_string (qs @ ds)"
  have q32: "\<forall>c \<in> set (qs @ ds). c < 32"
    using to_quintets_less [of data] cash_digit_less by (auto simp: qs_def ds_def)
  have lq: "length qs = 34" "length ds = 8" by (simp_all add: ds_def qs_def length_to_quintets len)
  have la: "length addr = length hrp + 43" by (simp add: addr_def lq)
  have h: "hrp \<noteq> []" "length hrp \<le> 11" "list_all (\<lambda>c. \<not> isupper_c c) hrp" "\<not> list_ex (\<lambda>c. c < 33 \<or> c > 126) hrp"
    "\<not> list_ex isupper_c hrp" "\<not> list_ex (\<lambda>c. c < 33 \<or> c > 126 \<or> isupper_c c) hrp"
    using hrp by (auto simp: cash_hrp_def list_ex_iff list_all_iff not_le not_less)
  have enc: "cash_encode (Some hrp) data = Some (Some (addr @ [0]))"
    using h(2,6) len la unfolding cash_encode_def option.case Let_def qs_def [symmetric] s_def [symmetric] ck_def [symmetric] ds_def [symmetric]
    by (simp add: addr_def)
  have range: "\<not> list_ex (\<lambda>c. c < 33 \<or> c > 126) addr" "\<not> list_ex isupper_c addr"
    using h in_range_chars [OF q32] by (simp_all add: addr_def isupper_c_def)
  have sep: "scan_sep 58 addr (length addr) = length hrp"
    unfolding addr_def by (rule scan_sep_found) (use in_range_chars(4) [OF q32] h(1) in auto)
  have put: "put_quintets 0 (take (length (qs @ ds) - 8) (qs @ ds)) (replicate 22 0) = Some (data @ [0])"
    using put_to_quintets [of data 22] len by (simp add: lq) (simp add: qs_def)
  have "cash_loop (quintet_string (qs @ ds)) 0 (cash_hrp_checksum hrp) (replicate 22 0) =
      Some (Some (foldl (\<lambda>chk c. cash_polymod chk XOR ucast c) (cash_hrp_checksum hrp) (qs @ ds), data @ [0]))"
    by (rule cash_loop_string [OF q32 put])
  moreover have "foldl (\<lambda>chk c. cash_polymod chk XOR ucast c) (cash_hrp_checksum hrp) (qs @ ds) = 1"
    using cash_checksum_digits [of s] by (simp add: ds_def ck_def s_def)
  ultimately have loop: "cash_loop (drop (length hrp + 1) addr) 0 (cash_hrp_checksum (take (length hrp) addr)) (replicate 22 0) =
      Some (Some (1, data @ [0]))" by (simp add: addr_def)
  have low: "map tolower_c (take (length hrp) addr) = hrp" by (simp add: addr_def hrp_checksum_lower [OF h(3)])
  have n: "(length addr - (length hrp + 8)) * 5 div 8 = 21" unfolding la by simp
  have "cash_decode addr = Some (Some (hrp @ [0], data))"
    using range la h(2) len unfolding cash_decode_def Let_def sep loop low n by simp
  moreover have "0 \<notin> set addr"
    using in_range_chars(5) [OF q32] hrp by (auto simp: addr_def cash_hrp_def list_all_iff)
  ultimately show thesis using that enc la by blast
qed

section \<open>The two address formats\<close>

lemma check_string_size:
  assumes "length d = 21"
  shows "length (check_string d) \<le> 35"
proof -
  let ?c = "d @ take 4 (BRSHA256_2 d)"
  let ?k = "lead0 ?c" and ?s = "strip0 ?c"
  have c: "length ?c \<le> 25" using assms by simp
  have s: "length ?s + ?k \<le> 25" using c lead0_le [of ?c] by (simp add: length_strip0)
  have "length (foldl (\<lambda>buf d. snd (enc_add buf (ucast d))) b ds) = length b" for b and ds :: "byte list"
  proof (rule length_foldl)
    fix r and x :: byte
    have "length (snd (enc_add r y)) = length r" for y
      by (induction r arbitrary: y) (simp_all add: Let_def case_prod_beta)
    then show "length (snd (enc_add r (ucast x))) = length r" .
  qed
  then have "length (to58 ?s) \<le> length ?s * 138 div 100 + 1" unfolding to58_def length_strip0 by simp
  moreover have "length ?s * 138 div 100 + ?k \<le> 34"
  proof -
    have "(n * 138 div 100) + k \<le> 34" if "n + k \<le> 25" for n k :: nat using that by linarith
    then show ?thesis using s .
  qed
  ultimately show ?thesis by (simp add: check_string_def base58_string_def)
qed

lemma version_bytes:
  "pubkey_address tn \<noteq> 0xff" "script_address tn \<noteq> 0xff" "pubkey_address tn \<noteq> script_address tn'"
  "pubkey_address tn = pubkey_address tn' \<longleftrightarrow> tn = tn'" "script_address tn = script_address tn' \<longleftrightarrow> tn = tn'"
  by (auto simp: pubkey_address_def script_address_def)

definition cash_prefix :: "bool \<Rightarrow> byte list" where
  "cash_prefix tn = (if tn then s_bchtest else s_bitcoincash)"

lemma cash_prefix_ok: "cash_hrp (cash_prefix tn)"
  by (simp add: cash_prefix_def cash_hrp_def isupper_c_def)

lemma decode_known_prefix:
  assumes "cash_decode a = Some (Some (cash_prefix tn @ [0], d # h))" "d = 0 \<or> d = 8" "length h = 20"
  defines "v \<equiv> cash_version tn d"
  shows "BRBCashAddrDecode a = Some (length (check_string (v # h)) + 1, check_string (v # h) @ [0])"
proof -
  have v: "v \<noteq> 0xff" using assms(2) version_bytes(1,2) by (auto simp: v_def cash_version_def)
  have "length (check_string (v # h)) \<le> 35" by (rule check_string_size) (simp add: assms(3))
  moreover have "(if cash_prefix tn @ [0] = s_bitcoincash @ [0] then cash_version False ((d # h) ! 0)
      else if cash_prefix tn @ [0] = s_bchtest @ [0] \<or> cash_prefix tn @ [0] = s_bchreg @ [0] then cash_version True ((d # h) ! 0)
      else 0xff) = v"
    by (cases tn) (simp_all add: cash_prefix_def v_def)
  ultimately show ?thesis
    using v unfolding BRBCashAddrDecode_def Let_def assms(1) option.case prod.case
    by (simp only:) (simp add: check_encode_form)
qed

lemma encode_known:
  assumes "length h = 20" "v = pubkey_address tn \<or> v = script_address tn"
  shows "BRBCashAddrEncode (check_string (v # h)) =
    cash_encode (Some (cash_prefix tn)) ((if v = script_address tn then 8 else 0) # h)"
proof -
  have d: "BRBase58CheckDecode (Some 21) (check_string (v # h)) = (21, v # h)"
    using check_decode_payload [OF assms(1), of "Some 21" v] by simp
  show ?thesis
    unfolding BRBCashAddrEncode_def d prod.case Let_def using assms(2)
    by (cases tn) (auto simp: cash_prefix_def pubkey_address_def script_address_def)
qed

section \<open>The decoder's buffer\<close>

text \<open>A digit whose last bit lies behind the buffer is written outside of it.\<close>

lemma put_quintet_outside:
  assumes "8 * length buf \<le> 5 * j + 4"
  shows "put_quintet j c buf = None"
proof -
  have j: "5 * j = j mod 8 * 5 + 8 * (j div 8 * 5)" using mult_div_mod_eq [of 8 j] by linarith
  have k: "j div 8 * 5 + j mod 8 * 5 div 8 = 5 * j div 8" unfolding j by simp
  have x: "j mod 8 * 5 - j mod 8 * 5 div 8 * 8 = (5 * j) mod 8"
    unfolding j mod_mult_self2 by (rule minus_div_mult_eq_mod)
  have "5 * j = 8 * (5 * j div 8) + 5 * j mod 8" by simp
  then have "length buf \<le> 5 * j div 8 \<or> (length buf \<le> 5 * j div 8 + 1 \<and> 3 < 5 * j mod 8)"
    using assms by linarith
  then show ?thesis
    unfolding put_quintet_def Let_def k x by (auto simp: or_at_def)
qed

lemma cash_loop_overrun:
  assumes "\<forall>c \<in> set q. c < 32" "8 * length buf \<le> 5 * (j + (length q - 9)) + 4" "9 \<le> length q"
  shows "cash_loop (quintet_string q) j chk buf = None"
  using assms
proof (induction q arbitrary: j chk buf)
  case (Cons c q)
  have c: "quintet_of (tolower_c (quintet_chars ! unat c)) = Some c"
    using Cons.prems(1) by (simp add: quintet_char_props)
  show ?case
  proof (cases "put_quintet j c buf")
    case None
    then show ?thesis using Cons.prems(3) c by (simp add: Let_def)
  next
    case (Some b)
    then have n: "\<not> 8 * length buf \<le> 5 * j + 4" using put_quintet_outside by force
    then have l: "9 \<le> length q" using Cons.prems(2,3) by (cases "length (c # q) = 9") auto
    have "length b = length buf" using put_quintet_length Some by blast
    moreover have "j + (length (c # q) - 9) = (j + 1) + (length q - 9)" using l by simp
    ultimately have "cash_loop (quintet_string q) (j + 1) ch b = None" for ch
      using Cons.IH [of b "j + 1" ch] Cons.prems(1,2) l by simp
    then show ?thesis using Some c l by (simp add: Let_def)
  qed
qed simp

lemma cash_loop_inside:
  assumes "5 * (j + (length as - 8)) \<le> 8 * length buf"
  shows "cash_loop as j chk buf \<noteq> None"
  using assms
proof (induction as arbitrary: j chk buf)
  case (Cons a as)
  show ?case
  proof (cases "quintet_of (tolower_c a)")
    case (Some c)
    show ?thesis
    proof (cases "length (a # as) \<le> 8")
      case True
      have "cash_loop as' i chk buf \<noteq> None" if "length as' \<le> 8" for as' i chk
        using that by (induction as' arbitrary: i chk) (auto split: option.splits)
      then show ?thesis using Some True by simp
    next
      case False
      then have l: "length (a # as) - 8 = Suc (length as - 8)" by simp
      have "(5 * j + 4) div 8 < length buf" using Cons.prems unfolding l by (simp add: div_less_iff_less_mult)
      from put_quintet_ok [OF this] obtain b where b: "put_quintet j c buf = Some b" "length b = length buf" by blast
      have "5 * (j + 1 + (length as - 8)) \<le> 8 * length b" using Cons.prems unfolding l b(2) by simp
      from Cons.IH [OF this] Some False b show ?thesis by (simp add: Let_def)
    qed
  qed simp
qed simp

lemma cash_decode_inside:
  assumes "length addr \<le> scan_sep 58 addr (length addr) + 44"
  shows "cash_decode addr \<noteq> None"
proof -
  let ?sep = "scan_sep 58 addr (length addr)"
  have "cash_loop (drop (?sep + 1) addr) 0 (cash_hrp_checksum (take ?sep addr)) (replicate 22 0) \<noteq> None"
    by (rule cash_loop_inside) (use assms in simp)
  then obtain r where r: "cash_loop (drop (?sep + 1) addr) 0 (cash_hrp_checksum (take ?sep addr)) (replicate 22 0) = Some r"
    by blast
  show ?thesis
    unfolding cash_decode_def Let_def r option.case by (auto split: option.splits prod.splits)
qed

text \<open>What is needed of a candidate: at most 43 characters behind its last separator.\<close>

definition short_tail :: "byte list \<Rightarrow> bool" where
  "short_tail s \<longleftrightarrow> (if 58 \<in> set s then length (takeWhile (\<lambda>c. c \<noteq> 58) (rev s)) else length s) \<le> 43"

lemma short_tail_split: "58 \<notin> set ys \<Longrightarrow> short_tail (xs @ 58 # ys) \<longleftrightarrow> length ys \<le> 43"
  by (simp add: short_tail_def, subst takeWhile_append2) auto

lemma last_separator:
  assumes "(58 :: byte) \<in> set s"
  obtains xs ys where "s = xs @ 58 # ys" "58 \<notin> set ys"
  using split_list_last [OF assms] by blast

lemma short_tail_short: "length s \<le> 43 \<Longrightarrow> short_tail s"
  using length_takeWhile_le [of "\<lambda>c. c \<noteq> 58" "rev s"] by (auto simp: short_tail_def)

lemma short_tail_take:
  assumes "short_tail (xs @ 58 # ys)" "58 \<notin> set ys" "length xs < k"
  shows "short_tail (take k (xs @ 58 # ys))"
proof -
  have "take k (xs @ 58 # ys) = xs @ 58 # take (k - length xs - 1) ys" using assms(3) by (cases "k - length xs") simp_all
  moreover have "58 \<notin> set (take (k - length xs - 1) ys)" using assms(2) by (meson in_set_takeD)
  ultimately show ?thesis using assms(1) by (simp add: short_tail_split assms(2))
qed

lemma scan_sep_last:
  assumes "58 \<notin> set ys"
  shows "scan_sep 58 (xs @ 58 # ys) (length (xs @ 58 # ys)) = length xs"
proof (cases "xs = []")
  case True
  have "scan_sep 58 (58 # ys) n = 0" if "n \<le> Suc (length ys)" for n
    using that assms by (induction n) (auto simp: nth_append nth_Cons' dest: nth_mem)
  then show ?thesis using True by (simp del: scan_sep.simps)
next
  case False
  then show ?thesis using assms by (intro scan_sep_found) simp_all
qed

lemma cash_decode_tail:
  assumes "58 \<in> set s" "short_tail s"
  shows "cash_decode s \<noteq> None"
proof -
  obtain xs ys where s: "s = xs @ 58 # ys" "58 \<notin> set ys" using last_separator [OF assms(1)] by blast
  then show ?thesis using assms(2) scan_sep_last [OF s(2), of xs] by (intro cash_decode_inside) (simp add: short_tail_split)
qed

lemma cash_decode_prefixed:
  assumes "short_tail s"
  shows "cash_decode (p @ 58 # s) \<noteq> None"
proof (rule cash_decode_tail)
  show "short_tail (p @ 58 # s)"
  proof (cases "58 \<in> set s")
    case True
    from last_separator [OF this] obtain xs ys where s: "s = xs @ 58 # ys" "58 \<notin> set ys" by blast
    then show ?thesis using assms short_tail_split [OF s(2), of xs] short_tail_split [OF s(2), of "p @ 58 # xs"] by simp
  qed (use assms in \<open>simp add: short_tail_split, simp add: short_tail_def\<close>)
qed simp

lemma first_decoded_inside: "\<forall>a \<in> set as. cash_decode a \<noteq> None \<Longrightarrow> first_decoded as \<noteq> None"
  by (induction as) (auto split: option.splits)

lemma BRBCashAddrDecode_inside:
  assumes "cash_decode a \<noteq> None" "\<forall>k \<in> {42, 46, 47}. short_tail (take k a)"
  shows "BRBCashAddrDecode a \<noteq> None"
proof -
  have c: "cash_decode (p @ 58 # take k a) \<noteq> None" if "k \<in> {42, 46, 47}" for p k
    using cash_decode_prefixed assms(2) that by blast
  have "first_decoded [s_bitcoincash @ [58] @ take 42 a, toupper_s s_bitcoincash @ [58] @ take 42 a] \<noteq> None"
    by (rule first_decoded_inside) (use c [of 42 s_bitcoincash] c [of 42 "toupper_s s_bitcoincash"] in simp)
  moreover have "first_decoded [s_bchtest @ [58] @ take 46 a, toupper_s s_bchtest @ [58] @ take 46 a,
      s_bchreg @ [58] @ take 47 a, toupper_s s_bchreg @ [58] @ take 47 a] \<noteq> None"
    by (rule first_decoded_inside) (use c [of 46 s_bchtest] c [of 46 "toupper_s s_bchtest"] c [of 47 s_bchreg]
        c [of 47 "toupper_s s_bchreg"] in simp)
  ultimately obtain r1 r2 where r: "first_decoded [s_bitcoincash @ [58] @ take 42 a, toupper_s s_bitcoincash @ [58] @ take 42 a] = Some r1"
    "first_decoded [s_bchtest @ [58] @ take 46 a, toupper_s s_bchtest @ [58] @ take 46 a,
      s_bchreg @ [58] @ take 47 a, toupper_s s_bchreg @ [58] @ take 47 a] = Some r2" by blast
  show ?thesis
    using assms(1) unfolding BRBCashAddrDecode_def Let_def r option.case
    by (cases "cash_decode a"; cases r1; cases r2) (auto split: option.splits prod.splits)
qed

lemma cash_decode_behind:
  assumes "cash_hrp hrp" "\<forall>c \<in> set q. c < 32" "44 \<le> length q"
  shows "cash_decode (hrp @ [58] @ quintet_string q) = None"
proof -
  let ?a = "hrp @ [58] @ quintet_string q"
  have h: "length hrp \<le> 11" "\<not> list_ex (\<lambda>c. c < 33 \<or> c > 126) hrp" "\<not> list_ex isupper_c hrp"
    using assms(1) by (auto simp: cash_hrp_def list_ex_iff list_all_iff not_le not_less)
  have range: "\<not> list_ex (\<lambda>c. c < 33 \<or> c > 126) ?a" "\<not> list_ex isupper_c ?a"
    using h in_range_chars [OF assms(2)] by (simp_all add: isupper_c_def)
  have "scan_sep 58 (hrp @ 58 # quintet_string q) (length (hrp @ 58 # quintet_string q)) = length hrp"
    by (rule scan_sep_last [OF in_range_chars(4) [OF assms(2)]])
  then have sep: "scan_sep 58 ?a (length ?a) = length hrp" by simp
  have "cash_loop (quintet_string q) 0 (cash_hrp_checksum hrp) (replicate 22 0) = None"
    by (rule cash_loop_overrun [OF assms(2)]) (use assms(3) in simp_all)
  then show ?thesis using range h(1) assms(3) unfolding cash_decode_def Let_def sep by simp
qed

lemma cash_decode_digits:
  assumes "\<forall>c \<in> set q. c < 32" "45 \<le> length q"
  shows "cash_decode (quintet_string q) = None"
proof -
  obtain c p where q: "q = c # p" using assms(2) by (cases q) auto
  have range: "\<not> list_ex (\<lambda>c. c < 33 \<or> c > 126) (quintet_string q)" "\<not> list_ex isupper_c (quintet_string q)"
    using in_range_chars [OF assms(1)] by simp_all
  have "scan_sep 58 (quintet_string q) n = 0" if "n \<le> length q" for n
    using that in_range_chars(4) [OF assms(1)] by (induction n) (auto simp: nth_append dest: nth_mem)
  then have sep: "scan_sep 58 (quintet_string q) (length (quintet_string q)) = 0" by simp
  have "cash_loop (quintet_string p) 0 (cash_hrp_checksum []) (replicate 22 0) = None"
    by (rule cash_loop_overrun) (use assms in \<open>simp_all add: q\<close>)
  then show ?thesis using range assms(2) unfolding cash_decode_def Let_def sep by (simp add: q)
qed

section \<open>Properties\<close>

text \<open>
  Converting a Base58Check address of either network and kind to the CashAddr format gives at most 55 characters with the
  terminator, without a failed assertion or an access outside of a buffer, and converting that back gives the same address.
\<close>

theorem cashaddr_roundtrip:
  assumes "length h = 20" "v = pubkey_address tn \<or> v = script_address tn"
    "BRBase58CheckEncode (Some 36) (v # h) = (length a + 1, a @ [0])"
  shows "\<exists>c. BRBCashAddrEncode a = Some (Some (c @ [0])) \<and> length (c @ [0]) \<le> 55 \<and> 0 \<notin> set c \<and>
    BRBCashAddrDecode c = Some (length a + 1, a @ [0])"
proof -
  let ?d = "(if v = script_address tn then 8 else 0) :: byte"
  have a: "a = check_string (v # h)" using assms(3) by (auto simp: check_encode_form split: if_splits)
  obtain c where c: "cash_encode (Some (cash_prefix tn)) (?d # h) = Some (Some (c @ [0]))" "0 \<notin> set c"
    "length c = length (cash_prefix tn) + 43" "cash_decode c = Some (Some (cash_prefix tn @ [0], ?d # h))"
    using cash_roundtrip [OF cash_prefix_ok, of "?d # h" tn] assms(1) by auto
  have "cash_version tn ?d = v" using assms(2) by (auto simp: cash_version_def)
  then have "BRBCashAddrDecode c = Some (length a + 1, a @ [0])"
    using decode_known_prefix [OF c(4) _ assms(1)] unfolding a by simp
  moreover have "BRBCashAddrEncode a = Some (Some (c @ [0]))" using encode_known [OF assms(1,2)] c(1) by (simp add: a)
  moreover have "length (c @ [0]) \<le> 55" using c(3) by (simp add: cash_prefix_def)
  ultimately show ?thesis using c(2) by blast
qed

lemma cashaddr_roundtrip_witness:
  "\<exists>a c. BRBCashAddrEncode a = Some (Some (c @ [0])) \<and> BRBCashAddrDecode c = Some (length a + 1, a @ [0])"
proof -
  let ?h = "replicate 20 7 :: byte list"
  have "length (pubkey_address True # ?h) = 21" by simp
  from check_string_size [OF this]
  have "BRBase58CheckEncode (Some 36) (pubkey_address True # ?h) =
      (length (check_string (pubkey_address True # ?h)) + 1, check_string (pubkey_address True # ?h) @ [0])"
    by (simp add: check_encode_form)
  from cashaddr_roundtrip [where tn = True, OF _ _ this] show ?thesis by auto
qed



end
