(* ===== verification/Bloom.thy ===== *)
theory Bloom
  imports Script Digests
begin

text \<open>
  BRBloomFilter.c: the Bloom filters sent to peers (BIP37). \<open>None\<close> is an access outside of the filter's array or a division
  by zero. The two floating point expressions of \<open>BRBloomFilterNew\<close> are parameters: \<open>rawLength\<close> is the value of
  the first, converted to \<open>size_t\<close>, \<open>rawFuncs\<close> that of the second as a function of the final length.
\<close>

definition BLOOM_MAX_FILTER_LENGTH :: nat where
  "BLOOM_MAX_FILTER_LENGTH = 36000"

definition BLOOM_MAX_HASH_FUNCS :: u32 where
  "BLOOM_MAX_HASH_FUNCS = 50"

record bloom =
  filter_bytes :: "byte list"
  flength :: nat
  hashFuncs :: u32
  elemCount :: nat
  tweak :: u32
  flags :: byte

definition bloom_hash :: "bloom \<Rightarrow> byte list \<Rightarrow> u32 \<Rightarrow> nat option" where
  "bloom_hash f data hashNum =
     (if flength f * 8 = 0 then None
      else Some (unat (BRMurmur3_32 data (hashNum * 0xfba4c795 + tweak f)) mod (flength f * 8)))"

definition BRBloomFilterNew :: "nat \<Rightarrow> (nat \<Rightarrow> u32) \<Rightarrow> u32 \<Rightarrow> byte \<Rightarrow> bloom" where
  "BRBloomFilterNew rawLength rawFuncs tw fl =
     (let len = (if rawLength > BLOOM_MAX_FILTER_LENGTH then BLOOM_MAX_FILTER_LENGTH else rawLength);
          len = (if len < 1 then 1 else len);
          funcs = (if rawFuncs len > BLOOM_MAX_HASH_FUNCS then BLOOM_MAX_HASH_FUNCS else rawFuncs len)
      in \<lparr>filter_bytes = replicate len 0, flength = len, hashFuncs = funcs, elemCount = 0, tweak = tw, flags = fl\<rparr>)"

text \<open>
  \<open>BRBloomFilterParse\<close> on a buffer that is not \<open>NULL\<close>; \<open>malloc(0)\<close> gives a pointer, as in the C libraries the wallet is
  built with. The inner \<open>None\<close> is \<open>NULL\<close>. The fields behind the filter are read even when it was too long.
\<close>

definition BRBloomFilterParse :: "byte list \<Rightarrow> bloom option option" where
  "BRBloomFilterParse buf =
     (let (flen, off) = varint_at buf 0;
          filter = (if flen \<le> BLOOM_MAX_FILTER_LENGTH \<and> size_add off flen \<le> length buf
                    then Some (take flen (drop off buf)) else None);
          off = size_add off flen
      in case (get_u32 buf off, get_u32 buf (size_add off 4), get_u8 buf (size_add (size_add off 4) 4)) of
           (Some funcs, Some tw, Some fl) \<Rightarrow>
             Some (case filter of
                     None \<Rightarrow> None
                   | Some b \<Rightarrow> Some \<lparr>filter_bytes = b, flength = flen, hashFuncs = funcs, elemCount = 0, tweak = tw, flags = fl\<rparr>)
         | _ \<Rightarrow> None)"

definition BRBloomFilterSerialize :: "bloom \<Rightarrow> nat option \<Rightarrow> (nat \<times> byte list) option" where
  "BRBloomFilterSerialize f buf =
     (let len = BRVarIntSize (of_nat (flength f)) + flength f + 4 + 4 + 1 in
      case buf of
        None \<Rightarrow> Some (len, [])
      | Some bufLen \<Rightarrow>
          if len \<le> bufLen then
            case mem_read (filter_bytes f) 0 (flength f) of
              None \<Rightarrow> None
            | Some b \<Rightarrow> Some (len, snd (BRVarIntSet (Some bufLen) (of_nat (flength f))) @ b @ UInt32SetLE (hashFuncs f) @
                                UInt32SetLE (tweak f) @ [flags f])
          else Some (0, []))"

text \<open>The loops over the hash functions, from function \<open>i\<close> on with \<open>n\<close> to go.\<close>

fun contains_loop :: "bloom \<Rightarrow> byte list \<Rightarrow> u32 \<Rightarrow> nat \<Rightarrow> bool option" where
  "contains_loop f data i 0 = Some True"
| "contains_loop f data i (Suc n) =
     (case bloom_hash f data i of
        None \<Rightarrow> None
      | Some idx \<Rightarrow>
          if idx div 8 < length (filter_bytes f) then
            (if \<not> bit (filter_bytes f ! (idx div 8)) (idx mod 8) then Some False else contains_loop f data (i + 1) n)
          else None)"

definition BRBloomFilterContainsData :: "bloom \<Rightarrow> byte list option \<Rightarrow> bool option" where
  "BRBloomFilterContainsData f data =
     (case data of None \<Rightarrow> Some False | Some d \<Rightarrow> contains_loop f d 0 (unat (hashFuncs f)))"

fun insert_loop :: "bloom \<Rightarrow> byte list \<Rightarrow> u32 \<Rightarrow> nat \<Rightarrow> bloom option" where
  "insert_loop f data i 0 = Some f"
| "insert_loop f data i (Suc n) =
     (case bloom_hash f data i of
        None \<Rightarrow> None
      | Some idx \<Rightarrow>
          if idx div 8 < length (filter_bytes f) then
            insert_loop (f\<lparr>filter_bytes := (filter_bytes f)[idx div 8 := filter_bytes f ! (idx div 8) OR push_bit (idx mod 8) 1]\<rparr>)
              data (i + 1) n
          else None)"

definition BRBloomFilterInsertData :: "bloom \<Rightarrow> byte list option \<Rightarrow> bloom option" where
  "BRBloomFilterInsertData f data =
     (case data of
        None \<Rightarrow> Some f
      | Some d \<Rightarrow> (case insert_loop f d 0 (unat (hashFuncs f)) of
                     None \<Rightarrow> None | Some g \<Rightarrow> Some (g\<lparr>elemCount := elemCount g + 1\<rparr>)))"

section \<open>Inserting\<close>

definition bloom_ok :: "bloom \<Rightarrow> bool" where
  "bloom_ok f \<longleftrightarrow> length (filter_bytes f) = flength f \<and> 1 \<le> flength f \<and> flength f \<le> BLOOM_MAX_FILTER_LENGTH"

text \<open>The bits of a filter, and the bit positions of an element.\<close>

definition fbit :: "bloom \<Rightarrow> nat \<Rightarrow> bool" where
  "fbit f idx \<longleftrightarrow> bit (filter_bytes f ! (idx div 8)) (idx mod 8)"

definition hash_bits :: "bloom \<Rightarrow> byte list \<Rightarrow> u32 \<Rightarrow> nat \<Rightarrow> nat set" where
  "hash_bits f d i n = (\<lambda>k. the (bloom_hash f d (i + of_nat k))) ` {..<n}"

lemma bloom_hash_ok:
  assumes "bloom_ok f"
  obtains idx where "bloom_hash f d i = Some idx" "idx < flength f * 8" "idx div 8 < length (filter_bytes f)"
proof -
  have "0 < flength f * 8" using assms by (simp add: bloom_ok_def)
  moreover have "m mod (flength f * 8) div 8 < flength f" if "0 < flength f * 8" for m
    using mod_less_divisor [OF that] by (simp add: div_less_iff_less_mult)
  ultimately show thesis using that assms by (simp add: bloom_hash_def bloom_ok_def)
qed

lemma bloom_hash_cong: "flength f = flength g \<Longrightarrow> tweak f = tweak g \<Longrightarrow> bloom_hash f d i = bloom_hash g d i"
  by (simp add: bloom_hash_def)

lemma hash_bits_cong: "flength f = flength g \<Longrightarrow> tweak f = tweak g \<Longrightarrow> hash_bits f d i n = hash_bits g d i n"
  using bloom_hash_cong [of f g] by (simp add: hash_bits_def)

lemma hash_bits_Suc: "hash_bits f d i (Suc n) = insert (the (bloom_hash f d i)) (hash_bits f d (i + 1) n)"
  by (simp add: hash_bits_def lessThan_Suc_eq_insert_0 image_image ac_simps)

lemma contains_iff:
  assumes "bloom_ok f"
  shows "contains_loop f d i n = Some (\<forall>idx \<in> hash_bits f d i n. fbit f idx)"
proof (induction n arbitrary: i)
  case 0
  then show ?case by (simp add: hash_bits_def)
next
  case (Suc n)
  obtain idx where "bloom_hash f d i = Some idx" "idx div 8 < length (filter_bytes f)"
    using bloom_hash_ok [OF assms] .
  with Suc show ?case by (simp add: hash_bits_Suc fbit_def)
qed

text \<open>What an operation on the filter keeps.\<close>

definition same_shape :: "bloom \<Rightarrow> bloom \<Rightarrow> bool" where
  "same_shape f g \<longleftrightarrow> flength g = flength f \<and> hashFuncs g = hashFuncs f \<and> tweak g = tweak f \<and> flags g = flags f \<and> bloom_ok g"

lemma set_bit_spec:
  assumes "bloom_ok f" "idx div 8 < length (filter_bytes f)"
  defines "g \<equiv> f\<lparr>filter_bytes := (filter_bytes f)[idx div 8 := filter_bytes f ! (idx div 8) OR push_bit (idx mod 8) 1]\<rparr>"
  shows "same_shape f g" "elemCount g = elemCount f" "fbit g k \<longleftrightarrow> fbit f k \<or> k = idx"
proof -
  show "same_shape f g" "elemCount g = elemCount f" using assms(1) by (simp_all add: same_shape_def g_def bloom_ok_def)
  have "k = idx \<longleftrightarrow> k div 8 = idx div 8 \<and> k mod 8 = idx mod 8" by (metis div_mult_mod_eq)
  moreover have "idx mod 8 < 8" "k mod 8 < 8" by simp_all
  ultimately show "fbit g k \<longleftrightarrow> fbit f k \<or> k = idx"
    using assms(2) by (auto simp: fbit_def g_def nth_list_update bit_simps)
qed

lemma insert_loop_spec:
  assumes "bloom_ok f"
  shows "\<exists>g. insert_loop f d i n = Some g \<and> same_shape f g \<and> elemCount g = elemCount f \<and>
     (\<forall>k. fbit g k \<longleftrightarrow> fbit f k \<or> k \<in> hash_bits f d i n)"
  using assms
proof (induction n arbitrary: i f)
  case 0
  then show ?case by (simp add: hash_bits_def same_shape_def)
next
  case (Suc n)
  obtain idx where idx: "bloom_hash f d i = Some idx" "idx div 8 < length (filter_bytes f)"
    using bloom_hash_ok [OF Suc.prems] .
  define g where "g = f\<lparr>filter_bytes := (filter_bytes f)[idx div 8 := filter_bytes f ! (idx div 8) OR push_bit (idx mod 8) 1]\<rparr>"
  note g = set_bit_spec [OF Suc.prems idx(2), folded g_def]
  obtain h where h: "insert_loop g d (i + 1) n = Some h" "same_shape g h" "elemCount h = elemCount g"
    "\<forall>k. fbit h k \<longleftrightarrow> fbit g k \<or> k \<in> hash_bits g d (i + 1) n"
    using Suc.IH [of g "i + 1"] g(1) by (auto simp: same_shape_def)
  have "insert_loop f d i (Suc n) = Some h" using idx h(1) by (simp add: g_def)
  moreover have "hash_bits g d (i + 1) n = hash_bits f d (i + 1) n"
    using g(1) by (intro hash_bits_cong) (simp_all add: same_shape_def)
  ultimately show ?case
    using h g idx(1) by (auto simp: same_shape_def hash_bits_Suc)
qed

lemma insert_data_spec:
  assumes "bloom_ok f"
  shows "\<exists>g. BRBloomFilterInsertData f (Some d) = Some g \<and> same_shape f g \<and> elemCount g = elemCount f + 1 \<and>
     (\<forall>k. fbit g k \<longleftrightarrow> fbit f k \<or> k \<in> hash_bits f d 0 (unat (hashFuncs f)))"
proof -
  obtain g where g: "insert_loop f d 0 (unat (hashFuncs f)) = Some g" "same_shape f g" "elemCount g = elemCount f"
    "\<forall>k. fbit g k \<longleftrightarrow> fbit f k \<or> k \<in> hash_bits f d 0 (unat (hashFuncs f))"
    using insert_loop_spec [OF assms] by blast
  then show ?thesis
    by (auto simp: BRBloomFilterInsertData_def same_shape_def bloom_ok_def fbit_def)
qed

text \<open>Inserting a list of elements, as the wallet does with its addresses and outputs.\<close>

fun insert_all :: "bloom \<Rightarrow> byte list list \<Rightarrow> bloom option" where
  "insert_all f [] = Some f"
| "insert_all f (d # ds) = (case BRBloomFilterInsertData f (Some d) of None \<Rightarrow> None | Some g \<Rightarrow> insert_all g ds)"

lemma insert_all_spec:
  assumes "bloom_ok f"
  shows "\<exists>g. insert_all f ds = Some g \<and> same_shape f g \<and> elemCount g = elemCount f + length ds \<and>
     (\<forall>k. fbit g k \<longleftrightarrow> fbit f k \<or> (\<exists>d \<in> set ds. k \<in> hash_bits f d 0 (unat (hashFuncs f))))"
  using assms
proof (induction ds arbitrary: f)
  case Nil
  then show ?case by (simp add: same_shape_def)
next
  case (Cons d ds)
  obtain g where g: "BRBloomFilterInsertData f (Some d) = Some g" "same_shape f g" "elemCount g = elemCount f + 1"
    "\<forall>k. fbit g k \<longleftrightarrow> fbit f k \<or> k \<in> hash_bits f d 0 (unat (hashFuncs f))"
    using insert_data_spec [OF Cons.prems] by blast
  have "bloom_ok g" and s: "flength g = flength f" "tweak g = tweak f" "hashFuncs g = hashFuncs f"
    using g(2) by (simp_all add: same_shape_def)
  from Cons.IH [OF this(1)] obtain h where h: "insert_all g ds = Some h" "same_shape g h"
    "elemCount h = elemCount g + length ds"
    "\<forall>k. fbit h k \<longleftrightarrow> fbit g k \<or> (\<exists>d \<in> set ds. k \<in> hash_bits g d 0 (unat (hashFuncs g)))" by blast
  have "hash_bits g e 0 (unat (hashFuncs g)) = hash_bits f e 0 (unat (hashFuncs f))" for e
    using s by (simp add: hash_bits_cong [of g f])
  with g h show ?case by (auto simp: same_shape_def)
qed

section \<open>Properties\<close>

text \<open>
  C33: on a well-formed filter inserting never fails and keeps the filter well-formed, and a filter never denies an element
  that was put into it, whatever else was put in before and after.
\<close>

theorem bloom_no_false_negatives:
  assumes "bloom_ok f"
  shows "\<exists>g. insert_all f ds = Some g \<and> bloom_ok g \<and> elemCount g = elemCount f + length ds \<and>
     (\<forall>d \<in> set ds. BRBloomFilterContainsData g (Some d) = Some True) \<and>
     (\<forall>d. BRBloomFilterContainsData f (Some d) = Some True \<longrightarrow> BRBloomFilterContainsData g (Some d) = Some True)"
proof -
  obtain g where g: "insert_all f ds = Some g" "same_shape f g" "elemCount g = elemCount f + length ds"
    "\<forall>k. fbit g k \<longleftrightarrow> fbit f k \<or> (\<exists>d \<in> set ds. k \<in> hash_bits f d 0 (unat (hashFuncs f)))"
    using insert_all_spec [OF assms] by blast
  have ok: "bloom_ok g" and s: "flength g = flength f" "tweak g = tweak f" "hashFuncs g = hashFuncs f"
    using g(2) by (simp_all add: same_shape_def)
  have "hash_bits g d 0 (unat (hashFuncs g)) = hash_bits f d 0 (unat (hashFuncs f))" for d
    using s by (simp add: hash_bits_cong [of g f])
  then have c: "BRBloomFilterContainsData g (Some d) = Some (\<forall>k \<in> hash_bits f d 0 (unat (hashFuncs f)). fbit g k)"
    "BRBloomFilterContainsData f (Some d) = Some (\<forall>k \<in> hash_bits f d 0 (unat (hashFuncs f)). fbit f k)" for d
    by (simp_all add: BRBloomFilterContainsData_def contains_iff [OF ok] contains_iff [OF assms])
  show ?thesis using g ok by (auto simp: c)
qed

lemma bloom_no_false_negatives_witness:
  "\<exists>g. insert_all (BRBloomFilterNew 12 (\<lambda>_. 7) 5 1) [[1, 2], [3]] = Some g \<and>
     BRBloomFilterContainsData g (Some [1, 2]) = Some True \<and> BRBloomFilterContainsData g (Some [3]) = Some True"
  using bloom_no_false_negatives [of "BRBloomFilterNew 12 (\<lambda>_. 7) 5 1" "[[1, 2], [3]]"]
  by (auto simp: bloom_ok_def BRBloomFilterNew_def BLOOM_MAX_FILTER_LENGTH_def)

text \<open>
  A well-formed filter is read back from its serialization, of the size the length query announces, except for
  the element count, which is not stored.
\<close>

theorem bloom_parse_serialize:
  assumes "bloom_ok f"
  shows "\<exists>n b. BRBloomFilterSerialize f None = Some (n, []) \<and> BRBloomFilterSerialize f (Some n) = Some (n, b) \<and> length b = n \<and>
     BRBloomFilterParse b = Some (Some (f\<lparr>elemCount := 0\<rparr>))"
proof -
  let ?v = "varint_bytes (of_nat (flength f))" and ?n = "BRVarIntSize (of_nat (flength f))"
  let ?b = "?v @ filter_bytes f @ UInt32SetLE (hashFuncs f) @ UInt32SetLE (tweak f) @ [flags f]"
  have len: "length (filter_bytes f) = flength f" "flength f \<le> 36000"
    using assms by (simp_all add: bloom_ok_def BLOOM_MAX_FILTER_LENGTH_def)
  have n: "?n \<le> 9" by (simp add: BRVarIntSize_def BRVarIntSet_def)
  have m: "mem_read (filter_bytes f) 0 (flength f) = Some (filter_bytes f)" using len by (simp add: mem_read_def)
  have set: "BRVarIntSet (Some (?n + flength f + 4 + 4 + 1)) (of_nat (flength f)) = (?n, ?v)"
    by (simp add: BRVarIntSet_def BRVarIntSize_def Let_def)
  have va: "varint_at ?b 0 = (flength f, ?n)"
    using varint_read_written [of "of_nat (flength f)" "filter_bytes f @ UInt32SetLE (hashFuncs f) @ UInt32SetLE (tweak f) @ [flags f]"]
      of_nat_small_ne [of "flength f", where 'a = 64] len(2)
    by (simp add: varint_at_def)
  have o: "size_add ?n (flength f) = length (?v @ filter_bytes f)"
    "size_add (length (?v @ filter_bytes f)) 4 = length (?v @ filter_bytes f @ UInt32SetLE (hashFuncs f))"
    "size_add (length (?v @ filter_bytes f @ UInt32SetLE (hashFuncs f))) 4 =
       length (?v @ filter_bytes f @ UInt32SetLE (hashFuncs f) @ UInt32SetLE (tweak f))"
    using n len by (simp_all add: size_add_small)
  have g: "get_u32 ?b (length (?v @ filter_bytes f)) = Some (hashFuncs f)"
    "get_u32 ?b (length (?v @ filter_bytes f @ UInt32SetLE (hashFuncs f))) = Some (tweak f)"
    "get_u8 ?b (length (?v @ filter_bytes f @ UInt32SetLE (hashFuncs f) @ UInt32SetLE (tweak f))) = Some (flags f)"
    using n len
      get_field_in [of _ "?v @ filter_bytes f" "UInt32SetLE (hashFuncs f)" 4 "UInt32SetLE (tweak f) @ [flags f]" UInt32GetLE 0]
      get_field_in [of _ "?v @ filter_bytes f @ UInt32SetLE (hashFuncs f)" "UInt32SetLE (tweak f)" 4 "[flags f]" UInt32GetLE 0]
      get_field_in [of _ "?v @ filter_bytes f @ UInt32SetLE (hashFuncs f) @ UInt32SetLE (tweak f)" "[flags f]" 1 "[]" "\<lambda>b. b ! 0" 0]
    by (simp_all add: get_u32_def get_u8_def uint_get_set)
  have "BRBloomFilterParse ?b = Some (Some (f\<lparr>elemCount := 0\<rparr>))"
    unfolding BRBloomFilterParse_def va prod.case Let_def o g using len
    by (simp add: BLOOM_MAX_FILTER_LENGTH_def)
  moreover have "BRBloomFilterSerialize f (Some (?n + flength f + 4 + 4 + 1)) = Some (?n + flength f + 4 + 4 + 1, ?b)"
    unfolding BRBloomFilterSerialize_def Let_def option.case m set by simp
  moreover have "BRBloomFilterSerialize f None = Some (?n + flength f + 4 + 4 + 1, [])"
    by (simp add: BRBloomFilterSerialize_def)
  moreover have "length ?b = ?n + flength f + 4 + 4 + 1" using len by simp
  ultimately show ?thesis by blast
qed

lemma bloom_parse_serialize_witness:
  "\<exists>n b. BRBloomFilterSerialize (BRBloomFilterNew 12 (\<lambda>_. 7) 5 1) (Some n) = Some (n, b) \<and>
     BRBloomFilterParse b = Some (Some (BRBloomFilterNew 12 (\<lambda>_. 7) 5 1))"
proof -
  let ?f = "BRBloomFilterNew 12 (\<lambda>_. 7) 5 1"
  have "bloom_ok ?f" "?f\<lparr>elemCount := 0\<rparr> = ?f"
    by (simp_all add: bloom_ok_def BRBloomFilterNew_def BLOOM_MAX_FILTER_LENGTH_def)
  with bloom_parse_serialize [of ?f] show ?thesis by auto
qed

text \<open>
  Two inputs the parser does not reject: a length close to \<open>2 ^ 64\<close> makes the tests of the following fields wrap
  and a field in front of the buffer is read, and the length 0 gives a filter on which the first lookup divides by zero.
\<close>

theorem bloom_parse_faults:
  "BRBloomFilterParse [0xff, 0xf5, 0xff, 0xff, 0xff, 0xff, 0xff, 0xff, 0xff] = None \<and>
   (\<exists>f. BRBloomFilterParse [0, 1, 0, 0, 0, 0, 0, 0, 0, 0] = Some (Some f) \<and> BRBloomFilterContainsData f (Some d) = None)"
proof
  have l: "UInt64GetLE [0xf5, 0xff, 0xff, 0xff, 0xff, 0xff, 0xff, 0xff] = 0xfffffffffffffff5"
    by (simp add: UInt64GetLE_def nth_Cons_small)
  have v: "varint_at [0xff, 0xf5, 0xff, 0xff, 0xff, 0xff, 0xff, 0xff, 0xff] 0 = (18446744073709551605, 9)"
    by (simp add: varint_at_def BRVarInt_def l)
  show "BRBloomFilterParse [0xff, 0xf5, 0xff, 0xff, 0xff, 0xff, 0xff, 0xff, 0xff] = None"
    unfolding BRBloomFilterParse_def v by (simp add: size_add_def get_u32_def get_field_def)
  have w: "varint_at [0, 1, 0, 0, 0, 0, 0, 0, 0, 0] 0 = (0, 1)"
    by (simp add: varint_at_def BRVarInt_def)
  have u: "get_u32 [0, 1, 0, 0, 0, 0, 0, 0, 0, 0] 1 = Some 1" "get_u32 [0, 1, 0, 0, 0, 0, 0, 0, 0, 0] 5 = Some 0"
    "get_u8 [0, 1, 0, 0, 0, 0, 0, 0, 0, 0] 9 = Some 0"
    by (simp_all add: get_u32_def get_u8_def get_field_def size_add_def UInt32GetLE_def nth_Cons_small drop_Cons_numeral)
  have c: "contains_loop f d 0 1 = None" if "flength f = 0" for f using that by (simp add: bloom_hash_def)
  show "\<exists>f. BRBloomFilterParse [0, 1, 0, 0, 0, 0, 0, 0, 0, 0] = Some (Some f) \<and> BRBloomFilterContainsData f (Some d) = None"
    unfolding BRBloomFilterParse_def w by (simp add: size_add_def u BRBloomFilterContainsData_def c del: contains_loop.simps One_nat_def)
qed

end
