(* ===== verification/Merkle.thy ===== *)
theory Merkle
  imports Script Digests HashSet
begin

text \<open>
  BRMerkleBlock.c: block headers with a partial Merkle tree (BIP37). A pointer that may be \<open>NULL\<close> is an option; \<open>None\<close> as a
  result is an access outside of an object, or a loop that does not end.
\<close>

record mblock =
  blockHash :: UInt256
  version :: u32
  prevBlock :: UInt256
  merkleRoot :: UInt256
  timestamp :: u32
  target :: u32
  nonce :: u32
  totalTx :: u32
  hashes :: "UInt256 list option"
  hashesCount :: nat
  mflags :: "byte list option"
  flagsLen :: nat
  height :: u32

definition BLOCK_UNKNOWN_HEIGHT :: u32 where
  "BLOCK_UNKNOWN_HEIGHT = 0x7fffffff"

definition BRMerkleBlockNew :: mblock where
  "BRMerkleBlockNew = \<lparr>blockHash = 0, version = 0, prevBlock = 0, merkleRoot = 0, timestamp = 0, target = 0, nonce = 0,
     totalTx = 0, hashes = None, hashesCount = 0, mflags = None, flagsLen = 0, height = BLOCK_UNKNOWN_HEIGHT\<rparr>"

text \<open>\<open>_ceil_log2\<close> on an \<open>int\<close>; the arithmetic shift of a negative number never gets to 0.\<close>

partial_function (option) shift_loop :: "int \<Rightarrow> nat \<Rightarrow> nat option" where
  "shift_loop x r = (let x = x div 2 in if x \<noteq> 0 then shift_loop x (r + 1) else Some r)"

definition ceil_log2 :: "int \<Rightarrow> nat option" where
  "ceil_log2 x = shift_loop x (if (of_int x :: 32 word) AND (of_int x - 1) \<noteq> 0 then 1 else 0)"

definition tree_depth :: "mblock \<Rightarrow> nat option" where
  "tree_depth b = ceil_log2 (sint (totalTx b))"

section \<open>Parsing and serializing\<close>

text \<open>
  \<open>(off + len <= bufLen) ? malloc(len) : NULL\<close> and the copy. A sum that wraps needs a length over \<open>2 ^ 63\<close>, for which
  \<open>malloc\<close> fails, so the outcome is that of the test without wrap-around.
\<close>

definition alloc_copy :: "byte list \<Rightarrow> nat \<Rightarrow> nat \<Rightarrow> byte list option" where
  "alloc_copy buf off len = mem_read buf off len"

definition BRMerkleBlockParse :: "byte list \<Rightarrow> mblock option" where
  "BRMerkleBlockParse buf =
     (if length buf < 80 then None
      else
        let b = BRMerkleBlockNew\<lparr>version := UInt32GetLE buf, prevBlock := UInt256Get (drop 4 buf),
                  merkleRoot := UInt256Get (drop 36 buf), timestamp := UInt32GetLE (drop 68 buf),
                  target := UInt32GetLE (drop 72 buf), nonce := UInt32GetLE (drop 76 buf)\<rparr>;
            b = (if 80 + 4 \<le> length buf then
                   let tx = UInt32GetLE (drop 80 buf); off = 84;
                       (hc, len) = varint_at buf off; off = off + len;
                       len = size_mul hc 32;
                       hs = alloc_copy buf off len; off = size_add off len;
                       (fl, flen) = varint_at buf off; off = size_add off flen;
                       fs = alloc_copy buf off fl
                   in b\<lparr>totalTx := tx, hashesCount := hc, hashes := map_option (\<lambda>h. map UInt256Get (chunks 32 h)) hs,
                        flagsLen := fl, mflags := fs\<rparr>
                 else b)
        in Some (b\<lparr>blockHash := UInt256Get (BRSHA256_2 (take 80 buf))\<rparr>))"

text \<open>The bytes of the header, over which the block hash is computed.\<close>

definition header_bytes :: "mblock \<Rightarrow> byte list" where
  "header_bytes b = UInt32SetLE (version b) @ UInt256Set (prevBlock b) @ UInt256Set (merkleRoot b) @
     UInt32SetLE (timestamp b) @ UInt32SetLE (target b) @ UInt32SetLE (nonce b)"

text \<open>
  \<open>BRMerkleBlockSerialize\<close> into a buffer with contents, which show where a \<open>NULL\<close> array leaves a gap.
\<close>

definition copy_array :: "'a list option \<Rightarrow> nat \<Rightarrow> ('a list \<Rightarrow> byte list) \<Rightarrow> byte list \<Rightarrow> byte list option" where
  "copy_array a n enc old =
     (case a of None \<Rightarrow> Some old | Some xs \<Rightarrow> if n \<le> length xs then Some (enc (take n xs)) else None)"

definition BRMerkleBlockSerialize :: "mblock \<Rightarrow> byte list option \<Rightarrow> (nat \<times> byte list) option" where
  "BRMerkleBlockSerialize b buf =
     (let hc = of_nat (hashesCount b) :: u64; fl = of_nat (flagsLen b) :: u64;
          len = (if totalTx b > 0
                 then size_add (size_add (size_add (size_add (80 + 4) (BRVarIntSize hc)) (size_mul (hashesCount b) 32))
                        (BRVarIntSize fl)) (flagsLen b)
                 else 80)
      in case buf of
           None \<Rightarrow> Some (len, [])
         | Some old \<Rightarrow>
             if \<not> len \<le> length old then Some (0, old)
             else if \<not> totalTx b > 0 then Some (len, header_bytes b @ drop 80 old)
             else
               let o1 = 84 + BRVarIntSize hc; o2 = o1 + 32 * hashesCount b + BRVarIntSize fl in
               if \<not> o2 + flagsLen b \<le> length old then None
               else
                 case copy_array (hashes b) (hashesCount b) (\<lambda>hs. concat (map UInt256Set hs)) (take (32 * hashesCount b) (drop o1 old)) of
                   None \<Rightarrow> None
                 | Some hb \<Rightarrow>
                     case copy_array (mflags b) (flagsLen b) (\<lambda>fs. fs) (take (flagsLen b) (drop o2 old)) of
                       None \<Rightarrow> None
                     | Some fb \<Rightarrow>
                         Some (len, header_bytes b @ UInt32SetLE (totalTx b) @ varint_bytes hc @ hb @ varint_bytes fl @ fb @
                                    drop (o2 + flagsLen b) old))"

section \<open>The partial Merkle tree\<close>

text \<open>
  The test at the start of both recursions, \<open>*flagIdx/8 < flagsLen && *hashIdx < hashesCount\<close>, and the flag bit; \<open>None\<close> when
  the array does not have the byte.
\<close>

definition more :: "mblock \<Rightarrow> nat \<Rightarrow> nat \<Rightarrow> bool" where
  "more b hashIdx flagIdx \<longleftrightarrow> flagIdx div 8 < flagsLen b \<and> hashIdx < hashesCount b"

definition flag_at :: "mblock \<Rightarrow> nat \<Rightarrow> bool option" where
  "flag_at b flagIdx =
     (case mflags b of
        None \<Rightarrow> None
      | Some fs \<Rightarrow> if flagIdx div 8 < length fs then Some (bit (fs ! (flagIdx div 8)) (flagIdx mod 8)) else None)"

definition hash_at :: "mblock \<Rightarrow> nat \<Rightarrow> UInt256 option" where
  "hash_at b i = (case hashes b of None \<Rightarrow> None | Some hs \<Rightarrow> if i < length hs then Some (hs ! i) else None)"

definition node_hash :: "UInt256 \<Rightarrow> UInt256 \<Rightarrow> UInt256" where
  "node_hash l r = UInt256Get (BRSHA256_2 (UInt256Set l @ UInt256Set r))"

text \<open>
  \<open>_BRMerkleBlockRootR\<close>: the hash, \<open>hashIdx\<close> and \<open>flagIdx\<close>. The argument \<open>k\<close> is the number of levels below the node,
  \<open>_ceil_log2(totalTx) - depth\<close>, which is what \<open>depth != _ceil_log2(totalTx)\<close> compares with 0.
\<close>

fun RootR :: "mblock \<Rightarrow> nat \<Rightarrow> nat \<Rightarrow> nat \<Rightarrow> (UInt256 \<times> nat \<times> nat) option" where
  "RootR b k hashIdx flagIdx =
     (if \<not> more b hashIdx flagIdx then Some (0, hashIdx, flagIdx)
      else
        case flag_at b flagIdx of
          None \<Rightarrow> None
        | Some flag \<Rightarrow>
            if flag \<and> k \<noteq> 0 then
              (case k of
                 0 \<Rightarrow> None
               | Suc k \<Rightarrow>
                   case RootR b k hashIdx (flagIdx + 1) of
                     None \<Rightarrow> None
                   | Some (h0, hashIdx, flagIdx) \<Rightarrow>
                       case RootR b k hashIdx flagIdx of
                         None \<Rightarrow> None
                       | Some (h1, hashIdx, flagIdx) \<Rightarrow>
                           if \<not> UInt256IsZero h0 \<and> \<not> UInt256Eq h0 h1
                           then Some (node_hash h0 (if UInt256IsZero h1 then h0 else h1), hashIdx, flagIdx)
                           else Some (0, SIZE_MAX, flagIdx))
            else
              (case hash_at b hashIdx of None \<Rightarrow> None | Some md \<Rightarrow> Some (md, hashIdx + 1, flagIdx + 1)))"

declare RootR.simps [simp del]

text \<open>
  \<open>_BRMerkleBlockTxHashesR\<close>: the matched hashes so far. \<open>dst\<close> is the number of entries of \<open>txHashes\<close>; for \<open>NULL\<close> the limit is
  \<open>SIZE_MAX\<close>, the hashes are counted and not read, and 0 stands for each.
\<close>

definition take_leaf :: "mblock \<Rightarrow> nat option \<Rightarrow> UInt256 list \<Rightarrow> nat \<Rightarrow> UInt256 list option" where
  "take_leaf b dst out hashIdx =
     (if length out < (case dst of None \<Rightarrow> SIZE_MAX | Some n \<Rightarrow> n) then
        (case dst of None \<Rightarrow> Some (out @ [0]) | Some _ \<Rightarrow> map_option (\<lambda>h. out @ [h]) (hash_at b hashIdx))
      else Some out)"

fun TxHashesR :: "mblock \<Rightarrow> nat option \<Rightarrow> nat \<Rightarrow> UInt256 list \<Rightarrow> nat \<Rightarrow> nat \<Rightarrow> (UInt256 list \<times> nat \<times> nat) option" where
  "TxHashesR b dst k out hashIdx flagIdx =
     (if \<not> more b hashIdx flagIdx then Some (out, hashIdx, flagIdx)
      else
        case flag_at b flagIdx of
          None \<Rightarrow> None
        | Some flag \<Rightarrow>
            if \<not> flag \<or> k = 0 then
              map_option (\<lambda>out. (out, hashIdx + 1, flagIdx + 1)) (if flag then take_leaf b dst out hashIdx else Some out)
            else
              (case k of
                 0 \<Rightarrow> None
               | Suc k \<Rightarrow>
                   case TxHashesR b dst k out hashIdx (flagIdx + 1) of
                     None \<Rightarrow> None
                   | Some (out, hashIdx, flagIdx) \<Rightarrow> TxHashesR b dst k out hashIdx flagIdx))"

declare TxHashesR.simps [simp del]

text \<open>
  The recursions evaluate \<open>_ceil_log2\<close> at the first set flag, so it has to return only when there is one. With no flag
  set only the root node is looked at, whatever \<open>k\<close> is.
\<close>

definition with_depth :: "mblock \<Rightarrow> (nat \<Rightarrow> 'a option) \<Rightarrow> 'a option" where
  "with_depth b f =
     (case tree_depth b of
        Some k \<Rightarrow> f k
      | None \<Rightarrow> if more b 0 0 \<and> flag_at b 0 = Some True then None else f 0)"

text \<open>The number of hashes and what is written to an array of the given number of entries.\<close>

definition BRMerkleBlockTxHashes :: "mblock \<Rightarrow> nat option \<Rightarrow> (nat \<times> UInt256 list) option" where
  "BRMerkleBlockTxHashes b txHashes =
     map_option (\<lambda>(out, _). (length out, if txHashes = None then [] else out))
       (with_depth b (\<lambda>k. TxHashesR b txHashes k [] 0 0))"

text \<open>
  \<open>BRMerkleBlockSetTxHashes\<close> replaces the arrays; it leaves \<open>hashesCount\<close> and \<open>flagsLen\<close> as they are.
\<close>

definition BRMerkleBlockSetTxHashes :: "mblock \<Rightarrow> UInt256 list \<Rightarrow> byte list \<Rightarrow> mblock" where
  "BRMerkleBlockSetTxHashes b hs fs =
     b\<lparr>hashes := (if length hs > 0 then Some hs else None), mflags := (if length fs > 0 then Some fs else None)\<rparr>"

text \<open>\<open>BRMerkleBlockCopy\<close>; a \<open>NULL\<close> array with a count over 0 fails the assertion of the setter.\<close>

definition BRMerkleBlockCopy :: "mblock \<Rightarrow> mblock option" where
  "BRMerkleBlockCopy b =
     (if (hashes b = None \<and> hashesCount b \<noteq> 0) \<or> (mflags b = None \<and> flagsLen b \<noteq> 0) then None
      else
        let hs = (case hashes b of None \<Rightarrow> [] | Some hs \<Rightarrow> hs); fs = (case mflags b of None \<Rightarrow> [] | Some fs \<Rightarrow> fs)
        in if length hs < hashesCount b \<or> length fs < flagsLen b then None
           else Some (BRMerkleBlockSetTxHashes (b\<lparr>hashes := None, mflags := None\<rparr>)
                        (take (hashesCount b) hs) (take (flagsLen b) fs)))"

section \<open>Validity\<close>

definition MAX_PROOF_OF_WORK :: u32 where "MAX_PROOF_OF_WORK = 0x1d00ffff"

definition maxsize :: u32 where "maxsize = drop_bit 24 MAX_PROOF_OF_WORK"

definition maxtarget :: u32 where "maxtarget = MAX_PROOF_OF_WORK AND 0x00ffffff"

definition BLOCK_MAX_TIME_DRIFT :: u32 where "BLOCK_MAX_TIME_DRIFT = 2 * 60 * 60"

text \<open>
  The compact target as the 32 bytes \<open>t\<close>; for a size over 31 the four bytes at \<open>t.u8[size - 3]\<close> leave \<open>t\<close>.
\<close>

definition compact_bytes :: "u32 \<Rightarrow> u32 \<Rightarrow> byte list option" where
  "compact_bytes sz tgt =
     (if sz > 3 then
        let k = unat sz - 3 in
        if k + 4 \<le> 32 then Some (replicate k 0 @ UInt32SetLE tgt @ replicate (32 - (k + 4)) 0) else None
      else Some (UInt32SetLE (drop_bit ((3 - unat sz) * 8) tgt) @ replicate 28 0))"

text \<open>The comparison loop, from the most significant byte down.\<close>

fun pow_loop :: "(byte \<times> byte) list \<Rightarrow> bool" where
  "pow_loop [] = True"
| "pow_loop ((h, t) # r) = (if h < t then True else if h > t then False else pow_loop r)"

definition BRMerkleBlockIsValid :: "mblock \<Rightarrow> u32 \<Rightarrow> bool option" where
  "BRMerkleBlockIsValid b currentTime =
     (let sz = drop_bit 24 (target b); tgt = target b AND 0x00ffffff in
      case with_depth b (\<lambda>k. RootR b k 0 0) of
        None \<Rightarrow> None
      | Some (root, _) \<Rightarrow>
          let r = \<not> (totalTx b > 0 \<and> \<not> UInt256Eq root (merkleRoot b));
              r = (r \<and> \<not> timestamp b > currentTime + BLOCK_MAX_TIME_DRIFT);
              r = (r \<and> \<not> (tgt = 0 \<or> tgt AND 0x00800000 \<noteq> 0 \<or> sz > maxsize \<or> (sz = maxsize \<and> tgt > maxtarget)))
          in case compact_bytes sz tgt of
               None \<Rightarrow> None
             | Some t \<Rightarrow> Some (r \<and> pow_loop (rev (zip (UInt256Set (blockHash b)) t))))"

fun contains_hash :: "mblock \<Rightarrow> UInt256 \<Rightarrow> nat \<Rightarrow> nat \<Rightarrow> bool option" where
  "contains_hash b h i 0 = Some False"
| "contains_hash b h i (Suc n) =
     (case hash_at b i of None \<Rightarrow> None | Some x \<Rightarrow> if UInt256Eq x h then Some True else contains_hash b h (i + 1) n)"

definition BRMerkleBlockContainsTxHash :: "mblock \<Rightarrow> UInt256 \<Rightarrow> bool option" where
  "BRMerkleBlockContainsTxHash b txHash =
     (if UInt256IsZero txHash then None else contains_hash b txHash 0 (hashesCount b))"

section \<open>Difficulty\<close>

definition BLOCK_DIFFICULTY_INTERVAL :: u32 where "BLOCK_DIFFICULTY_INTERVAL = 2016"

definition TARGET_TIMESPAN :: int where "TARGET_TIMESPAN = 14 * 24 * 60 * 60"

function normalize :: "int \<Rightarrow> u64 \<Rightarrow> int \<times> u64" where
  "normalize sz tgt = (if sz < 1 \<or> tgt > 0x007fffff then normalize (sz + 1) (drop_bit 8 tgt) else (sz, tgt))"
  by pat_completeness auto
termination
proof (relation "measure (\<lambda>(sz, tgt). nat (1 - sz) + unat tgt)")
  fix sz :: int and tgt :: u64
  assume *: "sz < 1 \<or> tgt > 0x007fffff"
  have le: "unat (drop_bit 8 tgt) = unat tgt div 256" by (simp only: unat_drop_bit_eq) (simp add: drop_bit_eq_div)
  have "0x007fffff < tgt \<Longrightarrow> 0 < unat tgt" by (simp add: word_less_nat_alt)
  then show "((sz + 1, drop_bit 8 tgt), sz, tgt) \<in> measure (\<lambda>(sz, tgt). nat (1 - sz) + unat tgt)"
    using * unfolding in_measure prod.case le by (cases "sz < 1") (auto intro: add_less_le_mono)
qed simp

declare normalize.simps [simp del]

text \<open>The conversion of the difference to \<open>int\<close> keeps its low 32 bits.\<close>

definition clamp_timespan :: "u32 \<Rightarrow> u32 \<Rightarrow> int" where
  "clamp_timespan ts transitionTime =
     (let timespan = sint (of_int (uint ts - uint transitionTime) :: 32 word);
          timespan = (if timespan < TARGET_TIMESPAN div 4 then TARGET_TIMESPAN div 4 else timespan)
      in if timespan > TARGET_TIMESPAN * 4 then TARGET_TIMESPAN * 4 else timespan)"

definition next_target :: "u32 \<Rightarrow> int \<Rightarrow> u32" where
  "next_target prevTarget timespan =
     (let sz = uint (drop_bit 24 prevTarget); tgt = ucast (prevTarget AND 0x00ffffff) :: u64;
          tgt = tgt * of_int timespan;
          tgt = tgt div of_int (TARGET_TIMESPAN div 2 ^ 8);
          (sz, tgt) = normalize (sz - 1) tgt;
          (sz, tgt) = (if (of_int sz :: u32) > maxsize \<or> ((of_int sz :: u32) = maxsize \<and> tgt > ucast maxtarget)
                       then (uint maxsize, ucast maxtarget) else (sz, tgt))
      in ucast tgt OR push_bit 24 (of_int sz))"

definition BRMerkleBlockVerifyDifficulty :: "mblock \<Rightarrow> mblock option \<Rightarrow> u32 \<Rightarrow> bool option" where
  "BRMerkleBlockVerifyDifficulty b previous transitionTime =
     (case previous of
        None \<Rightarrow> None
      | Some p \<Rightarrow>
          let r = \<not> (\<not> UInt256Eq (prevBlock b) (blockHash p) \<or> height b \<noteq> height p + 1);
              atInterval = (height b mod BLOCK_DIFFICULTY_INTERVAL = 0);
              r = (r \<and> \<not> (atInterval \<and> transitionTime = 0))
          in Some (if r \<and> atInterval
                   then target b = next_target (target p) (clamp_timespan (timestamp p) transitionTime)
                   else r \<and> target b = target p))"

definition BRMerkleBlockHash :: "mblock \<Rightarrow> nat" where
  "BRMerkleBlockHash b = unat (u32_view (blockHash b) 0)"

definition BRMerkleBlockEq :: "mblock \<Rightarrow> mblock \<Rightarrow> bool" where
  "BRMerkleBlockEq b c \<longleftrightarrow> UInt256Eq (blockHash b) (blockHash c)"

text \<open>The blocks of a set of blocks are told apart by their hash.\<close>

interpretation block_set: item_equality BRMerkleBlockHash BRMerkleBlockEq
  by unfold_locales (auto simp: BRMerkleBlockHash_def BRMerkleBlockEq_def)

section \<open>The depth of the tree\<close>

lemma shift_loop_nonneg:
  assumes "shift_loop x r = Some y"
  shows "0 \<le> x"
proof (rule shift_loop.raw_induct [where P = "\<lambda>x r y. 0 \<le> x" and xa = "(x, r)" and y = y, unfolded prod.case])
  fix f :: "int \<Rightarrow> nat \<Rightarrow> nat option" and x r y
  assume IH: "\<And>x r y. f x r = Some y \<Longrightarrow> 0 \<le> x"
    and step: "(let x = x div 2 in if x \<noteq> 0 then f x (r + 1) else Some r) = Some y"
  show "0 \<le> x"
  proof (cases "x div 2 = 0")
    case False
    then have "f (x div 2) (r + 1) = Some y" using step by (simp add: Let_def)
    then have "0 \<le> x div 2" by (rule IH)
    then show ?thesis by simp
  qed linarith
qed (rule assms)

lemma shift_loop_log:
  "2 ^ m \<le> x \<Longrightarrow> x < 2 ^ Suc m \<Longrightarrow> shift_loop (int x) r = Some (r + m)"
proof (induction m arbitrary: x r)
  case 0
  then have "x = 1" by simp
  then show ?case by (subst shift_loop.simps) simp
next
  case (Suc m)
  have "2 ^ m \<le> x div 2" "x div 2 < 2 ^ Suc m" using Suc.prems by simp_all
  note IH = Suc.IH [OF this, of "r + 1"]
  have "int x div 2 = int (x div 2)" by simp
  moreover have "x div 2 \<noteq> 0" using \<open>2 ^ m \<le> x div 2\<close> by (metis le_zero_eq power_not_zero zero_neq_numeral)
  ultimately show ?case using IH by (subst shift_loop.simps) (simp add: Let_def del: of_nat_div)
qed

lemma bit_of_nat32: "bit (of_nat x :: u32) i \<longleftrightarrow> i < 32 \<and> bit x i"
  by (simp add: bit_of_nat_iff possible_bit_word)

lemma and_pred_power:
  assumes "2 ^ m \<le> x" "x < 2 ^ Suc m" "m < 32"
  shows "(of_nat x :: u32) AND (of_nat x - 1) \<noteq> 0 \<longleftrightarrow> x \<noteq> 2 ^ m"
proof
  assume "x \<noteq> 2 ^ m"
  then have p: "2 ^ m \<le> x - 1" "x - 1 < 2 ^ Suc m" "0 < x" using assms by auto
  have b: "bit y m" if "2 ^ m \<le> y" "y < 2 ^ Suc m" for y :: nat
  proof -
    have "y div 2 ^ m = 1" using that by (intro div_nat_eqI) simp_all
    then show ?thesis by (simp add: bit_iff_odd)
  qed
  have "(of_nat x :: u32) - 1 = of_nat (x - 1)" using p(3) by simp
  then have "bit ((of_nat x :: u32) AND (of_nat x - 1)) m"
    using b [OF assms(1,2)] b [OF p(1,2)] assms(3) by (simp add: bit_and_iff bit_of_nat32)
  then show "(of_nat x :: u32) AND (of_nat x - 1) \<noteq> 0" by auto
next
  assume *: "(of_nat x :: u32) AND (of_nat x - 1) \<noteq> 0"
  show "x \<noteq> 2 ^ m"
  proof
    assume x: "x = 2 ^ m"
    have "(of_nat x :: u32) - 1 = mask m" by (simp add: x mask_eq_exp_minus_1)
    moreover have "(of_nat x :: u32) AND mask m = 0"
      by (simp add: x take_bit_eq_mask [symmetric]) (simp add: take_bit_eq_mod)
    ultimately show False using * by simp
  qed
qed

lemma ceil_log2_spec:
  assumes "n \<le> 2 ^ k" "k = 0 \<or> 2 ^ (k - 1) < n" "0 < n" "n < 2 ^ 31"
  shows "ceil_log2 (int n) = Some k"
proof -
  define m where "m = (if n = 2 ^ k then k else k - 1)"
  have m: "2 ^ m \<le> n" "n < 2 ^ Suc m" "k = m + (if n = 2 ^ m then 0 else 1)"
    using assms by (cases k; auto simp: m_def)+
  have "m < 31"
  proof (rule ccontr)
    assume "\<not> m < 31"
    then have "(2 :: nat) ^ 31 \<le> 2 ^ m" by (intro power_increasing) simp_all
    with m(1) assms(4) show False by simp
  qed
  then have "ceil_log2 (int n) = Some ((if n \<noteq> 2 ^ m then 1 else 0) + m)"
    unfolding ceil_log2_def of_int_of_nat_eq using and_pred_power [OF m(1,2)] shift_loop_log [OF m(1,2)] by simp
  then show ?thesis using m(3) by auto
qed

lemma tree_depth_spec:
  assumes "totalTx b = of_nat n" "n \<le> 2 ^ k" "k = 0 \<or> 2 ^ (k - 1) < n" "0 < n" "n < 2 ^ 31"
  shows "tree_depth b = Some k"
proof -
  have "sint (of_nat n :: u32) = int n"
    using assms(5) by (simp add: signed_of_nat signed_take_bit_int_eq_self)
  then show ?thesis using ceil_log2_spec [OF assms(2-5)] by (simp add: tree_depth_def assms(1))
qed

section \<open>The format of BIP37\<close>

text \<open>
  The reference: the Merkle root of a row of transaction hashes below a node with \<open>k\<close> levels, where a missing right branch
  is replaced by the left one, and the traversal that writes flag bits and hashes for a row with marked hashes.
\<close>

primrec merkle_root :: "nat \<Rightarrow> UInt256 list \<Rightarrow> UInt256" where
  "merkle_root 0 txs = hd txs"
| "merkle_root (Suc k) txs =
     node_hash (merkle_root k (take (2 ^ k) txs))
       (if drop (2 ^ k) txs = [] then merkle_root k (take (2 ^ k) txs) else merkle_root k (drop (2 ^ k) txs))"

primrec encode_tree :: "nat \<Rightarrow> (UInt256 \<times> bool) list \<Rightarrow> bool list \<times> UInt256 list" where
  "encode_tree 0 l = ([snd (hd l)], [fst (hd l)])"
| "encode_tree (Suc k) l =
     (if list_ex snd l then
        let (lb, lh) = encode_tree k (take (2 ^ k) l);
            (rb, rh) = (if drop (2 ^ k) l = [] then ([], []) else encode_tree k (drop (2 ^ k) l))
        in (True # lb @ rb, lh @ rh)
      else ([False], [merkle_root (Suc k) (map fst l)]))"

text \<open>
  No two siblings have the same hash, and no hash is zero, which marks a missing branch: what the code requires against
  CVE-2012-2459.
\<close>

primrec siblings_ok :: "nat \<Rightarrow> UInt256 list \<Rightarrow> bool" where
  "siblings_ok 0 txs = True"
| "siblings_ok (Suc k) txs =
     (siblings_ok k (take (2 ^ k) txs) \<and> merkle_root k (take (2 ^ k) txs) \<noteq> 0 \<and>
      (drop (2 ^ k) txs \<noteq> [] \<longrightarrow> siblings_ok k (drop (2 ^ k) txs) \<and> merkle_root k (drop (2 ^ k) txs) \<noteq> 0 \<and>
         merkle_root k (take (2 ^ k) txs) \<noteq> merkle_root k (drop (2 ^ k) txs)))"

text \<open>The arrays of a block that carries a traversal; bits are packed from the least significant bit on.\<close>

definition flag_bytes :: "bool list \<Rightarrow> byte list" where
  "flag_bytes bs = map (\<lambda>j. horner_sum of_bool 2 (take 8 (drop (8 * j) bs))) [0..<(length bs + 7) div 8]"

definition carries :: "mblock \<Rightarrow> bool list \<times> UInt256 list \<Rightarrow> bool" where
  "carries b e \<longleftrightarrow> hashes b = Some (snd e) \<and> hashesCount b = length (snd e) \<and>
     mflags b = Some (flag_bytes (fst e)) \<and> flagsLen b = length (flag_bytes (fst e))"

lemma carries_flag:
  assumes "carries b (bs, hs)" "i < length bs"
  shows "i div 8 < flagsLen b" "flag_at b i = Some (bs ! i)"
proof -
  have j: "i div 8 < (length bs + 7) div 8"
  proof -
    have "8 * (j + 1) \<le> length bs + 7" if "8 * j \<le> i" for j using that assms(2) by simp
    then have "8 * (i div 8 + 1) \<le> length bs + 7" by simp
    then have "i div 8 + 1 \<le> (length bs + 7) div 8" by (simp add: less_eq_div_iff_mult_less_eq)
    then show ?thesis by simp
  qed
  then show "i div 8 < flagsLen b" using assms(1) by (simp add: carries_def flag_bytes_def)
  have "bit (horner_sum of_bool 2 (take 8 (drop (8 * (i div 8)) bs)) :: byte) (i mod 8) = bs ! i"
  proof -
    have "i mod 8 < length bs - 8 * (i div 8)" using assms(2) by (simp add: less_diff_conv)
    then show ?thesis by (simp add: bit_horner_sum_bit_iff possible_bit_word)
  qed
  then show "flag_at b i = Some (bs ! i)"
    using assms(1) j by (simp add: carries_def flag_at_def flag_bytes_def)
qed

lemma encode_nonempty: "fst (encode_tree k l) \<noteq> [] \<and> snd (encode_tree k l) \<noteq> []"
  by (induction k arbitrary: l) (auto simp: Let_def case_prod_beta)

lemma carries_more:
  assumes "carries b (u @ fst e @ v, p @ snd e @ q)" "e = encode_tree k l"
  shows "more b (length p) (length u)"
    "flag_at b (length u) = Some (hd (fst e))" "hash_at b (length p) = Some (hd (snd e))"
proof -
  have e: "fst e \<noteq> []" "snd e \<noteq> []" using encode_nonempty [of k l] assms(2) by auto
  then have "length u < length (u @ fst e @ v)" by simp
  from carries_flag [OF assms(1) this] e show "flag_at b (length u) = Some (hd (fst e))"
    and "more b (length p) (length u)"
    using assms(1) by (simp_all add: more_def carries_def nth_append hd_conv_nth)
  show "hash_at b (length p) = Some (hd (snd e))"
    using assms(1) e by (simp add: hash_at_def carries_def nth_append hd_conv_nth)
qed

lemma no_more: "carries b (bs, hs) \<Longrightarrow> \<not> more b (length hs) fi"
  by (simp add: more_def carries_def)

text \<open>The root is recomputed.\<close>

lemma RootR_encoded:
  assumes "carries b (u @ fst e @ v, p @ snd e @ q)" "e = encode_tree k l" "l \<noteq> []" "length l = 2 ^ k \<or> q = [] \<and> length l \<le> 2 ^ k"
    "siblings_ok k (map fst l)"
  shows "RootR b k (length p) (length u) =
    Some (merkle_root k (map fst l), length p + length (snd e), length u + length (fst e))"
  using assms
proof (induction k arbitrary: u e v p q l)
  case 0
  note m = carries_more [OF 0(1,2)]
  show ?case using 0(2,3) m by (subst RootR.simps) (simp add: hd_map)
next
  case (Suc k)
  note m = carries_more [OF Suc(2,3)]
  show ?case
  proof (cases "list_ex snd l")
    case False
    then show ?thesis using Suc(3) m by (subst RootR.simps) simp
  next
    case True
    let ?l = "take (2 ^ k) l" and ?r = "drop (2 ^ k) l"
    define el where "el = encode_tree k ?l"
    define er where "er = (if ?r = [] then ([], []) else encode_tree k ?r)"
    have e: "fst e = True # fst el @ fst er" "snd e = snd el @ snd er"
      using Suc(3) True by (simp_all add: el_def er_def Let_def split: prod.splits)
    have ml: "map fst ?l = take (2 ^ k) (map fst l)" "map fst ?r = drop (2 ^ k) (map fst l)" by (simp_all add: take_map drop_map)
    have ok: "siblings_ok k (map fst ?l)" "merkle_root k (map fst ?l) \<noteq> 0"
      "?r \<noteq> [] \<Longrightarrow> siblings_ok k (map fst ?r) \<and> merkle_root k (map fst ?r) \<noteq> 0 \<and>
        merkle_root k (map fst ?l) \<noteq> merkle_root k (map fst ?r)"
      using Suc(6) unfolding ml by simp_all
    have c1: "carries b ((u @ [True]) @ fst el @ (fst er @ v), p @ snd el @ (snd er @ q))"
      using Suc(2) by (simp add: e)
    have len: "length ?l = 2 ^ k \<or> snd er @ q = [] \<and> length ?l \<le> 2 ^ k"
      using Suc(5) by (auto simp: er_def)
    have left: "RootR b k (length p) (length u + 1) =
        Some (merkle_root k (map fst ?l), length p + length (snd el), length u + 1 + length (fst el))"
      using Suc.IH [OF c1 el_def _ len ok(1)] Suc(4) by simp
    have right: "\<exists>h1. RootR b k (length p + length (snd el)) (length u + 1 + length (fst el)) =
        Some (h1, length p + length (snd e), length u + length (fst e)) \<and>
        h1 = (if ?r = [] then 0 else merkle_root k (map fst ?r))"
    proof (cases "?r = []")
      case True
      moreover have "(0 :: nat) < 2 ^ k" by simp
      ultimately have "length l < 2 ^ Suc k" unfolding drop_eq_Nil power_Suc by linarith
      then have "q = []" using Suc(5) by simp
      then have "\<not> more b (length p + length (snd el)) (length u + 1 + length (fst el))"
        using no_more [OF c1] True by (simp add: er_def)
      then show ?thesis using True e by (subst RootR.simps) (simp add: er_def)
    next
      case False
      then have er: "er = encode_tree k ?r" by (simp add: er_def)
      have c2: "carries b ((u @ [True] @ fst el) @ fst er @ v, (p @ snd el) @ snd er @ q)"
        using Suc(2) by (simp add: e)
      have len: "length ?r = 2 ^ k \<or> q = [] \<and> length ?r \<le> 2 ^ k"
        using Suc(5) by auto
      show ?thesis
        using Suc.IH [OF c2 er False len] ok(3) [OF False] e False by (simp add: add.assoc)
    qed
    have "RootR b (Suc k) (length p) (length u) = Some (node_hash (merkle_root k (map fst ?l))
        (if ?r = [] then merkle_root k (map fst ?l) else merkle_root k (map fst ?r)),
        length p + length (snd e), length u + length (fst e))"
      using m left right ok(2,3) e by (subst RootR.simps) auto
    then show ?thesis by (simp add: ml [symmetric])
  qed
qed

text \<open>The marked transactions are found, in order.\<close>

lemma TxHashesR_encoded:
  assumes "carries b (u @ fst e @ v, p @ snd e @ q)" "e = encode_tree k l" "l \<noteq> []" "length l = 2 ^ k \<or> q = [] \<and> length l \<le> 2 ^ k"
    "length out + length (filter snd l) \<le> cap"
  shows "TxHashesR b (Some cap) k out (length p) (length u) =
    Some (out @ map fst (filter snd l), length p + length (snd e), length u + length (fst e))"
  using assms
proof (induction k arbitrary: u e v p q l out)
  case 0
  note m = carries_more [OF 0(1,2)]
  have "length l = 1" using 0(3,4) by (cases l) auto
  then obtain x where l: "l = [x]" by (auto simp: length_Suc_conv)
  show ?case using 0(2,5) m by (subst TxHashesR.simps; cases "snd x") (simp_all add: l take_leaf_def)
next
  case (Suc k)
  note m = carries_more [OF Suc(2,3)]
  show ?case
  proof (cases "list_ex snd l")
    case False
    then have "filter snd l = []" by (simp add: filter_empty_conv list_ex_iff)
    then show ?thesis using False Suc(3) m by (subst TxHashesR.simps) simp
  next
    case True
    let ?l = "take (2 ^ k) l" and ?r = "drop (2 ^ k) l"
    define el where "el = encode_tree k ?l"
    define er where "er = (if ?r = [] then ([], []) else encode_tree k ?r)"
    have e: "fst e = True # fst el @ fst er" "snd e = snd el @ snd er"
      using Suc(3) True by (simp_all add: el_def er_def Let_def split: prod.splits)
    have fl: "filter snd l = filter snd ?l @ filter snd ?r" by (metis append_take_drop_id filter_append)
    have c1: "carries b ((u @ [True]) @ fst el @ (fst er @ v), p @ snd el @ (snd er @ q))"
      using Suc(2) by (simp add: e)
    have len: "length ?l = 2 ^ k \<or> snd er @ q = [] \<and> length ?l \<le> 2 ^ k"
      using Suc(5) by (auto simp: er_def)
    have left: "TxHashesR b (Some cap) k out (length p) (length u + 1) =
        Some (out @ map fst (filter snd ?l), length p + length (snd el), length u + 1 + length (fst el))"
      using Suc.IH [OF c1 el_def _ len, of out] Suc(4,6) fl by simp
    have right: "TxHashesR b (Some cap) k (out @ map fst (filter snd ?l)) (length p + length (snd el)) (length u + 1 + length (fst el)) =
        Some (out @ map fst (filter snd l), length p + length (snd e), length u + length (fst e))"
    proof (cases "?r = []")
      case True
      moreover have "(0 :: nat) < 2 ^ k" by simp
      ultimately have "length l < 2 ^ Suc k" unfolding drop_eq_Nil power_Suc by linarith
      then have "q = []" using Suc(5) by simp
      then have "\<not> more b (length p + length (snd el)) (length u + 1 + length (fst el))"
        using no_more [OF c1] True by (simp add: er_def)
      then show ?thesis using True e fl by (subst TxHashesR.simps) (simp add: er_def)
    next
      case False
      then have er: "er = encode_tree k ?r" by (simp add: er_def)
      have c2: "carries b ((u @ [True] @ fst el) @ fst er @ v, (p @ snd el) @ snd er @ q)"
        using Suc(2) by (simp add: e)
      have len: "length ?r = 2 ^ k \<or> q = [] \<and> length ?r \<le> 2 ^ k"
        using Suc(5) by auto
      show ?thesis
        using Suc.IH [OF c2 er False len, of "out @ map fst (filter snd ?l)"] Suc(6) e fl by (simp add: add.assoc)
    qed
    show ?thesis
      using m left right e by (subst TxHashesR.simps) simp
  qed
qed

section \<open>Proof of work\<close>

lemma le_val_zeros: "le_val (replicate n 0) = 0"
  by (induction n) simp_all

text \<open>The loop from the most significant byte down compares the two numbers.\<close>

lemma pow_loop_le:
  assumes "length hs = length ts"
  shows "pow_loop (rev (zip hs ts)) \<longleftrightarrow> le_val hs \<le> le_val ts"
  using assms
proof (induction hs ts rule: rev_induct2)
  case (4 h hs t ts)
  then have l: "length hs = length ts" by simp
  let ?B = "256 ^ length ts :: nat"
  have b: "le_val hs < ?B" "le_val ts < ?B" using le_val_bound [of hs] le_val_bound [of ts] l by simp_all
  have v: "le_val (hs @ [h]) = le_val hs + ?B * unat h" "le_val (ts @ [t]) = le_val ts + ?B * unat t"
    using l by (simp_all add: le_val_append)
  have less: "le_val xs + ?B * a < le_val ys + ?B * c" if "a < c" "le_val xs < ?B" for a c xs ys
  proof -
    have "le_val xs + ?B * a < ?B * (a + 1)" using that(2) by simp
    also have "\<dots> \<le> ?B * c" using that(1) by (intro mult_le_mono2) simp
    finally show ?thesis by simp
  qed
  have z: "rev (zip (hs @ [h]) (ts @ [t])) = (h, t) # rev (zip hs ts)" using l by simp
  consider "h < t" | "t < h" | "h = t" by fastforce
  then show ?case
  proof cases
    case 1
    then show ?thesis unfolding z v using less [OF _ b(1), of "unat h" "unat t" ts] by (simp add: word_less_nat_alt)
  next
    case 2
    then show ?thesis unfolding z v using less [OF _ b(2), of "unat t" "unat h" hs]
      by (auto simp: word_less_nat_alt)
  next
    case 3
    then show ?thesis unfolding z v using 4 l by simp
  qed
qed simp_all

text \<open>The number a compact target stands for.\<close>

definition target_value :: "nat \<Rightarrow> nat \<Rightarrow> nat" where
  "target_value sz m = (if 3 < sz then m * 256 ^ (sz - 3) else m div 256 ^ (3 - sz))"

lemma compact_bytes_value:
  assumes "unat sz \<le> 31"
  shows "\<exists>t. compact_bytes sz m = Some t \<and> length t = 32 \<and> le_val t = target_value (unat sz) (unat m)"
proof (cases "3 < sz")
  case True
  then have s: "3 < unat sz" by (simp add: word_less_nat_alt)
  then show ?thesis using assms True
    by (simp add: compact_bytes_def Let_def target_value_def le_val_append le_val_zeros le_val_UInt32SetLE)
next
  case False
  then have s: "\<not> 3 < unat sz" by (simp add: word_less_nat_alt)
  have "unat (drop_bit ((3 - unat sz) * 8) m) = unat m div 256 ^ (3 - unat sz)"
    by (simp only: unat_drop_bit_eq) (simp add: drop_bit_eq_div power_mult mult.commute)
  then show ?thesis using s False
    by (simp add: compact_bytes_def target_value_def le_val_append le_val_zeros le_val_UInt32SetLE)
qed

lemma compact_bytes_fault: "31 < unat sz \<Longrightarrow> compact_bytes sz m = None"
  by (simp add: compact_bytes_def Let_def word_less_nat_alt)

lemma mantissa_less: "unat (x AND 0x00ffffff :: u32) < 2 ^ 24"
proof -
  have "(0x00ffffff :: u32) = mask 24" by (simp add: mask_eq_exp_minus_1)
  then have "unat (x AND 0x00ffffff) = take_bit 24 (unat x)"
    by (simp only: take_bit_eq_mask [symmetric] unsigned_take_bit_eq)
  then show ?thesis by (simp only: take_bit_nat_less_exp)
qed

lemma sign_bit:
  assumes "unat (m :: u32) < 2 ^ 24"
  shows "m AND 0x00800000 = 0 \<longleftrightarrow> unat m < 2 ^ 23"
proof -
  have "(0x00800000 :: u32) = push_bit 23 1" by simp
  then have b: "m AND 0x00800000 = 0 \<longleftrightarrow> \<not> bit m 23" by (simp only: bit_iff_and_push_bit_not_eq_0) simp
  have "bit m 23 \<longleftrightarrow> bit (unat m) 23" by (simp add: bit_unsigned_iff)
  then have "bit m 23 \<longleftrightarrow> odd (unat m div 2 ^ 23)" by (simp only: bit_iff_odd)
  moreover have "unat m div 2 ^ 23 = 0 \<or> unat m div 2 ^ 23 = 1"
  proof -
    have "unat m div 2 ^ 23 < 2" using assms by (simp add: div_less_iff_less_mult)
    then show ?thesis by linarith
  qed
  ultimately show ?thesis unfolding b by (auto simp: div_eq_0_iff)
qed

lemma limits: "maxsize < s \<longleftrightarrow> 29 < unat s" "s = maxsize \<longleftrightarrow> unat s = 29" "maxtarget < s \<longleftrightarrow> 0xffff < unat s"
proof -
  have max: "maxsize = 0x1d" "maxtarget = 0xffff" by (simp_all add: maxsize_def maxtarget_def MAX_PROOF_OF_WORK_def)
  show "maxsize < s \<longleftrightarrow> 29 < unat s" unfolding max word_less_nat_alt by simp
  show "s = maxsize \<longleftrightarrow> unat s = 29" unfolding max word_unat_eq_iff by simp
  show "maxtarget < s \<longleftrightarrow> 0xffff < unat s" unfolding max word_less_nat_alt by simp
qed

lemma target_value_max:
  assumes "sz < 29 \<and> m < 2 ^ 23 \<or> sz = 29 \<and> m \<le> 0xffff"
  shows "target_value sz m \<le> 0xffff * 256 ^ 26"
  using assms
proof
  assume *: "sz < 29 \<and> m < 2 ^ 23"
  show ?thesis
  proof (cases "3 < sz")
    case True
    have "m * 256 ^ (sz - 3) \<le> 2 ^ 23 * 256 ^ 25"
      using * by (intro mult_le_mono power_increasing) auto
    also have "\<dots> \<le> 0xffff * 256 ^ 26" by simp
    finally show ?thesis using True by (simp add: target_value_def)
  next
    case False
    have "m div 256 ^ (3 - sz) \<le> m" by simp
    also have "m \<le> 2 ^ 23" using * by simp
    finally show ?thesis using False by (simp add: target_value_def)
  qed
qed (simp add: target_value_def)

section \<open>Retargeting\<close>

lemma normalize_spec:
  "\<exists>e. normalize sz t = (sz + int e, of_nat (unat t div 256 ^ e)) \<and> unat t div 256 ^ e \<le> 0x7fffff \<and> 1 \<le> sz + int e \<and>
     (e = 0 \<or> sz + int e \<le> 1 \<or> 0x7fffff < unat t div 256 ^ (e - 1))"
proof (induction sz t rule: normalize.induct)
  case (1 sz t)
  show ?case
  proof (cases "sz < 1 \<or> t > 0x007fffff")
    case True
    then obtain e where e: "normalize (sz + 1) (drop_bit 8 t) = (sz + 1 + int e, of_nat (unat (drop_bit 8 t) div 256 ^ e))"
      "unat (drop_bit 8 t) div 256 ^ e \<le> 0x7fffff" "1 \<le> sz + 1 + int e"
      "e = 0 \<or> sz + 1 + int e \<le> 1 \<or> 0x7fffff < unat (drop_bit 8 t) div 256 ^ (e - 1)" using 1 by blast
    have u: "unat (drop_bit 8 t) div 256 ^ e = unat t div 256 ^ Suc e" for e
      by (simp only: unat_drop_bit_eq) (simp add: drop_bit_eq_div div_mult2_eq)
    have "normalize sz t = (sz + int (Suc e), of_nat (unat t div 256 ^ Suc e))"
      using e(1) True unfolding u by (subst normalize.simps) simp
    moreover have "sz + int (Suc e) \<le> 1 \<or> 0x7fffff < unat t div 256 ^ e"
    proof (cases e)
      case 0
      then show ?thesis using True by (auto simp: word_less_nat_alt)
    next
      case (Suc d)
      then show ?thesis using e(4) u [of d] by (auto simp: algebra_simps)
    qed
    ultimately show ?thesis using e(2,3) unfolding u by (intro exI [of _ "Suc e"]) simp
  next
    case False
    then have "normalize sz t = (sz, t)" by (subst normalize.simps) simp
    then show ?thesis using False by (intro exI [of _ 0]) (simp add: word_less_nat_alt not_less)
  qed
qed

text \<open>A compact number from its parts.\<close>

lemma compact_parts:
  assumes "s < 2 ^ 8" "m < 2 ^ 24"
  shows "unat (drop_bit 24 ((of_nat m :: u32) OR push_bit 24 (of_nat s))) = s"
    "unat (((of_nat m :: u32) OR push_bit 24 (of_nat s)) AND 0x00ffffff) = m"
proof -
  have mb: "i < 24" if "bit m i" for i
    using assms(2) that by (metis bit_take_bit_iff take_bit_nat_eq_self)
  have sb: "i < 8" if "bit s i" for i
    using assms(1) that by (metis bit_take_bit_iff take_bit_nat_eq_self)
  have "drop_bit 24 ((of_nat m :: u32) OR push_bit 24 (of_nat s)) = of_nat s"
    by (intro bit_word_eqI) (auto simp: bit_simps possible_bit_word bit_of_nat_iff dest: mb sb)
  then show "unat (drop_bit 24 ((of_nat m :: u32) OR push_bit 24 (of_nat s))) = s"
    using assms(1) by (simp add: of_nat_small_ne)
  have "(0x00ffffff :: u32) = mask 24" by (simp add: mask_eq_exp_minus_1)
  moreover have "((of_nat m :: u32) OR push_bit 24 (of_nat s)) AND mask 24 = of_nat m"
    by (intro bit_word_eqI) (auto simp: bit_simps possible_bit_word bit_of_nat_iff dest: mb)
  ultimately show "unat (((of_nat m :: u32) OR push_bit 24 (of_nat s)) AND 0x00ffffff) = m"
    using assms(2) by (simp add: of_nat_small_ne)
qed

lemma next_target_spec:
  fixes pt :: u32
  defines "sz \<equiv> unat (drop_bit 24 pt)" and "m \<equiv> unat (pt AND 0x00ffffff)"
  assumes ts: "0 \<le> ts" "ts \<le> 4 * TARGET_TIMESPAN"
  obtains e where "let m' = m * nat ts div 4725 div 256 ^ e; sz' = int sz - 1 + int e
      in 1 \<le> sz' \<and> m' \<le> 0x7fffff \<and>
         next_target pt ts = (if sz' > 29 \<or> sz' = 29 \<and> m' > 0xffff then 0x1d00ffff
                              else of_nat m' OR push_bit 24 (of_nat (nat sz')))"
proof -
  have m: "m < 2 ^ 24" unfolding m_def by (rule mantissa_less)
  have t: "nat ts \<le> 4838400" using ts by (simp add: TARGET_TIMESPAN_def)
  have mt: "m * nat ts < 2 ^ 64"
  proof -
    have "m * nat ts \<le> 2 ^ 24 * 4838400" using m t by (intro mult_le_mono) simp_all
    then show ?thesis by simp
  qed
  define T :: u64 where "T = (ucast (pt AND 0x00ffffff) * of_int ts) div of_int (TARGET_TIMESPAN div 2 ^ 8)"
  have T: "unat T = m * nat ts div 4725"
  proof -
    have u: "unat (ucast (pt AND 0x00ffffff) :: u64) = m" unfolding m_def by (rule unat_ucast_le) (use mantissa_less [of pt] in simp)
    have "(of_int ts :: u64) = of_nat (nat ts)" using ts(1) by simp
    moreover have "unat (of_nat (nat ts) :: u64) = nat ts" using t by (simp add: of_nat_small_ne)
    ultimately have "unat (ucast (pt AND 0x00ffffff) * of_int ts :: u64) = m * nat ts"
      using u mt by (simp add: unat_word_ariths)
    moreover have "unat (of_int (TARGET_TIMESPAN div 2 ^ 8) :: u64) = 4725" by (simp add: TARGET_TIMESPAN_def)
    ultimately show ?thesis by (simp only: T_def unat_div)
  qed
  obtain e where e: "normalize (int sz - 1) T = (int sz - 1 + int e, of_nat (unat T div 256 ^ e))"
    "unat T div 256 ^ e \<le> 0x7fffff" "1 \<le> int sz - 1 + int e"
    "e = 0 \<or> int sz - 1 + int e \<le> 1 \<or> 0x7fffff < unat T div 256 ^ (e - 1)" using normalize_spec by blast
  define m' where "m' = m * nat ts div 4725 div 256 ^ e"
  define sz' where "sz' = int sz - 1 + int e"
  have m'7: "m' \<le> 0x7fffff" using e(2) by (simp add: T m'_def)
  show thesis
  proof (rule that [of e], unfold Let_def m'_def [symmetric] sz'_def [symmetric], intro conjI)
    show "1 \<le> sz'" using e(3) by (simp add: sz'_def)
    show "m' \<le> 0x7fffff" by (rule m'7)
    have max: "maxsize = 0x1d" "maxtarget = 0xffff" "uint maxsize = 29"
      by (simp_all add: maxsize_def maxtarget_def MAX_PROOF_OF_WORK_def)
    have s8: "sz < 256"
    proof -
      have "unat (drop_bit 24 pt) = unat pt div 2 ^ 24" by (simp only: unat_drop_bit_eq) (simp add: drop_bit_eq_div)
      moreover have "unat pt < 2 ^ 32" using unsigned_less [of pt] by simp
      ultimately show ?thesis unfolding sz_def by (simp add: div_less_iff_less_mult)
    qed
    have "e \<le> 8" if "0x7fffff < unat T div 256 ^ (e - 1)"
    proof (rule ccontr)
      assume "\<not> e \<le> 8"
      then have "(256 :: nat) ^ 8 \<le> 256 ^ (e - 1)" by (intro power_increasing) simp_all
      moreover have "unat T < 256 ^ 8" using unsigned_less [of T] by simp
      ultimately have "unat T div 256 ^ (e - 1) = 0" by (simp add: div_eq_0_iff)
      with that show False by simp
    qed
    with e(4) s8 have szle: "sz' \<le> 300" unfolding sz'_def by linarith
    have w: "(of_int sz' :: u32) = of_nat (nat sz')" "unat (of_nat (nat sz') :: u32) = nat sz'"
    proof -
      have "sz' = int (nat sz')" using e(3) by (simp add: sz'_def)
      then show "(of_int sz' :: u32) = of_nat (nat sz')" by (metis of_int_of_nat_eq)
      have "nat sz' < 2 ^ LENGTH(32)" using szle by simp
      then show "unat (of_nat (nat sz') :: u32) = nat sz'" by (rule of_nat_small_ne)
    qed
    have wm: "unat (of_nat m' :: u64) = m'" "(ucast (of_nat m' :: u64) :: u32) = of_nat m'"
      using m'7 by (simp_all add: of_nat_small_ne unsigned_of_nat take_bit_nat_eq_self)
    have sz0: "uint (drop_bit 24 pt) = int sz" by (simp add: sz_def)
    have c: "((of_int sz' :: u32) > maxsize \<or> (of_int sz' :: u32) = maxsize \<and> (of_nat m' :: u64) > ucast maxtarget) \<longleftrightarrow>
        (sz' > 29 \<or> sz' = 29 \<and> m' > 0xffff)"
      unfolding w max(1,2) using w(2) wm(1) e(3) by (auto simp: word_less_nat_alt word_unat_eq_iff sz'_def)
    have n: "normalize (uint (drop_bit 24 pt) - 1) T = (sz', of_nat m')"
      using e(1) by (simp add: sz0 sz'_def m'_def T)
    show "next_target pt ts = (if sz' > 29 \<or> sz' = 29 \<and> m' > 0xffff then 0x1d00ffff
        else of_nat m' OR push_bit 24 (of_nat (nat sz')))"
      unfolding next_target_def Let_def T_def [symmetric] n prod.case c by (simp add: max wm w)
  qed
qed

section \<open>Properties\<close>

text \<open>
  C26: a block that carries a traversal in the format of BIP37 of its transactions, with some of them marked, gives
  their Merkle root when the root is recomputed, and exactly the marked transactions, in order, when the matched
  hashes are collected. No two siblings may be equal, which the code tests against CVE-2012-2459.
\<close>

theorem merkle_tree_decoded:
  assumes "l \<noteq> []" "length l < 2 ^ 31" "length l \<le> 2 ^ k" "k = 0 \<or> 2 ^ (k - 1) < length l"
    "siblings_ok k (map fst l)" "carries b (encode_tree k l)" "totalTx b = of_nat (length l)"
  shows "(\<exists>i j. with_depth b (\<lambda>k. RootR b k 0 0) = Some (merkle_root k (map fst l), i, j)) \<and>
    BRMerkleBlockTxHashes b (Some (length l)) = Some (length (filter snd l), map fst (filter snd l))"
proof -
  have d: "tree_depth b = Some k"
    using tree_depth_spec [OF assms(7,3,4)] assms(1,2) by simp
  obtain bs hs where e: "encode_tree k l = (bs, hs)" by (rule prod.exhaust)
  have c: "carries b ([] @ fst (encode_tree k l) @ [], [] @ snd (encode_tree k l) @ [])" using assms(6) by (simp add: e)
  have len: "length l = 2 ^ k \<or> ([] :: UInt256 list) = [] \<and> length l \<le> 2 ^ k" using assms(3) by simp
  have "length ([] :: UInt256 list) + length (filter snd l) \<le> length l" by simp
  from TxHashesR_encoded [OF c refl assms(1) len this] RootR_encoded [OF c refl assms(1) len assms(5)]
  show ?thesis by (simp add: with_depth_def d BRMerkleBlockTxHashes_def)
qed

lemma merkle_tree_decoded_witness:
  "\<exists>b. BRMerkleBlockTxHashes b (Some 1) = Some (1, [7])"
proof -
  let ?e = "encode_tree 0 [(7, True)]"
  let ?b = "BRMerkleBlockNew\<lparr>totalTx := 1, hashes := Some (snd ?e), hashesCount := length (snd ?e),
    mflags := Some (flag_bytes (fst ?e)), flagsLen := length (flag_bytes (fst ?e))\<rparr>"
  have "carries ?b ?e" by (simp add: carries_def)
  from merkle_tree_decoded [where l = "[(7, True)]" and k = 0, OF _ _ _ _ _ this]
  show ?thesis by auto
qed

text \<open>
  C30: a block is valid exactly when its Merkle root is right, if it lists transactions, its timestamp is not too far in
  the future, its target is a positive number in range, and the block hash read as a number is at most the
  target, which then never is above the maximal one.
\<close>

theorem block_valid_iff:
  defines "sz \<equiv> \<lambda>b. unat (drop_bit 24 (target b))" and "m \<equiv> \<lambda>b. unat (target b AND 0x00ffffff)"
  shows "BRMerkleBlockIsValid b now = Some True \<longleftrightarrow>
    (\<exists>root i j. with_depth b (\<lambda>k. RootR b k 0 0) = Some (root, i, j) \<and> (totalTx b = 0 \<or> root = merkleRoot b)) \<and>
    timestamp b \<le> now + BLOCK_MAX_TIME_DRIFT \<and> 0 < m b \<and> (sz b < 29 \<and> m b < 2 ^ 23 \<or> sz b = 29 \<and> m b \<le> 0xffff) \<and>
    target_value (sz b) (m b) \<le> 0xffff * 256 ^ 26 \<and> unat (blockHash b) \<le> target_value (sz b) (m b)"
proof -
  let ?s = "drop_bit 24 (target b)" and ?m = "target b AND 0x00ffffff"
  have range: "\<not> (?m = 0 \<or> ?m AND 0x00800000 \<noteq> 0 \<or> ?s > maxsize \<or> (?s = maxsize \<and> ?m > maxtarget)) \<longleftrightarrow>
      0 < m b \<and> (sz b < 29 \<and> m b < 2 ^ 23 \<or> sz b = 29 \<and> m b \<le> 0xffff)"
  proof -
    have f: "?m = 0 \<longleftrightarrow> m b = 0" "?s > maxsize \<longleftrightarrow> 29 < sz b" "?s = maxsize \<longleftrightarrow> sz b = 29" "?m > maxtarget \<longleftrightarrow> 0xffff < m b"
      "?m AND 0x00800000 \<noteq> 0 \<longleftrightarrow> \<not> m b < 2 ^ 23"
      unfolding sz_def m_def by (simp only: unat_eq_0, simp only: limits, simp only: limits, simp only: limits,
          simp only: sign_bit [OF mantissa_less [of "target b"]])
    have "\<not> (M = 0 \<or> \<not> M < 2 ^ 23 \<or> 29 < S \<or> S = 29 \<and> 0xffff < M) \<longleftrightarrow>
        0 < M \<and> (S < 29 \<and> M < 2 ^ 23 \<or> S = 29 \<and> M \<le> 0xffff)" for M S :: nat
      by (cases "S = 29") auto
    then show ?thesis unfolding f .
  qed
  have tv: "sz b < 29 \<and> m b < 2 ^ 23 \<or> sz b = 29 \<and> m b \<le> 0xffff \<Longrightarrow> target_value (sz b) (m b) \<le> 0xffff * 256 ^ 26"
    by (rule target_value_max)
  show ?thesis
  proof (cases "with_depth b (\<lambda>k. RootR b k 0 0)")
    case None
    then show ?thesis by (simp add: BRMerkleBlockIsValid_def Let_def)
  next
    case (Some r)
    obtain root i j where r: "r = (root, i, j)" by (rule prod_cases3)
    show ?thesis
    proof (cases "unat ?s \<le> 31")
      case True
      obtain t where t: "compact_bytes ?s ?m = Some t" "length t = 32" "le_val t = target_value (sz b) (m b)"
        using compact_bytes_value [OF True] unfolding sz_def m_def by blast
      have pow: "pow_loop (rev (zip (UInt256Set (blockHash b)) t)) \<longleftrightarrow> unat (blockHash b) \<le> target_value (sz b) (m b)"
        using pow_loop_le [of "UInt256Set (blockHash b)" t] t by (simp add: le_val_UInt256Set)
      let ?A = "totalTx b = 0 \<or> root = merkleRoot b"
      have ex: "(\<exists>root i j. with_depth b (\<lambda>k. RootR b k 0 0) = Some (root, i, j) \<and> (totalTx b = 0 \<or> root = merkleRoot b)) \<longleftrightarrow> ?A"
        by (simp add: Some r)
      have A: "\<not> (totalTx b > 0 \<and> \<not> UInt256Eq root (merkleRoot b)) \<longleftrightarrow> ?A" by (auto simp: word_gt_0)
      have ts: "\<not> timestamp b > now + BLOCK_MAX_TIME_DRIFT \<longleftrightarrow> timestamp b \<le> now + BLOCK_MAX_TIME_DRIFT" by (rule not_less)
      have v: "BRMerkleBlockIsValid b now = Some (((?A \<and> timestamp b \<le> now + BLOCK_MAX_TIME_DRIFT) \<and>
          0 < m b \<and> (sz b < 29 \<and> m b < 2 ^ 23 \<or> sz b = 29 \<and> m b \<le> 0xffff)) \<and> unat (blockHash b) \<le> target_value (sz b) (m b))"
        unfolding BRMerkleBlockIsValid_def Let_def Some r option.case prod.case t(1) range pow A ts ..
      show ?thesis unfolding ex v option.inject simp_thms using tv by metis
    next
      case False
      then have "compact_bytes ?s ?m = None" by (intro compact_bytes_fault) simp
      then show ?thesis using False by (simp add: BRMerkleBlockIsValid_def Let_def Some r sz_def)
    qed
  qed
qed

text \<open>
  The new target at a difficulty transition is, unless the maximum applies, the old target times the timespan,
  divided by the intended timespan of two weeks, rounded down to the three byte mantissa of the compact format;
  and it never exceeds the maximum.
\<close>

theorem next_target_scales:
  fixes pt :: u32
  defines "sz \<equiv> unat (drop_bit 24 pt)" and "m \<equiv> unat (pt AND 0x00ffffff)"
  assumes ts: "0 \<le> ts" "ts \<le> 4 * TARGET_TIMESPAN" and "0 < sz"
  defines "sz' \<equiv> unat (drop_bit 24 (next_target pt ts))" and "m' \<equiv> unat (next_target pt ts AND 0x00ffffff)"
  shows "(sz' < 29 \<and> m' < 2 ^ 23 \<or> sz' = 29 \<and> m' \<le> 0xffff) \<and>
    (next_target pt ts = 0x1d00ffff \<or> m' = (m * nat ts * 256 ^ sz) div (nat TARGET_TIMESPAN * 256 ^ sz'))"
proof -
  obtain e where e: "let m' = m * nat ts div 4725 div 256 ^ e; sz' = int sz - 1 + int e
      in 1 \<le> sz' \<and> m' \<le> 0x7fffff \<and>
         next_target pt ts = (if sz' > 29 \<or> sz' = 29 \<and> m' > 0xffff then 0x1d00ffff
                              else of_nat m' OR push_bit 24 (of_nat (nat sz')))"
    unfolding sz_def m_def by (rule next_target_spec [OF ts])
  define M where "M = m * nat ts div 4725 div 256 ^ e"
  define S where "S = sz - 1 + e"
  have S: "int sz - 1 + int e = int S" using \<open>0 < sz\<close> by (simp add: S_def)
  have n: "next_target pt ts = (if S > 29 \<or> S = 29 \<and> M > 0xffff then 0x1d00ffff else of_nat M OR push_bit 24 (of_nat S))"
    "M \<le> 0x7fffff"
    using e unfolding S Let_def M_def [symmetric] by simp_all
  show ?thesis
  proof (cases "S > 29 \<or> S = 29 \<and> M > 0xffff")
    case True
    then have "next_target pt ts = 0x1d00ffff" using n(1) by simp
    then show ?thesis by (simp add: sz'_def m'_def)
  next
    case False
    have t: "next_target pt ts = of_nat M OR push_bit 24 (of_nat S)" using n(1) unfolding if_not_P [OF False] .
    have p: "sz' = S" "m' = M"
      using compact_parts [of S M] False n(2) unfolding sz'_def m'_def t by simp_all
    have "(m * nat ts * 256 ^ sz) div (nat TARGET_TIMESPAN * 256 ^ S) = M"
    proof -
      have a: "(256 :: nat) ^ sz = 256 * 256 ^ (sz - 1)" using \<open>0 < sz\<close> by (simp add: power_eq_if)
      have b: "nat TARGET_TIMESPAN * 256 ^ S = 4725 * 256 ^ e * (256 * 256 ^ (sz - 1))"
        by (simp add: TARGET_TIMESPAN_def S_def power_add)
      have "m * nat ts * (256 * 256 ^ (sz - 1)) div (4725 * 256 ^ e * (256 * 256 ^ (sz - 1))) = m * nat ts div (4725 * 256 ^ e)"
        by (rule div_mult_mult2) simp
      then show ?thesis unfolding a b M_def by (simp only: div_mult2_eq)
    qed
    then show ?thesis using p False n(2) by auto
  qed
qed

lemma next_target_scales_witness:
  "unat (next_target 0x1b0404cb 604800 AND 0x00ffffff) < 2 ^ 23"
  using next_target_scales [where ts = 604800 and pt = "0x1b0404cb"] by (auto simp add: TARGET_TIMESPAN_def)

text \<open>
  C34: three blocks that the code does not survive: with \<open>2 ^ 31\<close> transactions or more and the first flag set, the
  loop of \<open>_ceil_log2\<close> shifts a negative number and never ends; with a target size over 31 the target is written outside of its
  32 bytes; and a hash count of \<open>2 ^ 59\<close> makes the size of the array wrap to 0 in the parser, whose first element
  is then read.
\<close>

theorem merkle_block_faults:
  "(2 ^ 31 \<le> unat (totalTx b) \<and> more b 0 0 \<and> flag_at b 0 = Some True \<longrightarrow> BRMerkleBlockIsValid b now = None) \<and>
   (31 < unat (drop_bit 24 (target b)) \<longrightarrow> BRMerkleBlockIsValid b now = None) \<and>
   (\<exists>p. BRMerkleBlockParse (replicate 80 0 @ [1, 0, 0, 0] @ [0xff, 0, 0, 0, 0, 0, 0, 0, 8] @ [1, 1]) = Some p \<and>
        BRMerkleBlockIsValid p now = None)"
proof (intro conjI impI)
  assume *: "2 ^ 31 \<le> unat (totalTx b) \<and> more b 0 0 \<and> flag_at b 0 = Some True"
  have "sint (totalTx b) < 0"
  proof -
    have "bit (totalTx b) 31"
    proof -
      have "unat (totalTx b) < 2 ^ 32" using unsigned_less [of "totalTx b"] by simp
      then have "unat (totalTx b) div 2 ^ 31 = 1" using * by (intro div_nat_eqI) simp_all
      then have "bit (unat (totalTx b)) 31" by (simp add: bit_iff_odd)
      then show ?thesis by (simp add: bit_unsigned_iff)
    qed
    then show ?thesis by (simp add: sint_uint signed_take_bit_negative_iff bit_unsigned_iff)
  qed
  then have "tree_depth b = None"
    using shift_loop_nonneg [of "sint (totalTx b)"] unfolding tree_depth_def ceil_log2_def by (meson not_le option.exhaust)
  then have "with_depth b (\<lambda>k. RootR b k 0 0) = None" using * by (simp add: with_depth_def)
  then show "BRMerkleBlockIsValid b now = None" by (simp add: BRMerkleBlockIsValid_def Let_def)
next
  assume *: "31 < unat (drop_bit 24 (target b))"
  show "BRMerkleBlockIsValid b now = None"
    by (cases "with_depth b (\<lambda>k. RootR b k 0 0)") (auto simp: BRMerkleBlockIsValid_def Let_def compact_bytes_fault [OF *])
next
  define buf :: "byte list" where "buf = replicate 80 0 @ [1, 0, 0, 0] @ [0xff, 0, 0, 0, 0, 0, 0, 0, 8] @ [1, 1]"
  have d: "drop 80 buf = [1, 0, 0, 0] @ [0xff, 0, 0, 0, 0, 0, 0, 0, 8] @ [1, 1 :: byte]"
    "drop 84 buf = [0xff, 0, 0, 0, 0, 0, 0, 0, 8] @ [1, 1 :: byte]" "drop 93 buf = [1, 1 :: byte]" "length buf = 95"
    by (simp_all add: buf_def)
  have v: "varint_at buf 84 = (2 ^ 59, 9)" "varint_at buf 93 = (1, 1)"
    unfolding varint_at_def d by (simp_all add: BRVarInt_def UInt64GetLE_def nth_Cons_small)
  have tx: "UInt32GetLE (drop 80 buf) = 1" unfolding d by (simp add: UInt32GetLE_def nth_Cons_small)
  have s: "size_mul (2 ^ 59) 32 = 0" "size_add 93 0 = 93" "size_add 93 1 = 94" by (simp_all add: size_mul_def size_add_def)
  have a: "alloc_copy buf 93 0 = Some []" "alloc_copy buf 94 1 = Some [1]"
    by (simp_all add: alloc_copy_def mem_read_def buf_def)
  have c: "chunks 32 ([] :: byte list) = []" by (simp add: chunks.simps)
  obtain p where p: "BRMerkleBlockParse buf = Some p" "totalTx p = 1" "hashesCount p = 2 ^ 59" "hashes p = Some []"
    "flagsLen p = 1" "mflags p = Some [1]"
    unfolding BRMerkleBlockParse_def Let_def v prod.case tx s d(4)
    by (simp add: v tx s a c del: One_nat_def)
  have "tree_depth p = Some 0" by (rule tree_depth_spec [of _ 1]) (simp_all add: p(2))
  moreover have "more p 0 0" "flag_at p 0 = Some True" "hash_at p 0 = None"
    by (simp_all add: more_def flag_at_def hash_at_def p)
  ultimately have "with_depth p (\<lambda>k. RootR p k 0 0) = None"
    by (simp add: with_depth_def RootR.simps)
  then have "BRMerkleBlockIsValid p now = None" by (simp add: BRMerkleBlockIsValid_def Let_def)
  with p(1) show "\<exists>p. BRMerkleBlockParse (replicate 80 0 @ [1, 0, 0, 0] @ [0xff, 0, 0, 0, 0, 0, 0, 0, 8] @ [1, 1]) = Some p \<and> BRMerkleBlockIsValid p now = None" unfolding buf_def by blast
qed

lemma merkle_block_faults_witness:
  "BRMerkleBlockIsValid (BRMerkleBlockNew\<lparr>target := 0xff000001\<rparr>) 0 = None \<and>
   BRMerkleBlockIsValid (BRMerkleBlockNew\<lparr>totalTx := 0x80000000, hashesCount := 1, hashes := Some [0],
     flagsLen := 1, mflags := Some [1]\<rparr>) 0 = None"
proof -
  have "unat (drop_bit 24 (0xff000001 :: u32)) = 255" by simp
  then show ?thesis
  using merkle_block_faults [of "BRMerkleBlockNew\<lparr>target := 0xff000001\<rparr>" 0]
    merkle_block_faults [of "BRMerkleBlockNew\<lparr>totalTx := 0x80000000, hashesCount := 1, hashes := Some [0],
     flagsLen := 1, mflags := Some [1]\<rparr>" 0]
  by (simp add: more_def flag_at_def)
qed

end
