(* ===== verification/Writer.thy ===== *)
theory Writer
  imports Script
begin

text \<open>
  The serializers of the wallet write field by field at \<open>data[off]\<close>, each field guarded by
  \<open>data && off + n <= dataLen\<close>, and advance \<open>off\<close> in any case; with \<open>data == NULL\<close> they only count. This theory models that pattern:
  a state is \<open>off\<close> with the contents of the buffer, \<open>None\<close> for \<open>NULL\<close>, and a writer is a function on states.
\<close>

type_synonym wstate = "nat \<times> byte list option"

definition overwrite :: "byte list \<Rightarrow> nat \<Rightarrow> byte list \<Rightarrow> byte list" where
  "overwrite d off bs = take off d @ bs @ drop (off + length bs) d"

text \<open>\<open>if (data && off + n <= dataLen) ...(&data[off], ...); off += n;\<close>\<close>

definition put_bytes :: "byte list \<Rightarrow> wstate \<Rightarrow> wstate" where
  "put_bytes bs = (\<lambda>(off, data). (off + length bs,
     case data of None \<Rightarrow> None | Some d \<Rightarrow> Some (if off + length bs \<le> length d then overwrite d off bs else d)))"

text \<open>\<open>off += BRVarIntSet((data ? &data[off] : NULL), (off <= dataLen ? dataLen - off : 0), v)\<close>\<close>

definition put_varint :: "u64 \<Rightarrow> wstate \<Rightarrow> wstate" where
  "put_varint v = (\<lambda>(off, data).
     case data of
       None \<Rightarrow> (off + BRVarIntSize v, None)
     | Some d \<Rightarrow>
         let (n, bs) = BRVarIntSet (Some (if off \<le> length d then length d - off else 0)) v
         in (off + n, Some (if n = 0 then d else overwrite d off bs)))"

text \<open>
  \<open>off += f(..., (data ? &data[off] : NULL), (off <= dataLen ? dataLen - off : 0))\<close> for a function that returns a
  length, which is 0 when it did not fit.
\<close>

definition put_call :: "(byte list option \<Rightarrow> nat \<times> byte list option) \<Rightarrow> wstate \<Rightarrow> wstate" where
  "put_call f = (\<lambda>(off, data).
     case data of
       None \<Rightarrow> (off + fst (f None), None)
     | Some d \<Rightarrow>
         let (n, r) = f (Some (drop off d))
         in (off + n, Some (take off d @ (case r of None \<Rightarrow> [] | Some d' \<Rightarrow> d'))))"

text \<open>\<open>return (! data || off <= dataLen) ? off : 0;\<close>\<close>

definition write_all :: "(wstate \<Rightarrow> wstate) list \<Rightarrow> byte list option \<Rightarrow> nat \<times> byte list option" where
  "write_all ws data =
     (let (off, data) = foldl (\<lambda>s w. w s) (0, data) ws
      in (case data of None \<Rightarrow> off | Some d \<Rightarrow> if off \<le> length d then off else 0, data))"

section \<open>Writers that have room\<close>

text \<open>A writer puts out \<open>bs\<close>: it counts them without a buffer and writes them into one that has room.\<close>

definition writes :: "(wstate \<Rightarrow> wstate) \<Rightarrow> byte list \<Rightarrow> bool" where
  "writes w bs \<longleftrightarrow> (\<forall>off. w (off, None) = (off + length bs, None)) \<and>
     (\<forall>off d. off + length bs \<le> length d \<longrightarrow> w (off, Some d) = (off + length bs, Some (overwrite d off bs)))"

lemma length_overwrite [simp, len_simps]: "off + length bs \<le> length d \<Longrightarrow> length (overwrite d off bs) = length d"
  by (simp add: overwrite_def)

lemma overwrite_twice:
  "off + length xs + length ys \<le> length d \<Longrightarrow>
     overwrite (overwrite d off xs) (off + length xs) ys = overwrite d off (xs @ ys)"
  by (simp add: overwrite_def ac_simps)

lemma overwrite_Nil [simp]: "overwrite d off [] = d"
  by (simp add: overwrite_def)

lemma overwrite_0: "overwrite d 0 bs = bs @ drop (length bs) d"
  by (simp add: overwrite_def)

lemma writes_put_bytes [intro, simp]: "writes (put_bytes bs) bs"
  by (simp add: writes_def put_bytes_def)

lemma writes_put_varint [intro, simp]: "writes (put_varint v) (varint_bytes v)"
proof -
  have "0 < BRVarIntSize v" by (simp add: BRVarIntSize_def BRVarIntSet_def)
  moreover have "BRVarIntSet (Some m) v = (if BRVarIntSize v \<le> m then (BRVarIntSize v, varint_bytes v) else (0, []))" for m
    by (simp add: BRVarIntSet_def BRVarIntSize_def Let_def)
  ultimately show ?thesis by (auto simp: writes_def put_varint_def Let_def)
qed

lemma foldl_writes:
  assumes "list_all2 writes ws bss"
  shows "foldl (\<lambda>s w. w s) (off, None) ws = (off + length (concat bss), None)"
    "off + length (concat bss) \<le> length d \<Longrightarrow>
       foldl (\<lambda>s w. w s) (off, Some d) ws = (off + length (concat bss), Some (overwrite d off (concat bss)))"
  using assms
proof (induction ws bss arbitrary: off d rule: list_all2_induct)
  case (Cons w ws bs bss)
  {
    case 1
    show ?case using Cons(1,3) by (simp add: writes_def add.assoc)
  next
    case 2
    have "w (off, Some d) = (off + length bs, Some (overwrite d off bs))"
      using Cons(1) 2 by (simp add: writes_def)
    moreover have "off + length bs + length (concat bss) \<le> length (overwrite d off bs)"
      using 2 by (simp del: length_concat)
    note Cons(4) [OF this]
    ultimately show ?case using 2 by (simp add: overwrite_twice add.assoc del: length_concat)
  }
qed simp_all

lemma write_all_writes:
  assumes "list_all2 writes ws bss"
  shows "write_all ws None = (length (concat bss), None)"
    "length (concat bss) \<le> length d \<Longrightarrow>
       write_all ws (Some d) = (length (concat bss), Some (concat bss @ drop (length (concat bss)) d))"
  using foldl_writes [OF assms, of 0] by (simp_all add: write_all_def overwrite_0 del: length_concat)

lemma writes_put_call:
  assumes "\<And>d. f None = (length bs, None)" "\<And>d. length bs \<le> length d \<Longrightarrow> f (Some d) = (length bs, Some (bs @ drop (length bs) d))"
  shows "writes (put_call f) bs"
  using assms by (auto simp: writes_def put_call_def overwrite_def ac_simps)

lemma writes_put_call_write_all:
  "list_all2 writes ws bss \<Longrightarrow> writes (put_call (write_all ws)) (concat bss)"
  by (intro writes_put_call) (simp_all add: write_all_writes del: length_concat)

end
