(* ===== verification/Tx.thy ===== *)
theory Tx
  imports Address Writer HashSet
begin

text \<open>
  BRTransaction.c: transactions, their serialization, the data that is signed, parsing and signing. The pairs
  \<open>(script, scriptLen)\<close> and \<open>(signature, sigLen)\<close>, which the setters keep together, are one \<open>byte list option\<close> each, \<open>None\<close>
  for \<open>NULL\<close>; an address is a C string without its terminator. Allocations succeed.
\<close>

record txin =
  in_hash :: UInt256
  in_index :: u32
  in_address :: "byte list"
  in_amount :: u64
  in_script :: "byte list option"
  in_signature :: "byte list option"
  in_sequence :: u32

record txout =
  out_address :: "byte list"
  out_amount :: u64
  out_script :: "byte list option"

record tx =
  txHash :: UInt256
  tx_version :: u32
  tx_inputs :: "txin list"
  tx_outputs :: "txout list"
  lockTime :: u32
  blockHeight :: u32
  tx_timestamp :: u32

definition TX_VERSION :: u32 where "TX_VERSION = 1"
definition TX_LOCKTIME :: u32 where "TX_LOCKTIME = 0"
definition TX_UNCONFIRMED :: u32 where "TX_UNCONFIRMED = 0x7fffffff"
definition TX_INPUT_SIZE :: nat where "TX_INPUT_SIZE = 148"
definition TX_FEE_PER_KB :: nat where "TX_FEE_PER_KB = 1000"
definition SIGHASH_ALL :: u32 where "SIGHASH_ALL = 0x01"
definition SIGHASH_NONE :: u32 where "SIGHASH_NONE = 0x02"
definition SIGHASH_SINGLE :: u32 where "SIGHASH_SINGLE = 0x03"
definition SIGHASH_ANYONECANPAY :: u32 where "SIGHASH_ANYONECANPAY = 0x80"
definition SIGHASH_FORKID :: u32 where "SIGHASH_FORKID = 0x40"

section \<open>Inputs and outputs\<close>

text \<open>
  \<open>BRAddressFromScriptPubKey(address, sizeof(address), script, scriptLen)\<close> into a cleared array of 75 bytes, as a string; the
  function never faults (\<open>FromScriptPubKey_safe\<close>).
\<close>

definition string_of :: "(nat \<times> byte list) option \<Rightarrow> byte list" where
  "string_of r = (case r of Some (n, out) \<Rightarrow> takeWhile (\<lambda>c. c \<noteq> 0) out | None \<Rightarrow> [])"

definition script_address_of :: "bool \<Rightarrow> byte list \<Rightarrow> byte list" where
  "script_address_of tn s = string_of (BRAddressFromScriptPubKey tn (Some 75) s)"

definition sig_address_of :: "bool \<Rightarrow> byte list \<Rightarrow> byte list" where
  "sig_address_of tn s = string_of (BRAddressFromScriptSig tn (Some 75) s)"

definition BRTxInputSetScript :: "bool \<Rightarrow> txin \<Rightarrow> byte list option \<Rightarrow> txin" where
  "BRTxInputSetScript tn inp script =
     inp\<lparr>in_script := script, in_address := (case script of None \<Rightarrow> [] | Some s \<Rightarrow> script_address_of tn s)\<rparr>"

definition BRTxInputSetSignature :: "bool \<Rightarrow> txin \<Rightarrow> byte list option \<Rightarrow> txin" where
  "BRTxInputSetSignature tn inp signature =
     inp\<lparr>in_signature := signature,
         in_address := (case signature of
                          None \<Rightarrow> in_address inp
                        | Some s \<Rightarrow> if in_address inp = [] then sig_address_of tn s else in_address inp)\<rparr>"

definition BRTxOutputSetScript :: "bool \<Rightarrow> txout \<Rightarrow> byte list option \<Rightarrow> txout" where
  "BRTxOutputSetScript tn out script =
     out\<lparr>out_script := script, out_address := (case script of None \<Rightarrow> [] | Some s \<Rightarrow> script_address_of tn s)\<rparr>"

text \<open>
  The setters by address: the first call of \<open>BRAddressScriptPubKey\<close> gives the length, the array is cleared and filled by
  the second; an invalid address fails the assertion.
\<close>

definition script_of_address :: "bool \<Rightarrow> byte list \<Rightarrow> byte list option" where
  "script_of_address tn address =
     (case BRAddressScriptPubKey tn None address of
        None \<Rightarrow> None
      | Some (n, _) \<Rightarrow> (case BRAddressScriptPubKey tn (Some n) address of None \<Rightarrow> None | Some (_, s) \<Rightarrow> Some (take n (s @ replicate n 0))))"

definition BRTxInputSetAddress :: "bool \<Rightarrow> txin \<Rightarrow> byte list option \<Rightarrow> txin option" where
  "BRTxInputSetAddress tn inp address =
     (case address of
        None \<Rightarrow> Some (inp\<lparr>in_script := None, in_address := []\<rparr>)
      | Some a \<Rightarrow>
          if BRAddressIsValid tn a \<noteq> Some True then None
          else case script_of_address tn a of
                 None \<Rightarrow> None
               | Some s \<Rightarrow> Some (inp\<lparr>in_script := Some s, in_address := take 74 a\<rparr>))"

definition BRTxOutputSetAddress :: "bool \<Rightarrow> txout \<Rightarrow> byte list option \<Rightarrow> txout option" where
  "BRTxOutputSetAddress tn out address =
     (case address of
        None \<Rightarrow> Some (out\<lparr>out_script := None, out_address := []\<rparr>)
      | Some a \<Rightarrow>
          if BRAddressIsValid tn a \<noteq> Some True then None
          else case script_of_address tn a of
                 None \<Rightarrow> None
               | Some s \<Rightarrow> Some (out\<lparr>out_script := Some s, out_address := take 74 a\<rparr>))"

text \<open>The bytes of an array that may be \<open>NULL\<close>, with length 0.\<close>

definition arr :: "byte list option \<Rightarrow> byte list" where
  "arr a = (case a of None \<Rightarrow> [] | Some b \<Rightarrow> b)"

definition alen :: "byte list option \<Rightarrow> u64" where
  "alen a = of_nat (length (arr a))"

definition TxInputData :: "txin \<Rightarrow> byte list option \<Rightarrow> nat \<times> byte list option" where
  "TxInputData inp = write_all
     ([put_bytes (UInt256Set (in_hash inp)), put_bytes (UInt32SetLE (in_index inp)),
       put_varint (alen (in_signature inp)), put_bytes (arr (in_signature inp))] @
      (if in_amount inp \<noteq> 0 then [put_bytes (UInt64SetLE (in_amount inp))] else []) @
      [put_bytes (UInt32SetLE (in_sequence inp))])"

text \<open>\<open>_BRTransactionOutputData\<close>: all outputs for the index \<open>SIZE_MAX\<close>, else the one at the index.\<close>

definition output_range :: "tx \<Rightarrow> nat \<Rightarrow> txout list" where
  "output_range t index =
     (if index = SIZE_MAX then tx_outputs t
      else if index < length (tx_outputs t) then [tx_outputs t ! index] else [])"

definition output_writers :: "txout \<Rightarrow> (wstate \<Rightarrow> wstate) list" where
  "output_writers out =
     [put_bytes (UInt64SetLE (out_amount out)), put_varint (alen (out_script out)), put_bytes (arr (out_script out))]"

definition TransactionOutputData :: "tx \<Rightarrow> nat \<Rightarrow> byte list option \<Rightarrow> nat \<times> byte list option" where
  "TransactionOutputData t index = write_all (concat (map output_writers (output_range t index)))"

section \<open>The data to be signed\<close>

text \<open>A call that sizes a buffer, and one that fills it.\<close>

definition filled :: "(byte list option \<Rightarrow> nat \<times> byte list option) \<Rightarrow> byte list" where
  "filled f =
     (let n = fst (f None); (m, d) = f (Some (replicate n 0))
      in take m (case d of None \<Rightarrow> [] | Some b \<Rightarrow> b))"

definition TransactionWitnessData :: "tx \<Rightarrow> nat \<Rightarrow> u32 \<Rightarrow> byte list option \<Rightarrow> nat \<times> byte list option" where
  "TransactionWitnessData t index hashType data =
     (let anyoneCanPay = (hashType AND SIGHASH_ANYONECANPAY \<noteq> 0); sigHash = hashType AND 0x1f;
          single_none = (sigHash = SIGHASH_SINGLE \<or> sigHash = SIGHASH_NONE)
      in if index \<ge> length (tx_inputs t) then (0, data)
         else
           let inputsHash = (if \<not> anyoneCanPay
                 then BRSHA256_2 (concat (map (\<lambda>i. UInt256Set (in_hash i) @ UInt32SetLE (in_index i)) (tx_inputs t)))
                 else UInt256Set 0);
               sequenceHash = (if \<not> anyoneCanPay \<and> \<not> single_none
                 then BRSHA256_2 (concat (map (\<lambda>i. UInt32SetLE (in_sequence i)) (tx_inputs t)))
                 else UInt256Set 0);
               input = (tx_inputs t ! index)\<lparr>in_signature := in_script (tx_inputs t ! index)\<rparr>;
               outputsHash = (if \<not> single_none then BRSHA256_2 (filled (TransactionOutputData t SIZE_MAX))
                 else if sigHash = SIGHASH_SINGLE \<and> index < length (tx_outputs t)
                 then BRSHA256_2 (filled (TransactionOutputData t index))
                 else UInt256Set 0)
           in write_all
                [put_bytes (UInt32SetLE (tx_version t)), put_bytes inputsHash, put_bytes sequenceHash,
                 put_call (TxInputData input), put_bytes outputsHash, put_bytes (UInt32SetLE (lockTime t)),
                 put_bytes (UInt32SetLE hashType)] data)"

text \<open>The copy of input \<open>i\<close> that goes into the data for the input at \<open>index\<close>, or into the whole transaction.\<close>

definition signing_input :: "nat \<Rightarrow> u32 \<Rightarrow> nat \<Rightarrow> txin \<Rightarrow> txin" where
  "signing_input index sigHash i input =
     (if index = i \<or> (index = SIZE_MAX \<and> in_signature input = None) then
        let input = input\<lparr>in_signature := in_script input\<rparr>
        in if index = i then input\<lparr>in_amount := 0\<rparr> else input
      else if index \<noteq> SIZE_MAX then
        let input = input\<lparr>in_signature := Some []\<rparr>;
            input = (if sigHash = SIGHASH_NONE \<or> sigHash = SIGHASH_SINGLE then input\<lparr>in_sequence := 0\<rparr> else input)
        in input\<lparr>in_amount := 0\<rparr>
      else input\<lparr>in_amount := 0\<rparr>)"

definition TransactionData :: "tx \<Rightarrow> nat \<Rightarrow> u32 \<Rightarrow> byte list option \<Rightarrow> nat \<times> byte list option" where
  "TransactionData t index hashType data =
     (let anyoneCanPay = (hashType AND SIGHASH_ANYONECANPAY \<noteq> 0); sigHash = hashType AND 0x1f in
      if hashType AND SIGHASH_FORKID \<noteq> 0 then TransactionWitnessData t index hashType data
      else if anyoneCanPay \<and> index \<ge> length (tx_inputs t) then (0, data)
      else
        let ins = (if \<not> anyoneCanPay
              then put_varint (of_nat (length (tx_inputs t))) #
                   map (\<lambda>(i, input). put_call (TxInputData (signing_input index sigHash i input))) (enumerate 0 (tx_inputs t))
              else [put_varint 1,
                    put_call (TxInputData ((tx_inputs t ! index)\<lparr>in_signature := in_script (tx_inputs t ! index), in_amount := 0\<rparr>))]);
            outs = (if sigHash \<noteq> SIGHASH_SINGLE \<and> sigHash \<noteq> SIGHASH_NONE
              then [put_varint (of_nat (length (tx_outputs t))), put_call (TransactionOutputData t SIZE_MAX)]
              else if sigHash = SIGHASH_SINGLE \<and> index < length (tx_outputs t)
              then put_varint (of_nat (index + 1)) #
                   concat (replicate index [put_bytes (UInt64SetLE (- 1)), put_varint 0]) @
                   [put_call (TransactionOutputData t index)]
              else [put_varint 0])
        in write_all
             ([put_bytes (UInt32SetLE (tx_version t))] @ ins @ outs @ [put_bytes (UInt32SetLE (lockTime t))] @
              (if index \<noteq> SIZE_MAX then [put_bytes (UInt32SetLE hashType)] else [])) data)"

definition BRTransactionSerialize :: "tx \<Rightarrow> byte list option \<Rightarrow> nat \<times> byte list option" where
  "BRTransactionSerialize t buf = TransactionData t SIZE_MAX SIGHASH_ALL buf"

section \<open>Building\<close>

definition BRTransactionNew :: tx where
  "BRTransactionNew = \<lparr>txHash = 0, tx_version = TX_VERSION, tx_inputs = [], tx_outputs = [], lockTime = TX_LOCKTIME,
     blockHeight = TX_UNCONFIRMED, tx_timestamp = 0\<rparr>"

definition BRTransactionAddInput ::
  "bool \<Rightarrow> tx \<Rightarrow> UInt256 \<Rightarrow> u32 \<Rightarrow> u64 \<Rightarrow> byte list option \<Rightarrow> byte list option \<Rightarrow> u32 \<Rightarrow> tx option" where
  "BRTransactionAddInput tn t h index amount script signature seq =
     (if UInt256IsZero h then None
      else
        let input = \<lparr>in_hash = h, in_index = index, in_address = [], in_amount = amount, in_script = None,
              in_signature = None, in_sequence = seq\<rparr>;
            input = (case script of None \<Rightarrow> input | Some s \<Rightarrow> BRTxInputSetScript tn input (Some s));
            input = (case signature of None \<Rightarrow> input | Some s \<Rightarrow> BRTxInputSetSignature tn input (Some s))
        in Some (t\<lparr>tx_inputs := tx_inputs t @ [input]\<rparr>))"

definition BRTransactionAddOutput :: "bool \<Rightarrow> tx \<Rightarrow> u64 \<Rightarrow> byte list option \<Rightarrow> tx" where
  "BRTransactionAddOutput tn t amount script =
     t\<lparr>tx_outputs := tx_outputs t @
         [BRTxOutputSetScript tn \<lparr>out_address = [], out_amount = amount, out_script = None\<rparr> script]\<rparr>"

fun copy_inputs :: "bool \<Rightarrow> tx \<Rightarrow> txin list \<Rightarrow> tx option" where
  "copy_inputs tn cpy [] = Some cpy"
| "copy_inputs tn cpy (i # is) =
     (case BRTransactionAddInput tn cpy (in_hash i) (in_index i) (in_amount i) (in_script i) (in_signature i) (in_sequence i) of
        None \<Rightarrow> None | Some cpy \<Rightarrow> copy_inputs tn cpy is)"

definition BRTransactionCopy :: "bool \<Rightarrow> tx \<Rightarrow> tx option" where
  "BRTransactionCopy tn t =
     (case copy_inputs tn (t\<lparr>tx_inputs := [], tx_outputs := []\<rparr>) (tx_inputs t) of
        None \<Rightarrow> None
      | Some cpy \<Rightarrow> Some (foldl (\<lambda>c out. BRTransactionAddOutput tn c (out_amount out) (out_script out)) cpy (tx_outputs t)))"

text \<open>The shuffle; \<open>rand i n\<close> is the result of \<open>BRRand(n)\<close> in pass \<open>i\<close>.\<close>

fun shuffle_from :: "(nat \<Rightarrow> nat \<Rightarrow> nat) \<Rightarrow> nat \<Rightarrow> nat \<Rightarrow> 'a list \<Rightarrow> 'a list" where
  "shuffle_from rand i 0 xs = xs"
| "shuffle_from rand i (Suc n) xs =
     (if i + 1 < length xs then
        let j = i + rand i (length xs - i)
        in shuffle_from rand (i + 1) n (if j \<noteq> i then xs[i := xs ! j, j := xs ! i] else xs)
      else xs)"

definition BRTransactionShuffleOutputs :: "(nat \<Rightarrow> nat \<Rightarrow> nat) \<Rightarrow> tx \<Rightarrow> tx" where
  "BRTransactionShuffleOutputs rand t =
     t\<lparr>tx_outputs := shuffle_from rand 0 (length (tx_outputs t)) (tx_outputs t)\<rparr>"

section \<open>Size and fee\<close>

definition input_size :: "txin \<Rightarrow> nat" where
  "input_size i = (case in_signature i of
     Some s \<Rightarrow> 32 + 4 + BRVarIntSize (of_nat (length s)) + length s + 4 | None \<Rightarrow> TX_INPUT_SIZE)"

definition output_size :: "txout \<Rightarrow> nat" where
  "output_size out = 8 + BRVarIntSize (alen (out_script out)) + length (arr (out_script out))"

definition BRTransactionSize :: "tx \<Rightarrow> nat" where
  "BRTransactionSize t = 8 + BRVarIntSize (of_nat (length (tx_inputs t))) + BRVarIntSize (of_nat (length (tx_outputs t))) +
     sum_list (map input_size (tx_inputs t)) + sum_list (map output_size (tx_outputs t))"

definition BRTransactionStandardFee :: "tx \<Rightarrow> nat" where
  "BRTransactionStandardFee t = BRTransactionSize t * TX_FEE_PER_KB div 1000"

definition BRTransactionIsSigned :: "tx \<Rightarrow> bool" where
  "BRTransactionIsSigned t = list_all (\<lambda>i. in_signature i \<noteq> None) (tx_inputs t)"

section \<open>Parsing\<close>

definition new_input :: txin where
  "new_input = \<lparr>in_hash = 0, in_index = 0, in_address = [], in_amount = 0, in_script = None, in_signature = None, in_sequence = 0\<rparr>"

text \<open>
  The script at \<open>off\<close>, when the test \<open>off + sLen <= bufLen\<close> succeeds: \<open>Some None\<close> when it fails, and \<open>None\<close> when it
  succeeds only because \<open>off + sLen\<close> wraps, since the copy then reads far outside of the buffer.
\<close>

definition script_at :: "byte list \<Rightarrow> nat \<Rightarrow> nat \<Rightarrow> byte list option option" where
  "script_at buf off sLen =
     (if size_add off sLen \<le> length buf
      then (if off + sLen \<le> length buf then Some (Some (take sLen (drop off buf))) else None)
      else Some None)"

definition pays_address :: "bool \<Rightarrow> byte list \<Rightarrow> bool" where
  "pays_address tn s = (case BRAddressFromScriptPubKey tn None s of Some (n, _) \<Rightarrow> n > 0 | None \<Rightarrow> False)"

definition parse_input :: "bool \<Rightarrow> byte list \<Rightarrow> nat \<Rightarrow> (txin \<times> bool \<times> nat) option" where
  "parse_input tn buf off =
     (case (get_field 32 UInt256Get 0 buf off, get_u32 buf (off + 32)) of
        (Some h, Some idx) \<Rightarrow>
          let (sLen, len) = varint_at buf (off + 36); off = off + 36 + len;
              inp = new_input\<lparr>in_hash := h, in_index := idx\<rparr>
          in (case script_at buf off sLen of
                None \<Rightarrow> None
              | Some sc \<Rightarrow>
                  case (case sc of
                          None \<Rightarrow> Some (inp, False, size_add off sLen)
                        | Some s \<Rightarrow>
                            if pays_address tn s then
                              map_option (\<lambda>a. ((BRTxInputSetScript tn inp (Some s))\<lparr>in_amount := a\<rparr>, True, off + 8 + sLen))
                                (get_u64 buf (off + sLen))
                            else Some (BRTxInputSetSignature tn inp (Some s), False, off + sLen)) of
                    None \<Rightarrow> None
                  | Some (inp, uns, off) \<Rightarrow>
                      map_option (\<lambda>q. (inp\<lparr>in_sequence := q\<rparr>, uns, size_add off 4)) (get_u32 buf off))
      | _ \<Rightarrow> None)"

text \<open>
  The loops end when \<open>off > bufLen\<close>, with entries left over; the result is then \<open>NULL\<close>. The second component tells whether
  the loop ran to the end of the count.
\<close>

function parse_inputs :: "bool \<Rightarrow> byte list \<Rightarrow> nat \<Rightarrow> nat \<Rightarrow> (txin list \<times> bool \<times> nat) option" where
  "parse_inputs tn buf n off =
     (if off \<le> length buf \<and> n \<noteq> 0 then
        case parse_input tn buf off of
          None \<Rightarrow> None
        | Some (i, uns, off) \<Rightarrow>
            map_option (\<lambda>(is, u, off). (i # is, uns \<or> u, off)) (parse_inputs tn buf (n - 1) off)
      else Some ([], False, off))"
  by pat_completeness auto
termination by (relation "measure (\<lambda>(tn, buf, n, off). n)") auto

declare parse_inputs.simps [simp del]

definition parse_output :: "bool \<Rightarrow> byte list \<Rightarrow> nat \<Rightarrow> (txout \<times> nat) option" where
  "parse_output tn buf off =
     (case get_u64 buf off of
        None \<Rightarrow> None
      | Some a \<Rightarrow>
          let (sLen, len) = varint_at buf (off + 8); off = off + 8 + len;
              out = \<lparr>out_address = [], out_amount = a, out_script = None\<rparr>
          in map_option (\<lambda>sc. (case sc of None \<Rightarrow> out | Some s \<Rightarrow> BRTxOutputSetScript tn out (Some s), size_add off sLen))
               (script_at buf off sLen))"

function parse_outputs :: "bool \<Rightarrow> byte list \<Rightarrow> nat \<Rightarrow> nat \<Rightarrow> (txout list \<times> nat) option" where
  "parse_outputs tn buf n off =
     (if off \<le> length buf \<and> n \<noteq> 0 then
        case parse_output tn buf off of
          None \<Rightarrow> None
        | Some (out, off) \<Rightarrow> map_option (\<lambda>(outs, off). (out # outs, off)) (parse_outputs tn buf (n - 1) off)
      else Some ([], off))"
  by pat_completeness auto
termination by (relation "measure (\<lambda>(tn, buf, n, off). n)") auto

declare parse_outputs.simps [simp del]

text \<open>
  \<open>BRTransactionParse\<close> on a buffer that is not \<open>NULL\<close>; the inner \<open>None\<close> is \<open>NULL\<close>. The arrays for the announced numbers of inputs and outputs are
  taken to be allocated: the size of an array for a huge number, which can wrap, is not modelled.
\<close>

definition BRTransactionParse :: "bool \<Rightarrow> byte list \<Rightarrow> tx option option" where
  "BRTransactionParse tn buf =
     (case get_u32 buf 0 of
        None \<Rightarrow> None
      | Some ver \<Rightarrow>
          let (inCount, len) = varint_at buf 4 in
          case parse_inputs tn buf inCount (4 + len) of
            None \<Rightarrow> None
          | Some (ins, uns, off) \<Rightarrow>
              let (outCount, len) = varint_at buf off in
              case parse_outputs tn buf outCount (size_add off len) of
                None \<Rightarrow> None
              | Some (outs, off) \<Rightarrow>
                  case get_u32 buf off of
                    None \<Rightarrow> None
                  | Some lock \<Rightarrow>
                      let off = size_add off 4 in
                      Some (if inCount = 0 \<or> off > length buf then None
                            else Some (BRTransactionNew\<lparr>tx_version := ver,
                              tx_inputs := ins @ replicate (inCount - length ins) new_input,
                              tx_outputs := outs @ replicate (outCount - length outs) \<lparr>out_address = [], out_amount = 0, out_script = None\<rparr>,
                              lockTime := lock, txHash := (if uns then 0 else UInt256Get (BRSHA256_2 (take off buf)))\<rparr>)))"

section \<open>Signing\<close>

text \<open>
  The functions of BRKey.c that wrap the elliptic curve library are parameters: \<open>kaddr\<close> is the address of a key, empty when
  \<open>BRKeyAddress\<close> fails, \<open>kpub\<close> its public key, and \<open>ksign\<close> the signature of a digest.
\<close>

definition signature_script ::
  "('k \<Rightarrow> byte list) \<Rightarrow> ('k \<Rightarrow> UInt256 \<Rightarrow> byte list) \<Rightarrow> u32 \<Rightarrow> 'k \<Rightarrow> bool \<Rightarrow> byte list \<Rightarrow> byte list" where
  "signature_script kpub ksign forkId key pkh data =
     (let md = UInt256Get (BRSHA256_2 data);
          sig = ksign key md @ [ucast (forkId OR SIGHASH_ALL)];
          room = 1 + 73 + 1 + length (kpub key);
          (n, s) = BRScriptPushData (Some room) sig
      in if pkh then s @ snd (BRScriptPushData (Some (room - n)) (kpub key)) else s)"

definition sign_input ::
  "bool \<Rightarrow> ('k \<Rightarrow> byte list) \<Rightarrow> ('k \<Rightarrow> byte list) \<Rightarrow> ('k \<Rightarrow> UInt256 \<Rightarrow> byte list) \<Rightarrow> u32 \<Rightarrow> 'k list \<Rightarrow> nat \<Rightarrow> tx \<Rightarrow> tx" where
  "sign_input tn kaddr kpub ksign forkId keys i t =
     (let inp = tx_inputs t ! i; script = arr (in_script inp); address = script_address_of tn script in
      if address = [] then t
      else
        case List.find (\<lambda>k. BRAddressEq (kaddr k) address) keys of
          None \<Rightarrow> t
        | Some key \<Rightarrow>
            let n = fst (BRScriptElements None script); (count, elems) = BRScriptElements (Some n) script;
                pkh = (count \<ge> 2 \<and> script ! (elems ! (count - 2)) = OP_EQUALVERIFY);
                data = filled (TransactionData t i (forkId OR SIGHASH_ALL))
            in t\<lparr>tx_inputs := (tx_inputs t)[i := BRTxInputSetSignature tn inp
                   (Some (signature_script kpub ksign forkId key pkh data))]\<rparr>)"

definition BRTransactionSign ::
  "bool \<Rightarrow> ('k \<Rightarrow> byte list) \<Rightarrow> ('k \<Rightarrow> byte list) \<Rightarrow> ('k \<Rightarrow> UInt256 \<Rightarrow> byte list) \<Rightarrow> u32 \<Rightarrow> 'k list \<Rightarrow> tx \<Rightarrow> tx \<times> bool" where
  "BRTransactionSign tn kaddr kpub ksign forkId keys t =
     (let t = fold (sign_input tn kaddr kpub ksign forkId keys) [0..<length (tx_inputs t)] t
      in if BRTransactionIsSigned t
         then (t\<lparr>txHash := UInt256Get (BRSHA256_2 (filled (TransactionData t SIZE_MAX 0)))\<rparr>, True)
         else (t, False))"

section \<open>Sets of transactions\<close>

definition BRTransactionHash :: "tx \<Rightarrow> nat" where
  "BRTransactionHash t = unat (u32_view (txHash t) 0)"

definition BRTransactionEq :: "tx \<Rightarrow> tx \<Rightarrow> bool" where
  "BRTransactionEq a b \<longleftrightarrow> UInt256Eq (txHash a) (txHash b)"

interpretation tx_set: item_equality BRTransactionHash BRTransactionEq
  by unfold_locales (auto simp: BRTransactionHash_def BRTransactionEq_def)

section \<open>The bytes of a transaction\<close>

definition input_bytes :: "txin \<Rightarrow> byte list" where
  "input_bytes i = UInt256Set (in_hash i) @ UInt32SetLE (in_index i) @ varint_bytes (alen (in_signature i)) @
     arr (in_signature i) @ (if in_amount i \<noteq> 0 then UInt64SetLE (in_amount i) else []) @ UInt32SetLE (in_sequence i)"

definition output_bytes :: "txout \<Rightarrow> byte list" where
  "output_bytes out = UInt64SetLE (out_amount out) @ varint_bytes (alen (out_script out)) @ arr (out_script out)"

text \<open>In the whole transaction an input without a signature is written with its script and amount.\<close>

definition plain_input :: "txin \<Rightarrow> txin" where
  "plain_input i = (if in_signature i = None then i\<lparr>in_signature := in_script i\<rparr> else i\<lparr>in_amount := 0\<rparr>)"

definition tx_bytes :: "tx \<Rightarrow> byte list" where
  "tx_bytes t = UInt32SetLE (tx_version t) @ varint_bytes (of_nat (length (tx_inputs t))) @
     concat (map (input_bytes \<circ> plain_input) (tx_inputs t)) @ varint_bytes (of_nat (length (tx_outputs t))) @
     concat (map output_bytes (tx_outputs t)) @ UInt32SetLE (lockTime t)"

lemma writes_input: "writes (put_call (TxInputData i)) (input_bytes i)"
proof -
  have "list_all2 writes
      ([put_bytes (UInt256Set (in_hash i)), put_bytes (UInt32SetLE (in_index i)),
        put_varint (alen (in_signature i)), put_bytes (arr (in_signature i))] @
       (if in_amount i \<noteq> 0 then [put_bytes (UInt64SetLE (in_amount i))] else []) @ [put_bytes (UInt32SetLE (in_sequence i))])
      ([UInt256Set (in_hash i), UInt32SetLE (in_index i), varint_bytes (alen (in_signature i)), arr (in_signature i)] @
       (if in_amount i \<noteq> 0 then [UInt64SetLE (in_amount i)] else []) @ [UInt32SetLE (in_sequence i)])"
    by simp
  from writes_put_call_write_all [OF this] show ?thesis
    by (simp add: TxInputData_def input_bytes_def split: if_splits)
qed

lemma writes_outputs:
  "list_all2 writes (concat (map output_writers outs))
     (concat (map (\<lambda>out. [UInt64SetLE (out_amount out), varint_bytes (alen (out_script out)), arr (out_script out)]) outs))"
  by (induction outs) (simp_all add: output_writers_def)

lemma concat_output_bytes:
  "concat (concat (map (\<lambda>out. [UInt64SetLE (out_amount out), varint_bytes (alen (out_script out)), arr (out_script out)]) outs)) =
     concat (map output_bytes outs)"
  by (induction outs) (simp_all add: output_bytes_def)

lemma writes_output_data: "writes (put_call (TransactionOutputData t index)) (concat (map output_bytes (output_range t index)))"
  using writes_put_call_write_all [OF writes_outputs [of "output_range t index"]]
  by (simp add: TransactionOutputData_def concat_output_bytes)

lemma signing_whole: "i < SIZE_MAX \<Longrightarrow> signing_input SIZE_MAX s i input = plain_input input"
  by (simp add: signing_input_def plain_input_def)

lemma writes_inputs:
  assumes "n + length ins \<le> SIZE_MAX"
  shows "list_all2 writes (map (\<lambda>(i, input). put_call (TxInputData (signing_input SIZE_MAX s i input))) (enumerate n ins))
    (map (input_bytes \<circ> plain_input) ins)"
  using assms by (induction ins arbitrary: n) (simp_all add: signing_whole writes_input)

lemma hashType_all: "SIGHASH_ALL AND SIGHASH_FORKID = 0" "SIGHASH_ALL AND SIGHASH_ANYONECANPAY = 0"
  "SIGHASH_ALL AND 0x1f = SIGHASH_ALL" "SIGHASH_ALL \<noteq> SIGHASH_SINGLE" "SIGHASH_ALL \<noteq> SIGHASH_NONE"
  by (simp_all add: SIGHASH_ALL_def SIGHASH_FORKID_def SIGHASH_ANYONECANPAY_def SIGHASH_SINGLE_def SIGHASH_NONE_def)

lemma Serialize_writes:
  assumes "length (tx_inputs t) \<le> SIZE_MAX"
  shows "BRTransactionSerialize t None = (length (tx_bytes t), None)"
    "length (tx_bytes t) \<le> length d \<Longrightarrow>
       BRTransactionSerialize t (Some d) = (length (tx_bytes t), Some (tx_bytes t @ drop (length (tx_bytes t)) d))"
proof -
  let ?ws = "[put_bytes (UInt32SetLE (tx_version t))] @
    (put_varint (of_nat (length (tx_inputs t))) #
      map (\<lambda>(i, input). put_call (TxInputData (signing_input SIZE_MAX SIGHASH_ALL i input))) (enumerate 0 (tx_inputs t))) @
    [put_varint (of_nat (length (tx_outputs t))), put_call (TransactionOutputData t SIZE_MAX)] @
    [put_bytes (UInt32SetLE (lockTime t))] @ []"
  let ?bs = "[UInt32SetLE (tx_version t)] @ (varint_bytes (of_nat (length (tx_inputs t))) #
      map (input_bytes \<circ> plain_input) (tx_inputs t)) @
    [varint_bytes (of_nat (length (tx_outputs t))), concat (map output_bytes (tx_outputs t))] @ [UInt32SetLE (lockTime t)] @ []"
  have "output_range t SIZE_MAX = tx_outputs t" by (simp add: output_range_def)
  then have "list_all2 writes ?ws ?bs"
    using writes_inputs [of 0 "tx_inputs t" SIGHASH_ALL] assms writes_output_data [of t SIZE_MAX]
    by (auto intro!: list_all2_appendI)
  note w = write_all_writes [OF this]
  have c: "concat ?bs = tx_bytes t" by (simp add: tx_bytes_def)
  have f: "BRTransactionSerialize t = write_all ?ws"
    unfolding BRTransactionSerialize_def TransactionData_def Let_def hashType_all
    by (rule ext) (simp add: hashType_all)
  show "BRTransactionSerialize t None = (length (tx_bytes t), None)" using w(1) unfolding f c .
  show "length (tx_bytes t) \<le> length d \<Longrightarrow>
       BRTransactionSerialize t (Some d) = (length (tx_bytes t), Some (tx_bytes t @ drop (length (tx_bytes t)) d))"
    using w(2) [of d] unfolding f c .
qed

lemma size_signed:
  assumes "BRTransactionIsSigned t"
  shows "BRTransactionSize t = length (tx_bytes t)"
proof -
  have "sum_list (map input_size ins) = length (concat (map (input_bytes \<circ> plain_input) ins))"
    if "list_all (\<lambda>i. in_signature i \<noteq> None) ins" for ins
    using that
    by (induction ins) (auto simp: input_size_def input_bytes_def plain_input_def alen_def arr_def)
  moreover have "sum_list (map output_size outs) = length (concat (map output_bytes outs))" for outs
    by (induction outs) (auto simp: output_size_def output_bytes_def)
  ultimately show ?thesis
    using assms by (simp add: BRTransactionSize_def tx_bytes_def BRTransactionIsSigned_def del: length_concat)
qed

section \<open>Reading it back\<close>

lemma get_at:
  assumes "off = length p" "length p + 32 + length r < 2 ^ 64"
  shows "get_u32 (p @ UInt32SetLE v @ r) off = Some v" "get_u64 (p @ UInt64SetLE w @ r) off = Some w"
    "get_field 32 UInt256Get 0 (p @ UInt256Set h @ r) off = Some h"
  using assms by (simp_all add: get_u32_def get_u64_def get_field_in uint_get_set UInt_get_set)

lemma varint_at_written:
  "off = length p \<Longrightarrow> varint_at (p @ varint_bytes v @ r) off = (unat v, BRVarIntSize v)"
  by (simp add: varint_at_def varint_read_written)

lemma script_at_written:
  "off = length p \<Longrightarrow> length (p @ s @ r) < 2 ^ 64 \<Longrightarrow> script_at (p @ s @ r) off (length s) = Some (Some s)"
  by (simp add: script_at_def size_add_small)

text \<open>
  The inputs that the serialization determines: with a signature of which the address is known, or unsigned, with the amount and
  the script of the output that is spent.
\<close>

definition readable_input :: "bool \<Rightarrow> txin \<Rightarrow> bool" where
  "readable_input tn i = (case in_signature i of
     Some s \<Rightarrow> in_script i = None \<and> in_amount i = 0 \<and> in_address i = sig_address_of tn s \<and> \<not> pays_address tn s
   | None \<Rightarrow> (case in_script i of
       Some s \<Rightarrow> in_amount i \<noteq> 0 \<and> in_address i = script_address_of tn s \<and> pays_address tn s
     | None \<Rightarrow> False))"

definition readable_output :: "bool \<Rightarrow> txout \<Rightarrow> bool" where
  "readable_output tn out = (case out_script out of Some s \<Rightarrow> out_address out = script_address_of tn s | None \<Rightarrow> False)"

lemma parse_output_written:
  assumes "readable_output tn out" "length p + length (output_bytes out) + length r + 64 < 2 ^ 64"
  shows "parse_output tn (p @ output_bytes out @ r) (length p) = Some (out, length p + length (output_bytes out))"
proof -
  from assms(1) obtain s where s: "out_script out = Some s" "out_address out = script_address_of tn s"
    by (auto simp: readable_output_def split: option.splits)
  let ?a = "UInt64SetLE (out_amount out)" and ?v = "varint_bytes (of_nat (length s))"
  have b: "output_bytes out = ?a @ ?v @ s" by (simp add: output_bytes_def s arr_def alen_def)
  have l: "unat (of_nat (length s) :: u64) = length s" using assms(2) b by (simp add: unat_of_nat take_bit_nat_eq_self_iff)
  have 1: "get_u64 (p @ ?a @ ?v @ s @ r) (length p) = Some (out_amount out)"
    using assms(2) b by (intro get_at) simp_all
  have 2: "varint_at (p @ ?a @ ?v @ s @ r) (length p + 8) = (length s, length ?v)"
    using varint_at_written [of "length p + 8" "p @ ?a" "of_nat (length s)" "s @ r"] l by simp
  have 3: "script_at (p @ ?a @ ?v @ s @ r) (length p + 8 + length ?v) (length s) = Some (Some s)"
    using script_at_written [of "length p + 8 + length ?v" "p @ ?a @ ?v" s r] assms(2) b by simp
  have 4: "size_add (length p + 8 + length ?v) (length s) = length p + length (output_bytes out)"
    using assms(2) b by (simp add: size_add_small)
  show ?thesis
    unfolding parse_output_def b append_assoc 1 option.case 2 Let_def prod.case 3 4 [unfolded b]
    by (simp add: 4 b BRTxOutputSetScript_def s)
qed

lemma parse_input_written:
  assumes "readable_input tn i" "length p + length (input_bytes (plain_input i)) + length r + 64 < 2 ^ 64"
  shows "parse_input tn (p @ input_bytes (plain_input i) @ r) (length p) =
    Some (i, in_signature i = None, length p + length (input_bytes (plain_input i)))"
proof -
  define s where "s = arr (in_signature (plain_input i))"
  define am where "am = (if in_signature i = None then UInt64SetLE (in_amount i) else [])"
  let ?h = "UInt256Set (in_hash i)" and ?x = "UInt32SetLE (in_index i)" and ?v = "varint_bytes (of_nat (length s))"
    and ?q = "UInt32SetLE (in_sequence i)"
  let ?buf = "p @ ?h @ ?x @ ?v @ s @ am @ ?q @ r"
  have b: "input_bytes (plain_input i) = ?h @ ?x @ ?v @ s @ am @ ?q"
    using assms(1)
    by (auto simp: input_bytes_def plain_input_def s_def am_def alen_def arr_def readable_input_def split: option.splits)
  have l: "unat (of_nat (length s) :: u64) = length s"
    using assms(2) b by (simp add: unat_of_nat take_bit_nat_eq_self_iff)
  have 1: "get_field 32 UInt256Get 0 ?buf (length p) = Some (in_hash i)"
    using assms(2) b by (intro get_at) simp_all
  have 2: "get_u32 ?buf (length p + 32) = Some (in_index i)"
    using get_at(1) [of "length p + 32" "p @ ?h" "?v @ s @ am @ ?q @ r" "in_index i"] assms(2) b by simp
  have 3: "varint_at ?buf (length p + 36) = (length s, length ?v)"
    using varint_at_written [of "length p + 36" "p @ ?h @ ?x" "of_nat (length s)" "s @ am @ ?q @ r"] l by simp
  let ?o = "length p + 36 + length ?v"
  have 4: "script_at ?buf ?o (length s) = Some (Some s)"
    using script_at_written [of ?o "p @ ?h @ ?x @ ?v" s "am @ ?q @ r"] assms(2) b by simp
  have 5: "get_u32 ?buf (?o + length s + length am) = Some (in_sequence i)"
    using get_at(1) [of "?o + length s + length am" "p @ ?h @ ?x @ ?v @ s @ am" r "in_sequence i"] assms(2) b by simp
  have 6: "size_add (?o + length s + length am) 4 = length p + length (input_bytes (plain_input i))"
    using assms(2) b by (simp add: size_add_small)
  note prefix = parse_input_def append_assoc 1 2 option.case prod.case 3 Let_def 4
  show ?thesis
  proof (cases "in_signature i")
    case None
    with assms(1) obtain sc where i: "in_script i = Some sc" "in_address i = script_address_of tn sc" "pays_address tn sc"
      by (auto simp: readable_input_def split: option.splits)
    have sc: "sc = s" by (simp add: s_def plain_input_def None i arr_def)
    have am: "am = UInt64SetLE (in_amount i)" by (simp add: am_def None)
    have 7: "get_u64 ?buf (?o + length s) = Some (in_amount i)"
      using get_at(2) [of "?o + length s" "p @ ?h @ ?x @ ?v @ s" "?q @ r" "in_amount i"] assms(2) b am by simp
    have 8: "?o + 8 + length s = ?o + length s + length am" by (simp add: am)
    show ?thesis
      unfolding b prefix if_P [OF i(3) [unfolded sc]] 7 option.map option.case prod.case 8 5 6 [unfolded b]
      by (simp add: i sc None BRTxInputSetScript_def new_input_def)
  next
    case (Some sg)
    with assms(1) have i: "in_script i = None" "in_amount i = 0" "in_address i = sig_address_of tn sg" "\<not> pays_address tn sg"
      by (auto simp: readable_input_def)
    have sg: "sg = s" by (simp add: s_def plain_input_def Some arr_def)
    have am: "am = []" by (simp add: am_def Some)
    have 8: "length am = 0" by (simp add: am)
    show ?thesis
      unfolding b prefix if_not_P [OF i(4) [unfolded sg]] 5 [unfolded 8 add_0_right] option.map option.case prod.case
        6 [unfolded b 8 add_0_right]
      by (simp add: i sg Some BRTxInputSetSignature_def new_input_def)
  qed
qed

lemma concat_map_Cons: "concat (map f (x # xs)) = f x @ concat (map f xs)"
  by simp

lemma parse_inputs_written:
  assumes "list_all (readable_input tn) ins" "bs = concat (map (input_bytes \<circ> plain_input) ins)"
    "length p + length bs + length r + 64 < 2 ^ 64"
  shows "parse_inputs tn (p @ bs @ r) (length ins) (length p) =
    Some (ins, list_ex (\<lambda>i. in_signature i = None) ins, length p + length bs)"
  using assms
proof (induction ins arbitrary: p bs)
  case Nil
  then show ?case by (simp add: parse_inputs.simps)
next
  case (Cons i ins)
  let ?b = "input_bytes (plain_input i)" and ?c = "concat (map (input_bytes \<circ> plain_input) ins)"
  have bs: "bs = ?b @ ?c" using Cons.prems(2) by (simp add: o_def)
  have 1: "parse_input tn (p @ ?b @ ?c @ r) (length p) = Some (i, in_signature i = None, length p + length ?b)"
    using Cons.prems bs by (intro parse_input_written) (simp_all del: length_concat)
  have 2: "parse_inputs tn ((p @ ?b) @ ?c @ r) (length ins) (length (p @ ?b)) =
      Some (ins, list_ex (\<lambda>i. in_signature i = None) ins, length (p @ ?b) + length ?c)"
    using Cons.prems bs by (intro Cons.IH) (simp_all del: length_concat)
  show ?case
    by (subst parse_inputs.simps) (use 1 2 bs in \<open>simp del: length_concat add: add.assoc\<close>)
qed

lemma parse_outputs_written:
  assumes "list_all (readable_output tn) outs" "bs = concat (map output_bytes outs)"
    "length p + length bs + length r + 64 < 2 ^ 64"
  shows "parse_outputs tn (p @ bs @ r) (length outs) (length p) = Some (outs, length p + length bs)"
  using assms
proof (induction outs arbitrary: p bs)
  case Nil
  then show ?case by (simp add: parse_outputs.simps)
next
  case (Cons i outs)
  let ?b = "output_bytes i" and ?c = "concat (map output_bytes outs)"
  have bs: "bs = ?b @ ?c" using Cons.prems(2) by simp
  have 1: "parse_output tn (p @ ?b @ ?c @ r) (length p) = Some (i, length p + length ?b)"
    using Cons.prems bs by (intro parse_output_written) (simp_all del: length_concat)
  have 2: "parse_outputs tn ((p @ ?b) @ ?c @ r) (length outs) (length (p @ ?b)) = Some (outs, length (p @ ?b) + length ?c)"
    using Cons.prems bs by (intro Cons.IH) (simp_all del: length_concat)
  show ?case
    by (subst parse_outputs.simps) (use 1 2 bs in \<open>simp del: length_concat add: add.assoc\<close>)
qed

definition tx_readable :: "bool \<Rightarrow> tx \<Rightarrow> bool" where
  "tx_readable tn t \<longleftrightarrow> tx_inputs t \<noteq> [] \<and> list_all (readable_input tn) (tx_inputs t) \<and>
     list_all (readable_output tn) (tx_outputs t) \<and> length (tx_bytes t) < 2 ^ 63"

lemma length_concat_ge:
  "(\<And>x. 1 \<le> length (f x)) \<Longrightarrow> length xs \<le> length (concat (map f xs))"
proof (induction xs)
  case (Cons x xs)
  have "1 \<le> length (f x)" by (rule Cons.prems)
  moreover have "length xs \<le> length (concat (map f xs))" by (rule Cons.IH [OF Cons.prems])
  ultimately show ?case by (simp del: length_concat)
qed simp

lemma tx_bytes_counts:
  "length (tx_inputs t) + length (tx_outputs t) \<le> length (tx_bytes t)"
proof -
  have "length (tx_inputs t) \<le> length (concat (map (input_bytes \<circ> plain_input) (tx_inputs t)))"
    by (rule length_concat_ge) (simp add: input_bytes_def)
  moreover have "length (tx_outputs t) \<le> length (concat (map output_bytes (tx_outputs t)))"
    by (rule length_concat_ge) (simp add: output_bytes_def)
  ultimately show ?thesis by (simp add: tx_bytes_def del: length_concat)
qed

lemma parse_written:
  assumes "tx_readable tn t"
  shows "BRTransactionParse tn (tx_bytes t) =
    Some (Some (t\<lparr>txHash := if BRTransactionIsSigned t then UInt256Get (BRSHA256_2 (tx_bytes t)) else 0,
      blockHeight := TX_UNCONFIRMED, tx_timestamp := 0\<rparr>))"
proof -
  let ?v = "UInt32SetLE (tx_version t)" and ?l = "UInt32SetLE (lockTime t)"
    and ?ni = "length (tx_inputs t)" and ?no = "length (tx_outputs t)"
    and ?bi = "concat (map (input_bytes \<circ> plain_input) (tx_inputs t))" and ?bo = "concat (map output_bytes (tx_outputs t))"
  let ?vi = "varint_bytes (of_nat ?ni)" and ?vo = "varint_bytes (of_nat ?no)"
  have b: "tx_bytes t = ?v @ ?vi @ ?bi @ ?vo @ ?bo @ ?l" by (simp add: tx_bytes_def)
  have len: "8 + length ?vi + length ?bi + length ?vo + length ?bo < 2 ^ 63"
    using assms b by (simp add: tx_readable_def del: length_concat)
  have n: "?ni + ?no < 2 ^ 63" using tx_bytes_counts [of t] assms by (simp add: tx_readable_def)
  have c: "unat (of_nat ?ni :: u64) = ?ni" "unat (of_nat ?no :: u64) = ?no"
    using n by (simp_all add: unat_of_nat take_bit_nat_eq_self_iff)
  have 1: "get_u32 (tx_bytes t) 0 = Some (tx_version t)"
    using get_at(1) [of 0 "[]"] len by (simp add: b del: length_concat)
  have 2: "varint_at (tx_bytes t) 4 = (?ni, length ?vi)"
    using varint_at_written [of 4 ?v "of_nat ?ni" "?bi @ ?vo @ ?bo @ ?l"] c by (simp add: b)
  have 3: "parse_inputs tn (tx_bytes t) ?ni (4 + length ?vi) =
      Some (tx_inputs t, list_ex (\<lambda>i. in_signature i = None) (tx_inputs t), 4 + length ?vi + length ?bi)"
    using parse_inputs_written [of tn "tx_inputs t" ?bi "?v @ ?vi" "?vo @ ?bo @ ?l"] assms len
    by (simp add: b tx_readable_def del: length_concat)
  have 4: "varint_at (tx_bytes t) (4 + length ?vi + length ?bi) = (?no, length ?vo)"
    using varint_at_written [of "4 + length ?vi + length ?bi" "?v @ ?vi @ ?bi" "of_nat ?no" "?bo @ ?l"] c
    by (simp add: b del: length_concat)
  have 5: "size_add (4 + length ?vi + length ?bi) (length ?vo) = 4 + length ?vi + length ?bi + length ?vo"
    using len by (simp add: size_add_small del: length_concat)
  let ?o = "4 + length ?vi + length ?bi + length ?vo"
  have 6: "parse_outputs tn (tx_bytes t) ?no ?o = Some (tx_outputs t, ?o + length ?bo)"
    using parse_outputs_written [of tn "tx_outputs t" ?bo "?v @ ?vi @ ?bi @ ?vo" ?l] assms len
    by (simp add: b tx_readable_def add.assoc del: length_concat)
  have 7: "get_u32 (tx_bytes t) (?o + length ?bo) = Some (lockTime t)"
    using get_at(1) [of "?o + length ?bo" "?v @ ?vi @ ?bi @ ?vo @ ?bo" "[]" "lockTime t"] len
    by (simp add: b del: length_concat)
  have 8: "size_add (?o + length ?bo) 4 = length (tx_bytes t)"
    using len by (simp add: b size_add_small del: length_concat)
  have 9: "\<not> (?ni = 0 \<or> length (tx_bytes t) > length (tx_bytes t))" using assms by (simp add: tx_readable_def)
  have 10: "list_ex (\<lambda>i. in_signature i = None) (tx_inputs t) = (\<not> BRTransactionIsSigned t)"
    by (simp add: BRTransactionIsSigned_def list_ex_iff list_all_iff)
  show ?thesis
    unfolding BRTransactionParse_def 1 option.case 2 Let_def prod.case 3 4 5 6 7 8 if_not_P [OF 9] 10
    by (simp add: BRTransactionNew_def)
qed

text \<open>
  C24: a transaction is read back from its serialization. The length the function returns without a buffer is the length of
  the bytes it writes into any buffer that has room; parsing them gives the transaction again, with inputs, outputs, amounts,
  addresses, scripts and signatures, unconfirmed, with the double SHA-256 of the bytes as its hash when all inputs are signed and no hash
  otherwise; and the size that the fee is computed from is exact once all inputs are signed.
\<close>

theorem tx_serialize_parse:
  assumes "tx_readable tn t"
  shows "\<exists>bs. BRTransactionSerialize t None = (length bs, None) \<and>
    (\<forall>room. BRTransactionSerialize t (Some (replicate (length bs) 0 @ room)) = (length bs, Some (bs @ room))) \<and>
    BRTransactionParse tn bs =
      Some (Some (t\<lparr>txHash := if BRTransactionIsSigned t then UInt256Get (BRSHA256_2 bs) else 0,
        blockHeight := TX_UNCONFIRMED, tx_timestamp := 0\<rparr>)) \<and>
    (if BRTransactionIsSigned t then BRTransactionSize t = length bs else True)"
proof (intro exI conjI)
  have "length (tx_inputs t) \<le> SIZE_MAX"
    using tx_bytes_counts [of t] assms by (simp add: tx_readable_def SIZE_MAX_def)
  note w = Serialize_writes [OF this]
  show "BRTransactionSerialize t None = (length (tx_bytes t), None)" by (rule w)
  show "\<forall>room. BRTransactionSerialize t (Some (replicate (length (tx_bytes t)) 0 @ room)) =
      (length (tx_bytes t), Some (tx_bytes t @ room))"
    by (simp add: w(2))
  show "BRTransactionParse tn (tx_bytes t) = Some (Some (t\<lparr>txHash := if BRTransactionIsSigned t
      then UInt256Get (BRSHA256_2 (tx_bytes t)) else 0, blockHeight := TX_UNCONFIRMED, tx_timestamp := 0\<rparr>))"
    by (rule parse_written [OF assms])
  show "if BRTransactionIsSigned t then BRTransactionSize t = length (tx_bytes t) else True"
    by (simp add: size_signed)
qed

text \<open>A transaction with a signed input, an unsigned one, and two outputs.\<close>

definition sample_tx :: tx where
  "sample_tx = \<lparr>txHash = 7, tx_version = 2,
     tx_inputs =
       [\<lparr>in_hash = 5, in_index = 1, in_address = sig_address_of False [0x51], in_amount = 0, in_script = None,
          in_signature = Some [0x51], in_sequence = 0xffffffff\<rparr>,
        \<lparr>in_hash = 6, in_index = 0, in_address = script_address_of False (p2pkh_script (replicate 20 1)), in_amount = 1000,
          in_script = Some (p2pkh_script (replicate 20 1)), in_signature = None, in_sequence = 3\<rparr>],
     tx_outputs =
       [\<lparr>out_address = script_address_of False [], out_amount = 900, out_script = Some []\<rparr>,
        \<lparr>out_address = script_address_of False [0x6a], out_amount = 0, out_script = Some [0x6a]\<rparr>],
     lockTime = 9, blockHeight = 100, tx_timestamp = 5\<rparr>"

lemma pays_p2pkh: "length h = 20 \<Longrightarrow> pays_address tn (p2pkh_script h)"
  by (simp add: pays_address_def address_of_template check_encode_form)

lemma pays_op1: "\<not> pays_address tn [0x51]"
proof -
  have "BRAddressFromScriptPubKey tn None [0x51] = Some (0, [])"
    by (subst FromScriptPubKey_cases [of "[[0x51]]"]) (simp_all add: MAX_SCRIPT_LENGTH_def)
  then show ?thesis by (simp add: pays_address_def)
qed

lemma varint_bytes_short: "length bs < 0xfd \<Longrightarrow> length (varint_bytes (of_nat (length bs))) = 1"
  by (simp add: BRVarIntSize_def BRVarIntSet_def word_less_nat_alt unat_of_nat take_bit_nat_eq_self_iff)

lemma sample_readable: "tx_readable False sample_tx"
  by (simp add: tx_readable_def sample_tx_def readable_input_def readable_output_def pays_op1
      pays_p2pkh [of "replicate 20 1", unfolded p2pkh_script_def append.simps] tx_bytes_def
      input_bytes_def plain_input_def output_bytes_def p2pkh_script_def arr_def alen_def BRVarIntSize_def BRVarIntSet_def)

lemma tx_serialize_parse_witness:
  "\<exists>bs. BRTransactionSerialize sample_tx (Some (replicate (length bs) 0)) = (length bs, Some bs) \<and>
     BRTransactionParse False bs = Some (Some (sample_tx\<lparr>txHash := 0, blockHeight := TX_UNCONFIRMED, tx_timestamp := 0\<rparr>))"
proof -
  have u: "\<not> BRTransactionIsSigned sample_tx" by (simp add: sample_tx_def BRTransactionIsSigned_def)
  from tx_serialize_parse [OF sample_readable] u obtain bs where
    "\<forall>room. BRTransactionSerialize sample_tx (Some (replicate (length bs) 0 @ room)) = (length bs, Some (bs @ room))"
    "BRTransactionParse False bs = Some (Some (sample_tx\<lparr>txHash := 0, blockHeight := TX_UNCONFIRMED, tx_timestamp := 0\<rparr>))"
    by (auto simp only: if_False)
  from this(1) [rule_format, of "[]"] this(2) show ?thesis by auto
qed

section \<open>What is signed\<close>

text \<open>The data for one input does not depend on the signatures that are already there, nor on the addresses.\<close>

definition bare :: "txin \<Rightarrow> txin" where
  "bare i = i\<lparr>in_signature := None, in_address := []\<rparr>"

definition same_but_signatures :: "tx \<Rightarrow> tx \<Rightarrow> bool" where
  "same_but_signatures a b \<longleftrightarrow> map bare (tx_inputs a) = map bare (tx_inputs b) \<and> tx_version a = tx_version b \<and>
     tx_outputs a = tx_outputs b \<and> lockTime a = lockTime b"

lemma bare_fields:
  assumes "bare i = bare j"
  shows "in_hash i = in_hash j" "in_index i = in_index j" "in_amount i = in_amount j" "in_script i = in_script j"
    "in_sequence i = in_sequence j"
proof -
  have b: "in_hash (bare k) = in_hash k" "in_index (bare k) = in_index k" "in_amount (bare k) = in_amount k"
    "in_script (bare k) = in_script k" "in_sequence (bare k) = in_sequence k" for k
    by (simp_all add: bare_def)
  show "in_hash i = in_hash j" "in_index i = in_index j" "in_amount i = in_amount j" "in_script i = in_script j"
    "in_sequence i = in_sequence j"
    using b [of i] b [of j] unfolding assms by simp_all
qed

lemma TxInputData_bare:
  assumes "bare i = bare j"
  shows "TxInputData (i\<lparr>in_signature := s\<rparr>) = TxInputData (j\<lparr>in_signature := s\<rparr>)"
    "TxInputData (i\<lparr>in_signature := s, in_amount := a\<rparr>) = TxInputData (j\<lparr>in_signature := s, in_amount := a\<rparr>)"
    "TxInputData (i\<lparr>in_signature := s, in_sequence := q, in_amount := a\<rparr>) =
     TxInputData (j\<lparr>in_signature := s, in_sequence := q, in_amount := a\<rparr>)"
  by (simp_all add: TxInputData_def bare_fields [OF assms])

lemma signing_input_bare:
  assumes "bare i = bare j" "index \<noteq> SIZE_MAX"
  shows "TxInputData (signing_input index s n i) = TxInputData (signing_input index s n j)"
  using assms(2) bare_fields(4) [OF assms(1)]
  by (simp add: signing_input_def Let_def TxInputData_bare [OF assms(1)])

lemma same_inputs:
  assumes "same_but_signatures a b"
  shows "length (tx_inputs a) = length (tx_inputs b)"
    "i < length (tx_inputs b) \<Longrightarrow> bare (tx_inputs a ! i) = bare (tx_inputs b ! i)"
proof -
  have m: "map bare (tx_inputs a) = map bare (tx_inputs b)" using assms unfolding same_but_signatures_def by (rule conjunct1)
  show l: "length (tx_inputs a) = length (tx_inputs b)" using arg_cong [OF m, of length] by simp
  show "i < length (tx_inputs b) \<Longrightarrow> bare (tx_inputs a ! i) = bare (tx_inputs b ! i)"
    using arg_cong [OF m, of "\<lambda>xs. xs ! i"] l by simp
qed

lemma map_bare_cong:
  assumes "same_but_signatures a b" "\<And>i j. bare i = bare j \<Longrightarrow> f i = f j"
  shows "map f (tx_inputs a) = map f (tx_inputs b)"
proof (rule nth_equalityI)
  fix i assume "i < length (map f (tx_inputs a))"
  then have "i < length (tx_inputs b)" by (simp add: same_inputs(1) [OF assms(1)])
  then show "map f (tx_inputs a) ! i = map f (tx_inputs b) ! i"
    using assms(2) [OF same_inputs(2) [OF assms(1)]] by (simp add: same_inputs(1) [OF assms(1)])
qed (simp add: same_inputs(1) [OF assms(1)])

lemma map_same_inputs:
  assumes "same_but_signatures a b" "\<And>n i j. bare i = bare j \<Longrightarrow> f n i = f n j"
  shows "map (\<lambda>(n, i). f n i) (enumerate 0 (tx_inputs a)) = map (\<lambda>(n, i). f n i) (enumerate 0 (tx_inputs b))"
proof (rule nth_equalityI)
  fix i assume "i < length (map (\<lambda>(n, i). f n i) (enumerate 0 (tx_inputs a)))"
  then have "i < length (tx_inputs b)" by (simp add: same_inputs(1) [OF assms(1)])
  then show "map (\<lambda>(n, i). f n i) (enumerate 0 (tx_inputs a)) ! i = map (\<lambda>(n, i). f n i) (enumerate 0 (tx_inputs b)) ! i"
    using assms(2) [OF same_inputs(2) [OF assms(1)]] by (simp add: same_inputs(1) [OF assms(1)] nth_enumerate_eq)
qed (simp add: same_inputs(1) [OF assms(1)])

lemma WitnessData_same:
  assumes "same_but_signatures a b" "index < length (tx_inputs b)"
  shows "TransactionWitnessData a index h data = TransactionWitnessData b index h data"
proof -
  have "map (\<lambda>i. UInt256Set (in_hash i) @ UInt32SetLE (in_index i)) (tx_inputs a) =
      map (\<lambda>i. UInt256Set (in_hash i) @ UInt32SetLE (in_index i)) (tx_inputs b)"
  proof (rule map_bare_cong [OF assms(1)])
    fix i j :: txin
    assume "bare i = bare j"
    note f = bare_fields [OF this]
    show "UInt256Set (in_hash i) @ UInt32SetLE (in_index i) = UInt256Set (in_hash j) @ UInt32SetLE (in_index j)"
      by (simp only: f)
  qed
  moreover have "map (\<lambda>i. UInt32SetLE (in_sequence i)) (tx_inputs a) = map (\<lambda>i. UInt32SetLE (in_sequence i)) (tx_inputs b)"
    by (rule map_bare_cong [OF assms(1)]) (rule arg_cong [OF bare_fields(5)])
  moreover note e = same_inputs(2) [OF assms]
  have "TxInputData ((tx_inputs a ! index)\<lparr>in_signature := in_script (tx_inputs a ! index)\<rparr>) =
      TxInputData ((tx_inputs b ! index)\<lparr>in_signature := in_script (tx_inputs b ! index)\<rparr>)"
    by (simp add: TxInputData_bare(1) [OF e] bare_fields(4) [OF e])
  moreover have "tx_version a = tx_version b" "lockTime a = lockTime b" "tx_outputs a = tx_outputs b"
    "TransactionOutputData a = TransactionOutputData b"
    using assms(1) by (auto simp: same_but_signatures_def TransactionOutputData_def output_range_def intro!: ext)
  ultimately show ?thesis
    unfolding TransactionWitnessData_def same_inputs(1) [OF assms(1)] Let_def by (simp only:)
qed

lemma TransactionData_same:
  assumes "same_but_signatures a b" "index < length (tx_inputs b)" "length (tx_inputs b) \<le> SIZE_MAX"
  shows "TransactionData a index h data = TransactionData b index h data"
proof -
  have m: "index \<noteq> SIZE_MAX" using assms(2,3) by simp
  have "map (\<lambda>(i, input). put_call (TxInputData (signing_input index (h AND 0x1f) i input))) (enumerate 0 (tx_inputs a)) =
      map (\<lambda>(i, input). put_call (TxInputData (signing_input index (h AND 0x1f) i input))) (enumerate 0 (tx_inputs b))"
    by (rule map_same_inputs [OF assms(1)]) (rule arg_cong [where f = put_call, OF signing_input_bare [OF _ m]])
  moreover note e = same_inputs(2) [OF assms(1,2)]
  have "TxInputData ((tx_inputs a ! index)\<lparr>in_signature := in_script (tx_inputs a ! index), in_amount := 0\<rparr>) =
      TxInputData ((tx_inputs b ! index)\<lparr>in_signature := in_script (tx_inputs b ! index), in_amount := 0\<rparr>)"
    by (simp add: TxInputData_bare(2) [OF e] bare_fields(4) [OF e])
  moreover have "tx_version a = tx_version b" "lockTime a = lockTime b" "tx_outputs a = tx_outputs b"
    "TransactionOutputData a = TransactionOutputData b"
    using assms(1) by (auto simp: same_but_signatures_def TransactionOutputData_def output_range_def intro!: ext)
  ultimately show ?thesis
    unfolding TransactionData_def same_inputs(1) [OF assms(1)] WitnessData_same [OF assms(1,2)] Let_def by (simp only:)
qed

text \<open>The input at index \<open>i\<close> of \<open>t\<close> after signing.\<close>

definition signer :: "bool \<Rightarrow> ('k \<Rightarrow> byte list) \<Rightarrow> 'k list \<Rightarrow> txin \<Rightarrow> 'k option" where
  "signer tn kaddr keys inp =
     (let address = script_address_of tn (arr (in_script inp))
      in if address = [] then None else List.find (\<lambda>k. BRAddressEq (kaddr k) address) keys)"

definition spends_pubkey_hash :: "byte list \<Rightarrow> bool" where
  "spends_pubkey_hash script =
     (let n = fst (BRScriptElements None script); (count, elems) = BRScriptElements (Some n) script
      in count \<ge> 2 \<and> script ! (elems ! (count - 2)) = OP_EQUALVERIFY)"

definition signed_input ::
  "bool \<Rightarrow> ('k \<Rightarrow> byte list) \<Rightarrow> ('k \<Rightarrow> byte list) \<Rightarrow> ('k \<Rightarrow> UInt256 \<Rightarrow> byte list) \<Rightarrow> u32 \<Rightarrow> 'k list \<Rightarrow> tx \<Rightarrow> nat \<Rightarrow> txin" where
  "signed_input tn kaddr kpub ksign forkId keys t i =
     (let inp = tx_inputs t ! i
      in case signer tn kaddr keys inp of
           None \<Rightarrow> inp
         | Some key \<Rightarrow> BRTxInputSetSignature tn inp (Some (signature_script kpub ksign forkId key
             (spends_pubkey_hash (arr (in_script inp))) (filled (TransactionData t i (forkId OR SIGHASH_ALL))))))"

lemma sign_input_is:
  "sign_input tn kaddr kpub ksign forkId keys i t =
     (case signer tn kaddr keys (tx_inputs t ! i) of
        None \<Rightarrow> t
      | Some key \<Rightarrow> t\<lparr>tx_inputs := (tx_inputs t)[i := signed_input tn kaddr kpub ksign forkId keys t i]\<rparr>)"
  by (simp add: sign_input_def signer_def signed_input_def spends_pubkey_hash_def Let_def split_def split: option.split)

lemma signed_input_cong:
  "tx_inputs u ! i = tx_inputs t ! i \<Longrightarrow> TransactionData u i = TransactionData t i \<Longrightarrow>
   signed_input tn kaddr kpub ksign forkId keys u i = signed_input tn kaddr kpub ksign forkId keys t i"
  by (simp add: signed_input_def Let_def split: option.split)

lemma bare_signed_input: "bare (signed_input tn kaddr kpub ksign forkId keys t i) = bare (tx_inputs t ! i)"
  by (simp add: signed_input_def Let_def bare_def BRTxInputSetSignature_def split: option.split)

lemma sign_inputs:
  assumes "length (tx_inputs t) \<le> SIZE_MAX" "k \<le> length (tx_inputs t)"
  shows "fold (sign_input tn kaddr kpub ksign forkId keys) [0..<k] t =
    t\<lparr>tx_inputs := map (signed_input tn kaddr kpub ksign forkId keys t) [0..<k] @ drop k (tx_inputs t)\<rparr>"
  using assms(2)
proof (induction k)
  case (Suc k)
  let ?s = "signed_input tn kaddr kpub ksign forkId keys t"
  let ?ins = "map ?s [0..<k] @ drop k (tx_inputs t)"
  let ?u = "t\<lparr>tx_inputs := ?ins\<rparr>"
  have k: "k < length (tx_inputs t)" "length ?ins = length (tx_inputs t)" using Suc.prems by simp_all
  have "map bare ?ins = map bare (tx_inputs t)"
    by (rule nth_equalityI) (use k in \<open>auto simp: nth_append bare_signed_input\<close>)
  then have same: "same_but_signatures ?u t" by (simp add: same_but_signatures_def)
  have at: "?ins ! k = tx_inputs t ! k" using k by (simp add: nth_append)
  have step: "signed_input tn kaddr kpub ksign forkId keys ?u k = ?s k"
    by (rule signed_input_cong) (use at in simp, intro ext TransactionData_same [OF same k(1) assms(1)])
  have upd: "?ins[k := x] = map ?s [0..<k] @ x # drop (Suc k) (tx_inputs t)" for x
    using k by (simp add: list_update_append Cons_nth_drop_Suc [symmetric])
  have keep: "?ins = map ?s [0..<k] @ tx_inputs t ! k # drop (Suc k) (tx_inputs t)"
    using k by (simp add: Cons_nth_drop_Suc)
  have "fold (sign_input tn kaddr kpub ksign forkId keys) [0..<Suc k] t = sign_input tn kaddr kpub ksign forkId keys k ?u"
    using Suc by simp
  also have "\<dots> = t\<lparr>tx_inputs := map ?s [0..<k] @ ?s k # drop (Suc k) (tx_inputs t)\<rparr>"
  proof (cases "signer tn kaddr keys (tx_inputs t ! k)")
    case None
    then have "?s k = tx_inputs t ! k" by (simp add: signed_input_def)
    moreover have "tx_inputs ?u ! k = tx_inputs t ! k" using at by simp
    ultimately show ?thesis unfolding sign_input_is using None keep by simp
  next
    case (Some key)
    moreover have "tx_inputs ?u ! k = tx_inputs t ! k" using at by simp
    moreover have "(tx_inputs ?u)[k := ?s k] = map ?s [0..<k] @ ?s k # drop (Suc k) (tx_inputs t)" using upd by simp
    ultimately show ?thesis unfolding sign_input_is step by simp
  qed
  finally show ?case by simp
qed simp

lemma output_writes:
  "sigHash = h AND 0x1f \<Longrightarrow> h AND SIGHASH_FORKID = 0 \<Longrightarrow> h AND SIGHASH_ANYONECANPAY = 0 \<Longrightarrow>
   sigHash \<noteq> SIGHASH_SINGLE \<Longrightarrow> sigHash \<noteq> SIGHASH_NONE \<Longrightarrow>
   TransactionData t SIZE_MAX h data = write_all
     ([put_bytes (UInt32SetLE (tx_version t))] @
      (put_varint (of_nat (length (tx_inputs t))) #
        map (\<lambda>(i, input). put_call (TxInputData (signing_input SIZE_MAX sigHash i input))) (enumerate 0 (tx_inputs t))) @
      [put_varint (of_nat (length (tx_outputs t))), put_call (TransactionOutputData t SIZE_MAX)] @
      [put_bytes (UInt32SetLE (lockTime t))]) data"
  by (simp add: TransactionData_def Let_def)

text \<open>The data that is hashed for the id is the serialization.\<close>

lemma whole_data_is_serialization:
  assumes "length (tx_inputs t) \<le> SIZE_MAX"
  shows "TransactionData t SIZE_MAX 0 data = BRTransactionSerialize t data"
proof -
  have "signing_input SIZE_MAX 0 i input = signing_input SIZE_MAX SIGHASH_ALL i input"
    if "(i, input) \<in> set (enumerate 0 (tx_inputs t))" for i input
    using that assms by (auto simp: in_set_enumerate_eq signing_whole)
  then have m: "map (\<lambda>(i, input). put_call (TxInputData (signing_input SIZE_MAX 0 i input))) (enumerate 0 (tx_inputs t)) =
      map (\<lambda>(i, input). put_call (TxInputData (signing_input SIZE_MAX SIGHASH_ALL i input))) (enumerate 0 (tx_inputs t))"
    by (auto intro!: map_cong)
  have z: "0 = (0 :: u32) AND 0x1f" "(0 :: u32) AND SIGHASH_FORKID = 0" "(0 :: u32) AND SIGHASH_ANYONECANPAY = 0"
    "0 \<noteq> SIGHASH_SINGLE" "0 \<noteq> SIGHASH_NONE"
    by (simp_all add: SIGHASH_SINGLE_def SIGHASH_NONE_def)
  show ?thesis
    unfolding BRTransactionSerialize_def output_writes [OF hashType_all(3) [symmetric] hashType_all(1,2,4,5)]
      output_writes [OF z] m ..
qed

lemma sign_transaction:
  assumes "length (tx_inputs t) \<le> SIZE_MAX"
  shows "\<exists>t' ok. BRTransactionSign tn kaddr kpub ksign forkId keys t = (t', ok) \<and>
    tx_inputs t' = map (signed_input tn kaddr kpub ksign forkId keys t) [0..<length (tx_inputs t)] \<and>
    t' = t\<lparr>tx_inputs := tx_inputs t',
           txHash := (if ok then UInt256Get (BRSHA256_2 (filled (BRTransactionSerialize t'))) else txHash t)\<rparr> \<and>
    ok = list_all (\<lambda>inp. in_signature inp \<noteq> None \<or> signer tn kaddr keys inp \<noteq> None) (tx_inputs t)"
proof -
  let ?s = "signed_input tn kaddr kpub ksign forkId keys t" and ?n = "length (tx_inputs t)"
  let ?u = "t\<lparr>tx_inputs := map ?s [0..<?n]\<rparr>"
  have f: "fold (sign_input tn kaddr kpub ksign forkId keys) [0..<?n] t = ?u"
    using sign_inputs [OF assms order_refl] by simp
  have "in_signature (?s i) \<noteq> None \<longleftrightarrow>
      in_signature (tx_inputs t ! i) \<noteq> None \<or> signer tn kaddr keys (tx_inputs t ! i) \<noteq> None" for i
    by (simp add: signed_input_def Let_def BRTxInputSetSignature_def split: option.split)
  then have ok: "BRTransactionIsSigned ?u =
      list_all (\<lambda>inp. in_signature inp \<noteq> None \<or> signer tn kaddr keys inp \<noteq> None) (tx_inputs t)"
    by (auto simp: BRTransactionIsSigned_def list_all_length)
  have w: "filled (TransactionData ?u SIZE_MAX 0) = filled (BRTransactionSerialize (?u\<lparr>txHash := h\<rparr>))" for h
  proof -
    have "BRTransactionSerialize (?u\<lparr>txHash := h\<rparr>) = BRTransactionSerialize ?u"
      by (intro ext) (simp add: BRTransactionSerialize_def TransactionData_def TransactionWitnessData_def
          TransactionOutputData_def output_range_def cong: if_cong)
    then show ?thesis
      using whole_data_is_serialization [of ?u] assms by (simp add: filled_def)
  qed
  show ?thesis
    unfolding BRTransactionSign_def Let_def f ok [symmetric] using w by (cases "BRTransactionIsSigned ?u") (simp_all add: ex_bool_eq)
qed

text \<open>
  C23: signing. Every input for whose script a key is found gets the script with the signature of its own data, and
  the public key when it spends a public key hash; this data is that of the transaction before signing, so the result does not
  depend on the order of the inputs nor on signatures that are already there (an input that has one is
  signed again when a key is found); other inputs and all other fields are kept; the function
  returns true exactly when every input had a signature or has a key now, and the id is then the double SHA-256 of the
  serialization.
\<close>

theorem tx_sign_spec:
  assumes "length (tx_inputs t) \<le> SIZE_MAX"
  shows "\<exists>t' ok. BRTransactionSign tn kaddr kpub ksign forkId keys t = (t', ok) \<and>
    tx_inputs t' = map (signed_input tn kaddr kpub ksign forkId keys t) [0..<length (tx_inputs t)] \<and>
    t' = t\<lparr>tx_inputs := tx_inputs t',
           txHash := (if ok then UInt256Get (BRSHA256_2 (filled (BRTransactionSerialize t'))) else txHash t)\<rparr> \<and>
    ok = list_all (\<lambda>inp. in_signature inp \<noteq> None \<or> signer tn kaddr keys inp \<noteq> None) (tx_inputs t)"
  by (rule sign_transaction [OF assms])

text \<open>The encoding of 25 bytes fits the address arrays.\<close>

lemma base58_string_shorter: "length (base58_string c) \<le> 2 * length c"
proof -
  have v: "be_val 58 (digits (to58 (strip0 c))) = be_val 256 (digits (strip0 c))" using to58_value(1) by simp
  have "length (to58 (strip0 c)) \<le> 2 * length (strip0 c)"
  proof (cases "to58 (strip0 c) = []")
    case False
    then have "58 ^ (length (to58 (strip0 c)) - 1) \<le> be_val 58 (digits (to58 (strip0 c)))"
      using be_val_lower [of "digits (to58 (strip0 c))" 58] to58_value(3) [of "strip0 c"]
      by (simp add: hd_map unat_eq_0)
    also have "\<dots> < 256 ^ length (strip0 c)"
      unfolding v using be_val_bound [of "digits (strip0 c)" 256] by (auto simp: digits_less)
    also have "(256 :: nat) ^ length (strip0 c) \<le> (58 ^ 2) ^ length (strip0 c)" by (rule power_mono) simp_all
    finally have "(58 :: nat) ^ (length (to58 (strip0 c)) - 1) < 58 ^ (2 * length (strip0 c))"
      by (simp only: power_mult)
    then have "length (to58 (strip0 c)) - 1 < 2 * length (strip0 c)" by (rule power_less_imp_less_exp [rotated]) simp
    then show ?thesis by simp
  qed simp
  moreover have "lead0 c + length (strip0 c) = length c" using length_strip0 [of c] lead0_le [of c] by simp
  ultimately show ?thesis by (simp add: base58_string_def)
qed

lemma template_address_nonempty:
  assumes "length h = 20"
  shows "script_address_of tn (p2pkh_script h) \<noteq> []"
proof -
  let ?d = "(pubkey_address tn # h)"
  have "length (check_string ?d) \<le> 50"
    using base58_string_shorter [of "?d @ take 4 (BRSHA256_2 ?d)"] assms by (simp add: check_string_def)
  moreover have "25 \<le> length (check_string ?d)"
    using base58_string_longer [of "?d @ take 4 (BRSHA256_2 ?d)"] assms by (simp add: check_string_def)
  then have "check_string ?d \<noteq> []" by auto
  moreover have "0 \<notin> set (check_string ?d)" by (simp add: check_string_def base58_string_chars(2))
  ultimately show ?thesis
    by (cases "check_string ?d") (auto simp: script_address_of_def string_of_def address_of_template [OF assms] check_encode_form)
qed

lemma tx_sign_spec_witness:
  "let t = sample_tx\<lparr>tx_inputs := [tx_inputs sample_tx ! 1]\<rparr>
   in \<exists>t'. BRTransactionSign False (\<lambda>k. script_address_of False (p2pkh_script (replicate 20 1))) (\<lambda>k. [2])
        (\<lambda>k md. UInt256Set md) 0x40 [()] t = (t', True) \<and> in_signature (tx_inputs t' ! 0) \<noteq> None"
proof -
  define t where "t = sample_tx\<lparr>tx_inputs := [tx_inputs sample_tx ! 1]\<rparr>"
  define a where "a = script_address_of False (p2pkh_script (replicate 20 1))"
  have "a \<noteq> []" unfolding a_def by (rule template_address_nonempty) simp
  moreover obtain inp where i: "tx_inputs t = [inp]" "in_script inp = Some (p2pkh_script (replicate 20 1))"
    by (simp add: t_def sample_tx_def)
  ultimately have s: "signer False (\<lambda>k. a) [()] inp = Some ()"
    by (simp add: signer_def arr_def BRAddressEq_def a_def)
  have len: "length (tx_inputs t) \<le> SIZE_MAX" by (simp add: i SIZE_MAX_def)
  obtain t' ok where r: "BRTransactionSign False (\<lambda>k. a) (\<lambda>k. [2]) (\<lambda>k md. UInt256Set md) 0x40 [()] t = (t', ok)"
    "tx_inputs t' = map (signed_input False (\<lambda>k. a) (\<lambda>k. [2]) (\<lambda>k md. UInt256Set md) 0x40 [()] t) [0..<length (tx_inputs t)]"
    "ok = list_all (\<lambda>inp. in_signature inp \<noteq> None \<or> signer False (\<lambda>k. a) [()] inp \<noteq> None) (tx_inputs t)"
    using tx_sign_spec [OF len, of False "\<lambda>k. a" "\<lambda>k. [2]" "\<lambda>k md. UInt256Set md" "0x40" "[()]"] by blast
  have "ok" using r(3) s by (simp add: i)
  moreover have "in_signature (tx_inputs t' ! 0) \<noteq> None"
    using r(2) s by (simp add: i signed_input_def BRTxInputSetSignature_def)
  ultimately show ?thesis using r(1) unfolding Let_def t_def [symmetric] a_def by (intro exI [of _ t']) simp
qed

section \<open>Behaviour at the edges\<close>

lemma short_input:
  "length d = 9 \<Longrightarrow> length sg = 10 \<Longrightarrow> TxInputData (new_input\<lparr>in_signature := Some sg\<rparr>) (Some d) = (0, Some d)"
  by (simp add: TxInputData_def write_all_def put_bytes_def put_varint_def new_input_def alen_def arr_def BRVarIntSet_def)

lemma serialize_short:
  assumes "length d = 14" "length sg = 10"
  shows "fst (BRTransactionSerialize (BRTransactionNew\<lparr>tx_inputs := [new_input\<lparr>in_signature := Some sg\<rparr>]\<rparr>) (Some d)) = 10"
proof -
  let ?i = "new_input\<lparr>in_signature := Some sg\<rparr>"
  have p: "signing_input SIZE_MAX SIGHASH_ALL 0 ?i = ?i"
    by (rule trans [OF signing_whole]) (simp_all add: SIZE_MAX_def plain_input_def new_input_def)
  have w: "BRTransactionSerialize (BRTransactionNew\<lparr>tx_inputs := [?i]\<rparr>) (Some d) = write_all
      ([put_bytes (UInt32SetLE TX_VERSION)] @ [put_varint 1, put_call (TxInputData ?i)] @
       [put_varint 0, put_call (write_all [])] @ [put_bytes (UInt32SetLE TX_LOCKTIME)] @ []) (Some d)"
    unfolding BRTransactionSerialize_def TransactionData_def Let_def hashType_all TransactionOutputData_def output_range_def
    using p by (simp add: BRTransactionNew_def hashType_all)
  show ?thesis
    unfolding w using assms
    by (simp add: write_all_def put_bytes_def put_varint_def put_call_def overwrite_def BRVarIntSet_def BRVarIntSize_def
        varint_bytes_def short_input)
qed

lemma get_field_total: "off + n \<le> length buf \<Longrightarrow> \<exists>v. get_field n g d buf off = Some v"
  by (cases "off + n < 2 ^ 64") (simp_all add: get_field_def size_add_small)

lemma edge_cases:
  assumes "length rest < 2 ^ 63"
  shows "BRTransactionParse tn (UInt32SetLE ver @ [1] @ UInt256Set h @ UInt32SetLE idx @ [0xff] @ UInt64SetLE 0xFFFFFFFFFFFFFFCE @ rest) = None"
  "BRTransactionSize (BRTransactionNew\<lparr>tx_inputs := [new_input\<lparr>in_signature := Some (replicate 10 7)\<rparr>]\<rparr>) = 61"
  "fst (BRTransactionSerialize (BRTransactionNew\<lparr>tx_inputs := [new_input\<lparr>in_signature := Some (replicate 10 7)\<rparr>]\<rparr>)
     (Some (replicate 14 0))) = 10"
proof -
  define buf where "buf = UInt32SetLE ver @ [1] @ UInt256Set h @ UInt32SetLE idx @ [0xff] @ UInt64SetLE 0xFFFFFFFFFFFFFFCE @ rest"
  have l: "length buf = 50 + length rest" by (simp add: buf_def)
  have "drop 4 buf = [1] @ UInt256Set h @ UInt32SetLE idx @ [0xff] @ UInt64SetLE 0xFFFFFFFFFFFFFFCE @ rest" by (simp add: buf_def)
  then have 1: "varint_at buf 4 = (1, 1)" by (simp add: varint_at_def BRVarInt_def)
  have "drop 41 buf = [0xff] @ UInt64SetLE 0xFFFFFFFFFFFFFFCE @ rest" by (simp add: buf_def)
  then have 2: "varint_at buf 41 = (18446744073709551566, 9)"
    unfolding varint_at_def by (simp add: BRVarInt_def uint_get_set)
  have 3: "script_at buf 50 (18446744073709551566) = None" using assms by (simp add: script_at_def size_add_def l)
  have "5 + 32 \<le> length buf" by (simp add: l)
  from get_field_total [OF this, of UInt256Get 0] obtain hv where h: "get_field 32 UInt256Get 0 buf 5 = Some hv" by blast
  have "37 + 4 \<le> length buf" by (simp add: l)
  from get_field_total [OF this, of UInt32GetLE 0] obtain ix where i: "get_u32 buf 37 = Some ix" unfolding get_u32_def by blast
  have "0 + 4 \<le> length buf" by (simp add: l)
  from get_field_total [OF this, of UInt32GetLE 0] obtain v where v: "get_u32 buf 0 = Some v" unfolding get_u32_def by blast
  have o: "5 + 32 = (37 :: nat)" "5 + 36 = (41 :: nat)" "41 + 9 = (50 :: nat)" "4 + 1 = (5 :: nat)" by simp_all
  have p: "parse_input tn buf 5 = None"
    unfolding parse_input_def o h i option.case prod.case 2 Let_def 3 ..
  have "5 \<le> length buf \<and> (1 :: nat) \<noteq> 0" by (simp add: l)
  then have "parse_inputs tn buf 1 5 = None" by (subst parse_inputs.simps) (simp only: p simp_thms if_True option.case)
  then have "BRTransactionParse tn buf = None" unfolding BRTransactionParse_def v option.case 1 Let_def prod.case o by simp
  then show "BRTransactionParse tn (UInt32SetLE ver @ [1] @ UInt256Set h @ UInt32SetLE idx @ [0xff] @
      UInt64SetLE 0xFFFFFFFFFFFFFFCE @ rest) = None" unfolding buf_def .
  show "BRTransactionSize (BRTransactionNew\<lparr>tx_inputs := [new_input\<lparr>in_signature := Some (replicate 10 7)\<rparr>]\<rparr>) = 61"
    by (simp add: BRTransactionSize_def BRTransactionNew_def input_size_def BRVarIntSize_def BRVarIntSet_def)
  show "fst (BRTransactionSerialize (BRTransactionNew\<lparr>tx_inputs := [new_input\<lparr>in_signature := Some (replicate 10 7)\<rparr>]\<rparr>)
     (Some (replicate 14 0))) = 10"
    by (rule serialize_short) simp_all
qed

text \<open>
  C35: two defects. A script length that makes \<open>off + sLen\<close> wrap passes the length test of the parser, which
  then reads outside of the buffer, whatever follows; and the serializer does not return 0 for every buffer that is too small: a
  field that did not fit does not advance the offset when a nested call wrote it, and so the final test succeeds.
\<close>

theorem tx_faults:
  assumes "length rest < 2 ^ 63"
  shows "BRTransactionParse tn
      (UInt32SetLE ver @ [1] @ UInt256Set h @ UInt32SetLE idx @ [0xff] @ UInt64SetLE 0xFFFFFFFFFFFFFFCE @ rest) = None \<and>
    (let t = BRTransactionNew\<lparr>tx_inputs := [new_input\<lparr>in_signature := Some (replicate 10 7)\<rparr>]\<rparr>
     in BRTransactionSize t = 61 \<and> fst (BRTransactionSerialize t (Some (replicate 14 0))) = 10)"
  unfolding Let_def by (intro conjI edge_cases [OF assms])

lemma tx_faults_witness:
  "BRTransactionParse True (UInt32SetLE 1 @ [1] @ UInt256Set 5 @ UInt32SetLE 0 @ [0xff] @ UInt64SetLE 0xFFFFFFFFFFFFFFCE @ []) = None"
  by (rule tx_faults [THEN conjunct1]) simp

end
