(* ===== verification/Loops.thy ===== *)
theory Loops
  imports Prelude "HOL-Library.Monad_Syntax"
begin

text \<open>
  Loops whose body may fail, and recursive calls in the body of a loop: \<open>any_option\<close> is a loop that ends at the first
  element for which the body gives true, \<open>fold_option\<close> passes a state on. \<open>None\<close> is a fault, or recursion that does not
  end; the monotonicity rules let \<open>partial_function\<close> recurse under both.
\<close>

fun any_option :: "('a \<Rightarrow> bool option) \<Rightarrow> 'a list \<Rightarrow> bool option" where
  "any_option p [] = Some False"
| "any_option p (x # xs) = Option.bind (p x) (\<lambda>r. if r then Some True else any_option p xs)"

fun fold_option :: "('a \<Rightarrow> 's \<Rightarrow> 's option) \<Rightarrow> 'a list \<Rightarrow> 's \<Rightarrow> 's option" where
  "fold_option f [] s = Some s"
| "fold_option f (x # xs) s = Option.bind (f x s) (fold_option f xs)"

lemma any_option_mono [partial_function_mono]:
  assumes "\<And>x. mono_option (\<lambda>f. B f x)"
  shows "mono_option (\<lambda>f. any_option (\<lambda>x. B f x) xs)"
proof (induction xs)
  case Nil
  show ?case by (simp add: option.const_mono)
next
  case (Cons x xs)
  have "mono_option (\<lambda>f. Option.bind (B f x) (\<lambda>r. if r then Some True else any_option (\<lambda>x. B f x) xs))"
    by (intro bind_mono assms if_mono option.const_mono Cons.IH)
  then show ?case by simp
qed

lemma fold_option_mono [partial_function_mono]:
  assumes "\<And>x s. mono_option (\<lambda>f. B f x s)"
  shows "mono_option (\<lambda>f. fold_option (\<lambda>x s. B f x s) xs s)"
proof (induction xs arbitrary: s)
  case Nil
  show ?case by (simp add: option.const_mono)
next
  case (Cons x xs)
  have "mono_option (\<lambda>f. Option.bind (B f x s) (\<lambda>s. fold_option (\<lambda>x s. B f x s) xs s))"
    by (intro bind_mono assms Cons.IH)
  then show ?case by simp
qed

lemma any_option_list_ex: "(\<And>x. x \<in> set xs \<Longrightarrow> p x = Some (q x)) \<Longrightarrow> any_option p xs = Some (list_ex q xs)"
  by (induction xs) auto

lemma any_option_total: "(\<And>x. x \<in> set xs \<Longrightarrow> p x \<noteq> None) \<Longrightarrow> any_option p xs \<noteq> None"
  by (induction xs) (fastforce simp: bind_eq_None_conv)+

text \<open>An invariant of the body is an invariant of the loop, and the loop does not fail when the body does not.\<close>

lemma fold_option_inv:
  assumes "I s" "\<And>x s. x \<in> set xs \<Longrightarrow> I s \<Longrightarrow> \<exists>s'. f x s = Some s' \<and> I s'"
  shows "\<exists>s'. fold_option f xs s = Some s' \<and> I s'"
  using assms
proof (induction xs arbitrary: s)
  case (Cons x xs)
  then obtain s' where "f x s = Some s'" "I s'" by (meson list.set_intros(1))
  with Cons show ?case by simp
qed simp

lemma fold_option_append: "fold_option f (xs @ ys) s = Option.bind (fold_option f xs s) (fold_option f ys)"
  by (induction xs arbitrary: s) (auto split: Option.bind_splits)


text \<open>The same with an invariant that knows the elements that were passed.\<close>

lemma fold_option_prefix:
  assumes "I [] s" "\<And>ys x zs s. xs = ys @ x # zs \<Longrightarrow> I ys s \<Longrightarrow> \<exists>s'. f x s = Some s' \<and> I (ys @ [x]) s'"
  shows "\<exists>s'. fold_option f xs s = Some s' \<and> I xs s'"
  using assms
proof (induction xs arbitrary: s rule: rev_induct)
  case (snoc x xs)
  have "\<exists>s'. fold_option f xs s = Some s' \<and> I xs s'"
    by (rule snoc.IH [OF snoc.prems(1)]) (use snoc.prems(2) in auto)
  then obtain s1 where "fold_option f xs s = Some s1" "I xs s1" by blast
  moreover obtain s2 where "f x s1 = Some s2" "I (xs @ [x]) s2" using snoc.prems(2) [of xs x "[]"] calculation by auto
  ultimately show ?case by (simp add: fold_option_append)
qed simp

end
