(* ===== verification/Wallet.thy ===== *)
theory Wallet
  imports Tx Loops
begin

text \<open>
  BRWallet.c: the wallet, the order of its transactions, its balance and unspent outputs, the address chains, building and
  registering transactions. A transaction object is named by its \<open>txHash\<close>: \<open>allTx\<close> is the store of the
  registered objects, the array \<open>transactions\<close> and the sets \<open>invalidTx\<close> and \<open>pendingTx\<close> hold names. The hash sets
  are sets (that \<open>BRSet\<close> behaves as one is shown in HashSet), those of addresses hold the strings that
  \<open>BRAddressEq\<close> tells apart. Functions return \<open>None\<close> when a name has no object (a dangling pointer), when an assertion fails, or
  when the recursion does not end. The lock is not modelled: a function is one step. The callbacks that a function
  makes are returned as a list of events.
\<close>

type_synonym utxo = "UInt256 \<times> u32"

definition BRUTXOHash :: "utxo \<Rightarrow> nat" where
  "BRUTXOHash u = unat ((u32_view (fst u) 0 XOR snd u) * 0x01000193)"

definition BRUTXOEq :: "utxo \<Rightarrow> utxo \<Rightarrow> bool" where
  "BRUTXOEq a b \<longleftrightarrow> UInt256Eq (fst a) (fst b) \<and> snd a = snd b"

interpretation utxo_set: item_equality BRUTXOHash BRUTXOEq
  by unfold_locales (auto simp: BRUTXOHash_def BRUTXOEq_def)

definition addr_key :: "byte list \<Rightarrow> byte list" where
  "addr_key a = take 75 (a @ [0])"

record wallet =
  balance :: u64
  totalSent :: u64
  totalReceived :: u64
  feePerKb :: u64
  balanceHist :: "u64 list"
  chainHeight :: u32
  utxos :: "utxo list"
  transactions :: "UInt256 list"
  internalChain :: "byte list list"
  externalChain :: "byte list list"
  allTx :: "UInt256 \<Rightarrow> tx option"
  invalidTx :: "UInt256 set"
  pendingTx :: "UInt256 set"
  spentOutputs :: "utxo set"
  usedAddrs :: "byte list set"
  allAddrs :: "byte list set"

datatype event =
  BalanceChanged u64 | TxAdded UInt256 | TxUpdated "UInt256 list" u32 u32 | TxDeleted UInt256 bool bool

definition DEFAULT_FEE_PER_KB :: u64 where "DEFAULT_FEE_PER_KB = 1000 * 10"
definition MIN_FEE_PER_KB :: u64 where "MIN_FEE_PER_KB = 1000"
definition TX_OUTPUT_SIZE :: nat where "TX_OUTPUT_SIZE = 34"
definition TX_MIN_OUTPUT_AMOUNT :: u64 where "TX_MIN_OUTPUT_AMOUNT = 1000 * 3 * (34 + 148) div 1000"
definition TX_MAX_SIZE :: nat where "TX_MAX_SIZE = 100000"
definition TX_MAX_LOCK_HEIGHT :: u32 where "TX_MAX_LOCK_HEIGHT = 500000000"
definition TXIN_SEQUENCE :: u32 where "TXIN_SEQUENCE = 0xffffffff"
definition SEQUENCE_GAP_LIMIT_EXTERNAL :: nat where "SEQUENCE_GAP_LIMIT_EXTERNAL = 10"
definition SEQUENCE_GAP_LIMIT_INTERNAL :: nat where "SEQUENCE_GAP_LIMIT_INTERNAL = 5"

definition txFee :: "u64 \<Rightarrow> nat \<Rightarrow> u64" where
  "txFee fee_per_kb sz =
     (let standardFee = of_nat sz * 1000 div 1000; fee = ((of_nat sz * fee_per_kb div 1000) + 99) div 100 * 100
      in if fee > standardFee then fee else standardFee)"

section \<open>Order of transactions\<close>

text \<open>\<open>_txChainIndex\<close> with \<open>i\<close> chain positions left to look at.\<close>

fun chain_index :: "tx \<Rightarrow> byte list list \<Rightarrow> nat \<Rightarrow> nat" where
  "chain_index t chain 0 = SIZE_MAX"
| "chain_index t chain (Suc i) =
     (if list_ex (\<lambda>out. BRAddressEq (out_address out) (chain ! i)) (tx_outputs t) then i else chain_index t chain i)"

definition txChainIndex :: "tx \<Rightarrow> byte list list \<Rightarrow> nat" where
  "txChainIndex t chain = chain_index t chain (length chain)"

partial_function (option) TxIsAscending :: "(UInt256 \<Rightarrow> tx option) \<Rightarrow> tx option \<Rightarrow> tx option \<Rightarrow> bool option" where
  "TxIsAscending txs tx1 tx2 =
     (case tx1 of None \<Rightarrow> Some False | Some a \<Rightarrow>
      case tx2 of None \<Rightarrow> Some False | Some b \<Rightarrow>
        if blockHeight a > blockHeight b then Some True
        else if blockHeight a < blockHeight b then Some False
        else if list_ex (\<lambda>i. UInt256Eq (in_hash i) (txHash b)) (tx_inputs a) then Some True
        else if list_ex (\<lambda>i. UInt256Eq (in_hash i) (txHash a)) (tx_inputs b) then Some False
        else any_option (\<lambda>i. TxIsAscending txs (txs (in_hash i)) (Some b)) (tx_inputs a))"

definition TxCompare :: "wallet \<Rightarrow> tx \<Rightarrow> tx \<Rightarrow> int option" where
  "TxCompare w tx1 tx2 = do {
     asc \<leftarrow> TxIsAscending (allTx w) (Some tx1) (Some tx2);
     if asc then Some 1
     else do {
       desc \<leftarrow> TxIsAscending (allTx w) (Some tx2) (Some tx1);
       if desc then Some (- 1)
       else
         let i = txChainIndex tx1 (internalChain w);
             j = txChainIndex tx2 (if i = SIZE_MAX then externalChain w else internalChain w);
             i = (if i = SIZE_MAX \<and> j \<noteq> SIZE_MAX then txChainIndex tx1 (externalChain w) else i)
         in Some (if i \<noteq> SIZE_MAX \<and> j \<noteq> SIZE_MAX \<and> i \<noteq> j then (if i > j then 1 else - 1) else 0)
     }
   }"

text \<open>\<open>_BRWalletInsertTx\<close>, on the array from its end.\<close>

fun insert_from_end :: "wallet \<Rightarrow> tx \<Rightarrow> UInt256 list \<Rightarrow> UInt256 list option" where
  "insert_from_end w t [] = Some [txHash t]"
| "insert_from_end w t (p # ps) = do {
     prev \<leftarrow> allTx w p;
     c \<leftarrow> TxCompare w prev t;
     if c > 0 then map_option (\<lambda>r. p # r) (insert_from_end w t ps) else Some (txHash t # p # ps)
   }"

definition InsertTx :: "wallet \<Rightarrow> tx \<Rightarrow> wallet option" where
  "InsertTx w t = map_option (\<lambda>r. w\<lparr>transactions := rev r\<rparr>) (insert_from_end w t (rev (transactions w)))"

section \<open>Amounts and membership\<close>

definition wallet_addr :: "wallet \<Rightarrow> byte list \<Rightarrow> bool" where
  "wallet_addr w a \<longleftrightarrow> addr_key a \<in> allAddrs w"

text \<open>The wallet output that an input spends.\<close>

definition own_output :: "wallet \<Rightarrow> txin \<Rightarrow> txout option" where
  "own_output w i =
     (case allTx w (in_hash i) of
        None \<Rightarrow> None
      | Some t \<Rightarrow>
          if unat (in_index i) < length (tx_outputs t) \<and> wallet_addr w (out_address (tx_outputs t ! unat (in_index i)))
          then Some (tx_outputs t ! unat (in_index i)) else None)"

definition ContainsTx :: "wallet \<Rightarrow> tx \<Rightarrow> bool" where
  "ContainsTx w t \<longleftrightarrow> list_ex (\<lambda>out. wallet_addr w (out_address out)) (tx_outputs t) \<or>
     list_ex (\<lambda>i. own_output w i \<noteq> None) (tx_inputs t)"

definition BRWalletAmountReceivedFromTx :: "wallet \<Rightarrow> tx \<Rightarrow> u64" where
  "BRWalletAmountReceivedFromTx w t =
     foldl (\<lambda>amount out. if wallet_addr w (out_address out) then amount + out_amount out else amount) 0 (tx_outputs t)"

definition BRWalletAmountSentByTx :: "wallet \<Rightarrow> tx \<Rightarrow> u64" where
  "BRWalletAmountSentByTx w t =
     foldl (\<lambda>amount i. case own_output w i of Some out \<Rightarrow> amount + out_amount out | None \<Rightarrow> amount) 0 (tx_inputs t)"

fun fee_inputs :: "wallet \<Rightarrow> txin list \<Rightarrow> u64 \<Rightarrow> u64" where
  "fee_inputs w [] amount = amount"
| "fee_inputs w (i # is) amount =
     (if amount = - 1 then amount
      else case allTx w (in_hash i) of
          None \<Rightarrow> fee_inputs w is (- 1)
        | Some t \<Rightarrow> fee_inputs w is (if unat (in_index i) < length (tx_outputs t)
            then amount + out_amount (tx_outputs t ! unat (in_index i)) else - 1))"

fun fee_outputs :: "txout list \<Rightarrow> u64 \<Rightarrow> u64" where
  "fee_outputs [] amount = amount"
| "fee_outputs (out # outs) amount = (if amount = - 1 then amount else fee_outputs outs (amount - out_amount out))"

definition BRWalletFeeForTx :: "wallet \<Rightarrow> tx \<Rightarrow> u64" where
  "BRWalletFeeForTx w t = fee_outputs (tx_outputs t) (fee_inputs w (tx_inputs t) 0)"

section \<open>Balance\<close>

text \<open>The local variables and the fields that \<open>_BRWalletUpdateBalance\<close> builds up.\<close>

record scan =
  s_balance :: u64
  s_prev :: u64
  s_sent :: u64
  s_received :: u64
  s_hist :: "u64 list"
  s_utxos :: "utxo list"
  s_spent :: "utxo set"
  s_invalid :: "UInt256 set"
  s_pending :: "UInt256 set"
  s_used :: "byte list set"

definition input_key :: "txin \<Rightarrow> utxo" where
  "input_key i = (in_hash i, in_index i)"

definition invalid_inputs :: "scan \<Rightarrow> tx \<Rightarrow> bool" where
  "invalid_inputs sc t = list_ex (\<lambda>i. input_key i \<in> s_spent sc \<or> in_hash i \<in> s_invalid sc) (tx_inputs t)"

text \<open>The reasons not to spend an unconfirmed transaction yet; \<open>now\<close> is \<open>time(NULL)\<close>.\<close>

definition postdated :: "u32 \<Rightarrow> int \<Rightarrow> tx \<Rightarrow> txin \<Rightarrow> bool" where
  "postdated height now t i \<longleftrightarrow> in_sequence i < 0xffffffff - 1 \<or>
     (in_sequence i < 0xffffffff \<and> lockTime t < TX_MAX_LOCK_HEIGHT \<and> lockTime t > height + 1) \<or>
     (in_sequence i < 0xffffffff \<and> int (unat (lockTime t)) > now)"

definition is_pending :: "u32 \<Rightarrow> int \<Rightarrow> scan \<Rightarrow> tx \<Rightarrow> bool" where
  "is_pending height now sc t \<longleftrightarrow> BRTransactionSize t > TX_MAX_SIZE \<or>
     list_ex (\<lambda>out. out_amount out < TX_MIN_OUTPUT_AMOUNT) (tx_outputs t) \<or>
     list_ex (\<lambda>i. postdated height now t i \<or> in_hash i \<in> s_pending sc) (tx_inputs t)"

definition add_output :: "wallet \<Rightarrow> UInt256 \<Rightarrow> nat \<times> txout \<Rightarrow> scan \<Rightarrow> scan" where
  "add_output w h = (\<lambda>(j, out) sc.
     if out_address out = [] then sc
     else
       let sc = sc\<lparr>s_used := insert (addr_key (out_address out)) (s_used sc)\<rparr>
       in if wallet_addr w (out_address out)
          then sc\<lparr>s_utxos := s_utxos sc @ [(h, of_nat j)], s_balance := s_balance sc + out_amount out\<rparr> else sc)"

text \<open>The loop that removes the spent outputs, from the end of the array.\<close>

definition utxo_output :: "wallet \<Rightarrow> utxo \<Rightarrow> txout option" where
  "utxo_output w u =
     (case allTx w (fst u) of
        None \<Rightarrow> None
      | Some t \<Rightarrow> if unat (snd u) < length (tx_outputs t) then Some (tx_outputs t ! unat (snd u)) else None)"

fun remove_spent :: "wallet \<Rightarrow> utxo set \<Rightarrow> utxo list \<Rightarrow> u64 \<Rightarrow> (utxo list \<times> u64) option" where
  "remove_spent w spent [] bal = Some ([], bal)"
| "remove_spent w spent (u # us) bal = do {
     (us, bal) \<leftarrow> remove_spent w spent us bal;
     if u \<notin> spent then Some (u # us, bal)
     else do { out \<leftarrow> utxo_output w u; Some (us, bal - out_amount out) }
   }"

definition scan_tx :: "wallet \<Rightarrow> int \<Rightarrow> UInt256 \<Rightarrow> scan \<Rightarrow> scan option" where
  "scan_tx w now h sc = do {
     t \<leftarrow> allTx w h;
     if blockHeight t = TX_UNCONFIRMED \<and> invalid_inputs sc t
     then Some (sc\<lparr>s_invalid := insert h (s_invalid sc), s_hist := s_hist sc @ [s_balance sc]\<rparr>)
     else
       let sc = sc\<lparr>s_spent := s_spent sc \<union> set (map input_key (tx_inputs t))\<rparr>
       in if blockHeight t = TX_UNCONFIRMED \<and> is_pending (chainHeight w) now sc t
          then Some (sc\<lparr>s_pending := insert h (s_pending sc), s_hist := s_hist sc @ [s_balance sc]\<rparr>)
          else do {
            let sc = fold (add_output w (txHash t)) (enumerate 0 (tx_outputs t)) sc;
            (us, bal) \<leftarrow> remove_spent w (s_spent sc) (s_utxos sc) (s_balance sc);
            Some (sc\<lparr>s_utxos := us, s_balance := bal,
              s_received := (if s_prev sc < bal then s_received sc + (bal - s_prev sc) else s_received sc),
              s_sent := (if bal < s_prev sc then s_sent sc + (s_prev sc - bal) else s_sent sc),
              s_hist := s_hist sc @ [bal], s_prev := bal\<rparr>)
          }
   }"

definition empty_scan :: scan where
  "empty_scan = \<lparr>s_balance = 0, s_prev = 0, s_sent = 0, s_received = 0, s_hist = [], s_utxos = [], s_spent = {},
     s_invalid = {}, s_pending = {}, s_used = {}\<rparr>"

definition UpdateBalance :: "int \<Rightarrow> wallet \<Rightarrow> wallet option" where
  "UpdateBalance now w = do {
     sc \<leftarrow> fold_option (scan_tx w now) (transactions w) empty_scan;
     if length (s_hist sc) \<noteq> length (transactions w) then None
     else Some (w\<lparr>balance := s_balance sc, totalSent := s_sent sc, totalReceived := s_received sc, balanceHist := s_hist sc,
       utxos := s_utxos sc, spentOutputs := s_spent sc, invalidTx := s_invalid sc, pendingTx := s_pending sc,
       usedAddrs := s_used sc\<rparr>)
   }"

section \<open>Address chains\<close>

text \<open>
  The derivation of addresses from the master public key is a parameter: \<open>derive internal n\<close> is the address of the
  key \<open>n\<close> of a chain, \<open>None\<close> when \<open>BRKeySetPubKey\<close> or \<open>BRKeyAddress\<close> fail. \<open>moved m n\<close> tells whether the array of a chain
  was reallocated to another place when it grew from \<open>m\<close> to \<open>n\<close> elements.
\<close>

record env =
  testnet :: bool
  derive :: "bool \<Rightarrow> u32 \<Rightarrow> byte list option"
  moved :: "nat \<Rightarrow> nat \<Rightarrow> bool"
  rand :: "nat \<Rightarrow> nat \<Rightarrow> nat"

text \<open>The end of the chain that has no used address: \<open>i\<close> positions are left to look at.\<close>

fun unused_from :: "byte list set \<Rightarrow> byte list list \<Rightarrow> nat \<Rightarrow> nat" where
  "unused_from taken chain 0 = 0"
| "unused_from taken chain (Suc i) = (if addr_key (chain ! i) \<in> taken then Suc i else unused_from taken chain i)"

partial_function (option) extend_chain ::
  "(u32 \<Rightarrow> byte list option) \<Rightarrow> byte list set \<Rightarrow> nat \<Rightarrow> byte list list \<Rightarrow> nat \<Rightarrow> (byte list list \<times> nat) option" where
  "extend_chain der taken gap chain i =
     (if i + gap > length chain then
        case der (of_nat (length chain)) of
          None \<Rightarrow> Some (chain, i)
        | Some a \<Rightarrow>
            if a = [] then Some (chain, i)
            else extend_chain der taken gap (chain @ [a]) (if addr_key a \<in> taken then length chain + 1 else i)
      else Some (chain, i))"

definition BRWalletUnusedAddrs :: "env \<Rightarrow> nat \<Rightarrow> bool \<Rightarrow> wallet \<Rightarrow> (wallet \<times> byte list list) option" where
  "BRWalletUnusedAddrs e gapLimit internal w =
     (if gapLimit = 0 then None
      else do {
        let chain = (if internal then internalChain w else externalChain w);
        let start = length chain;
        (chain, i) \<leftarrow> extend_chain (derive e internal) (usedAddrs w) gapLimit chain (unused_from (usedAddrs w) chain start);
        let w = (if internal then w\<lparr>internalChain := chain\<rparr> else w\<lparr>externalChain := chain\<rparr>);
        let w = (if moved e start (length chain)
                 then w\<lparr>allAddrs := addr_key ` (set (internalChain w) \<union> set (externalChain w))\<rparr>
                 else w\<lparr>allAddrs := allAddrs w \<union> addr_key ` set (drop start chain)\<rparr>);
        Some (w, if i + gapLimit \<le> length chain then take gapLimit (drop i chain) else [])
      })"

definition unused_addrs :: "env \<Rightarrow> wallet \<Rightarrow> wallet option" where
  "unused_addrs e w = do {
     (w, _) \<leftarrow> BRWalletUnusedAddrs e SEQUENCE_GAP_LIMIT_EXTERNAL False w;
     (w, _) \<leftarrow> BRWalletUnusedAddrs e SEQUENCE_GAP_LIMIT_INTERNAL True w;
     Some w
   }"

definition BRWalletReceiveAddress :: "env \<Rightarrow> wallet \<Rightarrow> (wallet \<times> byte list) option" where
  "BRWalletReceiveAddress e w = do {
     (w, addrs) \<leftarrow> BRWalletUnusedAddrs e 1 False w;
     Some (w, case addrs of [] \<Rightarrow> [] | a # _ \<Rightarrow> a)
   }"

text \<open>The readers; a buffer is given by its number of elements, \<open>None\<close> for \<open>NULL\<close>.\<close>

definition copy_out :: "'a list \<Rightarrow> nat option \<Rightarrow> nat \<times> 'a list" where
  "copy_out xs buf = (case buf of None \<Rightarrow> (length xs, []) | Some n \<Rightarrow> (min n (length xs), take n xs))"

definition BRWalletUTXOs :: "wallet \<Rightarrow> nat option \<Rightarrow> nat \<times> utxo list" where
  "BRWalletUTXOs w = copy_out (utxos w)"

definition BRWalletTransactions :: "wallet \<Rightarrow> nat option \<Rightarrow> nat \<times> UInt256 list" where
  "BRWalletTransactions w = copy_out (transactions w)"

fun unconfirmed_suffix :: "wallet \<Rightarrow> u32 \<Rightarrow> UInt256 list \<Rightarrow> nat option" where
  "unconfirmed_suffix w height [] = Some 0"
| "unconfirmed_suffix w height (h # hs) = do {
     t \<leftarrow> allTx w h;
     if blockHeight t \<ge> height then map_option Suc (unconfirmed_suffix w height hs) else Some 0
   }"

definition BRWalletTxUnconfirmedBefore :: "wallet \<Rightarrow> nat option \<Rightarrow> u32 \<Rightarrow> (nat \<times> UInt256 list) option" where
  "BRWalletTxUnconfirmedBefore w buf height = do {
     n \<leftarrow> unconfirmed_suffix w height (rev (transactions w));
     Some (copy_out (drop (length (transactions w) - n) (transactions w)) buf)
   }"

definition BRWalletAllAddrs :: "wallet \<Rightarrow> nat option \<Rightarrow> nat \<times> byte list list" where
  "BRWalletAllAddrs w buf =
     (let (n, xs) = copy_out (internalChain w) buf; (m, ys) = copy_out (externalChain w) (map_option (\<lambda>k. k - n) buf)
      in (n + m, xs @ ys))"

definition BRWalletBalance :: "wallet \<Rightarrow> u64" where "BRWalletBalance w = balance w"
definition BRWalletTotalSent :: "wallet \<Rightarrow> u64" where "BRWalletTotalSent w = totalSent w"
definition BRWalletTotalReceived :: "wallet \<Rightarrow> u64" where "BRWalletTotalReceived w = totalReceived w"
definition BRWalletFeePerKb :: "wallet \<Rightarrow> u64" where "BRWalletFeePerKb w = feePerKb w"

definition BRWalletContainsTransaction :: "wallet \<Rightarrow> tx \<Rightarrow> bool" where
  "BRWalletContainsTransaction w t = ContainsTx w t"

definition BRWalletContainsAddress :: "wallet \<Rightarrow> byte list \<Rightarrow> bool" where
  "BRWalletContainsAddress w a \<longleftrightarrow> addr_key a \<in> allAddrs w"

definition BRWalletAddressIsUsed :: "wallet \<Rightarrow> byte list \<Rightarrow> bool" where
  "BRWalletAddressIsUsed w a \<longleftrightarrow> addr_key a \<in> usedAddrs w"

definition BRWalletTransactionForHash :: "wallet \<Rightarrow> UInt256 \<Rightarrow> tx option option" where
  "BRWalletTransactionForHash w h = (if UInt256IsZero h then None else Some (allTx w h))"

section \<open>Fees and amounts to send\<close>

definition BRWalletFeeForTxSize :: "wallet \<Rightarrow> nat \<Rightarrow> u64" where
  "BRWalletFeeForTxSize w sz = txFee (feePerKb w) sz"

definition BRWalletMinOutputAmount :: "wallet \<Rightarrow> u64" where
  "BRWalletMinOutputAmount w =
     (let amount = (TX_MIN_OUTPUT_AMOUNT * feePerKb w + MIN_FEE_PER_KB - 1) div MIN_FEE_PER_KB
      in if amount > TX_MIN_OUTPUT_AMOUNT then amount else TX_MIN_OUTPUT_AMOUNT)"

fun spendable :: "wallet \<Rightarrow> utxo list \<Rightarrow> nat \<times> u64" where
  "spendable w [] = (0, 0)"
| "spendable w (u # us) =
     (let (n, amount) = spendable w us
      in case utxo_output w u of None \<Rightarrow> (n, amount) | Some out \<Rightarrow> (n + 1, amount + out_amount out))"

definition BRWalletMaxOutputAmount :: "wallet \<Rightarrow> u64" where
  "BRWalletMaxOutputAmount w =
     (let (inCount, amount) = spendable w (utxos w);
          txSize = 8 + BRVarIntSize (of_nat inCount) + TX_INPUT_SIZE * inCount + BRVarIntSize 2 + TX_OUTPUT_SIZE * 2;
          fee = txFee (feePerKb w) txSize
      in if amount > fee then amount - fee else 0)"

section \<open>Building transactions\<close>

text \<open>
  The loop over the unspent outputs: \<open>Enough\<close> when it breaks with enough funds or has looked at all of them, and
  \<open>TooLarge\<close> when the transaction grew over the limit, with \<open>balance\<close> and \<open>feeAmount\<close> at that point.
\<close>

datatype selection = Enough tx u64 u64 | TooLarge u64 u64

definition round_fee :: "u64 \<Rightarrow> u64 \<Rightarrow> u64 \<Rightarrow> u64" where
  "round_fee bal amount fee = (if bal > amount + fee then fee + (bal - (amount + fee)) mod 100 else fee)"

fun select_inputs :: "bool \<Rightarrow> wallet \<Rightarrow> u64 \<Rightarrow> u64 \<Rightarrow> utxo list \<Rightarrow> tx \<Rightarrow> u64 \<Rightarrow> u64 \<Rightarrow> selection option" where
  "select_inputs tn w amount minAmount [] t bal fee = Some (Enough t bal fee)"
| "select_inputs tn w amount minAmount (u # us) t bal fee =
     (case allTx w (fst u) of
        None \<Rightarrow> select_inputs tn w amount minAmount us t bal fee
      | Some p \<Rightarrow>
          if unat (snd u) \<ge> length (tx_outputs p) then select_inputs tn w amount minAmount us t bal fee
          else do {
            let out = tx_outputs p ! unat (snd u);
            t \<leftarrow> BRTransactionAddInput tn t (txHash p) (snd u) (out_amount out) (out_script out) None TXIN_SEQUENCE;
            if BRTransactionSize t + TX_OUTPUT_SIZE > TX_MAX_SIZE then Some (TooLarge bal fee)
            else
              let bal = bal + out_amount out;
                  fee = round_fee (balance w) amount (txFee (feePerKb w) (BRTransactionSize t + TX_OUTPUT_SIZE))
              in if bal = amount + fee \<or> bal \<ge> amount + fee + minAmount then Some (Enough t bal fee)
                 else select_inputs tn w amount minAmount us t bal fee
          })"

text \<open>What follows the loop: not enough funds, or a change output when what is left is worth it.\<close>

definition add_change :: "env \<Rightarrow> wallet \<Rightarrow> tx \<Rightarrow> u64 \<Rightarrow> u64 \<Rightarrow> u64 \<Rightarrow> u64 \<Rightarrow> (wallet \<times> tx option) option" where
  "add_change e w t amount minAmount bal fee =
     (if bal < amount + fee then Some (w, None)
      else if bal - (amount + fee) > minAmount then do {
        (w, addrs) \<leftarrow> BRWalletUnusedAddrs e 1 True w;
        script \<leftarrow> script_of_address (testnet e) (case addrs of [] \<Rightarrow> [] | a # _ \<Rightarrow> a);
        Some (w, Some (BRTransactionShuffleOutputs (rand e)
          (BRTransactionAddOutput (testnet e) t (bal - (amount + fee)) (Some script))))
      }
      else Some (w, Some t))"

definition outputs_amount :: "txout list \<Rightarrow> u64" where
  "outputs_amount outs = foldl (\<lambda>a out. a + out_amount out) 0 outs"

partial_function (option) BRWalletCreateTxForOutputs :: "env \<Rightarrow> wallet \<Rightarrow> txout list \<Rightarrow> (wallet \<times> tx option) option" where
  "BRWalletCreateTxForOutputs e w outs =
     (if outs = [] \<or> list_ex (\<lambda>out. arr (out_script out) = []) outs then None
      else
        let t = foldl (\<lambda>t out. BRTransactionAddOutput (testnet e) t (out_amount out) (out_script out)) BRTransactionNew outs;
            amount = outputs_amount outs;
            minAmount = BRWalletMinOutputAmount w;
            fee = txFee (feePerKb w) (BRTransactionSize t + TX_OUTPUT_SIZE)
        in case select_inputs (testnet e) w amount minAmount (utxos w) t 0 fee of
             None \<Rightarrow> None
           | Some (Enough t bal fee) \<Rightarrow> add_change e w t amount minAmount bal fee
           | Some (TooLarge bal fee) \<Rightarrow>
               if balance w < amount + txFee (feePerKb w)
                    (10 + length (utxos w) * TX_INPUT_SIZE + (length outs + 1) * TX_OUTPUT_SIZE)
               then Some (w, None)
               else if out_amount (last outs) > amount + fee + minAmount - bal
               then BRWalletCreateTxForOutputs e w
                      (butlast outs @ [(last outs)\<lparr>out_amount := out_amount (last outs) - (amount + fee - bal)\<rparr>])
               else BRWalletCreateTxForOutputs e w (butlast outs))"

definition BRWalletCreateTransaction :: "env \<Rightarrow> wallet \<Rightarrow> u64 \<Rightarrow> byte list \<Rightarrow> (wallet \<times> tx option) option" where
  "BRWalletCreateTransaction e w amount addr =
     (if amount = 0 \<or> BRAddressIsValid (testnet e) addr \<noteq> Some True then None
      else do {
        out \<leftarrow> BRTxOutputSetAddress (testnet e) \<lparr>out_address = [], out_amount = amount, out_script = None\<rparr> (Some addr);
        BRWalletCreateTxForOutputs e w [out]
      })"

definition BRWalletFeeForTxAmount :: "env \<Rightarrow> wallet \<Rightarrow> u64 \<Rightarrow> (wallet \<times> u64) option" where
  "BRWalletFeeForTxAmount e w amount =
     (if amount = 0 then None
      else do {
        let maxAmount = BRWalletMaxOutputAmount w;
        let dummyScript = [OP_DUP, OP_HASH160, 20] @ replicate 20 0 @ [OP_EQUALVERIFY, OP_CHECKSIG];
        let out = BRTxOutputSetScript (testnet e)
          \<lparr>out_address = [], out_amount = (if amount < maxAmount then amount else maxAmount), out_script = None\<rparr>
          (Some dummyScript);
        (w, t) \<leftarrow> BRWalletCreateTxForOutputs e w [out];
        Some (w, case t of None \<Rightarrow> 0 | Some t \<Rightarrow> BRWalletFeeForTx w t)
      })"

text \<open>
  Signing: the positions of the input addresses in the chains, last first; \<open>privKey internal n\<close> is the key that
  \<open>BRBIP32PrivKeyList\<close> derives from the seed. \<open>None\<close> for the seed is \<open>NULL\<close>, with the result -1.
\<close>

definition chain_positions :: "byte list list \<Rightarrow> txin \<Rightarrow> nat list" where
  "chain_positions chain i = rev (filter (\<lambda>j. BRAddressEq (in_address i) (chain ! j)) [0..<length chain])"

definition BRWalletSignTransaction ::
  "env \<Rightarrow> ('k \<Rightarrow> byte list) \<Rightarrow> ('k \<Rightarrow> byte list) \<Rightarrow> ('k \<Rightarrow> UInt256 \<Rightarrow> byte list) \<Rightarrow> wallet \<Rightarrow> tx \<Rightarrow> u32 \<Rightarrow>
    (bool \<Rightarrow> nat \<Rightarrow> 'k) option \<Rightarrow> (tx \<times> int) option" where
  "BRWalletSignTransaction e kaddr kpub ksign w t forkId privKey =
     (let internalIdx = concat (map (chain_positions (internalChain w)) (tx_inputs t));
          externalIdx = concat (map (chain_positions (externalChain w)) (tx_inputs t))
      in if length internalIdx > length (tx_inputs t) \<or> length externalIdx > length (tx_inputs t) then None
         else case privKey of
             None \<Rightarrow> Some (t, - 1)
           | Some key \<Rightarrow>
               let (t, ok) = BRTransactionSign (testnet e) kaddr kpub ksign forkId
                     (map (key True) internalIdx @ map (key False) externalIdx) t
               in Some (t, if ok then 1 else 0))"

section \<open>Validity\<close>

partial_function (option) BRWalletTransactionIsValid :: "wallet \<Rightarrow> tx \<Rightarrow> bool option" where
  "BRWalletTransactionIsValid w t =
     (if \<not> BRTransactionIsSigned t then None
      else if blockHeight t \<noteq> TX_UNCONFIRMED then Some True
      else if (if allTx w (txHash t) = None then list_ex (\<lambda>i. input_key i \<in> spentOutputs w) (tx_inputs t)
               else txHash t \<in> invalidTx w)
      then Some False
      else do {
        bad \<leftarrow> any_option (\<lambda>i. do {
          p \<leftarrow> BRWalletTransactionForHash w (in_hash i);
          case p of None \<Rightarrow> Some False | Some p \<Rightarrow> do { v \<leftarrow> BRWalletTransactionIsValid w p; Some (\<not> v) }
        }) (tx_inputs t);
        Some (\<not> bad)
      })"

partial_function (option) BRWalletTransactionIsPending :: "int \<Rightarrow> wallet \<Rightarrow> tx \<Rightarrow> bool option" where
  "BRWalletTransactionIsPending now w t =
     (if \<not> BRTransactionIsSigned t then None
      else if blockHeight t \<noteq> TX_UNCONFIRMED then Some False
      else if BRTransactionSize t > TX_MAX_SIZE \<or> list_ex (postdated (chainHeight w) now t) (tx_inputs t) \<or>
              list_ex (\<lambda>out. out_amount out < TX_MIN_OUTPUT_AMOUNT) (tx_outputs t)
      then Some True
      else any_option (\<lambda>i. do {
          p \<leftarrow> BRWalletTransactionForHash w (in_hash i);
          case p of None \<Rightarrow> Some False | Some p \<Rightarrow> BRWalletTransactionIsPending now w p
        }) (tx_inputs t))"

partial_function (option) BRWalletTransactionIsVerified :: "int \<Rightarrow> wallet \<Rightarrow> tx \<Rightarrow> bool option" where
  "BRWalletTransactionIsVerified now w t =
     (if \<not> BRTransactionIsSigned t then None
      else if blockHeight t \<noteq> TX_UNCONFIRMED then Some True
      else if tx_timestamp t = 0 then Some False
      else do {
        v \<leftarrow> BRWalletTransactionIsValid w t;
        if \<not> v then Some False
        else do {
          pend \<leftarrow> BRWalletTransactionIsPending now w t;
          if pend then Some False
          else do {
            bad \<leftarrow> any_option (\<lambda>i. do {
              p \<leftarrow> BRWalletTransactionForHash w (in_hash i);
              case p of None \<Rightarrow> Some False | Some p \<Rightarrow> do { v \<leftarrow> BRWalletTransactionIsVerified now w p; Some (\<not> v) }
            }) (tx_inputs t);
            Some (\<not> bad)
          }
        }
      })"

definition BRWalletBalanceAfterTx :: "wallet \<Rightarrow> tx \<Rightarrow> u64 option" where
  "BRWalletBalanceAfterTx w t =
     (if \<not> BRTransactionIsSigned t then None
      else case List.find (\<lambda>(h, b). UInt256Eq h (txHash t)) (rev (zip (transactions w) (balanceHist w))) of
          None \<Rightarrow> Some (balance w) | Some (h, b) \<Rightarrow> Some b)"

section \<open>Registering, updating and removing transactions\<close>

definition BRWalletRegisterTransaction :: "env \<Rightarrow> int \<Rightarrow> wallet \<Rightarrow> tx \<Rightarrow> (wallet \<times> bool \<times> event list) option" where
  "BRWalletRegisterTransaction e now w t =
     (if \<not> BRTransactionIsSigned t then None
      else if allTx w (txHash t) \<noteq> None then Some (w, True, [])
      else if ContainsTx w t then do {
        w \<leftarrow> InsertTx (w\<lparr>allTx := (allTx w)(txHash t \<mapsto> t)\<rparr>) t;
        w \<leftarrow> UpdateBalance now w;
        w \<leftarrow> unused_addrs e w;
        Some (w, True, [BalanceChanged (balance w), TxAdded (txHash t)])
      }
      else Some (if blockHeight t = TX_UNCONFIRMED then w\<lparr>allTx := (allTx w)(txHash t \<mapsto> t)\<rparr> else w, False, []))"

text \<open>The transactions that spend an output of \<open>t\<close>, on the array from its end.\<close>

fun dependents :: "wallet \<Rightarrow> tx \<Rightarrow> UInt256 list \<Rightarrow> UInt256 list option" where
  "dependents w t [] = Some []"
| "dependents w t (h # hs) = do {
     p \<leftarrow> allTx w h;
     if blockHeight p < blockHeight t then Some []
     else if \<not> BRTransactionEq t p \<and> list_ex (\<lambda>i. UInt256Eq (in_hash i) (txHash t)) (tx_inputs p)
     then map_option (\<lambda>r. txHash p # r) (dependents w t hs)
     else dependents w t hs
   }"

text \<open>\<open>array_rm\<close> of the last element that names the transaction.\<close>

definition remove_last :: "UInt256 \<Rightarrow> UInt256 list \<Rightarrow> UInt256 list" where
  "remove_last h hs = rev (remove1 h (rev hs))"

text \<open>Whether to notify the user, and whether to recommend a rescan.\<close>

definition removal_notice :: "wallet \<Rightarrow> tx \<Rightarrow> (bool \<times> bool) option" where
  "removal_notice w t =
     (if BRWalletAmountSentByTx w t > 0 then do {
        v \<leftarrow> BRWalletTransactionIsValid w t;
        if v then do {
          open_input \<leftarrow> any_option (\<lambda>i. do {
            p \<leftarrow> BRWalletTransactionForHash w (in_hash i);
            Some (case p of None \<Rightarrow> True | Some p \<Rightarrow> blockHeight p = TX_UNCONFIRMED)
          }) (tx_inputs t);
          Some (True, \<not> open_input)
        }
        else Some (False, False)
      }
      else Some (False, False))"

partial_function (option) BRWalletRemoveTransaction ::
  "int \<Rightarrow> UInt256 \<Rightarrow> wallet \<times> event list \<Rightarrow> (wallet \<times> event list) option" where
  "BRWalletRemoveTransaction now h s =
     (if UInt256IsZero h then None
      else case allTx (fst s) h of
          None \<Rightarrow> Some s
        | Some t \<Rightarrow> do {
            hashes \<leftarrow> dependents (fst s) t (rev (transactions (fst s)));
            if hashes \<noteq> [] then do {
              s \<leftarrow> fold_option (\<lambda>d s. BRWalletRemoveTransaction now d s) (rev hashes) s;
              BRWalletRemoveTransaction now h s
            }
            else do {
              w \<leftarrow> UpdateBalance now ((fst s)\<lparr>transactions := remove_last h (transactions (fst s))\<rparr>);
              (notify, rescan) \<leftarrow> removal_notice w t;
              Some (w, snd s @ [BalanceChanged (balance w), TxDeleted h notify rescan])
            }
          })"

text \<open>
  One pass of the loop of \<open>BRWalletUpdateTransactions\<close>: the state, the hashes to report, and whether the balance needs an
  update. Freeing an object that \<open>transactions\<close> still names leaves a dangling pointer.
\<close>

definition update_one ::
  "u32 \<Rightarrow> u32 \<Rightarrow> UInt256 \<Rightarrow> wallet \<times> UInt256 list \<times> bool \<Rightarrow> (wallet \<times> UInt256 list \<times> bool) option" where
  "update_one height stamp h s =
     (let (w, hashes, needsUpdate) = s in
      case allTx w h of
        None \<Rightarrow> Some s
      | Some t \<Rightarrow>
          if blockHeight t = height \<and> tx_timestamp t = stamp then Some s
          else
            let t = t\<lparr>tx_timestamp := stamp, blockHeight := height\<rparr>; w = w\<lparr>allTx := (allTx w)(h \<mapsto> t)\<rparr>
            in if ContainsTx w t then do {
                 w \<leftarrow> (if h \<in> set (transactions w)
                      then InsertTx (w\<lparr>transactions := remove_last h (transactions w)\<rparr>) t else Some w);
                 Some (w, hashes @ [h], needsUpdate \<or> h \<in> pendingTx w \<or> h \<in> invalidTx w)
               }
               else if height \<noteq> TX_UNCONFIRMED then
                 (if h \<in> set (transactions w) then None
                  else Some (w\<lparr>allTx := (allTx w)(h := None)\<rparr>, hashes, needsUpdate))
               else Some (w, hashes, needsUpdate))"

definition BRWalletUpdateTransactions ::
  "int \<Rightarrow> wallet \<Rightarrow> UInt256 list \<Rightarrow> u32 \<Rightarrow> u32 \<Rightarrow> (wallet \<times> event list) option" where
  "BRWalletUpdateTransactions now w hs height stamp = do {
     let w = (if height > chainHeight w then w\<lparr>chainHeight := height\<rparr> else w);
     (w, hashes, needsUpdate) \<leftarrow> fold_option (update_one height stamp) hs (w, [], False);
     w \<leftarrow> (if needsUpdate then UpdateBalance now w else Some w);
     Some (w, if hashes \<noteq> [] then [TxUpdated hashes height stamp] else [])
   }"

fun confirmed_after :: "wallet \<Rightarrow> u32 \<Rightarrow> UInt256 list \<Rightarrow> UInt256 list option" where
  "confirmed_after w height [] = Some []"
| "confirmed_after w height (h # hs) = do {
     t \<leftarrow> allTx w h;
     if blockHeight t > height then map_option (\<lambda>r. h # r) (confirmed_after w height hs) else Some []
   }"

definition unconfirm :: "UInt256 \<Rightarrow> wallet \<Rightarrow> wallet option" where
  "unconfirm h w = do {
     t \<leftarrow> allTx w h;
     Some (w\<lparr>allTx := (allTx w)(h \<mapsto> t\<lparr>blockHeight := TX_UNCONFIRMED\<rparr>)\<rparr>)
   }"

definition BRWalletSetTxUnconfirmedAfter :: "int \<Rightarrow> wallet \<Rightarrow> u32 \<Rightarrow> (wallet \<times> event list) option" where
  "BRWalletSetTxUnconfirmedAfter now w height = do {
     let w = w\<lparr>chainHeight := height\<rparr>;
     hashes \<leftarrow> map_option rev (confirmed_after w height (rev (transactions w)));
     w \<leftarrow> fold_option unconfirm hashes w;
     w \<leftarrow> (if hashes \<noteq> [] then UpdateBalance now w else Some w);
     Some (w, if hashes \<noteq> [] then [TxUpdated hashes TX_UNCONFIRMED 0] else [])
   }"

definition BRWalletSetFeePerKb :: "wallet \<Rightarrow> u64 \<Rightarrow> wallet" where
  "BRWalletSetFeePerKb w fee = w\<lparr>feePerKb := fee\<rparr>"

section \<open>A new wallet\<close>

definition empty_wallet :: wallet where
  "empty_wallet = \<lparr>balance = 0, totalSent = 0, totalReceived = 0, feePerKb = DEFAULT_FEE_PER_KB, balanceHist = [],
     chainHeight = 0, utxos = [], transactions = [], internalChain = [], externalChain = [], allTx = Map.empty,
     invalidTx = {}, pendingTx = {}, spentOutputs = {}, usedAddrs = {}, allAddrs = {}\<rparr>"

definition load_tx :: "tx \<Rightarrow> wallet \<Rightarrow> wallet option" where
  "load_tx t w =
     (if \<not> BRTransactionIsSigned t \<or> allTx w (txHash t) \<noteq> None then Some w
      else map_option
        (\<lambda>w. w\<lparr>usedAddrs := usedAddrs w \<union> addr_key ` {a \<in> set (map out_address (tx_outputs t)). a \<noteq> []}\<rparr>)
        (InsertTx (w\<lparr>allTx := (allTx w)(txHash t \<mapsto> t)\<rparr>) t))"

text \<open>The inner \<open>None\<close> is \<open>NULL\<close>: the first transaction does not belong to the master public key.\<close>

definition BRWalletNew :: "env \<Rightarrow> int \<Rightarrow> tx list \<Rightarrow> wallet option option" where
  "BRWalletNew e now txs = do {
     w \<leftarrow> fold_option load_tx txs empty_wallet;
     w \<leftarrow> unused_addrs e w;
     w \<leftarrow> UpdateBalance now w;
     Some (if txs \<noteq> [] \<and> \<not> ContainsTx w (hd txs) then None else Some w)
   }"

end
