(* ===== verification/WalletBalance.thy ===== *)
theory WalletBalance
  imports Wallet
begin

text \<open>
  The balance of the wallet: what \<open>_BRWalletUpdateBalance\<close> computes, as sets of outputs and sums of amounts.
\<close>

definition store_ok :: "wallet \<Rightarrow> bool" where
  "store_ok w \<longleftrightarrow> (\<forall>h t. allTx w h = Some t \<longrightarrow> txHash t = h \<and> length (tx_outputs t) < 2 ^ 32) \<and>
     distinct (transactions w) \<and> (\<forall>h \<in> set (transactions w). allTx w h \<noteq> None)"

text \<open>The outpoints that a set of transactions spends, and those of their outputs that pay to wallet addresses.\<close>

definition spends :: "wallet \<Rightarrow> UInt256 set \<Rightarrow> utxo set" where
  "spends w H = {input_key i | i t h. h \<in> H \<and> allTx w h = Some t \<and> i \<in> set (tx_inputs t)}"

definition own_outpoints :: "wallet \<Rightarrow> UInt256 set \<Rightarrow> utxo set" where
  "own_outpoints w H = {(h, of_nat j) | h t j. h \<in> H \<and> allTx w h = Some t \<and> j < length (tx_outputs t) \<and>
     out_address (tx_outputs t ! j) \<noteq> [] \<and> wallet_addr w (out_address (tx_outputs t ! j))}"

definition worth :: "wallet \<Rightarrow> utxo \<Rightarrow> u64" where
  "worth w u = (case utxo_output w u of Some out \<Rightarrow> out_amount out | None \<Rightarrow> 0)"

definition total_worth :: "wallet \<Rightarrow> utxo list \<Rightarrow> u64" where
  "total_worth w us = sum_list (map (worth w) us)"

lemma total_worth_simps [simp]:
  "total_worth w [] = 0" "total_worth w (u # us) = worth w u + total_worth w us"
  "total_worth w (us @ vs) = total_worth w us + total_worth w vs"
  by (simp_all add: total_worth_def)

lemma remove_spent_filter:
  assumes "\<forall>u \<in> set us. utxo_output w u \<noteq> None"
  shows "remove_spent w S us bal = Some (filter (\<lambda>u. u \<notin> S) us, bal - total_worth w (filter (\<lambda>u. u \<in> S) us))"
  using assms by (induction us) (auto simp: worth_def)

lemma total_worth_filter:
  "total_worth w us = total_worth w (filter (\<lambda>u. u \<notin> S) us) + total_worth w (filter (\<lambda>u. u \<in> S) us)"
  by (induction us) simp_all

definition new_outpoints :: "wallet \<Rightarrow> UInt256 \<Rightarrow> nat \<Rightarrow> txout list \<Rightarrow> utxo list" where
  "new_outpoints w h n outs = map (\<lambda>(j, out). (h, of_nat j))
     (filter (\<lambda>(j, out). out_address out \<noteq> [] \<and> wallet_addr w (out_address out)) (enumerate n outs))"

definition new_amount :: "wallet \<Rightarrow> txout list \<Rightarrow> u64" where
  "new_amount w outs = sum_list (map out_amount (filter (\<lambda>out. out_address out \<noteq> [] \<and> wallet_addr w (out_address out)) outs))"

definition paid_addrs :: "txout list \<Rightarrow> byte list set" where
  "paid_addrs outs = addr_key ` {a \<in> set (map out_address outs). a \<noteq> []}"

lemma add_outputs:
  "fold (add_output w h) (enumerate n outs) sc =
     sc\<lparr>s_used := s_used sc \<union> paid_addrs outs, s_utxos := s_utxos sc @ new_outpoints w h n outs,
        s_balance := s_balance sc + new_amount w outs\<rparr>"
proof (induction outs arbitrary: n sc)
  case Nil
  show ?case by (simp add: paid_addrs_def new_outpoints_def new_amount_def)
next
  case (Cons out outs)
  have p: "paid_addrs (out # outs) = (if out_address out = [] then {} else {addr_key (out_address out)}) \<union> paid_addrs outs"
    by (auto simp: paid_addrs_def)
  show ?case
    unfolding enumerate_simps fold_simps Cons.IH p
    by (cases "out_address out = []"; cases "wallet_addr w (out_address out)")
      (simp_all add: add_output_def new_outpoints_def new_amount_def add.assoc)
qed

lemma of_nat_u32_inject: "i < 2 ^ 32 \<Longrightarrow> j < 2 ^ 32 \<Longrightarrow> (of_nat i :: u32) = of_nat j \<longleftrightarrow> i = j"
  by (auto simp: word_eq_iff_unsigned unat_of_nat take_bit_nat_eq_self_iff dest!: arg_cong [where f = unat])

lemma utxo_output_nth:
  "allTx w h = Some t \<Longrightarrow> j < length (tx_outputs t) \<Longrightarrow> length (tx_outputs t) < 2 ^ 32 \<Longrightarrow>
   utxo_output w (h, of_nat j) = Some (tx_outputs t ! j)"
  by (simp add: utxo_output_def unat_of_nat take_bit_nat_eq_self)

lemma worth_new_outpoints:
  assumes "allTx w h = Some t" "length (tx_outputs t) < 2 ^ 32" "drop n (tx_outputs t) = outs"
  shows "total_worth w (new_outpoints w h n outs) = new_amount w outs"
  using assms(3)
proof (induction outs arbitrary: n)
  case (Cons out outs)
  have n: "n < length (tx_outputs t)" using Cons.prems by (metis drop_all list.distinct(1) not_le)
  have "tx_outputs t ! n = out" "drop (Suc n) (tx_outputs t) = outs"
    using Cons.prems by (metis Cons_nth_drop_Suc list.inject n)+
  with Cons.IH [of "Suc n"] utxo_output_nth [OF assms(1) n assms(2)]
  show ?case by (simp add: new_outpoints_def new_amount_def worth_def)
qed (simp add: new_outpoints_def new_amount_def)

lemma new_outpoints_ok:
  assumes "allTx w h = Some t" "length (tx_outputs t) < 2 ^ 32"
  shows "distinct (new_outpoints w h 0 (tx_outputs t))" "set (new_outpoints w h 0 (tx_outputs t)) = own_outpoints w {h}"
    "total_worth w (new_outpoints w h 0 (tx_outputs t)) = new_amount w (tx_outputs t)"
    "\<forall>u \<in> own_outpoints w {h}. utxo_output w u \<noteq> None"
proof -
  have "inj_on (\<lambda>(j, out). (h, of_nat j :: u32)) (set (enumerate 0 (tx_outputs t)))"
    using assms(2) by (auto simp: inj_on_def in_set_enumerate_eq of_nat_u32_inject)
  then show "distinct (new_outpoints w h 0 (tx_outputs t))"
    by (auto simp: new_outpoints_def distinct_map intro: inj_on_subset)
  show "set (new_outpoints w h 0 (tx_outputs t)) = own_outpoints w {h}"
    using assms(1) by (auto simp: new_outpoints_def own_outpoints_def in_set_enumerate_eq image_iff Bex_def)
  show "total_worth w (new_outpoints w h 0 (tx_outputs t)) = new_amount w (tx_outputs t)"
    by (rule worth_new_outpoints [OF assms]) simp
  show "\<forall>u \<in> own_outpoints w {h}. utxo_output w u \<noteq> None"
    using assms by (auto simp: own_outpoints_def utxo_output_nth)
qed

lemma spends_Un: "spends w (A \<union> B) = spends w A \<union> spends w B"
  and own_Un: "own_outpoints w (A \<union> B) = own_outpoints w A \<union> own_outpoints w B"
  by (auto simp: spends_def own_outpoints_def)

lemma spends_mono: "A \<subseteq> B \<Longrightarrow> spends w A \<subseteq> spends w B"
  by (auto simp: spends_def)

lemma own_mono: "A \<subseteq> B \<Longrightarrow> own_outpoints w A \<subseteq> own_outpoints w B"
  by (auto simp: own_outpoints_def)

lemma spends_one: "allTx w h = Some t \<Longrightarrow> spends w {h} = input_key ` set (tx_inputs t)"
  by (auto simp: spends_def)

lemma own_fst: "u \<in> own_outpoints w H \<Longrightarrow> fst u \<in> H"
  by (auto simp: own_outpoints_def)

text \<open>What holds after the transactions \<open>hs\<close>.\<close>

definition unconfirmed :: "wallet \<Rightarrow> UInt256 \<Rightarrow> bool" where
  "unconfirmed w h \<longleftrightarrow> (\<exists>t. allTx w h = Some t \<and> blockHeight t = TX_UNCONFIRMED)"

definition conflict_free :: "wallet \<Rightarrow> UInt256 set \<Rightarrow> bool" where
  "conflict_free w S \<longleftrightarrow> (\<forall>a \<in> S. \<forall>b \<in> S. unconfirmed w a \<and> unconfirmed w b \<and> a \<noteq> b \<longrightarrow> spends w {a} \<inter> spends w {b} = {})"

definition rejected_for_cause :: "wallet \<Rightarrow> UInt256 set \<Rightarrow> UInt256 set \<Rightarrow> bool" where
  "rejected_for_cause w S X \<longleftrightarrow> (\<forall>h \<in> X. \<exists>t. allTx w h = Some t \<and> blockHeight t = TX_UNCONFIRMED \<and>
     (\<exists>i \<in> set (tx_inputs t). input_key i \<in> spends w S \<or> in_hash i \<in> X))"

text \<open>The books: \<open>V\<close> are the transactions whose outputs count, \<open>S\<close> also those whose inputs count.\<close>

definition books_ok :: "wallet \<Rightarrow> UInt256 set \<Rightarrow> UInt256 set \<Rightarrow> utxo list \<Rightarrow> u64 \<Rightarrow> bool" where
  "books_ok w S V us bal \<longleftrightarrow> distinct us \<and> set us \<subseteq> own_outpoints w V - spends w V \<and>
     own_outpoints w V - spends w S \<subseteq> set us \<and> bal = total_worth w us"

definition used_by :: "wallet \<Rightarrow> UInt256 set \<Rightarrow> byte list set" where
  "used_by w V = (\<Union>h \<in> V. case allTx w h of Some t \<Rightarrow> paid_addrs (tx_outputs t) | None \<Rightarrow> {})"

definition scan_inv :: "wallet \<Rightarrow> UInt256 list \<Rightarrow> scan \<Rightarrow> bool" where
  "scan_inv w hs sc \<longleftrightarrow>
     (let S = set hs - s_invalid sc; V = S - s_pending sc in
      s_invalid sc \<subseteq> set hs \<and> s_pending sc \<subseteq> S \<and> (\<forall>h \<in> s_pending sc. unconfirmed w h) \<and>
      s_spent sc = spends w S \<and> books_ok w S V (s_utxos sc) (s_balance sc) \<and> length (s_hist sc) = length hs \<and>
      s_used sc = used_by w V \<and> conflict_free w S \<and> rejected_for_cause w S (s_invalid sc))"

lemma scan_invI:
  assumes "set hs - s_invalid sc = S" "S - s_pending sc = V" "s_invalid sc \<subseteq> set hs" "s_pending sc \<subseteq> S"
    "\<forall>h \<in> s_pending sc. unconfirmed w h" "s_spent sc = spends w S" "books_ok w S V (s_utxos sc) (s_balance sc)"
    "length (s_hist sc) = length hs" "s_used sc = used_by w V" "conflict_free w S" "rejected_for_cause w S (s_invalid sc)"
  shows "scan_inv w hs sc"
  using assms(3-) unfolding scan_inv_def Let_def assms(1) assms(2) by blast

lemma scan_invD:
  assumes "scan_inv w hs sc"
  defines "S \<equiv> set hs - s_invalid sc" and "V \<equiv> set hs - s_invalid sc - s_pending sc"
  shows "s_invalid sc \<subseteq> set hs" "s_pending sc \<subseteq> S" "\<forall>h \<in> s_pending sc. unconfirmed w h" "s_spent sc = spends w S"
    "books_ok w S V (s_utxos sc) (s_balance sc)" "length (s_hist sc) = length hs" "s_used sc = used_by w V"
    "conflict_free w S" "rejected_for_cause w S (s_invalid sc)"
  using assms(1) unfolding scan_inv_def Let_def S_def V_def by blast+

lemma rejected_more:
  "rejected_for_cause w S X \<Longrightarrow> S \<subseteq> S' \<Longrightarrow> rejected_for_cause w S' X"
  using spends_mono [of S S' w] unfolding rejected_for_cause_def by blast

lemma scan_invalid:
  assumes "scan_inv w hs sc" "allTx w h = Some t" "h \<notin> set hs" "blockHeight t = TX_UNCONFIRMED" "invalid_inputs sc t"
  shows "scan_inv w (hs @ [h]) (sc\<lparr>s_invalid := insert h (s_invalid sc), s_hist := s_hist sc @ [s_balance sc]\<rparr>)"
proof (rule scan_invI)
  note inv = scan_invD [OF assms(1)]
  let ?S = "set hs - s_invalid sc"
  show "set (hs @ [h]) - s_invalid (sc\<lparr>s_invalid := insert h (s_invalid sc), s_hist := s_hist sc @ [s_balance sc]\<rparr>) = ?S"
    using assms(3) by auto
  have "\<exists>i \<in> set (tx_inputs t). input_key i \<in> spends w ?S \<or> in_hash i \<in> s_invalid sc"
    using assms(5) inv(4) by (auto simp: invalid_inputs_def list_ex_iff)
  then have "rejected_for_cause w ?S (insert h (s_invalid sc))"
    using inv(9) assms(2,4) unfolding rejected_for_cause_def by blast
  then show "rejected_for_cause w ?S (s_invalid (sc\<lparr>s_invalid := insert h (s_invalid sc), s_hist := s_hist sc @ [s_balance sc]\<rparr>))"
    by simp
qed (use scan_invD [OF assms(1)] in \<open>simp_all add: subset_insertI2\<close>)

lemma conflict_free_insert:
  assumes "conflict_free w S" "allTx w h = Some t" "blockHeight t = TX_UNCONFIRMED \<Longrightarrow> spends w {h} \<inter> spends w S = {}"
  shows "conflict_free w (insert h S)"
proof -
  have "spends w {a} \<subseteq> spends w S" if "a \<in> S" for a using that by (intro spends_mono) simp
  moreover have "unconfirmed w h \<longleftrightarrow> blockHeight t = TX_UNCONFIRMED" using assms(2) by (simp add: unconfirmed_def)
  ultimately show ?thesis using assms(1,3) unfolding conflict_free_def by fast
qed

text \<open>A transaction that is not rejected spends nothing that is spent already.\<close>

lemma accepted_inputs:
  assumes "scan_inv w hs sc" "allTx w h = Some t" "\<not> (blockHeight t = TX_UNCONFIRMED \<and> invalid_inputs sc t)"
  shows "conflict_free w (insert h (set hs - s_invalid sc))"
proof (rule conflict_free_insert [OF _ assms(2)])
  show "conflict_free w (set hs - s_invalid sc)" using scan_invD [OF assms(1)] by blast
  show "spends w {h} \<inter> spends w (set hs - s_invalid sc) = {}" if "blockHeight t = TX_UNCONFIRMED"
    using assms(3) that scan_invD [OF assms(1)] by (auto simp: spends_one [OF assms(2)] invalid_inputs_def list_ex_iff)
qed

lemma spends_insert: "allTx w h = Some t \<Longrightarrow> spends w (insert h S) = spends w S \<union> set (map input_key (tx_inputs t))"
  using spends_Un [of w S "{h}"] spends_one [of w h t] by simp

lemma scan_pending:
  assumes "scan_inv w hs sc" "allTx w h = Some t" "h \<notin> set hs" "blockHeight t = TX_UNCONFIRMED" "\<not> invalid_inputs sc t"
  shows "scan_inv w (hs @ [h]) (sc\<lparr>s_spent := s_spent sc \<union> set (map input_key (tx_inputs t)),
    s_pending := insert h (s_pending sc), s_hist := s_hist sc @ [s_balance sc]\<rparr>)"
proof (rule scan_invI)
  note inv = scan_invD [OF assms(1)]
  let ?S = "set hs - s_invalid sc" and ?sc = "sc\<lparr>s_spent := s_spent sc \<union> set (map input_key (tx_inputs t)),
    s_pending := insert h (s_pending sc), s_hist := s_hist sc @ [s_balance sc]\<rparr>"
  show "set (hs @ [h]) - s_invalid ?sc = insert h ?S" using inv(1) assms(3) by auto
  show "insert h ?S - s_pending ?sc = ?S - s_pending sc" using assms(3) by auto
  have "books_ok w (insert h ?S) (?S - s_pending sc) (s_utxos sc) (s_balance sc)"
    using inv(5) spends_mono [of ?S "insert h ?S" w] unfolding books_ok_def by blast
  then show "books_ok w (insert h ?S) (?S - s_pending sc) (s_utxos ?sc) (s_balance ?sc)" by simp
  show "conflict_free w (insert h ?S)" using accepted_inputs [OF assms(1,2)] assms(5) by simp
  show "rejected_for_cause w (insert h ?S) (s_invalid ?sc)"
    using rejected_more [OF inv(9), of "insert h ?S"] by auto
  show "s_spent ?sc = spends w (insert h ?S)" using inv(4) by (simp add: spends_insert [OF assms(2)])
  show "\<forall>h \<in> s_pending ?sc. unconfirmed w h" using inv(3) assms(2,4) by (simp add: unconfirmed_def)
qed (use scan_invD [OF assms(1)] in auto)

lemma scan_valid:
  assumes "scan_inv w hs sc" "allTx w h = Some t" "h \<notin> set hs" "length (tx_outputs t) < 2 ^ 32"
    "\<not> (blockHeight t = TX_UNCONFIRMED \<and> invalid_inputs sc t)" "\<forall>u \<in> own_outpoints w (set hs). utxo_output w u \<noteq> None"
  defines "S \<equiv> s_spent sc \<union> set (map input_key (tx_inputs t))" and "us \<equiv> s_utxos sc @ new_outpoints w h 0 (tx_outputs t)"
  shows "\<exists>bal. remove_spent w S us (s_balance sc + new_amount w (tx_outputs t)) = Some (filter (\<lambda>u. u \<notin> S) us, bal) \<and>
    (\<forall>sc' :: scan. s_utxos sc' = filter (\<lambda>u. u \<notin> S) us \<and> s_balance sc' = bal \<and> s_spent sc' = S \<and> s_invalid sc' = s_invalid sc \<and>
     s_pending sc' = s_pending sc \<and> s_used sc' = s_used sc \<union> paid_addrs (tx_outputs t) \<and>
     length (s_hist sc') = Suc (length (s_hist sc)) \<longrightarrow> scan_inv w (hs @ [h]) sc')"
proof -
  note inv = scan_invD [OF assms(1)]
  note new = new_outpoints_ok [OF assms(2,4)]
  let ?T = "set hs - s_invalid sc" and ?V = "set hs - s_invalid sc - s_pending sc"
  have h: "h \<notin> s_invalid sc" "h \<notin> s_pending sc" using inv(1,2) assms(3) by auto
  have S: "S = spends w (insert h ?T)" using inv(4) by (simp add: S_def spends_insert [OF assms(2)])
  have own: "own_outpoints w (insert h ?V) = own_outpoints w ?V \<union> own_outpoints w {h}"
    using own_Un [of w ?V "{h}"] by simp
  have u: "set us \<subseteq> own_outpoints w (insert h ?V)" "own_outpoints w (insert h ?V) - S \<subseteq> set us" "distinct us"
  proof -
    have b: "distinct (s_utxos sc)" "set (s_utxos sc) \<subseteq> own_outpoints w ?V" "own_outpoints w ?V - spends w ?T \<subseteq> set (s_utxos sc)"
      using inv(5) unfolding books_ok_def by auto
    show "set us \<subseteq> own_outpoints w (insert h ?V)" using b(2) new(2) own by (auto simp: us_def)
    show "own_outpoints w (insert h ?V) - S \<subseteq> set us" using b(3) new(2) own inv(4) by (auto simp: us_def S_def)
    have "set (s_utxos sc) \<inter> own_outpoints w {h} = {}" using b(2) assms(3) by (auto dest!: own_fst subsetD [OF b(2)])
    then show "distinct us" using b(1) new(1,2) by (simp add: us_def)
  qed
  have "own_outpoints w (insert h ?V) \<subseteq> own_outpoints w (set hs) \<union> own_outpoints w {h}"
    unfolding own using own_mono [of ?V "set hs" w] by blast
  then have "\<forall>u \<in> set us. utxo_output w u \<noteq> None" using u(1) new(4) assms(6) by blast
  note r = remove_spent_filter [OF this, of S]
  let ?bal = "s_balance sc + new_amount w (tx_outputs t) - total_worth w (filter (\<lambda>u. u \<in> S) us)"
  have "s_balance sc + new_amount w (tx_outputs t) = total_worth w us"
    using inv(5) new(3) by (simp add: us_def books_ok_def)
  then have bal: "?bal = total_worth w (filter (\<lambda>u. u \<notin> S) us)" using total_worth_filter [of w us S] by simp
  have "spends w (insert h ?V) \<subseteq> S" unfolding S by (rule spends_mono) blast
  then have books: "books_ok w (insert h ?T) (insert h ?V) (filter (\<lambda>u. u \<notin> S) us) ?bal"
    unfolding books_ok_def bal using u S by auto
  show ?thesis
  proof (intro exI conjI allI impI)
    fix sc' :: scan
    assume a: "s_utxos sc' = filter (\<lambda>u. u \<notin> S) us \<and> s_balance sc' = ?bal \<and> s_spent sc' = S \<and> s_invalid sc' = s_invalid sc \<and>
     s_pending sc' = s_pending sc \<and> s_used sc' = s_used sc \<union> paid_addrs (tx_outputs t) \<and>
     length (s_hist sc') = Suc (length (s_hist sc))"
    show "scan_inv w (hs @ [h]) sc'"
    proof (rule scan_invI)
      show "set (hs @ [h]) - s_invalid sc' = insert h ?T" using a h by auto
      show "insert h ?T - s_pending sc' = insert h ?V" using a h by auto
      show "books_ok w (insert h ?T) (insert h ?V) (s_utxos sc') (s_balance sc')" using a books by simp
      show "s_used sc' = used_by w (insert h ?V)" using a inv(7) assms(2) by (auto simp: used_by_def)
      show "conflict_free w (insert h ?T)" by (rule accepted_inputs [OF assms(1,2,5)])
      show "rejected_for_cause w (insert h ?T) (s_invalid sc')"
        using a rejected_more [OF inv(9), of "insert h ?T"] by auto
    qed (use a inv S in auto)
  qed (rule r)
qed

lemma scan_step:
  assumes "store_ok w" "transactions w = hs @ h # rest" "scan_inv w hs sc"
  shows "\<exists>sc'. scan_tx w now h sc = Some sc' \<and> scan_inv w (hs @ [h]) sc'"
proof -
  from assms(1,2) obtain t where t: "allTx w h = Some t" "txHash t = h" "length (tx_outputs t) < 2 ^ 32" "h \<notin> set hs"
    by (auto simp: store_ok_def)
  let ?bad = "blockHeight t = TX_UNCONFIRMED \<and> invalid_inputs sc t"
  let ?sc = "sc\<lparr>s_spent := s_spent sc \<union> set (map input_key (tx_inputs t))\<rparr>"
  consider "?bad" | "\<not> ?bad" "blockHeight t = TX_UNCONFIRMED" "is_pending (chainHeight w) now ?sc t"
    | "\<not> ?bad" "\<not> (blockHeight t = TX_UNCONFIRMED \<and> is_pending (chainHeight w) now ?sc t)" by blast
  then show ?thesis
  proof cases
    case 1
    then show ?thesis using scan_invalid [OF assms(3) t(1,4)] by (simp add: scan_tx_def t(1))
  next
    case 2
    then show ?thesis using scan_pending [OF assms(3) t(1,4)] by (simp add: scan_tx_def t(1) Let_def)
  next
    case 3
    have "\<forall>u \<in> own_outpoints w (set hs). utxo_output w u \<noteq> None"
      using assms(1) by (auto simp: own_outpoints_def store_ok_def utxo_output_nth)
    from scan_valid [OF assms(3) t(1,4,3) 3(1) this] obtain bal where
      bal: "remove_spent w (s_spent sc \<union> set (map input_key (tx_inputs t))) (s_utxos sc @ new_outpoints w h 0 (tx_outputs t))
          (s_balance sc + new_amount w (tx_outputs t)) =
        Some (filter (\<lambda>u. u \<notin> s_spent sc \<union> set (map input_key (tx_inputs t)))
          (s_utxos sc @ new_outpoints w h 0 (tx_outputs t)), bal)"
      "\<And>sc'. s_utxos sc' = filter (\<lambda>u. u \<notin> s_spent sc \<union> set (map input_key (tx_inputs t)))
          (s_utxos sc @ new_outpoints w h 0 (tx_outputs t)) \<and> s_balance sc' = bal \<and>
        s_spent sc' = s_spent sc \<union> set (map input_key (tx_inputs t)) \<and> s_invalid sc' = s_invalid sc \<and>
        s_pending sc' = s_pending sc \<and> s_used sc' = s_used sc \<union> paid_addrs (tx_outputs t) \<and>
        length (s_hist sc') = Suc (length (s_hist sc)) \<Longrightarrow> scan_inv w (hs @ [h]) sc'"
      by blast
    have "\<exists>sc'. scan_tx w now h sc = Some sc' \<and>
        s_utxos sc' = filter (\<lambda>u. u \<notin> s_spent sc \<union> set (map input_key (tx_inputs t)))
          (s_utxos sc @ new_outpoints w h 0 (tx_outputs t)) \<and> s_balance sc' = bal \<and>
        s_spent sc' = s_spent sc \<union> set (map input_key (tx_inputs t)) \<and> s_invalid sc' = s_invalid sc \<and>
        s_pending sc' = s_pending sc \<and> s_used sc' = s_used sc \<union> paid_addrs (tx_outputs t) \<and>
        length (s_hist sc') = Suc (length (s_hist sc))"
      using bal(1) 3 by (simp add: scan_tx_def t(1,2) Let_def add_outputs) blast
    with bal(2) show ?thesis by blast
  qed
qed

lemma scan_empty: "scan_inv w [] empty_scan"
  by (rule scan_invI [of _ _ "{}" "{}"]) (auto simp: empty_scan_def books_ok_def used_by_def own_outpoints_def spends_def conflict_free_def
      rejected_for_cause_def)

section \<open>Marks, history and totals\<close>

text \<open>
  What \<open>_BRWalletUpdateBalance\<close> computes, said without its loop. The marks of a transaction depend on those in front
  of it in the list. The outputs that count after a transaction are the own outputs of the settled transactions so far, without those that
  settled or pending ones have spent; they are looked at again only when a settled one is processed, so pending
  transactions behind the last settled one are not considered.
\<close>

definition marks_ok :: "wallet \<Rightarrow> int \<Rightarrow> UInt256 list \<Rightarrow> UInt256 set \<Rightarrow> UInt256 set \<Rightarrow> bool" where
  "marks_ok w now hs X P \<longleftrightarrow> (\<forall>n < length hs. \<forall>t. allTx w (hs ! n) = Some t \<longrightarrow>
     (hs ! n \<in> X \<longleftrightarrow> blockHeight t = TX_UNCONFIRMED \<and>
        (\<exists>i \<in> set (tx_inputs t). input_key i \<in> spends w (set (take n hs) - X) \<or> in_hash i \<in> set (take n hs) \<inter> X)) \<and>
     (hs ! n \<in> P \<longleftrightarrow> hs ! n \<notin> X \<and> blockHeight t = TX_UNCONFIRMED \<and>
        (BRTransactionSize t > TX_MAX_SIZE \<or> (\<exists>out \<in> set (tx_outputs t). out_amount out < TX_MIN_OUTPUT_AMOUNT) \<or>
         (\<exists>i \<in> set (tx_inputs t). postdated (chainHeight w) now t i \<or> in_hash i \<in> set (take n hs) \<inter> P))))"

definition upto_last :: "UInt256 set \<Rightarrow> UInt256 list \<Rightarrow> UInt256 list" where
  "upto_last V hs = rev (dropWhile (\<lambda>h. h \<notin> V) (rev hs))"

definition funds :: "wallet \<Rightarrow> UInt256 set \<Rightarrow> UInt256 set \<Rightarrow> UInt256 list \<Rightarrow> utxo set" where
  "funds w V S hs = own_outpoints w (set (upto_last V hs) \<inter> V) - spends w (set (upto_last V hs) \<inter> S)"

definition funds_worth :: "wallet \<Rightarrow> UInt256 set \<Rightarrow> UInt256 set \<Rightarrow> UInt256 list \<Rightarrow> u64" where
  "funds_worth w V S hs = (\<Sum>u \<in> funds w V S hs. worth w u)"

definition worth_history :: "wallet \<Rightarrow> UInt256 set \<Rightarrow> UInt256 set \<Rightarrow> UInt256 list \<Rightarrow> u64 list" where
  "worth_history w V S hs = map (\<lambda>n. funds_worth w V S (take (Suc n) hs)) [0..<length hs]"

text \<open>The sums of the rises and of the falls of a history that starts from 0.\<close>

definition rises :: "u64 list \<Rightarrow> u64" where
  "rises bs = sum_list (map2 (\<lambda>a b. if a < b then b - a else 0) (0 # bs) bs)"

definition falls :: "u64 list \<Rightarrow> u64" where
  "falls bs = sum_list (map2 (\<lambda>a b. if b < a then a - b else 0) (0 # bs) bs)"

lemma zip_shift_snoc: "zip (a # bs @ [b]) (bs @ [b]) = zip (a # bs) bs @ [(last (a # bs), b)]"
  by (induction bs arbitrary: a) auto

lemma last_Cons_snoc: "last (a # bs @ [b]) = b"
  by simp

lemma rises_snoc: "rises (bs @ [b]) = rises bs + (if last (0 # bs) < b then b - last (0 # bs) else 0)"
  and falls_snoc: "falls (bs @ [b]) = falls bs + (if b < last (0 # bs) then last (0 # bs) - b else 0)"
  by (simp_all add: rises_def falls_def zip_shift_snoc del: last.simps zip_Cons_Cons)

lemma upto_last_snoc: "upto_last V (hs @ [h]) = (if h \<in> V then hs @ [h] else upto_last V hs)"
  by (simp add: upto_last_def)

lemma upto_last_subset: "set (upto_last V hs) \<subseteq> set hs"
  using set_dropWhileD [of _ "\<lambda>h. h \<notin> V" "rev hs"] by (auto simp: upto_last_def)

lemma upto_last_settled: "set (upto_last V hs) \<inter> V = set hs \<inter> V"
proof -
  have "set (rev hs) = set (takeWhile (\<lambda>h. h \<notin> V) (rev hs)) \<union> set (dropWhile (\<lambda>h. h \<notin> V) (rev hs))"
    by (simp only: takeWhile_dropWhile_id flip: set_append)
  then have "set hs = set (takeWhile (\<lambda>h. h \<notin> V) (rev hs)) \<union> set (upto_last V hs)" by (simp only: upto_last_def set_rev)
  moreover have "set (takeWhile (\<lambda>h. h \<notin> V) (rev hs)) \<inter> V = {}" by (auto dest: set_takeWhileD)
  ultimately show ?thesis by auto
qed

lemma upto_last_cong: "set hs \<inter> V' = set hs \<inter> V \<Longrightarrow> upto_last V' hs = upto_last V hs"
  unfolding upto_last_def by (intro arg_cong [where f = rev] dropWhile_cong) auto

lemma funds_cong:
  assumes "set hs \<inter> V' = set hs \<inter> V" "set hs \<inter> S' = set hs \<inter> S"
  shows "funds w V' S' hs = funds w V S hs"
proof -
  have "set (upto_last V hs) \<inter> A = set (upto_last V hs) \<inter> (set hs \<inter> A)" for A using upto_last_subset [of V hs] by auto
  then show ?thesis unfolding funds_def upto_last_cong [OF assms(1)] using assms by metis
qed

lemma worth_history_snoc:
  assumes "set hs \<inter> V' = set hs \<inter> V" "set hs \<inter> S' = set hs \<inter> S"
  shows "worth_history w V' S' (hs @ [h]) = worth_history w V S hs @ [funds_worth w V' S' (hs @ [h])]"
proof -
  have "funds w V' S' (take n hs) = funds w V S (take n hs)" for n
    using assms set_take_subset [of n hs] by (intro funds_cong) auto
  then show ?thesis by (simp add: worth_history_def funds_worth_def)
qed

lemma funds_same:
  assumes "h \<notin> V'" "set hs \<inter> V' = set hs \<inter> V" "set hs \<inter> S' = set hs \<inter> S"
  shows "funds w V' S' (hs @ [h]) = funds w V S hs"
  using funds_cong [OF assms(2,3)] assms(1) by (simp add: funds_def upto_last_snoc)

lemma funds_more:
  assumes "h \<notin> set hs" "V \<subseteq> set hs" "S \<subseteq> set hs"
  shows "funds w (insert h V) (insert h S) (hs @ [h]) = (funds w V S hs \<union> own_outpoints w {h}) - spends w (insert h S)"
proof -
  have "set (hs @ [h]) \<inter> insert h V = V \<union> {h}" "set (hs @ [h]) \<inter> insert h S = insert h S" using assms by auto
  moreover have "set (upto_last V hs) \<inter> V = V" using upto_last_settled [of V hs] assms(2) by auto
  moreover have "spends w (set (upto_last V hs) \<inter> S) \<subseteq> spends w (insert h S)" by (intro spends_mono) auto
  ultimately show ?thesis unfolding funds_def upto_last_snoc using own_Un [of w V "{h}"] by (simp only: insertI1 if_True) blast
qed

lemma marks_snoc:
  assumes "marks_ok w now hs X P" "h \<notin> set hs" "set hs \<inter> X' = set hs \<inter> X" "set hs \<inter> P' = set hs \<inter> P" "allTx w h = Some t"
    and "h \<in> X' \<longleftrightarrow> blockHeight t = TX_UNCONFIRMED \<and>
      (\<exists>i \<in> set (tx_inputs t). input_key i \<in> spends w (set hs - X) \<or> in_hash i \<in> set hs \<inter> X)"
    and "h \<in> P' \<longleftrightarrow> h \<notin> X' \<and> blockHeight t = TX_UNCONFIRMED \<and>
      (BRTransactionSize t > TX_MAX_SIZE \<or> (\<exists>out \<in> set (tx_outputs t). out_amount out < TX_MIN_OUTPUT_AMOUNT) \<or>
       (\<exists>i \<in> set (tx_inputs t). postdated (chainHeight w) now t i \<or> in_hash i \<in> set hs \<inter> P))"
  shows "marks_ok w now (hs @ [h]) X' P'"
  unfolding marks_ok_def
proof (intro allI impI)
  fix n p
  assume n: "n < length (hs @ [h])" and p: "allTx w ((hs @ [h]) ! n) = Some p"
  let ?A = "set (take n hs)"
  have sub: "?A \<subseteq> set hs" by (rule set_take_subset)
  have eq: "?A - X' = ?A - X" "?A \<inter> X' = ?A \<inter> X" "?A \<inter> P' = ?A \<inter> P" using sub assms(3,4) by blast+
  show "((hs @ [h]) ! n \<in> X' \<longleftrightarrow> blockHeight p = TX_UNCONFIRMED \<and>
        (\<exists>i \<in> set (tx_inputs p). input_key i \<in> spends w (set (take n (hs @ [h])) - X') \<or> in_hash i \<in> set (take n (hs @ [h])) \<inter> X')) \<and>
     ((hs @ [h]) ! n \<in> P' \<longleftrightarrow> (hs @ [h]) ! n \<notin> X' \<and> blockHeight p = TX_UNCONFIRMED \<and>
        (BRTransactionSize p > TX_MAX_SIZE \<or> (\<exists>out \<in> set (tx_outputs p). out_amount out < TX_MIN_OUTPUT_AMOUNT) \<or>
         (\<exists>i \<in> set (tx_inputs p). postdated (chainHeight w) now p i \<or> in_hash i \<in> set (take n (hs @ [h])) \<inter> P')))"
  proof (cases "n < length hs")
    case True
    then have i: "hs ! n \<in> set hs" by simp
    then have "hs ! n \<in> X' \<longleftrightarrow> hs ! n \<in> X" "hs ! n \<in> P' \<longleftrightarrow> hs ! n \<in> P" using assms(3,4) by blast+
    then show ?thesis using assms(1) True p unfolding marks_ok_def by (simp add: nth_append eq)
  next
    case False
    then have "n = length hs" using n by simp
    then show ?thesis using p assms(5-7) eq by simp
  qed
qed

definition scan_exact :: "wallet \<Rightarrow> int \<Rightarrow> UInt256 list \<Rightarrow> scan \<Rightarrow> bool" where
  "scan_exact w now hs sc \<longleftrightarrow>
     (let S = set hs - s_invalid sc; V = S - s_pending sc in
      marks_ok w now hs (s_invalid sc) (s_pending sc) \<and> set (s_utxos sc) = funds w V S hs \<and>
      s_hist sc = worth_history w V S hs \<and> s_prev sc = s_balance sc \<and> last (0 # s_hist sc) = s_balance sc \<and>
      s_received sc = rises (s_hist sc) \<and> s_sent sc = falls (s_hist sc))"

lemma scan_exact_empty: "scan_exact w now [] empty_scan"
  by (simp add: scan_exact_def empty_scan_def marks_ok_def funds_def upto_last_def own_outpoints_def worth_history_def rises_def falls_def)

text \<open>An entry that repeats the balance adds nothing to the totals.\<close>

lemma scan_exact_skip:
  assumes "scan_exact w now hs sc" "scan_inv w hs sc" "h \<notin> set hs"
    and "set hs - s_invalid sc' = set hs - s_invalid sc" "set hs - s_pending sc' = set hs - s_pending sc"
      "h \<in> s_invalid sc' \<or> h \<in> s_pending sc'" "marks_ok w now (hs @ [h]) (s_invalid sc') (s_pending sc')"
    and "s_utxos sc' = s_utxos sc" "s_balance sc' = s_balance sc" "s_prev sc' = s_prev sc" "s_hist sc' = s_hist sc @ [s_balance sc]"
      "s_received sc' = s_received sc" "s_sent sc' = s_sent sc"
  shows "scan_exact w now (hs @ [h]) sc'"
proof -
  let ?S = "set hs - s_invalid sc" and ?V = "set hs - s_invalid sc - s_pending sc"
  let ?S' = "set (hs @ [h]) - s_invalid sc'" and ?V' = "set (hs @ [h]) - s_invalid sc' - s_pending sc'"
  have c: "h \<notin> ?V'" "set hs \<inter> ?V' = set hs \<inter> ?V" "set hs \<inter> ?S' = set hs \<inter> ?S" using assms(3-6) by auto
  have e: "set (s_utxos sc) = funds w ?V ?S hs" "s_hist sc = worth_history w ?V ?S hs" "s_prev sc = s_balance sc"
    "last (0 # s_hist sc) = s_balance sc" "s_received sc = rises (s_hist sc)" "s_sent sc = falls (s_hist sc)"
    using assms(1) unfolding scan_exact_def Let_def by blast+
  note f = funds_same [OF c, of w]
  have "s_balance sc = total_worth w (s_utxos sc)" "distinct (s_utxos sc)"
    using scan_invD(5) [OF assms(2)] by (simp_all add: books_ok_def)
  then have b: "s_balance sc = funds_worth w ?V' ?S' (hs @ [h])"
    unfolding funds_worth_def f e(1) [symmetric] by (simp add: total_worth_def sum_list_distinct_conv_sum_set)
  show ?thesis
    unfolding scan_exact_def Let_def
    using assms(7-) e f b worth_history_snoc [OF c(2,3), of w h] by (simp add: rises_snoc falls_snoc last_Cons_snoc del: last.simps)
qed

lemma invalid_inputs_iff:
  assumes "scan_inv w hs sc"
  shows "invalid_inputs sc t \<longleftrightarrow>
    (\<exists>i \<in> set (tx_inputs t). input_key i \<in> spends w (set hs - s_invalid sc) \<or> in_hash i \<in> set hs \<inter> s_invalid sc)"
  using scan_invD(1,4) [OF assms] by (auto simp: invalid_inputs_def list_ex_iff)

lemma is_pending_iff:
  assumes "scan_inv w hs sc" "s_pending sc' = s_pending sc"
  shows "is_pending height now sc' t \<longleftrightarrow>
    BRTransactionSize t > TX_MAX_SIZE \<or> (\<exists>out \<in> set (tx_outputs t). out_amount out < TX_MIN_OUTPUT_AMOUNT) \<or>
    (\<exists>i \<in> set (tx_inputs t). postdated height now t i \<or> in_hash i \<in> set hs \<inter> s_pending sc)"
  using scan_invD(2) [OF assms(1)] assms(2) by (auto simp: is_pending_def list_ex_iff)

text \<open>A settled transaction.\<close>

lemma scan_exact_settled:
  assumes "scan_exact w now hs sc" "scan_inv w hs sc" "h \<notin> set hs" "allTx w h = Some t" "length (tx_outputs t) < 2 ^ 32"
    and "s_invalid sc' = s_invalid sc" "s_pending sc' = s_pending sc" "marks_ok w now (hs @ [h]) (s_invalid sc) (s_pending sc)"
      "s_utxos sc' = filter (\<lambda>u. u \<notin> s_spent sc') (s_utxos sc @ new_outpoints w h 0 (tx_outputs t))"
      "s_hist sc' = s_hist sc @ [s_balance sc']" "s_prev sc' = s_balance sc'"
      "s_received sc' = (if s_prev sc < s_balance sc' then s_received sc + (s_balance sc' - s_prev sc) else s_received sc)"
      "s_sent sc' = (if s_balance sc' < s_prev sc then s_sent sc + (s_prev sc - s_balance sc') else s_sent sc)"
    and "scan_inv w (hs @ [h]) sc'"
  shows "scan_exact w now (hs @ [h]) sc'"
proof -
  let ?S = "set hs - s_invalid sc" and ?V = "set hs - s_invalid sc - s_pending sc"
  have h: "h \<notin> s_invalid sc" "h \<notin> s_pending sc" using scan_invD(1,2) [OF assms(2)] assms(3) by auto
  have S': "set (hs @ [h]) - s_invalid sc' = insert h ?S" "insert h ?S - s_pending sc' = insert h ?V" using h assms(6,7) by auto
  have c: "set hs \<inter> insert h ?V = set hs \<inter> ?V" "set hs \<inter> insert h ?S = set hs \<inter> ?S" using assms(3) by auto
  have e: "set (s_utxos sc) = funds w ?V ?S hs" "s_hist sc = worth_history w ?V ?S hs" "s_prev sc = s_balance sc"
    "last (0 # s_hist sc) = s_balance sc" "s_received sc = rises (s_hist sc)" "s_sent sc = falls (s_hist sc)"
    using assms(1) unfolding scan_exact_def Let_def by blast+
  have spent: "s_spent sc' = spends w (insert h ?S)" using scan_invD(4) [OF assms(14)] S'(1) by simp
  have "funds w (insert h ?V) (insert h ?S) (hs @ [h]) = (funds w ?V ?S hs \<union> own_outpoints w {h}) - spends w (insert h ?S)"
    by (rule funds_more [OF assms(3)]) auto
  then have u: "set (s_utxos sc') = funds w (insert h ?V) (insert h ?S) (hs @ [h])"
    unfolding assms(9) spent using e(1) new_outpoints_ok(2) [OF assms(4,5)] by auto
  have "s_balance sc' = total_worth w (s_utxos sc')" "distinct (s_utxos sc')"
    using scan_invD(5) [OF assms(14)] by (simp_all add: books_ok_def)
  then have b: "s_balance sc' = funds_worth w (insert h ?V) (insert h ?S) (hs @ [h])"
    unfolding funds_worth_def u [symmetric] by (simp add: total_worth_def sum_list_distinct_conv_sum_set)
  show ?thesis
    unfolding scan_exact_def Let_def S' worth_history_snoc [OF c]
    using assms(6-8,10-13) e(2-) u b by (simp add: rises_snoc falls_snoc last_Cons_snoc del: last.simps)
qed

lemma scan_tx_settled:
  assumes "allTx w h = Some t" "txHash t = h" "\<not> (blockHeight t = TX_UNCONFIRMED \<and> invalid_inputs sc t)"
    "\<not> (blockHeight t = TX_UNCONFIRMED \<and> is_pending (chainHeight w) now (sc\<lparr>s_spent := S\<rparr>) t)"
    "S = s_spent sc \<union> set (map input_key (tx_inputs t))"
    "remove_spent w S (s_utxos sc @ new_outpoints w h 0 (tx_outputs t)) (s_balance sc + new_amount w (tx_outputs t)) = Some (us, bal)"
  shows "scan_tx w now h sc = Some (sc\<lparr>s_spent := S, s_used := s_used sc \<union> paid_addrs (tx_outputs t),
    s_utxos := us, s_balance := bal,
    s_received := (if s_prev sc < bal then s_received sc + (bal - s_prev sc) else s_received sc),
    s_sent := (if bal < s_prev sc then s_sent sc + (s_prev sc - bal) else s_sent sc),
    s_hist := s_hist sc @ [bal], s_prev := bal\<rparr>)"
  unfolding scan_tx_def assms(1) Let_def Option.bind.simps assms(5) [symmetric] if_not_P [OF assms(3)] if_not_P [OF assms(4)]
  by (simp add: add_outputs assms(2,6) cong: if_cong split del: if_split)

lemma scan_exact_step:
  assumes "store_ok w" "transactions w = hs @ h # rest" "scan_inv w hs sc" "scan_exact w now hs sc"
    "scan_tx w now h sc = Some sc'" "scan_inv w (hs @ [h]) sc'"
  shows "scan_exact w now (hs @ [h]) sc'"
proof -
  from assms(1,2) obtain t where t: "allTx w h = Some t" "txHash t = h" "length (tx_outputs t) < 2 ^ 32" "h \<notin> set hs"
    by (auto simp: store_ok_def)
  let ?spent = "s_spent sc \<union> set (map input_key (tx_inputs t))"
  let ?sc = "sc\<lparr>s_spent := ?spent\<rparr>"
  note inv = scan_invD [OF assms(3)]
  have h: "h \<notin> s_invalid sc" "h \<notin> s_pending sc" using inv(1,2) t(4) by auto
  have marks: "marks_ok w now hs (s_invalid sc) (s_pending sc)" using assms(4) by (simp add: scan_exact_def Let_def)
  note bad = invalid_inputs_iff [OF assms(3), of t] and pend = is_pending_iff [OF assms(3), of ?sc "chainHeight w" now t]
  consider "blockHeight t = TX_UNCONFIRMED" "invalid_inputs sc t"
    | "\<not> (blockHeight t = TX_UNCONFIRMED \<and> invalid_inputs sc t)" "blockHeight t = TX_UNCONFIRMED" "is_pending (chainHeight w) now ?sc t"
    | "\<not> (blockHeight t = TX_UNCONFIRMED \<and> invalid_inputs sc t)" "\<not> (blockHeight t = TX_UNCONFIRMED \<and> is_pending (chainHeight w) now ?sc t)"
    by blast
  then show ?thesis
  proof cases
    case 1
    then have sc': "sc' = sc\<lparr>s_invalid := insert h (s_invalid sc), s_hist := s_hist sc @ [s_balance sc]\<rparr>"
      using assms(5) t(1) by (simp add: scan_tx_def)
    have "marks_ok w now (hs @ [h]) (s_invalid sc') (s_pending sc')"
      by (rule marks_snoc [OF marks t(4) _ _ t(1)]) (use 1 bad h t(4) in \<open>auto simp: sc'\<close>)
    then show ?thesis
      by (intro scan_exact_skip [OF assms(4,3) t(4)]) (use t(4) in \<open>auto simp: sc'\<close>)
  next
    case 2
    then have sc': "sc' = sc\<lparr>s_spent := ?spent, s_pending := insert h (s_pending sc), s_hist := s_hist sc @ [s_balance sc]\<rparr>"
      using assms(5) t(1) by (simp add: scan_tx_def Let_def)
    have "marks_ok w now (hs @ [h]) (s_invalid sc') (s_pending sc')"
      by (rule marks_snoc [OF marks t(4) _ _ t(1)]) (use 2 bad pend h t(4) in \<open>auto simp: sc'\<close>)
    then show ?thesis
      by (intro scan_exact_skip [OF assms(4,3) t(4)]) (use t(4) in \<open>auto simp: sc'\<close>)
  next
    case 3
    have "own_outpoints w (set hs - s_invalid sc - s_pending sc) \<subseteq> own_outpoints w (set (transactions w))"
      using assms(2) by (intro own_mono) auto
    then have "\<forall>u \<in> set (s_utxos sc @ new_outpoints w h 0 (tx_outputs t)). utxo_output w u \<noteq> None"
      using assms(1) inv(5) new_outpoints_ok(2,4) [OF t(1,3)]
      by (auto simp: books_ok_def own_outpoints_def store_ok_def utxo_output_nth dest!: subsetD)
    note r = remove_spent_filter [OF this, of ?spent]
    have m: "marks_ok w now (hs @ [h]) (s_invalid sc) (s_pending sc)"
      by (rule marks_snoc [OF marks t(4) _ _ t(1)]) (use 3 bad pend h in auto)
    let ?us = "s_utxos sc @ new_outpoints w h 0 (tx_outputs t)"
    define bal where "bal = s_balance sc + new_amount w (tx_outputs t) - total_worth w (filter (\<lambda>u. u \<in> ?spent) ?us)"
    have r: "remove_spent w ?spent ?us (s_balance sc + new_amount w (tx_outputs t)) = Some (filter (\<lambda>u. u \<notin> ?spent) ?us, bal)"
      unfolding bal_def by (rule r)
    have sc': "sc' = sc\<lparr>s_spent := ?spent, s_used := s_used sc \<union> paid_addrs (tx_outputs t),
        s_utxos := filter (\<lambda>u. u \<notin> ?spent) ?us, s_balance := bal,
        s_received := (if s_prev sc < bal then s_received sc + (bal - s_prev sc) else s_received sc),
        s_sent := (if bal < s_prev sc then s_sent sc + (s_prev sc - bal) else s_sent sc),
        s_hist := s_hist sc @ [bal], s_prev := bal\<rparr>"
      using assms(5) scan_tx_settled [OF t(1,2) 3 refl r] by (simp only: option.inject)
    show ?thesis
      by (rule scan_exact_settled [OF assms(4,3) t(4,1,3) _ _ m _ _ _ _ _ assms(6)]) (simp_all add: sc' del: filter_append)
  qed
qed

lemma UpdateBalance_exact:
  assumes "store_ok w"
  shows "\<exists>sc. UpdateBalance now w = Some (w\<lparr>balance := s_balance sc, totalSent := s_sent sc, totalReceived := s_received sc,
      balanceHist := s_hist sc, utxos := s_utxos sc, spentOutputs := s_spent sc, invalidTx := s_invalid sc,
      pendingTx := s_pending sc, usedAddrs := s_used sc\<rparr>) \<and> scan_inv w (transactions w) sc \<and> scan_exact w now (transactions w) sc"
proof -
  let ?I = "\<lambda>hs sc. scan_inv w hs sc \<and> scan_exact w now hs sc"
  have "\<exists>sc. fold_option (scan_tx w now) (transactions w) empty_scan = Some sc \<and> ?I (transactions w) sc"
  proof (rule fold_option_prefix [of ?I])
    show "?I [] empty_scan" using scan_empty scan_exact_empty by blast
    fix hs h rest sc assume "transactions w = hs @ h # rest" "?I hs sc"
    then show "\<exists>sc'. scan_tx w now h sc = Some sc' \<and> ?I (hs @ [h]) sc'"
      using scan_step [OF assms, of hs h rest sc now] scan_exact_step [OF assms, of hs h rest sc now] by blast
  qed
  then obtain sc where sc: "fold_option (scan_tx w now) (transactions w) empty_scan = Some sc" "?I (transactions w) sc" by blast
  then have "length (s_hist sc) = length (transactions w)" using scan_invD(6) by blast
  with sc show ?thesis by (auto simp: UpdateBalance_def)
qed

lemma UpdateBalance_books:
  assumes "store_ok w"
  shows "\<exists>sc. UpdateBalance now w = Some (w\<lparr>balance := s_balance sc, totalSent := s_sent sc, totalReceived := s_received sc,
      balanceHist := s_hist sc, utxos := s_utxos sc, spentOutputs := s_spent sc, invalidTx := s_invalid sc,
      pendingTx := s_pending sc, usedAddrs := s_used sc\<rparr>) \<and> scan_inv w (transactions w) sc"
  using UpdateBalance_exact [OF assms, of now] by blast

text \<open>
  C3: the balance. The marks: going through the list, a transaction is invalid exactly when it is unconfirmed and has an input that one
  in front of it, not invalid itself, has spent, or that is an output of an invalid one in front of it; it is pending exactly when it is not invalid, unconfirmed, and too
  large, with an output below the minimum, or with an input that is postdated or an output of a pending one in front of it. All others are
  settled. Two unconfirmed ones that are not invalid never spend the same output.
  The unspent outputs are, without repetition, the outputs of settled transactions to wallet addresses that no settled transaction spends and no pending
  one in front of the last settled one does. The balance is what they are worth, the history has for every transaction what
  the unspent outputs are worth after it, and the totals are the sums of the rises and of the falls of the history; all modulo \<open>2 ^ 64\<close>.
  The used addresses are those that settled transactions pay to. No other field changes.
\<close>

theorem update_balance_spec:
  assumes "store_ok w"
  shows "\<exists>w'. UpdateBalance now w = Some w' \<and>
    (let hs = transactions w; counted = set hs - invalidTx w'; settled = counted - pendingTx w' in
       invalidTx w' \<subseteq> set hs \<and> pendingTx w' \<subseteq> counted \<and> marks_ok w now hs (invalidTx w') (pendingTx w') \<and>
       conflict_free w counted \<and> spentOutputs w' = spends w counted \<and>
       distinct (utxos w') \<and> set (utxos w') = funds w settled counted hs \<and>
       set (utxos w') \<subseteq> own_outpoints w settled - spends w settled \<and>
       own_outpoints w settled - spends w counted \<subseteq> set (utxos w') \<and>
       balance w' = funds_worth w settled counted hs \<and> balanceHist w' = worth_history w settled counted hs \<and>
       totalReceived w' = rises (balanceHist w') \<and> totalSent w' = falls (balanceHist w') \<and>
       usedAddrs w' = used_by w settled) \<and>
    w' = w\<lparr>balance := balance w', totalSent := totalSent w', totalReceived := totalReceived w', balanceHist := balanceHist w',
      utxos := utxos w', spentOutputs := spentOutputs w', invalidTx := invalidTx w', pendingTx := pendingTx w',
      usedAddrs := usedAddrs w'\<rparr>"
proof -
  obtain sc where sc: "UpdateBalance now w = Some (w\<lparr>balance := s_balance sc, totalSent := s_sent sc,
      totalReceived := s_received sc, balanceHist := s_hist sc, utxos := s_utxos sc, spentOutputs := s_spent sc,
      invalidTx := s_invalid sc, pendingTx := s_pending sc, usedAddrs := s_used sc\<rparr>)" "scan_inv w (transactions w) sc"
    "scan_exact w now (transactions w) sc"
    using UpdateBalance_exact [OF assms] by blast
  note inv = scan_invD [OF sc(2), unfolded books_ok_def] and exact = sc(3) [unfolded scan_exact_def Let_def]
  have "s_balance sc = funds_worth w (set (transactions w) - s_invalid sc - s_pending sc) (set (transactions w) - s_invalid sc) (transactions w)"
    using inv(5) exact by (simp add: funds_worth_def total_worth_def sum_list_distinct_conv_sum_set)
  then show ?thesis using inv exact unfolding sc(1) Let_def by simp
qed

text \<open>A wallet with one address, a confirmed payment to it, and a replaceable transaction that spends the payment.\<close>

definition sample_input :: "UInt256 \<Rightarrow> u32 \<Rightarrow> txin" where
  "sample_input h q = \<lparr>in_hash = h, in_index = 0, in_address = [], in_amount = 0, in_script = None,
     in_signature = Some [1], in_sequence = q\<rparr>"

definition sample_payment :: tx where
  "sample_payment = \<lparr>txHash = 5, tx_version = 1, tx_inputs = [sample_input 3 0xffffffff],
     tx_outputs = [\<lparr>out_address = [65], out_amount = 1000, out_script = Some []\<rparr>], lockTime = 0, blockHeight = 100,
     tx_timestamp = 0\<rparr>"

definition sample_spend :: tx where
  "sample_spend = \<lparr>txHash = 6, tx_version = 1, tx_inputs = [sample_input 5 0],
     tx_outputs = [\<lparr>out_address = [66], out_amount = 900, out_script = Some []\<rparr>], lockTime = 0,
     blockHeight = TX_UNCONFIRMED, tx_timestamp = 0\<rparr>"

definition sample_wallet :: wallet where
  "sample_wallet = empty_wallet\<lparr>allTx := [5 \<mapsto> sample_payment, 6 \<mapsto> sample_spend], transactions := [5, 6],
     externalChain := [[65]], allAddrs := {addr_key [65]}\<rparr>"

lemmas sample_defs = sample_wallet_def sample_payment_def sample_spend_def sample_input_def

lemma sample_store_ok: "store_ok sample_wallet"
  by (auto simp: store_ok_def sample_defs empty_wallet_def)

lemma update_balance_spec_witness:
  "\<exists>w. UpdateBalance 0 sample_wallet = Some w \<and> pendingTx w = {6} \<and> invalidTx w = {} \<and> utxos w = [(5, 0)] \<and>
     funds sample_wallet {5} {5, 6} [5, 6] = {(5, 0)} \<and> worth_history sample_wallet {5} {5, 6} [5, 6] = [1000, 1000] \<and>
     totalReceived w = 1000 \<and> totalSent w = 0"
proof -
  obtain w where w: "UpdateBalance 0 sample_wallet = Some w" "pendingTx w = {6}" "invalidTx w = {}" "utxos w = [(5, 0)]"
    "balanceHist w = [1000, 1000]"
    by (simp add: UpdateBalance_def scan_tx_def sample_defs empty_wallet_def empty_scan_def invalid_inputs_def add_output_def
        wallet_addr_def input_key_def TX_UNCONFIRMED_def is_pending_def postdated_def)
  have "transactions sample_wallet = [5, 6]" "set [5, 6] - {} = {5, 6 :: UInt256}" "{5, 6} - {6} = {5 :: UInt256}"
    by (auto simp: sample_wallet_def)
  with update_balance_spec [OF sample_store_ok, of 0] w show ?thesis by (simp add: Let_def rises_def falls_def)
qed

text \<open>
  C36: outputs are taken off the list of unspent outputs only while a settled transaction is processed. A
  replaceable transaction that comes last, as a new one does, is marked as pending and its inputs as
  spent, but the outputs it spends stay in the list and in the balance: both are the ones without the transaction.
\<close>

theorem pending_spend_listed:
  assumes "store_ok w" "transactions w = hs @ [p]" "allTx w p = Some t" "blockHeight t = TX_UNCONFIRMED"
    "i \<in> set (tx_inputs t)" "in_sequence i < 0xfffffffe"
  shows "\<exists>w1 w2. UpdateBalance now (w\<lparr>transactions := hs\<rparr>) = Some w1 \<and> UpdateBalance now w = Some w2 \<and>
    utxos w2 = utxos w1 \<and> balance w2 = balance w1"
proof -
  let ?w = "w\<lparr>transactions := hs\<rparr>"
  have ok: "store_ok ?w" using assms(1,2) by (auto simp: store_ok_def)
  obtain sc where sc: "fold_option (scan_tx ?w now) hs empty_scan = Some sc" "scan_inv ?w hs sc"
    using fold_option_prefix [of "scan_inv ?w" empty_scan hs "scan_tx ?w now"] scan_empty scan_step [OF ok] by force
  have same: "scan_tx ?w now = scan_tx w now"
  proof -
    have "add_output ?w = add_output w" "utxo_output ?w = utxo_output w"
      by (intro ext, simp add: add_output_def wallet_addr_def utxo_output_def split: prod.split)+
    moreover from this have "remove_spent ?w S us bal = remove_spent w S us bal" for S us bal
      by (induction us) (simp_all cong: if_cong)
    ultimately show ?thesis by (intro ext) (simp add: scan_tx_def cong: if_cong)
  qed
  have pend: "is_pending (chainHeight w) now sc' t" for sc'
    using assms(5,6) by (auto simp: is_pending_def postdated_def list_ex_iff)
  have "\<exists>sc'. scan_tx w now p sc = Some sc' \<and> s_utxos sc' = s_utxos sc \<and> s_balance sc' = s_balance sc \<and>
      length (s_hist sc') = Suc (length (s_hist sc))"
    using assms(3,4) pend by (simp add: scan_tx_def Let_def)
  moreover have "length (s_hist sc) = length hs" using scan_invD(6) [OF sc(2)] .
  ultimately show ?thesis
    using sc(1) assms(2) by (auto simp: UpdateBalance_def same fold_option_append)
qed

lemma pending_spend_listed_witness:
  "\<exists>w1 w2. UpdateBalance 0 (sample_wallet\<lparr>transactions := [5]\<rparr>) = Some w1 \<and> UpdateBalance 0 sample_wallet = Some w2 \<and>
     utxos w2 = utxos w1 \<and> balance w2 = balance w1 \<and> utxos w1 = [(5, 0)] \<and> balance w1 = 1000 \<and> (5, 0) \<in> spends sample_wallet {6}"
proof -
  have "\<exists>w1. UpdateBalance 0 (sample_wallet\<lparr>transactions := [5]\<rparr>) = Some w1 \<and> utxos w1 = [(5, 0)] \<and> balance w1 = 1000"
    by (simp add: UpdateBalance_def scan_tx_def sample_defs empty_wallet_def empty_scan_def invalid_inputs_def add_output_def
        wallet_addr_def input_key_def TX_UNCONFIRMED_def)
  moreover have "(5, 0) \<in> spends sample_wallet {6}" by (auto simp: spends_def sample_defs input_key_def)
  moreover have "\<exists>w1 w2. UpdateBalance 0 (sample_wallet\<lparr>transactions := [5]\<rparr>) = Some w1 \<and>
      UpdateBalance 0 sample_wallet = Some w2 \<and> utxos w2 = utxos w1 \<and> balance w2 = balance w1"
    by (rule pending_spend_listed [OF sample_store_ok, where p = 6 and t = sample_spend and i = "sample_input 5 0"])
      (simp_all add: sample_defs)
  ultimately show ?thesis by auto
qed

end
