(* ===== verification/WalletChains.thy ===== *)
theory WalletChains
  imports WalletBalance
begin

text \<open>
  The address chains: \<open>BRWalletUnusedAddrs\<close> ends and leaves enough unused addresses at the end of the chain, when the derivation of
  addresses gives a new address for every index that is not hardened, as BIP32 does up to
  collisions of a hash.
\<close>

definition addr_at :: "(u32 \<Rightarrow> byte list option) \<Rightarrow> nat \<Rightarrow> byte list" where
  "addr_at der n = the (der (of_nat n))"

text \<open>Addresses are derived for all indices that are not hardened, and are not empty and all different.\<close>

definition derives_all :: "(u32 \<Rightarrow> byte list option) \<Rightarrow> bool" where
  "derives_all der \<longleftrightarrow> (\<forall>n < 2 ^ 31. \<exists>a. der (of_nat n) = Some a \<and> a \<noteq> []) \<and>
     inj_on (\<lambda>n. addr_key (addr_at der n)) {..<2 ^ 31}"

text \<open>The indices from \<open>n\<close> on whose addresses are used.\<close>

definition used_indices :: "(u32 \<Rightarrow> byte list option) \<Rightarrow> byte list set \<Rightarrow> nat \<Rightarrow> nat set" where
  "used_indices der taken n = {k. n \<le> k \<and> k < 2 ^ 31 \<and> addr_key (addr_at der k) \<in> taken}"

lemma finite_used_indices [simp]: "finite (used_indices der taken n)"
  by (rule finite_subset [of _ "{..<2 ^ 31}"]) (auto simp: used_indices_def)

lemma used_indices_card:
  assumes "derives_all der" "finite taken"
  shows "card (used_indices der taken n) \<le> card taken"
proof (rule card_inj_on_le [OF _ _ assms(2)])
  show "inj_on (\<lambda>k. addr_key (addr_at der k)) (used_indices der taken n)"
    by (rule inj_on_subset [of _ "{..<2 ^ 31}"]) (use assms(1) in \<open>auto simp: derives_all_def used_indices_def\<close>)
  show "(\<lambda>k. addr_key (addr_at der k)) ` used_indices der taken n \<subseteq> taken" by (auto simp: used_indices_def)
qed

lemma used_indices_Suc:
  "n < 2 ^ 31 \<Longrightarrow> addr_key (addr_at der n) \<in> taken \<Longrightarrow>
   card (used_indices der taken n) = Suc (card (used_indices der taken (Suc n)))"
proof -
  assume "n < 2 ^ 31" "addr_key (addr_at der n) \<in> taken"
  then have "used_indices der taken n = insert n (used_indices der taken (Suc n))"
    by (auto simp: used_indices_def Suc_le_eq le_less)
  moreover have "n \<notin> used_indices der taken (Suc n)" by (simp add: used_indices_def)
  ultimately show ?thesis by simp
qed

lemma used_indices_mono: "card (used_indices der taken (Suc n)) \<le> card (used_indices der taken n)"
  by (rule card_mono) (auto simp: used_indices_def)

text \<open>
  The extension of a chain: it is the derived addresses up to some length, the part from \<open>i\<close> on has no used address and
  is as long as the gap limit.
\<close>

lemma extend_chain_ends:
  assumes "derives_all der" "i \<le> length chain" "\<forall>k. i \<le> k \<and> k < length chain \<longrightarrow> addr_key (chain ! k) \<notin> taken"
    "i + gap + card (used_indices der taken (length chain)) * gap < 2 ^ 31" "0 < gap" "length chain < 2 ^ 31"
  shows "\<exists>n i'. extend_chain der taken gap chain i = Some (chain @ map (addr_at der) [length chain..<n], i') \<and>
    length chain \<le> n \<and> i' + gap \<le> n \<and> i \<le> i' \<and> n < 2 ^ 31 \<and>
    (\<forall>k. i' \<le> k \<and> k < n \<longrightarrow> addr_key ((chain @ map (addr_at der) [length chain..<n]) ! k) \<notin> taken)"
  using assms(2-4,6)
proof (induction "i + gap + card (used_indices der taken (length chain)) * gap - length chain" arbitrary: chain i rule: less_induct)
  case less
  show ?case
  proof (cases "i + gap > length chain")
    case False
    have "extend_chain der taken gap chain i = Some (chain, i)" using False by (simp add: extend_chain.simps)
    then show ?thesis using less.prems False by (intro exI [of _ "length chain"] exI [of _ i]) auto
  next
    case True
    define l a where "l = length chain" and "a = addr_at der l"
    have l: "l < 2 ^ 31" using less.prems by (simp add: l_def)
    have a: "der (of_nat l) = Some a" "a \<noteq> []"
      using assms(1) l by (auto simp: derives_all_def a_def addr_at_def)
    define i2 where "i2 = (if addr_key a \<in> taken then l + 1 else i)"
    let ?c = "chain @ [a]" and ?m = "\<lambda>n. card (used_indices der taken n)"
    have step: "extend_chain der taken gap chain i = extend_chain der taken gap ?c i2"
      using True a by (subst extend_chain.simps) (simp add: l_def i2_def)
    have m: "i2 + gap + ?m (Suc l) * gap \<le> i + gap + ?m l * gap"
    proof (cases "addr_key a \<in> taken")
      case True
      then have "?m l = Suc (?m (Suc l))" using used_indices_Suc [OF l] by (simp add: a_def)
      then show ?thesis using True \<open>i + gap > length chain\<close> by (simp add: i2_def l_def)
    next
      case False
      then show ?thesis using used_indices_mono [of der taken l] by (simp add: i2_def)
    qed
    have len: "length ?c = Suc l" by (simp add: l_def)
    have lt: "l < i + gap + ?m l * gap" using True by (simp add: l_def)
    have "\<exists>n i'. extend_chain der taken gap ?c i2 = Some (?c @ map (addr_at der) [length ?c..<n], i') \<and>
        length ?c \<le> n \<and> i' + gap \<le> n \<and> i2 \<le> i' \<and> n < 2 ^ 31 \<and>
        (\<forall>k. i' \<le> k \<and> k < n \<longrightarrow> addr_key ((?c @ map (addr_at der) [length ?c..<n]) ! k) \<notin> taken)"
    proof (rule less.hyps)
      show "i2 + gap + ?m (length ?c) * gap - length ?c < i + gap + ?m (length chain) * gap - length chain"
        using m lt unfolding len by (simp add: l_def)
      show "i2 \<le> length ?c" using less.prems(1) by (simp add: i2_def l_def)
      show "\<forall>k. i2 \<le> k \<and> k < length ?c \<longrightarrow> addr_key (?c ! k) \<notin> taken"
        using less.prems(2) by (auto simp: i2_def l_def nth_append less_Suc_eq split: if_splits)
      show "i2 + gap + ?m (length ?c) * gap < 2 ^ 31" using m less.prems(3) unfolding len by (simp add: l_def)
      show "length ?c < 2 ^ 31" using lt less.prems(3) unfolding len by (simp add: l_def)
    qed
    then obtain n i' where n: "extend_chain der taken gap ?c i2 = Some (?c @ map (addr_at der) [length ?c..<n], i')"
      "length ?c \<le> n" "i' + gap \<le> n" "i2 \<le> i'" "n < 2 ^ 31"
      "\<forall>k. i' \<le> k \<and> k < n \<longrightarrow> addr_key ((?c @ map (addr_at der) [length ?c..<n]) ! k) \<notin> taken" by blast
    have e: "?c @ map (addr_at der) [length ?c..<n] = chain @ map (addr_at der) [length chain..<n]"
      using n(2) by (simp add: a_def l_def upt_conv_Cons)
    have "i \<le> i'" using n(4) less.prems(1) by (simp add: i2_def l_def split: if_splits)
    then show ?thesis using n unfolding e step by (intro exI [of _ n] exI [of _ i']) simp
  qed
qed

text \<open>The end of the chain where the search starts.\<close>

lemma unused_from_end:
  "i \<le> length chain \<Longrightarrow> unused_from taken chain i \<le> i \<and>
     (\<forall>k. unused_from taken chain i \<le> k \<and> k < i \<longrightarrow> addr_key (chain ! k) \<notin> taken)"
  by (induction i) (auto simp: less_Suc_eq)

text \<open>The chains of a wallet are what was derived, and \<open>allAddrs\<close> is the set of their addresses.\<close>

definition chains_ok :: "env \<Rightarrow> wallet \<Rightarrow> bool" where
  "chains_ok e w \<longleftrightarrow> internalChain w = map (addr_at (derive e True)) [0..<length (internalChain w)] \<and>
     externalChain w = map (addr_at (derive e False)) [0..<length (externalChain w)] \<and>
     allAddrs w = addr_key ` (set (internalChain w) \<union> set (externalChain w))"

definition chain_of :: "bool \<Rightarrow> wallet \<Rightarrow> byte list list" where
  "chain_of internal w = (if internal then internalChain w else externalChain w)"

text \<open>The bound on the indices that can be needed.\<close>

definition room_to_derive :: "nat \<Rightarrow> bool \<Rightarrow> wallet \<Rightarrow> bool" where
  "room_to_derive gap internal w \<longleftrightarrow> finite (usedAddrs w) \<and>
     length (chain_of internal w) + gap + card (usedAddrs w) * gap < 2 ^ 31"

lemma derived_chain_extends:
  "chain = map (addr_at der) [0..<length chain] \<Longrightarrow> length chain \<le> n \<Longrightarrow>
   chain @ map (addr_at der) [length chain..<n] = map (addr_at der) [0..<n]"
  by (metis le0 map_append upt_add_eq_append le_add_diff_inverse)

lemma unused_addrs_chain:
  assumes "derives_all (derive e internal)" "chains_ok e w" "room_to_derive gap internal w" "0 < gap"
  shows "\<exists>n k w' addrs. BRWalletUnusedAddrs e gap internal w = Some (w', addrs) \<and>
    addrs = map (addr_at (derive e internal)) [k..<k + gap] \<and> (\<forall>a \<in> set addrs. addr_key a \<notin> usedAddrs w) \<and>
    length (chain_of internal w) \<le> n \<and> k + gap \<le> n \<and> n < 2 ^ 31 \<and> chain_of internal w' = map (addr_at (derive e internal)) [0..<n] \<and>
    chains_ok e w' \<and>
    w' = w\<lparr>internalChain := internalChain w', externalChain := externalChain w', allAddrs := allAddrs w'\<rparr> \<and>
    chain_of (\<not> internal) w' = chain_of (\<not> internal) w"
proof -
  let ?der = "derive e internal" and ?c = "chain_of internal w" and ?T = "usedAddrs w"
  let ?i = "unused_from ?T ?c (length ?c)"
  have c: "?c = map (addr_at ?der) [0..<length ?c]" using assms(2) by (cases internal) (auto simp: chains_ok_def chain_of_def)
  have u: "?i \<le> length ?c" "\<forall>k. ?i \<le> k \<and> k < length ?c \<longrightarrow> addr_key (?c ! k) \<notin> ?T"
    using unused_from_end [of "length ?c" ?c ?T] by auto
  have r: "finite ?T" "length ?c + gap + card ?T * gap < 2 ^ 31" using assms(3) by (auto simp: room_to_derive_def)
  have "card (used_indices ?der ?T (length ?c)) * gap \<le> card ?T * gap"
    using used_indices_card [OF assms(1) r(1)] by simp
  then have b: "?i + gap + card (used_indices ?der ?T (length ?c)) * gap < 2 ^ 31" "length ?c < 2 ^ 31" using u(1) r(2) by linarith+
  obtain n i' where n: "extend_chain ?der ?T gap ?c ?i = Some (?c @ map (addr_at ?der) [length ?c..<n], i')"
    "length ?c \<le> n" "i' + gap \<le> n" "n < 2 ^ 31"
    "\<forall>k. i' \<le> k \<and> k < n \<longrightarrow> addr_key ((?c @ map (addr_at ?der) [length ?c..<n]) ! k) \<notin> ?T"
    using extend_chain_ends [OF assms(1) u b(1) assms(4) b(2)] by blast
  note e = derived_chain_extends [OF c n(2)]
  let ?n = "map (addr_at ?der) [0..<n]" and ?addrs = "map (addr_at ?der) [i'..<i' + gap]"
  have take: "take gap (drop i' ?n) = ?addrs" using n(3) by (simp add: drop_map take_map drop_upt)
  have drop: "drop (length ?c) ?n = map (addr_at ?der) [length ?c..<n]" by (simp add: drop_map drop_upt)
  have set: "set ?c \<union> set (map (addr_at ?der) [length ?c..<n]) = set ?n" unfolding e [symmetric] by simp
  define w' where "w' = (if internal then w\<lparr>internalChain := ?n\<rparr> else w\<lparr>externalChain := ?n\<rparr>)
    \<lparr>allAddrs := addr_key ` (set ?n \<union> set (chain_of (\<not> internal) w))\<rparr>"
  have "allAddrs w = addr_key ` (set ?c \<union> set (chain_of (\<not> internal) w))"
    using assms(2) by (cases internal) (auto simp: chains_ok_def chain_of_def)
  then have "allAddrs w \<union> addr_key ` set (map (addr_at ?der) [length ?c..<n]) = addr_key ` (set ?n \<union> set (chain_of (\<not> internal) w))"
    unfolding set [symmetric] by blast
  then have "BRWalletUnusedAddrs e gap internal w = Some (w', ?addrs)"
    using n(1,3) assms(4) take drop unfolding BRWalletUnusedAddrs_def Let_def chain_of_def [symmetric] e w'_def
    by (cases internal) (simp_all add: chain_of_def Un_commute)
  moreover have "\<forall>a \<in> set ?addrs. addr_key a \<notin> ?T" using n(3,5) unfolding e by auto
  moreover have "chains_ok e w'" using assms(2) by (cases internal) (simp_all add: w'_def chains_ok_def chain_of_def Un_commute)
  moreover have "chain_of internal w' = ?n" "chain_of (\<not> internal) w' = chain_of (\<not> internal) w"
    "w' = w\<lparr>internalChain := internalChain w', externalChain := externalChain w', allAddrs := allAddrs w'\<rparr>"
    by (cases internal; simp add: w'_def chain_of_def)+
  ultimately show ?thesis using n(2-4) by (intro exI [of _ n] exI [of _ i'] exI [of _ w'] exI [of _ ?addrs]) simp
qed

text \<open>
  C7: asking for unused addresses always comes to an end. It returns as many addresses as asked for; they are the
  addresses of consecutive indices of the chain that the wallet derives, and none of them is used; the chain is only extended,
  with the addresses of the next indices, and nothing else changes but the set of all addresses, which is
  again the set of the addresses of both chains, whether or not the array of the chain was moved.
\<close>

theorem unused_addrs_found:
  assumes "derives_all (derive e internal)" "chains_ok e w" "room_to_derive gap internal w" "0 < gap"
  shows "\<exists>n k w' addrs. BRWalletUnusedAddrs e gap internal w = Some (w', addrs) \<and>
    addrs = map (addr_at (derive e internal)) [k..<k + gap] \<and> (\<forall>a \<in> set addrs. addr_key a \<notin> usedAddrs w) \<and>
    length (chain_of internal w) \<le> n \<and> k + gap \<le> n \<and> n < 2 ^ 31 \<and> chain_of internal w' = map (addr_at (derive e internal)) [0..<n] \<and>
    chains_ok e w' \<and>
    w' = w\<lparr>internalChain := internalChain w', externalChain := externalChain w', allAddrs := allAddrs w'\<rparr> \<and>
    chain_of (\<not> internal) w' = chain_of (\<not> internal) w"
  by (rule unused_addrs_chain [OF assms])

text \<open>A derivation for examples: the address of a key is a letter and the bytes of its index.\<close>

definition sample_env :: env where
  "sample_env = \<lparr>testnet = False, derive = \<lambda>internal n. Some ((if internal then 73 else 69) # UInt32SetLE n),
     moved = \<lambda>m n. False, rand = \<lambda>i n. 0\<rparr>"

lemma sample_derives: "derives_all (derive sample_env internal)"
proof -
  have r: "UInt32GetLE (UInt32SetLE n) = n" for n by (rule uint_get_set0)
  have d: "\<exists>c. \<forall>n. derive sample_env internal n = Some (c # UInt32SetLE n)" by (simp add: sample_env_def)
  then obtain c where d: "derive sample_env internal n = Some (c # UInt32SetLE n)" for n by blast
  have k: "addr_key (addr_at (derive sample_env internal) n) = c # UInt32SetLE (of_nat n) @ [0]" for n
    by (simp add: d addr_key_def addr_at_def)
  have "inj_on (\<lambda>n. addr_key (addr_at (derive sample_env internal) n)) {..<2 ^ 31}"
  proof (rule inj_onI)
    fix m n :: nat
    assume "m \<in> {..<2 ^ 31}" "n \<in> {..<2 ^ 31}"
    then have lt: "m < 2 ^ 32" "n < 2 ^ 32" by simp_all
    assume "addr_key (addr_at (derive sample_env internal) m) = addr_key (addr_at (derive sample_env internal) n)"
    then have "UInt32SetLE (of_nat m) = UInt32SetLE (of_nat n)" unfolding k by simp
    then have "(of_nat m :: u32) = of_nat n" using r by metis
    then show "m = n" using of_nat_u32_inject [OF lt] by blast
  qed
  then show ?thesis by (simp add: derives_all_def d)
qed

lemma unused_addrs_found_witness:
  "\<exists>k w addrs. BRWalletUnusedAddrs sample_env 10 False empty_wallet = Some (w, addrs) \<and>
     addrs = map (addr_at (derive sample_env False)) [k..<k + 10]"
proof -
  have "chains_ok sample_env empty_wallet" "room_to_derive 10 False empty_wallet"
    by (simp_all add: chains_ok_def room_to_derive_def chain_of_def empty_wallet_def)
  from unused_addrs_found [OF sample_derives this] show ?thesis by fastforce
qed

end
