(* ===== verification/WalletState.thy ===== *)
theory WalletState
  imports WalletChains "HOL-Library.Multiset"
begin

text \<open>
  The invariant of the wallet and the operations that keep it. A transaction refers to others by the hash of their
  serialization, so it cannot refer to itself or to one that refers to it; this is stated as a rank \<open>r\<close> of hashes, under which
  an input has a lower rank than the transaction.
\<close>

definition sane_tx :: "(UInt256 \<Rightarrow> nat) \<Rightarrow> tx \<Rightarrow> bool" where
  "sane_tx r t \<longleftrightarrow> BRTransactionIsSigned t \<and> txHash t \<noteq> 0 \<and> length (tx_outputs t) < 2 ^ 32 \<and>
     (\<forall>i \<in> set (tx_inputs t). in_hash i \<noteq> 0 \<and> r (in_hash i) < r (txHash t))"

definition sane_store :: "(UInt256 \<Rightarrow> nat) \<Rightarrow> (UInt256 \<Rightarrow> tx option) \<Rightarrow> bool" where
  "sane_store r txs \<longleftrightarrow> (\<forall>h t. txs h = Some t \<longrightarrow> txHash t = h \<and> sane_tx r t)"

lemma sane_storeD: "sane_store r txs \<Longrightarrow> txs h = Some t \<Longrightarrow> txHash t = h \<and> sane_tx r t"
  by (simp add: sane_store_def)

lemma sane_inputD:
  "sane_tx r t \<Longrightarrow> i \<in> set (tx_inputs t) \<Longrightarrow> in_hash i \<noteq> 0 \<and> r (in_hash i) < r (txHash t)"
  by (simp add: sane_tx_def)

section \<open>The recursive functions end\<close>

lemma TxIsAscending_None [simp]: "TxIsAscending txs None tb = Some False" "TxIsAscending txs ta None = Some False"
  by (subst TxIsAscending.simps, simp split: option.split)+

lemma TxIsAscending_ends:
  assumes "sane_store r txs" "sane_tx r a"
  shows "TxIsAscending txs (Some a) (Some b) \<noteq> None"
  using assms(2)
proof (induction "r (txHash a)" arbitrary: a rule: less_induct)
  case less
  have "TxIsAscending txs (txs (in_hash i)) (Some b) \<noteq> None" if "i \<in> set (tx_inputs a)" for i
  proof (cases "txs (in_hash i)")
    case (Some p)
    with assms(1) have "txHash p = in_hash i" "sane_tx r p" by (auto dest: sane_storeD)
    with less.hyps [of p] sane_inputD [OF less.prems that] show ?thesis using Some by simp
  qed simp
  then have "any_option (\<lambda>i. TxIsAscending txs (txs (in_hash i)) (Some b)) (tx_inputs a) \<noteq> None"
    by (rule any_option_total)
  then show ?case by (subst TxIsAscending.simps) (simp only: option.case split: if_split, simp)
qed

lemma TxIsAscending_height:
  "blockHeight a > blockHeight b \<Longrightarrow> TxIsAscending txs (Some a) (Some b) = Some True"
  "blockHeight a < blockHeight b \<Longrightarrow> TxIsAscending txs (Some a) (Some b) = Some False"
  by (subst TxIsAscending.simps, simp add: order.asym)+

lemma TxCompare_ends:
  assumes "sane_store r (allTx w)" "sane_tx r a" "sane_tx r b"
  shows "\<exists>c. TxCompare w a b = Some c \<and> (blockHeight a > blockHeight b \<longrightarrow> c > 0) \<and> (blockHeight a < blockHeight b \<longrightarrow> c < 0)"
proof -
  obtain x y where xy: "TxIsAscending (allTx w) (Some a) (Some b) = Some x" "TxIsAscending (allTx w) (Some b) (Some a) = Some y"
    using TxIsAscending_ends [OF assms(1)] assms(2,3) by blast
  have "blockHeight a > blockHeight b \<Longrightarrow> x" "blockHeight a < blockHeight b \<Longrightarrow> \<not> x"
    "blockHeight a < blockHeight b \<Longrightarrow> y"
    using xy by (auto simp: TxIsAscending_height)
  then show ?thesis using xy by (auto simp: TxCompare_def Let_def)
qed

section \<open>Insertion\<close>

definition height_of :: "wallet \<Rightarrow> UInt256 \<Rightarrow> u32" where
  "height_of w h = (case allTx w h of Some t \<Rightarrow> blockHeight t | None \<Rightarrow> 0)"

text \<open>On the array from its end: heights do not increase.\<close>

lemma insert_from_end_ok:
  assumes "sane_store r (allTx w)" "sane_tx r t" "\<forall>h \<in> set hs. allTx w h \<noteq> None" "height_of w (txHash t) = blockHeight t"
    "sorted_wrt (\<lambda>a b. height_of w b \<le> height_of w a) hs"
  shows "\<exists>hs'. insert_from_end w t hs = Some hs' \<and> mset hs' = add_mset (txHash t) (mset hs) \<and>
    sorted_wrt (\<lambda>a b. height_of w b \<le> height_of w a) hs'"
  using assms(3,5)
proof (induction hs)
  case (Cons p ps)
  obtain a where a: "allTx w p = Some a" using Cons.prems by auto
  then have sa: "sane_tx r a" "height_of w p = blockHeight a" using assms(1) by (auto dest: sane_storeD simp: height_of_def)
  obtain c where c: "TxCompare w a t = Some c" "blockHeight a > blockHeight t \<longrightarrow> c > 0" "blockHeight a < blockHeight t \<longrightarrow> c < 0"
    using TxCompare_ends [OF assms(1) sa(1) assms(2)] by blast
  show ?case
  proof (cases "c > 0")
    case True
    obtain hs' where hs: "insert_from_end w t ps = Some hs'" "mset hs' = add_mset (txHash t) (mset ps)"
      "sorted_wrt (\<lambda>a b. height_of w b \<le> height_of w a) hs'" using Cons by auto
    have "set hs' = insert (txHash t) (set ps)" using hs(2) by (metis set_mset_mset set_mset_add_mset_insert)
    moreover have "blockHeight t \<le> blockHeight a" using True c(3) by (meson not_less not_less_iff_gr_or_eq)
    ultimately show ?thesis using Cons.prems hs True a c(1) sa(2) assms(4) by auto
  next
    case False
    then have "blockHeight a \<le> blockHeight t" using c(2) by (meson not_less)
    then show ?thesis using Cons.prems False a c(1) sa(2) assms(4) by (auto intro: order_trans)
  qed
qed simp

definition by_height :: "wallet \<Rightarrow> UInt256 list \<Rightarrow> bool" where
  "by_height w hs \<longleftrightarrow> sorted_wrt (\<lambda>a b. height_of w a \<le> height_of w b) hs"

lemma InsertTx_ok:
  assumes "sane_store r (allTx w)" "allTx w (txHash t) = Some t" "\<forall>h \<in> set (transactions w). allTx w h \<noteq> None"
    "by_height w (transactions w)"
  shows "\<exists>hs. InsertTx w t = Some (w\<lparr>transactions := hs\<rparr>) \<and> mset hs = add_mset (txHash t) (mset (transactions w)) \<and> by_height w hs"
proof -
  have "sane_tx r t" "height_of w (txHash t) = blockHeight t" using assms(1,2) by (auto dest: sane_storeD simp: height_of_def)
  from insert_from_end_ok [OF assms(1) this(1) _ this(2), of "rev (transactions w)"] assms(3,4)
  obtain hs where "insert_from_end w t (rev (transactions w)) = Some hs" "mset hs = add_mset (txHash t) (mset (rev (transactions w)))"
    "sorted_wrt (\<lambda>a b. height_of w b \<le> height_of w a) hs"
    by (auto simp: by_height_def sorted_wrt_rev)
  then show ?thesis by (intro exI [of _ "rev hs"]) (simp add: InsertTx_def by_height_def sorted_wrt_rev)
qed

section \<open>The invariant\<close>

definition belongs :: "wallet \<Rightarrow> UInt256 \<Rightarrow> bool" where
  "belongs w h \<longleftrightarrow> (case allTx w h of None \<Rightarrow> False | Some t \<Rightarrow> ContainsTx w t)"

definition money_ok :: "wallet \<Rightarrow> bool" where
  "money_ok w \<longleftrightarrow> distinct (utxos w) \<and> set (utxos w) \<subseteq> own_outpoints w (dom (allTx w)) \<and> balance w = total_worth w (utxos w)"

definition base_ok :: "env \<Rightarrow> (UInt256 \<Rightarrow> nat) \<Rightarrow> wallet \<Rightarrow> bool" where
  "base_ok e r w \<longleftrightarrow> sane_store r (allTx w) \<and> chains_ok e w \<and> distinct (transactions w) \<and>
     (\<forall>h \<in> set (transactions w). belongs w h) \<and> by_height w (transactions w)"

definition wallet_ok :: "env \<Rightarrow> (UInt256 \<Rightarrow> nat) \<Rightarrow> wallet \<Rightarrow> bool" where
  "wallet_ok e r w \<longleftrightarrow> base_ok e r w \<and> money_ok w \<and> length (balanceHist w) = length (transactions w) \<and>
     invalidTx w \<union> pendingTx w \<subseteq> set (transactions w)"

lemma base_okD:
  assumes "base_ok e r w"
  shows "sane_store r (allTx w)" "chains_ok e w" "distinct (transactions w)" "\<forall>h \<in> set (transactions w). belongs w h"
    "by_height w (transactions w)" "\<forall>h \<in> set (transactions w). allTx w h \<noteq> None"
  using assms by (auto simp: base_ok_def belongs_def split: option.splits)

lemma wallet_okD:
  assumes "wallet_ok e r w"
  shows "base_ok e r w" "money_ok w" "length (balanceHist w) = length (transactions w)"
    "invalidTx w \<subseteq> set (transactions w)" "pendingTx w \<subseteq> set (transactions w)"
  using assms by (auto simp: wallet_ok_def)

lemma base_store_ok: "base_ok e r w \<Longrightarrow> store_ok w"
  using base_okD [of e r w] by (auto simp: store_ok_def sane_store_def sane_tx_def)

text \<open>What the definitions above depend on: the outputs in the store and the set of all addresses.\<close>

definition outs_of :: "wallet \<Rightarrow> UInt256 \<Rightarrow> txout list option" where
  "outs_of w h = map_option tx_outputs (allTx w h)"

lemma own_output_outs:
  "own_output w i = (case outs_of w (in_hash i) of None \<Rightarrow> None | Some outs \<Rightarrow>
     if unat (in_index i) < length outs \<and> wallet_addr w (out_address (outs ! unat (in_index i)))
     then Some (outs ! unat (in_index i)) else None)"
  by (simp add: own_output_def outs_of_def split: option.split)

lemma utxo_output_outs:
  "utxo_output w u = (case outs_of w (fst u) of None \<Rightarrow> None | Some outs \<Rightarrow>
     if unat (snd u) < length outs then Some (outs ! unat (snd u)) else None)"
  by (simp add: utxo_output_def outs_of_def split: option.split)

lemma own_outpoints_outs:
  "own_outpoints w H = {(h, of_nat j) | h outs j. h \<in> H \<and> outs_of w h = Some outs \<and> j < length outs \<and>
     out_address (outs ! j) \<noteq> [] \<and> wallet_addr w (out_address (outs ! j))}"
  by (auto simp: own_outpoints_def outs_of_def)

text \<open>A wallet whose store and set of addresses have grown.\<close>

definition grown :: "wallet \<Rightarrow> wallet \<Rightarrow> bool" where
  "grown w w' \<longleftrightarrow> (\<forall>h. outs_of w h \<noteq> None \<longrightarrow> outs_of w' h = outs_of w h) \<and> allAddrs w \<subseteq> allAddrs w'"

lemma grown_own: "grown w w' \<Longrightarrow> own_outpoints w H \<subseteq> own_outpoints w' H"
  unfolding own_outpoints_outs grown_def wallet_addr_def by (auto, metis option.distinct(1) subsetD)

lemma grown_utxo: "grown w w' \<Longrightarrow> utxo_output w u \<noteq> None \<Longrightarrow> utxo_output w' u = utxo_output w u"
  unfolding utxo_output_outs grown_def by (cases "outs_of w (fst u)") auto

lemma grown_contains:
  assumes "grown w w'" "ContainsTx w t"
  shows "ContainsTx w' t"
proof -
  have "own_output w i \<noteq> None \<Longrightarrow> own_output w' i \<noteq> None" for i
    using assms(1) unfolding own_output_outs grown_def wallet_addr_def by (cases "outs_of w (in_hash i)") (auto split: if_splits)
  with assms show ?thesis unfolding ContainsTx_def list_ex_iff wallet_addr_def grown_def by blast
qed

lemma own_utxo_output: "sane_store r (allTx w) \<Longrightarrow> u \<in> own_outpoints w H \<Longrightarrow> utxo_output w u \<noteq> None"
  by (auto simp: own_outpoints_def sane_store_def sane_tx_def utxo_output_nth)

lemma own_dom: "own_outpoints w H = own_outpoints w (H \<inter> dom (allTx w))"
  by (auto simp: own_outpoints_def)

lemma total_worth_cong:
  "(\<And>u. u \<in> set us \<Longrightarrow> utxo_output w' u = utxo_output w u) \<Longrightarrow> total_worth w' us = total_worth w us"
  by (induction us) (simp_all add: worth_def)

lemma grown_money:
  assumes "grown w w'" "money_ok w" "sane_store r (allTx w)" "dom (allTx w) \<subseteq> dom (allTx w')"
    "utxos w' = utxos w" "balance w' = balance w"
  shows "money_ok w'"
proof -
  have "utxo_output w' u = utxo_output w u" if "u \<in> set (utxos w)" for u
    using assms(2) that by (intro grown_utxo [OF assms(1)] own_utxo_output [OF assms(3)]) (auto simp: money_ok_def)
  then have "total_worth w' (utxos w) = total_worth w (utxos w)" by (rule total_worth_cong)
  then show ?thesis using assms(2,5,6) grown_own [OF assms(1)] own_mono [OF assms(4)] by (fastforce simp: money_ok_def)
qed

section \<open>Operations that keep the invariant\<close>

lemma by_height_cong:
  "(\<And>h. h \<in> set hs \<Longrightarrow> height_of w' h = height_of w h) \<Longrightarrow> by_height w' hs = by_height w hs"
  by (induction hs) (auto simp: by_height_def)

text \<open>Only the store, the chains, the set of addresses and the list of transactions matter for the first part.\<close>

lemma base_ok_cong:
  assumes "base_ok e r w" "allTx w' = allTx w" "transactions w' = transactions w" "internalChain w' = internalChain w"
    "externalChain w' = externalChain w" "allAddrs w' = allAddrs w"
  shows "base_ok e r w'"
proof -
  have "grown w w'" using assms by (simp add: grown_def outs_of_def)
  then have "belongs w h \<Longrightarrow> belongs w' h" for h
    using assms(2) grown_contains by (auto simp: belongs_def split: option.splits)
  moreover have "by_height w' (transactions w)" using base_okD(5) [OF assms(1)] assms(2)
    by (simp add: by_height_def height_of_def)
  ultimately show ?thesis using base_okD [OF assms(1)] assms(2-) by (simp add: base_ok_def chains_ok_def)
qed

lemma finite_used_by: "finite (used_by w (set hs - X))"
  by (auto simp: used_by_def paid_addrs_def split: option.split)

lemma UpdateBalance_ok:
  assumes "base_ok e r w"
  shows "\<exists>w'. UpdateBalance now w = Some w' \<and> wallet_ok e r w' \<and> allTx w' = allTx w \<and> transactions w' = transactions w \<and>
    internalChain w' = internalChain w \<and> externalChain w' = externalChain w \<and>
    (\<exists>V \<subseteq> set (transactions w). usedAddrs w' = used_by w V)"
proof -
  obtain sc where sc: "UpdateBalance now w = Some (w\<lparr>balance := s_balance sc, totalSent := s_sent sc,
      totalReceived := s_received sc, balanceHist := s_hist sc, utxos := s_utxos sc, spentOutputs := s_spent sc,
      invalidTx := s_invalid sc, pendingTx := s_pending sc, usedAddrs := s_used sc\<rparr>)" "scan_inv w (transactions w) sc"
    using UpdateBalance_books [OF base_store_ok [OF assms]] by blast
  define w2 where "w2 = w\<lparr>balance := s_balance sc, totalSent := s_sent sc,
      totalReceived := s_received sc, balanceHist := s_hist sc, utxos := s_utxos sc, spentOutputs := s_spent sc,
      invalidTx := s_invalid sc, pendingTx := s_pending sc, usedAddrs := s_used sc\<rparr>"
  have w2: "allTx w2 = allTx w" "transactions w2 = transactions w" "internalChain w2 = internalChain w"
    "externalChain w2 = externalChain w" "allAddrs w2 = allAddrs w" "utxos w2 = s_utxos sc" "balance w2 = s_balance sc"
    "balanceHist w2 = s_hist sc" "invalidTx w2 = s_invalid sc" "pendingTx w2 = s_pending sc" "usedAddrs w2 = s_used sc"
    by (simp_all add: w2_def)
  note inv = scan_invD [OF sc(2)]
  have "base_ok e r w2" by (rule base_ok_cong [OF assms]) (simp_all add: w2)
  moreover have "money_ok w2"
  proof -
    have own: "own_outpoints w2 H = own_outpoints w H" for H
      by (simp add: own_outpoints_def wallet_addr_def w2)
    have "total_worth w2 us = total_worth w us" for us by (rule total_worth_cong) (simp add: utxo_output_def w2)
    moreover have "own_outpoints w (set (transactions w) - s_invalid sc - s_pending sc) \<subseteq> own_outpoints w (dom (allTx w))"
      using base_okD(6) [OF assms] by (intro own_mono) auto
    ultimately show ?thesis using inv(5) by (auto simp: money_ok_def books_ok_def own w2)
  qed
  ultimately have "wallet_ok e r w2" using inv(1,2,6) by (auto simp: wallet_ok_def w2)
  moreover have "\<exists>V \<subseteq> set (transactions w). usedAddrs w2 = used_by w V" unfolding w2 inv(7)
    by (intro exI [of _ "set (transactions w) - s_invalid sc - s_pending sc"]) auto
  ultimately show ?thesis using sc(1) w2(1-4) unfolding w2_def [symmetric] by blast
qed

lemma wallet_ok_chains:
  assumes "wallet_ok e r w" "chains_ok e w'" "allAddrs w \<subseteq> allAddrs w'"
    "w' = w\<lparr>internalChain := internalChain w', externalChain := externalChain w', allAddrs := allAddrs w'\<rparr>"
  shows "wallet_ok e r w'"
proof -
  have same: "allTx w' = allTx w" "transactions w' = transactions w" "utxos w' = utxos w" "balance w' = balance w"
    "balanceHist w' = balanceHist w" "invalidTx w' = invalidTx w" "pendingTx w' = pendingTx w"
    by (subst assms(4), simp)+
  note base = base_okD [OF wallet_okD(1) [OF assms(1)]]
  have g: "grown w w'" using assms(3) same by (simp add: grown_def outs_of_def)
  then have "belongs w h \<Longrightarrow> belongs w' h" for h
    using same grown_contains by (auto simp: belongs_def split: option.splits)
  moreover have "by_height w' (transactions w)" using base(5) same by (simp add: by_height_def height_of_def)
  moreover have "money_ok w'" by (rule grown_money [OF g wallet_okD(2) [OF assms(1)] base(1)]) (simp_all add: same)
  ultimately show ?thesis using base wallet_okD [OF assms(1)] assms(2) same by (simp add: wallet_ok_def base_ok_def)
qed

lemma chains_grow:
  assumes "chains_ok e w" "chains_ok e w'" "length (chain_of internal w) \<le> n"
    "chain_of internal w' = map (addr_at (derive e internal)) [0..<n]" "chain_of (\<not> internal) w' = chain_of (\<not> internal) w"
  shows "allAddrs w \<subseteq> allAddrs w'"
proof -
  have "set (chain_of internal w) \<subseteq> set (chain_of internal w')"
  proof -
    have "chain_of internal w = map (addr_at (derive e internal)) [0..<length (chain_of internal w)]"
      using assms(1) by (cases internal) (auto simp: chains_ok_def chain_of_def)
    then have "set (chain_of internal w) = addr_at (derive e internal) ` {0..<length (chain_of internal w)}"
      by (metis list.set_map set_upt)
    then show ?thesis unfolding assms(4) using assms(3) by auto
  qed
  moreover have "allAddrs x = addr_key ` (set (chain_of internal x) \<union> set (chain_of (\<not> internal) x))" if "chains_ok e x" for x
    using that by (cases internal) (auto simp: chains_ok_def chain_of_def)
  ultimately show ?thesis using assms(1,2,5) by auto
qed

lemma UnusedAddrs_ok:
  assumes "wallet_ok e r w" "derives_all (derive e internal)" "room_to_derive gap internal w" "0 < gap"
  shows "\<exists>w' addrs. BRWalletUnusedAddrs e gap internal w = Some (w', addrs) \<and> wallet_ok e r w' \<and>
    chain_of (\<not> internal) w' = chain_of (\<not> internal) w \<and>
    w' = w\<lparr>internalChain := internalChain w', externalChain := externalChain w', allAddrs := allAddrs w'\<rparr>"
proof -
  note c = base_okD(2) [OF wallet_okD(1) [OF assms(1)]]
  obtain n k w' addrs where u: "BRWalletUnusedAddrs e gap internal w = Some (w', addrs)" "length (chain_of internal w) \<le> n"
    "chain_of internal w' = map (addr_at (derive e internal)) [0..<n]" "chains_ok e w'"
    "w' = w\<lparr>internalChain := internalChain w', externalChain := externalChain w', allAddrs := allAddrs w'\<rparr>"
    "chain_of (\<not> internal) w' = chain_of (\<not> internal) w"
    using unused_addrs_chain [OF assms(2) c assms(3,4)] by blast
  then show ?thesis using wallet_ok_chains [OF assms(1) u(4) chains_grow [OF c u(4,2,3,6)] u(5)] by blast
qed

text \<open>A bound on the number of used addresses, and room for the addresses that a new transaction can make necessary.\<close>

definition output_count :: "wallet \<Rightarrow> nat" where
  "output_count w = (\<Sum>h \<in> set (transactions w). length (case outs_of w h of Some outs \<Rightarrow> outs | None \<Rightarrow> []))"

definition room_for :: "wallet \<Rightarrow> nat \<Rightarrow> bool" where
  "room_for w n \<longleftrightarrow> length (internalChain w) + length (externalChain w) + 10 * (output_count w + n + 1) < 2 ^ 31"

lemma card_used_by:
  assumes "V \<subseteq> set (transactions w)"
  shows "finite (used_by w V)" "card (used_by w V) \<le> output_count w"
proof -
  let ?A = "\<lambda>h. case allTx w h of Some t \<Rightarrow> paid_addrs (tx_outputs t) | None \<Rightarrow> {}"
  let ?n = "\<lambda>h. length (case outs_of w h of Some outs \<Rightarrow> outs | None \<Rightarrow> [])"
  have "finite (?A h)" for h by (auto simp: paid_addrs_def split: option.split)
  moreover have le: "card (?A h) \<le> ?n h" for h
  proof (cases "allTx w h")
    case (Some t)
    have "card (paid_addrs (tx_outputs t)) \<le> card (out_address ` set (tx_outputs t))"
      unfolding paid_addrs_def by (intro order_trans [OF card_image_le card_mono]) auto
    also have "\<dots> \<le> length (tx_outputs t)" by (rule order_trans [OF card_image_le card_length]) simp
    finally show ?thesis by (simp add: Some outs_of_def)
  qed simp
  moreover have fin: "finite V" using assms by (rule finite_subset) simp
  ultimately show "finite (used_by w V)" unfolding used_by_def by blast
  have "card (used_by w V) \<le> (\<Sum>h \<in> V. card (?A h))" unfolding used_by_def by (rule card_UN_le [OF fin])
  also have "\<dots> \<le> (\<Sum>h \<in> V. ?n h)" by (rule sum_mono [OF le])
  also have "\<dots> \<le> output_count w" unfolding output_count_def using assms by (intro sum_mono2) auto
  finally show "card (used_by w V) \<le> output_count w" .
qed

lemma unused_addrs_ok:
  assumes "wallet_ok e r w" "derives_all (derive e False)" "derives_all (derive e True)"
    "finite (usedAddrs w)" "length (internalChain w) + length (externalChain w) + 10 * (card (usedAddrs w) + 1) < 2 ^ 31"
  shows "\<exists>w'. unused_addrs e w = Some w' \<and> wallet_ok e r w' \<and>
    w' = w\<lparr>internalChain := internalChain w', externalChain := externalChain w', allAddrs := allAddrs w'\<rparr>"
proof -
  have "room_to_derive 10 False w" using assms(4,5) by (simp add: room_to_derive_def chain_of_def)
  then obtain w1 addrs where 1: "BRWalletUnusedAddrs e 10 False w = Some (w1, addrs)" "wallet_ok e r w1"
    "internalChain w1 = internalChain w"
    "w1 = w\<lparr>internalChain := internalChain w1, externalChain := externalChain w1, allAddrs := allAddrs w1\<rparr>"
    using UnusedAddrs_ok [OF assms(1,2), of 10] by (auto simp: chain_of_def)
  have "usedAddrs w1 = usedAddrs w" by (subst 1(4)) simp
  then have "room_to_derive 5 True w1" using assms(4,5) 1(3) by (simp add: room_to_derive_def chain_of_def)
  then obtain w2 addrs' where 2: "BRWalletUnusedAddrs e 5 True w1 = Some (w2, addrs')" "wallet_ok e r w2"
    "w2 = w1\<lparr>internalChain := internalChain w2, externalChain := externalChain w2, allAddrs := allAddrs w2\<rparr>"
    using UnusedAddrs_ok [OF 1(2) assms(3), of 5] by auto
  have "w2 = w\<lparr>internalChain := internalChain w2, externalChain := externalChain w2, allAddrs := allAddrs w2\<rparr>"
    by (subst 2(3), subst 1(4)) simp
  then show ?thesis
    using 1(1) 2(1,2) by (simp add: unused_addrs_def SEQUENCE_GAP_LIMIT_EXTERNAL_def SEQUENCE_GAP_LIMIT_INTERNAL_def)
qed

text \<open>The list of transactions does not matter for the other parts.\<close>

lemma transactions_frame [simp]:
  "wallet_addr (w\<lparr>transactions := hs\<rparr>) = wallet_addr w" "own_output (w\<lparr>transactions := hs\<rparr>) = own_output w"
  "utxo_output (w\<lparr>transactions := hs\<rparr>) = utxo_output w"
  "ContainsTx (w\<lparr>transactions := hs\<rparr>) = ContainsTx w" "belongs (w\<lparr>transactions := hs\<rparr>) = belongs w"
  "height_of (w\<lparr>transactions := hs\<rparr>) = height_of w" "by_height (w\<lparr>transactions := hs\<rparr>) = by_height w"
  "chains_ok e (w\<lparr>transactions := hs\<rparr>) = chains_ok e w" "outs_of (w\<lparr>transactions := hs\<rparr>) = outs_of w"
proof -
  show a: "wallet_addr (w\<lparr>transactions := hs\<rparr>) = wallet_addr w" by (intro ext) (simp add: wallet_addr_def)
  show b: "own_output (w\<lparr>transactions := hs\<rparr>) = own_output w" unfolding own_output_def a by simp
  show "utxo_output (w\<lparr>transactions := hs\<rparr>) = utxo_output w" by (intro ext) (simp add: utxo_output_def)
  show c: "ContainsTx (w\<lparr>transactions := hs\<rparr>) = ContainsTx w" unfolding ContainsTx_def a b by simp
  show "belongs (w\<lparr>transactions := hs\<rparr>) = belongs w" unfolding belongs_def c by simp
  show d: "height_of (w\<lparr>transactions := hs\<rparr>) = height_of w" by (intro ext) (simp add: height_of_def)
  show "by_height (w\<lparr>transactions := hs\<rparr>) = by_height w" unfolding by_height_def d by simp
  show "chains_ok e (w\<lparr>transactions := hs\<rparr>) = chains_ok e w" by (simp add: chains_ok_def)
  show "outs_of (w\<lparr>transactions := hs\<rparr>) = outs_of w" by (intro ext) (simp add: outs_of_def)
qed

lemma base_ok_transactions:
  "base_ok e r w \<Longrightarrow> distinct hs \<Longrightarrow> \<forall>h \<in> set hs. belongs w h \<Longrightarrow> by_height w hs \<Longrightarrow> base_ok e r (w\<lparr>transactions := hs\<rparr>)"
  by (simp add: base_ok_def)

text \<open>A new object in the store.\<close>

lemma store_new:
  assumes "base_ok e r w" "sane_tx r t" "allTx w (txHash t) = None"
  defines "w1 \<equiv> w\<lparr>allTx := (allTx w)(txHash t \<mapsto> t)\<rparr>"
  shows "grown w w1" "base_ok e r w1" "\<forall>h \<in> set (transactions w). height_of w1 h = height_of w h"
proof -
  note base = base_okD [OF assms(1)]
  show g: "grown w w1" using assms(3) by (simp add: grown_def outs_of_def w1_def)
  show h: "\<forall>h \<in> set (transactions w). height_of w1 h = height_of w h"
    using base(6) assms(3) by (auto simp: height_of_def w1_def)
  have "belongs w1 h" if "belongs w h" for h
    using that grown_contains [OF g] assms(3) by (auto simp: belongs_def w1_def split: option.splits)
  moreover have "by_height w1 (transactions w)" using base(5) by_height_cong [of "transactions w" w1 w] h by auto
  moreover have "sane_store r (allTx w1)" using base(1) assms(2) by (simp add: sane_store_def w1_def)
  ultimately show "base_ok e r w1" using base by (simp add: base_ok_def w1_def chains_ok_def)
qed

lemma RegisterTransaction_ok:
  assumes "wallet_ok e r w" "sane_tx r t" "derives_all (derive e False)" "derives_all (derive e True)"
    "room_for w (length (tx_outputs t))"
  shows "\<exists>w' b evs. BRWalletRegisterTransaction e now w t = Some (w', b, evs) \<and> wallet_ok e r w'"
proof -
  have signed: "BRTransactionIsSigned t" using assms(2) by (simp add: sane_tx_def)
  note base = wallet_okD(1) [OF assms(1)]
  consider "allTx w (txHash t) \<noteq> None" | "allTx w (txHash t) = None" "ContainsTx w t"
    | "allTx w (txHash t) = None" "\<not> ContainsTx w t" by blast
  then show ?thesis
  proof cases
    case 1
    then show ?thesis using assms(1) signed by (simp add: BRWalletRegisterTransaction_def ex_bool_eq)
  next
    case 2
    define w1 where "w1 = w\<lparr>allTx := (allTx w)(txHash t \<mapsto> t)\<rparr>"
    note new = store_new [OF base assms(2) 2(1), folded w1_def]
    have w1: "transactions w1 = transactions w" "allTx w1 (txHash t) = Some t" "internalChain w1 = internalChain w"
      "externalChain w1 = externalChain w" by (simp_all add: w1_def)
    obtain hs where hs: "InsertTx w1 t = Some (w1\<lparr>transactions := hs\<rparr>)"
      "mset hs = add_mset (txHash t) (mset (transactions w))" "by_height w1 hs"
      using InsertTx_ok [OF base_okD(1) [OF new(2)] w1(2)] base_okD(5,6) [OF new(2)] w1(1) by auto
    have set: "set hs = insert (txHash t) (set (transactions w))" using hs(2) by (metis set_mset_mset set_mset_add_mset_insert)
    have "txHash t \<notin> set (transactions w)" using base_okD(6) [OF base] 2(1) by auto
    then have "distinct hs" using hs(2) base_okD(3) [OF base] by (metis distinct.simps(2) mset.simps(2) mset_eq_imp_distinct_iff)
    moreover have "\<forall>h \<in> set hs. belongs w1 h"
      using set base_okD(4) [OF new(2)] w1(1,2) grown_contains [OF new(1) 2(2)] by (auto simp: belongs_def)
    ultimately have "base_ok e r (w1\<lparr>transactions := hs\<rparr>)" using base_ok_transactions [OF new(2)] hs(3) by blast
    from UpdateBalance_ok [OF this, of now] obtain w2 V where w2: "UpdateBalance now (w1\<lparr>transactions := hs\<rparr>) = Some w2"
      "wallet_ok e r w2" "internalChain w2 = internalChain w" "externalChain w2 = externalChain w" "V \<subseteq> set hs"
      "usedAddrs w2 = used_by (w1\<lparr>transactions := hs\<rparr>) V"
      using w1 by auto
    have "output_count (w1\<lparr>transactions := hs\<rparr>) \<le> output_count w + length (tx_outputs t)"
    proof -
      have "outs_of w1 h = outs_of w h" if "h \<in> set (transactions w)" for h
        using that base_okD(6) [OF base] 2(1) by (auto simp: outs_of_def w1_def)
      then show ?thesis using \<open>txHash t \<notin> set (transactions w)\<close> by (simp add: output_count_def set) (simp add: outs_of_def w1_def)
    qed
    then have "length (internalChain w2) + length (externalChain w2) + 10 * (card (usedAddrs w2) + 1) < 2 ^ 31"
      using card_used_by(2) [of V "w1\<lparr>transactions := hs\<rparr>"] w2(3-6) assms(5) by (simp add: room_for_def)
    moreover have "finite (usedAddrs w2)" using card_used_by(1) [of V "w1\<lparr>transactions := hs\<rparr>"] w2(5,6) by simp
    ultimately obtain w3 where "unused_addrs e w2 = Some w3" "wallet_ok e r w3"
      using unused_addrs_ok [OF w2(2) assms(3,4)] by blast
    then show ?thesis using 2 signed hs(1) w2(1) by (simp add: BRWalletRegisterTransaction_def w1_def ex_bool_eq)
  next
    case 3
    let ?w = "w\<lparr>allTx := (allTx w)(txHash t \<mapsto> t)\<rparr>"
    note new = store_new [OF base assms(2) 3(1)]
    have "money_ok ?w" by (rule grown_money [OF new(1) wallet_okD(2) [OF assms(1)] base_okD(1) [OF base]]) auto
    then have "wallet_ok e r ?w" using new(2) wallet_okD [OF assms(1)] by (simp add: wallet_ok_def)
    then show ?thesis using 3 signed assms(1) by (simp add: BRWalletRegisterTransaction_def ex_bool_eq)
  qed
qed

lemma wallet_ok_cong:
  assumes "wallet_ok e r w" "allTx w' = allTx w" "transactions w' = transactions w" "internalChain w' = internalChain w"
    "externalChain w' = externalChain w" "allAddrs w' = allAddrs w" "utxos w' = utxos w" "balance w' = balance w"
    "balanceHist w' = balanceHist w" "invalidTx w' = invalidTx w" "pendingTx w' = pendingTx w"
  shows "wallet_ok e r w'"
proof -
  have "base_ok e r w'" by (rule base_ok_cong [OF wallet_okD(1) [OF assms(1)]]) (simp_all add: assms)
  moreover have "grown w w'" using assms by (simp add: grown_def outs_of_def)
  then have "money_ok w'"
    using grown_money wallet_okD(2) [OF assms(1)] base_okD(1) [OF wallet_okD(1) [OF assms(1)]] assms by simp
  ultimately show ?thesis using wallet_okD [OF assms(1)] assms by (simp add: wallet_ok_def)
qed

section \<open>New heights\<close>

definition restamp :: "u32 \<Rightarrow> u32 \<Rightarrow> UInt256 \<Rightarrow> tx \<Rightarrow> wallet \<Rightarrow> wallet" where
  "restamp height stamp h t w = w\<lparr>allTx := (allTx w)(h \<mapsto> t\<lparr>tx_timestamp := stamp, blockHeight := height\<rparr>)\<rparr>"

lemma restamp_fields [simp]:
  "transactions (restamp height stamp h t w) = transactions w" "internalChain (restamp height stamp h t w) = internalChain w"
  "externalChain (restamp height stamp h t w) = externalChain w" "allAddrs (restamp height stamp h t w) = allAddrs w"
  "utxos (restamp height stamp h t w) = utxos w" "balance (restamp height stamp h t w) = balance w"
  "balanceHist (restamp height stamp h t w) = balanceHist w" "invalidTx (restamp height stamp h t w) = invalidTx w"
  "pendingTx (restamp height stamp h t w) = pendingTx w" "usedAddrs (restamp height stamp h t w) = usedAddrs w"
  by (simp_all add: restamp_def)

lemma restamp_frame:
  assumes "allTx w h = Some t"
  shows "outs_of (restamp height stamp h t w) = outs_of w" "dom (allTx (restamp height stamp h t w)) = dom (allTx w)"
    "grown w (restamp height stamp h t w)" "grown (restamp height stamp h t w) w"
    "height_of (restamp height stamp h t w) = (height_of w)(h := height)"
    "ContainsTx (restamp height stamp h t w) (t\<lparr>tx_timestamp := stamp, blockHeight := height\<rparr>) = ContainsTx w t"
    "belongs (restamp height stamp h t w) = belongs w"
proof -
  let ?w = "restamp height stamp h t w"
  show o: "outs_of ?w = outs_of w" using assms by (intro ext) (simp add: outs_of_def restamp_def)
  show "dom (allTx ?w) = dom (allTx w)" using assms by (auto simp: restamp_def)
  show g: "grown w ?w" "grown ?w w" by (simp_all add: grown_def o)
  show "height_of ?w = (height_of w)(h := height)" by (intro ext) (simp add: height_of_def restamp_def)
  have c: "ContainsTx ?w x = ContainsTx w x" for x using grown_contains g by blast
  moreover have "ContainsTx w (t\<lparr>tx_timestamp := stamp, blockHeight := height\<rparr>) = ContainsTx w t" by (simp add: ContainsTx_def)
  ultimately show "ContainsTx ?w (t\<lparr>tx_timestamp := stamp, blockHeight := height\<rparr>) = ContainsTx w t" by simp
  then have "belongs ?w h = belongs w h" using assms by (simp add: belongs_def) (simp add: restamp_def)
  moreover have "belongs ?w x = belongs w x" if "x \<noteq> h" for x
    unfolding belongs_def ext [of "ContainsTx ?w" "ContainsTx w", OF c] using that by (simp add: restamp_def)
  ultimately show "belongs ?w = belongs w" by (intro ext) (metis (full_types))
qed

lemma restamp_sane:
  assumes "sane_store r (allTx w)" "allTx w h = Some t"
  shows "sane_store r (allTx (restamp height stamp h t w))"
  using assms by (auto simp: sane_store_def sane_tx_def restamp_def BRTransactionIsSigned_def)

lemma restamp_base:
  assumes "base_ok e r w" "allTx w h = Some t" "by_height (restamp height stamp h t w) (transactions w)"
  shows "base_ok e r (restamp height stamp h t w)"
  using base_okD [OF assms(1)] restamp_sane [OF _ assms(2)] restamp_frame(7) [OF assms(2)] assms(3)
  by (simp add: base_ok_def chains_ok_def)

lemma restamp_money:
  assumes "money_ok w" "sane_store r (allTx w)" "allTx w h = Some t"
  shows "money_ok (restamp height stamp h t w)"
  using grown_money [OF restamp_frame(3) [OF assms(3)] assms(1,2)] restamp_frame(2) [OF assms(3)] by simp

lemma remove_last_filter: "distinct hs \<Longrightarrow> remove_last h hs = filter (\<lambda>x. x \<noteq> h) hs"
  by (simp add: remove_last_def distinct_remove1_removeAll removeAll_filter_not_eq rev_filter [symmetric])
    (rule filter_cong, auto)

lemma by_height_filter: "by_height w hs \<Longrightarrow> by_height w (filter P hs)"
  by (simp add: by_height_def sorted_wrt_filter)

lemma mset_filter_one: "h \<in> set hs \<Longrightarrow> distinct hs \<Longrightarrow> mset hs = add_mset h (mset (filter (\<lambda>x. x \<noteq> h) hs))"
proof (induction hs)
  case (Cons a hs)
  show ?case
  proof (cases "a = h")
    case True
    then have "filter (\<lambda>x. x \<noteq> h) hs = hs" using Cons.prems by (auto simp: filter_id_conv)
    then show ?thesis using True by simp
  next
    case False
    then show ?thesis using Cons by simp
  qed
qed simp

lemma update_one_ok:
  assumes "wallet_ok e r w"
  shows "\<exists>w' hs' need'. update_one height stamp h (w, hs, need) = Some (w', hs', need') \<and> wallet_ok e r w'"
proof (cases "allTx w h")
  case None
  then show ?thesis using assms by (simp add: update_one_def)
next
  case (Some t)
  note base = base_okD [OF wallet_okD(1) [OF assms]]
  let ?t = "t\<lparr>tx_timestamp := stamp, blockHeight := height\<rparr>" and ?w = "restamp height stamp h t w"
  note frame = restamp_frame [OF Some, of height stamp]
  have money: "money_ok ?w" by (rule restamp_money [OF wallet_okD(2) [OF assms] base(1) Some])
  have th: "txHash ?t = h" using base(1) Some by (simp add: sane_store_def)
  have others: "by_height ?w (filter (\<lambda>x. x \<noteq> h) (transactions w))"
    using by_height_filter [OF base(5), of "\<lambda>x. x \<noteq> h"]
    by (subst by_height_cong [of _ ?w w]) (simp_all add: frame(5))
  have away: "wallet_ok e r ?w" if "h \<notin> set (transactions w)"
  proof -
    have "filter (\<lambda>x. x \<noteq> h) (transactions w) = transactions w" using that by (metis (mono_tags, lifting) filter_True)
    then have "base_ok e r ?w" using others by (intro restamp_base [OF wallet_okD(1) [OF assms] Some]) simp
    then show ?thesis using wallet_okD [OF assms] money by (simp add: wallet_ok_def)
  qed
  have result: "update_one height stamp h (w, hs, need) =
     (if blockHeight t = height \<and> tx_timestamp t = stamp then Some (w, hs, need)
      else if ContainsTx w t then
        Option.bind (if h \<in> set (transactions w) then InsertTx (?w\<lparr>transactions := remove_last h (transactions w)\<rparr>) ?t else Some ?w)
          (\<lambda>w. Some (w, hs @ [h], need \<or> h \<in> pendingTx w \<or> h \<in> invalidTx w))
      else if height \<noteq> TX_UNCONFIRMED then
        (if h \<in> set (transactions w) then None else Some (?w\<lparr>allTx := (allTx ?w)(h := None)\<rparr>, hs, need))
      else Some (?w, hs, need))"
    unfolding update_one_def Let_def prod.case Some option.case restamp_def [symmetric] frame(6) restamp_fields ..
  consider "blockHeight t = height \<and> tx_timestamp t = stamp"
    | "\<not> (blockHeight t = height \<and> tx_timestamp t = stamp)" "ContainsTx w t" "h \<in> set (transactions w)"
    | "\<not> (blockHeight t = height \<and> tx_timestamp t = stamp)" "ContainsTx w t" "h \<notin> set (transactions w)"
    | "\<not> (blockHeight t = height \<and> tx_timestamp t = stamp)" "\<not> ContainsTx w t" by blast
  then show ?thesis
  proof cases
    case 1
    then show ?thesis unfolding result using assms by simp
  next
    case 2
    let ?rest = "filter (\<lambda>x. x \<noteq> h) (transactions w)"
    let ?w2 = "?w\<lparr>transactions := ?rest\<rparr>"
    have "sane_store r (allTx ?w2)" "allTx ?w2 (txHash ?t) = Some ?t"
      "\<forall>h \<in> set (transactions ?w2). allTx ?w2 h \<noteq> None" "by_height ?w2 (transactions ?w2)"
      using restamp_sane [OF base(1) Some] others base(6) th by (auto simp: restamp_def)
    from InsertTx_ok [OF this] th obtain hs' where hs': "InsertTx ?w2 ?t = Some (?w\<lparr>transactions := hs'\<rparr>)"
      "mset hs' = add_mset h (mset ?rest)" "by_height ?w hs'" by auto
    have "mset (transactions w) = add_mset h (mset ?rest)"
      using 2(3) base(3) by (rule mset_filter_one)
    then have eq: "mset hs' = mset (transactions w)" using hs'(2) by simp
    then have same: "set hs' = set (transactions w)" "length hs' = length (transactions w)" "distinct hs'"
      using base(3) mset_eq_setD [OF eq] mset_eq_length [OF eq] mset_eq_imp_distinct_iff [OF eq] by simp_all
    have "base_ok e r (?w\<lparr>transactions := hs'\<rparr>)"
      using base restamp_sane [OF base(1) Some] hs'(3) same frame(7) by (simp add: base_ok_def chains_ok_def)
    moreover have "money_ok (?w\<lparr>transactions := hs'\<rparr>)"
    proof (rule grown_money [OF _ money restamp_sane [OF base(1) Some]])
      show "grown ?w (?w\<lparr>transactions := hs'\<rparr>)" by (simp add: grown_def)
    qed simp_all
    ultimately have "wallet_ok e r (?w\<lparr>transactions := hs'\<rparr>)" using wallet_okD [OF assms] same by (simp add: wallet_ok_def)
    then show ?thesis unfolding result remove_last_filter [OF base(3)] if_not_P [OF 2(1)] using 2(2,3) hs'(1) by simp
  next
    case 3
    then show ?thesis unfolding result if_not_P [OF 3(1)] using away by simp
  next
    case 4
    then have nh: "h \<notin> set (transactions w)" using base(4) Some by (auto simp: belongs_def)
    note ok = away [OF nh]
    define w3 where "w3 = ?w\<lparr>allTx := (allTx ?w)(h := None)\<rparr>"
    have w3: "allTx w3 x = (if x = h then None else allTx w x)" for x by (simp add: w3_def restamp_def)
    have f3: "transactions w3 = transactions w" "allAddrs w3 = allAddrs w" "internalChain w3 = internalChain w"
      "externalChain w3 = externalChain w" "utxos w3 = utxos w" "balance w3 = balance w" "balanceHist w3 = balanceHist w"
      "invalidTx w3 = invalidTx w" "pendingTx w3 = pendingTx w" by (simp_all add: w3_def)
    have noout: "\<not> wallet_addr w (out_address out)" if "out \<in> set (tx_outputs t)" for out
      using 4(2) that by (auto simp: ContainsTx_def list_ex_iff)
    have own: "own_output w3 i = own_output w i" for i
      using noout Some by (auto simp: own_output_def w3 wallet_addr_def f3 split: option.split)
    have contains: "ContainsTx w3 x = ContainsTx w x" for x by (simp add: ContainsTx_def own wallet_addr_def f3)
    have "belongs w3 x" if "x \<in> set (transactions w)" for x
      using that base(4) nh by (auto simp: belongs_def w3 contains split: option.splits)
    moreover have "by_height w3 (transactions w)"
      using base(5) nh by (subst by_height_cong [of _ w3 w]) (auto simp: height_of_def w3)
    moreover have "sane_store r (allTx w3)" using base(1) by (auto simp: sane_store_def w3)
    ultimately have "base_ok e r w3" using base(2,3) by (simp add: base_ok_def f3 chains_ok_def)
    moreover have "money_ok w3"
    proof -
      have "own_outpoints w (dom (allTx w)) \<subseteq> own_outpoints w3 (dom (allTx w3))"
      proof
        fix u assume "u \<in> own_outpoints w (dom (allTx w))"
        then obtain x tx j where u: "u = (x, of_nat j)" "allTx w x = Some tx" "j < length (tx_outputs tx)"
          "out_address (tx_outputs tx ! j) \<noteq> []" "wallet_addr w (out_address (tx_outputs tx ! j))"
          by (auto simp: own_outpoints_def)
        then have "x \<noteq> h" using noout [of "tx_outputs tx ! j"] Some by auto
        then have "allTx w3 x = Some tx" "wallet_addr w3 = wallet_addr w"
          using u(2) by (auto simp: w3 wallet_addr_def f3)
        then show "u \<in> own_outpoints w3 (dom (allTx w3))" using u unfolding own_outpoints_def by fastforce
      qed
      moreover have "total_worth w3 (utxos w) = total_worth w (utxos w)"
      proof (rule total_worth_cong)
        fix u assume "u \<in> set (utxos w)"
        then have "u \<in> own_outpoints w (dom (allTx w))" using wallet_okD(2) [OF assms] by (auto simp: money_ok_def)
        then have "fst u \<noteq> h" using noout Some by (auto simp: own_outpoints_def)
        then show "utxo_output w3 u = utxo_output w u" by (simp add: utxo_output_def w3)
      qed
      ultimately show ?thesis using wallet_okD(2) [OF assms] by (auto simp: money_ok_def f3)
    qed
    ultimately have "wallet_ok e r w3" using wallet_okD [OF assms] by (simp add: wallet_ok_def f3)
    then show ?thesis unfolding result w3_def [symmetric] if_not_P [OF 4(1)] if_not_P [OF 4(2)] using nh ok by auto
  qed
qed

lemma UpdateTransactions_ok:
  assumes "wallet_ok e r w"
  shows "\<exists>w' evs. BRWalletUpdateTransactions now w hs height stamp = Some (w', evs) \<and> wallet_ok e r w'"
proof -
  define w0 where "w0 = (if height > chainHeight w then w\<lparr>chainHeight := height\<rparr> else w)"
  have w0: "wallet_ok e r w0" by (rule wallet_ok_cong [OF assms]) (simp_all add: w0_def)
  have "\<exists>s'. fold_option (update_one height stamp) hs (w0, [], False) = Some s' \<and> wallet_ok e r (fst s')"
  proof (rule fold_option_inv [where I = "\<lambda>s. wallet_ok e r (fst s)"])
    fix x and s :: "wallet \<times> UInt256 list \<times> bool"
    assume "wallet_ok e r (fst s)"
    from update_one_ok [OF this, of height stamp x "fst (snd s)" "snd (snd s)"]
    show "\<exists>s'. update_one height stamp x s = Some s' \<and> wallet_ok e r (fst s')" by auto
  qed (simp add: w0)
  then obtain w1 hashes need where f: "fold_option (update_one height stamp) hs (w0, [], False) = Some (w1, hashes, need)"
    "wallet_ok e r w1" by auto
  obtain w2 where "UpdateBalance now w1 = Some w2" "wallet_ok e r w2"
    using UpdateBalance_ok [OF wallet_okD(1) [OF f(2)]] by blast
  then show ?thesis using f unfolding BRWalletUpdateTransactions_def w0_def [symmetric] Let_def by (cases need) simp_all
qed

lemma confirmed_after_takeWhile:
  "\<forall>h \<in> set hs. allTx w h \<noteq> None \<Longrightarrow> confirmed_after w height hs = Some (takeWhile (\<lambda>h. height_of w h > height) hs)"
  by (induction hs) (auto simp: height_of_def)

lemma unconfirm_restamp:
  "unconfirm h w = map_option (\<lambda>t. restamp TX_UNCONFIRMED (tx_timestamp t) h t w) (allTx w h)"
  by (cases "allTx w h") (simp_all add: unconfirm_def restamp_def)

text \<open>Marking the newest part of the transactions as unconfirmed keeps the order.\<close>

lemma unconfirm_all:
  assumes "wallet_ok e r w" "transactions w = old @ new"
  shows "\<exists>w'. fold_option unconfirm new w = Some w' \<and> sane_store r (allTx w') \<and> money_ok w' \<and> belongs w' = belongs w \<and>
    chains_ok e w' \<and> transactions w' = transactions w \<and> balanceHist w' = balanceHist w \<and> invalidTx w' = invalidTx w \<and>
    pendingTx w' = pendingTx w \<and> dom (allTx w') = dom (allTx w) \<and>
    (\<forall>h. height_of w' h = (if h \<in> set new then TX_UNCONFIRMED else height_of w h))"
proof -
  note base = base_okD [OF wallet_okD(1) [OF assms(1)]]
  let ?I = "\<lambda>ys w'. sane_store r (allTx w') \<and> money_ok w' \<and> belongs w' = belongs w \<and>
    chains_ok e w' \<and> transactions w' = transactions w \<and> balanceHist w' = balanceHist w \<and> invalidTx w' = invalidTx w \<and>
    pendingTx w' = pendingTx w \<and> dom (allTx w') = dom (allTx w) \<and>
    (\<forall>h. height_of w' h = (if h \<in> set ys then TX_UNCONFIRMED else height_of w h))"
  show ?thesis
  proof (rule fold_option_prefix [of ?I])
    show "?I [] w" using base wallet_okD [OF assms(1)] by simp
    fix ys x zs w1
    assume x: "new = ys @ x # zs" and I: "?I ys w1"
    have "x \<in> dom (allTx w1)" using x assms(2) base(6) I by auto
    then obtain t where t: "allTx w1 x = Some t" by auto
    let ?w = "restamp TX_UNCONFIRMED (tx_timestamp t) x t w1"
    note frame = restamp_frame [OF t, of TX_UNCONFIRMED "tx_timestamp t"]
    have "money_ok ?w" using I by (intro restamp_money [OF _ _ t]) auto
    moreover have "sane_store r (allTx ?w)" using I by (intro restamp_sane [OF _ t]) auto
    ultimately have "?I (ys @ [x]) ?w" using I frame(2,5,7) by (simp add: chains_ok_def)
    then show "\<exists>w'. unconfirm x w1 = Some w' \<and> ?I (ys @ [x]) w'" using t by (simp add: unconfirm_restamp)
  qed
qed

lemma by_height_last: "by_height w hs \<Longrightarrow> hs \<noteq> [] \<Longrightarrow> \<forall>h \<in> set hs. height_of w h \<le> height_of w (last hs)"
  by (induction hs) (auto simp: by_height_def)

lemma sorted_wrt_const: "\<forall>x \<in> set xs. \<forall>y \<in> set xs. P x y \<Longrightarrow> sorted_wrt P xs"
  by (induction xs) auto

lemma SetTxUnconfirmedAfter_spec:
  assumes "wallet_ok e r w" "height \<le> TX_UNCONFIRMED"
  shows "\<exists>w' evs. BRWalletSetTxUnconfirmedAfter now w height = Some (w', evs) \<and> wallet_ok e r w' \<and> transactions w' = transactions w \<and>
    (\<forall>h \<in> set (transactions w). height_of w' h = (if height_of w h > height then TX_UNCONFIRMED else height_of w h))"
proof -
  define w0 where "w0 = w\<lparr>chainHeight := height\<rparr>"
  have ok: "wallet_ok e r w0" by (rule wallet_ok_cong [OF assms(1)]) (simp_all add: w0_def)
  note base = base_okD [OF wallet_okD(1) [OF ok]]
  let ?P = "\<lambda>h. height_of w0 h > height"
  define new where "new = rev (takeWhile ?P (rev (transactions w0)))"
  define old where "old = rev (dropWhile ?P (rev (transactions w0)))"
  have T: "transactions w0 = old @ new" unfolding old_def new_def by (metis rev_append rev_rev_ident takeWhile_dropWhile_id)
  have c: "map_option rev (confirmed_after w0 height (rev (transactions w0))) = Some new"
    using base(6) by (simp add: confirmed_after_takeWhile new_def)
  obtain w1 where w1: "fold_option unconfirm new w0 = Some w1" "sane_store r (allTx w1)" "money_ok w1" "belongs w1 = belongs w0"
    "chains_ok e w1" "transactions w1 = transactions w0" "balanceHist w1 = balanceHist w0" "invalidTx w1 = invalidTx w0"
    "pendingTx w1 = pendingTx w0" "\<forall>h. height_of w1 h = (if h \<in> set new then TX_UNCONFIRMED else height_of w0 h)"
    using unconfirm_all [OF ok T] by blast
  have low: "\<forall>h \<in> set old. height_of w0 h \<le> height"
  proof (cases "old = []")
    case False
    then have "\<not> ?P (last old)" unfolding old_def by (metis hd_dropWhile last_rev rev.simps(1) rev_rev_ident)
    moreover have "by_height w0 old" using base(5) unfolding T by (simp add: by_height_def sorted_wrt_append)
    then have "\<forall>h \<in> set old. height_of w0 h \<le> height_of w0 (last old)" using False by (rule by_height_last)
    ultimately show ?thesis by (meson order_trans not_less)
  qed simp
  have "by_height w1 old"
    using base(3,5) w1(10) unfolding T
    by (subst by_height_cong [of _ w1 w0]) (auto simp: by_height_def sorted_wrt_append)
  moreover have "by_height w1 new" using w1(10) unfolding by_height_def by (intro sorted_wrt_const) auto
  ultimately have "by_height w1 (transactions w1)"
    using base(3) low assms(2) w1(10) unfolding w1(6) T by (auto simp: by_height_def sorted_wrt_append intro: order_trans)
  then have "base_ok e r w1" using w1 base by (simp add: base_ok_def)
  from UpdateBalance_ok [OF this, of now] obtain w2 where w2: "UpdateBalance now w1 = Some w2" "wallet_ok e r w2" "allTx w2 = allTx w1"
    "transactions w2 = transactions w1" by blast
  have high: "\<forall>h \<in> set new. height_of w0 h > height" by (auto simp: new_def dest: set_takeWhileD)
  have hw: "height_of w0 = height_of w" by (intro ext) (simp add: height_of_def w0_def)
  have h1: "\<forall>h \<in> set (transactions w). height_of w1 h = (if height_of w h > height then TX_UNCONFIRMED else height_of w h)"
  proof
    fix h assume "h \<in> set (transactions w)"
    then have "h \<in> set old \<or> h \<in> set new" using T by (simp add: w0_def)
    then show "height_of w1 h = (if height_of w h > height then TX_UNCONFIRMED else height_of w h)"
      using high low w1(10) by (auto simp: hw leD)
  qed
  have h2: "height_of w2 = height_of w1" by (intro ext) (simp add: height_of_def w2(3))
  have t: "transactions w1 = transactions w" "transactions w2 = transactions w" by (simp_all add: w1(6) w2(4) w0_def)
  have ok1: "wallet_ok e r w1" using \<open>base_ok e r w1\<close> w1 wallet_okD [OF ok] by (simp add: wallet_ok_def)
  show ?thesis
  proof (cases "new = []")
    case True
    then have "BRWalletSetTxUnconfirmedAfter now w height = Some (w1, [])"
      using w1(1) unfolding BRWalletSetTxUnconfirmedAfter_def w0_def [symmetric] Let_def c by simp
    then show ?thesis using ok1 h1 t(1) by blast
  next
    case False
    then have "BRWalletSetTxUnconfirmedAfter now w height = Some (w2, [TxUpdated new TX_UNCONFIRMED 0])"
      using w1(1) w2(1) unfolding BRWalletSetTxUnconfirmedAfter_def w0_def [symmetric] Let_def c by simp
    then show ?thesis using w2(2) h1 [folded h2] t(2) by blast
  qed
qed

lemma SetTxUnconfirmedAfter_ok:
  assumes "wallet_ok e r w" "height \<le> TX_UNCONFIRMED"
  shows "\<exists>w' evs. BRWalletSetTxUnconfirmedAfter now w height = Some (w', evs) \<and> wallet_ok e r w'"
  using SetTxUnconfirmedAfter_spec [OF assms, of now] by blast

end
