(* ===== verification/WalletRemoval.thy ===== *)
theory WalletRemoval
  imports WalletState
begin

text \<open>
  Removal of a transaction and of those that spend it: it ends, and takes exactly these off the list.
\<close>

section \<open>Removal\<close>

lemma IsValid_ends:
  assumes "sane_store r (allTx w)" "sane_tx r t"
  shows "BRWalletTransactionIsValid w t \<noteq> None"
  using assms(2)
proof (induction "r (txHash t)" arbitrary: t rule: less_induct)
  case less
  let ?body = "\<lambda>i. do {
      p \<leftarrow> BRWalletTransactionForHash w (in_hash i);
      case p of None \<Rightarrow> Some False | Some p \<Rightarrow> do { v \<leftarrow> BRWalletTransactionIsValid w p; Some (\<not> v) }
    }"
  have "?body i \<noteq> None" if "i \<in> set (tx_inputs t)" for i
  proof (cases "allTx w (in_hash i)")
    case None
    then show ?thesis using sane_inputD [OF less.prems that] by (simp add: BRWalletTransactionForHash_def)
  next
    case (Some p)
    with assms(1) have "txHash p = in_hash i" "sane_tx r p" by (auto dest: sane_storeD)
    with less.hyps [of p] sane_inputD [OF less.prems that] show ?thesis
      using Some by (auto simp: BRWalletTransactionForHash_def)
  qed
  then obtain bad where "any_option ?body (tx_inputs t) = Some bad" using any_option_total [of "tx_inputs t" ?body] by blast
  then show ?case using less.prems
    by (subst BRWalletTransactionIsValid.simps) (simp add: sane_tx_def ex_bool_eq split: if_split)
qed

lemma removal_notice_ends:
  assumes "sane_store r (allTx w)" "sane_tx r t"
  shows "\<exists>a b. removal_notice w t = Some (a, b)"
proof -
  let ?body = "\<lambda>i. do {
      p \<leftarrow> BRWalletTransactionForHash w (in_hash i);
      Some (case p of None \<Rightarrow> True | Some p \<Rightarrow> blockHeight p = TX_UNCONFIRMED)
    }"
  have "?body i \<noteq> None" if "i \<in> set (tx_inputs t)" for i
    using sane_inputD [OF assms(2) that] by (simp add: BRWalletTransactionForHash_def)
  then obtain c where "any_option ?body (tx_inputs t) = Some c" using any_option_total [of "tx_inputs t" ?body] by blast
  then show ?thesis using IsValid_ends [OF assms] by (auto simp: removal_notice_def)
qed

text \<open>The transactions that have to go first.\<close>

definition spenders :: "wallet \<Rightarrow> UInt256 \<Rightarrow> UInt256 set" where
  "spenders w h = {x \<in> set (transactions w). x \<noteq> h \<and> height_of w h \<le> height_of w x \<and> h \<in> fst ` spends w {x}}"

lemma spends_hash: "allTx w x = Some t \<Longrightarrow> h \<in> fst ` spends w {x} \<longleftrightarrow> (\<exists>i \<in> set (tx_inputs t). in_hash i = h)"
  by (force simp: spends_one input_key_def)

lemma dependents_set:
  assumes "sane_store r (allTx w)" "allTx w h = Some t" "\<forall>x \<in> set hs. allTx w x \<noteq> None"
    "sorted_wrt (\<lambda>a b. height_of w b \<le> height_of w a) hs"
  shows "\<exists>ds. dependents w t hs = Some ds \<and>
    set ds = {x \<in> set hs. x \<noteq> h \<and> height_of w h \<le> height_of w x \<and> h \<in> fst ` spends w {x}}"
  using assms(3,4)
proof (induction hs)
  case (Cons x xs)
  obtain p where p: "allTx w x = Some p" using Cons.prems by auto
  have th: "txHash t = h" "txHash p = x" using assms(1,2) p by (auto dest: sane_storeD)
  have ht: "height_of w h = blockHeight t" "height_of w x = blockHeight p" using assms(2) p by (auto simp: height_of_def)
  obtain ds where ds: "dependents w t xs = Some ds"
    "set ds = {x \<in> set xs. x \<noteq> h \<and> height_of w h \<le> height_of w x \<and> h \<in> fst ` spends w {x}}"
    using Cons.IH Cons.prems unfolding sorted_wrt.simps list.set by blast
  show ?case
  proof (cases "blockHeight p < blockHeight t")
    case True
    have "\<not> height_of w h \<le> height_of w y" if "y \<in> set (x # xs)" for y
    proof -
      have "height_of w y \<le> height_of w x" using that Cons.prems(2) by auto
      then show ?thesis using True unfolding ht by (metis leD le_less_trans)
    qed
    then have "{y \<in> set (x # xs). y \<noteq> h \<and> height_of w h \<le> height_of w y \<and> h \<in> fst ` spends w {y}} = {}"
      by blast
    then show ?thesis using True p by simp
  next
    case False
    define Q where "Q y \<longleftrightarrow> y \<noteq> h \<and> height_of w h \<le> height_of w y \<and> h \<in> fst ` spends w {y}" for y
    have "\<not> BRTransactionEq t p \<and> list_ex (\<lambda>i. UInt256Eq (in_hash i) (txHash t)) (tx_inputs p) \<longleftrightarrow> Q x"
      using th ht False unfolding Q_def by (auto simp: spends_hash [OF p] list_ex_iff BRTransactionEq_def)
    then have "dependents w t (x # xs) = Some (if Q x then x # ds else ds)"
      using False p ds(1) th by simp
    moreover have "set (if Q x then x # ds else ds) = {y \<in> set (x # xs). Q y}" using ds(2) unfolding Q_def [symmetric] by auto
    ultimately show ?thesis unfolding Q_def by blast
  qed
qed simp

lemma dependents_are_spenders:
  assumes "base_ok e r w" "allTx w h = Some t"
  shows "\<exists>ds. dependents w t (rev (transactions w)) = Some ds \<and> set ds = spenders w h"
  using dependents_set [OF base_okD(1) [OF assms(1)] assms(2), of "rev (transactions w)"] base_okD(5,6) [OF assms(1)]
  by (auto simp: spenders_def by_height_def sorted_wrt_rev)

lemma spender_listed: "x \<in> spenders w h \<Longrightarrow> x \<in> set (transactions w)"
  by (simp add: spenders_def)

lemma spender_rank:
  assumes "sane_store r (allTx w)" "x \<in> spenders w h"
  shows "r h < r x"
proof -
  have x: "h \<in> fst ` spends w {x}" using assms(2) by (simp add: spenders_def)
  then obtain p where p: "allTx w x = Some p" by (auto simp: spends_def)
  with x obtain i where "i \<in> set (tx_inputs p)" "in_hash i = h" by (auto simp: spends_hash [OF p])
  with sane_storeD [OF assms(1) p] sane_inputD [of r p i] show ?thesis by auto
qed

lemma remove_leaf:
  assumes "wallet_ok e r w" "h \<noteq> 0" "allTx w h = Some t" "spenders w h = {}"
  shows "\<exists>w' evs'. BRWalletRemoveTransaction now h (w, evs) = Some (w', evs') \<and> wallet_ok e r w' \<and> allTx w' = allTx w \<and>
    transactions w' = filter (\<lambda>x. x \<noteq> h) (transactions w)"
proof -
  note base = wallet_okD(1) [OF assms(1)]
  have d: "dependents w t (rev (transactions w)) = Some []"
    using dependents_are_spenders [OF base assms(3)] assms(4) by auto
  let ?w = "w\<lparr>transactions := filter (\<lambda>x. x \<noteq> h) (transactions w)\<rparr>"
  have "base_ok e r ?w"
    using base_okD [OF base] by (intro base_ok_transactions [OF base] by_height_filter) auto
  from UpdateBalance_ok [OF this, of now] obtain w' where w': "UpdateBalance now ?w = Some w'" "wallet_ok e r w'"
    "allTx w' = allTx w" "transactions w' = filter (\<lambda>x. x \<noteq> h) (transactions w)" by auto
  have "sane_tx r t" using base_okD(1) [OF base] assms(3) by (auto dest: sane_storeD)
  then obtain a b where "removal_notice w' t = Some (a, b)"
    using removal_notice_ends [OF base_okD(1) [OF wallet_okD(1) [OF w'(2)]]] by blast
  then show ?thesis
    using assms(2,3) d w' remove_last_filter [OF base_okD(3) [OF base]]
    by (subst BRWalletRemoveTransaction.simps) simp
qed

lemma spenders_frame:
  "allTx w' = allTx w \<Longrightarrow> set (transactions w') \<subseteq> set (transactions w) \<Longrightarrow>
    spenders w' h = spenders w h \<inter> set (transactions w')"
  unfolding spenders_def height_of_def spends_def by (simp only:) blast

text \<open>From a transaction to those that spend it.\<close>

definition spend_rel :: "wallet \<Rightarrow> (UInt256 \<times> UInt256) set" where
  "spend_rel w = {(a, b). b \<in> spenders w a}"

abbreviation descendants :: "wallet \<Rightarrow> UInt256 set \<Rightarrow> UInt256 set" where
  "descendants w H \<equiv> (spend_rel w)\<^sup>* `` H"

text \<open>Nothing changes between the transactions that are left when whole families have been removed.\<close>

lemma descendants_left:
  assumes "allTx w1 = allTx w" "transactions w1 = filter (\<lambda>x. x \<notin> descendants w Y) (transactions w)" "x \<in> set (transactions w1)"
  shows "x \<in> descendants w1 {d} \<longleftrightarrow> x \<in> descendants w {d}"
proof
  have sub: "spend_rel w1 \<subseteq> spend_rel w"
    using spenders_frame [OF assms(1)] assms(2) by (auto simp: spend_rel_def)
  assume "x \<in> descendants w1 {d}"
  then show "x \<in> descendants w {d}" using rtrancl_mono [OF sub] by blast
next
  have into: "(y, z) \<in> spend_rel w1" if "(y, z) \<in> spend_rel w" "z \<in> set (transactions w1)" for y z
    using that spenders_frame [OF assms(1)] assms(2) by (auto simp: spend_rel_def)
  assume "x \<in> descendants w {d}"
  then have "(d, x) \<in> (spend_rel w)\<^sup>*" by simp
  then have "x \<in> set (transactions w1) \<longrightarrow> (d, x) \<in> (spend_rel w1)\<^sup>*"
  proof (induction rule: rtrancl_induct)
    case (step y z)
    show ?case
    proof
      assume z: "z \<in> set (transactions w1)"
      have "y \<in> set (transactions w1)" if "y \<noteq> d"
      proof -
        have "y \<in> set (transactions w)"
          using step.hyps(1) that by (cases rule: rtranclE) (auto simp: spend_rel_def dest: spender_listed)
        moreover have "y \<notin> descendants w Y" using z step.hyps(2) assms(2) by (auto intro: rtrancl_into_rtrancl)
        ultimately show ?thesis using assms(2) by simp
      qed
      then have "(d, y) \<in> (spend_rel w1)\<^sup>*" using step.IH by (cases "y = d") auto
      then show "(d, z) \<in> (spend_rel w1)\<^sup>*" using into [OF step.hyps(2) z] by simp
    qed
  qed simp
  then show "x \<in> descendants w1 {d}" using assms(3) by simp
qed

definition removes :: "env \<Rightarrow> (UInt256 \<Rightarrow> nat) \<Rightarrow> wallet \<Rightarrow> UInt256 set \<Rightarrow> wallet \<Rightarrow> bool" where
  "removes e r w H w' \<longleftrightarrow> wallet_ok e r w' \<and> allTx w' = allTx w \<and>
     transactions w' = filter (\<lambda>x. x \<notin> descendants w H) (transactions w)"

lemma removes_insert:
  assumes "removes e r w H w1" "removes e r w1 {d} w2"
  shows "removes e r w (insert d H) w2"
proof -
  have "x \<in> descendants w (insert d H) \<longleftrightarrow> x \<in> descendants w H \<or> x \<in> descendants w {d}" for x by auto
  moreover have "filter (\<lambda>x. x \<notin> descendants w1 {d}) (transactions w1) = filter (\<lambda>x. x \<notin> descendants w {d}) (transactions w1)"
    using descendants_left [of w1 w H] assms(1) by (intro filter_cong) (auto simp: removes_def)
  ultimately show ?thesis using assms by (simp add: removes_def conj_commute)
qed

lemma removed_first:
  assumes "wallet_ok e r w" "allTx w h = Some t"
    "\<And>d w1 ev1. d \<in> spenders w h \<Longrightarrow> wallet_ok e r w1 \<Longrightarrow> allTx w1 = allTx w \<Longrightarrow>
      set (transactions w1) \<subseteq> set (transactions w) \<Longrightarrow>
      \<exists>w2 ev2. BRWalletRemoveTransaction now d (w1, ev1) = Some (w2, ev2) \<and> removes e r w1 {d} w2"
    "set ds \<subseteq> spenders w h"
  shows "\<exists>w' evs'. fold_option (\<lambda>d s. BRWalletRemoveTransaction now d s) ds (w, evs) = Some (w', evs') \<and> removes e r w (set ds) w'"
proof -
  let ?I = "\<lambda>ys (s :: wallet \<times> event list). removes e r w (set ys) (fst s)"
  have "\<exists>s'. fold_option (\<lambda>d s. BRWalletRemoveTransaction now d s) ds (w, evs) = Some s' \<and> ?I ds s'"
  proof (rule fold_option_prefix)
    show "?I [] (w, evs)" using assms(1) by (simp add: removes_def)
  next
    fix ys d zs s
    assume "ds = ys @ d # zs" and I: "?I ys s"
    then have "d \<in> spenders w h" using assms(4) by auto
    then obtain w2 ev2 where "BRWalletRemoveTransaction now d (fst s, snd s) = Some (w2, ev2)" "removes e r (fst s) {d} w2"
      using assms(3) [of d "fst s" "snd s"] I by (auto simp: removes_def)
    then show "\<exists>s'. BRWalletRemoveTransaction now d s = Some s' \<and> ?I (ys @ [d]) s'" using removes_insert [OF I] by auto
  qed
  then show ?thesis by auto
qed

lemma removes_last:
  assumes "removes e r w (spenders w h) w1" "wallet_ok e r w2" "allTx w2 = allTx w1"
    "transactions w2 = filter (\<lambda>x. x \<noteq> h) (transactions w1)"
  shows "removes e r w {h} w2"
proof -
  have "x \<in> descendants w {h} \<longleftrightarrow> x = h \<or> x \<in> descendants w (spenders w h)" for x
    by (auto simp: spend_rel_def elim: converse_rtranclE intro: converse_rtrancl_into_rtrancl)
  with assms show ?thesis by (simp add: removes_def conj_commute)
qed

lemma remove_ok:
  assumes "wallet_ok e r w" "h \<noteq> 0" "allTx w h \<noteq> None"
  shows "\<exists>w' evs'. BRWalletRemoveTransaction now h (w, evs) = Some (w', evs') \<and> removes e r w {h} w'"
  using assms
proof (induction "card {x \<in> set (transactions w). r h < r x}" arbitrary: h w evs rule: less_induct)
  case less
  note base = wallet_okD(1) [OF less.prems(1)]
  obtain t where t: "allTx w h = Some t" using less.prems(3) by blast
  obtain ds where ds: "dependents w t (rev (transactions w)) = Some ds" "set ds = spenders w h"
    using dependents_are_spenders [OF base t] by blast
  have "\<exists>w' evs'. fold_option (\<lambda>d s. BRWalletRemoveTransaction now d s) (rev ds) (w, evs) = Some (w', evs') \<and>
    removes e r w (set (rev ds)) w'"
  proof (rule removed_first [OF less.prems(1) t])
    fix d w1 and ev1 :: "event list"
    assume d: "d \<in> spenders w h" and w1: "wallet_ok e r w1" "allTx w1 = allTx w" "set (transactions w1) \<subseteq> set (transactions w)"
    have rank: "r h < r d" and listed: "d \<in> set (transactions w)"
      using spender_rank [OF base_okD(1) [OF base] d] spender_listed [OF d] by auto
    have "card {x \<in> set (transactions w1). r d < r x} < card {x \<in> set (transactions w). r h < r x}"
      by (rule psubset_card_mono) (use rank listed w1(3) in auto)
    moreover have known: "allTx w d \<noteq> None" using base_okD(6) [OF base] listed by auto
    moreover have "d \<noteq> 0" using known base_okD(1) [OF base] by (auto dest: sane_storeD simp: sane_tx_def)
    ultimately show "\<exists>w2 ev2. BRWalletRemoveTransaction now d (w1, ev1) = Some (w2, ev2) \<and> removes e r w1 {d} w2"
      using less.hyps [of w1 d ev1] w1 by auto
  qed (simp add: ds)
  then obtain w1 ev1 where w1: "fold_option (\<lambda>d s. BRWalletRemoveTransaction now d s) (rev ds) (w, evs) = Some (w1, ev1)"
    "removes e r w (spenders w h) w1" using ds by auto
  have "spenders w1 h = {}"
    using spenders_frame [of w1 w h] w1(2) by (auto simp: removes_def)
  then obtain w2 ev2 where w2: "BRWalletRemoveTransaction now h (w1, ev1) = Some (w2, ev2)" "wallet_ok e r w2" "allTx w2 = allTx w1"
    "transactions w2 = filter (\<lambda>x. x \<noteq> h) (transactions w1)"
    using remove_leaf [of e r w1 h t now ev1] w1(2) t less.prems(2) by (auto simp: removes_def)
  have "BRWalletRemoveTransaction now h (w, evs) = Some (w2, ev2)"
  proof (cases "ds = []")
    case True
    then show ?thesis using w1(1) w2(1) by simp
  next
    case False
    then show ?thesis using w1(1) w2(1) t ds(1) less.prems(2) by (subst BRWalletRemoveTransaction.simps) simp
  qed
  with removes_last [OF w1(2) w2(2-4)] show ?case by blast
qed


text \<open>
  C6: removing a transaction always comes to an end, although it calls itself for every transaction that depends on the
  removed one and then once more for the transaction itself. What goes is exactly the transaction and those that spend its outputs,
  directly or through others, at no lower height; the others keep their order, the balance and all other books
  are those of the transactions that are left, and the objects of the removed transactions stay in the store of all transactions.
\<close>

theorem remove_tx_spec:
  assumes "wallet_ok e r w" "h \<noteq> 0" "allTx w h \<noteq> None"
  shows "\<exists>w' evs'. BRWalletRemoveTransaction now h (w, evs) = Some (w', evs') \<and> wallet_ok e r w' \<and> allTx w' = allTx w \<and>
    transactions w' = filter (\<lambda>x. x \<notin> descendants w {h}) (transactions w)"
  using remove_ok [OF assms] by (simp add: removes_def)

text \<open>A wallet with one confirmed payment to its first address.\<close>

definition sample_income :: tx where
  "sample_income = \<lparr>txHash = 5, tx_version = 1, tx_inputs = [sample_input 3 0xffffffff],
     tx_outputs = [\<lparr>out_address = addr_at (derive sample_env False) 0, out_amount = 1000000, out_script = Some [81]\<rparr>],
     lockTime = 0, blockHeight = 100, tx_timestamp = 0\<rparr>"

definition sample_funds :: wallet where
  "sample_funds = empty_wallet\<lparr>allTx := [5 \<mapsto> sample_income], transactions := [5], balance := 1000000, balanceHist := [1000000],
     utxos := [(5, 0)], externalChain := [addr_at (derive sample_env False) 0],
     allAddrs := {addr_key (addr_at (derive sample_env False) 0)}\<rparr>"

lemma sample_funds_ok: "wallet_ok sample_env unat sample_funds"
proof -
  have a: "addr_at (derive sample_env False) 0 \<noteq> []" by (simp add: addr_at_def sample_env_def)
  have f: "allTx sample_funds = [5 \<mapsto> sample_income]" "transactions sample_funds = [5]" "utxos sample_funds = [(5, 0)]"
    "balance sample_funds = 1000000" "balanceHist sample_funds = [1000000]" "invalidTx sample_funds = {}" "pendingTx sample_funds = {}"
    "externalChain sample_funds = [addr_at (derive sample_env False) 0]" "internalChain sample_funds = []"
    "allAddrs sample_funds = {addr_key (addr_at (derive sample_env False) 0)}"
    by (simp_all add: sample_funds_def empty_wallet_def)
  have t: "txHash sample_income = 5" "tx_inputs sample_income = [sample_input 3 0xffffffff]"
    "tx_outputs sample_income = [\<lparr>out_address = addr_at (derive sample_env False) 0, out_amount = 1000000, out_script = Some [81]\<rparr>]"
    by (simp_all add: sample_income_def)
  have "sane_store unat (allTx sample_funds)"
    by (simp add: f sane_store_def sane_tx_def t BRTransactionIsSigned_def sample_input_def)
  moreover have "chains_ok sample_env sample_funds" by (simp add: chains_ok_def f)
  moreover have "belongs sample_funds 5" by (simp add: belongs_def f ContainsTx_def t wallet_addr_def)
  moreover have "by_height sample_funds [5]" by (simp add: by_height_def)
  moreover have "money_ok sample_funds"
    using a by (simp add: money_ok_def f own_outpoints_def worth_def utxo_output_def t wallet_addr_def)
  ultimately show ?thesis by (simp add: wallet_ok_def base_ok_def f)
qed

lemma remove_tx_spec_witness:
  "\<exists>w evs. BRWalletRemoveTransaction 0 5 (sample_funds, []) = Some (w, evs) \<and> transactions w = [] \<and>
     allTx w = [5 \<mapsto> sample_income]"
proof -
  have "(5 :: UInt256) \<noteq> 0" "allTx sample_funds 5 \<noteq> None" "transactions sample_funds = [5]" "allTx sample_funds = [5 \<mapsto> sample_income]"
    by (simp_all add: sample_funds_def)
  with remove_tx_spec [OF sample_funds_ok, of 5 0 "[]"] show ?thesis by auto
qed

end
