(* ===== verification/WalletUnspent.thy ===== *)
theory WalletUnspent
  imports WalletRemoval
begin

text \<open>
  The books of the wallet after any operation: the unspent outputs are own outputs of settled transactions that no settled transaction
  spends, and the set of spent outputs is what the listed transactions spend that are not invalid. \<open>_BRWalletUpdateBalance\<close> establishes
  this, and what the operations do besides it leaves the inputs and outputs of the listed transactions alone.
\<close>

definition counted :: "wallet \<Rightarrow> UInt256 set" where
  "counted w = set (transactions w) - invalidTx w"

definition settled :: "wallet \<Rightarrow> UInt256 set" where
  "settled w = counted w - pendingTx w"

definition unspent_ok :: "wallet \<Rightarrow> bool" where
  "unspent_ok w \<longleftrightarrow> set (utxos w) \<subseteq> own_outpoints w (settled w) - spends w (settled w) \<and> spentOutputs w = spends w (counted w)"

lemma UpdateBalance_frame:
  "UpdateBalance now w = Some w' \<Longrightarrow> allTx w' = allTx w \<and> transactions w' = transactions w \<and> allAddrs w' = allAddrs w \<and>
    internalChain w' = internalChain w \<and> externalChain w' = externalChain w"
  by (auto simp: UpdateBalance_def bind_eq_Some_conv split: if_splits)

lemma update_unspent:
  assumes "UpdateBalance now w = Some w'" "store_ok w'"
  shows "unspent_ok w'"
proof -
  note frame = UpdateBalance_frame [OF assms(1)]
  then have "store_ok w" using assms(2) by (simp add: store_ok_def)
  from UpdateBalance_books [OF this, of now] obtain sc where sc: "scan_inv w (transactions w) sc"
    "utxos w' = s_utxos sc" "spentOutputs w' = s_spent sc" "invalidTx w' = s_invalid sc" "pendingTx w' = s_pending sc"
    using assms(1) by auto
  have "spends w' = spends w" "own_outpoints w' = own_outpoints w"
    using frame by (intro ext, simp add: spends_def own_outpoints_def wallet_addr_def)+
  then show ?thesis
    using scan_invD(4,5) [OF sc(1)] frame sc(2-) by (simp add: unspent_ok_def settled_def counted_def books_ok_def)
qed

section \<open>Wallets with the same books\<close>

definition ins_of :: "wallet \<Rightarrow> UInt256 \<Rightarrow> txin list option" where
  "ins_of w h = map_option tx_inputs (allTx w h)"

lemma spends_ins: "spends w H = {input_key i | i ins h. h \<in> H \<and> ins_of w h = Some ins \<and> i \<in> set ins}"
  by (auto simp: spends_def ins_of_def)

definition same_books :: "wallet \<Rightarrow> wallet \<Rightarrow> bool" where
  "same_books w w' \<longleftrightarrow> utxos w' = utxos w \<and> spentOutputs w' = spentOutputs w \<and> invalidTx w' = invalidTx w \<and>
     pendingTx w' = pendingTx w \<and> set (transactions w') = set (transactions w) \<and> allAddrs w \<subseteq> allAddrs w' \<and>
     (\<forall>h \<in> set (transactions w). ins_of w' h = ins_of w h \<and> outs_of w' h = outs_of w h)"

lemma same_books_refl: "same_books w w"
  by (simp add: same_books_def)

lemma same_books_trans: "same_books a b \<Longrightarrow> same_books b c \<Longrightarrow> same_books a c"
  by (auto simp: same_books_def)

lemma same_unspent:
  assumes "unspent_ok w" "same_books w w'"
  shows "unspent_ok w'"
proof -
  have s: "counted w' = counted w" "settled w' = settled w" "counted w \<subseteq> set (transactions w)" "settled w \<subseteq> set (transactions w)"
    using assms(2) by (auto simp: same_books_def counted_def settled_def)
  have sp: "spends w' H = spends w H" if "H \<subseteq> set (transactions w)" for H
    using assms(2) that unfolding spends_ins same_books_def by (metis (no_types, lifting) subsetD)
  have "own_outpoints w H \<subseteq> own_outpoints w' H" if "H \<subseteq> set (transactions w)" for H
    using assms(2) that unfolding own_outpoints_outs same_books_def wallet_addr_def by fastforce
  then have "own_outpoints w (settled w) \<subseteq> own_outpoints w' (settled w')" using s by simp
  moreover have "spends w' (settled w') = spends w (settled w)" "spends w' (counted w') = spends w (counted w)" using s sp by simp_all
  moreover have "utxos w' = utxos w" "spentOutputs w' = spentOutputs w" using assms(2) by (simp_all add: same_books_def)
  ultimately show ?thesis using assms(1) unfolding unspent_ok_def by auto
qed

section \<open>The operations\<close>

lemma same_restamp: "allTx w h = Some t \<Longrightarrow> same_books w (restamp height stamp h t w)"
  by (auto simp: same_books_def restamp_def ins_of_def outs_of_def)

lemma insert_from_end_mset: "insert_from_end w t hs = Some hs' \<Longrightarrow> mset hs' = add_mset (txHash t) (mset hs)"
  by (induction hs arbitrary: hs') (auto simp: bind_eq_Some_conv split: if_splits)

lemma InsertTx_listed:
  assumes "InsertTx w t = Some w'"
  obtains hs where "w' = w\<lparr>transactions := hs\<rparr>" "set hs = insert (txHash t) (set (transactions w))"
proof -
  obtain r where r: "insert_from_end w t (rev (transactions w)) = Some r" "w' = w\<lparr>transactions := rev r\<rparr>"
    using assms by (auto simp: InsertTx_def)
  then have "set (rev r) = insert (txHash t) (set (transactions w))"
    using insert_from_end_mset [OF r(1)] by (metis mset_rev set_mset_mset set_mset_add_mset_insert)
  then show thesis using that r(2) by blast
qed

lemma same_transactions: "set hs = set (transactions w) \<Longrightarrow> same_books w (w\<lparr>transactions := hs\<rparr>)"
  by (simp add: same_books_def ins_of_def)

lemma extend_chain_appends: "extend_chain der taken gap chain i = Some s \<Longrightarrow> \<exists>ys. fst s = chain @ ys"
proof (rule extend_chain.raw_induct [of "\<lambda>der taken gap chain i s. \<exists>ys. fst s = chain @ ys"], goal_cases)
  case (1 extend der taken gap chain i s)
  from 1(3) show ?case by (auto split: if_splits option.splits dest!: 1(2))
qed

definition addrs_ok :: "wallet \<Rightarrow> bool" where
  "addrs_ok w \<longleftrightarrow> allAddrs w = addr_key ` (set (internalChain w) \<union> set (externalChain w))"

lemma UnusedAddrs_same:
  assumes "BRWalletUnusedAddrs e gap internal w = Some (w', addrs)" "addrs_ok w"
  shows "same_books w w' \<and> addrs_ok w' \<and> allTx w' = allTx w \<and> transactions w' = transactions w"
proof -
  let ?chain = "if internal then internalChain w else externalChain w"
  obtain chain i where c: "extend_chain (derive e internal) (usedAddrs w) gap ?chain (unused_from (usedAddrs w) ?chain (length ?chain)) = Some (chain, i)"
    using assms(1) by (auto simp: BRWalletUnusedAddrs_def Let_def bind_eq_Some_conv split: if_splits)
  from extend_chain_appends [OF this] obtain ys where ys: "chain = ?chain @ ys" by auto
  define a where "a = (if moved e (length ?chain) (length chain)
    then addr_key ` (if internal then set chain \<union> set (externalChain w) else set (internalChain w) \<union> set chain)
    else allAddrs w \<union> addr_key ` set ys)"
  have w': "w' = (if internal then w\<lparr>internalChain := chain\<rparr> else w\<lparr>externalChain := chain\<rparr>)\<lparr>allAddrs := a\<rparr>"
    using assms(1) c ys by (auto simp: BRWalletUnusedAddrs_def Let_def a_def split: if_splits)
  have a: "a = addr_key ` (if internal then set chain \<union> set (externalChain w) else set (internalChain w) \<union> set chain)"
    using assms(2) ys by (auto simp: a_def addrs_ok_def)
  then show ?thesis using assms(2) ys unfolding w' by (auto simp: same_books_def addrs_ok_def ins_of_def outs_of_def)
qed

lemma unused_addrs_same:
  assumes "unused_addrs e w = Some w'" "addrs_ok w"
  shows "same_books w w' \<and> allTx w' = allTx w \<and> transactions w' = transactions w"
proof -
  obtain w1 a1 a2 where u: "BRWalletUnusedAddrs e SEQUENCE_GAP_LIMIT_EXTERNAL False w = Some (w1, a1)"
    "BRWalletUnusedAddrs e SEQUENCE_GAP_LIMIT_INTERNAL True w1 = Some (w', a2)"
    using assms(1) by (auto simp: unused_addrs_def bind_eq_Some_conv)
  from UnusedAddrs_same [OF u(1) assms(2)] UnusedAddrs_same [OF u(2)] show ?thesis using same_books_trans by auto
qed

lemma wallet_addrs_ok: "wallet_ok e r w \<Longrightarrow> addrs_ok w"
  using base_okD(2) [OF wallet_okD(1)] by (auto simp: addrs_ok_def chains_ok_def)

lemma wallet_store_ok: "wallet_ok e r w \<Longrightarrow> store_ok w"
  using base_store_ok [OF wallet_okD(1)] .

lemma store_ok_same: "store_ok w \<Longrightarrow> allTx w' = allTx w \<Longrightarrow> transactions w' = transactions w \<Longrightarrow> store_ok w'"
  by (simp add: store_ok_def)

lemma Register_unspent:
  assumes "BRWalletRegisterTransaction e now w t = Some (w', b, evs)" "wallet_ok e r w" "wallet_ok e r w'" "unspent_ok w"
  shows "unspent_ok w'"
proof -
  let ?w = "w\<lparr>allTx := (allTx w)(txHash t \<mapsto> t)\<rparr>"
  consider "w' = w" | "allTx w (txHash t) = None" "w' = ?w"
    | w1 w2 where "InsertTx ?w t = Some w1" "UpdateBalance now w1 = Some w2" "unused_addrs e w2 = Some w'"
    using assms(1) by (auto simp: BRWalletRegisterTransaction_def bind_eq_Some_conv split: if_splits)
  then show ?thesis
  proof cases
    case 1
    then show ?thesis using assms(4) by simp
  next
    case 2
    have "\<forall>h \<in> set (transactions w). h \<noteq> txHash t" using wallet_store_ok [OF assms(2)] 2(1) by (auto simp: store_ok_def)
    then have "same_books w w'" by (simp add: same_books_def 2(2) ins_of_def outs_of_def)
    then show ?thesis by (rule same_unspent [OF assms(4)])
  next
    case 3
    obtain hs where hs: "w1 = ?w\<lparr>transactions := hs\<rparr>" using InsertTx_listed [OF 3(1)] by blast
    have "addrs_ok w2" using wallet_addrs_ok [OF assms(2)] UpdateBalance_frame [OF 3(2)] by (simp add: addrs_ok_def hs)
    note u = unused_addrs_same [OF 3(3) this]
    then have "store_ok w2" using wallet_store_ok [OF assms(3)] store_ok_same [of w' w2] by simp
    from same_unspent [OF update_unspent [OF 3(2) this]] u show ?thesis by blast
  qed
qed

lemma update_one_same:
  assumes "update_one height stamp h (w, hs, need) = Some (w', hs', need')" "wallet_ok e r w"
  shows "same_books w w'"
proof (cases "allTx w h")
  case None
  then show ?thesis using assms(1) by (simp add: update_one_def same_books_refl)
next
  case (Some t)
  note base = base_okD [OF wallet_okD(1) [OF assms(2)]]
  let ?t = "t\<lparr>tx_timestamp := stamp, blockHeight := height\<rparr>" and ?w = "restamp height stamp h t w"
  have s: "same_books w ?w" by (rule same_restamp [OF Some])
  have th: "txHash ?t = h" using base(1) Some by (simp add: sane_store_def)
  consider "w' = w" | "w' = ?w" | "h \<notin> set (transactions w)" "w' = ?w\<lparr>allTx := (allTx ?w)(h := None)\<rparr>"
    | "h \<in> set (transactions w)" "InsertTx (?w\<lparr>transactions := remove_last h (transactions w)\<rparr>) ?t = Some w'"
  proof -
    note run = assms(1) [unfolded update_one_def Let_def prod.case Some option.case restamp_def [symmetric] restamp_fields]
    show thesis
    proof (cases "blockHeight t = height \<and> tx_timestamp t = stamp")
      case True
      then show ?thesis using run that(1) by simp
    next
      case False
      note run = run [unfolded if_not_P [OF False]]
      show ?thesis
      proof (cases "ContainsTx ?w ?t")
        case True
        then show ?thesis using run that(2,4) by (cases "h \<in> set (transactions w)") (auto simp: bind_eq_Some_conv)
      next
        case False
        then show ?thesis using run that(2,3) by (cases "h \<in> set (transactions w)") (auto split: if_splits)
      qed
    qed
  qed
  then show ?thesis
  proof cases
    case 1
    then show ?thesis by (simp add: same_books_refl)
  next
    case 2
    then show ?thesis using s by simp
  next
    case 3
    then have "same_books ?w w'" by (auto simp: same_books_def ins_of_def outs_of_def)
    then show ?thesis by (rule same_books_trans [OF s])
  next
    case 4
    obtain hs2 where "w' = ?w\<lparr>transactions := hs2\<rparr>" "set hs2 = insert h (set (remove_last h (transactions w)))"
      using InsertTx_listed [OF 4(2)] th by auto
    moreover have "set (remove_last h (transactions w)) = set (transactions w) - {h}"
      by (auto simp: remove_last_filter [OF base(3)])
    ultimately have "same_books ?w w'" using 4(1) same_transactions [of hs2 ?w] by (simp add: insert_absorb)
    then show ?thesis by (rule same_books_trans [OF s])
  qed
qed

lemma Update_unspent:
  assumes "BRWalletUpdateTransactions now w hs height stamp = Some (w', evs)" "wallet_ok e r w" "wallet_ok e r w'" "unspent_ok w"
  shows "unspent_ok w'"
proof -
  define w0 where "w0 = (if height > chainHeight w then w\<lparr>chainHeight := height\<rparr> else w)"
  have w0: "wallet_ok e r w0" by (rule wallet_ok_cong [OF assms(2)]) (simp_all add: w0_def)
  have s0: "same_books w w0" by (simp add: w0_def same_books_def ins_of_def outs_of_def)
  let ?I = "\<lambda>s. wallet_ok e r (fst s) \<and> same_books w (fst s)"
  have "\<exists>s'. fold_option (update_one height stamp) hs (w0, [], False) = Some s' \<and> ?I s'"
  proof (rule fold_option_inv [where I = ?I])
    fix x and s :: "wallet \<times> UInt256 list \<times> bool"
    assume I: "?I s"
    obtain w1 hs1 n1 where s: "s = (w1, hs1, n1)" by (metis prod.exhaust)
    then have ok: "wallet_ok e r w1" "same_books w w1" using I by simp_all
    from update_one_ok [OF ok(1), of height stamp x hs1 n1] obtain w2 hs2 n2 where
      "update_one height stamp x (w1, hs1, n1) = Some (w2, hs2, n2)" "wallet_ok e r w2" by blast
    with update_one_same [OF this(1) ok(1)] ok(2) s show "\<exists>s'. update_one height stamp x s = Some s' \<and> ?I s'"
      using same_books_trans by fastforce
  qed (simp add: w0 s0)
  then obtain w1 hashes need where f: "fold_option (update_one height stamp) hs (w0, [], False) = Some (w1, hashes, need)"
    "same_books w w1" by auto
  have "w' = w1 \<or> UpdateBalance now w1 = Some w'"
    using assms(1) f(1) unfolding BRWalletUpdateTransactions_def w0_def [symmetric] Let_def
    by (auto simp: bind_eq_Some_conv split: if_splits)
  then show ?thesis
    using same_unspent [OF assms(4) f(2)] update_unspent wallet_store_ok [OF assms(3)] by blast
qed

lemma unconfirm_same: "fold_option unconfirm hs w = Some w' \<Longrightarrow> same_books w w'"
proof (induction hs arbitrary: w)
  case (Cons h hs)
  obtain t where t: "allTx w h = Some t" using Cons.prems by (cases "allTx w h") (simp_all add: unconfirm_def)
  then have u: "unconfirm h w = Some (restamp TX_UNCONFIRMED (tx_timestamp t) h t w)" by (simp add: unconfirm_restamp)
  from Cons.IH [of "restamp TX_UNCONFIRMED (tx_timestamp t) h t w"] Cons.prems u
  show ?case using same_books_trans [OF same_restamp [OF t]] by simp
qed (simp add: same_books_refl)

lemma Unconfirm_unspent:
  assumes "BRWalletSetTxUnconfirmedAfter now w height = Some (w', evs)" "wallet_ok e r w'" "unspent_ok w"
  shows "unspent_ok w'"
proof -
  have s: "same_books w (w\<lparr>chainHeight := height\<rparr>)" by (simp add: same_books_def ins_of_def outs_of_def)
  obtain hs w1 where w1: "fold_option unconfirm hs (w\<lparr>chainHeight := height\<rparr>) = Some w1" "w' = w1 \<or> UpdateBalance now w1 = Some w'"
    using assms(1) by (auto simp: BRWalletSetTxUnconfirmedAfter_def bind_eq_Some_conv Let_def simp del: fold_option.simps split: if_splits)
  from same_books_trans [OF s unconfirm_same [OF w1(1)]] have "same_books w w1" .
  then show ?thesis
    using w1(2) same_unspent [OF assms(3)] update_unspent wallet_store_ok [OF assms(2)] by blast
qed

lemma remove_updates:
  "BRWalletRemoveTransaction now h s = Some s' \<Longrightarrow> fst s' = fst s \<or> (\<exists>w. UpdateBalance now w = Some (fst s'))"
proof (rule BRWalletRemoveTransaction.raw_induct [of "\<lambda>now h s s'. fst s' = fst s \<or> (\<exists>w. UpdateBalance now w = Some (fst s'))"], goal_cases)
  case (1 remove now h s s')
  note IH = 1(2)
  have fold: "fst s2 = fst s1 \<or> (\<exists>w. UpdateBalance now w = Some (fst s2))" if "fold_option (remove now) ds s1 = Some s2" for ds s1 s2
    using that
  proof (induction ds arbitrary: s1)
    case (Cons d ds)
    then obtain s3 where "remove now d s1 = Some s3" "fold_option (remove now) ds s3 = Some s2" by (auto simp: bind_eq_Some_conv)
    with Cons.IH IH show ?case by metis
  qed simp
  from 1(3) show ?case
    by (auto simp: bind_eq_Some_conv split: if_splits option.splits dest!: fold IH)
qed

lemma Remove_unspent:
  assumes "BRWalletRemoveTransaction now h (w, evs) = Some (w', evs')" "wallet_ok e r w'" "unspent_ok w"
  shows "unspent_ok w'"
  using remove_updates [OF assms(1)] assms(3) update_unspent wallet_store_ok [OF assms(2)] by auto

end
