(* ===== verification/WalletReach.thy ===== *)
theory WalletReach
  imports WalletUnspent
begin

text \<open>
  The initial state of the wallet, and the wallets that its operations reach from there: the invariant holds for all of them, and
  no operation faults or runs forever.
\<close>

section \<open>A new wallet\<close>

definition load_inv :: "(UInt256 \<Rightarrow> nat) \<Rightarrow> tx list \<Rightarrow> tx list \<Rightarrow> wallet \<Rightarrow> bool" where
  "load_inv r txs seen w \<longleftrightarrow> sane_store r (allTx w) \<and> distinct (transactions w) \<and> by_height w (transactions w) \<and>
     (\<forall>h \<in> set (transactions w). \<exists>t \<in> set txs. allTx w h = Some t) \<and>
     internalChain w = [] \<and> externalChain w = [] \<and> allAddrs w = {} \<and>
     finite (usedAddrs w) \<and> card (usedAddrs w) \<le> (\<Sum>t \<leftarrow> seen. length (tx_outputs t))"

lemma load_invD:
  assumes "load_inv r txs seen w"
  shows "sane_store r (allTx w)" "distinct (transactions w)" "by_height w (transactions w)"
    "\<forall>h \<in> set (transactions w). \<exists>t \<in> set txs. allTx w h = Some t" "internalChain w = []" "externalChain w = []"
    "allAddrs w = {}" "finite (usedAddrs w)" "card (usedAddrs w) \<le> (\<Sum>t \<leftarrow> seen. length (tx_outputs t))"
  using assms by (auto simp: load_inv_def)

lemma card_paid: "card (addr_key ` {a \<in> set (map out_address outs). a \<noteq> []}) \<le> length outs"
proof -
  have "card (addr_key ` {a \<in> set (map out_address outs). a \<noteq> []}) \<le> card (set (map out_address outs))"
    by (intro order_trans [OF card_image_le card_mono]) auto
  also have "\<dots> \<le> length outs" by (metis card_length length_map)
  finally show ?thesis .
qed

lemma load_tx_ok:
  assumes "load_inv r txs seen w" "sane_tx r t" "t \<in> set txs"
  shows "\<exists>w'. load_tx t w = Some w' \<and> load_inv r txs (seen @ [t]) w'"
proof (cases "allTx w (txHash t)")
  case (Some p)
  then show ?thesis using assms(1,2) by (auto simp: load_tx_def load_inv_def sane_tx_def)
next
  case None
  note inv = load_invD [OF assms(1)]
  define w1 where "w1 = w\<lparr>allTx := (allTx w)(txHash t \<mapsto> t)\<rparr>"
  have w1: "transactions w1 = transactions w" "allTx w1 (txHash t) = Some t" "internalChain w1 = []" "externalChain w1 = []"
    "allAddrs w1 = {}" "usedAddrs w1 = usedAddrs w" "h \<noteq> txHash t \<Longrightarrow> allTx w1 h = allTx w h" for h
    using inv by (simp_all add: w1_def)
  have new: "h \<noteq> txHash t" if "h \<in> set (transactions w)" for h using that inv(4) None by auto
  have s: "sane_store r (allTx w1)" using inv(1) assms(2) by (simp add: sane_store_def w1_def)
  have "by_height w1 (transactions w)"
    using inv(3) new w1(7) by (subst by_height_cong [of _ w1 w]) (simp_all add: height_of_def)
  then obtain hs where hs: "InsertTx w1 t = Some (w1\<lparr>transactions := hs\<rparr>)"
    "mset hs = add_mset (txHash t) (mset (transactions w))" "by_height w1 hs"
    using InsertTx_ok [OF s w1(2)] inv(4) new w1(1,7) by fastforce
  have set: "set hs = insert (txHash t) (set (transactions w))" using hs(2) by (metis set_mset_mset set_mset_add_mset_insert)
  have d: "distinct hs" using hs(2) inv(2) new by (metis distinct.simps(2) mset.simps(2) mset_eq_imp_distinct_iff)
  define paid where "paid = addr_key ` {a \<in> set (map out_address (tx_outputs t)). a \<noteq> []}"
  define w2 where "w2 = w1\<lparr>transactions := hs, usedAddrs := usedAddrs w \<union> paid\<rparr>"
  have w2: "allTx w2 = allTx w1" "transactions w2 = hs" "internalChain w2 = []" "externalChain w2 = []" "allAddrs w2 = {}"
    "usedAddrs w2 = usedAddrs w \<union> paid" using w1 by (simp_all add: w2_def)
  have "load_tx t w = Some w2"
    using None assms(2) hs(1) by (simp add: load_tx_def w1_def [symmetric] w2_def paid_def sane_tx_def w1)
  moreover have "by_height w2 hs" using hs(3) by (simp add: by_height_def height_of_def w2)
  moreover have "\<forall>h \<in> set hs. \<exists>t \<in> set txs. allTx w1 h = Some t" using set inv(4) new w1(2,7) assms(3) by auto
  moreover have "card (usedAddrs w \<union> paid) \<le> (\<Sum>t \<leftarrow> seen @ [t]. length (tx_outputs t))"
    using card_Un_le [of "usedAddrs w" paid] card_paid [of "tx_outputs t"] inv(9) by (simp add: paid_def)
  moreover have "finite (usedAddrs w \<union> paid)" using inv(8) by (simp add: paid_def)
  ultimately show ?thesis using s d by (simp add: load_inv_def w2)
qed

lemma unused_addrs_chains:
  assumes "chains_ok e w" "derives_all (derive e False)" "derives_all (derive e True)"
    "finite (usedAddrs w)" "length (internalChain w) + length (externalChain w) + 10 * (card (usedAddrs w) + 1) < 2 ^ 31"
  shows "\<exists>w'. unused_addrs e w = Some w' \<and> chains_ok e w' \<and>
    w' = w\<lparr>internalChain := internalChain w', externalChain := externalChain w', allAddrs := allAddrs w'\<rparr>"
proof -
  have "room_to_derive 10 False w" using assms(4,5) by (simp add: room_to_derive_def chain_of_def)
  then obtain w1 addrs where 1: "BRWalletUnusedAddrs e 10 False w = Some (w1, addrs)" "chains_ok e w1"
    "internalChain w1 = internalChain w"
    "w1 = w\<lparr>internalChain := internalChain w1, externalChain := externalChain w1, allAddrs := allAddrs w1\<rparr>"
    using unused_addrs_chain [OF assms(2,1), of 10] by (auto simp: chain_of_def)
  have "usedAddrs w1 = usedAddrs w" by (subst 1(4)) simp
  then have "room_to_derive 5 True w1" using assms(4,5) 1(3) by (simp add: room_to_derive_def chain_of_def)
  then obtain w2 addrs' where 2: "BRWalletUnusedAddrs e 5 True w1 = Some (w2, addrs')" "chains_ok e w2"
    "w2 = w1\<lparr>internalChain := internalChain w2, externalChain := externalChain w2, allAddrs := allAddrs w2\<rparr>"
    using unused_addrs_chain [OF assms(3) 1(2), of 5] by auto
  have "w2 = w\<lparr>internalChain := internalChain w2, externalChain := externalChain w2, allAddrs := allAddrs w2\<rparr>"
    by (subst 2(3), subst 1(4)) simp
  then show ?thesis
    using 1(1) 2(1,2) by (simp add: unused_addrs_def SEQUENCE_GAP_LIMIT_EXTERNAL_def SEQUENCE_GAP_LIMIT_INTERNAL_def)
qed

lemma BRWalletNew_ok:
  assumes "\<forall>t \<in> set txs. sane_tx r t" "derives_all (derive e False)" "derives_all (derive e True)"
    "10 * ((\<Sum>t \<leftarrow> txs. length (tx_outputs t)) + 1) < 2 ^ 31"
  shows "\<exists>w. BRWalletNew e now txs = Some (if txs \<noteq> [] \<and> \<not> ContainsTx w (hd txs) then None else Some w) \<and>
    ((\<forall>t \<in> set txs. ContainsTx w t) \<longrightarrow> wallet_ok e r w \<and> unspent_ok w)"
proof -
  have "\<exists>w. fold_option load_tx txs empty_wallet = Some w \<and> load_inv r txs txs w"
  proof (rule fold_option_prefix [where I = "load_inv r txs"])
    show "load_inv r txs [] empty_wallet" by (simp add: load_inv_def empty_wallet_def sane_store_def by_height_def)
  next
    fix ys t zs w
    assume "txs = ys @ t # zs" "load_inv r txs ys w"
    then show "\<exists>w'. load_tx t w = Some w' \<and> load_inv r txs (ys @ [t]) w'" using load_tx_ok assms(1) by auto
  qed
  then obtain w0 where w0: "fold_option load_tx txs empty_wallet = Some w0" "load_inv r txs txs w0" by blast
  note inv = load_invD [OF w0(2)]
  have "chains_ok e w0" using inv(5-7) by (simp add: chains_ok_def)
  moreover have "length (internalChain w0) + length (externalChain w0) + 10 * (card (usedAddrs w0) + 1) < 2 ^ 31"
    using inv(5,6,9) assms(4) by simp
  ultimately obtain w1 where w1: "unused_addrs e w0 = Some w1" "chains_ok e w1"
    "w1 = w0\<lparr>internalChain := internalChain w1, externalChain := externalChain w1, allAddrs := allAddrs w1\<rparr>"
    using unused_addrs_chains [OF _ assms(2,3) inv(8)] by blast
  have same: "allTx w1 = allTx w0" "transactions w1 = transactions w0" by (subst w1(3), simp)+
  have base: "base_ok e r w1" if "\<forall>t \<in> set txs. ContainsTx w1 t"
  proof -
    have "\<forall>h \<in> set (transactions w1). belongs w1 h" using that inv(4) by (fastforce simp: belongs_def same)
    then show ?thesis using inv(1-3) w1(2) by (simp add: base_ok_def same by_height_def height_of_def)
  qed
  have "store_ok w1" using inv(1,2,4) by (auto simp: store_ok_def same sane_store_def sane_tx_def)
  then obtain w2 where w2: "UpdateBalance now w1 = Some w2" using UpdateBalance_books by blast
  have "wallet_ok e r w2" if "\<forall>t \<in> set txs. ContainsTx w2 t"
  proof -
    have "allTx w2 = allTx w1 \<and> allAddrs w2 = allAddrs w1"
      using w2 UpdateBalance_books [OF \<open>store_ok w1\<close>, of now] by auto
    moreover from this have a: "wallet_addr w2 = wallet_addr w1" by (simp add: fun_eq_iff wallet_addr_def)
    ultimately have "own_output w2 = own_output w1" by (intro ext) (simp add: own_output_def a cong: option.case_cong)
    with a have "wallet_addr w2 = wallet_addr w1" "own_output w2 = own_output w1" by auto
    then have "ContainsTx w2 = ContainsTx w1" by (simp add: fun_eq_iff ContainsTx_def)
    then show ?thesis using UpdateBalance_ok [OF base, of now] that w2 by auto
  qed
  moreover have "store_ok w2" using \<open>store_ok w1\<close> UpdateBalance_frame [OF w2] by (simp add: store_ok_def)
  then have "unspent_ok w2" by (rule update_unspent [OF w2])
  ultimately show ?thesis using w0(1) w1(1) w2 by (intro exI [of _ w2]) (simp add: BRWalletNew_def)
qed


section \<open>The operations\<close>

datatype op = Register tx | Update "UInt256 list" u32 u32 | UnconfirmAfter u32 | Remove UInt256 | NewAddresses nat bool | Receive
  | Create "txout list" | Pay u64 "byte list" | Quote u64 | SetFee u64
  | IsValid tx | IsPending tx | IsVerified tx | BalanceAfter tx | UnconfirmedBefore "nat option" u32

fun run_op :: "env \<Rightarrow> int \<Rightarrow> op \<Rightarrow> wallet \<Rightarrow> wallet option" where
  "run_op e now (Register t) w = map_option fst (BRWalletRegisterTransaction e now w t)"
| "run_op e now (Update hs height stamp) w = map_option fst (BRWalletUpdateTransactions now w hs height stamp)"
| "run_op e now (UnconfirmAfter height) w = map_option fst (BRWalletSetTxUnconfirmedAfter now w height)"
| "run_op e now (Remove h) w = map_option fst (BRWalletRemoveTransaction now h (w, []))"
| "run_op e now (NewAddresses gap internal) w = map_option fst (BRWalletUnusedAddrs e gap internal w)"
| "run_op e now Receive w = map_option fst (BRWalletReceiveAddress e w)"
| "run_op e now (Create outs) w = map_option fst (BRWalletCreateTxForOutputs e w outs)"
| "run_op e now (Pay amount a) w = map_option fst (BRWalletCreateTransaction e w amount a)"
| "run_op e now (Quote amount) w = map_option fst (BRWalletFeeForTxAmount e w amount)"
| "run_op e now (SetFee fee) w = Some (BRWalletSetFeePerKb w fee)"
| "run_op e now (IsValid t) w = map_option (\<lambda>_. w) (BRWalletTransactionIsValid w t)"
| "run_op e now (IsPending t) w = map_option (\<lambda>_. w) (BRWalletTransactionIsPending now w t)"
| "run_op e now (IsVerified t) w = map_option (\<lambda>_. w) (BRWalletTransactionIsVerified now w t)"
| "run_op e now (BalanceAfter t) w = map_option (\<lambda>_. w) (BRWalletBalanceAfterTx w t)"
| "run_op e now (UnconfirmedBefore buf height) w = map_option (\<lambda>_. w) (BRWalletTxUnconfirmedBefore w buf height)"

text \<open>
  What the caller has to see to: signed transactions with the rank of their hash and no coin generation input (\<open>sane_tx\<close>), heights, and a bound on the
  chains.
\<close>

fun op_ok :: "(UInt256 \<Rightarrow> nat) \<Rightarrow> wallet \<Rightarrow> op \<Rightarrow> bool" where
  "op_ok r w (Register t) = (sane_tx r t \<and> room_for w (length (tx_outputs t)))"
| "op_ok r w (Update hs height stamp) = True"
| "op_ok r w (UnconfirmAfter height) = (height \<le> TX_UNCONFIRMED)"
| "op_ok r w (Remove h) = (h \<noteq> 0)"
| "op_ok r w (NewAddresses gap internal) = (0 < gap \<and> room_to_derive gap internal w)"
| "op_ok r w Receive = room_to_derive 1 False w"
| "op_ok r w (Create outs) = room_to_derive 1 True w"
| "op_ok r w (Pay amount a) = room_to_derive 1 True w"
| "op_ok r w (Quote amount) = room_to_derive 1 True w"
| "op_ok r w (SetFee fee) = True"
| "op_ok r w (IsValid t) = sane_tx r t"
| "op_ok r w (IsPending t) = sane_tx r t"
| "op_ok r w (IsVerified t) = sane_tx r t"
| "op_ok r w (BalanceAfter t) = sane_tx r t"
| "op_ok r w (UnconfirmedBefore buf height) = True"

fun builds_tx :: "op \<Rightarrow> bool" where
  "builds_tx (Create outs) = True"
| "builds_tx (Pay amount a) = True"
| "builds_tx (Quote amount) = True"
| "builds_tx op = False"

text \<open>Building a transaction changes at most the internal chain.\<close>

definition only_chain :: "env \<Rightarrow> wallet \<Rightarrow> wallet \<Rightarrow> bool" where
  "only_chain e w w' \<longleftrightarrow> w' = w \<or> (\<exists>addrs. BRWalletUnusedAddrs e 1 True w = Some (w', addrs))"

lemma add_change_frame: "add_change e w t amount minAmount bal fee = Some s \<Longrightarrow> only_chain e w (fst s)"
  by (auto simp: add_change_def only_chain_def bind_eq_Some_conv split: if_splits)

lemma create_frame: "BRWalletCreateTxForOutputs e w outs = Some s \<Longrightarrow> only_chain e w (fst s)"
proof (rule BRWalletCreateTxForOutputs.raw_induct [of "\<lambda>e w outs s. only_chain e w (fst s)"], goal_cases)
  case (1 create e w outs s)
  have "only_chain e w w" by (simp add: only_chain_def)
  with 1(3) show ?case
    by (auto simp: Let_def split: if_splits option.splits selection.splits dest: add_change_frame 1(2))
qed

lemma building_ok:
  assumes "wallet_ok e r w" "derives_all (derive e True)" "room_to_derive 1 True w"
    "BRWalletCreateTxForOutputs e w outs = Some s"
  shows "wallet_ok e r (fst s)"
  using create_frame [OF assms(4)] UnusedAddrs_ok [OF assms(1-3)] assms(1) by (auto simp: only_chain_def)

lemma run_builder:
  assumes "run_op e now op w = Some w'" "builds_tx op"
  shows "\<exists>outs s. BRWalletCreateTxForOutputs e w outs = Some s \<and> w' = fst s"
  using assms
  by (cases op) (force simp: BRWalletCreateTransaction_def BRWalletFeeForTxAmount_def Let_def bind_eq_Some_conv split: if_splits)+

text \<open>The queries end, since the inputs of a transaction have lower ranks.\<close>

lemma IsPending_ends:
  assumes "sane_store r (allTx w)" "sane_tx r t"
  shows "BRWalletTransactionIsPending now w t \<noteq> None"
  using assms(2)
proof (induction "r (txHash t)" arbitrary: t rule: less_induct)
  case less
  let ?body = "\<lambda>i. do {
      p \<leftarrow> BRWalletTransactionForHash w (in_hash i);
      case p of None \<Rightarrow> Some False | Some p \<Rightarrow> BRWalletTransactionIsPending now w p
    }"
  have "?body i \<noteq> None" if "i \<in> set (tx_inputs t)" for i
  proof (cases "allTx w (in_hash i)")
    case None
    then show ?thesis using sane_inputD [OF less.prems that] by (simp add: BRWalletTransactionForHash_def)
  next
    case (Some p)
    with assms(1) have "txHash p = in_hash i" "sane_tx r p" by (auto dest: sane_storeD)
    with less.hyps [of p] sane_inputD [OF less.prems that] show ?thesis
      using Some by (auto simp: BRWalletTransactionForHash_def)
  qed
  then obtain pend where "any_option ?body (tx_inputs t) = Some pend" using any_option_total [of "tx_inputs t" ?body] by blast
  then show ?case using less.prems
    by (subst BRWalletTransactionIsPending.simps) (simp add: sane_tx_def ex_bool_eq split: if_split)
qed

lemma IsVerified_ends:
  assumes "sane_store r (allTx w)" "sane_tx r t"
  shows "BRWalletTransactionIsVerified now w t \<noteq> None"
  using assms(2)
proof (induction "r (txHash t)" arbitrary: t rule: less_induct)
  case less
  let ?body = "\<lambda>i. do {
      p \<leftarrow> BRWalletTransactionForHash w (in_hash i);
      case p of None \<Rightarrow> Some False | Some p \<Rightarrow> do { v \<leftarrow> BRWalletTransactionIsVerified now w p; Some (\<not> v) }
    }"
  have "?body i \<noteq> None" if "i \<in> set (tx_inputs t)" for i
  proof (cases "allTx w (in_hash i)")
    case None
    then show ?thesis using sane_inputD [OF less.prems that] by (simp add: BRWalletTransactionForHash_def)
  next
    case (Some p)
    with assms(1) have "txHash p = in_hash i" "sane_tx r p" by (auto dest: sane_storeD)
    with less.hyps [of p] sane_inputD [OF less.prems that] show ?thesis
      using Some by (auto simp: BRWalletTransactionForHash_def)
  qed
  then obtain bad where "any_option ?body (tx_inputs t) = Some bad" using any_option_total [of "tx_inputs t" ?body] by blast
  moreover obtain v p where "BRWalletTransactionIsValid w t = Some v" "BRWalletTransactionIsPending now w t = Some p"
    using IsValid_ends [OF assms(1) less.prems] IsPending_ends [OF assms(1) less.prems] by blast
  ultimately show ?case using less.prems
    by (subst BRWalletTransactionIsVerified.simps) (simp add: sane_tx_def ex_bool_eq split: if_split)
qed

lemma unconfirmed_suffix_ends: "\<forall>h \<in> set hs. allTx w h \<noteq> None \<Longrightarrow> unconfirmed_suffix w height hs \<noteq> None"
  by (induction hs) auto

lemma run_query:
  assumes "wallet_ok e r w" "op_ok r w op"
    "op \<in> {IsValid t, IsPending t, IsVerified t, BalanceAfter t, UnconfirmedBefore buf height}"
  shows "run_op e now op w = Some w"
proof -
  note base = base_okD [OF wallet_okD(1) [OF assms(1)]]
  have "\<forall>h \<in> set (rev (transactions w)). allTx w h \<noteq> None" using base(6) by simp
  then have u: "unconfirmed_suffix w height (rev (transactions w)) \<noteq> None" by (rule unconfirmed_suffix_ends)
  from assms(2,3) show ?thesis
    using IsValid_ends [OF base(1), of t] IsPending_ends [OF base(1), of t now] IsVerified_ends [OF base(1), of t now] u
    by (auto simp: BRWalletBalanceAfterTx_def BRWalletTxUnconfirmedBefore_def sane_tx_def split: option.split)
qed

lemma run_other:
  assumes "wallet_ok e r w" "op_ok r w op" "derives_all (derive e False)" "derives_all (derive e True)" "\<not> builds_tx op"
  shows "\<exists>w'. run_op e now op w = Some w' \<and> wallet_ok e r w'"
proof (cases op)
  case (Register t)
  then show ?thesis using RegisterTransaction_ok [OF assms(1) _ assms(3,4), of t now] assms(2) by auto
next
  case (Update hs height stamp)
  then show ?thesis using UpdateTransactions_ok [OF assms(1), of now hs height stamp] by auto
next
  case (UnconfirmAfter height)
  then show ?thesis using SetTxUnconfirmedAfter_ok [OF assms(1), of height now] assms(2) by auto
next
  case (Remove h)
  then show ?thesis
    using remove_ok [OF assms(1), of h now "[]"] assms(1,2)
    by (cases "allTx w h") (auto simp: BRWalletRemoveTransaction.simps removes_def)
next
  case (NewAddresses gap internal)
  have "derives_all (derive e internal)" using assms(3,4) by (cases internal) auto
  then show ?thesis using NewAddresses UnusedAddrs_ok [OF assms(1), of internal gap] assms(2) by auto
next
  case Receive
  then show ?thesis using UnusedAddrs_ok [OF assms(1,3), of 1] assms(2) by (auto simp: BRWalletReceiveAddress_def)
next
  case (SetFee fee)
  have "wallet_ok e r (w\<lparr>feePerKb := fee\<rparr>)" by (rule wallet_ok_cong [OF assms(1)]) simp_all
  then show ?thesis using SetFee by (simp add: BRWalletSetFeePerKb_def)
qed (use assms(5) run_query [OF assms(1,2)] assms(1) in auto)

lemma run_unspent:
  assumes "run_op e now op w = Some w'" "wallet_ok e r w" "wallet_ok e r w'" "unspent_ok w"
  shows "unspent_ok w'"
proof (cases "builds_tx op")
  case True
  have "w' = w \<or> (\<exists>addrs. BRWalletUnusedAddrs e 1 True w = Some (w', addrs))"
  proof -
    obtain outs s where "BRWalletCreateTxForOutputs e w outs = Some s" "w' = fst s" using run_builder [OF assms(1) True] by blast
    then show ?thesis using create_frame [of e w outs s] by (simp add: only_chain_def)
  qed
  then show ?thesis using assms(4) UnusedAddrs_same [OF _ wallet_addrs_ok [OF assms(2)]] same_unspent by blast
next
  case False
  have same: "same_books w w' \<Longrightarrow> ?thesis" by (rule same_unspent [OF assms(4)])
  show ?thesis
  proof (cases op)
    case (Register t)
    then show ?thesis using assms(1) Register_unspent [OF _ assms(2-4)] by auto
  next
    case (Update hs height stamp)
    then show ?thesis using assms(1) Update_unspent [OF _ assms(2-4)] by auto
  next
    case (UnconfirmAfter height)
    then show ?thesis using assms(1) Unconfirm_unspent [OF _ assms(3,4)] by auto
  next
    case (Remove h)
    then show ?thesis using assms(1) Remove_unspent [OF _ assms(3,4)] by auto
  next
    case (NewAddresses gap internal)
    then show ?thesis using assms(1) UnusedAddrs_same [OF _ wallet_addrs_ok [OF assms(2)]] same by auto
  next
    case Receive
    then show ?thesis
      using assms(1) UnusedAddrs_same [OF _ wallet_addrs_ok [OF assms(2)]] same
      by (auto simp: BRWalletReceiveAddress_def bind_eq_Some_conv)
  next
    case (SetFee fee)
    then show ?thesis using assms(1) by (intro same) (auto simp: BRWalletSetFeePerKb_def same_books_def ins_of_def outs_of_def)
  qed (use False assms(1,4) in auto)
qed

inductive reachable :: "env \<Rightarrow> (UInt256 \<Rightarrow> nat) \<Rightarrow> wallet \<Rightarrow> bool" for e r where
  start: "\<forall>t \<in> set txs. sane_tx r t \<and> ContainsTx w t \<Longrightarrow> 10 * ((\<Sum>t \<leftarrow> txs. length (tx_outputs t)) + 1) < 2 ^ 31 \<Longrightarrow>
    BRWalletNew e now txs = Some (Some w) \<Longrightarrow> reachable e r w"
| step: "reachable e r w \<Longrightarrow> op_ok r w op \<Longrightarrow> run_op e now op w = Some w' \<Longrightarrow> reachable e r w'"

lemma reachable_ok:
  assumes "reachable e r w" "derives_all (derive e False)" "derives_all (derive e True)"
  shows "wallet_ok e r w \<and> unspent_ok w"
  using assms(1)
proof induction
  case (start txs w now)
  then show ?case using BRWalletNew_ok [OF _ assms(2,3), of txs r now] by (auto split: if_splits)
next
  case (step w op now w')
  have "wallet_ok e r w'"
  proof (cases "builds_tx op")
    case True
    have "room_to_derive 1 True w" using True step.hyps(2) by (cases op) auto
    then show ?thesis using run_builder [OF step.hyps(3) True] building_ok [OF conjunct1 [OF step.IH] assms(3)] by blast
  next
    case False
    then show ?thesis using run_other [OF conjunct1 [OF step.IH] step.hyps(2) assms(2,3), of now] step.hyps(3) by force
  qed
  then show ?case using run_unspent [OF step.hyps(3)] step.IH by blast
qed

text \<open>A wallet that is made of a transaction which pays to its first address.\<close>

lemma sample_loaded: "\<exists>w. reachable sample_env unat w \<and> transactions w = [5] \<and> utxos w = [(5, 0)] \<and> balance w = 1000000"
proof -
  let ?a = "addr_at (derive sample_env False) 0"
  have t: "txHash sample_income = 5" "tx_inputs sample_income = [sample_input 3 0xffffffff]" "blockHeight sample_income \<noteq> TX_UNCONFIRMED"
    "tx_outputs sample_income = [\<lparr>out_address = ?a, out_amount = 1000000, out_script = Some [81]\<rparr>]"
    by (simp_all add: sample_income_def TX_UNCONFIRMED_def)
  have a: "?a \<noteq> []" by (simp add: addr_at_def sample_env_def)
  then have e: "{x. x = ?a \<and> x \<noteq> []} = {?a}" by auto
  have s: "sane_tx unat sample_income" by (simp add: sane_tx_def t BRTransactionIsSigned_def sample_input_def)
  define w0 where "w0 = empty_wallet\<lparr>allTx := [5 \<mapsto> sample_income], transactions := [5], usedAddrs := {addr_key ?a}\<rparr>"
  have f: "transactions w0 = [5]" "allTx w0 = [5 \<mapsto> sample_income]" "internalChain w0 = []" "externalChain w0 = []" "allAddrs w0 = {}"
    "usedAddrs w0 = {addr_key ?a}" by (simp_all add: w0_def empty_wallet_def)
  have load: "fold_option load_tx [sample_income] empty_wallet = Some w0"
    using s e by (simp add: load_tx_def sane_tx_def t InsertTx_def empty_wallet_def w0_def)
  have c: "chains_ok sample_env w0" by (simp add: chains_ok_def f)
  have "room_to_derive 10 False w0" by (simp add: room_to_derive_def chain_of_def f)
  from unused_addrs_chain [OF sample_derives c this] obtain n k w1 addrs where 1:
    "BRWalletUnusedAddrs sample_env 10 False w0 = Some (w1, addrs)" "k + 10 \<le> n"
    "chain_of False w1 = map (addr_at (derive sample_env False)) [0..<n]" "chains_ok sample_env w1"
    "w1 = w0\<lparr>internalChain := internalChain w1, externalChain := externalChain w1, allAddrs := allAddrs w1\<rparr>"
    "chain_of (\<not> False) w1 = chain_of (\<not> False) w0" by auto
  have u1: "usedAddrs w1 = {addr_key ?a}" by (subst 1(5)) (simp add: f)
  have "room_to_derive 5 True w1" using 1(6) by (simp add: room_to_derive_def chain_of_def f u1)
  from unused_addrs_chain [OF sample_derives 1(4) this] obtain w2 addrs' where 2:
    "BRWalletUnusedAddrs sample_env 5 True w1 = Some (w2, addrs')" "chains_ok sample_env w2"
    "w2 = w1\<lparr>internalChain := internalChain w2, externalChain := externalChain w2, allAddrs := allAddrs w2\<rparr>"
    "chain_of (\<not> True) w2 = chain_of (\<not> True) w1" by auto
  have unused: "unused_addrs sample_env w0 = Some w2"
    using 1(1) 2(1) by (simp add: unused_addrs_def SEQUENCE_GAP_LIMIT_EXTERNAL_def SEQUENCE_GAP_LIMIT_INTERNAL_def)
  have g: "transactions w2 = [5]" "allTx w2 = [5 \<mapsto> sample_income]" by (subst 2(3), subst 1(5), simp add: f)+
  have "?a \<in> set (externalChain w2)" using 1(2,3) 2(4) by (simp add: chain_of_def)
  then have own: "wallet_addr w2 ?a" using 2(2) by (simp add: wallet_addr_def chains_ok_def)
  have "\<exists>w3. UpdateBalance 0 w2 = Some w3 \<and> utxos w3 = [(5, 0)] \<and> transactions w3 = [5] \<and> allAddrs w3 = allAddrs w2 \<and> balance w3 = 1000000"
    using a own by (simp add: UpdateBalance_def g scan_tx_def t empty_scan_def add_output_def sample_input_def input_key_def Let_def)
  then obtain w3 where 3: "UpdateBalance 0 w2 = Some w3" "utxos w3 = [(5, 0)]" "transactions w3 = [5]" "allAddrs w3 = allAddrs w2" "balance w3 = 1000000"
    by blast
  have "ContainsTx w3 sample_income" using own 3(4) by (simp add: ContainsTx_def t wallet_addr_def)
  moreover from this have "BRWalletNew sample_env 0 [sample_income] = Some (Some w3)" using load unused 3(1) by (simp add: BRWalletNew_def)
  ultimately have "reachable sample_env unat w3" using s by (intro reachable.start [of "[sample_income]" unat w3 sample_env 0]) (simp_all add: t)
  then show ?thesis using 3 by blast
qed





end
