(* ===== verification/WalletSpend.thy ===== *)
theory WalletSpend
  imports WalletReach
begin

text \<open>
  What \<open>BRWalletCreateTxForOutputs\<close> builds, for a wallet whose unspent outputs fit into one transaction and that has
  the funds.
\<close>

section \<open>Amounts as numbers\<close>

lemma unat_u64_add: "unat x + unat y < 2 ^ 64 \<Longrightarrow> unat (x + y) = unat x + unat (y :: u64)"
  using unat_add_lem [of x y] by simp

lemma unat_total_worth:
  "(\<Sum>u \<leftarrow> us. unat (worth w u)) < 2 ^ 64 \<Longrightarrow> unat (total_worth w us) = (\<Sum>u \<leftarrow> us. unat (worth w u))"
proof (induction us)
  case (Cons u us)
  then have "unat (total_worth w us) = (\<Sum>u \<leftarrow> us. unat (worth w u))" by simp
  then show ?case using Cons.prems by (simp add: unat_u64_add)
qed simp

lemma unat_outputs_amount:
  assumes "(\<Sum>out \<leftarrow> outs. unat (out_amount out)) < 2 ^ 64"
  shows "unat (outputs_amount outs) = (\<Sum>out \<leftarrow> outs. unat (out_amount out))"
proof -
  have "unat (foldl (\<lambda>a out. a + out_amount out) a xs) = unat a + (\<Sum>out \<leftarrow> xs. unat (out_amount out))"
    if "unat a + (\<Sum>out \<leftarrow> xs. unat (out_amount out)) < 2 ^ 64" for a :: u64 and xs
    using that by (induction xs arbitrary: a) (simp_all add: unat_u64_add)
  from this [of 0 outs] show ?thesis using assms by (simp add: outputs_amount_def)
qed

definition fee_for :: "nat \<Rightarrow> nat \<Rightarrow> nat" where
  "fee_for per_kb sz = max sz ((sz * per_kb div 1000 + 99) div 100 * 100)"

lemma fee_for_mono: "m \<le> n \<Longrightarrow> fee_for k m \<le> fee_for k n"
  unfolding fee_for_def by (intro max.mono mult_le_mono1 div_le_mono add_le_mono1) auto

lemma fee_for_bound: "sz \<le> 100000 \<Longrightarrow> k \<le> 2 ^ 24 \<Longrightarrow> fee_for k sz \<le> 2 ^ 32"
proof -
  assume "sz \<le> 100000" "k \<le> 2 ^ 24"
  then have "sz * k \<le> 100000 * 2 ^ 24" by (intro mult_le_mono)
  then show "fee_for k sz \<le> 2 ^ 32" using \<open>sz \<le> 100000\<close> by (simp add: fee_for_def)
qed

lemma unat_txFee:
  assumes "sz \<le> 100000" "unat k \<le> 2 ^ 24"
  shows "unat (txFee k sz) = fee_for (unat k) sz"
proof -
  have p: "sz * unat k \<le> 100000 * 2 ^ 24" using assms by (intro mult_le_mono)
  have s: "unat (of_nat sz :: u64) = sz" using assms by (simp add: unat_of_nat)
  have m: "unat (of_nat sz * k) = sz * unat k" using p s by (subst unat_word_ariths) simp
  have a: "unat (of_nat sz * k div 1000 + 99) = sz * unat k div 1000 + 99"
    using p by (subst unat_u64_add) (simp_all add: unat_div m)
  have "unat ((of_nat sz * k div 1000 + 99) div 100 * 100) = (sz * unat k div 1000 + 99) div 100 * 100"
    using p by (subst unat_word_ariths) (simp add: unat_div a)
  moreover have "unat (of_nat sz * 1000 div 1000 :: u64) = sz"
    using assms(1) s by (simp add: unat_div unat_word_ariths)
  ultimately show ?thesis by (simp add: txFee_def Let_def fee_for_def word_less_nat_alt max_def not_less)
qed

lemma round_fee_bounds:
  assumes "unat fee < 2 ^ 63"
  shows "unat fee \<le> unat (round_fee bal amount fee)" "unat (round_fee bal amount fee) \<le> unat fee + 99"
proof -
  have "unat ((bal - (amount + fee)) mod 100) \<le> 99" by (simp add: unat_mod)
  then have "unat (fee + (bal - (amount + fee)) mod 100) = unat fee + unat ((bal - (amount + fee)) mod 100)"
    using assms by (intro unat_u64_add) simp
  then show "unat fee \<le> unat (round_fee bal amount fee)" "unat (round_fee bal amount fee) \<le> unat fee + 99"
    using \<open>unat ((bal - (amount + fee)) mod 100) \<le> 99\<close> by (simp_all add: round_fee_def)
qed

section \<open>The inputs\<close>

lemma var_int_size_le: "BRVarIntSize n \<le> 9"
  by (simp add: BRVarIntSize_def BRVarIntSet_def)

definition unsigned_length :: "nat \<Rightarrow> txout list \<Rightarrow> nat" where
  "unsigned_length n outs = 8 + BRVarIntSize (of_nat n) + BRVarIntSize (of_nat (length outs)) + TX_INPUT_SIZE * n +
     sum_list (map output_size outs)"

definition unsigned_tx :: "tx \<Rightarrow> bool" where
  "unsigned_tx t \<longleftrightarrow> (\<forall>i \<in> set (tx_inputs t). in_signature i = None)"

lemma unsigned_size:
  assumes "unsigned_tx t"
  shows "BRTransactionSize t = unsigned_length (length (tx_inputs t)) (tx_outputs t)"
proof -
  have "sum_list (map input_size is) = TX_INPUT_SIZE * length is" if "\<forall>i \<in> set is. in_signature i = None" for "is"
    using that by (induction "is") (simp_all add: input_size_def)
  then show ?thesis using assms by (simp add: BRTransactionSize_def unsigned_tx_def unsigned_length_def)
qed

text \<open>The size of a transaction with at most \<open>n\<close> unsigned inputs and the given outputs, with a change output, is below this.\<close>

definition size_bound :: "nat \<Rightarrow> txout list \<Rightarrow> nat" where
  "size_bound n outs = 26 + TX_INPUT_SIZE * n + sum_list (map output_size outs) + TX_OUTPUT_SIZE"

lemma unsigned_length_le: "k \<le> n \<Longrightarrow> unsigned_length k outs + TX_OUTPUT_SIZE \<le> size_bound n outs"
proof -
  assume "k \<le> n"
  then have "TX_INPUT_SIZE * k \<le> TX_INPUT_SIZE * n" by (rule mult_le_mono2)
  then show ?thesis using var_int_size_le [of "of_nat k"] var_int_size_le [of "of_nat (length outs)"]
    unfolding unsigned_length_def size_bound_def by linarith
qed

lemma select_inputs_ok:
  assumes "sane_store r (allTx w)" "\<forall>u \<in> set us. utxo_output w u \<noteq> None" "unsigned_tx t"
    "size_bound (length (tx_inputs t) + length us) (tx_outputs t) \<le> TX_MAX_SIZE"
  shows "\<exists>k t' bal' fee'. select_inputs tn w amount minAmount us t bal fee = Some (Enough t' bal' fee') \<and> k \<le> length us \<and>
    map input_key (tx_inputs t') = map input_key (tx_inputs t) @ take k us \<and>
    map in_amount (tx_inputs t') = map in_amount (tx_inputs t) @ map (worth w) (take k us) \<and>
    tx_outputs t' = tx_outputs t \<and> unsigned_tx t' \<and> bal' = bal + total_worth w (take k us) \<and>
    (us \<noteq> [] \<longrightarrow> fee' = round_fee (balance w) amount (txFee (feePerKb w) (BRTransactionSize t' + TX_OUTPUT_SIZE))) \<and>
    (bal' = amount + fee' \<or> amount + fee' + minAmount \<le> bal' \<or> k = length us)"
  using assms(2-)
proof (induction us arbitrary: t bal fee)
  case Nil
  then show ?case by (intro exI [of _ 0]) simp
next
  case (Cons u us)
  obtain out where out: "utxo_output w u = Some out" using Cons.prems(1) by auto
  then obtain p where p: "allTx w (fst u) = Some p" "unat (snd u) < length (tx_outputs p)" "out = tx_outputs p ! unat (snd u)"
    by (auto simp: utxo_output_def split: option.splits if_splits)
  have h: "txHash p = fst u" "fst u \<noteq> 0" using sane_storeD [OF assms(1) p(1)] by (auto simp: sane_tx_def)
  obtain t1 i where t1: "BRTransactionAddInput tn t (txHash p) (snd u) (out_amount out) (out_script out) None TXIN_SEQUENCE = Some t1"
    "t1 = t\<lparr>tx_inputs := tx_inputs t @ [i]\<rparr>" "input_key i = u" "in_amount i = out_amount out" "in_signature i = None"
    using h by (cases "out_script out") (simp_all add: BRTransactionAddInput_def BRTxInputSetScript_def input_key_def)
  have f: "tx_inputs t1 = tx_inputs t @ [i]" "tx_outputs t1 = tx_outputs t" by (simp_all add: t1(2))
  have un: "unsigned_tx t1" using Cons.prems(2) t1(5) by (simp add: unsigned_tx_def f)
  have "BRTransactionSize t1 + TX_OUTPUT_SIZE \<le> TX_MAX_SIZE"
    using unsigned_size [OF un] Cons.prems(3)
      unsigned_length_le [of "length (tx_inputs t1)" "length (tx_inputs t) + length (u # us)" "tx_outputs t1"]
    by (simp add: f)
  moreover define fee1 where "fee1 = round_fee (balance w) amount (txFee (feePerKb w) (BRTransactionSize t1 + TX_OUTPUT_SIZE))"
  moreover define bal1 where "bal1 = bal + out_amount out"
  ultimately have step: "select_inputs tn w amount minAmount (u # us) t bal fee =
      (if bal1 = amount + fee1 \<or> bal1 \<ge> amount + fee1 + minAmount then Some (Enough t1 bal1 fee1)
       else select_inputs tn w amount minAmount us t1 bal1 fee1)"
    using p t1(1) by simp
  have worth: "worth w u = out_amount out" using out by (simp add: worth_def)
  show ?case
  proof (cases "bal1 = amount + fee1 \<or> bal1 \<ge> amount + fee1 + minAmount")
    case True
    show ?thesis unfolding step
      by (rule exI [of _ "Suc 0"], rule exI [of _ t1], rule exI [of _ bal1], rule exI [of _ fee1])
        (use True t1 f un worth in \<open>auto simp: bal1_def fee1_def take_Suc\<close>)
  next
    case False
    have "size_bound (length (tx_inputs t1) + length us) (tx_outputs t1) \<le> TX_MAX_SIZE" using Cons.prems(3) by (simp add: f)
    with Cons.IH [OF _ un this, of bal1 fee1] Cons.prems(1) obtain k t' bal' fee' where
      k: "select_inputs tn w amount minAmount us t1 bal1 fee1 = Some (Enough t' bal' fee')" "k \<le> length us"
      "map input_key (tx_inputs t') = map input_key (tx_inputs t1) @ take k us"
      "map in_amount (tx_inputs t') = map in_amount (tx_inputs t1) @ map (worth w) (take k us)"
      "tx_outputs t' = tx_outputs t1" "unsigned_tx t'" "bal' = bal1 + total_worth w (take k us)"
      "us \<noteq> [] \<longrightarrow> fee' = round_fee (balance w) amount (txFee (feePerKb w) (BRTransactionSize t' + TX_OUTPUT_SIZE))"
      "bal' = amount + fee' \<or> amount + fee' + minAmount \<le> bal' \<or> k = length us" by auto
    have f': "fee' = round_fee (balance w) amount (txFee (feePerKb w) (BRTransactionSize t' + TX_OUTPUT_SIZE))"
      using k(1,8) by (cases "us = []") (auto simp: fee1_def)
    show ?thesis unfolding step if_not_P [OF False] k(1)
      by (rule exI [of _ "Suc k"], rule exI [of _ t'], rule exI [of _ bal'], rule exI [of _ fee'])
        (use k(2-7,9) t1(3,4) f f' worth in \<open>simp add: bal1_def add.assoc\<close>)
  qed
qed


section \<open>The outputs\<close>

definition requested :: "bool \<Rightarrow> txout \<Rightarrow> txout" where
  "requested tn out = BRTxOutputSetScript tn \<lparr>out_address = [], out_amount = out_amount out, out_script = None\<rparr> (out_script out)"

lemma requested_fields [simp]:
  "out_amount (requested tn out) = out_amount out" "out_script (requested tn out) = out_script out"
  "output_size (requested tn out) = output_size out"
  by (simp_all add: requested_def BRTxOutputSetScript_def output_size_def)

lemma draft_fields:
  "tx_inputs (foldl (\<lambda>t out. BRTransactionAddOutput tn t (out_amount out) (out_script out)) t outs) = tx_inputs t"
  "tx_outputs (foldl (\<lambda>t out. BRTransactionAddOutput tn t (out_amount out) (out_script out)) t outs) =
    tx_outputs t @ map (requested tn) outs"
  by (induction outs arbitrary: t) (simp_all add: BRTransactionAddOutput_def requested_def)

text \<open>The wallet can pay: all that it has fits into one transaction, and is enough for the amounts and the fee.\<close>

definition can_pay :: "wallet \<Rightarrow> txout list \<Rightarrow> bool" where
  "can_pay w outs \<longleftrightarrow> size_bound (length (utxos w)) outs \<le> TX_MAX_SIZE \<and> unat (feePerKb w) \<le> 2 ^ 24 \<and>
     (\<Sum>u \<leftarrow> utxos w. unat (worth w u)) < 2 ^ 62 \<and>
     (\<Sum>out \<leftarrow> outs. unat (out_amount out)) + fee_for (unat (feePerKb w)) (size_bound (length (utxos w)) outs) + 99
       \<le> (\<Sum>u \<leftarrow> utxos w. unat (worth w u))"

text \<open>What is left over is the fee, or goes to a change output.\<close>

definition pays :: "env \<Rightarrow> wallet \<Rightarrow> txout list \<Rightarrow> wallet \<Rightarrow> tx \<Rightarrow> nat \<Rightarrow> nat \<Rightarrow> bool" where
  "pays e w outs w' t due fee \<longleftrightarrow>
     (\<Sum>i \<leftarrow> tx_inputs t. unat (in_amount i)) = (\<Sum>out \<leftarrow> tx_outputs t. unat (out_amount out)) + fee \<and> due \<le> fee \<and>
     (mset (tx_outputs t) = mset (map (requested (testnet e)) outs) \<and> fee \<le> due + 99 + unat (BRWalletMinOutputAmount w) \<or>
      (\<exists>c a. mset (tx_outputs t) = add_mset c (mset (map (requested (testnet e)) outs)) \<and>
         BRWalletMinOutputAmount w < out_amount c \<and> fee \<le> due + 99 \<and>
         a \<in> set (internalChain w') \<and> addr_key a \<notin> usedAddrs w \<and> out_script c = script_of_address (testnet e) a))"

lemma mset_shuffle_from:
  assumes "\<forall>i n. 0 < n \<longrightarrow> rnd i n < n"
  shows "mset (shuffle_from rnd i n xs) = mset xs"
proof (induction n arbitrary: i xs)
  case (Suc n)
  let ?j = "i + rnd i (length xs - i)"
  have "mset (xs[i := xs ! ?j, ?j := xs ! i]) = mset xs" if "i + 1 < length xs"
  proof -
    have "rnd i (length xs - i) < length xs - i" using assms that by simp
    then show ?thesis using that by (intro mset_swap) auto
  qed
  then show ?case using Suc.IH by (simp add: Let_def)
qed simp

lemma script_of_address_total: "\<exists>s. script_of_address tn a = Some s"
proof -
  obtain n x where 1: "BRAddressScriptPubKey tn None a = Some (n, x)" using ScriptPubKey_safe(1) [of tn None a] by auto
  obtain m s where "BRAddressScriptPubKey tn (Some n) a = Some (m, s)" using ScriptPubKey_safe(1) [of tn "Some n" a] by auto
  with 1 show ?thesis by (simp add: script_of_address_def)
qed

lemma add_change_ok:
  assumes "wallet_ok e r w" "derives_all (derive e True)" "room_to_derive 1 True w"
    "\<forall>i n. 0 < n \<longrightarrow> rand e i n < n"
    "amount + fee \<le> bal"
  shows "\<exists>w' t' cs. add_change e w t amount minAmount bal fee = Some (w', Some t') \<and> tx_inputs t' = tx_inputs t \<and>
    mset (tx_outputs t') = mset (tx_outputs t) + mset cs \<and>
    (cs = [] \<and> bal - (amount + fee) \<le> minAmount \<or>
     (\<exists>c a. cs = [c] \<and> out_amount c = bal - (amount + fee) \<and> minAmount < out_amount c \<and> a \<in> set (internalChain w') \<and>
        addr_key a \<notin> usedAddrs w \<and> out_script c = script_of_address (testnet e) a))"
proof (cases "minAmount < bal - (amount + fee)")
  case False
  then have "bal - (amount + fee) \<le> minAmount" by (simp add: not_less)
  with False assms(5) show ?thesis
    by (intro exI [of _ w] exI [of _ t] exI [of _ "[]"]) (auto simp: add_change_def not_less)
next
  case True
  have c: "chains_ok e w" by (rule base_okD(2) [OF wallet_okD(1) [OF assms(1)]])
  obtain n k w' addrs where u: "BRWalletUnusedAddrs e 1 True w = Some (w', addrs)"
    "addrs = map (addr_at (derive e True)) [k..<k + 1]" "\<forall>a \<in> set addrs. addr_key a \<notin> usedAddrs w" "k + 1 \<le> n"
    "chain_of True w' = map (addr_at (derive e True)) [0..<n]"
    using unused_addrs_chain [OF assms(2) c assms(3)] by auto
  let ?a = "addr_at (derive e True) k"
  obtain s where s: "script_of_address (testnet e) ?a = Some s" using script_of_address_total by blast
  let ?t = "BRTransactionShuffleOutputs (rand e) (BRTransactionAddOutput (testnet e) t (bal - (amount + fee)) (Some s))"
  let ?c = "BRTxOutputSetScript (testnet e) \<lparr>out_address = [], out_amount = bal - (amount + fee), out_script = None\<rparr> (Some s)"
  have "add_change e w t amount minAmount bal fee = Some (w', Some ?t)"
    using True assms(5) u(1,2) s by (simp add: add_change_def)
  moreover have "tx_inputs ?t = tx_inputs t" "mset (tx_outputs ?t) = mset (tx_outputs t) + mset [?c]"
    by (simp_all add: BRTransactionShuffleOutputs_def BRTransactionAddOutput_def mset_shuffle_from [OF assms(4)] del: shuffle_from.simps)
  moreover have "?a \<in> set (internalChain w')" using u(4,5) by (simp add: chain_of_def)
  moreover have "addr_key ?a \<notin> usedAddrs w" using u(2,3) by simp
  moreover have "out_amount ?c = bal - (amount + fee)" "out_script ?c = Some s" by (simp_all add: BRTxOutputSetScript_def)
  ultimately show ?thesis using True s by (intro exI [of _ w'] exI [of _ ?t] exI [of _ "[?c]"]) force
qed


section \<open>The whole\<close>

lemma create_steps:
  assumes "wallet_ok e r w" "outs \<noteq> []" "\<forall>out \<in> set outs. arr (out_script out) \<noteq> []"
    "size_bound (length (utxos w)) outs \<le> TX_MAX_SIZE" "utxos w \<noteq> []"
  shows "\<exists>k t bal fee. BRWalletCreateTxForOutputs e w outs =
      add_change e w t (outputs_amount outs) (BRWalletMinOutputAmount w) bal fee \<and> k \<le> length (utxos w) \<and>
    map input_key (tx_inputs t) = take k (utxos w) \<and> map in_amount (tx_inputs t) = map (worth w) (take k (utxos w)) \<and>
    tx_outputs t = map (requested (testnet e)) outs \<and> BRTransactionSize t = unsigned_length k outs \<and>
    bal = total_worth w (take k (utxos w)) \<and>
    fee = round_fee (balance w) (outputs_amount outs) (txFee (feePerKb w) (BRTransactionSize t + TX_OUTPUT_SIZE)) \<and>
    (bal = outputs_amount outs + fee \<or> outputs_amount outs + fee + BRWalletMinOutputAmount w \<le> bal \<or> k = length (utxos w))"
proof -
  let ?t = "foldl (\<lambda>t out. BRTransactionAddOutput (testnet e) t (out_amount out) (out_script out)) BRTransactionNew outs"
  let ?fee = "txFee (feePerKb w) (BRTransactionSize ?t + TX_OUTPUT_SIZE)"
  note base = wallet_okD(1) [OF assms(1)]
  have d: "tx_inputs ?t = []" "tx_outputs ?t = map (requested (testnet e)) outs"
    by (simp_all add: draft_fields BRTransactionNew_def)
  have osz: "size_bound n (map (requested tn) outs) = size_bound n outs"
    "unsigned_length n (map (requested tn) outs) = unsigned_length n outs" for n tn
    by (simp_all add: o_def size_bound_def unsigned_length_def)
  have "\<forall>u \<in> set (utxos w). utxo_output w u \<noteq> None"
    using wallet_okD(2) [OF assms(1)] own_utxo_output [OF base_okD(1) [OF base]] by (auto simp: money_ok_def)
  moreover have "size_bound (length (tx_inputs ?t) + length (utxos w)) (tx_outputs ?t) \<le> TX_MAX_SIZE"
    using assms(4) unfolding d osz by simp
  ultimately obtain k t bal fee where
    k: "select_inputs (testnet e) w (outputs_amount outs) (BRWalletMinOutputAmount w) (utxos w) ?t 0 ?fee = Some (Enough t bal fee)"
      "k \<le> length (utxos w)" "map input_key (tx_inputs t) = map input_key (tx_inputs ?t) @ take k (utxos w)"
      "map in_amount (tx_inputs t) = map in_amount (tx_inputs ?t) @ map (worth w) (take k (utxos w))"
      "tx_outputs t = tx_outputs ?t" "unsigned_tx t" "bal = 0 + total_worth w (take k (utxos w))"
      "fee = round_fee (balance w) (outputs_amount outs) (txFee (feePerKb w) (BRTransactionSize t + TX_OUTPUT_SIZE))"
      "bal = outputs_amount outs + fee \<or> outputs_amount outs + fee + BRWalletMinOutputAmount w \<le> bal \<or> k = length (utxos w)"
    using select_inputs_ok [OF base_okD(1) [OF base], of "utxos w" ?t "testnet e" "outputs_amount outs"
        "BRWalletMinOutputAmount w" 0 ?fee] assms(5) d(1) by (auto simp: unsigned_tx_def)
  have "length (tx_inputs t) = k" using k(2,3) d(1) by (metis append_Nil length_map length_take list.simps(8) min.absorb2)
  then have "BRTransactionSize t = unsigned_length k outs"
    using unsigned_size [OF k(6)] unfolding k(5) d osz by simp
  moreover have "\<not> (outs = [] \<or> list_ex (\<lambda>out. arr (out_script out) = []) outs)" using assms(2,3) by (auto simp: list_ex_iff)
  then have "BRWalletCreateTxForOutputs e w outs =
      add_change e w t (outputs_amount outs) (BRWalletMinOutputAmount w) bal fee"
    using k(1) by (subst BRWalletCreateTxForOutputs.simps) (simp add: Let_def)
  ultimately show ?thesis using k(2-5,7-) d by (intro exI [of _ k] exI [of _ t]) auto
qed


lemma unat_min_amount:
  assumes "unat (feePerKb w) \<le> 2 ^ 24"
  shows "unat (BRWalletMinOutputAmount w) \<le> 2 ^ 40"
proof -
  have m: "unat (546 * feePerKb w :: u64) = 546 * unat (feePerKb w)" using assms by (subst unat_word_ariths) simp
  have "unat (546 * feePerKb w + 999 :: u64) = 546 * unat (feePerKb w) + 999"
    using assms by (subst unat_u64_add) (simp_all add: m)
  then have q: "unat ((546 * feePerKb w + 999) div 1000 :: u64) \<le> 2 ^ 40" using assms by (simp add: unat_div)
  have m: "TX_MIN_OUTPUT_AMOUNT = 546" by (simp add: TX_MIN_OUTPUT_AMOUNT_def)
  have f: "MIN_FEE_PER_KB = 1000" by (simp add: MIN_FEE_PER_KB_def)
  have e: "x + 1000 - 1 = x + (999 :: u64)" for x by simp
  show ?thesis unfolding BRWalletMinOutputAmount_def Let_def m f e using q by (cases "546 < (546 * feePerKb w + 999) div 1000") auto
qed

lemma sum_take_le: "sum_list (take k xs) \<le> sum_list (xs :: nat list)"
  by (metis append_take_drop_id le_add1 sum_list_append)

lemma create_pays:
  assumes "wallet_ok e r w" "derives_all (derive e True)" "room_to_derive 1 True w"
    "\<forall>i n. 0 < n \<longrightarrow> rand e i n < n"
    "outs \<noteq> []" "\<forall>out \<in> set outs. arr (out_script out) \<noteq> []" "can_pay w outs"
  shows "\<exists>w' t k fee. BRWalletCreateTxForOutputs e w outs = Some (w', Some t) \<and>
    map input_key (tx_inputs t) = take k (utxos w) \<and> k \<le> length (utxos w) \<and>
    pays e w outs w' t (fee_for (unat (feePerKb w)) (unsigned_length k outs + TX_OUTPUT_SIZE)) fee"
proof -
  let ?worth = "\<lambda>us. \<Sum>u \<leftarrow> us. unat (worth w u)"
  let ?a = "outputs_amount outs" and ?m = "BRWalletMinOutputAmount w"
  have cp: "size_bound (length (utxos w)) outs \<le> TX_MAX_SIZE" "unat (feePerKb w) \<le> 2 ^ 24" "?worth (utxos w) < 2 ^ 62"
    "(\<Sum>out \<leftarrow> outs. unat (out_amount out)) + fee_for (unat (feePerKb w)) (size_bound (length (utxos w)) outs) + 99
       \<le> ?worth (utxos w)" using assms(7) by (auto simp: can_pay_def)
  have amt: "unat ?a = (\<Sum>out \<leftarrow> outs. unat (out_amount out))" using cp(3,4) by (intro unat_outputs_amount) simp
  have "utxos w \<noteq> []" using cp(4) by auto
  from create_steps [OF assms(1,5,6) cp(1) this] obtain k t bal fee where
    k: "BRWalletCreateTxForOutputs e w outs = add_change e w t ?a ?m bal fee" "k \<le> length (utxos w)"
      "map input_key (tx_inputs t) = take k (utxos w)" "map in_amount (tx_inputs t) = map (worth w) (take k (utxos w))"
      "tx_outputs t = map (requested (testnet e)) outs" "BRTransactionSize t = unsigned_length k outs"
      "bal = total_worth w (take k (utxos w))"
      "fee = round_fee (balance w) ?a (txFee (feePerKb w) (BRTransactionSize t + TX_OUTPUT_SIZE))"
      "bal = ?a + fee \<or> ?a + fee + ?m \<le> bal \<or> k = length (utxos w)" by blast
  define due where "due = fee_for (unat (feePerKb w)) (unsigned_length k outs + TX_OUTPUT_SIZE)"
  have len: "unsigned_length k outs + TX_OUTPUT_SIZE \<le> size_bound (length (utxos w)) outs" by (rule unsigned_length_le [OF k(2)])
  then have sz: "unsigned_length k outs + TX_OUTPUT_SIZE \<le> 100000" using cp(1) by (simp add: TX_MAX_SIZE_def)
  have due: "due \<le> fee_for (unat (feePerKb w)) (size_bound (length (utxos w)) outs)" "due \<le> 2 ^ 32"
    using fee_for_mono [OF len] fee_for_bound [OF sz cp(2)] by (simp_all add: due_def)
  have "unat (txFee (feePerKb w) (BRTransactionSize t + TX_OUTPUT_SIZE)) = due"
    unfolding k(6) due_def by (rule unat_txFee [OF sz cp(2)])
  then have fee: "due \<le> unat fee" "unat fee \<le> due + 99"
    using round_fee_bounds [of "txFee (feePerKb w) (BRTransactionSize t + TX_OUTPUT_SIZE)"] due(2) by (simp_all add: k(8))
  have le: "?worth (take k (utxos w)) \<le> ?worth (utxos w)" using sum_take_le [of k "map (\<lambda>u. unat (worth w u)) (utxos w)"]
    by (simp add: take_map)
  have bal: "unat bal = ?worth (take k (utxos w))" using le cp(3) unfolding k(7) by (intro unat_total_worth) simp
  have af: "unat (?a + fee) = unat ?a + unat fee" using amt fee due(2) cp(3,4) by (intro unat_u64_add) simp
  moreover have "unat (?a + fee + ?m) = unat ?a + unat fee + unat ?m"
    using amt fee due(2) cp(3,4) unat_min_amount [OF cp(2)] by (subst unat_u64_add) (simp_all add: af)
  ultimately have enough: "unat ?a + unat fee \<le> unat bal"
    using k(9) fee(2) due(1) cp(4) amt bal by (auto simp: word_le_nat_alt)
  then have "?a + fee \<le> bal" by (simp add: word_le_nat_alt af)
  from add_change_ok [OF assms(1-4) this, of t ?m] obtain w' t' cs where
    c: "add_change e w t ?a ?m bal fee = Some (w', Some t')" "tx_inputs t' = tx_inputs t"
      "mset (tx_outputs t') = mset (tx_outputs t) + mset cs"
      "cs = [] \<and> bal - (?a + fee) \<le> ?m \<or>
       (\<exists>c a. cs = [c] \<and> out_amount c = bal - (?a + fee) \<and> ?m < out_amount c \<and> a \<in> set (internalChain w') \<and>
          addr_key a \<notin> usedAddrs w \<and> out_script c = script_of_address (testnet e) a)" by blast
  have rest: "unat (bal - (?a + fee)) = unat bal - (unat ?a + unat fee)"
    using \<open>?a + fee \<le> bal\<close> by (simp add: unat_sub af)
  have ins: "(\<Sum>i \<leftarrow> tx_inputs t'. unat (in_amount i)) = unat bal"
    using arg_cong [OF k(4), of "\<lambda>xs. sum_list (map unat xs)"] unfolding c(2) bal by (simp add: o_def)
  have outs: "(\<Sum>out \<leftarrow> tx_outputs t'. unat (out_amount out)) = unat ?a + (\<Sum>out \<leftarrow> cs. unat (out_amount out))"
    using arg_cong [OF c(3), of "\<lambda>M. \<Sum>\<^sub># (image_mset (\<lambda>out. unat (out_amount out)) M)"] unfolding k(5) amt
    by (simp add: o_def sum_mset_sum_list multiset.map_comp flip: mset_map)
  have "pays e w outs w' t' due (unat bal - unat ?a - (\<Sum>out \<leftarrow> cs. unat (out_amount out)))"
    using c(4)
  proof
    assume n: "cs = [] \<and> bal - (?a + fee) \<le> ?m"
    then have "unat bal - (unat ?a + unat fee) \<le> unat ?m" using rest by (simp add: word_le_nat_alt)
    then have "due \<le> unat bal - unat ?a" "unat bal - unat ?a \<le> due + 99 + unat ?m" using enough fee by linarith+
    then show ?thesis using n ins outs enough c(3) by (simp add: pays_def k(5))
  next
    assume "\<exists>c a. cs = [c] \<and> out_amount c = bal - (?a + fee) \<and> ?m < out_amount c \<and> a \<in> set (internalChain w') \<and>
          addr_key a \<notin> usedAddrs w \<and> out_script c = script_of_address (testnet e) a"
    then obtain ch a where n: "cs = [ch]" "out_amount ch = bal - (?a + fee)" "?m < out_amount ch" "a \<in> set (internalChain w')"
      "addr_key a \<notin> usedAddrs w" "out_script ch = script_of_address (testnet e) a" by blast
    then show ?thesis using ins outs enough fee c(3) rest unfolding pays_def by (intro conjI disjI2 exI [of _ ch] exI [of _ a]) (simp_all add: k(5))
  qed
  then show ?thesis using k(1-3) c(1,2) unfolding due_def by metis
qed


text \<open>
  C5: when the wallet can pay, a transaction is made and the money adds up. Its inputs are the first unspent outputs of the
  wallet, with their amounts; it has the requested outputs, and a change output to an unused address of the internal
  chain when more than the smallest output is left; what the inputs are worth more than the outputs is the fee, which is
  at least the fee due for the size, and above it by the rounding of at most 99 and, without a change output, by at
  most the smallest output.
\<close>

theorem create_tx_spec:
  assumes "wallet_ok e r w" "derives_all (derive e True)" "room_to_derive 1 True w" "\<forall>i n. 0 < n \<longrightarrow> rand e i n < n"
    "outs \<noteq> []" "\<forall>out \<in> set outs. arr (out_script out) \<noteq> []" "can_pay w outs"
  shows "\<exists>w' t k fee. BRWalletCreateTxForOutputs e w outs = Some (w', Some t) \<and>
    map input_key (tx_inputs t) = take k (utxos w) \<and> k \<le> length (utxos w) \<and>
    pays e w outs w' t (fee_for (unat (feePerKb w)) (unsigned_length k outs + TX_OUTPUT_SIZE)) fee"
  by (rule create_pays [OF assms])

lemma create_tx_spec_witness:
  "\<exists>w t k fee. BRWalletCreateTxForOutputs sample_env sample_funds [\<lparr>out_address = [], out_amount = 5000, out_script = Some [81]\<rparr>] =
     Some (w, Some t) \<and> map input_key (tx_inputs t) = take k [(5, 0)] \<and>
     pays sample_env sample_funds [\<lparr>out_address = [], out_amount = 5000, out_script = Some [81]\<rparr>] w t
       (fee_for 10000 (unsigned_length k [\<lparr>out_address = [], out_amount = 5000, out_script = Some [81]\<rparr>] + TX_OUTPUT_SIZE)) fee"
proof -
  let ?outs = "[\<lparr>out_address = [], out_amount = 5000, out_script = Some [81]\<rparr>]"
  have f: "utxos sample_funds = [(5, 0)]" "feePerKb sample_funds = 10000" "internalChain sample_funds = []"
    "usedAddrs sample_funds = {}"
    by (simp_all add: sample_funds_def empty_wallet_def DEFAULT_FEE_PER_KB_def)
  have worth: "worth sample_funds (5, 0) = 1000000"
    by (simp add: worth_def utxo_output_def sample_funds_def sample_income_def)
  have room: "room_to_derive 1 True sample_funds" by (simp add: room_to_derive_def chain_of_def f)
  have pay: "can_pay sample_funds ?outs"
    by (simp add: can_pay_def f worth size_bound_def output_size_def BRVarIntSize_def BRVarIntSet_def alen_def arr_def fee_for_def
        TX_INPUT_SIZE_def TX_OUTPUT_SIZE_def TX_MAX_SIZE_def)
  have rnd: "\<forall>i n. 0 < n \<longrightarrow> rand sample_env i n < n" by (simp add: sample_env_def)
  from create_tx_spec [OF sample_funds_ok sample_derives room rnd _ _ pay] show ?thesis by (fastforce simp: f arr_def)
qed

end
