(* ===== verification/Keys.thy ===== *)
theory Keys
  imports Address "HOL-Library.Signed_Division"
begin

text \<open>
  Keys of BRKey.c: the formats of private keys, and public keys, addresses and signatures around the
  elliptic curve library secp256k1, which is a parameter: the record \<open>secp256k1\<close> holds the functions of the library that
  the code calls, without the context and the buffers they write to. The context is taken to exist: \<open>BRKeyRecoverPubKey\<close>,
  \<open>BRKeyCompactSign\<close>, \<open>BRKeyPubKey\<close> and \<open>BRKeyPrivKey\<close> do not create it, and would pass \<open>NULL\<close> before another function has. A function that returns 0 is \<open>None\<close>; where the
  code ignores a failure, what the library leaves in the buffer is written out at the call. A failed assertion of the code
  and an argument that the library rejects with its callback, which aborts, are \<open>None\<close> of the operation.

  The theorems: a key in wallet import format is read back as it was written, on its network only; a compact
  signature leads back to the public key of the signer.
\<close>

section \<open>The functions of secp256k1\<close>

record ('pk, 'sig, 'rsig) secp256k1 =
  seckey_verify :: "byte list \<Rightarrow> bool"
  privkey_tweak_add :: "byte list \<Rightarrow> byte list \<Rightarrow> byte list option"
  privkey_tweak_mul :: "byte list \<Rightarrow> byte list \<Rightarrow> byte list option"
  pubkey_create :: "byte list \<Rightarrow> 'pk option"
  pubkey_parse :: "byte list \<Rightarrow> 'pk option"
  pubkey_serialize :: "bool \<Rightarrow> 'pk \<Rightarrow> byte list"
  pubkey_tweak_add :: "'pk \<Rightarrow> byte list \<Rightarrow> 'pk option"
  pubkey_tweak_mul :: "'pk \<Rightarrow> byte list \<Rightarrow> 'pk option"
  ecdsa_sign :: "byte list \<Rightarrow> byte list \<Rightarrow> 'sig option"
  signature_serialize_der :: "'sig \<Rightarrow> byte list"
  signature_parse_der :: "byte list \<Rightarrow> 'sig option"
  ecdsa_verify :: "'sig \<Rightarrow> byte list \<Rightarrow> 'pk \<Rightarrow> bool"
  sign_recoverable :: "byte list \<Rightarrow> byte list \<Rightarrow> 'rsig option"
  serialize_compact :: "'rsig \<Rightarrow> byte list \<times> nat"
  parse_compact :: "byte list \<Rightarrow> nat \<Rightarrow> 'rsig option"
  ecdsa_recover :: "'rsig \<Rightarrow> byte list \<Rightarrow> 'pk option"

text \<open>Arithmetic modulo the order: a failed call has cleared the number.\<close>

definition BRSecp256k1ModAdd :: "('pk, 'sig, 'rsig) secp256k1 \<Rightarrow> UInt256 \<Rightarrow> UInt256 \<Rightarrow> bool \<times> UInt256" where
  "BRSecp256k1ModAdd L a b =
     (case privkey_tweak_add L (UInt256Set a) (UInt256Set b) of None \<Rightarrow> (False, 0) | Some r \<Rightarrow> (True, UInt256Get r))"

definition BRSecp256k1ModMul :: "('pk, 'sig, 'rsig) secp256k1 \<Rightarrow> UInt256 \<Rightarrow> UInt256 \<Rightarrow> bool \<times> UInt256" where
  "BRSecp256k1ModMul L a b =
     (case privkey_tweak_mul L (UInt256Set a) (UInt256Set b) of None \<Rightarrow> (False, 0) | Some r \<Rightarrow> (True, UInt256Get r))"

text \<open>Points, as the 33 bytes of the compressed form: a point that is not computed is left as it was.\<close>

definition BRSecp256k1PointGen :: "('pk, 'sig, 'rsig) secp256k1 \<Rightarrow> byte list \<Rightarrow> UInt256 \<Rightarrow> bool \<times> byte list" where
  "BRSecp256k1PointGen L p i =
     (case pubkey_create L (UInt256Set i) of None \<Rightarrow> (False, p) | Some pk \<Rightarrow> (True, pubkey_serialize L True pk))"

definition BRSecp256k1PointAdd :: "('pk, 'sig, 'rsig) secp256k1 \<Rightarrow> byte list \<Rightarrow> UInt256 \<Rightarrow> bool \<times> byte list" where
  "BRSecp256k1PointAdd L p i =
     (case pubkey_parse L p of None \<Rightarrow> (False, p)
      | Some pk \<Rightarrow> (case pubkey_tweak_add L pk (UInt256Set i) of None \<Rightarrow> (False, p)
          | Some pk \<Rightarrow> (True, pubkey_serialize L True pk)))"

definition BRSecp256k1PointMul :: "('pk, 'sig, 'rsig) secp256k1 \<Rightarrow> byte list \<Rightarrow> UInt256 \<Rightarrow> bool \<times> byte list" where
  "BRSecp256k1PointMul L p i =
     (case pubkey_parse L p of None \<Rightarrow> (False, p)
      | Some pk \<Rightarrow> (case pubkey_tweak_mul L pk (UInt256Set i) of None \<Rightarrow> (False, p)
          | Some pk \<Rightarrow> (True, pubkey_serialize L True pk)))"

section \<open>Private keys\<close>

definition privkey_version :: "bool \<Rightarrow> byte" where
  "privkey_version tn = (if tn then 239 else 128)"

definition hex_char :: "byte \<Rightarrow> bool" where
  "hex_char c \<longleftrightarrow> c \<in> {48..57} \<or> c \<in> {65..70} \<or> c \<in> {97..102}"

definition BRPrivKeyIsValid :: "bool \<Rightarrow> byte list \<Rightarrow> bool" where
  "BRPrivKeyIsValid tn privKey =
     (let (dataLen, data) = BRBase58CheckDecode (Some 34) privKey; strLen = length privKey
      in if dataLen = 33 \<or> dataLen = 34 then data ! 0 = privkey_version tn
         else if (strLen = 30 \<or> strLen = 22) \<and> privKey ! 0 = 83 then BRSHA256 (privKey @ [63]) ! 0 = 0
         else length (takeWhile hex_char privKey) = 64)"

record BRKey =
  secret :: UInt256
  pubKey :: "byte list"
  compressed :: bool

definition BRKeyClean :: "BRKey \<Rightarrow> BRKey" where
  "BRKeyClean key = \<lparr>secret = 0, pubKey = replicate 65 0, compressed = False\<rparr>"

definition BRKeySetSecret :: "('pk, 'sig, 'rsig) secp256k1 \<Rightarrow> BRKey \<Rightarrow> UInt256 \<Rightarrow> bool \<Rightarrow> bool \<times> BRKey" where
  "BRKeySetSecret L key sec cmp =
     (seckey_verify L (UInt256Set sec), (BRKeyClean key)\<lparr>secret := sec, compressed := cmp\<rparr>)"

text \<open>
  The conversion \<open>%2hhx\<close> of \<open>sscanf\<close>: white space is skipped, then at most two characters are read, of which the first may be a
  sign; \<open>0x\<close> alone is the start of a number and no number. At the end of the string nothing is read.
\<close>

definition hex_value :: "byte \<Rightarrow> byte" where
  "hex_value c = (if c \<le> 57 then c - 48 else if c \<le> 70 then c - 55 else c - 87)"

definition sscanf_hhx :: "byte list \<Rightarrow> byte option" where
  "sscanf_hhx s =
     (case dropWhile (\<lambda>c. c = 32 \<or> c \<in> {9..13}) s of
        [] \<Rightarrow> None
      | c # r \<Rightarrow>
          if c = 43 \<or> c = 45 then
            (case r of [] \<Rightarrow> None
             | d # _ \<Rightarrow> if hex_char d then Some (if c = 45 then - hex_value d else hex_value d) else None)
          else if hex_char c then
            (case r of [] \<Rightarrow> Some (hex_value c)
             | d # _ \<Rightarrow> if hex_char d then Some (16 * hex_value c + hex_value d)
                 else if c = 48 \<and> (d = 120 \<or> d = 88) then None else Some (hex_value c))
          else None)"

text \<open>The loop over pairs of characters, while there is room for \<open>n\<close> more bytes.\<close>

fun hex_bytes :: "nat \<Rightarrow> byte list \<Rightarrow> byte list" where
  "hex_bytes (Suc n) (a # b # r) = (case sscanf_hhx (a # b # r) of None \<Rightarrow> [] | Some x \<Rightarrow> x # hex_bytes n r)"
| "hex_bytes n s = []"

definition BRKeySetPrivKey :: "bool \<Rightarrow> ('pk, 'sig, 'rsig) secp256k1 \<Rightarrow> BRKey \<Rightarrow> byte list \<Rightarrow> bool \<times> BRKey" where
  "BRKeySetPrivKey tn L key privKey =
     (if (length privKey = 30 \<or> length privKey = 22) \<and> privKey ! 0 = 83 then
        if BRPrivKeyIsValid tn privKey then BRKeySetSecret L key (UInt256Get (BRSHA256 privKey)) False
        else (False, key)
      else
        let (len, data) = BRBase58CheckDecode (Some 34) privKey;
            (len, data) = (if len = 0 \<or> len = 28 then BRBase58Decode (Some 34) privKey else (len, data));
            data = (if len < 32 \<or> len > 34 then hex_bytes 34 privKey else data);
            len = (if len < 32 \<or> len > 34 then length data else len)
        in if (len = 33 \<or> len = 34) \<and> data ! 0 = privkey_version tn
           then BRKeySetSecret L key (UInt256Get (drop 1 data)) (len = 34)
           else if len = 32 then BRKeySetSecret L key (UInt256Get data) False
           else (False, key))"

definition BRKeyPrivKey :: "bool \<Rightarrow> ('pk, 'sig, 'rsig) secp256k1 \<Rightarrow> BRKey \<Rightarrow> nat option \<Rightarrow> nat \<times> byte list" where
  "BRKeyPrivKey tn L key privKey =
     (if seckey_verify L (UInt256Set (secret key))
      then BRBase58CheckEncode privKey
             (privkey_version tn # UInt256Set (secret key) @ (if compressed key then [1] else []))
      else (0, []))"

section \<open>Public keys and addresses\<close>

definition BRKeySetPubKey :: "('pk, 'sig, 'rsig) secp256k1 \<Rightarrow> BRKey \<Rightarrow> byte list \<Rightarrow> (bool \<times> BRKey) option" where
  "BRKeySetPubKey L key pk =
     (if length pk = 33 \<or> length pk = 65
      then Some (pubkey_parse L pk \<noteq> None,
             (BRKeyClean key)\<lparr>pubKey := pk @ replicate (65 - length pk) 0, compressed := length pk \<le> 33\<rparr>)
      else None)"

text \<open>The public key is computed once and kept in the key; the first components are its length and the key.\<close>

definition key_pubkey :: "('pk, 'sig, 'rsig) secp256k1 \<Rightarrow> BRKey \<Rightarrow> nat \<times> BRKey" where
  "key_pubkey L key =
     (let size = (if compressed key then 33 else 65)
      in if take size (pubKey key) = replicate size 0 then
           (case pubkey_create L (UInt256Set (secret key)) of
              None \<Rightarrow> (0, key)
            | Some pk \<Rightarrow> let der = pubkey_serialize L (compressed key) pk
                in (length der, key\<lparr>pubKey := der @ drop (length der) (pubKey key)\<rparr>))
         else (size, key))"

definition BRKeyPubKey :: "('pk, 'sig, 'rsig) secp256k1 \<Rightarrow> BRKey \<Rightarrow> nat option \<Rightarrow> BRKey \<times> nat \<times> byte list" where
  "BRKeyPubKey L key dst =
     (let (size, key) = key_pubkey L key
      in (key, case dst of
            None \<Rightarrow> (size, [])
          | Some pkLen \<Rightarrow> if size \<le> pkLen then (size, take size (pubKey key)) else (0, [])))"

definition BRKeyHash160 :: "('pk, 'sig, 'rsig) secp256k1 \<Rightarrow> BRKey \<Rightarrow> BRKey \<times> UInt160" where
  "BRKeyHash160 L key =
     (let (key, len, _) = BRKeyPubKey L key None; pk = take len (pubKey key)
      in (key, if len > 0 \<and> pubkey_parse L pk \<noteq> None then UInt160Get (BRHash160 pk) else 0))"

definition BRKeyAddress :: "bool \<Rightarrow> ('pk, 'sig, 'rsig) secp256k1 \<Rightarrow> BRKey \<Rightarrow> nat option \<Rightarrow> BRKey \<times> nat \<times> byte list" where
  "BRKeyAddress tn L key addr =
     (let (key, hsh) = BRKeyHash160 L key
      in (key, if \<not> UInt160IsZero hsh then BRBase58CheckEncode addr (pubkey_address tn # UInt160Set hsh) else (0, [])))"

section \<open>Signatures\<close>

text \<open>The library rejects a null pointer for the signature with its callback.\<close>

definition BRKeySign :: "('pk, 'sig, 'rsig) secp256k1 \<Rightarrow> BRKey \<Rightarrow> nat option \<Rightarrow> UInt256 \<Rightarrow> (nat \<times> byte list) option" where
  "BRKeySign L key sig md =
     (case ecdsa_sign L (UInt256Set md) (UInt256Set (secret key)) of
        None \<Rightarrow> Some (0, [])
      | Some s \<Rightarrow> (case sig of None \<Rightarrow> None
          | Some sigLen \<Rightarrow> let der = signature_serialize_der L s
              in Some (if length der \<le> sigLen then (length der, der) else (0, []))))"

definition BRKeyVerify :: "('pk, 'sig, 'rsig) secp256k1 \<Rightarrow> BRKey \<Rightarrow> UInt256 \<Rightarrow> byte list \<Rightarrow> (BRKey \<times> bool) option" where
  "BRKeyVerify L key md sig =
     (if length sig = 0 then None
      else let (key, len, _) = BRKeyPubKey L key None
        in Some (key, len > 0 \<and> (case pubkey_parse L (take len (pubKey key)) of None \<Rightarrow> False
             | Some pk \<Rightarrow> (case signature_parse_der L sig of None \<Rightarrow> False
                 | Some s \<Rightarrow> ecdsa_verify L s (UInt256Set md) pk))))"

definition BRKeyCompactSign ::
  "('pk, 'sig, 'rsig) secp256k1 \<Rightarrow> BRKey \<Rightarrow> nat option \<Rightarrow> UInt256 \<Rightarrow> (nat \<times> byte list) option" where
  "BRKeyCompactSign L key compactSig md =
     (case compactSig of
        None \<Rightarrow> Some (if UInt256IsZero (secret key) then 0 else 65, [])
      | Some sigLen \<Rightarrow>
          if sigLen < 65 then None
          else if UInt256IsZero (secret key) then Some (0, [])
          else (case sign_recoverable L (UInt256Set md) (UInt256Set (secret key)) of
                  None \<Rightarrow> Some (0, [])
                | Some s \<Rightarrow> let (sig, recid) = serialize_compact L s
                    in Some (65, of_nat (27 + recid + (if compressed key then 4 else 0)) # sig)))"

text \<open>The recovery id is the remainder of a signed division, and the library rejects a negative one with its callback.\<close>

definition BRKeyRecoverPubKey ::
  "('pk, 'sig, 'rsig) secp256k1 \<Rightarrow> BRKey \<Rightarrow> UInt256 \<Rightarrow> byte list \<Rightarrow> (bool \<times> BRKey) option" where
  "BRKeyRecoverPubKey L key md compactSig =
     (if length compactSig \<noteq> 65 then None
      else let b = int (unat (compactSig ! 0)) - 27; cmp = (b \<ge> 4); recid = b smod 4
        in if recid < 0 then None
           else (case parse_compact L (drop 1 compactSig) (nat recid) of
                   None \<Rightarrow> Some (False, key)
                 | Some s \<Rightarrow> (case ecdsa_recover L s (UInt256Set md) of
                     None \<Rightarrow> Some (False, key)
                   | Some pk \<Rightarrow> BRKeySetPubKey L key (pubkey_serialize L cmp pk))))"


section \<open>What the code relies on\<close>

text \<open>
  The documented behaviour of the library: a public key can be computed for exactly the valid secrets; the serialized forms have
  33 and 65 bytes, start with a nonzero byte and are parsed back; adding a number to a secret and to its public
  key fails for the same numbers and gives the public key of the new secret otherwise.
\<close>

definition curve_laws :: "('pk, 'sig, 'rsig) secp256k1 \<Rightarrow> bool" where
  "curve_laws L \<longleftrightarrow>
     (\<forall>k. seckey_verify L k \<longleftrightarrow> pubkey_create L k \<noteq> None) \<and>
     (\<forall>c P. length (pubkey_serialize L c P) = (if c then 33 else 65) \<and> pubkey_serialize L c P ! 0 \<noteq> 0 \<and>
            pubkey_parse L (pubkey_serialize L c P) = Some P) \<and>
     (\<forall>k P t. pubkey_create L k = Some P \<longrightarrow>
        (case privkey_tweak_add L k t of
           None \<Rightarrow> pubkey_tweak_add L P t = None
         | Some k' \<Rightarrow> length k' = 32 \<and> pubkey_create L k' \<noteq> None \<and> pubkey_tweak_add L P t = pubkey_create L k'))"

text \<open>
  Recoverable signatures: a signature has 64 bytes and a recovery id below 4, and is parsed back; a signature that was made
  leads to the public key of the secret it was made with.
\<close>

definition recovery_laws :: "('pk, 'sig, 'rsig) secp256k1 \<Rightarrow> bool" where
  "recovery_laws L \<longleftrightarrow>
     (\<forall>s. length (fst (serialize_compact L s)) = 64 \<and> snd (serialize_compact L s) < 4 \<and>
          parse_compact L (fst (serialize_compact L s)) (snd (serialize_compact L s)) = Some s) \<and>
     (\<forall>md k s. sign_recoverable L md k = Some s \<longrightarrow> pubkey_create L k \<noteq> None \<and> ecdsa_recover L s md = pubkey_create L k)"

text \<open>A small instance: the group of the integers modulo \<open>2 ^ 256\<close> with the generator 1.\<close>

definition sample_curve :: "(UInt256, byte list \<times> byte list, UInt256) secp256k1" where
  "sample_curve = \<lparr>seckey_verify = (\<lambda>k. True),
     privkey_tweak_add = (\<lambda>k t. Some (UInt256Set (UInt256Get k + UInt256Get t))),
     privkey_tweak_mul = (\<lambda>k t. Some (UInt256Set (UInt256Get k * UInt256Get t))),
     pubkey_create = (\<lambda>k. Some (UInt256Get k)),
     pubkey_parse = (\<lambda>b. if length b = 33 \<and> b ! 0 = 2 \<or> length b = 65 \<and> b ! 0 = 4 then Some (UInt256Get (drop 1 b)) else None),
     pubkey_serialize = (\<lambda>c P. if c then 2 # UInt256Set P else 4 # UInt256Set P @ replicate 32 0),
     pubkey_tweak_add = (\<lambda>P t. Some (P + UInt256Get t)),
     pubkey_tweak_mul = (\<lambda>P t. Some (P * UInt256Get t)),
     ecdsa_sign = (\<lambda>md k. Some (md, k)),
     signature_serialize_der = (\<lambda>(md, k). md @ k),
     signature_parse_der = (\<lambda>b. Some (take 32 b, drop 32 b)),
     ecdsa_verify = (\<lambda>(m, k) md P. m = md \<and> UInt256Get k = P),
     sign_recoverable = (\<lambda>md k. Some (UInt256Get k)),
     serialize_compact = (\<lambda>s. (UInt256Set s @ replicate 32 0, 1)),
     parse_compact = (\<lambda>b i. Some (UInt256Get b)),
     ecdsa_recover = (\<lambda>s md. Some s)\<rparr>"

lemma sample_curve_laws: "curve_laws sample_curve" "recovery_laws sample_curve"
  by (simp_all add: curve_laws_def recovery_laws_def sample_curve_def codec_simps UInt_get_set)

lemma curve_lawsD:
  assumes "curve_laws L"
  shows "seckey_verify L k \<longleftrightarrow> pubkey_create L k \<noteq> None" "length (pubkey_serialize L c P) = (if c then 33 else 65)"
    "pubkey_serialize L c P ! 0 \<noteq> 0" "pubkey_parse L (pubkey_serialize L c P) = Some P"
  using assms unfolding curve_laws_def by blast+

lemma curve_laws_add:
  assumes "curve_laws L" "pubkey_create L k = Some P"
  shows "privkey_tweak_add L k t = None \<Longrightarrow> pubkey_tweak_add L P t = None"
    "privkey_tweak_add L k t = Some k' \<Longrightarrow>
       length k' = 32 \<and> (\<exists>P'. pubkey_create L k' = Some P' \<and> pubkey_tweak_add L P t = Some P')"
proof -
  have "case privkey_tweak_add L k t of
           None \<Rightarrow> pubkey_tweak_add L P t = None
         | Some k' \<Rightarrow> length k' = 32 \<and> pubkey_create L k' \<noteq> None \<and> pubkey_tweak_add L P t = pubkey_create L k'"
    using assms unfolding curve_laws_def by blast
  then show "privkey_tweak_add L k t = None \<Longrightarrow> pubkey_tweak_add L P t = None"
    "privkey_tweak_add L k t = Some k' \<Longrightarrow>
       length k' = 32 \<and> (\<exists>P'. pubkey_create L k' = Some P' \<and> pubkey_tweak_add L P t = Some P')"
    by auto
qed

section \<open>Wallet import format\<close>

lemma check_string_long: "length d + 4 \<le> length (check_string d)"
  using base58_string_longer [of "d @ take 4 (BRSHA256_2 d)"] by (simp add: check_string_def BRSHA256_2_def)

definition wif_data :: "bool \<Rightarrow> BRKey \<Rightarrow> byte list" where
  "wif_data tn key = privkey_version tn # UInt256Set (secret key) @ (if compressed key then [1] else [])"

lemma wif_length: "length (wif_data tn key) = (if compressed key then 34 else 33)"
  by (simp add: wif_data_def)

lemma wif_not_mini: "length (check_string (wif_data tn key)) \<noteq> 30" "length (check_string (wif_data tn key)) \<noteq> 22"
  using check_string_long [of "wif_data tn key"] by (auto simp: wif_length split: if_splits)

lemma wif_decoded:
  "BRBase58CheckDecode (Some 34) (check_string (wif_data tn key)) = (length (wif_data tn key), wif_data tn key)"
  by (simp add: check_decode_string wif_length)

lemma wif_valid: "BRPrivKeyIsValid tn' (check_string (wif_data tn key)) \<longleftrightarrow> tn' = tn"
  unfolding BRPrivKeyIsValid_def wif_decoded Let_def prod.case wif_length
  by (simp add: wif_data_def privkey_version_def)

lemma wif_set:
  "BRKeySetPrivKey tn' L key0 (check_string (wif_data tn key)) =
     (if tn' = tn then BRKeySetSecret L key0 (secret key) (compressed key) else (False, key0))"
  unfolding BRKeySetPrivKey_def wif_decoded Let_def prod.case
  by (simp add: wif_not_mini wif_length, simp add: wif_data_def privkey_version_def UInt_get_set codec_simps)

text \<open>
  C16: Wallet import format: the length query gives the exact size of the string that is written for a valid private
  key; the string is valid on the network it was written for and on no other; and it is read back as the same key.
\<close>

theorem wif_roundtrip:
  assumes "seckey_verify L (UInt256Set (secret key))"
  shows "let n = fst (BRKeyPrivKey tn L key None); (m, s) = BRKeyPrivKey tn L key (Some n)
    in m = n \<and> length s = n \<and> (\<forall>tn'. BRPrivKeyIsValid tn' (butlast s) \<longleftrightarrow> tn' = tn) \<and>
       BRKeySetPrivKey tn L key0 (butlast s) = (True, key\<lparr>pubKey := replicate 65 0\<rparr>) \<and>
       BRKeySetPrivKey (\<not> tn) L key0 (butlast s) = (False, key0)"
  using assms
  by (simp add: BRKeyPrivKey_def check_encode_form Let_def wif_valid wif_set BRKeySetSecret_def BRKeyClean_def
      flip: wif_data_def)

lemma wif_roundtrip_witness:
  "let key = \<lparr>secret = 12345, pubKey = replicate 65 0, compressed = True\<rparr>;
       n = fst (BRKeyPrivKey False sample_curve key None); (m, s) = BRKeyPrivKey False sample_curve key (Some n)
   in BRKeySetPrivKey False sample_curve key (butlast s) = (True, key)"
  using wif_roundtrip [of sample_curve "\<lparr>secret = 12345, pubKey = replicate 65 0, compressed = True\<rparr>" False
      "\<lparr>secret = 12345, pubKey = replicate 65 0, compressed = True\<rparr>"]
  by (simp add: sample_curve_def Let_def split_beta)

section \<open>Public keys\<close>

lemma key_pubkey_fresh:
  assumes "curve_laws L" "pubKey key = replicate 65 0" "pubkey_create L (UInt256Set (secret key)) = Some pk"
  shows "key_pubkey L key = (if compressed key then 33 else 65,
     key\<lparr>pubKey := pubkey_serialize L (compressed key) pk @ (if compressed key then replicate 32 0 else [])\<rparr>)"
  using assms by (simp add: key_pubkey_def Let_def curve_lawsD(2))

lemma key_pubkey_set:
  assumes "curve_laws L" "pubKey key = pubkey_serialize L (compressed key) pk @ r"
  shows "key_pubkey L key = (if compressed key then 33 else 65, key)"
proof -
  have "take n (pubkey_serialize L c pk @ r) \<noteq> replicate n 0" if "0 < n" for n c
    using curve_lawsD(2,3) [OF assms(1), of c pk] that
    by (cases "pubkey_serialize L c pk"; cases n) (auto split: if_splits)
  then show ?thesis by (simp add: key_pubkey_def Let_def assms(2))
qed

lemma BRKeyPubKey_fresh:
  assumes "curve_laws L" "pubKey key = replicate 65 0" "pubkey_create L (UInt256Set (secret key)) = Some pk"
    "(if compressed key then 33 else 65) \<le> n"
  shows "snd (BRKeyPubKey L key (Some n)) = (if compressed key then 33 else 65, pubkey_serialize L (compressed key) pk)"
  using assms by (simp add: BRKeyPubKey_def key_pubkey_fresh curve_lawsD(2))

text \<open>
  C17: A compact signature made by a key leads back to the public key of the signer, in the same form: the recovered key gives
  the same public key bytes and the same hash, and so the same address, as the key that signed.
\<close>

theorem compact_signature_recovers:
  assumes "curve_laws L" "recovery_laws L" "pubKey key = replicate 65 0"
    "BRKeyCompactSign L key (Some 65) md = Some (65, sig)"
  shows "\<exists>key'. BRKeyRecoverPubKey L key0 md sig = Some (True, key') \<and>
     snd (BRKeyPubKey L key' (Some 65)) = snd (BRKeyPubKey L key (Some 65)) \<and>
     snd (BRKeyHash160 L key') = snd (BRKeyHash160 L key) \<and>
     snd (BRKeyAddress tn L key' (Some 36)) = snd (BRKeyAddress tn L key (Some 36))"
proof -
  obtain s b i where s: "sign_recoverable L (UInt256Set md) (UInt256Set (secret key)) = Some s"
    and b: "serialize_compact L s = (b, i)" and sig: "sig = of_nat (27 + i + (if compressed key then 4 else 0)) # b"
    using assms(4) by (auto simp: BRKeyCompactSign_def split: if_splits option.splits prod.splits)
  have l: "length b = 64" "i < 4" "parse_compact L b i = Some s"
    using assms(2) b unfolding recovery_laws_def by (metis fst_conv snd_conv)+
  obtain pk where pk: "pubkey_create L (UInt256Set (secret key)) = Some pk" "ecdsa_recover L s (UInt256Set md) = Some pk"
    using assms(2) s unfolding recovery_laws_def by (metis not_None_eq)
  let ?c = "compressed key" and ?der = "pubkey_serialize L (compressed key) pk"
  define key' where "key' = (BRKeyClean key0)\<lparr>pubKey := ?der @ replicate (65 - length ?der) 0, compressed := ?c\<rparr>"
  have u: "unat (of_nat (27 + i + (if ?c then 4 else 0)) :: byte) = 27 + i + (if ?c then 4 else 0)"
    using l(2) unfolding unat_of_nat by (simp del: of_nat_add)
  have m: "(4 + int i) smod 4 = int i" "int i smod 4 = int i"
    using l(2) by (auto simp: signed_modulo_int_def)
  have r: "BRKeyRecoverPubKey L key0 md sig = Some (True, key')"
    using l pk(2) u m unfolding BRKeyRecoverPubKey_def sig
    by (cases ?c) (simp_all add: Let_def BRKeySetPubKey_def curve_lawsD [OF assms(1)] key'_def)
  have k: "key_pubkey L key' = (if ?c then 33 else 65, key')"
    using key_pubkey_set [OF assms(1), of key' pk "replicate (65 - length ?der) 0"] by (simp add: key'_def)
  note f = key_pubkey_fresh [OF assms(1,3) pk(1)]
  have p: "snd (BRKeyPubKey L key' (Some 65)) = snd (BRKeyPubKey L key (Some 65))"
    by (simp add: BRKeyPubKey_def k f, simp add: key'_def curve_lawsD(2) [OF assms(1)])
  have h: "snd (BRKeyHash160 L key') = snd (BRKeyHash160 L key)"
    by (simp add: BRKeyHash160_def BRKeyPubKey_def k f, simp add: key'_def curve_lawsD(2) [OF assms(1)] Let_def)
  then have a: "snd (BRKeyAddress tn L key' (Some 36)) = snd (BRKeyAddress tn L key (Some 36))"
    by (simp add: BRKeyAddress_def split_beta)
  show ?thesis using r p h a by blast
qed

lemma compact_signature_recovers_witness:
  "\<exists>sig key'. BRKeyCompactSign sample_curve \<lparr>secret = 7, pubKey = replicate 65 0, compressed = True\<rparr> (Some 65) 99 = Some (65, sig) \<and>
     BRKeyRecoverPubKey sample_curve \<lparr>secret = 0, pubKey = [], compressed = False\<rparr> 99 sig = Some (True, key')"
proof -
  let ?k = "\<lparr>secret = 7, pubKey = replicate 65 0, compressed = True\<rparr> :: BRKey"
  obtain sig where s: "BRKeyCompactSign sample_curve ?k (Some 65) 99 = Some (65, sig)"
    by (simp add: BRKeyCompactSign_def sample_curve_def UInt256IsZero_def u64_view_def)
  then show ?thesis
    using compact_signature_recovers [OF sample_curve_laws _ s, of "\<lparr>secret = 0, pubKey = [], compressed = False\<rparr>" False] by auto
qed

text \<open>
  C37: Reading the public key off a compact signature returns for exactly those signatures whose first byte is at least 27 or
  differs from 27 by a multiple of 4: for any other first byte the recovery id is negative, and the library aborts.
\<close>

theorem recover_aborts_iff:
  assumes "curve_laws L" "length sig = 65"
  shows "BRKeyRecoverPubKey L key md sig = None \<longleftrightarrow> sig ! 0 < 27 \<and> (27 - unat (sig ! 0)) mod 4 \<noteq> 0"
proof -
  have s: "BRKeySetPubKey L key (pubkey_serialize L c pk) = None \<longleftrightarrow> False" for c pk
    by (simp add: BRKeySetPubKey_def curve_lawsD(2) [OF assms(1)])
  have r: "(int (unat (sig ! 0)) - 27) smod 4 < 0 \<longleftrightarrow> unat (sig ! 0) < 27 \<and> (27 - unat (sig ! 0)) mod 4 \<noteq> 0"
  proof (cases "unat (sig ! 0) < 27")
    case True
    then have e: "int (unat (sig ! 0)) - 27 = - int (27 - unat (sig ! 0))" by simp
    have m: "(- int d) smod 4 = - int (d mod 4)" for d
      by (simp add: signed_modulo_int_def minus_div_mult_eq_mod [symmetric] zmod_int zdiv_int)
    show ?thesis unfolding e m using True by simp
  next
    case False
    then have e: "int (unat (sig ! 0)) - 27 = int (unat (sig ! 0) - 27)" by simp
    have m: "int d smod 4 = int (d mod 4)" for d by (cases "d = 0") (simp_all add: signed_modulo_int_def zmod_int)
    show ?thesis unfolding e m using False by simp
  qed
  have "BRKeyRecoverPubKey L key md sig = None \<longleftrightarrow> (int (unat (sig ! 0)) - 27) smod 4 < 0"
    unfolding BRKeyRecoverPubKey_def Let_def using assms(2) by (auto simp: s simp del: not_None_eq split: option.splits)
  then show ?thesis unfolding r by (simp add: word_less_nat_alt)
qed

lemma recover_aborts_iff_witness:
  "BRKeyRecoverPubKey sample_curve \<lparr>secret = 0, pubKey = [], compressed = False\<rparr> 99 (replicate 65 0) = None"
  using recover_aborts_iff [OF sample_curve_laws(1), of "replicate 65 0" "\<lparr>secret = 0, pubKey = [], compressed = False\<rparr>" 99]
  by simp

end
