(* ===== verification/Bip32.thy ===== *)
theory Bip32
  imports Keys Ciphers "HOL-Library.Monad_Syntax"
begin

text \<open>
  BRBIP32Sequence.c: the derivation of keys from a seed. A path is the list of the numbers that the code
  takes as variable arguments. \<open>None\<close> is a failed assertion, or the use of a public key that was not
  computed because its secret is not valid.

  The theorems: the derivation follows the definition of BIP32 as long as all keys on the path are
  valid; the derivation of the public keys from the master public key gives the public keys of the derived
  secrets; and the list of keys of a chain consists of the single keys.
\<close>

definition BIP32_HARD :: u32 where "BIP32_HARD = 0x80000000"

definition BIP32_SEED_KEY :: "byte list" where "BIP32_SEED_KEY = map (of_nat \<circ> of_char) ''Bitcoin seed''"

definition hardened :: "u32 \<Rightarrow> bool" where "hardened i \<longleftrightarrow> i AND BIP32_HARD \<noteq> 0"

section \<open>Child keys\<close>

definition CKDpriv ::
  "('pk, 'sig, 'rsig) secp256k1 \<Rightarrow> UInt256 \<times> UInt256 \<Rightarrow> u32 \<Rightarrow> (UInt256 \<times> UInt256) option" where
  "CKDpriv L = (\<lambda>(k, c) i. do {
     buf \<leftarrow> (if hardened i then Some (0 # UInt256Set k)
            else let (r, p) = BRSecp256k1PointGen L [] k in if r then Some p else None);
     I \<leftarrow> BRHMAC BRSHA512 64 (UInt256Set c) (buf @ UInt32SetBE i);
     Some (snd (BRSecp256k1ModAdd L k (UInt256Get I)), UInt256Get (drop 32 I))
   })"

definition CKDpub ::
  "('pk, 'sig, 'rsig) secp256k1 \<Rightarrow> byte list \<times> UInt256 \<Rightarrow> u32 \<Rightarrow> (byte list \<times> UInt256) option" where
  "CKDpub L = (\<lambda>(K, c) i.
     if i AND BIP32_HARD \<noteq> BIP32_HARD then do {
       I \<leftarrow> BRHMAC BRSHA512 64 (UInt256Set c) (K @ UInt32SetBE i);
       Some (snd (BRSecp256k1PointAdd L K (UInt256Get I)), UInt256Get (drop 32 I))
     } else Some (K, c))"

fun CKDpriv_path ::
  "('pk, 'sig, 'rsig) secp256k1 \<Rightarrow> UInt256 \<times> UInt256 \<Rightarrow> u32 list \<Rightarrow> (UInt256 \<times> UInt256) option" where
  "CKDpriv_path L kc [] = Some kc"
| "CKDpriv_path L kc (i # path) = do { kc \<leftarrow> CKDpriv L kc i; CKDpriv_path L kc path }"

text \<open>The secret and the chain code of the seed.\<close>

definition seed_key :: "byte list \<Rightarrow> (UInt256 \<times> UInt256) option" where
  "seed_key seed = do { I \<leftarrow> BRHMAC BRSHA512 64 BIP32_SEED_KEY seed; Some (UInt256Get I, UInt256Get (drop 32 I)) }"

section \<open>Private keys\<close>

definition no_key :: BRKey where
  "no_key = \<lparr>secret = 0, pubKey = [], compressed = False\<rparr>"

definition BRBIP32vPrivKeyPath :: "('pk, 'sig, 'rsig) secp256k1 \<Rightarrow> byte list \<Rightarrow> u32 list \<Rightarrow> BRKey option" where
  "BRBIP32vPrivKeyPath L seed vlist = do {
     kc \<leftarrow> seed_key seed;
     (sec, _) \<leftarrow> CKDpriv_path L kc vlist;
     Some (snd (BRKeySetSecret L no_key sec True))
   }"

definition BRBIP32PrivKeyPath :: "('pk, 'sig, 'rsig) secp256k1 \<Rightarrow> byte list \<Rightarrow> u32 list \<Rightarrow> BRKey option" where
  "BRBIP32PrivKeyPath L seed path = BRBIP32vPrivKeyPath L seed path"

definition BRBIP32PrivKey :: "('pk, 'sig, 'rsig) secp256k1 \<Rightarrow> byte list \<Rightarrow> u32 \<Rightarrow> u32 \<Rightarrow> BRKey option" where
  "BRBIP32PrivKey L seed chain index = BRBIP32PrivKeyPath L seed [0 OR BIP32_HARD, chain, index]"

fun child_keys :: "('pk, 'sig, 'rsig) secp256k1 \<Rightarrow> UInt256 \<times> UInt256 \<Rightarrow> u32 list \<Rightarrow> BRKey list option" where
  "child_keys L kc [] = Some []"
| "child_keys L kc (i # is) = do {
     (s, _) \<leftarrow> CKDpriv L kc i;
     keys \<leftarrow> child_keys L kc is;
     Some (snd (BRKeySetSecret L no_key s True) # keys)
   }"

definition BRBIP32PrivKeyList ::
  "('pk, 'sig, 'rsig) secp256k1 \<Rightarrow> byte list \<Rightarrow> u32 \<Rightarrow> u32 list \<Rightarrow> BRKey list option" where
  "BRBIP32PrivKeyList L seed chain indexes =
     (if indexes = [] then Some []
      else do {
        kc \<leftarrow> seed_key seed;
        kc \<leftarrow> CKDpriv L kc (0 OR BIP32_HARD);
        kc \<leftarrow> CKDpriv L kc chain;
        child_keys L kc indexes
      })"

definition BRBIP32APIAuthKey :: "('pk, 'sig, 'rsig) secp256k1 \<Rightarrow> byte list \<Rightarrow> BRKey option" where
  "BRBIP32APIAuthKey L seed = BRBIP32PrivKeyPath L seed [1 OR BIP32_HARD, 0]"

definition BRBIP32BitIDKey :: "('pk, 'sig, 'rsig) secp256k1 \<Rightarrow> byte list \<Rightarrow> u32 \<Rightarrow> byte list \<Rightarrow> BRKey option" where
  "BRBIP32BitIDKey L seed index uri =
     (let hsh = BRSHA256 (UInt32SetLE index @ uri)
      in BRBIP32PrivKeyPath L seed [13 OR BIP32_HARD, UInt32GetLE hsh OR BIP32_HARD, UInt32GetLE (drop 4 hsh) OR BIP32_HARD,
           UInt32GetLE (drop 8 hsh) OR BIP32_HARD, UInt32GetLE (drop 12 hsh) OR BIP32_HARD])"

section \<open>Public keys\<close>

record BRMasterPubKey =
  fingerPrint :: u32
  chainCode :: UInt256
  mpk_pubKey :: "byte list"

definition BR_MASTER_PUBKEY_NONE :: BRMasterPubKey where
  "BR_MASTER_PUBKEY_NONE = \<lparr>fingerPrint = 0, chainCode = 0, mpk_pubKey = replicate 33 0\<rparr>"

definition BRBIP32MasterPubKey :: "('pk, 'sig, 'rsig) secp256k1 \<Rightarrow> byte list \<Rightarrow> BRMasterPubKey option" where
  "BRBIP32MasterPubKey L seed = do {
     (sec, chain) \<leftarrow> seed_key seed;
     let key = snd (BRKeySetSecret L no_key sec True);
     let mpk = BR_MASTER_PUBKEY_NONE\<lparr>fingerPrint := u32_view (snd (BRKeyHash160 L key)) 0\<rparr>;
     (sec, chain) \<leftarrow> CKDpriv L (sec, chain) (0 OR BIP32_HARD);
     let key = snd (BRKeySetSecret L no_key sec True);
     let (_, n, pub) = BRKeyPubKey L key (Some 33);
     Some (mpk\<lparr>chainCode := chain, mpk_pubKey := pub @ drop n (mpk_pubKey mpk)\<rparr>)
   }"

definition BRBIP32PubKey ::
  "('pk, 'sig, 'rsig) secp256k1 \<Rightarrow> nat option \<Rightarrow> BRMasterPubKey \<Rightarrow> u32 \<Rightarrow> u32 \<Rightarrow> (nat \<times> byte list) option" where
  "BRBIP32PubKey L dst mpk chain index =
     (if mpk = BR_MASTER_PUBKEY_NONE then None
      else case dst of
          None \<Rightarrow> Some (33, [])
        | Some pubKeyLen \<Rightarrow>
            if 33 \<le> pubKeyLen then do {
              Kc \<leftarrow> CKDpub L (mpk_pubKey mpk, chainCode mpk) chain;
              (K, _) \<leftarrow> CKDpub L Kc index;
              Some (33, K)
            } else Some (0, []))"

section \<open>The definition of BIP32\<close>

text \<open>
  The derivation of a child of a private key as the standard defines it: the child does not exist when the number of the child
  or the sum is not valid.
\<close>

definition bip32_child ::
  "('pk, 'sig, 'rsig) secp256k1 \<Rightarrow> byte list \<times> byte list \<Rightarrow> u32 \<Rightarrow> (byte list \<times> byte list) option" where
  "bip32_child L = (\<lambda>(k, c) i. do {
     P \<leftarrow> pubkey_create L k;
     let I = hmac BRSHA512 64 c ((if hardened i then 0 # k else pubkey_serialize L True P) @ UInt32SetBE i);
     k' \<leftarrow> privkey_tweak_add L k (take 32 I);
     Some (k', drop 32 I)
   })"

fun bip32_path ::
  "('pk, 'sig, 'rsig) secp256k1 \<Rightarrow> byte list \<times> byte list \<Rightarrow> u32 list \<Rightarrow> (byte list \<times> byte list) option" where
  "bip32_path L kc [] = (if pubkey_create L (fst kc) = None then None else Some kc)"
| "bip32_path L kc (i # path) = do { kc \<leftarrow> bip32_child L kc i; bip32_path L kc path }"

definition bip32_derive :: "('pk, 'sig, 'rsig) secp256k1 \<Rightarrow> byte list \<Rightarrow> u32 list \<Rightarrow> byte list option" where
  "bip32_derive L seed path =
     (let I = hmac BRSHA512 64 BIP32_SEED_KEY seed
      in map_option fst (bip32_path L (take 32 I, drop 32 I) path))"

section \<open>Derivation of secrets\<close>

lemma length_hmac512 [simp]: "length (hmac BRSHA512 64 key d) = 64"
  by (simp add: hmac_def Let_def)

lemma hmac512_defined: "BRHMAC BRSHA512 64 key d = Some (hmac BRSHA512 64 key d)"
  by (simp add: BRHMAC_def hash_len_ok_def)

lemma UInt256Set_Get_take: "32 \<le> length b \<Longrightarrow> UInt256Set (UInt256Get b) = take 32 b"
  using UInt256Set_Get [of "take 32 b"] by (simp add: UInt256Get_def)

lemma bip32_childD:
  assumes "bip32_child L (k, c) i = Some (k', c')"
  shows "\<exists>P. pubkey_create L k = Some P \<and>
    (let I = hmac BRSHA512 64 c ((if hardened i then 0 # k else pubkey_serialize L True P) @ UInt32SetBE i)
     in privkey_tweak_add L k (take 32 I) = Some k' \<and> c' = drop 32 I)"
proof (cases "pubkey_create L k")
  case None
  then show ?thesis using assms by (simp add: bip32_child_def)
next
  case (Some P)
  let ?I = "hmac BRSHA512 64 c ((if hardened i then 0 # k else pubkey_serialize L True P) @ UInt32SetBE i)"
  show ?thesis using assms Some
    by (cases "privkey_tweak_add L k (take 32 ?I)") (simp_all add: bip32_child_def Let_def)
qed

lemma CKDpriv_refines:
  assumes "curve_laws L" "bip32_child L (UInt256Set k, UInt256Set c) i = Some (k', c')"
  shows "CKDpriv L (k, c) i = Some (UInt256Get k', UInt256Get c')" "length k' = 32" "length c' = 32"
proof -
  obtain P where P: "pubkey_create L (UInt256Set k) = Some P"
    and e: "let I = hmac BRSHA512 64 (UInt256Set c)
        ((if hardened i then 0 # UInt256Set k else pubkey_serialize L True P) @ UInt32SetBE i)
      in privkey_tweak_add L (UInt256Set k) (take 32 I) = Some k' \<and> c' = drop 32 I"
    using bip32_childD [OF assms(2)] by blast
  let ?I = "hmac BRSHA512 64 (UInt256Set c)
     ((if hardened i then 0 # UInt256Set k else pubkey_serialize L True P) @ UInt32SetBE i)"
  have k: "privkey_tweak_add L (UInt256Set k) (take 32 ?I) = Some k'" and c: "c' = drop 32 ?I"
    using e unfolding Let_def by blast+
  show "length k' = 32" using curve_laws_add(2) [OF assms(1) P k] by blast
  show "length c' = 32" by (simp add: c)
  show "CKDpriv L (k, c) i = Some (UInt256Get k', UInt256Get c')"
  proof (cases "hardened i")
    case True
    then show ?thesis using k c
      by (simp add: CKDpriv_def hmac512_defined BRSecp256k1ModAdd_def UInt256Set_Get_take)
  next
    case False
    then show ?thesis using k c
      by (simp add: CKDpriv_def hmac512_defined BRSecp256k1ModAdd_def UInt256Set_Get_take BRSecp256k1PointGen_def P)
  qed
qed

lemma CKDpriv_path_refines:
  assumes "curve_laws L" "bip32_path L (UInt256Set k, UInt256Set c) path = Some (k', c')"
  shows "\<exists>c1. CKDpriv_path L (k, c) path = Some (UInt256Get k', c1) \<and> length k' = 32 \<and> pubkey_create L k' \<noteq> None"
  using assms(2)
proof (induction path arbitrary: k c)
  case Nil
  then show ?case by (auto simp: codec_simps split: if_splits)
next
  case (Cons i path)
  obtain k1 c1 where 1: "bip32_child L (UInt256Set k, UInt256Set c) i = Some (k1, c1)" "bip32_path L (k1, c1) path = Some (k', c')"
    using Cons.prems(1) by (auto simp: bind_eq_Some_conv)
  note r = CKDpriv_refines [OF assms(1) 1(1)]
  have "bip32_path L (UInt256Set (UInt256Get k1), UInt256Set (UInt256Get c1)) path = Some (k', c')"
    using 1(2) r(2,3) by (simp add: UInt256Set_Get)
  from Cons.IH [OF this] show ?case using r(1) by simp
qed

lemma seed_key_hmac:
  "seed_key seed = (let I = hmac BRSHA512 64 BIP32_SEED_KEY seed in Some (UInt256Get (take 32 I), UInt256Get (drop 32 I)))"
  by (simp add: seed_key_def hmac512_defined UInt256Get_def Let_def)

lemma derive_path:
  assumes "curve_laws L" "bip32_derive L seed path = Some k"
  shows "BRBIP32vPrivKeyPath L seed path = Some \<lparr>secret = UInt256Get k, pubKey = replicate 65 0, compressed = True\<rparr>"
    "length k = 32" "pubkey_create L k \<noteq> None"
proof -
  define I where "I = hmac BRSHA512 64 BIP32_SEED_KEY seed"
  have l: "length (take 32 I) = 32" "length (drop 32 I) = 32" by (simp_all add: I_def)
  obtain c where "bip32_path L (take 32 I, drop 32 I) path = Some (k, c)"
    using assms(2) by (auto simp: bip32_derive_def I_def Let_def)
  then have "bip32_path L (UInt256Set (UInt256Get (take 32 I)), UInt256Set (UInt256Get (drop 32 I))) path = Some (k, c)"
    unfolding UInt256Set_Get [OF l(1)] UInt256Set_Get [OF l(2)] .
  from CKDpriv_path_refines [OF assms(1) this]
  show "BRBIP32vPrivKeyPath L seed path = Some \<lparr>secret = UInt256Get k, pubKey = replicate 65 0, compressed = True\<rparr>"
    "length k = 32" "pubkey_create L k \<noteq> None"
    by (auto simp: BRBIP32vPrivKeyPath_def seed_key_hmac Let_def BRKeySetSecret_def BRKeyClean_def simp flip: I_def)
qed

section \<open>Derivation of public keys\<close>

lemma hardened_iff: "(i AND BIP32_HARD \<noteq> BIP32_HARD) \<longleftrightarrow> \<not> hardened i"
proof -
  have b: "bit BIP32_HARD n \<longleftrightarrow> n = 31" for n
  proof -
    have h: "BIP32_HARD = push_bit 31 1" by (simp add: BIP32_HARD_def)
    show ?thesis unfolding h bit_push_bit_iff by (cases "n = 31") auto
  qed
  have "i AND BIP32_HARD = (if bit i 31 then BIP32_HARD else 0)"
    by (rule bit_word_eqI) (auto simp: bit_simps b)
  moreover have "BIP32_HARD \<noteq> 0" by (simp add: BIP32_HARD_def)
  ultimately show ?thesis by (auto simp: hardened_def)
qed

lemma CKDpub_follows:
  assumes "curve_laws L" "bip32_child L (UInt256Set k, UInt256Set c) i = Some (k', c')" "\<not> hardened i"
    "pubkey_create L (UInt256Set k) = Some P"
  shows "\<exists>P'. pubkey_create L k' = Some P' \<and>
     CKDpub L (pubkey_serialize L True P, c) i = Some (pubkey_serialize L True P', UInt256Get c')"
proof -
  let ?I = "hmac BRSHA512 64 (UInt256Set c) (pubkey_serialize L True P @ UInt32SetBE i)"
  have k: "privkey_tweak_add L (UInt256Set k) (take 32 ?I) = Some k'" and c: "c' = drop 32 ?I"
    using bip32_childD [OF assms(2)] assms(3,4) by (simp_all add: Let_def)
  obtain P' where "pubkey_create L k' = Some P'" "pubkey_tweak_add L P (take 32 ?I) = Some P'"
    using curve_laws_add(2) [OF assms(1,4) k] by blast
  then show ?thesis using assms(3) c
    by (simp add: CKDpub_def hardened_iff hmac512_defined BRSecp256k1PointAdd_def curve_lawsD(4) [OF assms(1)] UInt256Set_Get_take)
qed

lemma hard_zero: "hardened (0 OR BIP32_HARD)"
  by (simp add: hardened_def BIP32_HARD_def)

text \<open>The master public key and the key of an index of a chain, from the derivation of the standard.\<close>

lemma derive_chain:
  assumes "curve_laws L" "bip32_derive L seed [0 OR BIP32_HARD, chain, index] = Some k" "\<not> hardened chain" "\<not> hardened index"
  shows "\<exists>mpk P. BRBIP32MasterPubKey L seed = Some mpk \<and> mpk \<noteq> BR_MASTER_PUBKEY_NONE \<and> pubkey_create L k = Some P \<and>
     (\<forall>n. 33 \<le> n \<longrightarrow> BRBIP32PubKey L (Some n) mpk chain index = Some (33, pubkey_serialize L True P))"
proof -
  define I where "I = hmac BRSHA512 64 BIP32_SEED_KEY seed"
  define s c where "s = UInt256Get (take 32 I)" and "c = UInt256Get (drop 32 I)"
  have sc: "take 32 I = UInt256Set s" "drop 32 I = UInt256Set c" by (simp_all add: s_def c_def I_def UInt256Set_Get)
  obtain k1 c1 k2 c2 c3 where 1: "bip32_child L (UInt256Set s, UInt256Set c) (0 OR BIP32_HARD) = Some (k1, c1)"
    and 2: "bip32_child L (k1, c1) chain = Some (k2, c2)" and 3: "bip32_child L (k2, c2) index = Some (k, c3)"
    using assms(2) by (auto simp: bip32_derive_def Let_def bind_eq_Some_conv sc simp flip: I_def split: if_splits)
  obtain P1 where P1: "pubkey_create L k1 = Some P1" using bip32_childD [OF 2] by blast
  note r1 = CKDpriv_refines [OF assms(1) 1]
  have h2: "bip32_child L (UInt256Set (UInt256Get k1), UInt256Set (UInt256Get c1)) chain = Some (k2, c2)"
    using 2 r1(2,3) by (simp add: UInt256Set_Get)
  note r2 = CKDpriv_refines [OF assms(1) h2]
  have h3: "bip32_child L (UInt256Set (UInt256Get k2), UInt256Set (UInt256Get c2)) index = Some (k, c3)"
    using 3 r2(2,3) by (simp add: UInt256Set_Get)
  obtain P2 where P2: "pubkey_create L k2 = Some P2"
    and p2: "CKDpub L (pubkey_serialize L True P1, UInt256Get c1) chain = Some (pubkey_serialize L True P2, UInt256Get c2)"
    using CKDpub_follows [OF assms(1) h2 assms(3)] P1 r1(2) by (auto simp: UInt256Set_Get)
  obtain P where P: "pubkey_create L k = Some P"
    and p3: "CKDpub L (pubkey_serialize L True P2, UInt256Get c2) index = Some (pubkey_serialize L True P, UInt256Get c3)"
    using CKDpub_follows [OF assms(1) h3 assms(4)] P2 r2(2) by (auto simp: UInt256Set_Get)
  define mpk where "mpk = \<lparr>fingerPrint = u32_view (snd (BRKeyHash160 L (snd (BRKeySetSecret L no_key s True)))) 0,
    chainCode = UInt256Get c1, mpk_pubKey = pubkey_serialize L True P1\<rparr>"
  define key where "key = snd (BRKeySetSecret L no_key (UInt256Get k1) True)"
  have key: "pubKey key = replicate 65 0" "compressed key" "secret key = UInt256Get k1"
    by (simp_all add: key_def BRKeySetSecret_def BRKeyClean_def)
  have f: "snd (BRKeyPubKey L key (Some 33)) = (33, pubkey_serialize L True P1)"
    using BRKeyPubKey_fresh [OF assms(1) key(1), of P1 33] key r1(2) P1 by (simp add: UInt256Set_Get)
  have "BRBIP32MasterPubKey L seed = Some mpk"
    unfolding BRBIP32MasterPubKey_def seed_key_hmac Let_def I_def [symmetric] s_def [symmetric] c_def [symmetric] r1(1)
      Option.bind.simps prod.case key_def [symmetric] using f
    by (simp add: split_beta mpk_def BR_MASTER_PUBKEY_NONE_def)
  moreover have "mpk \<noteq> BR_MASTER_PUBKEY_NONE"
    using curve_lawsD(3) [OF assms(1), of True P1] by (auto simp: mpk_def BR_MASTER_PUBKEY_NONE_def)
  moreover have "BRBIP32PubKey L (Some n) mpk chain index = Some (33, pubkey_serialize L True P)" if "33 \<le> n" for n
    using that p2 p3 \<open>mpk \<noteq> _\<close> by (simp add: BRBIP32PubKey_def mpk_def)
  ultimately show ?thesis using P by blast
qed

section \<open>Properties\<close>

text \<open>
  C13: The derivation of a private key along a path follows BIP32: whenever the keys on the path exist, the result is the key
  that the standard defines, with its compressed public key not yet computed, and its secret is valid.
\<close>

theorem bip32_path_follows_standard:
  assumes "curve_laws L" "bip32_derive L seed path = Some k"
  shows "BRBIP32vPrivKeyPath L seed path = Some \<lparr>secret = UInt256Get k, pubKey = replicate 65 0, compressed = True\<rparr> \<and>
    UInt256Set (UInt256Get k) = k \<and> seckey_verify L k"
  using derive_path [OF assms] by (simp add: UInt256Set_Get curve_lawsD(1) [OF assms(1)])

lemma sample_child: "\<exists>k' c'. bip32_child sample_curve kc i = Some (k', c')"
  by (simp add: bip32_child_def sample_curve_def split_beta Let_def)

lemma sample_path: "\<exists>kc'. bip32_path sample_curve kc path = Some kc'"
proof (induction path arbitrary: kc)
  case Nil
  show ?case by (simp add: sample_curve_def)
next
  case (Cons i path)
  obtain k' c' where "bip32_child sample_curve kc i = Some (k', c')" using sample_child by blast
  then show ?case using Cons.IH [of "(k', c')"] by simp
qed

lemma sample_derive: "\<exists>k. bip32_derive sample_curve seed path = Some k"
  unfolding bip32_derive_def Let_def using sample_path by fastforce

lemma bip32_path_follows_standard_witness:
  "\<exists>k. BRBIP32vPrivKeyPath sample_curve [1, 2, 3] [0 OR BIP32_HARD, 7] =
     Some \<lparr>secret = UInt256Get k, pubKey = replicate 65 0, compressed = True\<rparr>"
proof -
  obtain k where "bip32_derive sample_curve [1, 2, 3] [0 OR BIP32_HARD, 7] = Some k" using sample_derive by blast
  from bip32_path_follows_standard [OF sample_curve_laws(1) this] show ?thesis by blast
qed

text \<open>
  C12: The public keys derived from the master public key are those of the private keys derived from the seed: for every chain and
  index that are not hardened and whose keys exist, both derivations succeed and give the same 33 bytes.
\<close>

theorem bip32_public_matches_private:
  assumes "curve_laws L" "bip32_derive L seed [0 OR BIP32_HARD, chain, index] = Some k"
    "\<not> hardened chain" "\<not> hardened index" "33 \<le> n"
  shows "\<exists>mpk key pub. BRBIP32MasterPubKey L seed = Some mpk \<and> BRBIP32PrivKey L seed chain index = Some key \<and>
     length pub = 33 \<and> BRBIP32PubKey L (Some n) mpk chain index = Some (33, pub) \<and> snd (BRKeyPubKey L key (Some n)) = (33, pub)"
proof -
  obtain mpk P where m: "BRBIP32MasterPubKey L seed = Some mpk" "pubkey_create L k = Some P"
    "BRBIP32PubKey L (Some n) mpk chain index = Some (33, pubkey_serialize L True P)"
    using derive_chain [OF assms(1-4)] assms(5) by blast
  note p = derive_path [OF assms(1,2)]
  have "snd (BRKeyPubKey L \<lparr>secret = UInt256Get k, pubKey = replicate 65 0, compressed = True\<rparr> (Some n)) =
      (33, pubkey_serialize L True P)"
    using BRKeyPubKey_fresh [OF assms(1), of "\<lparr>secret = UInt256Get k, pubKey = replicate 65 0, compressed = True\<rparr>" P n]
      m(2) p(2) assms(5) by (simp add: UInt256Set_Get)
  then show ?thesis using m p(1) curve_lawsD(2) [OF assms(1), of True P]
    by (auto simp: BRBIP32PrivKey_def BRBIP32PrivKeyPath_def)
qed

lemma bip32_public_matches_private_witness:
  "\<exists>mpk key pub. BRBIP32MasterPubKey sample_curve [1, 2, 3] = Some mpk \<and> BRBIP32PrivKey sample_curve [1, 2, 3] 0 5 = Some key \<and>
     BRBIP32PubKey sample_curve (Some 33) mpk 0 5 = Some (33, pub) \<and> snd (BRKeyPubKey sample_curve key (Some 33)) = (33, pub)"
proof -
  obtain k where "bip32_derive sample_curve [1, 2, 3] [0 OR BIP32_HARD, 0, 5] = Some k" using sample_derive by blast
  moreover have "\<not> hardened 0" "\<not> hardened 5" by (simp_all add: hardened_def BIP32_HARD_def)
  ultimately show ?thesis using bip32_public_matches_private [OF sample_curve_laws(1), of "[1, 2, 3]" 0 5 _ 33] by blast
qed

text \<open>The keys of a list of indexes, which share the derivation of the chain, are the single keys.\<close>

lemma child_keys_those:
  "child_keys L kc is = those (map (\<lambda>i. do { (s, _) \<leftarrow> CKDpriv L kc i; Some (snd (BRKeySetSecret L no_key s True)) }) is)"
proof (induction "is")
  case (Cons i "is")
  have m: "x \<bind> (\<lambda>ks. Some (k # ks)) = map_option ((#) k) x" for x and k :: BRKey by (cases x) simp_all
  from Cons show ?case by (cases "CKDpriv L kc i") (simp_all add: split_beta m)
qed simp

text \<open>
  The list of private keys of a chain consists of the keys that the derivation of single keys gives for the indexes, in order,
  and fails exactly when one of them fails.
\<close>

lemma key_list_those:
  "BRBIP32PrivKeyList L seed chain indexes = those (map (BRBIP32PrivKey L seed chain) indexes)"
proof (cases "indexes = []")
  case False
  have s: "BRBIP32PrivKey L seed chain i =
      (case Option.bind (seed_key seed) (\<lambda>kc. Option.bind (CKDpriv L kc (0 OR BIP32_HARD)) (\<lambda>kc. CKDpriv L kc chain)) of
         None \<Rightarrow> None | Some kc \<Rightarrow> do { (s, _) \<leftarrow> CKDpriv L kc i; Some (snd (BRKeySetSecret L no_key s True)) })" for i
    by (simp add: BRBIP32PrivKey_def BRBIP32PrivKeyPath_def BRBIP32vPrivKeyPath_def split_beta split: Option.bind_splits)
  show ?thesis
  proof (cases "Option.bind (seed_key seed) (\<lambda>kc. Option.bind (CKDpriv L kc (0 OR BIP32_HARD)) (\<lambda>kc. CKDpriv L kc chain))")
    case None
    then show ?thesis using False unfolding s BRBIP32PrivKeyList_def
      by (cases indexes) (auto split: Option.bind_splits)
  next
    case (Some kc)
    then show ?thesis using False unfolding s BRBIP32PrivKeyList_def child_keys_those
      by (auto split: Option.bind_splits)
  qed
qed (simp add: BRBIP32PrivKeyList_def)

end
