(* ===== verification/KnownAnswers.thy ===== *)
theory KnownAnswers
  imports Digests
begin

text \<open>
  A known answer for the hash functions, evaluated in the logic: the SHA-256 and RIPEMD-160 hash of the compressed form of the
  generator of secp256k1, which is the public key of the secret 1.
\<close>

section \<open>Evaluation\<close>

text \<open>The operations with the results reduced, so that the simplifier computes with numerals below \<open>2 ^ 32\<close>.\<close>

lemma take_bit_32: "x = take_bit 32 (x :: u32)"
  by (simp add: take_bit_word_eq_self)

lemma ror32_eval: "b \<le> 32 \<Longrightarrow> ror32 a b = drop_bit b a OR push_bit (32 - b) (take_bit b a)"
  unfolding ror32_def by (rule bit_word_eqI) (auto simp: bit_simps)

lemma rol32_eval: "b \<le> 32 \<Longrightarrow> rol32 a b = push_bit b (take_bit (32 - b) a) OR drop_bit (32 - b) a"
  unfolding rol32_def by (rule bit_word_eqI) (auto simp: bit_simps)

lemma sha256_extend_eval:
  "sha256_extend (numeral n) w = sha256_extend (pred_numeral n) (w @ [take_bit 32
     (sha256_s3 (w ! (length w - 2)) + w ! (length w - 7) + sha256_s2 (w ! (length w - 15)) + w ! (length w - 16))])"
  "sha256_extend (Suc 0) w = w @ [take_bit 32
     (sha256_s3 (w ! (length w - 2)) + w ! (length w - 7) + sha256_s2 (w ! (length w - 15)) + w ! (length w - 16))]"
  unfolding take_bit_32 [symmetric]
  by (subst numeral_eq_Suc, simp only: sha256_extend.simps Let_def, simp only: sha256_extend.simps Let_def)

lemma sha256_round_eval:
  "sha256_round [a, b, c, d, e, f, g, h] (k, w) =
     [take_bit 32 (take_bit 32 (h + sha256_s1 e + ch e f g + k + w) + (sha256_s0 a + maj a b c)), a, b, c,
      take_bit 32 (d + take_bit 32 (h + sha256_s1 e + ch e f g + k + w)), e, f, g]"
  unfolding take_bit_32 [symmetric] by (simp add: Let_def)

lemmas sha256_eval = sha256_extend_eval sha256_round_eval sha256_s0_def sha256_s1_def sha256_s2_def sha256_s3_def
  ror32_eval ch_def maj_def

lemma rmd_op_eval:
  "rmd_op F k x [a, b, c, d, e] (idx, sh) =
     [e, take_bit 32 (rol32 (take_bit 32 (a + take_bit 32 (F b c d) + le32 (x ! idx) + k)) sh + e), b, rol32 c 10, d]"
  unfolding take_bit_32 [symmetric] by simp

lemma rmd_combine_eval:
  "rmd_combine [r0, r1, r2, r3, r4] [al, bl, cl, dl, el] [ar, br, cr, dr, er] =
     [take_bit 32 (r1 + cl + dr), take_bit 32 (r2 + dl + er), take_bit 32 (r3 + el + ar), take_bit 32 (r4 + al + br),
      take_bit 32 (r0 + bl + cr)]"
  unfolding take_bit_32 [symmetric] by simp

lemmas rmd_eval = rmd_op_eval rmd_round_def rmd_f_def rmd_g_def rmd_h_def rmd_i_def rmd_j_def le32_def rol32_eval

lemma replicate_eval: "replicate (numeral n) x = x # replicate (pred_numeral n) x"
  by (simp only: numeral_eq_Suc replicate_Suc)

section \<open>The public key of the secret 1\<close>

definition generator :: "byte list" where
  "generator =
     [0x02, 0x79, 0xbe, 0x66, 0x7e, 0xf9, 0xdc, 0xbb, 0xac, 0x55, 0xa0, 0x62, 0x95, 0xce, 0x87, 0x0b,
      0x07, 0x02, 0x9b, 0xfc, 0xdb, 0x2d, 0xce, 0x28, 0xd9, 0x59, 0xf2, 0x81, 0x5b, 0x16, 0xf8, 0x17,
      0x98]"

lemma generator_block:
  "BRSHA256Compress sha256_init
     [0x02, 0x79, 0xbe, 0x66, 0x7e, 0xf9, 0xdc, 0xbb, 0xac, 0x55, 0xa0, 0x62, 0x95, 0xce, 0x87, 0x0b,
      0x07, 0x02, 0x9b, 0xfc, 0xdb, 0x2d, 0xce, 0x28, 0xd9, 0x59, 0xf2, 0x81, 0x5b, 0x16, 0xf8, 0x17,
      0x98, 0x80, 0x00, 0x00, 0x00, 0x00, 0x00, 0x00, 0x00, 0x00, 0x00, 0x00, 0x00, 0x00, 0x00, 0x00,
      0x00, 0x00, 0x00, 0x00, 0x00, 0x00, 0x00, 0x00, 0x00, 0x00, 0x00, 0x00, 0x00, 0x00, 0x01, 0x08] =
     [0x0f715baf, 0x5d4c2ed3, 0x29785cef, 0x29e562f7, 0x3488c8a2, 0xbb9dbc57, 0x00b361d5, 0x4b9b0554]"
proof -
  have w: "map be32 (words32
     [0x02, 0x79, 0xbe, 0x66, 0x7e, 0xf9, 0xdc, 0xbb, 0xac, 0x55, 0xa0, 0x62, 0x95, 0xce, 0x87, 0x0b,
      0x07, 0x02, 0x9b, 0xfc, 0xdb, 0x2d, 0xce, 0x28, 0xd9, 0x59, 0xf2, 0x81, 0x5b, 0x16, 0xf8, 0x17,
      0x98, 0x80, 0x00, 0x00, 0x00, 0x00, 0x00, 0x00, 0x00, 0x00, 0x00, 0x00, 0x00, 0x00, 0x00, 0x00,
      0x00, 0x00, 0x00, 0x00, 0x00, 0x00, 0x00, 0x00, 0x00, 0x00, 0x00, 0x00, 0x00, 0x00, 0x01, 0x08]) =
     [0x0279be66, 0x7ef9dcbb, 0xac55a062, 0x95ce870b, 0x07029bfc, 0xdb2dce28, 0xd959f281, 0x5b16f817,
      0x98800000, 0x00000000, 0x00000000, 0x00000000, 0x00000000, 0x00000000, 0x00000000, 0x00000108]"
    by (simp add: UInt32GetLE_def be32_def)
  show ?thesis unfolding BRSHA256Compress_def w Let_def
    by (simp add: sha256_init_def sha256_k_def sha256_eval del: sha256_extend.simps)
qed

lemma generator_sha256:
  "BRSHA256 generator =
     [0x0f, 0x71, 0x5b, 0xaf, 0x5d, 0x4c, 0x2e, 0xd3, 0x29, 0x78, 0x5c, 0xef, 0x29, 0xe5, 0x62, 0xf7,
      0x34, 0x88, 0xc8, 0xa2, 0xbb, 0x9d, 0xbc, 0x57, 0x00, 0xb3, 0x61, 0xd5, 0x4b, 0x9b, 0x05, 0x54]"
  unfolding BRSHA256_def generator_def
  by (subst block_loop.simps)
     (simp add: md_finish_def len_be_def bytes32_def be32_def UInt32SetLE_def replicate_eval generator_block)

lemma generator_rmd_block:
  "BRRMDCompress [0x67452301, 0xefcdab89, 0x98badcfe, 0x10325476, 0xc3d2e1f0]
     [0x0f, 0x71, 0x5b, 0xaf, 0x5d, 0x4c, 0x2e, 0xd3, 0x29, 0x78, 0x5c, 0xef, 0x29, 0xe5, 0x62, 0xf7,
      0x34, 0x88, 0xc8, 0xa2, 0xbb, 0x9d, 0xbc, 0x57, 0x00, 0xb3, 0x61, 0xd5, 0x4b, 0x9b, 0x05, 0x54,
      0x80, 0x00, 0x00, 0x00, 0x00, 0x00, 0x00, 0x00, 0x00, 0x00, 0x00, 0x00, 0x00, 0x00, 0x00, 0x00,
      0x00, 0x00, 0x00, 0x00, 0x00, 0x00, 0x00, 0x00, 0x00, 0x01, 0x00, 0x00, 0x00, 0x00, 0x00, 0x00] =
     [0xe8761e75, 0xd4969119, 0x451c9454, 0x23a3b3d1, 0xd63b43f1]"
proof -
  have w: "words32
     [0x0f, 0x71, 0x5b, 0xaf, 0x5d, 0x4c, 0x2e, 0xd3, 0x29, 0x78, 0x5c, 0xef, 0x29, 0xe5, 0x62, 0xf7,
      0x34, 0x88, 0xc8, 0xa2, 0xbb, 0x9d, 0xbc, 0x57, 0x00, 0xb3, 0x61, 0xd5, 0x4b, 0x9b, 0x05, 0x54,
      0x80, 0x00, 0x00, 0x00, 0x00, 0x00, 0x00, 0x00, 0x00, 0x00, 0x00, 0x00, 0x00, 0x00, 0x00, 0x00,
      0x00, 0x00, 0x00, 0x00, 0x00, 0x00, 0x00, 0x00, 0x00, 0x01, 0x00, 0x00, 0x00, 0x00, 0x00, 0x00] =
     [0xaf5b710f, 0xd32e4c5d, 0xef5c7829, 0xf762e529, 0xa2c88834, 0x57bc9dbb, 0xd561b300, 0x54059b4b,
      0x00000080, 0x00000000, 0x00000000, 0x00000000, 0x00000000, 0x00000000, 0x00000100, 0x00000000]"
    by (simp add: UInt32GetLE_def)
  show ?thesis unfolding BRRMDCompress_def w
    by (simp add: rmd_left_def rmd_right_def rmd_eval rmd_combine_eval)
qed

lemma generator_rmd160:
  "BRRMD160 [0x0f, 0x71, 0x5b, 0xaf, 0x5d, 0x4c, 0x2e, 0xd3, 0x29, 0x78, 0x5c, 0xef, 0x29, 0xe5, 0x62, 0xf7,
      0x34, 0x88, 0xc8, 0xa2, 0xbb, 0x9d, 0xbc, 0x57, 0x00, 0xb3, 0x61, 0xd5, 0x4b, 0x9b, 0x05, 0x54] =
     [0x75, 0x1e, 0x76, 0xe8, 0x19, 0x91, 0x96, 0xd4, 0x54, 0x94, 0x1c, 0x45, 0xd1, 0xb3, 0xa3, 0x23,
      0xf1, 0x43, 0x3b, 0xd6]"
  unfolding BRRMD160_def
  by (subst block_loop.simps)
     (simp add: md_finish_def len_le_def bytes32_def le32_def UInt32SetLE_def replicate_eval generator_rmd_block)

lemma generator_hash160:
  "BRHash160 generator = [0x75, 0x1e, 0x76, 0xe8, 0x19, 0x91, 0x96, 0xd4, 0x54, 0x94, 0x1c, 0x45, 0xd1, 0xb3, 0xa3, 0x23,
      0xf1, 0x43, 0x3b, 0xd6]"
  by (simp only: BRHash160_def generator_sha256 generator_rmd160)

end
