(* ===== verification/WalletKeys.thy ===== *)
theory WalletKeys
  imports WalletSpend Bip32 KnownAnswers
begin

text \<open>
  The wallet and its keys: the addresses of the chains are those of the public keys derived from the master public
  key, and \<open>BRWalletSignTransaction\<close> derives the private keys of the same positions from the seed. The theorem: a
  transaction whose inputs belong to the wallet is signed completely, and so is every transaction the wallet makes.
\<close>

definition chain_number :: "bool \<Rightarrow> u32" where
  "chain_number internal = (if internal then 1 else 0)"

text \<open>
  The address of position \<open>n\<close> in \<open>BRWalletUnusedAddrs\<close>, where \<open>None\<close> ends the extension of the chain. (Without a master public
  key the assertion of \<open>BRBIP32PubKey\<close> fails.)
\<close>

definition wallet_derive :: "bool \<Rightarrow> ('pk, 'sig, 'rsig) secp256k1 \<Rightarrow> BRMasterPubKey \<Rightarrow> bool \<Rightarrow> u32 \<Rightarrow> byte list option" where
  "wallet_derive tn L mpk internal n = do {
     (len, pub) \<leftarrow> BRBIP32PubKey L (Some 33) mpk (chain_number internal) n;
     (r, key) \<leftarrow> BRKeySetPubKey L no_key (take len pub);
     if \<not> r then None
     else let (_, m, address) = BRKeyAddress tn L key (Some 75)
       in if m = 0 \<or> BRAddressEq (butlast address) [] then None else Some (butlast address)
   }"

text \<open>What \<open>BRTransactionSign\<close> asks of a key: its address, its public key and a signature.\<close>

definition key_address :: "bool \<Rightarrow> ('pk, 'sig, 'rsig) secp256k1 \<Rightarrow> BRKey \<Rightarrow> byte list" where
  "key_address tn L key = (let (_, n, a) = BRKeyAddress tn L key (Some 75) in if n = 0 then [] else butlast a)"

definition key_public :: "('pk, 'sig, 'rsig) secp256k1 \<Rightarrow> BRKey \<Rightarrow> byte list" where
  "key_public L key = (let (key, n, _) = BRKeyPubKey L key None; (_, _, pub) = BRKeyPubKey L key (Some n) in pub)"

definition key_signature :: "('pk, 'sig, 'rsig) secp256k1 \<Rightarrow> BRKey \<Rightarrow> UInt256 \<Rightarrow> byte list" where
  "key_signature L key md = (case BRKeySign L key (Some 72) md of None \<Rightarrow> [] | Some (n, s) \<Rightarrow> s)"

text \<open>The keys that \<open>BRBIP32PrivKeyList\<close> derives for the positions of a chain.\<close>

definition wallet_key :: "('pk, 'sig, 'rsig) secp256k1 \<Rightarrow> byte list \<Rightarrow> bool \<Rightarrow> nat \<Rightarrow> BRKey" where
  "wallet_key L seed internal n = the (BRBIP32PrivKey L seed (chain_number internal) (of_nat n))"

definition SignWithSeed ::
  "env \<Rightarrow> ('pk, 'sig, 'rsig) secp256k1 \<Rightarrow> wallet \<Rightarrow> tx \<Rightarrow> u32 \<Rightarrow> byte list \<Rightarrow> (tx \<times> int) option" where
  "SignWithSeed e L w t forkId seed =
     BRWalletSignTransaction e (key_address (testnet e) L) (key_public L) (key_signature L) w t forkId (Some (wallet_key L seed))"

section \<open>The keys of the positions of the chains\<close>

text \<open>All keys of the chains of the wallet exist, as they do for almost all seeds.\<close>

definition all_keys_exist :: "('pk, 'sig, 'rsig) secp256k1 \<Rightarrow> byte list \<Rightarrow> bool" where
  "all_keys_exist L seed \<longleftrightarrow>
     (\<forall>internal. \<forall>n < 2 ^ 31. bip32_derive L seed [0 OR BIP32_HARD, chain_number internal, of_nat n] \<noteq> None)"

lemma all_keys_existD:
  assumes "all_keys_exist L seed" "n < 2 ^ 31"
  shows "\<exists>k. bip32_derive L seed [0 OR BIP32_HARD, chain_number internal, of_nat n] = Some k"
  using assms unfolding all_keys_exist_def not_None_eq [symmetric] by blast

lemma not_hardened: "n < 2 ^ 31 \<Longrightarrow> \<not> hardened (of_nat n)"
proof -
  assume n: "n < 2 ^ 31"
  have h: "BIP32_HARD = push_bit 31 1" by (simp add: BIP32_HARD_def)
  have "\<not> bit (of_nat n :: u32) 31"
    using n by (simp add: bit_of_nat_iff bit_nat_def)
  moreover have "bit BIP32_HARD k \<longleftrightarrow> k = 31" for k
    unfolding h bit_push_bit_iff by (cases "k = 31") auto
  ultimately have "(of_nat n :: u32) AND BIP32_HARD = 0"
    by (intro bit_word_eqI) (metis bit_and_iff bit_0_eq bot_apply bot_bool_def)
  then show ?thesis by (simp add: hardened_def)
qed

lemma chain_not_hardened: "\<not> hardened (chain_number internal)"
  by (simp add: chain_number_def hardened_def BIP32_HARD_def)

text \<open>The address depends on the bytes of the public key only.\<close>

lemma key_hash_of_pub:
  assumes "curve_laws L" "pubKey key = pubkey_serialize L (compressed key) pk @ r"
  shows "snd (BRKeyHash160 L key) = UInt160Get (BRHash160 (pubkey_serialize L (compressed key) pk))"
  using assms by (simp add: BRKeyHash160_def BRKeyPubKey_def key_pubkey_set [OF assms] curve_lawsD Let_def)

lemma key_hash_of_secret:
  assumes "curve_laws L" "pubKey key = replicate 65 0" "pubkey_create L (UInt256Set (secret key)) = Some pk"
  shows "snd (BRKeyHash160 L key) = UInt160Get (BRHash160 (pubkey_serialize L (compressed key) pk))"
  using assms by (simp add: BRKeyHash160_def BRKeyPubKey_def key_pubkey_fresh [OF assms] curve_lawsD Let_def)

lemma derived_address:
  assumes "curve_laws L" "all_keys_exist L seed" "BRBIP32MasterPubKey L seed = Some mpk" "n < 2 ^ 31"
    "wallet_derive tn L mpk internal (of_nat n) = Some a"
  shows "key_address tn L (wallet_key L seed internal n) = a"
proof -
  obtain k where k: "bip32_derive L seed [0 OR BIP32_HARD, chain_number internal, of_nat n] = Some k"
    using all_keys_existD [OF assms(2,4)] by blast
  obtain mpk' P where m: "BRBIP32MasterPubKey L seed = Some mpk'" "pubkey_create L k = Some P"
    "BRBIP32PubKey L (Some 33) mpk' (chain_number internal) (of_nat n) = Some (33, pubkey_serialize L True P)"
    using derive_chain [OF assms(1) k chain_not_hardened not_hardened [OF assms(4)]] by blast
  note d = derive_path [OF assms(1) k]
  let ?key = "\<lparr>secret = UInt256Get k, pubKey = replicate 65 0, compressed = True\<rparr>"
  have key: "wallet_key L seed internal n = ?key"
    using d(1) by (simp add: wallet_key_def BRBIP32PrivKey_def BRBIP32PrivKeyPath_def)
  define pkey where "pkey = (BRKeyClean no_key)\<lparr>pubKey := pubkey_serialize L True P @ replicate 32 0, compressed := True\<rparr>"
  have s: "BRKeySetPubKey L no_key (pubkey_serialize L True P) = Some (True, pkey)"
    by (simp add: BRKeySetPubKey_def curve_lawsD [OF assms(1)] pkey_def)
  have "snd (BRKeyHash160 L pkey) = snd (BRKeyHash160 L ?key)"
    using key_hash_of_pub [OF assms(1), of pkey P "replicate 32 0"] key_hash_of_secret [OF assms(1), of ?key P] m(2) d(2)
    by (simp add: pkey_def UInt256Set_Get)
  then have e: "snd (BRKeyAddress tn L pkey (Some 75)) = snd (BRKeyAddress tn L ?key (Some 75))"
    by (simp add: BRKeyAddress_def split_beta)
  have "take 33 (pubkey_serialize L True P) = pubkey_serialize L True P" by (simp add: curve_lawsD(2) [OF assms(1)])
  then show ?thesis
    using assms(3,5) m(1,3) s e
    by (auto simp: wallet_derive_def key_address_def key split_beta Let_def split: if_splits)
qed

lemma keys_of_positions:
  assumes "curve_laws L" "all_keys_exist L seed" "\<forall>n \<in> set idx. n < 2 ^ 31"
  shows "BRBIP32PrivKeyList L seed (chain_number internal) (map of_nat idx) = Some (map (wallet_key L seed internal) idx)"
proof -
  have "BRBIP32PrivKey L seed (chain_number internal) (of_nat n) = Some (wallet_key L seed internal n)" if n: "n < 2 ^ 31" for n
  proof -
    obtain k where k: "bip32_derive L seed [0 OR BIP32_HARD, chain_number internal, of_nat n] = Some k"
      using all_keys_existD [OF assms(2) n] by blast
    show ?thesis using derive_path(1) [OF assms(1) k]
      by (simp add: wallet_key_def BRBIP32PrivKey_def BRBIP32PrivKeyPath_def)
  qed
  then have "map (BRBIP32PrivKey L seed (chain_number internal)) (map of_nat idx) = map Some (map (wallet_key L seed internal) idx)"
    using assms(3) by simp
  moreover have "those (map Some xs) = Some xs" for xs :: "BRKey list" by (induction xs) simp_all
  ultimately show ?thesis unfolding key_list_those by (simp only:)
qed

section \<open>Signing\<close>

text \<open>
  The chains that a wallet needs for signing: the derived addresses, none twice in a chain, at indices that are not
  hardened, and \<open>allAddrs\<close> is the set of them. It follows from the invariant when the derivation gives different addresses.
\<close>

definition good_chains :: "env \<Rightarrow> wallet \<Rightarrow> bool" where
  "good_chains e w \<longleftrightarrow>
     (\<forall>internal. length (chain_of internal w) \<le> 2 ^ 31 \<and> distinct (map addr_key (chain_of internal w)) \<and>
        (\<forall>n < length (chain_of internal w).
           derive e internal (of_nat n) = Some (chain_of internal w ! n) \<and> chain_of internal w ! n \<noteq> [])) \<and>
     allAddrs w = addr_key ` (set (chain_of True w) \<union> set (chain_of False w))"

lemma good_chainsD:
  assumes "good_chains e w"
  shows "length (chain_of internal w) \<le> 2 ^ 31" "distinct (map addr_key (chain_of internal w))"
    "n < length (chain_of internal w) \<Longrightarrow> derive e internal (of_nat n) = Some (chain_of internal w ! n)"
    "n < length (chain_of internal w) \<Longrightarrow> chain_of internal w ! n \<noteq> []"
    "allAddrs w = addr_key ` (set (chain_of True w) \<union> set (chain_of False w))"
  using assms unfolding good_chains_def by blast+

lemma derived_good_chains:
  assumes "\<And>internal. derives_all (derive e internal)" "chains_ok e w" "\<And>internal. length (chain_of internal w) \<le> 2 ^ 31"
  shows "good_chains e w"
proof -
  have "distinct (map addr_key (chain_of internal w)) \<and> (\<forall>n < length (chain_of internal w).
      derive e internal (of_nat n) = Some (chain_of internal w ! n) \<and> chain_of internal w ! n \<noteq> [])" for internal
  proof
    let ?c = "chain_of internal w"
    have c: "?c = map (addr_at (derive e internal)) [0..<length ?c]"
      using assms(2) by (cases internal) (auto simp: chains_ok_def chain_of_def)
    have n: "?c ! m = addr_at (derive e internal) m" if "m < length ?c" for m by (subst c) (use that in simp)
    have d: "\<exists>a. derive e internal (of_nat m) = Some a \<and> a \<noteq> []" if "m < length ?c" for m
      using assms(1) [of internal] assms(3) [of internal] that unfolding derives_all_def by simp
    show "\<forall>n < length ?c. derive e internal (of_nat n) = Some (?c ! n) \<and> ?c ! n \<noteq> []"
      using d n by (fastforce simp: addr_at_def)
    have "inj_on (\<lambda>n. addr_key (addr_at (derive e internal) n)) {0..<length ?c}"
      by (rule inj_on_subset [of _ "{..<2 ^ 31}"]) (use assms(1) assms(3) [of internal] in \<open>auto simp: derives_all_def\<close>)
    then show "distinct (map addr_key ?c)" by (subst c) (simp add: distinct_map o_def)
  qed
  moreover have "allAddrs w = addr_key ` (set (chain_of True w) \<union> set (chain_of False w))"
    using assms(2) by (simp add: chains_ok_def chain_of_def)
  ultimately show ?thesis using assms(3) by (simp add: good_chains_def)
qed

text \<open>Every input belongs to at most one position of a chain.\<close>

lemma positions_of_input:
  assumes "distinct (map addr_key chain)"
  shows "length (chain_positions chain i) \<le> 1"
proof -
  let ?p = "chain_positions chain i"
  have "j = k" if "j \<in> set ?p" "k \<in> set ?p" for j k
    using that assms by (auto simp: chain_positions_def BRAddressEq_def addr_key_def distinct_conv_nth)
  then have "card (set ?p) \<le> Suc 0" unfolding card_le_Suc0_iff_eq [OF finite_set] by blast
  moreover have "distinct ?p" by (simp add: chain_positions_def)
  ultimately show "length ?p \<le> 1" by (simp add: distinct_card)
qed

lemma length_concat_le_one: "(\<And>x. x \<in> set xs \<Longrightarrow> length (f x) \<le> 1) \<Longrightarrow> length (concat (map f xs)) \<le> length xs"
proof (induction xs)
  case (Cons x xs)
  have "length (f x) \<le> 1" "length (concat (map f xs)) \<le> length xs" using Cons by simp_all
  then show ?case by simp
qed simp

text \<open>An input that belongs to the wallet: its address is that of its script, and is in one of the chains.\<close>

definition wallet_input :: "bool \<Rightarrow> wallet \<Rightarrow> txin \<Rightarrow> bool" where
  "wallet_input tn w i \<longleftrightarrow> in_address i = script_address_of tn (arr (in_script i)) \<and> addr_key (in_address i) \<in> allAddrs w"

lemma signer_found:
  "k \<in> set keys \<Longrightarrow> BRAddressEq (kaddr k) (script_address_of tn (arr (in_script i))) \<Longrightarrow>
   script_address_of tn (arr (in_script i)) \<noteq> [] \<Longrightarrow> signer tn kaddr keys i \<noteq> None"
  by (simp add: signer_def Let_def find_None_iff del: not_None_eq) blast

lemma own_inputs_signed:
  assumes curve: "curve_laws L" and seed: "all_keys_exist L seed" "BRBIP32MasterPubKey L seed = Some mpk"
    and env: "derive e = wallet_derive (testnet e) L mpk"
    and wallet: "good_chains e w"
    and inputs: "\<forall>i \<in> set (tx_inputs t). wallet_input (testnet e) w i" "length (tx_inputs t) \<le> SIZE_MAX"
  shows "\<exists>t'. SignWithSeed e L w t forkId seed = Some (t', 1) \<and> BRTransactionIsSigned t'"
proof -
  let ?key = "wallet_key L seed" and ?addr = "key_address (testnet e) L"
  let ?idx = "\<lambda>internal. concat (map (chain_positions (chain_of internal w)) (tx_inputs t))"
  let ?keys = "map (?key True) (?idx True) @ map (?key False) (?idx False)"
  have len: "length (?idx internal) \<le> length (tx_inputs t)" for internal
    by (rule length_concat_le_one) (rule positions_of_input [OF good_chainsD(2) [OF wallet]])
  have found: "signer (testnet e) ?addr ?keys i \<noteq> None" if i: "i \<in> set (tx_inputs t)" for i
  proof -
    have a: "script_address_of (testnet e) (arr (in_script i)) = in_address i" "addr_key (in_address i) \<in> allAddrs w"
      using inputs(1) i by (auto simp: wallet_input_def)
    then obtain a where "a \<in> set (chain_of True w) \<union> set (chain_of False w)" "addr_key a = addr_key (in_address i)"
      unfolding good_chainsD(5) [OF wallet] by (metis imageE)
    then obtain internal where "a \<in> set (chain_of internal w)" "addr_key a = addr_key (in_address i)" by blast
    then obtain n where n: "n < length (chain_of internal w)" "addr_key (chain_of internal w ! n) = addr_key (in_address i)"
      by (metis in_set_conv_nth)
    note c = good_chainsD(3,4) [OF wallet n(1)]
    have "n < 2 ^ 31" using n(1) good_chainsD(1) [OF wallet, of internal] by simp
    from derived_address [OF curve seed this] c(1) have k: "?addr (?key internal n) = chain_of internal w ! n"
      by (simp add: env)
    have ne: "in_address i \<noteq> []"
      using n(2) c(2) by (cases "chain_of internal w ! n") (auto simp: addr_key_def)
    have "n \<in> set (chain_positions (chain_of internal w) i)"
      using n by (simp add: chain_positions_def BRAddressEq_def addr_key_def)
    then have "?key internal n \<in> set ?keys" using i by (cases internal) auto
    moreover have "BRAddressEq (?addr (?key internal n)) (in_address i)"
      using n(2) k by (simp add: BRAddressEq_def addr_key_def)
    ultimately show ?thesis using ne unfolding a(1) [symmetric] by (rule signer_found)
  qed
  obtain t' ok where s: "BRTransactionSign (testnet e) ?addr (key_public L) (key_signature L) forkId ?keys t = (t', ok)"
    "tx_inputs t' = map (signed_input (testnet e) ?addr (key_public L) (key_signature L) forkId ?keys t) [0..<length (tx_inputs t)]"
    "ok = list_all (\<lambda>inp. in_signature inp \<noteq> None \<or> signer (testnet e) ?addr ?keys inp \<noteq> None) (tx_inputs t)"
    using sign_transaction [OF inputs(2)] by blast
  have ok: "ok" using found unfolding s(3) by (auto simp: list_all_iff)
  have "BRTransactionIsSigned t'"
    using s(1) ok by (auto simp: BRTransactionSign_def Let_def split: if_splits simp: BRTransactionIsSigned_def)
  moreover have "SignWithSeed e L w t forkId seed = Some (t', 1)"
    using len [of True] len [of False] s(1) ok
    by (simp add: SignWithSeed_def BRWalletSignTransaction_def chain_of_def Let_def)
  ultimately show ?thesis by blast
qed

section \<open>Transactions of the wallet\<close>

text \<open>Every output in the store has the address of its script, as every transaction that was read has.\<close>

definition addresses_of_scripts :: "bool \<Rightarrow> wallet \<Rightarrow> bool" where
  "addresses_of_scripts tn w \<longleftrightarrow>
     (\<forall>h t. allTx w h = Some t \<longrightarrow> (\<forall>out \<in> set (tx_outputs t). readable_output tn out))"

text \<open>An input for an unspent output of the wallet.\<close>

definition spends_output :: "bool \<Rightarrow> wallet \<Rightarrow> txin \<Rightarrow> bool" where
  "spends_output tn w i \<longleftrightarrow> (\<exists>u \<in> set (utxos w). \<exists>out. utxo_output w u = Some out \<and> in_script i = out_script out \<and>
     in_address i = (case out_script out of None \<Rightarrow> [] | Some s \<Rightarrow> script_address_of tn s))"

lemma added_input:
  assumes "BRTransactionAddInput tn t h n amount script None seq = Some t'"
  shows "\<exists>i. tx_inputs t' = tx_inputs t @ [i] \<and> in_script i = script \<and>
    in_address i = (case script of None \<Rightarrow> [] | Some s \<Rightarrow> script_address_of tn s)"
  using assms by (auto simp: BRTransactionAddInput_def BRTxInputSetScript_def Let_def split: if_splits option.splits)

lemma select_inputs_spend:
  "select_inputs tn w amount minAmount us t bal fee = Some (Enough t' bal' fee') \<Longrightarrow> set us \<subseteq> set (utxos w) \<Longrightarrow>
   \<forall>i \<in> set (tx_inputs t). spends_output tn w i \<Longrightarrow> \<forall>i \<in> set (tx_inputs t'). spends_output tn w i"
proof (induction us arbitrary: t bal fee)
  case (Cons u us)
  show ?case
  proof (cases "utxo_output w u")
    case None
    then have "select_inputs tn w amount minAmount us t bal fee = Some (Enough t' bal' fee')"
      using Cons.prems(1) by (auto simp: utxo_output_def split: option.splits if_splits)
    then show ?thesis using Cons.IH Cons.prems by simp
  next
    case (Some out)
    then obtain p where p: "allTx w (fst u) = Some p" "unat (snd u) < length (tx_outputs p)" "out = tx_outputs p ! unat (snd u)"
      by (auto simp: utxo_output_def split: option.splits if_splits)
    then obtain t1 where t1: "BRTransactionAddInput tn t (txHash p) (snd u) (out_amount out) (out_script out) None TXIN_SEQUENCE = Some t1"
      using Cons.prems(1) by (auto simp: bind_eq_Some_conv Let_def)
    obtain i where i: "tx_inputs t1 = tx_inputs t @ [i]" "in_script i = out_script out"
      "in_address i = (case out_script out of None \<Rightarrow> [] | Some s \<Rightarrow> script_address_of tn s)"
      using added_input [OF t1] by blast
    have sp: "\<forall>i \<in> set (tx_inputs t1). spends_output tn w i"
      using Cons.prems(2,3) i Some by (auto simp: spends_output_def)
    show ?thesis using Cons.prems(1) p t1 Cons.IH [OF _ _ sp] Cons.prems(2) sp
      by (auto simp: Let_def not_le [symmetric] split: if_splits)
  qed
qed auto

lemma change_inputs:
  "add_change e w t amount minAmount bal fee = Some (w', Some t') \<Longrightarrow> tx_inputs t' = tx_inputs t"
  by (auto simp: add_change_def BRTransactionShuffleOutputs_def BRTransactionAddOutput_def bind_eq_Some_conv split: if_splits)

lemma created_inputs:
  "BRWalletCreateTxForOutputs e w outs = Some s \<Longrightarrow>
   \<forall>t. snd s = Some t \<longrightarrow> (\<forall>i \<in> set (tx_inputs t). spends_output (testnet e) w i)"
proof (rule BRWalletCreateTxForOutputs.raw_induct
    [of "\<lambda>e w outs s. \<forall>t. snd s = Some t \<longrightarrow> (\<forall>i \<in> set (tx_inputs t). spends_output (testnet e) w i)"], goal_cases)
  case (1 create e w outs s)
  let ?t = "foldl (\<lambda>t out. BRTransactionAddOutput (testnet e) t (out_amount out) (out_script out)) BRTransactionNew outs"
  let ?sel = "select_inputs (testnet e) w (outputs_amount outs) (BRWalletMinOutputAmount w) (utxos w) ?t 0
     (txFee (feePerKb w) (BRTransactionSize ?t + TX_OUTPUT_SIZE))"
  have none: "tx_inputs ?t = []" by (simp add: draft_fields BRTransactionNew_def)
  show ?case
  proof (cases ?sel)
    case None
    then show ?thesis using 1(3) by (simp add: Let_def split: if_splits)
  next
    case (Some sel)
    show ?thesis
    proof (cases sel)
      case (Enough t bal fee)
      have "\<forall>i \<in> set (tx_inputs t). spends_output (testnet e) w i"
        using select_inputs_spend [OF Some [unfolded Enough]] none by simp
      moreover have "add_change e w t (outputs_amount outs) (BRWalletMinOutputAmount w) bal fee = Some s"
        using 1(3) Some Enough by (simp add: Let_def split: if_splits)
      ultimately show ?thesis by (cases s) (auto dest: change_inputs)
    next
      case (TooLarge bal fee)
      then show ?thesis using 1(3) Some by (auto simp: Let_def split: if_splits dest: 1(2))
    qed
  qed
qed

lemma spends_own:
  assumes "sane_store r (allTx w)" "money_ok w" "addresses_of_scripts tn w" "spends_output tn w i" "allAddrs w \<subseteq> allAddrs w'"
  shows "wallet_input tn w' i"
proof -
  obtain u out where u: "u \<in> set (utxos w)" "utxo_output w u = Some out" "in_script i = out_script out"
    "in_address i = (case out_script out of None \<Rightarrow> [] | Some s \<Rightarrow> script_address_of tn s)"
    using assms(4) by (auto simp: spends_output_def)
  have "u \<in> own_outpoints w (dom (allTx w))" using assms(2) u(1) by (auto simp: money_ok_def)
  then obtain h t j where h: "u = (h, of_nat j)" "allTx w h = Some t" "j < length (tx_outputs t)"
    "wallet_addr w (out_address (tx_outputs t ! j))"
    by (auto simp: own_outpoints_def)
  have out: "out = tx_outputs t ! j"
    using u(2) h(1-3) sane_storeD [OF assms(1) h(2)] by (auto simp: utxo_output_nth sane_tx_def)
  then have "readable_output tn out" using assms(3) h(2,3) unfolding addresses_of_scripts_def by (metis nth_mem)
  then show ?thesis using u(3,4) h(4) out assms(5)
    by (auto simp: readable_output_def wallet_input_def wallet_addr_def arr_def split: option.splits)
qed

lemma extended_chain:
  "extend_chain der taken gap chain i = Some (chain', i') \<Longrightarrow> set chain \<subseteq> set chain'"
proof -
  have "extend_chain der taken gap chain i = Some r \<Longrightarrow> set chain \<subseteq> set (fst r)" for r
  proof (rule extend_chain.raw_induct [of "\<lambda>der taken gap chain i r. set chain \<subseteq> set (fst r)"], goal_cases)
    case (1 ext der taken gap chain i r)
    then show ?case by (fastforce split: if_splits option.splits dest: 1(2))
  qed
  then show "extend_chain der taken gap chain i = Some (chain', i') \<Longrightarrow> set chain \<subseteq> set chain'" by fastforce
qed

lemma only_chain_addrs:
  assumes "only_chain e w w'" "chains_ok e w"
  shows "allAddrs w \<subseteq> allAddrs w'"
proof (cases "w' = w")
  case False
  then obtain addrs where "BRWalletUnusedAddrs e 1 True w = Some (w', addrs)" using assms(1) by (auto simp: only_chain_def)
  then obtain c i where c: "extend_chain (derive e True) (usedAddrs w) 1 (internalChain w)
      (unused_from (usedAddrs w) (internalChain w) (length (internalChain w))) = Some (c, i)"
    "allAddrs w' = (if moved e (length (internalChain w)) (length c) then addr_key ` (set c \<union> set (externalChain w))
       else allAddrs w \<union> addr_key ` set (drop (length (internalChain w)) c))"
    by (auto simp: BRWalletUnusedAddrs_def Let_def bind_eq_Some_conv)
  have "allAddrs w = addr_key ` (set (internalChain w) \<union> set (externalChain w))" using assms(2) by (simp add: chains_ok_def)
  then show ?thesis using extended_chain [OF c(1)] unfolding c(2) by auto
qed simp

text \<open>
  C2: What the wallet makes it can sign: a transaction that was made for the outputs of a payment is signed
  completely with the keys derived from the seed of the wallet's master public key, on every curve that obeys the laws.
\<close>

theorem wallet_signs_what_it_creates:
  assumes "curve_laws L" "all_keys_exist L seed" "BRBIP32MasterPubKey L seed = Some mpk"
    "derive e = wallet_derive (testnet e) L mpk" "wallet_ok e r w" "addresses_of_scripts (testnet e) w"
    "BRWalletCreateTxForOutputs e w outs = Some (w', Some t)" "good_chains e w'" "length (tx_inputs t) \<le> SIZE_MAX"
  shows "\<exists>t'. SignWithSeed e L w' t forkId seed = Some (t', 1) \<and> BRTransactionIsSigned t'"
proof (rule own_inputs_signed [OF assms(1-4,8) _ assms(9)])
  note base = wallet_okD(1) [OF assms(5)]
  have "allAddrs w \<subseteq> allAddrs w'"
    using only_chain_addrs [OF _ base_okD(2) [OF base]] create_frame [OF assms(7)] by simp
  then show "\<forall>i \<in> set (tx_inputs t). wallet_input (testnet e) w' i"
    using created_inputs [OF assms(7)] spends_own [OF base_okD(1) [OF base] wallet_okD(2) [OF assms(5)] assms(6)] by auto
qed

section \<open>A wallet with one payment\<close>

text \<open>A curve with one point, whose compressed form is that of the generator of secp256k1.\<close>

definition point_curve :: "(unit, unit, unit) secp256k1" where
  "point_curve = \<lparr>seckey_verify = (\<lambda>k. True), privkey_tweak_add = (\<lambda>k t. Some (UInt256Set (UInt256Get k))),
     privkey_tweak_mul = (\<lambda>k t. Some (UInt256Set (UInt256Get k))), pubkey_create = (\<lambda>k. Some ()),
     pubkey_parse = (\<lambda>b. Some ()), pubkey_serialize = (\<lambda>c P. if c then generator else 4 # replicate 64 0),
     pubkey_tweak_add = (\<lambda>P t. Some P), pubkey_tweak_mul = (\<lambda>P t. Some P), ecdsa_sign = (\<lambda>md k. Some ()),
     signature_serialize_der = (\<lambda>s. [48]), signature_parse_der = (\<lambda>b. Some ()), ecdsa_verify = (\<lambda>s md P. True),
     sign_recoverable = (\<lambda>md k. Some ()), serialize_compact = (\<lambda>s. (replicate 64 0, 0)),
     parse_compact = (\<lambda>b i. Some ()), ecdsa_recover = (\<lambda>s md. Some ())\<rparr>"

lemma point_curve_laws: "curve_laws point_curve"
  by (simp add: curve_laws_def point_curve_def generator_def)

lemma point_path: "\<exists>kc'. bip32_path point_curve kc path = Some kc'"
proof (induction path arbitrary: kc)
  case Nil
  show ?case by (simp add: point_curve_def)
next
  case (Cons i path)
  obtain k' c' where "bip32_child point_curve kc i = Some (k', c')"
    by (cases kc) (simp add: bip32_child_def point_curve_def Let_def)
  then show ?case using Cons.IH [of "(k', c')"] by simp
qed

lemma point_keys: "all_keys_exist point_curve seed"
  unfolding all_keys_exist_def bip32_derive_def Let_def using point_path by (metis option.map_disc_iff option.distinct(1))

definition generator_hash :: "byte list" where
  "generator_hash = BRHash160 generator"

lemma generator_hash_nonzero: "length generator_hash = 20" "UInt160Get generator_hash \<noteq> 0"
proof -
  show l: "length generator_hash = 20" by (simp add: generator_hash_def generator_hash160)
  have "UInt160Set 0 = replicate 20 0" by (rule nth_equalityI) (simp_all add: UInt160Set_def bytes_of_def u8_view_def)
  moreover have "UInt160Set (UInt160Get generator_hash) = generator_hash"
    using l by (simp add: UInt160Set_def UInt160Get_def bytes_of_word_of_bytes)
  moreover have "generator_hash ! 0 \<noteq> replicate 20 0 ! 0" by (simp add: generator_hash_def generator_hash160)
  ultimately show "UInt160Get generator_hash \<noteq> 0" by metis
qed

definition point_address :: "byte list" where
  "point_address = script_address_of False (p2pkh_script generator_hash)"

lemma point_address_string: "point_address = check_string (0 # generator_hash)" "length point_address \<le> 50" "point_address \<noteq> []"
proof -
  have l: "length (check_string (0 # generator_hash)) \<le> 50"
    using base58_string_shorter [of "0 # generator_hash @ take 4 (BRSHA256_2 (0 # generator_hash))"] generator_hash_nonzero(1)
    by (simp add: check_string_def)
  have z: "0 \<notin> set (check_string (0 # generator_hash))" by (simp add: check_string_def base58_string_chars(2))
  have "takeWhile (\<lambda>c. c \<noteq> 0) (check_string (0 # generator_hash) @ [0]) = check_string (0 # generator_hash)"
    using z by (subst takeWhile_append2) auto
  then show e: "point_address = check_string (0 # generator_hash)"
    using l by (simp add: point_address_def script_address_of_def string_of_def address_of_template [OF generator_hash_nonzero(1)]
        check_encode_form pubkey_address_def)
  show "length point_address \<le> 50" unfolding e by (rule l)
  show "point_address \<noteq> []" unfolding point_address_def by (rule template_address_nonempty [OF generator_hash_nonzero(1)])
qed

definition point_mpk :: BRMasterPubKey where
  "point_mpk = the (BRBIP32MasterPubKey point_curve [1, 2, 3])"

lemma point_master: "BRBIP32MasterPubKey point_curve [1, 2, 3] = Some point_mpk"
  and point_pubkey: "n < 2 ^ 31 \<Longrightarrow>
    BRBIP32PubKey point_curve (Some 33) point_mpk (chain_number internal) (of_nat n) = Some (33, generator)"
proof -
  have d: "\<exists>mpk. BRBIP32MasterPubKey point_curve [1, 2, 3] = Some mpk \<and>
      BRBIP32PubKey point_curve (Some 33) mpk (chain_number internal) (of_nat n) = Some (33, generator)"
    if n: "n < 2 ^ 31" for internal n
  proof -
    obtain k where "bip32_derive point_curve [1, 2, 3] [0 OR BIP32_HARD, chain_number internal, of_nat n] = Some k"
      using all_keys_existD [OF point_keys n] by blast
    from derive_chain [OF point_curve_laws this chain_not_hardened not_hardened [OF n]]
    show ?thesis by (auto simp: point_curve_def)
  qed
  from d [of 0 True] show "BRBIP32MasterPubKey point_curve [1, 2, 3] = Some point_mpk" by (auto simp: point_mpk_def)
  then show "n < 2 ^ 31 \<Longrightarrow>
    BRBIP32PubKey point_curve (Some 33) point_mpk (chain_number internal) (of_nat n) = Some (33, generator)"
    using d by force
qed

lemma point_derive: "n < 2 ^ 31 \<Longrightarrow> wallet_derive False point_curve point_mpk internal (of_nat n) = Some point_address"
proof -
  assume n: "n < 2 ^ 31"
  let ?key = "(BRKeyClean no_key)\<lparr>pubKey := generator @ replicate 32 0, compressed := True\<rparr>"
  have g: "length generator = 33" "generator = pubkey_serialize point_curve True ()"
    by (simp_all add: generator_def point_curve_def)
  have s: "BRKeySetPubKey point_curve no_key generator = Some (True, ?key)"
    by (simp add: BRKeySetPubKey_def g(1), simp add: point_curve_def)
  have "snd (BRKeyHash160 point_curve ?key) = UInt160Get generator_hash"
    using key_hash_of_pub [OF point_curve_laws, of ?key "()" "replicate 32 0"] by (simp add: g(2) generator_hash_def)
  then have "snd (BRKeyAddress False point_curve ?key (Some 75)) = BRBase58CheckEncode (Some 75) (0 # generator_hash)"
    using generator_hash_nonzero
    by (simp add: BRKeyAddress_def split_beta pubkey_address_def UInt160Set_def UInt160Get_def bytes_of_word_of_bytes)
  also have "\<dots> = (length point_address + 1, point_address @ [0])"
    using point_address_string(2) by (simp add: check_encode_form point_address_string(1))
  finally have a: "snd (BRKeyAddress False point_curve ?key (Some 75)) = (length point_address + 1, point_address @ [0])" .
  have "\<not> BRAddressEq point_address []"
    using point_address_string(2,3) by (cases point_address) (auto simp: BRAddressEq_def)
  then show ?thesis using a by (simp add: wallet_derive_def point_pubkey [OF n] s g(1) split_beta)
qed

definition point_env :: env where
  "point_env = \<lparr>testnet = False, derive = wallet_derive False point_curve point_mpk, moved = \<lambda>m n. False, rand = \<lambda>i n. 0\<rparr>"

definition point_income :: tx where
  "point_income = \<lparr>txHash = 5, tx_version = 1, tx_inputs = [sample_input 3 0xffffffff],
     tx_outputs = [\<lparr>out_address = point_address, out_amount = 10000, out_script = Some (p2pkh_script generator_hash)\<rparr>],
     lockTime = 0, blockHeight = 100, tx_timestamp = 0\<rparr>"

definition point_funds :: wallet where
  "point_funds = empty_wallet\<lparr>allTx := [5 \<mapsto> point_income], transactions := [5], balance := 10000, balanceHist := [10000],
     utxos := [(5, 0)], externalChain := [point_address], allAddrs := {addr_key point_address}\<rparr>"

lemma point_funds_ok: "wallet_ok point_env unat point_funds" "good_chains point_env point_funds"
  "addresses_of_scripts False point_funds"
proof -
  have f: "allTx point_funds = [5 \<mapsto> point_income]" "transactions point_funds = [5]" "utxos point_funds = [(5, 0)]"
    "balance point_funds = 10000" "balanceHist point_funds = [10000]" "invalidTx point_funds = {}" "pendingTx point_funds = {}"
    "externalChain point_funds = [point_address]" "internalChain point_funds = []"
    "allAddrs point_funds = {addr_key point_address}"
    by (simp_all add: point_funds_def empty_wallet_def)
  have t: "txHash point_income = 5" "tx_inputs point_income = [sample_input 3 0xffffffff]"
    "tx_outputs point_income = [\<lparr>out_address = point_address, out_amount = 10000, out_script = Some (p2pkh_script generator_hash)\<rparr>]"
    by (simp_all add: point_income_def)
  have d: "derive point_env internal 0 = Some point_address" for internal
    using point_derive [of 0 internal] by (simp add: point_env_def)
  have "sane_store unat (allTx point_funds)"
    by (simp add: f sane_store_def sane_tx_def t BRTransactionIsSigned_def sample_input_def)
  moreover have "chains_ok point_env point_funds" by (simp add: chains_ok_def f d addr_at_def)
  moreover have "belongs point_funds 5" by (simp add: belongs_def f ContainsTx_def t wallet_addr_def)
  moreover have "by_height point_funds [5]" by (simp add: by_height_def)
  moreover have "money_ok point_funds"
    using point_address_string(3)
    by (simp add: money_ok_def f own_outpoints_def worth_def utxo_output_def t wallet_addr_def)
  ultimately show "wallet_ok point_env unat point_funds" by (simp add: wallet_ok_def base_ok_def f)
  show "good_chains point_env point_funds"
    using point_address_string(3) by (simp add: good_chains_def chain_of_def f d)
  show "addresses_of_scripts False point_funds"
    by (simp add: addresses_of_scripts_def f t readable_output_def point_address_def)
qed

lemma point_created:
  "\<exists>t. BRWalletCreateTxForOutputs point_env point_funds [\<lparr>out_address = [], out_amount = 6000, out_script = Some [81]\<rparr>] =
     Some (point_funds, Some t) \<and> length (tx_inputs t) = 1"
proof -
  let ?outs = "[\<lparr>out_address = [], out_amount = 6000, out_script = Some [81]\<rparr>]"
  have f: "utxos point_funds = [(5, 0)]" "feePerKb point_funds = 10000" "balance point_funds = 10000"
    by (simp_all add: point_funds_def empty_wallet_def DEFAULT_FEE_PER_KB_def)
  have worth: "worth point_funds (5, 0) = 10000"
    by (simp add: worth_def utxo_output_def point_funds_def point_income_def)
  have m: "BRWalletMinOutputAmount point_funds = 5460"
    by (simp add: BRWalletMinOutputAmount_def f TX_MIN_OUTPUT_AMOUNT_def MIN_FEE_PER_KB_def)
  have o: "outputs_amount ?outs = 6000" by (simp add: outputs_amount_def)
  have u: "unsigned_length k ?outs = 8 + BRVarIntSize (of_nat k) + TX_INPUT_SIZE * k + 11" for k
    by (simp add: unsigned_length_def output_size_def BRVarIntSize_def BRVarIntSet_def alen_def arr_def)
  have "size_bound (length (utxos point_funds)) ?outs \<le> TX_MAX_SIZE"
    by (simp add: f size_bound_def output_size_def BRVarIntSize_def BRVarIntSet_def alen_def arr_def
        TX_INPUT_SIZE_def TX_OUTPUT_SIZE_def TX_MAX_SIZE_def)
  moreover have "?outs \<noteq> []" "\<forall>out \<in> set ?outs. arr (out_script out) \<noteq> []" "utxos point_funds \<noteq> []"
    by (simp_all add: arr_def f)
  ultimately obtain k t bal fee where
    k: "BRWalletCreateTxForOutputs point_env point_funds ?outs = add_change point_env point_funds t 6000 5460 bal fee"
    "k \<le> length [(5 :: UInt256, 0 :: u32)]" "map input_key (tx_inputs t) = take k [(5, 0)]"
    "bal = total_worth point_funds (take k [(5, 0)])"
    "BRTransactionSize t = 8 + BRVarIntSize (of_nat k) + TX_INPUT_SIZE * k + 11"
    "fee = round_fee 10000 6000 (txFee 10000 (BRTransactionSize t + TX_OUTPUT_SIZE))"
    "bal = 6000 + fee \<or> 6000 + fee + 5460 \<le> bal \<or> k = length [(5 :: UInt256, 0 :: u32)]"
    using create_steps [OF point_funds_ok(1), of ?outs] unfolding o m f u by blast
  consider "k = 0" | "k = 1" using k(2) by fastforce
  then show ?thesis
  proof cases
    case 1
    have "fee = 600" unfolding k(6,5) 1
      by (simp add: round_fee_def txFee_def TX_INPUT_SIZE_def TX_OUTPUT_SIZE_def BRVarIntSize_def BRVarIntSet_def Let_def)
    then show ?thesis using k(4,7) 1 by simp
  next
    case 2
    have "bal = 10000" using k(4) 2 worth by simp
    moreover have "fee = 2100" unfolding k(6,5) 2
      by (simp add: round_fee_def txFee_def TX_INPUT_SIZE_def TX_OUTPUT_SIZE_def BRVarIntSize_def BRVarIntSet_def Let_def)
    ultimately have "BRWalletCreateTxForOutputs point_env point_funds ?outs = Some (point_funds, Some t)"
      unfolding k(1) add_change_def by simp
    moreover have "length (tx_inputs t) = 1" using arg_cong [OF k(3), of length] 2 by simp
    ultimately show ?thesis by blast
  qed
qed

lemma wallet_signs_what_it_creates_witness:
  "\<exists>t t'. BRWalletCreateTxForOutputs point_env point_funds [\<lparr>out_address = [], out_amount = 6000, out_script = Some [81]\<rparr>] =
       Some (point_funds, Some t) \<and> length (tx_inputs t) = 1 \<and>
     SignWithSeed point_env point_curve point_funds t 0 [1, 2, 3] = Some (t', 1) \<and> BRTransactionIsSigned t'"
proof -
  obtain t where t: "BRWalletCreateTxForOutputs point_env point_funds [\<lparr>out_address = [], out_amount = 6000, out_script = Some [81]\<rparr>] =
      Some (point_funds, Some t)" "length (tx_inputs t) = 1" using point_created by blast
  have e: "derive point_env = wallet_derive (testnet point_env) point_curve point_mpk" by (simp add: point_env_def)
  have a: "addresses_of_scripts (testnet point_env) point_funds" using point_funds_ok(3) by (simp add: point_env_def)
  have "length (tx_inputs t) \<le> SIZE_MAX" using t(2) by (simp add: SIZE_MAX_def)
  from wallet_signs_what_it_creates [OF point_curve_laws point_keys point_master e point_funds_ok(1) a t(1) point_funds_ok(2) this]
  show ?thesis using t by blast
qed

end
