(* ===== verification/Mnemonic.thy ===== *)
theory Mnemonic
  imports Ciphers "HOL-Library.Monad_Syntax"
begin

text \<open>
  BRBIP39Mnemonic.c: a list of words for a secret and its checksum. The list of words is an argument of the functions, as in
  the code; a word is a byte list without the final NUL.
\<close>

definition BIP39_WORDLIST_COUNT :: nat where "BIP39_WORDLIST_COUNT = 2048"

section \<open>Encoding\<close>

text \<open>The index of word \<open>i\<close>: 11 bits of a 4 byte read, which is outside of \<open>buf\<close> for very long secrets.\<close>

definition phrase_index :: "byte list \<Rightarrow> nat \<Rightarrow> u32 option" where
  "phrase_index buf i = do {
     b \<leftarrow> mem_read buf (i * 11 div 8) 4;
     Some (drop_bit (32 - (11 + (i * 11) mod 8)) (UInt32GetBE b) mod of_nat BIP39_WORDLIST_COUNT)
   }"

fun phrase_indices :: "byte list \<Rightarrow> nat list \<Rightarrow> u32 list option" where
  "phrase_indices buf [] = Some []"
| "phrase_indices buf (i # is) = do { x \<leftarrow> phrase_index buf i; xs \<leftarrow> phrase_indices buf is; Some (x # xs) }"

text \<open>One word at \<open>phrase[len]\<close>, with a space in front of all but the first; \<open>strncpy\<close> fills the rest of the buffer with NUL.\<close>

definition put_word :: "nat \<times> byte list option \<Rightarrow> nat \<times> byte list \<Rightarrow> nat \<times> byte list option" where
  "put_word = (\<lambda>(len, phrase) (i, word).
     let phrase = (if i > 0 then map_option (\<lambda>b. if len < length b then b[len := 32] else b) phrase else phrase);
         len = (if i > 0 then len + 1 else len);
         phrase = map_option (\<lambda>b. if len < length b
           then take len b @ take (length b - len) (word @ replicate (length b - len) 0) else b) phrase
     in (len + length word, phrase))"

definition BRBIP39Encode :: "byte list list \<Rightarrow> byte list option \<Rightarrow> byte list \<Rightarrow> (nat \<times> byte list option) option" where
  "BRBIP39Encode wordList phrase data =
     (if length data = 0 \<or> length data mod 4 \<noteq> 0 then None
      else do {
        xs \<leftarrow> phrase_indices (data @ BRSHA256 data) [0..<length data * 3 div 4];
        let (len, phrase) = foldl put_word (0, phrase) (enumerate 0 (map (\<lambda>x. wordList ! unat x) xs));
        Some (case phrase of None \<Rightarrow> len + 1 | Some b \<Rightarrow> if len + 1 \<le> length b then len + 1 else 0, phrase)
      })"

section \<open>Decoding\<close>

definition word_at :: "byte list \<Rightarrow> byte list \<Rightarrow> bool" where
  "word_at w word \<longleftrightarrow> take (length w) word = w \<and> (case drop (length w) word of [] \<Rightarrow> True | c # _ \<Rightarrow> c = 32)"

definition find_word :: "byte list list \<Rightarrow> byte list \<Rightarrow> nat option" where
  "find_word wordList word = List.find (\<lambda>i. word_at (wordList ! i) word) [0..<BIP39_WORDLIST_COUNT]"

text \<open>\<open>strchr(word, ' ')\<close>, and one further: \<open>None\<close> is \<open>NULL\<close>.\<close>

definition next_word :: "byte list \<Rightarrow> byte list option" where
  "next_word word = (case dropWhile (\<lambda>c. c \<noteq> 32) word of [] \<Rightarrow> None | _ # rest \<Rightarrow> Some rest)"

text \<open>The loop over the words, of which \<open>n\<close> more fit into \<open>idx\<close>: the indices, and \<open>word\<close> after the loop.\<close>

fun read_words :: "nat \<Rightarrow> byte list list \<Rightarrow> byte list option \<Rightarrow> u32 list \<times> byte list option" where
  "read_words 0 wordList word = ([], word)"
| "read_words (Suc n) wordList word =
     (case word of
        None \<Rightarrow> ([], None)
      | Some w \<Rightarrow>
          if w = [] then ([], Some w)
          else case find_word wordList w of
              None \<Rightarrow> ([], Some w)
            | Some i \<Rightarrow> let (xs, rest) = read_words n wordList (next_word w) in (of_nat i # xs, rest))"

definition data_byte :: "u32 list \<Rightarrow> nat \<Rightarrow> byte" where
  "data_byte idx i =
     (let x = idx ! (i * 8 div 11); y = (if i * 8 div 11 + 1 < length idx then idx ! (i * 8 div 11 + 1) else 0)
      in ucast (drop_bit ((i * 8 div 11 + 2) * 11 - (i + 1) * 8) (x * of_nat BIP39_WORDLIST_COUNT + y) AND 0xff))"

definition BRBIP39Decode :: "byte list list \<Rightarrow> nat option \<Rightarrow> byte list \<Rightarrow> nat \<times> byte list" where
  "BRBIP39Decode wordList data phrase =
     (let (idx, word) = read_words 24 wordList (Some phrase); count = length idx;
          (r, bytes) =
            (if count mod 3 = 0 \<and> (word = None \<or> word = Some []) then
               let buf = map (data_byte idx) [0..<(count * 11 + 7) div 8];
                   b = (if buf = [] then 0 else last buf);
                   hsh = BRSHA256 (take (count * 4 div 3) buf)
               in if drop_bit (8 - count div 3) b = drop_bit (8 - count div 3) (hsh ! 0)
                  then (count * 4 div 3, take (count * 4 div 3) buf) else (0, [])
             else (0, []))
      in case data of
           None \<Rightarrow> (r, [])
         | Some dataLen \<Rightarrow> if r \<le> dataLen then (r, bytes) else (0, []))"

definition BRBIP39PhraseIsValid :: "byte list list \<Rightarrow> byte list \<Rightarrow> bool" where
  "BRBIP39PhraseIsValid wordList phrase \<longleftrightarrow> fst (BRBIP39Decode wordList None phrase) > 0"

definition mnemonic_salt :: "byte list" where
  "mnemonic_salt = [109, 110, 101, 109, 111, 110, 105, 99]"

definition BRBIP39DeriveKey :: "byte list \<Rightarrow> byte list option \<Rightarrow> byte list option" where
  "BRBIP39DeriveKey phrase passphrase =
     BRPBKDF2 64 BRSHA512 64 phrase (mnemonic_salt @ (case passphrase of None \<Rightarrow> [] | Some p \<Rightarrow> p)) 2048"

section \<open>Bits\<close>

definition sbit :: "byte list \<Rightarrow> nat \<Rightarrow> bool" where
  "sbit bs p = bit (bs ! (p div 8)) (7 - p mod 8)"

definition wbit :: "u32 list \<Rightarrow> nat \<Rightarrow> bool" where
  "wbit xs p = bit (xs ! (p div 11)) (10 - p mod 11)"

lemma sbit_at: "q < 8 \<Longrightarrow> sbit bs (8 * i + q) = bit (bs ! i) (7 - q)"
  by (simp add: sbit_def)

lemma wbit_at: "q < 11 \<Longrightarrow> wbit xs (11 * i + q) = bit (xs ! i) (10 - q)"
  by (simp add: wbit_def)

lemma byte_eqI: "(\<And>q. q < 8 \<Longrightarrow> bit a (7 - q) = bit b (7 - q)) \<Longrightarrow> a = (b :: byte)"
proof (rule bit_word_eqI)
  fix n
  assume h: "\<And>q. q < 8 \<Longrightarrow> bit a (7 - q) = bit b (7 - q)" and n: "n < LENGTH(8)"
  from h [of "7 - n"] n show "bit a n = bit b n" by simp
qed

lemma bit_mod_2048: "bit (x mod 2048 :: u32) n \<longleftrightarrow> n < 11 \<and> bit x n"
proof -
  have "x mod 2048 = take_bit 11 x" by (simp add: take_bit_eq_mod)
  then show ?thesis by (simp add: bit_take_bit_iff)
qed

lemma UInt32GetBE_bit:
  assumes "m < 32"
  shows "bit (UInt32GetBE b) (31 - m) = sbit b m"
proof -
  define j q where "j = m div 8" and "q = m mod 8"
  have m: "m = 8 * j + q" "q < 8" "j < 4" using assms by (auto simp: j_def q_def)
  then consider "j = 0" | "j = 1" | "j = 2" | "j = 3" by linarith
  then show ?thesis
    unfolding m(1) sbit_at [OF m(2)]
    by cases (use m(2) in \<open>auto simp: UInt32GetBE_def bit_simps bit_byte_high\<close>)
qed

lemma phrase_index_bits:
  assumes "phrase_index buf i = Some x"
  shows "x < 2048" "q < 11 \<Longrightarrow> bit x (10 - q) = sbit buf (11 * i + q)"
proof -
  obtain b where b: "mem_read buf (i * 11 div 8) 4 = Some b"
    and x: "x = drop_bit (32 - (11 + (i * 11) mod 8)) (UInt32GetBE b) mod 2048"
    using assms by (auto simp: phrase_index_def bind_eq_Some_conv BIP39_WORDLIST_COUNT_def)
  show "x < 2048" unfolding x by (rule word_mod_less_divisor) simp
  assume q: "q < 11"
  define o8 r where "o8 = i * 11 div 8" and "r = i * 11 mod 8"
  have r: "r < 8" "11 * i = 8 * o8 + r" by (auto simp: o8_def r_def)
  have bb: "b ! k = buf ! (o8 + k)" if "k < 4" for k
    using b that by (auto simp: mem_read_def o8_def split: if_splits)
  have "bit x (10 - q) = bit (UInt32GetBE b) (31 - (r + q))"
    unfolding x using q r(1) by (auto simp: bit_mod_2048 bit_drop_bit_eq r_def [symmetric])
  also have "\<dots> = sbit b (r + q)" using q r(1) by (intro UInt32GetBE_bit) simp
  also have "\<dots> = sbit buf (11 * i + q)"
  proof -
    have "(r + q) div 8 < 4" using q r(1) by simp
    then show ?thesis unfolding r(2) sbit_def by (simp add: bb add.assoc)
  qed
  finally show "bit x (10 - q) = sbit buf (11 * i + q)" .
qed

lemma data_byte_bits:
  assumes "\<forall>x \<in> set idx. x < 2048" "8 * i < 11 * length idx" "q < 8"
  shows "bit (data_byte idx i) (7 - q) \<longleftrightarrow> 8 * i + q < 11 * length idx \<and> wbit idx (8 * i + q)"
proof -
  define j where "j = i * 8 div 11"
  define x where "x = idx ! j"
  define y where "y = (if j + 1 < length idx then idx ! (j + 1) else 0)"
  have j: "11 * j \<le> 8 * i" "8 * i < 11 * j + 11" unfolding j_def by linarith+
  then have jl: "j < length idx" using assms(2) by linarith
  have low: "bit z n \<Longrightarrow> n < 11" if "z < 2048" for z :: u32 and n
  proof -
    have "z = take_bit 11 z" using that by (simp add: take_bit_eq_mod mod_word_less)
    then show "bit z n \<Longrightarrow> n < 11" by (metis bit_take_bit_iff)
  qed
  have "x < 2048" using assms(1) jl by (simp add: x_def)
  note bx = low [OF this]
  have "y < 2048" using assms(1) by (simp add: y_def)
  note yb = low [OF this]
  have "x * 2048 + y = push_bit 11 x + y" by (simp add: push_bit_eq_mult)
  also have "\<dots> = push_bit 11 x OR y"
    by (rule disjunctive_add_eq_or) (use yb in \<open>fastforce simp: bit_eq_iff bit_simps\<close>)
  finally have sum: "x * 2048 + y = push_bit 11 x OR y" .
  define M where "M = 11 * (j + 2) - 1 - (8 * i + q)"
  have M: "(j + 2) * 11 - (i + 1) * 8 + (7 - q) = M" "M < 22" using j assms(3) by (auto simp: M_def)
  have "bit (data_byte idx i) (7 - q) = bit (x * 2048 + y) M"
  proof -
    have "data_byte idx i = ucast (drop_bit ((j + 2) * 11 - (i + 1) * 8) (x * 2048 + y) AND 0xff)"
      by (simp add: data_byte_def Let_def j_def x_def y_def BIP39_WORDLIST_COUNT_def)
    moreover have "bit (ucast (drop_bit n z AND 0xff) :: byte) (7 - q) = bit z (n + (7 - q))" for n and z :: u32
    proof -
      have "v AND 0xff = take_bit 8 v" for v :: u32 by (simp add: take_bit_eq_mask mask_eq_exp_minus_1)
      then show ?thesis using assms(3) by (auto simp: bit_simps)
    qed
    ultimately show ?thesis using M(1) by simp
  qed
  also have "\<dots> \<longleftrightarrow> 11 \<le> M \<and> bit x (M - 11) \<or> bit y M"
    unfolding sum using M(2) by (auto simp: bit_simps)
  also have "\<dots> \<longleftrightarrow> 8 * i + q < 11 * length idx \<and> wbit idx (8 * i + q)"
  proof (cases "8 * i + q < 11 * (j + 1)")
    case True
    define s where "s = 8 * i + q - 11 * j"
    have s: "8 * i + q = 11 * j + s" "s < 11" using True j(1) by (auto simp: s_def)
    then have "M = 21 - s" by (simp add: M_def)
    then have "11 \<le> M" "M - 11 = 10 - s" using s(2) by auto
    moreover have "11 * j + s < 11 * length idx" using jl s(2) by linarith
    ultimately show ?thesis unfolding s(1) wbit_at [OF s(2)] using yb [of M] by (auto simp: x_def)
  next
    case False
    define s where "s = 8 * i + q - 11 * (j + 1)"
    have s: "8 * i + q = 11 * (j + 1) + s" "s < 11" using False j(2) assms(3) by (auto simp: s_def)
    then have "M = 10 - s" by (simp add: M_def)
    moreover have "11 * (j + 1) + s < 11 * length idx \<longleftrightarrow> j + 1 < length idx" using s(2) by presburger
    ultimately show ?thesis unfolding s(1) wbit_at [OF s(2)] by (auto simp: y_def)
  qed
  finally show ?thesis .
qed


section \<open>The phrase as a string\<close>

fun join :: "byte list list \<Rightarrow> byte list" where
  "join [] = []"
| "join [w] = w"
| "join (w # ws) = w @ 32 # join ws"

lemma join_snoc: "ws \<noteq> [] \<Longrightarrow> join (ws @ [w]) = join ws @ 32 # w"
  by (induction ws rule: join.induct) auto

lemma put_word_count:
  "foldl put_word (0, None) (enumerate 0 ws) = (length (join ws), None)"
proof (induction ws rule: rev_induct)
  case (snoc w ws)
  then show ?case by (cases "ws = []") (simp_all add: enumerate_append_eq put_word_def join_snoc)
qed simp

lemma put_word_text:
  assumes "length (join ws) < length b"
  shows "foldl put_word (0, Some b) (enumerate 0 ws) =
    (length (join ws), Some (if ws = [] then b else join ws @ replicate (length b - length (join ws)) 0))"
  using assms
proof (induction ws rule: rev_induct)
  case (snoc w ws)
  show ?case
  proof (cases "ws = []")
    case True
    then show ?thesis using snoc.prems by (cases "b = []") (auto simp: put_word_def)
  next
    case False
    have "foldl put_word (0, Some b) (enumerate 0 ws) =
        (length (join ws), Some (join ws @ replicate (length b - length (join ws)) 0))"
      using snoc False by (simp add: join_snoc)
    moreover have "length b - length (join ws) = Suc (length b - length (join ws) - 1)" using snoc.prems False by (simp add: join_snoc)
    ultimately show ?thesis using snoc.prems False
      by (auto simp: enumerate_append_eq put_word_def join_snoc list_update_append)
  qed
qed simp

text \<open>What the code relies on in a list of words.\<close>

definition wordlist_ok :: "byte list list \<Rightarrow> bool" where
  "wordlist_ok wl \<longleftrightarrow> length wl = BIP39_WORDLIST_COUNT \<and> distinct wl \<and> (\<forall>w \<in> set wl. w \<noteq> [] \<and> 32 \<notin> set w)"

lemma word_at_iff: "32 \<notin> set w \<Longrightarrow> word_at w s \<longleftrightarrow> takeWhile (\<lambda>c. c \<noteq> 32) s = w"
proof
  assume w: "32 \<notin> set w" and "word_at w s"
  then have s: "s = w @ drop (length w) s" "drop (length w) s = [] \<or> hd (drop (length w) s) = 32"
    by (auto simp: word_at_def split: list.splits) (metis append_take_drop_id)
  then show "takeWhile (\<lambda>c. c \<noteq> 32) s = w"
    using w by (metis (mono_tags, lifting) append.right_neutral hd_Cons_tl takeWhile.simps(2) takeWhile_append2 takeWhile_eq_all_conv)
next
  assume "takeWhile (\<lambda>c. c \<noteq> 32) s = w"
  then have s: "s = w @ dropWhile (\<lambda>c. c \<noteq> 32) s" by (metis takeWhile_dropWhile_id)
  moreover have "case dropWhile (\<lambda>c. c \<noteq> 32) s of [] \<Rightarrow> True | c # _ \<Rightarrow> c = 32"
    by (auto split: list.split dest: dropWhile_eq_Cons_conv [THEN iffD1])
  ultimately show "word_at w s" unfolding word_at_def by (metis append_eq_conv_conj)
qed

lemma find_upt: "List.find P [0..<n] = Some i \<longleftrightarrow> i < n \<and> P i \<and> (\<forall>j < i. \<not> P j)"
  by (auto simp: find_Some_iff)

lemma find_word_some:
  assumes "wordlist_ok wl"
  shows "find_word wl s = Some i \<longleftrightarrow> i < 2048 \<and> wl ! i = takeWhile (\<lambda>c. c \<noteq> 32) s"
proof -
  have wl: "length wl = 2048" "distinct wl" "\<And>i. i < 2048 \<Longrightarrow> 32 \<notin> set (wl ! i)"
    using assms by (auto simp: wordlist_ok_def BIP39_WORDLIST_COUNT_def)
  have at: "word_at (wl ! i) s \<longleftrightarrow> wl ! i = takeWhile (\<lambda>c. c \<noteq> 32) s" if "i < 2048" for i
    unfolding word_at_iff [OF wl(3) [OF that]] by (rule eq_commute)
  have inj: "wl ! j \<noteq> wl ! i" if "i < 2048" "j < i" for i j
    using wl(1,2) that by (simp add: nth_eq_iff_index_eq)
  have "find_word wl s = Some i \<longleftrightarrow> i < 2048 \<and> word_at (wl ! i) s \<and> (\<forall>j < i. \<not> word_at (wl ! j) s)"
    unfolding find_word_def BIP39_WORDLIST_COUNT_def by (rule find_upt)
  also have "\<dots> \<longleftrightarrow> i < 2048 \<and> wl ! i = takeWhile (\<lambda>c. c \<noteq> 32) s"
    using at inj less_trans by (metis (no_types, lifting))
  finally show ?thesis .
qed


lemma read_words_join:
  assumes "wordlist_ok wl" "\<forall>x \<in> set xs. x < 2048" "xs \<noteq> []" "length xs \<le> n"
  shows "read_words n wl (Some (join (map (\<lambda>x. wl ! unat x) xs))) = (xs, None)"
  using assms(2-)
proof (induction xs arbitrary: n)
  case (Cons x ys)
  obtain m where n: "n = Suc m" using Cons.prems by (cases n) auto
  let ?ws = "map (\<lambda>x. wl ! unat x)"
  define w where "w = wl ! unat x"
  define rest where "rest = (if ys = [] then [] else 32 # join (?ws ys))"
  have s: "join (?ws (x # ys)) = w @ rest" by (cases ys) (simp_all add: w_def rest_def)
  have x: "unat x < 2048" using Cons.prems(1) by (simp add: word_less_nat_alt)
  then have "w \<in> set wl" using assms(1) by (simp add: w_def wordlist_ok_def BIP39_WORDLIST_COUNT_def)
  then have w: "w \<noteq> []" "32 \<notin> set w" using assms(1) by (auto simp: wordlist_ok_def)
  then have t: "takeWhile (\<lambda>c. c \<noteq> 32) (w @ rest) = w" "dropWhile (\<lambda>c. c \<noteq> 32) (w @ rest) = rest"
    by (auto simp: rest_def takeWhile_append dropWhile_append)
  have f: "find_word wl (w @ rest) = Some (unat x)" using x t(1) by (simp add: find_word_some [OF assms(1)] w_def)
  have "next_word (w @ rest) = (if ys = [] then None else Some (join (?ws ys)))" by (simp add: next_word_def t(2)) (simp add: rest_def)
  moreover have "read_words m wl None = ([], None)" by (cases m) simp_all
  ultimately show ?case
    using Cons.IH [of m] Cons.prems w(1) unfolding s n by (cases "ys = []") (simp_all add: f)
qed simp

lemma read_words_text:
  assumes "wordlist_ok wl" "read_words n wl (Some s) = (xs, rest)"
  shows "length xs \<le> n" "\<forall>x \<in> set xs. x < 2048"
    "rest = None \<Longrightarrow> xs \<noteq> [] \<and> s = join (map (\<lambda>x. wl ! unat x) xs)"
    "rest = Some [] \<Longrightarrow> s = (if xs = [] then [] else join (map (\<lambda>x. wl ! unat x) xs) @ [32])"
proof -
  let ?ws = "map (\<lambda>x. wl ! unat x)"
  have "length xs \<le> n \<and> (\<forall>x \<in> set xs. x < 2048) \<and> (rest = None \<longrightarrow> xs \<noteq> [] \<and> s = join (?ws xs)) \<and>
    (rest = Some [] \<longrightarrow> s = (if xs = [] then [] else join (?ws xs) @ [32]))"
    using assms(2)
  proof (induction n arbitrary: s xs rest)
    case (Suc n)
    show ?case
    proof (cases "s = [] \<or> find_word wl s = None")
      case True
      then show ?thesis using Suc.prems by (auto split: if_splits)
    next
      case False
      then obtain i where i: "find_word wl s = Some i" by auto
      obtain ys r where r: "read_words n wl (next_word s) = (ys, r)" by (rule prod.exhaust)
      have xs: "xs = of_nat i # ys" "rest = r" using Suc.prems False i r by auto
      have iw: "i < 2048" "wl ! i = takeWhile (\<lambda>c. c \<noteq> 32) s" using i by (auto simp: find_word_some [OF assms(1)])
      have u: "unat (of_nat i :: u32) = i" using iw(1) by (simp add: unat_of_nat)
      then have x: "(of_nat i :: u32) < 2048" using iw(1) by (simp add: word_less_nat_alt)
      have s: "s = wl ! i @ dropWhile (\<lambda>c. c \<noteq> 32) s" unfolding iw(2) by simp
      show ?thesis
      proof (cases "dropWhile (\<lambda>c. c \<noteq> 32) s")
        case Nil
        have "next_word s = None" unfolding next_word_def Nil by simp
        then have "ys = []" "r = None" using r by (cases n; simp)+
        then show ?thesis using s Nil x u xs by simp
      next
        case (Cons c t)
        then have c: "c = 32" by (metis (mono_tags, lifting) dropWhile_eq_Cons_conv)
        have "read_words n wl (Some t) = (ys, r)" using r Cons by (simp add: next_word_def)
        from Suc.IH [OF this] have ih: "length ys \<le> n" "\<forall>x \<in> set ys. x < 2048" "r = None \<longrightarrow> ys \<noteq> [] \<and> t = join (?ws ys)"
          "r = Some [] \<longrightarrow> t = (if ys = [] then [] else join (?ws ys) @ [32])" by auto
        have s2: "s = wl ! i @ 32 # t" using s Cons c by simp
        have j: "join (?ws xs) = (if ys = [] then wl ! i else wl ! i @ 32 # join (?ws ys))"
          unfolding xs(1) by (cases ys) (simp_all add: u)
        show ?thesis using ih x s2 unfolding xs(2) j by (auto simp: xs(1))
      qed
    qed
  qed auto
  then show "length xs \<le> n" "\<forall>x \<in> set xs. x < 2048"
    "rest = None \<Longrightarrow> xs \<noteq> [] \<and> s = join (?ws xs)" "rest = Some [] \<Longrightarrow> s = (if xs = [] then [] else join (?ws xs) @ [32])"
    by auto
qed

section \<open>The bits of the words are the bits of the secret and its checksum\<close>

lemma phrase_indices_some:
  "phrase_indices buf is = Some xs \<longleftrightarrow>
     length xs = length is \<and> (\<forall>j < length is. phrase_index buf (is ! j) = Some (xs ! j))"
proof (induction "is" arbitrary: xs)
  case (Cons i "is")
  show ?case
    by (cases xs) (auto simp: bind_eq_Some_conv Cons All_less_Suc2)
qed auto

lemma word11_eqI:
  assumes "x < 2048" "y < 2048" "\<And>q. q < 11 \<Longrightarrow> bit x (10 - q) = bit y (10 - q)"
  shows "x = (y :: u32)"
proof (rule bit_word_eqI)
  fix n
  have "\<not> bit z n" if "z < 2048" "11 \<le> n" for z :: u32
  proof -
    have "z = take_bit 11 z" using that(1) by (simp add: take_bit_eq_mod mod_word_less)
    then show ?thesis using that(2) by (metis bit_take_bit_iff not_le)
  qed
  moreover have "bit x n = bit y n" if "n < 11" using assms(3) [of "10 - n"] that by simp
  ultimately show "bit x n = bit y n" using assms(1,2) by (cases "n < 11") auto
qed

lemma indices_iff:
  assumes "length xs = 3 * k" "\<forall>x \<in> set xs. x < 2048" "length buf = 4 * k + 32" "k \<le> 8"
  shows "phrase_indices buf [0..<3 * k] = Some xs \<longleftrightarrow> (\<forall>p < 33 * k. wbit xs p = sbit buf p)"
proof -
  have inb: "\<exists>x. phrase_index buf i = Some x" if "i < 3 * k" for i
    using that assms(3,4) by (simp add: phrase_index_def mem_read_def)
  have "phrase_index buf i = Some (xs ! i) \<longleftrightarrow> (\<forall>q < 11. wbit xs (11 * i + q) = sbit buf (11 * i + q))" if i: "i < 3 * k" for i
  proof -
    obtain x where x: "phrase_index buf i = Some x" using inb [OF i] by blast
    have "xs ! i < 2048" using assms(1,2) i by auto
    then have "x = xs ! i \<longleftrightarrow> (\<forall>q < 11. bit x (10 - q) = bit (xs ! i) (10 - q))"
      using word11_eqI [OF phrase_index_bits(1) [OF x]] by auto
    then show ?thesis using phrase_index_bits(2) [OF x] x by (auto simp: wbit_at)
  qed
  moreover have "(\<forall>p < 33 * k. P p) \<longleftrightarrow> (\<forall>i < 3 * k. \<forall>q < 11. P (11 * i + q))" for P :: "nat \<Rightarrow> bool"
  proof
    assume P: "\<forall>i < 3 * k. \<forall>q < 11. P (11 * i + q)"
    show "\<forall>p < 33 * k. P p"
    proof (intro allI impI)
      fix p assume "p < 33 * k"
      then have "p div 11 < 3 * k" "p mod 11 < 11" by auto
      then have "P (11 * (p div 11) + p mod 11)" using P by blast
      then show "P p" by simp
    qed
  qed auto
  ultimately show ?thesis using assms(1) by (simp add: phrase_indices_some)
qed


lemma decoded_iff:
  assumes "length xs = 3 * k" "\<forall>x \<in> set xs. x < 2048" "length data = 4 * k" "1 \<le> k" "k \<le> 8" "length hsh = 32"
  shows "(\<forall>p < 33 * k. wbit xs p = sbit (data @ hsh) p) \<longleftrightarrow>
    map (data_byte xs) [0..<4 * k] = data \<and> drop_bit (8 - k) (data_byte xs (4 * k)) = drop_bit (8 - k) (hsh ! 0)"
proof
  have db: "bit (data_byte xs i) (7 - q) \<longleftrightarrow> 8 * i + q < 33 * k \<and> wbit xs (8 * i + q)" if "8 * i < 33 * k" "q < 8" for i q
    using data_byte_bits [OF assms(2), of i q] that assms(1) by simp
  have sb: "sbit (data @ hsh) (8 * i + q) = bit (data ! i) (7 - q)" if "i < 4 * k" "q < 8" for i q
    using that assms(3) by (simp add: sbit_at nth_append)
  have hb: "sbit (data @ hsh) (8 * (4 * k) + q) = bit (hsh ! 0) (7 - q)" if "q < 8" for q
    unfolding sbit_at [OF that] using assms(3) by (simp add: nth_append)
  {
    assume B: "\<forall>p < 33 * k. wbit xs p = sbit (data @ hsh) p"
    have "data_byte xs i = data ! i" if "i < 4 * k" for i
    proof (rule byte_eqI)
      fix q :: nat
      assume q: "q < 8"
      have "8 * i + q < 33 * k" using that q by linarith
      then show "bit (data_byte xs i) (7 - q) = bit (data ! i) (7 - q)" using db [OF _ q, of i] sb [OF that q] B by auto
    qed
    then have "map (data_byte xs) [0..<4 * k] = data" using assms(3) by (intro nth_equalityI) auto
    moreover have "drop_bit (8 - k) (data_byte xs (4 * k)) = drop_bit (8 - k) (hsh ! 0)"
    proof (rule bit_word_eqI)
      fix n
      show "bit (drop_bit (8 - k) (data_byte xs (4 * k))) n = bit (drop_bit (8 - k) (hsh ! 0)) n"
      proof (cases "n < k")
        case True
        define q where "q = k - 1 - n"
        have q: "8 - k + n = 7 - q" "q < 8" "q < k" using True assms(5) by (auto simp: q_def)
        have "8 * (4 * k) + q < 33 * k" using q(3) by linarith
        then show ?thesis
          using db [of "4 * k" q] hb [OF q(2)] B q assms(4) unfolding bit_drop_bit_eq comp_def q(1) by auto
      next
        case False
        then show ?thesis using assms(5) by (simp add: bit_drop_bit_eq bit_byte_high)
      qed
    qed
    ultimately show "map (data_byte xs) [0..<4 * k] = data \<and>
      drop_bit (8 - k) (data_byte xs (4 * k)) = drop_bit (8 - k) (hsh ! 0)" by blast
  next
    assume C: "map (data_byte xs) [0..<4 * k] = data \<and> drop_bit (8 - k) (data_byte xs (4 * k)) = drop_bit (8 - k) (hsh ! 0)"
    show "\<forall>p < 33 * k. wbit xs p = sbit (data @ hsh) p"
    proof (intro allI impI)
      fix p
      assume p: "p < 33 * k"
      define i q where "i = p div 8" and "q = p mod 8"
      have pq: "p = 8 * i + q" "q < 8" by (auto simp: i_def q_def)
      have w: "wbit xs p = bit (data_byte xs i) (7 - q)" using db [of i q] pq p by simp
      show "wbit xs p = sbit (data @ hsh) p"
      proof (cases "i < 4 * k")
        case True
        then have "data ! i = data_byte xs i" using C by (metis add_0 nth_map_upt diff_zero)
        then show ?thesis using w sb [OF True pq(2)] pq(1) by simp
      next
        case False
        then have i: "i = 4 * k" "q < k" using p pq assms(5) by linarith+
        have "bit (drop_bit (8 - k) (data_byte xs (4 * k))) (k - 1 - q) = bit (drop_bit (8 - k) (hsh ! 0)) (k - 1 - q)"
          using C by simp
        moreover have "8 - k + (k - 1 - q) = 7 - q" using i(2) assms(5) by simp
        ultimately have "bit (data_byte xs (4 * k)) (7 - q) = bit (hsh ! 0) (7 - q)" by (simp add: bit_drop_bit_eq)
        then show ?thesis using w hb [OF pq(2)] pq(1) i(1) by simp
      qed
    qed
  }
qed

text \<open>The decoder accepts the indices that the encoder gives, and no others.\<close>

lemma checked_iff:
  assumes "length xs = 3 * k" "\<forall>x \<in> set xs. x < 2048" "1 \<le> k" "k \<le> 8" "length data = 4 * k"
  shows "phrase_indices (data @ BRSHA256 data) [0..<3 * k] = Some xs \<longleftrightarrow>
    map (data_byte xs) [0..<4 * k] = data \<and> drop_bit (8 - k) (data_byte xs (4 * k)) = drop_bit (8 - k) (BRSHA256 data ! 0)"
  using indices_iff [OF assms(1,2) _ assms(4), of "data @ BRSHA256 data"] decoded_iff [OF assms(1,2,5,3,4), of "BRSHA256 data"] assms(5)
  by simp

lemma decode_cases:
  assumes "read_words 24 wl (Some phrase) = (xs, rest)" "rest = None \<or> rest = Some []" "length xs = 3 * k" "1 \<le> k" "k \<le> 8"
  shows "BRBIP39Decode wl out phrase =
    (let data = map (data_byte xs) [0..<4 * k];
         ok = drop_bit (8 - k) (data_byte xs (4 * k)) = drop_bit (8 - k) (BRSHA256 data ! 0);
         (r, bytes) = (if ok then (4 * k, data) else (0, []))
     in case out of None \<Rightarrow> (r, []) | Some n \<Rightarrow> if r \<le> n then (r, bytes) else (0, []))"
proof -
  have "(length xs * 11 + 7) div 8 = 4 * k + 1" using assms(3-5) by simp
  moreover have "length xs * 4 div 3 = 4 * k" "length xs div 3 = k" "length xs mod 3 = 0" using assms(3) by simp_all
  ultimately show ?thesis
    using assms(1,2) unfolding BRBIP39Decode_def Let_def by (simp add: take_map)
qed


section \<open>Properties\<close>

text \<open>The phrase \<open>p\<close> is what the encoder writes for \<open>data\<close>: its length is counted without a buffer, and it is written into one that has room.\<close>

definition encodes_to :: "byte list list \<Rightarrow> byte list \<Rightarrow> byte list \<Rightarrow> bool" where
  "encodes_to wl data p \<longleftrightarrow> BRBIP39Encode wl None data = Some (length p + 1, None) \<and>
     (\<forall>b. length p < length b \<longrightarrow>
        BRBIP39Encode wl (Some b) data = Some (length p + 1, Some (p @ replicate (length b - length p) 0)))"

lemma encode_text:
  assumes "phrase_indices (data @ BRSHA256 data) [0..<3 * k] = Some xs" "length data = 4 * k" "1 \<le> k"
  shows "encodes_to wl data (join (map (\<lambda>x. wl ! unat x) xs))"
proof -
  have "length xs = 3 * k" using assms(1) by (simp add: phrase_indices_some)
  then have "map (\<lambda>x. wl ! unat x) xs \<noteq> []" using assms(3) by auto
  moreover have "length data * 3 div 4 = 3 * k" using assms(2) by simp
  ultimately show ?thesis
    using assms put_word_count [of "map (\<lambda>x. wl ! unat x) xs"] put_word_text [of "map (\<lambda>x. wl ! unat x) xs"]
    by (simp add: encodes_to_def BRBIP39Encode_def)
qed

lemma mnemonic_decodes:
  assumes "wordlist_ok wl" "length data = 4 * k" "1 \<le> k" "k \<le> 8" "length data \<le> n"
  shows "\<exists>p. encodes_to wl data p \<and> BRBIP39Decode wl (Some n) p = (length data, data) \<and> BRBIP39PhraseIsValid wl p"
proof -
  let ?buf = "data @ BRSHA256 data"
  have "\<exists>x. phrase_index ?buf i = Some x" if "i < 3 * k" for i
    using that assms(2,4) by (simp add: phrase_index_def mem_read_def)
  then obtain f where f: "\<And>i. i < 3 * k \<Longrightarrow> phrase_index ?buf i = Some (f i)" by metis
  define xs where "xs = map f [0..<3 * k]"
  have enc: "phrase_indices ?buf [0..<3 * k] = Some xs" using f by (simp add: phrase_indices_some xs_def)
  have small: "\<forall>x \<in> set xs. x < 2048" using phrase_index_bits(1) [OF f] by (auto simp: xs_def)
  have len: "length xs = 3 * k" by (simp add: xs_def)
  let ?p = "join (map (\<lambda>x. wl ! unat x) xs)"
  have "read_words 24 wl (Some ?p) = (xs, None)" using len assms(3,4) by (intro read_words_join [OF assms(1) small]) auto
  from decode_cases [OF this _ len assms(3,4)]
  have "BRBIP39Decode wl out ?p = (case out of None \<Rightarrow> (4 * k, []) | Some n \<Rightarrow> if 4 * k \<le> n then (4 * k, data) else (0, []))" for out
    using checked_iff [OF len small assms(3,4,2)] enc by (simp add: Let_def)
  then have "BRBIP39Decode wl (Some n) ?p = (length data, data)" "BRBIP39PhraseIsValid wl ?p"
    using assms(2,3,5) by (simp_all add: BRBIP39PhraseIsValid_def)
  then show ?thesis using encode_text [OF enc assms(2,3)] by blast
qed

text \<open>
  C14: a secret of 4 to 32 bytes, of whole 32 bit words, is encoded as a phrase that the decoder accepts and turns back into the
  same secret, for every list of 2048 different words without spaces.
\<close>

theorem mnemonic_roundtrip:
  assumes "wordlist_ok wl" "length data = 4 * k" "1 \<le> k" "k \<le> 8" "length data \<le> n"
  shows "\<exists>p. encodes_to wl data p \<and> BRBIP39Decode wl (Some n) p = (length data, data) \<and> BRBIP39PhraseIsValid wl p"
  by (rule mnemonic_decodes [OF assms])

text \<open>
  C15: the decoder accepts no other phrases. Whatever text it accepts, it is the phrase that the encoder writes for the decoded secret,
  word by word and up to one space at its end; so the words are all in the list, and the checksum is the one of the secret.
\<close>

theorem mnemonic_accepts_only_encoded:
  assumes "wordlist_ok wl" "BRBIP39Decode wl (Some n) s = (r, data)" "0 < r"
  shows "length data = r \<and> r mod 4 = 0 \<and> r \<le> 32 \<and> (\<exists>p. encodes_to wl data p \<and> (s = p \<or> s = p @ [32]))"
proof -
  obtain xs rest where rw: "read_words 24 wl (Some s) = (xs, rest)" by (rule prod.exhaust)
  note rd = read_words_text [OF assms(1) rw]
  have c: "length xs mod 3 = 0" "rest = None \<or> rest = Some []"
    using assms(2,3) unfolding BRBIP39Decode_def rw by (auto simp: Let_def split: if_splits)
  define k where "k = length xs div 3"
  have len: "length xs = 3 * k" using c(1) by (auto simp: k_def)
  have k0: "xs \<noteq> []"
  proof
    assume "xs = []"
    with c(2) rd(3) have "rest = Some []" by auto
    with \<open>xs = []\<close> show False using assms(2,3) unfolding BRBIP39Decode_def rw by (auto simp: Let_def split: if_splits)
  qed
  then have k: "1 \<le> k" "k \<le> 8" using len rd(1) by (cases k; simp)+
  let ?d = "map (data_byte xs) [0..<4 * k]"
  have d: "r = 4 * k" "data = ?d" "drop_bit (8 - k) (data_byte xs (4 * k)) = drop_bit (8 - k) (BRSHA256 ?d ! 0)"
    using assms(2,3) unfolding decode_cases [OF rw c(2) len k] Let_def by (auto split: if_splits)
  have "length data = 4 * k" by (simp add: d(2))
  moreover from checked_iff [OF len rd(2) k this] have "phrase_indices (data @ BRSHA256 data) [0..<3 * k] = Some xs"
    using d(2,3) by simp
  ultimately have "encodes_to wl data (join (map (\<lambda>x. wl ! unat x) xs))" using encode_text k(1) by blast
  moreover have "s = join (map (\<lambda>x. wl ! unat x) xs) \<or> s = join (map (\<lambda>x. wl ! unat x) xs) @ [32]"
    using c(2) rd(3,4) k0 by auto
  ultimately show ?thesis using d(1) \<open>length data = 4 * k\<close> k(2) by auto
qed

text \<open>A list of words of two letters for examples.\<close>

definition sample_words :: "byte list list" where
  "sample_words = map (\<lambda>i. [of_nat (i div 64 + 64), of_nat (i mod 64 + 64)]) [0..<2048]"

lemma sample_words_ok: "wordlist_ok sample_words"
proof -
  have u: "unat (of_nat (j + 64) :: byte) = j + 64" if "j < 64" for j
    using that by (simp add: unat_of_nat_byte del: of_nat_add)
  have "inj_on (\<lambda>i. [of_nat (i div 64 + 64) :: byte, of_nat (i mod 64 + 64)]) {0..<2048}"
  proof (rule inj_onI)
    fix x y :: nat
    assume xy: "x \<in> {0..<2048}" "y \<in> {0..<2048}"
      "[of_nat (x div 64 + 64) :: byte, of_nat (x mod 64 + 64)] = [of_nat (y div 64 + 64), of_nat (y mod 64 + 64)]"
    have "x div 64 < 64" "y div 64 < 64" using xy(1,2) by auto
    then have "x div 64 = y div 64" using u xy(3) by (metis add_right_cancel list.inject)
    moreover have "x mod 64 = y mod 64" using u [of "x mod 64"] u [of "y mod 64"] xy(3) by (metis add_right_cancel list.inject mod_less_divisor zero_less_numeral)
    ultimately show "x = y" by (metis div_mult_mod_eq)
  qed
  then have "distinct sample_words" by (simp add: sample_words_def distinct_map)
  moreover have "32 \<notin> set w" if "w \<in> set sample_words" for w
  proof -
    have "(of_nat (j + 64) :: byte) \<noteq> 32" if "j < 64" for j
    proof
      assume "(of_nat (j + 64) :: byte) = 32"
      then have "unat (of_nat (j + 64) :: byte) = unat (32 :: byte)" by (rule arg_cong)
      then show False using u [OF that] by (simp del: of_nat_add)
    qed
    then show ?thesis using that by (auto simp: sample_words_def)
  qed
  moreover have "w \<noteq> []" if "w \<in> set sample_words" for w using that by (auto simp: sample_words_def)
  ultimately show ?thesis by (auto simp: wordlist_ok_def sample_words_def BIP39_WORDLIST_COUNT_def)
qed

lemma mnemonic_roundtrip_witness:
  "\<exists>p. encodes_to sample_words (replicate 16 7) p \<and> BRBIP39Decode sample_words (Some 16) p = (16, replicate 16 7)"
  using mnemonic_roundtrip [OF sample_words_ok, of "replicate 16 7" 4 16] by auto


lemma mnemonic_accepts_only_encoded_witness:
  "\<exists>s p. BRBIP39Decode sample_words (Some 16) s = (16, replicate 16 7) \<and> encodes_to sample_words (replicate 16 7) p \<and>
     (s = p \<or> s = p @ [32])"
proof -
  obtain s where s: "BRBIP39Decode sample_words (Some 16) s = (16, replicate 16 7)"
    using mnemonic_decodes [OF sample_words_ok, of "replicate 16 7" 4 16] by auto
  show ?thesis using s mnemonic_accepts_only_encoded [OF sample_words_ok s] by auto
qed

end
