(* ===== verification/EthMath.thy ===== *)
theory EthMath
  imports IntBytes
begin

text \<open>
  The 256 bit arithmetic of ethereum/util/BRUtilMath.c: loops over the 32 bit parts of the unions with 64 bit sums and
  products. The parts are a list, least significant first. A result with an overflow or sign flag is a pair.

  The theorem: the loops compute the sum, difference, product and quotient of the numbers, and the flags are set exactly
  when the result does not fit.
\<close>

section \<open>The parts of a union\<close>

definition u32s :: "nat \<Rightarrow> 'a::len word \<Rightarrow> u32 list" where
  "u32s n x = map (u32_view x) [0..<n]"

primrec limbs_val :: "u32 list \<Rightarrow> nat" where
  "limbs_val [] = 0"
| "limbs_val (l # ls) = unat l + 2 ^ 32 * limbs_val ls"

definition of_u32s :: "u32 list \<Rightarrow> 'a::len word" where
  "of_u32s ls = of_nat (limbs_val ls)"

section \<open>Addition and subtraction\<close>

definition createUInt256 :: "u64 \<Rightarrow> UInt256" where
  "createUInt256 value = ucast value"

fun add_limbs :: "u32 list \<Rightarrow> u32 list \<Rightarrow> u64 \<Rightarrow> u32 list \<times> u64" where
  "add_limbs (x # xs) (y # ys) carry =
     (let total = ucast x + ucast y + carry; (zs, carry) = add_limbs xs ys (drop_bit 32 total) in (ucast total # zs, carry))"
| "add_limbs _ _ carry = ([], carry)"

definition addUInt256_Overflow :: "UInt256 \<Rightarrow> UInt256 \<Rightarrow> UInt256 \<times> bool" where
  "addUInt256_Overflow y x =
     (let (z, carry) = add_limbs (u32s 8 x) (u32s 8 y) 0 in (if carry \<noteq> 0 then 0 else of_u32s z, carry \<noteq> 0))"

definition addUInt256 :: "UInt256 \<Rightarrow> UInt256 \<Rightarrow> UInt512" where
  "addUInt256 x y = (let (z, carry) = add_limbs (u32s 8 x) (u32s 8 y) 0 in of_u32s (z @ [ucast carry]))"

fun sub_limbs :: "u32 list \<Rightarrow> u32 list \<Rightarrow> u64 \<Rightarrow> u32 list" where
  "sub_limbs (x # xs) (y # ys) borrow =
     (let (diff, borrow) =
        (if ucast x \<ge> (ucast y + borrow :: u64) then (ucast x - (ucast y + borrow), 0)
         else ((push_bit 32 1 + ucast x) - (ucast y + borrow), 1))
      in ucast diff # sub_limbs xs ys borrow)"
| "sub_limbs _ _ borrow = []"

definition subUInt256_x_gt_y :: "UInt256 \<Rightarrow> UInt256 \<Rightarrow> UInt256" where
  "subUInt256_x_gt_y x y = of_u32s (sub_limbs (u32s 8 x) (u32s 8 y) 0)"

definition eqUInt256 :: "UInt256 \<Rightarrow> UInt256 \<Rightarrow> bool" where
  "eqUInt256 x y = UInt256Eq x y"

definition gtUInt256 :: "UInt256 \<Rightarrow> UInt256 \<Rightarrow> bool" where
  "gtUInt256 x y \<longleftrightarrow>
     u64_view x 3 > u64_view y 3 \<or>
     (u64_view x 3 = u64_view y 3 \<and>
       (u64_view x 2 > u64_view y 2 \<or>
        (u64_view x 2 = u64_view y 2 \<and>
          (u64_view x 1 > u64_view y 1 \<or>
           (u64_view x 1 = u64_view y 1 \<and> u64_view x 0 > u64_view y 0)))))"

definition ltUInt256 :: "UInt256 \<Rightarrow> UInt256 \<Rightarrow> bool" where
  "ltUInt256 x y \<longleftrightarrow>
     u64_view x 3 < u64_view y 3 \<or>
     (u64_view x 3 = u64_view y 3 \<and>
       (u64_view x 2 < u64_view y 2 \<or>
        (u64_view x 2 = u64_view y 2 \<and>
          (u64_view x 1 < u64_view y 1 \<or>
           (u64_view x 1 = u64_view y 1 \<and> u64_view x 0 < u64_view y 0)))))"

definition geUInt256 :: "UInt256 \<Rightarrow> UInt256 \<Rightarrow> bool" where
  "geUInt256 x y \<longleftrightarrow> eqUInt256 x y \<or> gtUInt256 x y"

definition leUInt256 :: "UInt256 \<Rightarrow> UInt256 \<Rightarrow> bool" where
  "leUInt256 x y \<longleftrightarrow> eqUInt256 x y \<or> ltUInt256 x y"

definition compareUInt256 :: "UInt256 \<Rightarrow> UInt256 \<Rightarrow> int" where
  "compareUInt256 x y = (if eqUInt256 x y then 0 else if gtUInt256 x y then 1 else - 1)"

definition subUInt256_Negative :: "UInt256 \<Rightarrow> UInt256 \<Rightarrow> UInt256 \<times> bool" where
  "subUInt256_Negative x y =
     (if eqUInt256 x y then (0, False)
      else if gtUInt256 x y then (subUInt256_x_gt_y x y, False)
      else (subUInt256_x_gt_y y x, True))"

section \<open>Multiplication and division\<close>

text \<open>One row of the long multiplication: the inner loop over \<open>yi\<close>, and the carry into the next part; \<open>z\<close> starts at part \<open>xi\<close>.\<close>

fun mul_row :: "u32 \<Rightarrow> u32 list \<Rightarrow> u32 list \<Rightarrow> u64 \<Rightarrow> u32 list" where
  "mul_row x (y # ys) (z # zs) carry =
     (let total = ucast z + carry + ucast y * ucast x in ucast total # mul_row x ys zs (drop_bit 32 total))"
| "mul_row x [] (z # zs) carry = ucast (ucast z + carry) # zs"
| "mul_row x ys [] carry = []"

fun mul_rows :: "u32 list \<Rightarrow> u32 list \<Rightarrow> u32 list \<Rightarrow> u32 list" where
  "mul_rows (x # xs) ys z =
     (let z = (if x = 0 then z else mul_row x ys z 0) in hd z # mul_rows xs ys (tl z))"
| "mul_rows [] ys z = z"

definition mulUInt256 :: "UInt256 \<Rightarrow> UInt256 \<Rightarrow> UInt512" where
  "mulUInt256 x y = of_u32s (mul_rows (u32s 8 x) (u32s 8 y) (replicate 16 0))"

definition tooBigUInt256 :: "UInt512 \<Rightarrow> bool" where
  "tooBigUInt256 x \<longleftrightarrow> u64_view x 4 \<noteq> 0 \<or> u64_view x 5 \<noteq> 0 \<or> u64_view x 6 \<noteq> 0 \<or> u64_view x 7 \<noteq> 0"

definition coerceUInt256 :: "UInt512 \<Rightarrow> UInt256 \<times> bool" where
  "coerceUInt256 x = (if tooBigUInt256 x then (0, True) else (ucast x, False))"

definition mulUInt256_Overflow :: "UInt256 \<Rightarrow> UInt256 \<Rightarrow> UInt256 \<times> bool" where
  "mulUInt256_Overflow x y = coerceUInt256 (mulUInt256 x y)"

definition mulUInt256_Small :: "UInt256 \<Rightarrow> u32 \<Rightarrow> UInt256 \<times> bool" where
  "mulUInt256_Small x y = mulUInt256_Overflow x (createUInt256 (ucast y))"

text \<open>Division from the most significant part on: the quotient and the remainder.\<close>

fun div_limbs :: "u32 \<Rightarrow> u32 list \<Rightarrow> u32 list \<times> u64" where
  "div_limbs y [] = ([], 0)"
| "div_limbs y (x # xs) =
     (let (zs, remainder) = div_limbs y xs; v = ucast x + remainder * push_bit 32 1
      in (ucast (v div ucast y) # zs, v mod ucast y))"

definition divUInt256_Small :: "UInt256 \<Rightarrow> u32 \<Rightarrow> (UInt256 \<times> u32) option" where
  "divUInt256_Small x y =
     (if y = 0 then None else let (z, remainder) = div_limbs y (u32s 8 x) in Some (of_u32s z, ucast remainder))"

text \<open>\<open>value *= 10\<close>, \<open>digits\<close> times.\<close>

definition createUInt256Power :: "byte \<Rightarrow> UInt256 \<times> bool" where
  "createUInt256Power digits =
     (if digits < 20 then (createUInt256 (((\<lambda>v. v * 10) ^^ unat digits) 1), False) else (0, True))"

section \<open>The value of the parts\<close>

lemma u32s_Suc: "u32s (Suc n) (x :: 'a::len word) = ucast x # u32s n (drop_bit 32 x)"
  by (simp add: u32s_def u32_view_def upt_conv_Cons map_Suc_upt [symmetric] o_def drop_bit_drop_bit add.commute del: upt_Suc)

lemma length_u32s [simp]: "length (u32s n x) = n"
  by (simp add: u32s_def)

lemma unat_ucast_32: "unat (ucast (x :: 'a::len word) :: u32) = unat x mod 2 ^ 32"
  by (simp add: unsigned_ucast_eq take_bit_eq_mod)

lemma unat_drop_bit_32: "unat (drop_bit n (x :: 'a::len word)) = unat x div 2 ^ n"
  unfolding unat_drop_bit_eq by (rule drop_bit_eq_div)

lemma limbs_val_u32s: "limbs_val (u32s n x) = unat x mod 2 ^ (32 * n)"
proof (induction n arbitrary: x)
  case 0
  show ?case by (simp add: u32s_def)
next
  case (Suc n)
  show ?case
    unfolding u32s_Suc limbs_val.simps Suc.IH unat_ucast_32 unat_drop_bit_32
    using mod_mult2_eq [of "unat x" "2 ^ 32" "2 ^ (32 * n)"] by (simp add: power_add add.commute)
qed

lemma limbs_val_less: "limbs_val ls < 2 ^ (32 * length ls)"
proof (induction ls)
  case (Cons l ls)
  have "unat l + 2 ^ 32 * limbs_val ls < 2 ^ 32 * (limbs_val ls + 1)" using unsigned_less [of l] by simp
  also have "\<dots> \<le> 2 ^ 32 * 2 ^ (32 * length ls)" using Cons by (intro mult_le_mono2) simp
  finally show ?case by (simp add: power_add)
qed simp

lemma unat_of_u32s: "32 * length ls \<le> LENGTH('a::len) \<Longrightarrow> unat (of_u32s ls :: 'a word) = limbs_val ls"
proof -
  assume "32 * length ls \<le> LENGTH('a)"
  then have "(2 :: nat) ^ (32 * length ls) \<le> 2 ^ LENGTH('a)" by (rule power_increasing) simp
  then have "limbs_val ls < 2 ^ LENGTH('a)" using limbs_val_less [of ls] by (rule order.strict_trans2 [rotated])
  then show ?thesis unfolding of_u32s_def unat_of_nat by (rule mod_less)
qed

lemma u32_less: "unat (x :: u32) < 2 ^ 32"
  by (rule less_le_trans [OF unsigned_less]) simp

lemma u256_less: "unat (x :: UInt256) < 2 ^ 256"
  by (rule less_le_trans [OF unsigned_less]) simp

lemma limbs_val_256: "limbs_val (u32s 8 (x :: UInt256)) = unat x"
  using u256_less [of x] by (simp add: limbs_val_u32s)

lemma unat_ucast_64: "unat (ucast (x :: u32) :: u64) = unat x"
  by (simp add: unsigned_ucast_eq take_bit_nat_eq_self unsigned_less [THEN order.strict_trans2])

section \<open>The loops\<close>

lemma limbs_val_append: "limbs_val (xs @ ys) = limbs_val xs + 2 ^ (32 * length xs) * limbs_val ys"
  by (induction xs) (simp_all add: power_add algebra_simps)

lemma limbs_val_replicate: "limbs_val (replicate n 0) = 0"
  by (induction n) simp_all

lemma limbs_val_zeros: "limbs_val (xs @ 0 # replicate n 0) = limbs_val xs"
  by (simp add: limbs_val_append limbs_val_replicate)

lemma u64_sum: "unat (x :: u64) + unat y < 2 ^ 64 \<Longrightarrow> unat (x + y) = unat x + unat y"
  by (simp add: unat_word_ariths)

lemma add_limbs_val:
  assumes "length xs = length ys" "unat carry \<le> 1"
  shows "limbs_val (fst (add_limbs xs ys carry)) + 2 ^ (32 * length xs) * unat (snd (add_limbs xs ys carry)) =
      limbs_val xs + limbs_val ys + unat carry \<and>
    length (fst (add_limbs xs ys carry)) = length xs \<and> unat (snd (add_limbs xs ys carry)) \<le> 1"
  using assms
proof (induction xs ys carry rule: add_limbs.induct)
  case (1 x xs y ys carry)
  let ?t = "ucast x + ucast y + carry :: u64"
  have b: "unat x < 2 ^ 32" "unat y < 2 ^ 32" by (rule u32_less)+
  have t: "unat ?t = unat x + unat y + unat carry"
    using b 1(3) by (simp add: unat_word_ariths unat_ucast_64)
  have c: "unat (drop_bit 32 ?t) = (unat x + unat y + unat carry) div 2 ^ 32" by (simp only: unat_drop_bit_32 t)
  also have "\<dots> < 2" using b 1(3) by (intro div_less_iff_less_mult [THEN iffD2]) simp_all
  finally have c1: "unat (drop_bit 32 ?t) \<le> 1" by simp
  let ?r = "add_limbs xs ys (drop_bit 32 ?t)"
  have r: "limbs_val (fst ?r) + 2 ^ (32 * length xs) * unat (snd ?r) = limbs_val xs + limbs_val ys + unat (drop_bit 32 ?t)"
    "length (fst ?r) = length xs" "unat (snd ?r) \<le> 1"
    using 1(1) [OF refl _ c1] 1(2) by auto
  have s: "add_limbs (x # xs) (y # ys) carry = (ucast ?t # fst ?r, snd ?r)" by (simp add: Let_def split_beta)
  have d: "unat (ucast ?t :: u32) + 2 ^ 32 * unat (drop_bit 32 ?t) = unat x + unat y + unat carry"
    unfolding c unat_ucast_32 t by simp
  have "unat (ucast ?t :: u32) + 2 ^ 32 * (limbs_val (fst ?r) + 2 ^ (32 * length xs) * unat (snd ?r)) =
      unat x + unat y + unat carry + 2 ^ 32 * (limbs_val xs + limbs_val ys)"
    unfolding r(1) using d by (simp add: algebra_simps)
  then show ?case using r(2,3) unfolding s by (simp add: power_add algebra_simps)
qed auto

lemma sub_limbs_val:
  assumes "length xs = length ys" "unat borrow \<le> 1" "limbs_val ys + unat borrow \<le> limbs_val xs"
  shows "limbs_val (sub_limbs xs ys borrow) + (limbs_val ys + unat borrow) = limbs_val xs \<and>
    length (sub_limbs xs ys borrow) = length xs"
  using assms
proof (induction xs ys borrow rule: sub_limbs.induct)
  case (1 x xs y ys borrow)
  let ?s = "ucast y + borrow :: u64"
  define b :: u64 where "b = (if ucast x \<ge> ?s then 0 else 1)"
  define d where "d = (if ucast x \<ge> ?s then ucast x - ?s else (push_bit 32 1 + ucast x) - ?s)"
  have lt: "unat x < 2 ^ 32" "unat y < 2 ^ 32" by (rule u32_less)+
  have s: "unat ?s = unat y + unat borrow" using lt 1(3) by (simp add: unat_word_ariths unat_ucast_64)
  have p: "unat (push_bit 32 1 + ucast x :: u64) = 2 ^ 32 + unat x" using lt by (simp add: unat_word_ariths unat_ucast_64)
  have d: "unat d + (unat y + unat borrow) = unat x + 2 ^ 32 * unat b" "unat d < 2 ^ 32"
  proof -
    have "unat d + (unat y + unat borrow) = unat x + 2 ^ 32 * unat b \<and> unat d < 2 ^ 32"
    proof (cases "ucast x \<ge> ?s")
      case True
      then have "unat ?s \<le> unat x" by (simp add: word_le_nat_alt unat_ucast_64)
      then show ?thesis using True lt s unat_sub [OF True] by (simp add: d_def b_def unat_ucast_64)
    next
      case False
      then have f: "unat x < unat ?s" by (simp add: word_le_nat_alt unat_ucast_64)
      have le: "?s \<le> push_bit 32 1 + ucast x" using lt 1(3) unfolding word_le_nat_alt p s by simp
      have "unat d = 2 ^ 32 + unat x - (unat y + unat borrow)" using False unat_sub [OF le] unfolding d_def p s by simp
      then show ?thesis using f lt 1(3) unfolding s by (simp add: b_def False)
    qed
    then show "unat d + (unat y + unat borrow) = unat x + 2 ^ 32 * unat b" "unat d < 2 ^ 32" by auto
  qed
  have b1: "unat b \<le> 1" by (simp add: b_def)
  have e: "sub_limbs (x # xs) (y # ys) borrow = ucast d # sub_limbs xs ys b" by (simp add: d_def b_def Let_def)
  have u: "unat (ucast d :: u32) = unat d" using d(2) by (simp add: unat_ucast_32)
  have "2 ^ 32 * (limbs_val ys + unat b) < 2 ^ 32 * (limbs_val xs + 1)" using 1(4) d by simp
  then have le: "limbs_val ys + unat b \<le> limbs_val xs" by simp
  have db: "(d, b) = (if ucast x \<ge> ?s then (ucast x - ?s, 0) else ((push_bit 32 1 + ucast x) - ?s, 1))"
    by (simp add: d_def b_def)
  have len: "length xs = length ys" using 1(2) by simp
  have "limbs_val (sub_limbs xs ys b) + (limbs_val ys + unat b) = limbs_val xs" "length (sub_limbs xs ys b) = length xs"
    using 1(1) [OF refl db len b1 le] by auto
  then show ?case using d(1) unfolding e limbs_val.simps u by simp
qed auto

lemma mul_row_val:
  assumes "length zs = length ys" "unat carry < 2 ^ 32"
  shows "\<exists>r. mul_row x ys (zs @ 0 # rest) carry = r @ rest \<and> length r = length zs + 1 \<and>
    limbs_val r = limbs_val zs + unat carry + unat x * limbs_val ys"
  using assms
proof (induction ys arbitrary: zs carry)
  case Nil
  have "unat (ucast carry :: u32) = unat carry" using Nil.prems(2) by (simp add: unat_ucast_32)
  then show ?case using Nil.prems(1) by (intro exI [of _ "[ucast carry]"]) simp
next
  case (Cons y ys)
  obtain z zs' where zs: "zs = z # zs'" using Cons.prems(1) by (cases zs) auto
  let ?t = "ucast z + carry + ucast y * ucast x :: u64"
  have lt: "unat x \<le> 2 ^ 32 - 1" "unat y \<le> 2 ^ 32 - 1" "unat z \<le> 2 ^ 32 - 1"
    using u32_less [of x] u32_less [of y] u32_less [of z] by simp_all
  have m: "unat y * unat x \<le> (2 ^ 32 - 1) * (2 ^ 32 - 1)" by (rule mult_le_mono [OF lt(2,1)])
  have p: "unat (ucast y * ucast x :: u64) = unat y * unat x" using m by (simp add: unat_word_ariths unat_ucast_64)
  have t: "unat ?t = unat z + unat carry + unat y * unat x"
    using m lt(3) Cons.prems(2) by (subst unat_word_ariths) (simp add: unat_word_ariths unat_ucast_64 p)
  have c: "unat (drop_bit 32 ?t) = (unat z + unat carry + unat y * unat x) div 2 ^ 32" by (simp only: unat_drop_bit_32 t)
  have c32: "unat (drop_bit 32 ?t) < 2 ^ 32"
    unfolding c using m lt(3) Cons.prems(2) by (intro div_less_iff_less_mult [THEN iffD2]) simp_all
  note IH = Cons.IH [OF _ c32, of zs']
  have d: "unat (ucast ?t :: u32) + 2 ^ 32 * unat (drop_bit 32 ?t) = unat z + unat carry + unat y * unat x"
    unfolding c unat_ucast_32 t by simp
  have s: "mul_row x (y # ys) (zs @ 0 # rest) carry = ucast ?t # mul_row x ys (zs' @ 0 # rest) (drop_bit 32 ?t)"
    by (simp add: zs Let_def)
  define v c where "v = unat (ucast ?t :: u32)" and "c = unat (drop_bit 32 ?t)"
  obtain r where r: "mul_row x ys (zs' @ 0 # rest) (drop_bit 32 ?t) = r @ rest" "length r = length zs' + 1"
    "limbs_val r = limbs_val zs' + c + unat x * limbs_val ys"
    using IH Cons.prems(1) by (auto simp: zs c_def)
  have "v + 2 ^ 32 * limbs_val r =
      unat z + unat carry + unat y * unat x + 2 ^ 32 * (limbs_val zs' + unat x * limbs_val ys)"
    using d unfolding r(3) by (simp add: v_def c_def)
  then show ?case unfolding s r(1) v_def
    by (intro exI [of _ "ucast ?t # r"]) (simp add: zs r(2) distrib_left mult.commute)
qed

text \<open>All rows: what is left of \<open>z\<close> behind the parts of \<open>y\<close> is still 0 when a row starts.\<close>

lemma mul_rows_val:
  assumes "length zs = length ys"
  shows "limbs_val (mul_rows xs ys (zs @ replicate (length xs) 0)) = limbs_val zs + limbs_val xs * limbs_val ys \<and>
    length (mul_rows xs ys (zs @ replicate (length xs) 0)) = length zs + length xs"
  using assms
proof (induction xs arbitrary: zs)
  case Nil
  then show ?case by simp
next
  case (Cons x xs)
  let ?z = "if x = 0 then zs @ 0 # replicate (length xs) 0 else mul_row x ys (zs @ 0 # replicate (length xs) 0) 0"
  have "\<exists>r. ?z = r @ replicate (length xs) 0 \<and> length r = length zs + 1 \<and> limbs_val r = limbs_val zs + unat x * limbs_val ys"
    using mul_row_val [OF Cons.prems, of 0 x "replicate (length xs) 0"]
    by (cases "x = 0") (auto intro: exI [of _ "zs @ [0]"] simp: limbs_val_append)
  then obtain l r where r: "?z = (l # r) @ replicate (length xs) 0" "length r = length ys"
    "unat l + 2 ^ 32 * limbs_val r = limbs_val zs + unat x * limbs_val ys"
    using Cons.prems by (auto simp: length_Suc_conv)
  have s: "mul_rows (x # xs) ys (zs @ replicate (length (x # xs)) 0) = l # mul_rows xs ys (r @ replicate (length xs) 0)"
    using r(1) by (simp add: Let_def)
  have "unat l + 2 ^ 32 * (limbs_val r + limbs_val xs * limbs_val ys) =
      limbs_val zs + (unat x + 2 ^ 32 * limbs_val xs) * limbs_val ys"
    using r(3) by (simp add: algebra_simps)
  then show ?case using Cons.IH [OF r(2)] r(2) Cons.prems unfolding s by simp
qed

lemma div_limbs_val:
  assumes "y \<noteq> 0"
  shows "limbs_val (fst (div_limbs y xs)) = limbs_val xs div unat y \<and>
    unat (snd (div_limbs y xs)) = limbs_val xs mod unat y \<and> length (fst (div_limbs y xs)) = length xs"
proof (induction xs)
  case Nil
  show ?case by simp
next
  case (Cons x xs)
  define r where "r = snd (div_limbs y xs)"
  define v :: u64 where "v = ucast x + r * push_bit 32 1"
  have y: "0 < unat y" "unat y \<le> 2 ^ 32 - 1" using assms u32_less [of y] by (simp_all add: unat_gt_0)
  have r: "unat r < unat y" using Cons y(1) by (simp add: r_def)
  have rx: "2 ^ 32 * unat r + unat x < 2 ^ 32 * unat y"
  proof -
    have "2 ^ 32 * unat r + unat x < 2 ^ 32 * (unat r + 1)" using u32_less [of x] by simp
    also have "\<dots> \<le> 2 ^ 32 * unat y" using r by (intro mult_le_mono2) simp
    finally show ?thesis .
  qed
  have "2 ^ 32 * unat r + unat x < 2 ^ 64" using rx y(2) by simp
  then have v: "unat v = unat x + 2 ^ 32 * unat r"
    unfolding v_def by (simp add: unat_word_ariths unat_ucast_64 mult.commute)
  have q: "unat (v div ucast y) = unat v div unat y" "unat (v mod ucast y) = unat v mod unat y"
    by (simp_all add: unat_div_distrib unat_mod_distrib unat_ucast_64)
  have "unat v div unat y < 2 ^ 32" using rx y(1) unfolding v by (intro div_less_iff_less_mult [THEN iffD2]) simp_all
  then have u: "unat (ucast (v div ucast y) :: u32) = unat v div unat y" by (simp add: unat_ucast_32 q)
  define n where "n = limbs_val xs"
  have n: "n = unat y * (n div unat y) + unat r" using Cons by (simp add: r_def n_def)
  have "unat x + 2 ^ 32 * n = unat v + 2 ^ 32 * (n div unat y) * unat y"
    by (subst n) (simp add: v algebra_simps)
  then have dm: "(unat x + 2 ^ 32 * n) div unat y = 2 ^ 32 * (n div unat y) + unat v div unat y"
    "(unat x + 2 ^ 32 * n) mod unat y = unat v mod unat y"
    using y(1) by simp_all
  have s: "div_limbs y (x # xs) = (ucast (v div ucast y) # fst (div_limbs y xs), v mod ucast y)"
    by (simp add: v_def r_def Let_def split_beta)
  show ?case using Cons dm unfolding s by (simp add: u q n_def)
qed

section \<open>Comparison\<close>

lemma u64_view_0: "unat (x :: 'a::len word) = unat (u64_view x 0) + 2 ^ 64 * unat (drop_bit 64 x)"
  unfolding unat_drop_bit_32 by (simp add: u64_view_def unsigned_ucast_eq take_bit_eq_mod)

lemma u64_view_Suc: "u64_view x (Suc n) = u64_view (drop_bit 64 x) n"
  by (simp add: u64_view_def drop_bit_drop_bit add.commute)

lemma mixed_less:
  fixes a :: nat
  assumes "a < B" "b < B"
  shows "a + B * m < b + B * n \<longleftrightarrow> m < n \<or> m = n \<and> a < b"
proof (cases m n rule: linorder_cases)
  case less
  then have "B * (m + 1) \<le> B * n" by (intro mult_le_mono2) simp
  then show ?thesis using assms less by simp
next
  case greater
  then have "B * (n + 1) \<le> B * m" by (intro mult_le_mono2) simp
  then show ?thesis using assms greater by simp
qed simp

lemma u64_view_less:
  "x < (y :: 'a::len word) \<longleftrightarrow>
    drop_bit 64 x < drop_bit 64 y \<or> drop_bit 64 x = drop_bit 64 y \<and> u64_view x 0 < u64_view y 0"
proof -
  have b: "unat (u :: u64) < 2 ^ 64" for u by (rule less_le_trans [OF unsigned_less]) simp
  show ?thesis
    unfolding word_less_nat_alt word_unat_eq_iff
    by (subst (1 2) u64_view_0) (rule mixed_less [OF b b])
qed

lemma drop_bit_256: "drop_bit 64 (drop_bit 64 (drop_bit 64 (drop_bit 64 (x :: UInt256)))) = 0"
proof -
  have "drop_bit 256 x = 0" using u256_less [of x] by (simp add: word_unat_eq_iff unat_drop_bit_32)
  then show ?thesis by (simp add: drop_bit_drop_bit)
qed

lemma drop_bit_eq_parts: "x = (y :: 'a::len word) \<longleftrightarrow> drop_bit 64 x = drop_bit 64 y \<and> u64_view x 0 = u64_view y 0"
  by (metis u64_view_0 word_unat_eq_iff)

lemma ltUInt256_iff: "ltUInt256 x y \<longleftrightarrow> x < y"
proof -
  let ?d = "drop_bit 64 :: UInt256 \<Rightarrow> UInt256"
  have v: "u64_view x 1 = u64_view (?d x) 0" "u64_view x 2 = u64_view (?d (?d x)) 0"
    "u64_view x 3 = u64_view (?d (?d (?d x))) 0" for x :: UInt256
    by (simp_all add: u64_view_Suc numeral_2_eq_2 numeral_3_eq_3 del: drop_bit_drop_bit)
  have l: "?d (?d (?d x)) < ?d (?d (?d y)) \<longleftrightarrow> u64_view x 3 < u64_view y 3"
    unfolding u64_view_less [of "?d (?d (?d x))"] v drop_bit_256 by simp
  have e: "?d (?d (?d x)) = ?d (?d (?d y)) \<longleftrightarrow> u64_view x 3 = u64_view y 3"
    unfolding drop_bit_eq_parts [of "?d (?d (?d x))"] v drop_bit_256 by simp
  have e2: "?d (?d x) = ?d (?d y) \<longleftrightarrow> u64_view x 3 = u64_view y 3 \<and> u64_view x 2 = u64_view y 2"
    unfolding drop_bit_eq_parts [of "?d (?d x)"] e v(2) by blast
  have e1: "?d x = ?d y \<longleftrightarrow> u64_view x 3 = u64_view y 3 \<and> u64_view x 2 = u64_view y 2 \<and> u64_view x 1 = u64_view y 1"
    unfolding drop_bit_eq_parts [of "?d x"] e2 v(1) by blast
  show ?thesis
    unfolding u64_view_less [of x] u64_view_less [of "?d x"] u64_view_less [of "?d (?d x)"] l e e2 e1 ltUInt256_def
    unfolding v(2) [symmetric] unfolding v(1) [symmetric]
    by blast
qed

lemma gtUInt256_iff: "gtUInt256 x y \<longleftrightarrow> y < x"
  unfolding ltUInt256_iff [symmetric] gtUInt256_def ltUInt256_def by (simp only: eq_commute [of "u64_view x _"])

lemma eqUInt256_iff: "eqUInt256 x y \<longleftrightarrow> x = y"
  by (simp add: eqUInt256_def)

lemma eth_compare: "ltUInt256 x y = (x < y)" "leUInt256 x y = (x \<le> y)" "gtUInt256 x y = (y < x)" "geUInt256 x y = (y \<le> x)"
    "compareUInt256 x y = (if x = y then 0 else if y < x then 1 else - 1)"
  by (auto simp: leUInt256_def geUInt256_def compareUInt256_def ltUInt256_iff gtUInt256_iff eqUInt256_iff)

section \<open>The operations\<close>

lemma word_eq_of_unat: "unat (x :: 'a::len word) = n \<Longrightarrow> x = of_nat n"
  by (metis of_nat_unat ucast_id)

lemma addUInt256_Overflow_eq:
  "addUInt256_Overflow y x = (if unat x + unat y < 2 ^ 256 then (x + y, False) else (0, True))"
proof -
  obtain z c where zc: "add_limbs (u32s 8 x) (u32s 8 y) 0 = (z, c)" by fastforce
  have r: "limbs_val z + 2 ^ 256 * unat c = unat x + unat y" "length z = 8" "unat c \<le> 1"
    using add_limbs_val [of "u32s 8 x" "u32s 8 y" 0] by (simp_all add: zc limbs_val_256)
  have z: "limbs_val z < 2 ^ 256" using limbs_val_less [of z] r(2) by simp
  show ?thesis
  proof (cases "c = 0")
    case True
    then have "unat (of_u32s z :: UInt256) = unat x + unat y" using r z by (simp add: unat_of_u32s)
    then have "of_u32s z = (x + y)" using word_eq_of_unat [of "of_u32s z :: UInt256" "unat x + unat y"] by simp
    then show ?thesis using True r z by (simp add: addUInt256_Overflow_def zc)
  next
    case False
    then have "unat c = 1" using r(3) by (simp add: unat_eq_zero le_Suc_eq)
    then show ?thesis using False r(1) by (simp add: addUInt256_Overflow_def zc)
  qed
qed

lemma addUInt256_val: "unat (addUInt256 x y) = unat x + unat y"
proof -
  obtain z c where zc: "add_limbs (u32s 8 x) (u32s 8 y) 0 = (z, c)" by fastforce
  have r: "limbs_val z + 2 ^ 256 * unat c = unat x + unat y" "length z = 8" "unat c \<le> 1"
    using add_limbs_val [of "u32s 8 x" "u32s 8 y" 0] by (simp_all add: zc limbs_val_256)
  have "unat (ucast c :: u32) = unat c" using r(3) by (simp add: unat_ucast_32)
  then show ?thesis using r by (simp add: addUInt256_def zc unat_of_u32s limbs_val_append)
qed

lemma subUInt256_x_gt_y_eq: "y \<le> x \<Longrightarrow> subUInt256_x_gt_y x y = x - y"
proof -
  assume le: "y \<le> x"
  have r: "limbs_val (sub_limbs (u32s 8 x) (u32s 8 y) 0) + unat y = unat x" "length (sub_limbs (u32s 8 x) (u32s 8 y) 0) = 8"
    using sub_limbs_val [of "u32s 8 x" "u32s 8 y" 0] le by (simp_all add: limbs_val_256 word_le_nat_alt)
  have "unat (subUInt256_x_gt_y x y) + unat y = unat x" using r by (simp add: subUInt256_x_gt_y_def unat_of_u32s)
  then show ?thesis using unat_sub [OF le] by (simp add: word_unat_eq_iff)
qed

lemma subUInt256_Negative_eq: "subUInt256_Negative x y = (if y \<le> x then (x - y, False) else (y - x, True))"
  by (auto simp: subUInt256_Negative_def gtUInt256_iff eqUInt256_iff subUInt256_x_gt_y_eq not_less not_le)

lemma mulUInt256_val: "unat (mulUInt256 x y) = unat x * unat y"
proof -
  have s: "replicate 16 0 = replicate 8 0 @ replicate 8 (0 :: u32)" by (simp flip: replicate_add)
  show ?thesis
    using mul_rows_val [of "replicate 8 0" "u32s 8 y" "u32s 8 x"]
    unfolding mulUInt256_def s by (simp add: unat_of_u32s limbs_val_256 limbs_val_replicate del: replicate.simps)
qed

lemma coerceUInt256_eq: "coerceUInt256 x = (if unat x < 2 ^ 256 then (of_nat (unat x), False) else (0, True))"
proof -
  let ?d = "drop_bit 256 x"
  have v: "u64_view x 4 = u64_view ?d 0" "u64_view x 5 = u64_view ?d 1" "u64_view x 6 = u64_view ?d 2"
    "u64_view x 7 = u64_view ?d 3"
    by (simp_all add: u64_view_def drop_bit_drop_bit)
  have "unat x < 2 ^ 512" by (rule less_le_trans [OF unsigned_less]) simp
  then have "drop_bit (512 + n) x = 0" for n
    by (simp add: word_unat_eq_iff unat_drop_bit_32 power_add)
  from this [of 0] this [of 64] this [of 128] this [of 192]
  have z: "u64_view ?d 4 = 0" "u64_view ?d 5 = 0" "u64_view ?d 6 = 0" "u64_view ?d 7 = 0"
    by (simp_all add: u64_view_def drop_bit_drop_bit)
  have "UInt512Eq ?d 0 \<longleftrightarrow> ?d = 0" by simp
  then have "tooBigUInt256 x \<longleftrightarrow> ?d \<noteq> 0"
    unfolding UInt512Eq_def tooBigUInt256_def v z view_zero by blast
  also have "\<dots> \<longleftrightarrow> \<not> unat x < 2 ^ 256"
    by (simp add: word_unat_eq_iff unat_drop_bit_32 div_eq_0_iff not_less)
  finally show ?thesis by (simp add: coerceUInt256_def)
qed

lemma mulUInt256_Overflow_eq:
  "mulUInt256_Overflow x y = (if unat x * unat y < 2 ^ 256 then (x * y, False) else (0, True))"
  by (simp add: mulUInt256_Overflow_def coerceUInt256_eq mulUInt256_val)

lemma divUInt256_Small_eq:
  "divUInt256_Small x y = (if y = 0 then None else Some (of_nat (unat x div unat y), of_nat (unat x mod unat y)))"
proof (cases "y = 0")
  case False
  obtain z r where zr: "div_limbs y (u32s 8 x) = (z, r)" by fastforce
  have v: "limbs_val z = unat x div unat y" "unat r = unat x mod unat y" "length z = 8"
    using div_limbs_val [OF False, of "u32s 8 x"] by (simp_all add: zr limbs_val_256)
  have "ucast r = (of_nat (unat r) :: u32)" by simp
  then show ?thesis using False v by (simp add: divUInt256_Small_def zr of_u32s_def)
qed (simp add: divUInt256_Small_def)

lemma createUInt256_val: "unat (createUInt256 v) = unat v"
  by (simp add: createUInt256_def unsigned_ucast_eq take_bit_nat_eq_self unsigned_less [THEN order.strict_trans2])

lemma createUInt256Power_eq:
  "createUInt256Power digits = (if digits < 20 then (of_nat (10 ^ unat digits), False) else (0, True))"
proof -
  have p: "((\<lambda>v :: u64. v * 10) ^^ n) 1 = of_nat (10 ^ n)" for n by (induction n) simp_all
  have "unat (createUInt256 (of_nat (10 ^ unat digits))) = 10 ^ unat digits" if "digits < 20"
  proof -
    have "unat digits \<le> 19" using that by (simp add: word_less_nat_alt)
    then have "(10 :: nat) ^ unat digits \<le> 10 ^ 19" by (rule power_increasing) simp
    then show ?thesis unfolding createUInt256_val unat_of_nat by (intro mod_less) simp
  qed
  then have "createUInt256 (of_nat (10 ^ unat digits)) = of_nat (10 ^ unat digits)" if "digits < 20"
    using that by (intro word_eq_of_unat)
  then show ?thesis unfolding createUInt256Power_def p by simp
qed

text \<open>C22: the 256 bit arithmetic of the Ethereum code is the arithmetic of the natural numbers: sum, difference, product,
  quotient and remainder are exact, the sign and overflow flags are set exactly when the result does not fit (and the
  value is then 0), and the word by word comparisons order the numbers.\<close>

theorem eth_arithmetic:
  "addUInt256_Overflow x y = (if unat x + unat y < 2 ^ 256 then (x + y, False) else (0, True)) \<and>
   subUInt256_Negative x y = (if y \<le> x then (x - y, False) else (y - x, True)) \<and>
   mulUInt256_Overflow x y = (if unat x * unat y < 2 ^ 256 then (x * y, False) else (0, True)) \<and>
   divUInt256_Small x w = (if w = 0 then None else Some (of_nat (unat x div unat w), of_nat (unat x mod unat w))) \<and>
   unat (addUInt256 x y) = unat x + unat y \<and>
   unat (mulUInt256 x y) = unat x * unat y \<and>
   compareUInt256 x y = (if x = y then 0 else if y < x then 1 else - 1)"
  using addUInt256_Overflow_eq [of x y] subUInt256_Negative_eq [of x y] mulUInt256_Overflow_eq [of x y]
    divUInt256_Small_eq [of x w] addUInt256_val [of x y] mulUInt256_val [of x y] eth_compare(5) [of x y]
  by (simp add: add.commute)

theorem eth_arithmetic_witness:
  "subUInt256_Negative (2 ^ 64) 1 = (2 ^ 64 - 1, False) \<and> divUInt256_Small 1000 7 = Some (142, 6)"
  using eth_arithmetic [of "2 ^ 64" 1 1] eth_arithmetic [of 1000 0 7] by (simp add: word_le_nat_alt)

end
