(* ===== verification/EthParse.thy ===== *)
theory EthParse
  imports EthMath Radix "HOL-Library.Monad_Syntax"
begin

text \<open>
  Numbers as text: ethereum/util/BRUtilMathParse.c and ethereum/util/BRUtilHex.c. A C string is the list of its characters
  without the final NUL, a base is a \<open>nat\<close>. \<open>None\<close> is a failed assertion or an access outside of a buffer.

  The theorems: a string of digits is read as its value, with an overflow reported exactly when it does not fit, and what is
  printed, in a base or as a decimal fraction, is read back.
\<close>

section \<open>Hexadecimal strings\<close>

definition decodeHex :: "nat \<Rightarrow> byte list \<Rightarrow> byte list option" where
  "decodeHex targetLen source =
     (if length source mod 2 = 0 \<and> 2 * targetLen = length source then Some (hex_pairs source) else None)"

definition decodeHexLength :: "nat \<Rightarrow> nat option" where
  "decodeHexLength stringLen = (if stringLen mod 2 = 0 then Some (stringLen div 2) else None)"

definition decodeHexCreate :: "byte list \<Rightarrow> byte list option" where
  "decodeHexCreate source = do { len \<leftarrow> decodeHexLength (length source); decodeHex len source }"

definition encodeHex :: "nat \<Rightarrow> byte list \<Rightarrow> byte list option" where
  "encodeHex targetLen source =
     (if targetLen = 2 * length source + 1 then Some (concat (map (\<lambda>b. [hexc (drop_bit 4 b), hexc b]) source)) else None)"

definition encodeHexLength :: "nat \<Rightarrow> nat" where
  "encodeHexLength byteArrayLen = 2 * byteArrayLen + 1"

definition encodeHexCreate :: "byte list \<Rightarrow> byte list option" where
  "encodeHexCreate source = encodeHex (encodeHexLength (length source)) source"

definition isdigit :: "byte \<Rightarrow> bool" where
  "isdigit c \<longleftrightarrow> 48 \<le> c \<and> c \<le> 57"

definition isxdigit :: "byte \<Rightarrow> bool" where
  "isxdigit c \<longleftrightarrow> isdigit c \<or> 97 \<le> c \<and> c \<le> 102 \<or> 65 \<le> c \<and> c \<le> 70"

definition encodeHexValidate :: "byte list option \<Rightarrow> bool" where
  "encodeHexValidate number =
     (case number of None \<Rightarrow> False
      | Some s \<Rightarrow> if s = [] \<or> length s mod 2 \<noteq> 0 then False else list_all isxdigit s)"

section \<open>Parsing\<close>

datatype BRCoreParseStatus = CORE_PARSE_OK | CORE_PARSE_STRANGE_DIGITS | CORE_PARSE_UNDERFLOW | CORE_PARSE_OVERFLOW

definition parseIsInteger :: "byte list option \<Rightarrow> BRCoreParseStatus" where
  "parseIsInteger number =
     (case number of None \<Rightarrow> CORE_PARSE_STRANGE_DIGITS
      | Some s \<Rightarrow> if s = [] \<or> \<not> list_all isdigit s then CORE_PARSE_STRANGE_DIGITS else CORE_PARSE_OK)"

definition parseIsDecimal :: "byte list option \<Rightarrow> BRCoreParseStatus" where
  "parseIsDecimal number =
     (case number of None \<Rightarrow> CORE_PARSE_STRANGE_DIGITS
      | Some s \<Rightarrow>
          if s = [] \<or> hd s = 46 \<or> \<not> list_all (\<lambda>c. isdigit c \<or> c = 46) s then CORE_PARSE_STRANGE_DIGITS
          else if length (filter (\<lambda>c. c = 46) s) > 1 then CORE_PARSE_STRANGE_DIGITS
          else CORE_PARSE_OK)"

definition SURELY_ENOUGH_CHARS :: nat where
  "SURELY_ENOUGH_CHARS = 100"

definition parseMaximumDigitsForUInt64InBase :: "nat \<Rightarrow> nat option" where
  "parseMaximumDigitsForUInt64InBase base =
     (if base = 2 then Some 64 else if base = 10 then Some 19 else if base = 16 then Some 16 else None)"

definition parseMaximumDigitsForUInt256InBase :: "nat \<Rightarrow> nat option" where
  "parseMaximumDigitsForUInt256InBase base =
     (if base = 2 then Some 256 else if base = 10 then Some 78 else if base = 16 then Some 64 else None)"

definition parseUInt256Power :: "nat \<Rightarrow> nat \<Rightarrow> (UInt256 \<times> bool) option" where
  "parseUInt256Power base pow = do {
     maxPower \<leftarrow> parseMaximumDigitsForUInt64InBase base;
     Some (if pow > maxPower then (0, True)
       else let value = ((\<lambda>v :: u64. v * of_nat base) ^^ pow) 1
         in (if value = 0 then push_bit 64 1 else createUInt256 value, False))
   }"

definition parseUInt256ScaleByPower :: "UInt256 \<Rightarrow> nat \<Rightarrow> nat \<Rightarrow> (UInt256 \<times> bool) option" where
  "parseUInt256ScaleByPower value base pow = do {
     (scale, overflow) \<leftarrow> parseUInt256Power base pow;
     Some (if overflow then (0, True) else mulUInt256_Overflow value scale)
   }"

text \<open>\<open>strtoull\<close>: space, a sign, \<open>0x\<close> in base 16, digits; the largest value when the number does not fit.\<close>

definition isspace :: "byte \<Rightarrow> bool" where
  "isspace c \<longleftrightarrow> c = 32 \<or> 9 \<le> c \<and> c \<le> 13"

definition digit_val :: "byte \<Rightarrow> nat" where
  "digit_val c =
     (if isdigit c then unat c - 48 else if 97 \<le> c \<and> c \<le> 122 then unat c - 87
      else if 65 \<le> c \<and> c \<le> 90 then unat c - 55 else 36)"

definition strtoull :: "byte list \<Rightarrow> nat \<Rightarrow> u64" where
  "strtoull string base =
     (let s = dropWhile isspace string;
          (negative, s) = (if s \<noteq> [] \<and> hd s = 45 then (True, tl s) else if s \<noteq> [] \<and> hd s = 43 then (False, tl s) else (False, s));
          s = (if base = 16 \<and> 2 < length s \<and> s ! 0 = 48 \<and> (s ! 1 = 120 \<or> s ! 1 = 88) \<and> digit_val (s ! 2) < 16
               then drop 2 s else s);
          v = be_val base (map digit_val (takeWhile (\<lambda>c. digit_val c < base) s))
      in if v \<ge> 2 ^ 64 then - 1 else if negative then - of_nat v else of_nat v)"

definition parseUInt64 :: "byte list \<Rightarrow> nat \<Rightarrow> nat \<Rightarrow> UInt256 option" where
  "parseUInt64 string digits base = do {
     maxDigits \<leftarrow> parseMaximumDigitsForUInt64InBase base;
     if digits \<le> maxDigits then Some (createUInt256 (strtoull (take maxDigits string) base)) else None
   }"

text \<open>The loop after its first round; \<open>string\<close> is \<open>&string[index]\<close>, and \<open>stringChunks\<close> is never 0.\<close>

fun parse_chunks :: "nat \<Rightarrow> nat \<Rightarrow> UInt256 \<Rightarrow> byte list \<Rightarrow> (UInt256 \<times> BRCoreParseStatus) option" where
  "parse_chunks base stringChunks value string =
     (if string = [] then Some (value, CORE_PARSE_OK)
      else if stringChunks = 0 then None
      else do {
        let scalingDigits = min (length string) stringChunks;
        (value, scaleOverflow) \<leftarrow> parseUInt256ScaleByPower value base scalingDigits;
        next \<leftarrow> parseUInt64 string stringChunks base;
        let (value, addOverflow) = addUInt256_Overflow value next;
        if scaleOverflow \<or> addOverflow then Some (0, CORE_PARSE_OVERFLOW)
        else parse_chunks base stringChunks value (drop stringChunks string)
      })"

declare parse_chunks.simps [simp del]

definition createUInt256Parse :: "byte list \<Rightarrow> nat \<Rightarrow> (UInt256 \<times> BRCoreParseStatus) option" where
  "createUInt256Parse string base =
     (let hex = (take 2 string = [48, 120]);
          base = (if hex \<and> base = 0 then 16 else base)
      in if hex \<and> base \<noteq> 16 then Some (0, CORE_PARSE_STRANGE_DIGITS)
      else do {
        let string = (if hex then drop 2 string else string);
        let base = (if base = 0 then 10 else base);
        let string = dropWhile (\<lambda>c. c = 48) string;
        maxDigits \<leftarrow> parseMaximumDigitsForUInt256InBase base;
        if length string > maxDigits then Some (0, CORE_PARSE_OVERFLOW)
        else do {
          stringChunks \<leftarrow> parseMaximumDigitsForUInt64InBase base;
          if string = [] then Some (0, CORE_PARSE_OK)
          else do {
            value \<leftarrow> parseUInt64 string stringChunks base;
            parse_chunks base stringChunks value (drop stringChunks string)
          }
        }
      })"

text \<open>
  \<open>decimals\<close> is an \<open>int\<close>: a negative one is compared as a large unsigned number, and the padding then runs over the end
  of \<open>number\<close>.
\<close>

definition createUInt256ParseDecimal :: "byte list option \<Rightarrow> int \<Rightarrow> (UInt256 \<times> BRCoreParseStatus) option" where
  "createUInt256ParseDecimal string decimals =
     (if parseIsDecimal string \<noteq> CORE_PARSE_OK then Some (0, CORE_PARSE_STRANGE_DIGITS)
      else if length (the string) \<ge> SURELY_ENOUGH_CHARS then Some (0, CORE_PARSE_OVERFLOW)
      else if decimals \<ge> int SURELY_ENOUGH_CHARS then Some (0, CORE_PARSE_UNDERFLOW)
      else
        let whole = takeWhile (\<lambda>c. c \<noteq> 46) (the string);
            fract = takeWhile (\<lambda>c. c \<noteq> 46) (drop 1 (dropWhile (\<lambda>c. c \<noteq> 46) (the string)));
            fract = rev (dropWhile (\<lambda>c. c = 48) (rev fract))
        in if decimals < 0 then None
        else if length fract > nat decimals then Some (0, CORE_PARSE_UNDERFLOW)
        else createUInt256Parse (whole @ fract @ replicate (nat decimals - length fract) 48) 10)"

section \<open>Printing\<close>

text \<open>The division loop; the digits are the characters of \<open>r\<close>, least significant first.\<close>

fun decimal_loop :: "nat \<Rightarrow> UInt256 \<Rightarrow> byte list option" where
  "decimal_loop 0 x = Some []"
| "decimal_loop (Suc n) x =
     (if eqUInt256 x 0 then Some []
      else do { (x, rem) \<leftarrow> divUInt256_Small x 10; r \<leftarrow> decimal_loop n x; Some ((48 + ucast rem) # r) })"

definition coerceReverseString :: "byte list \<Rightarrow> byte list" where
  "coerceReverseString s = rev s"

definition hex2Binary :: "byte list list" where
  "hex2Binary =
     [[48, 48, 48, 48], [48, 48, 48, 49], [48, 48, 49, 48], [48, 48, 49, 49], [48, 49, 48, 48], [48, 49, 48, 49],
      [48, 49, 49, 48], [48, 49, 49, 49], [49, 48, 48, 48], [49, 48, 48, 49], [49, 48, 49, 48], [49, 48, 49, 49],
      [49, 49, 48, 48], [49, 49, 48, 49], [49, 49, 49, 48], [49, 49, 49, 49]]"

definition coerce16 :: "UInt256 \<Rightarrow> byte list option" where
  "coerce16 x = encodeHexCreate (dropWhile (\<lambda>b. b = 0) (UInt256Set (UInt256Reverse x)))"

definition coerceString :: "UInt256 \<Rightarrow> nat \<Rightarrow> byte list option" where
  "coerceString x base =
     (if eqUInt256 x 0 then Some [48]
      else if base = 16 then coerce16 x
      else if base = 10 then do { r \<leftarrow> decimal_loop 256 x; Some (coerceReverseString r) }
      else if base = 2 then do { base16 \<leftarrow> coerce16 x; Some (concat (map (\<lambda>c. hex2Binary ! nat (hexu c)) base16)) }
      else None)"

text \<open>
  \<open>%<decimals>s\<close> pads on the left with spaces, which are then replaced. The format of 10 characters has room for a width of 5
  digits; with a negative \<open>decimals\<close> the copy leaves the result.
\<close>

definition coerceStringDecimal :: "UInt256 \<Rightarrow> int \<Rightarrow> byte list option" where
  "coerceStringDecimal x decimals = do {
     string \<leftarrow> coerceString x 10;
     let slength = length string;
     if decimals = 0 then Some string
     else if decimals < 0 then None
     else if nat decimals \<ge> slength then
       (if decimals > 99999 then None
        else Some (map (\<lambda>c. if c = 32 then 48 else c) ([48, 46] @ replicate (nat decimals - slength) 32 @ string)))
     else let dindex = slength - nat decimals in Some (take dindex string @ [46] @ drop dindex string)
   }"

section \<open>Reading digits\<close>

definition digits :: "nat \<Rightarrow> byte list \<Rightarrow> bool" where
  "digits base s \<longleftrightarrow> (\<forall>c \<in> set s. digit_val c < base)"

definition number_of :: "nat \<Rightarrow> byte list \<Rightarrow> nat" where
  "number_of base s = be_val base (map digit_val s)"

definition base_ok :: "nat \<Rightarrow> bool" where
  "base_ok base \<longleftrightarrow> base = 2 \<or> base = 10 \<or> base = 16"

lemma number_of_append: "number_of base (s @ t) = number_of base s * base ^ length t + number_of base t"
  by (simp add: number_of_def be_val_append)

lemma number_of_bound: "digits base s \<Longrightarrow> number_of base s < base ^ length s"
  using be_val_bound [of "map digit_val s" base] by (simp add: number_of_def digits_def)

lemma digits_append [simp]: "digits base (s @ t) \<longleftrightarrow> digits base s \<and> digits base t"
  by (auto simp: digits_def)

lemma digits_take_drop: "digits base s \<Longrightarrow> digits base (take n s) \<and> digits base (drop n s)"
  by (auto simp: digits_def dest: in_set_takeD in_set_dropD)

lemma digit_val_less_16: "digit_val c < 16 \<Longrightarrow> isdigit c \<or> 97 \<le> c \<and> c \<le> 102 \<or> 65 \<le> c \<and> c \<le> 70"
  by (auto simp: digit_val_def word_le_nat_alt split: if_splits)

lemma digit_chars:
  "digit_val c < 16 \<Longrightarrow> \<not> isspace c \<and> c \<noteq> 45 \<and> c \<noteq> 43 \<and> c \<noteq> 120 \<and> c \<noteq> 88"
  by (drule digit_val_less_16) (auto simp: isdigit_def isspace_def word_le_nat_alt)

lemma strtoull_digits:
  assumes "digits base s" "base_ok base" "number_of base s < 2 ^ 64"
  shows "strtoull s base = of_nat (number_of base s)"
proof -
  have c: "\<not> isspace c \<and> c \<noteq> 45 \<and> c \<noteq> 43 \<and> c \<noteq> 120 \<and> c \<noteq> 88" if "c \<in> set s" for c
    using assms(1,2) that by (intro digit_chars) (auto simp: digits_def base_ok_def)
  have sp: "dropWhile isspace s = s" using c by (cases s) auto
  have sg: "s = [] \<or> hd s \<noteq> 45 \<and> hd s \<noteq> 43" using c by (cases s) auto
  have hx: "\<not> (2 < length s \<and> s ! 0 = 48 \<and> (s ! 1 = 120 \<or> s ! 1 = 88) \<and> digit_val (s ! 2) < 16)"
  proof
    assume a: "2 < length s \<and> s ! 0 = 48 \<and> (s ! 1 = 120 \<or> s ! 1 = 88) \<and> digit_val (s ! 2) < 16"
    then have "s ! 1 \<in> set s" by simp
    with a c show False by blast
  qed
  have t: "takeWhile (\<lambda>c. digit_val c < base) s = s" using assms(1) by (auto simp: takeWhile_eq_all_conv digits_def)
  have "(if s \<noteq> [] \<and> hd s = 45 then (True, tl s) else if s \<noteq> [] \<and> hd s = 43 then (False, tl s) else (False, s)) = (False, s)"
    using sg by auto
  moreover have "(if base = 16 \<and> 2 < length s \<and> s ! 0 = 48 \<and> (s ! 1 = 120 \<or> s ! 1 = 88) \<and> digit_val (s ! 2) < 16
      then drop 2 s else s) = s" using hx by auto
  ultimately show ?thesis using assms(3) unfolding strtoull_def sp Let_def split
    by (simp only: split t) (simp add: number_of_def)
qed

lemma max_digits:
  assumes "base_ok base"
  obtains n m where "parseMaximumDigitsForUInt64InBase base = Some n" "parseMaximumDigitsForUInt256InBase base = Some m"
    "0 < n" "base ^ n \<le> 2 ^ 64" "2 ^ 256 \<le> base ^ m" "2 \<le> base"
proof -
  have "2 ^ 64 = (16 :: nat) ^ 16" "2 ^ 256 = (16 :: nat) ^ 64" "(10 :: nat) ^ 19 \<le> 2 ^ 64" "(2 :: nat) ^ 256 \<le> 10 ^ 78"
    by simp_all
  with assms show thesis
    by (auto simp: base_ok_def parseMaximumDigitsForUInt64InBase_def parseMaximumDigitsForUInt256InBase_def
      intro: that [of 64 256] that [of 19 78] that [of 16 64])
qed

lemma parseUInt64_digits:
  assumes "digits base s" "base_ok base" "parseMaximumDigitsForUInt64InBase base = Some n" "base ^ n \<le> 2 ^ 64" "2 \<le> base"
  shows "parseUInt64 s n base = Some (of_nat (number_of base (take n s)))"
proof -
  have d: "digits base (take n s)" using digits_take_drop [OF assms(1)] by blast
  have "number_of base (take n s) < base ^ length (take n s)" by (rule number_of_bound [OF d])
  also have "\<dots> \<le> base ^ n" using assms(5) by (intro power_increasing) auto
  also note assms(4)
  finally have b: "number_of base (take n s) < 2 ^ 64" .
  have "unat (createUInt256 (of_nat (number_of base (take n s)))) = number_of base (take n s)"
    unfolding createUInt256_val unat_of_nat using b by simp
  then have "createUInt256 (of_nat (number_of base (take n s))) = of_nat (number_of base (take n s))" by (rule word_eq_of_unat)
  then show ?thesis using strtoull_digits [OF d assms(2) b] by (simp add: parseUInt64_def assms(3))
qed

lemma unat_of_nat_256: "n < 2 ^ 256 \<Longrightarrow> unat (of_nat n :: UInt256) = n"
  unfolding unat_of_nat by (intro mod_less) simp

lemma parseUInt256Power_eq:
  assumes "parseMaximumDigitsForUInt64InBase base = Some n" "base ^ n \<le> 2 ^ 64" "2 \<le> base" "k \<le> n"
  shows "parseUInt256Power base k = Some (of_nat (base ^ k), False)"
proof -
  have p: "((\<lambda>v :: u64. v * of_nat base) ^^ k) 1 = of_nat (base ^ k)" for k by (induction k) (simp_all add: mult.commute)
  have "base ^ k \<le> base ^ n" using assms(3,4) by (intro power_increasing) auto
  then have le: "base ^ k \<le> 2 ^ 64" using assms(2) by simp
  have v: "(if (of_nat (base ^ k) :: u64) = 0 then push_bit 64 1 else createUInt256 (of_nat (base ^ k))) = of_nat (base ^ k)"
  proof (cases "base ^ k = 2 ^ 64")
    case True
    have "(of_nat (2 ^ 64) :: u64) = 0" by simp
    then show ?thesis unfolding True by simp
  next
    case False
    then have u: "unat (of_nat (base ^ k) :: u64) = base ^ k" unfolding unat_of_nat using le by simp
    moreover have "base ^ k \<noteq> 0" using assms(3) by simp
    ultimately have "(of_nat (base ^ k) :: u64) \<noteq> 0" by (metis unsigned_0)
    then show ?thesis using word_eq_of_unat [of "createUInt256 (of_nat (base ^ k))"] u by (simp only: createUInt256_val if_False)
  qed
  have "\<not> k > n" using assms(4) by simp
  then show ?thesis unfolding parseUInt256Power_def assms(1) bind.bind_lunit Let_def p v by simp
qed

text \<open>The loop appends the remaining digits to the value, or reports the overflow.\<close>

lemma parse_chunks_eq:
  assumes "base_ok base" "parseMaximumDigitsForUInt64InBase base = Some n" "0 < n" "base ^ n \<le> 2 ^ 64" "2 \<le> base"
  shows "digits base s \<Longrightarrow> v < 2 ^ 256 \<Longrightarrow> parse_chunks base n (of_nat v) s =
    Some (if v * base ^ length s + number_of base s < 2 ^ 256
      then (of_nat (v * base ^ length s + number_of base s), CORE_PARSE_OK) else (0, CORE_PARSE_OVERFLOW))"
proof (induction "length s" arbitrary: s v rule: less_induct)
  case less
  note D = less.prems(1) and V = less.prems(2)
  show ?case
  proof (cases "s = []")
    case True
    then show ?thesis using V by (simp add: parse_chunks.simps number_of_def)
  next
    case False
    define k where "k = min (length s) n"
    define a where "a = number_of base (take n s)"
    have st: "s = take n s @ drop n s" by simp
    have lk: "length (take n s) = k" by (simp add: k_def min.commute)
    have dd: "digits base (take n s)" "digits base (drop n s)" using digits_take_drop [OF D] by blast+
    define t where "t = v * base ^ length s + number_of base s"
    define p where "p = base ^ k"
    define w where "w = v * p + a"
    have t: "t = w * base ^ length (drop n s) + number_of base (drop n s)"
    proof -
      have "length s = k + length (drop n s)" by (simp add: k_def)
      moreover have "number_of base s = a * base ^ length (drop n s) + number_of base (drop n s)"
        unfolding a_def by (subst st) (rule number_of_append)
      moreover have "base ^ length s = base ^ k * base ^ length (drop n s)" using calculation(1) by (metis power_add)
      ultimately show ?thesis by (simp add: t_def w_def p_def algebra_simps)
    qed
    have b1: "1 \<le> base ^ m" for m using assms(5) by simp
    have "w * 1 \<le> w * base ^ length (drop n s)" by (intro mult_le_mono2 b1)
    then have tw: "w \<le> t" unfolding t by linarith
    have "a < base ^ k" using number_of_bound [OF dd(1)] unfolding a_def lk .
    moreover have "base ^ k \<le> base ^ n" using assms(5) by (intro power_increasing) (auto simp: k_def)
    ultimately have a: "a < 2 ^ 64" using assms(4) by simp
    have pw: "p \<le> 2 ^ 64" using \<open>base ^ k \<le> base ^ n\<close> assms(4) by (simp add: p_def)
    have sc: "parseUInt256ScaleByPower (of_nat v) base k =
        Some (if v * p < 2 ^ 256 then (of_nat (v * p), False) else (0, True))"
    proof -
      have "parseUInt256Power base k = Some (of_nat p, False)"
        unfolding p_def by (rule parseUInt256Power_eq [OF assms(2,4,5)]) (simp add: k_def)
      then show ?thesis using V pw by (simp add: parseUInt256ScaleByPower_def mulUInt256_Overflow_eq unat_of_nat_256)
    qed
    note step = parse_chunks.simps [of base n "of_nat v" s]
    note pu = parseUInt64_digits [OF D assms(1,2,4,5), folded a_def]
    show ?thesis
    proof (cases "w < 2 ^ 256")
      case True
      then have vb: "v * p < 2 ^ 256" "v * p + a < 2 ^ 256" by (simp_all add: w_def)
      have "addUInt256_Overflow (of_nat (v * p)) (of_nat a) = (of_nat w, False)"
        using vb a by (simp add: addUInt256_Overflow_eq unat_of_nat_256 w_def add.commute del: of_nat_mult)
      then have "parse_chunks base n (of_nat v) s = parse_chunks base n (of_nat w) (drop n s)"
        unfolding step k_def [symmetric] Let_def sc pu using False assms(3) vb by (simp del: of_nat_mult)
      also have "\<dots> = Some (if t < 2 ^ 256 then (of_nat t, CORE_PARSE_OK) else (0, CORE_PARSE_OVERFLOW))"
        using less.hyps [OF _ dd(2) True] False assms(3) unfolding t by simp
      finally show ?thesis unfolding t_def .
    next
      case w: False
      then have o: "\<not> t < 2 ^ 256" using tw by simp
      have "parse_chunks base n (of_nat v) s = Some (0, CORE_PARSE_OVERFLOW)"
      proof (cases "v * p < 2 ^ 256")
        case True
        then have "addUInt256_Overflow (of_nat (v * p)) (of_nat a) = (0, True)"
          using w a by (simp add: addUInt256_Overflow_eq unat_of_nat_256 w_def add.commute del: of_nat_mult)
        then show ?thesis unfolding step k_def [symmetric] Let_def sc pu using False assms(3) True by (simp del: of_nat_mult)
      next
        case f: False
        show ?thesis unfolding step k_def [symmetric] Let_def sc pu using False assms(3) f by (simp split: prod.splits)
      qed
      then show ?thesis using o unfolding t_def by simp
    qed
  qed
qed

lemma digit_val_0: "digit_val c = 0 \<longleftrightarrow> c = 48"
  by (auto simp: digit_val_def isdigit_def word_le_nat_alt word_unat_eq_iff)

lemma number_of_Cons: "number_of base (c # s) = digit_val c * base ^ length s + number_of base s"
  by (simp add: number_of_def)

lemma number_of_strip: "number_of base (dropWhile (\<lambda>c. c = 48) s) = number_of base s"
  by (induction s) (simp_all add: number_of_Cons digit_val_0 [THEN iffD2])

lemma number_of_lower:
  assumes "s \<noteq> []" "hd s \<noteq> 48"
  shows "base ^ (length s - 1) \<le> number_of base s"
proof -
  obtain c t where s: "s = c # t" using assms(1) by (cases s) auto
  have "1 \<le> digit_val c" using assms(2) digit_val_0 [of c] by (simp add: s)
  then have "base ^ length t \<le> digit_val c * base ^ length t" by (metis mult_1 mult_le_mono1)
  also have "\<dots> \<le> number_of base s" by (simp add: s number_of_Cons)
  finally show ?thesis by (simp add: s)
qed

lemma createUInt256Parse_digits:
  assumes "digits base s" "base_ok base"
  shows "createUInt256Parse s base =
    Some (if number_of base s < 2 ^ 256 then (of_nat (number_of base s), CORE_PARSE_OK) else (0, CORE_PARSE_OVERFLOW))"
proof -
  obtain n m where nm: "parseMaximumDigitsForUInt64InBase base = Some n" "parseMaximumDigitsForUInt256InBase base = Some m"
    "0 < n" "base ^ n \<le> 2 ^ 64" "2 ^ 256 \<le> base ^ m" "2 \<le> base"
    using max_digits [OF assms(2)] .
  have c: "c \<noteq> 120" if "c \<in> set s" for c
    using assms digit_chars [of c] that by (auto simp: digits_def base_ok_def)
  have hex: "take 2 s \<noteq> [48, 120]"
  proof
    assume "take 2 s = [48, 120]"
    then have "120 \<in> set (take 2 s)" by simp
    then show False using c by (auto dest: in_set_takeD)
  qed
  define t where "t = dropWhile (\<lambda>c. c = 48) s"
  have b0: "base \<noteq> 0" using nm(6) by simp
  have v: "number_of base t = number_of base s" unfolding t_def by (rule number_of_strip)
  have dt: "digits base t" using assms(1) by (auto simp: digits_def t_def dest: set_dropWhileD)
  have h: "t \<noteq> [] \<Longrightarrow> hd t \<noteq> 48" unfolding t_def by (metis (mono_tags) hd_dropWhile)
  have e: "createUInt256Parse s base =
    (if length t > m then Some (0, CORE_PARSE_OVERFLOW) else if t = [] then Some (0, CORE_PARSE_OK)
     else do { value \<leftarrow> parseUInt64 t n base; parse_chunks base n value (drop n t) })"
    using hex b0 by (simp add: createUInt256Parse_def Let_def nm t_def)
  show ?thesis
  proof (cases "length t > m")
    case True
    have ne: "t \<noteq> []" using True by auto
    have "(2 :: nat) ^ 256 \<le> base ^ m" by (rule nm(5))
    also have "\<dots> \<le> base ^ (length t - 1)" using True nm(6) by (intro power_increasing) auto
    also have "\<dots> \<le> number_of base t" by (rule number_of_lower [OF ne h [OF ne]])
    finally have "\<not> number_of base s < 2 ^ 256" unfolding v by simp
    then show ?thesis unfolding e using True by simp
  next
    case le: False
    show ?thesis
    proof (cases "t = []")
      case True
      then have "number_of base s = 0" using v by (simp add: number_of_def)
      then show ?thesis unfolding e using True by simp
    next
      case False
      have d: "digits base (take n t)" "digits base (drop n t)" using digits_take_drop [OF dt] by blast+
      have "number_of base (take n t) < base ^ length (take n t)" by (rule number_of_bound [OF d(1)])
      also have "\<dots> \<le> base ^ n" using nm(6) by (intro power_increasing) auto
      also note nm(4)
      finally have "number_of base (take n t) < 2 ^ 256" by simp
      from parse_chunks_eq [OF assms(2) nm(1,3,4,6) d(2) this]
      show ?thesis
        using False le parseUInt64_digits [OF dt assms(2) nm(1,4,6)] number_of_append [of base "take n t" "drop n t"]
        unfolding e v [symmetric] by simp
    qed
  qed
qed

section \<open>Printed numbers\<close>

lemma decimal_char: "n < 10 \<Longrightarrow> digit_val (48 + of_nat n) = n \<and> isdigit (48 + of_nat n)"
proof -
  have "\<forall>n \<in> set [0..<10]. digit_val (48 + of_nat n) = n \<and> isdigit (48 + of_nat n)" by code_simp
  then show "n < 10 \<Longrightarrow> digit_val (48 + of_nat n) = n \<and> isdigit (48 + of_nat n)" by (metis atLeast0LessThan atLeast_upt lessThan_iff)
qed

lemma decimal_loop_value:
  "k \<le> n \<Longrightarrow> unat x < 10 ^ k \<Longrightarrow>
    \<exists>r. decimal_loop n x = Some r \<and> number_of 10 (rev r) = unat x \<and> list_all isdigit r \<and> length r \<le> k"
proof (induction n arbitrary: x k)
  case 0
  then show ?case by (simp add: number_of_def)
next
  case (Suc n)
  show ?case
  proof (cases "x = 0")
    case True
    then show ?thesis by (simp add: number_of_def eqUInt256_iff)
  next
    case False
    then have "unat x \<noteq> 0" by (simp add: unat_eq_zero)
    with Suc.prems obtain k' where k: "k = Suc k'" by (cases k) auto
    define q where "q = unat x div 10"
    have q: "q < 10 ^ k'" unfolding q_def using Suc.prems(2) by (simp add: k less_mult_imp_div_less mult.commute)
    have "q < 2 ^ 256" unfolding q_def using u256_less [of x] by (rule le_less_trans [OF div_le_dividend])
    then have u: "unat (of_nat q :: UInt256) = q" by (rule unat_of_nat_256)
    then obtain r where r: "decimal_loop n (of_nat q) = Some r" "number_of 10 (rev r) = q" "list_all isdigit r" "length r \<le> k'"
      using Suc.IH [of k' "of_nat q"] q Suc.prems(1) k by auto
    have m: "unat x mod 10 < 10" by simp
    have uc: "ucast (of_nat (unat x mod 10) :: u32) = (of_nat (unat x mod 10) :: byte)"
      by (rule word_eq_of_unat) (simp add: unsigned_ucast_eq unat_of_nat take_bit_eq_mod)
    have "decimal_loop (Suc n) x = Some ((48 + of_nat (unat x mod 10)) # r)"
      using False r(1) by (simp add: eqUInt256_iff divUInt256_Small_eq q_def [symmetric] uc)
    then show ?thesis
      using r decimal_char [OF m] k by (simp add: number_of_append number_of_Cons) (simp add: number_of_def q_def)
  qed
qed

lemma isdigit_digit: "isdigit c \<Longrightarrow> digit_val c < 10"
  by (auto simp: isdigit_def digit_val_def word_le_nat_alt)

lemma list_all_digits: "list_all isdigit s \<Longrightarrow> digits 10 s"
  by (auto simp: list_all_iff digits_def isdigit_digit)

lemma hexc_low: "hexc b = hexc (of_nat (unat b mod 16))"
proof -
  have "b AND 15 = of_nat (unat b mod 16)"
  proof (rule word_eq_of_unat)
    have "b AND 15 = take_bit 4 b" by (simp add: take_bit_eq_mask mask_numeral)
    then show "unat (b AND 15) = unat b mod 16" by (simp add: unsigned_take_bit_eq take_bit_eq_mod unat_mod_distrib)
  qed
  moreover have "hexc b = hexc (b AND 15)" by (simp add: hexc_def and.assoc)
  ultimately show ?thesis by simp
qed

lemma hex_char_all: "\<forall>k \<in> set [0..<16]. digit_val (hexc (of_nat k)) = k \<and> nat (hexu (hexc (of_nat k))) = k"
  by code_simp

lemma hex2Binary_all: "\<forall>k \<in> set [0..<16]. number_of 2 (hex2Binary ! k) = k \<and> length (hex2Binary ! k) = 4 \<and> digits 2 (hex2Binary ! k)"
  unfolding number_of_def digits_def by code_simp

lemma hex_char:
  "digit_val (hexc b) = unat b mod 16" "number_of 2 (hex2Binary ! nat (hexu (hexc b))) = unat b mod 16"
  "length (hex2Binary ! nat (hexu (hexc b))) = 4" "digits 2 (hex2Binary ! nat (hexu (hexc b)))"
proof -
  define k where "k = unat b mod 16"
  have k: "k \<in> set [0..<16]" by (simp add: k_def)
  have "hexc b = hexc (of_nat k)" unfolding k_def by (rule hexc_low)
  then have h: "digit_val (hexc b) = k" "nat (hexu (hexc b)) = k" using bspec [OF hex_char_all k] by simp_all
  show "digit_val (hexc b) = unat b mod 16" "number_of 2 (hex2Binary ! nat (hexu (hexc b))) = unat b mod 16"
    "length (hex2Binary ! nat (hexu (hexc b))) = 4" "digits 2 (hex2Binary ! nat (hexu (hexc b)))"
    using bspec [OF hex2Binary_all k] unfolding h k_def [symmetric] by blast+
qed

abbreviation hex_of :: "byte list \<Rightarrow> byte list" where
  "hex_of bs \<equiv> concat (map (\<lambda>b. [hexc (drop_bit 4 b), hexc b]) bs)"

lemma unat_nibbles: "unat (drop_bit 4 (b :: byte)) = unat b div 16" "unat b div 16 < 16" "unat b div 16 mod 16 = unat b div 16"
proof -
  show l: "unat b div 16 < 16" using unat_byte_less [of b] by (intro div_less_iff_less_mult [THEN iffD2]) simp_all
  show "unat b div 16 mod 16 = unat b div 16" by (rule mod_less [OF l])
qed (simp add: unat_drop_bit_32)

lemma number_of_hex: "number_of 16 (hex_of bs) = be_val 256 (map unat bs) \<and> digits 16 (hex_of bs) \<and> length (hex_of bs) = 2 * length bs"
proof (induction bs)
  case (Cons b bs)
  define q r where "q = unat b div 16" and "r = unat b mod 16"
  have e: "unat b = q * 16 + r" "q mod 16 = q" "r < 16" "q < 16" by (simp_all add: q_def r_def unat_nibbles)
  have p: "(256 :: nat) ^ length bs = 16 ^ (2 * length bs)" by (simp add: power_mult)
  have "unat b * 256 ^ length bs = q * 16 ^ (2 * length bs + 1) + r * 16 ^ (2 * length bs)"
    unfolding e(1) p by (simp add: algebra_simps)
  then show ?case using Cons by (simp add: number_of_Cons hex_char unat_nibbles digits_def e(2-4) flip: q_def r_def)
qed (simp add: number_of_def digits_def)

lemma number_of_binary:
  "number_of 2 (concat (map (\<lambda>c. hex2Binary ! nat (hexu c)) (hex_of bs))) = be_val 256 (map unat bs) \<and>
   digits 2 (concat (map (\<lambda>c. hex2Binary ! nat (hexu c)) (hex_of bs))) \<and>
   length (concat (map (\<lambda>c. hex2Binary ! nat (hexu c)) (hex_of bs))) = 8 * length bs"
proof (induction bs)
  case (Cons b bs)
  let ?n = "length bs"
  define q r where "q = unat b div 16" and "r = unat b mod 16"
  have e: "unat b = q * 16 + r" "q mod 16 = q" "r < 16" "q < 16" by (simp_all add: q_def r_def unat_nibbles)
  have p: "(256 :: nat) ^ ?n = 2 ^ (8 * ?n)" by (simp add: power_mult)
  have "unat b * 256 ^ ?n = q * 2 ^ (8 * ?n + 4) + r * 2 ^ (8 * ?n)"
    unfolding e(1) p by (simp add: algebra_simps power_add)
  then show ?case
    using Cons by (simp add: number_of_append hex_char unat_nibbles e(2-4) add.commute flip: q_def r_def)
qed (simp add: number_of_def digits_def)

lemma be_val_rev_bytes: "be_val 256 (map unat (rev bs)) = le_val bs"
  by (induction bs) simp_all

lemma bytes_of_reverse: "UInt256Set (UInt256Reverse x) = rev (UInt256Set x)"
  by (simp add: UInt256Set_def UInt256Reverse_def bytes_of_word_of_bytes)

lemma coerce16_eq:
  obtains bs where "coerce16 x = Some (hex_of bs)" "be_val 256 (map unat bs) = unat x" "length bs \<le> 32"
proof
  let ?b = "dropWhile (\<lambda>b. b = 0) (UInt256Set (UInt256Reverse x))"
  show "coerce16 x = Some (hex_of ?b)"
    by (simp add: coerce16_def encodeHexCreate_def encodeHex_def encodeHexLength_def)
  have "be_val 256 (map unat (dropWhile (\<lambda>b. b = 0) bs)) = be_val 256 (map unat bs)" for bs :: "byte list"
    by (induction bs) simp_all
  then show "be_val 256 (map unat ?b) = unat x"
    by (simp add: bytes_of_reverse be_val_rev_bytes le_val_UInt256Set)
  show "length ?b \<le> 32" using length_dropWhile_le [of "\<lambda>b. b = 0" "UInt256Set (UInt256Reverse x)"] by simp
qed

lemma coerceString_10: "\<exists>s. coerceString x 10 = Some s \<and> number_of 10 s = unat x \<and> list_all isdigit s \<and> s \<noteq> [] \<and> length s \<le> 78"
proof (cases "x = 0")
  case True
  then show ?thesis by (simp add: coerceString_def eqUInt256_iff number_of_def digit_val_def isdigit_def)
next
  case False
  have "unat x < 10 ^ 78" by (rule less_le_trans [OF u256_less]) simp
  then obtain r where r: "decimal_loop 256 x = Some r" "number_of 10 (rev r) = unat x" "list_all isdigit r" "length r \<le> 78"
    using decimal_loop_value [of 78 256 x] by auto
  have "r \<noteq> []" using r(2) False by (auto simp: number_of_def unat_eq_zero)
  then show ?thesis using r False by (simp add: coerceString_def eqUInt256_iff coerceReverseString_def list_all_iff del: decimal_loop.simps)
qed

lemma coerceString_value:
  assumes "base_ok base"
  obtains s where "coerceString x base = Some s" "number_of base s = unat x" "digits base s"
proof (cases "x = 0")
  case True
  have "number_of base [48] = 0 \<and> digits base [48]"
    using assms by (auto simp: number_of_def digits_def base_ok_def digit_val_def isdigit_def)
  then show thesis using True that [of "[48]"] by (simp add: coerceString_def eqUInt256_iff)
next
  case False
  obtain bs where b: "coerce16 x = Some (hex_of bs)" "be_val 256 (map unat bs) = unat x" by (rule coerce16_eq)
  consider "base = 10" | "base = 16" | "base = 2" using assms by (auto simp: base_ok_def)
  then show thesis
  proof cases
    case 1
    then show thesis using coerceString_10 [of x] that list_all_digits by metis
  next
    case 2
    then show thesis using False b number_of_hex [of bs] that by (simp add: coerceString_def eqUInt256_iff)
  next
    case 3
    then show thesis using False b number_of_binary [of bs] that by (simp add: coerceString_def eqUInt256_iff)
  qed
qed

text \<open>C21: a string of digits in base 2, 10 or 16 is read as the number it denotes, and rejected as an overflow exactly when
  the number does not fit into 256 bits.\<close>

theorem eth_parse_digits:
  assumes "base \<in> {2, 10, 16}" "\<forall>c \<in> set s. digit_val c < base"
  shows "createUInt256Parse s base =
    Some (if be_val base (map digit_val s) < 2 ^ 256 then (of_nat (be_val base (map digit_val s)), CORE_PARSE_OK)
      else (0, CORE_PARSE_OVERFLOW))"
  using createUInt256Parse_digits [of base s] assms by (simp add: digits_def base_ok_def number_of_def)

theorem eth_parse_digits_witness:
  "createUInt256Parse [50, 53, 53] 10 = Some (255, CORE_PARSE_OK) \<and>
   createUInt256Parse (49 # replicate 78 48) 10 = Some (0, CORE_PARSE_OVERFLOW)"
  using eth_parse_digits [of 10 "[50, 53, 53]"] eth_parse_digits [of 10 "49 # replicate 78 48"]
  by (simp add: digit_val_def isdigit_def)

section \<open>Decimal fractions\<close>

text \<open>The number of a decimal fraction with \<open>d\<close> digits behind the point: \<open>f\<close> are the digits behind the point without final zeros.\<close>

definition strip_end :: "byte list \<Rightarrow> byte list" where
  "strip_end f = rev (dropWhile (\<lambda>c. c = 48) (rev f))"

lemma strip_end_split: "f = strip_end f @ replicate (length f - length (strip_end f)) 48"
proof -
  have "rev f = takeWhile (\<lambda>c. c = 48) (rev f) @ dropWhile (\<lambda>c. c = 48) (rev f)" by simp
  moreover have "takeWhile (\<lambda>c. c = 48) (rev f) = replicate (length (takeWhile (\<lambda>c. c = 48) (rev f))) (48 :: byte)"
    by (metis (mono_tags, lifting) replicate_eqI set_takeWhileD)
  ultimately obtain n where "rev f = replicate n 48 @ dropWhile (\<lambda>c. c = 48) (rev f)" by metis
  then have e: "f = strip_end f @ replicate n 48" unfolding strip_end_def by (metis rev_append rev_replicate rev_rev_ident)
  then have "length f = length (strip_end f) + n" by (metis length_append length_replicate)
  then show ?thesis using e by simp
qed

lemma digit_not_point: "isdigit c \<Longrightarrow> c \<noteq> 46 \<and> c \<noteq> 32"
  by (auto simp: isdigit_def)

lemma createUInt256ParseDecimal_eq:
  assumes "w \<noteq> []" "list_all isdigit w" "list_all isdigit f" "length w + length f + 1 < 100" "d < 100"
    and "s = w @ 46 # f \<or> s = w \<and> f = []" "length (strip_end f) \<le> d"
  shows "createUInt256ParseDecimal (Some s) (int d) =
    createUInt256Parse (w @ strip_end f @ replicate (d - length (strip_end f)) 48) 10"
proof -
  have np: "c \<noteq> 46" if "c \<in> set w \<or> c \<in> set f" for c
    using that assms(2,3) digit_not_point by (auto simp: list_all_iff)
  have fw: "filter (\<lambda>c. c = 46) w = []" "filter (\<lambda>c. c = 46) f = []" using np by (auto simp: filter_empty_conv)
  have dw: "list_all (\<lambda>c. isdigit c \<or> c = 46) w" "list_all (\<lambda>c. isdigit c \<or> c = 46) f"
    using assms(2,3) by (auto simp: list_all_iff)
  have h: "hd w \<noteq> 46" using assms(1) np by auto
  have p: "parseIsDecimal (Some s) = CORE_PARSE_OK"
    using assms(1,6) fw dw h by (auto simp: parseIsDecimal_def)
  have tw: "takeWhile (\<lambda>c. c \<noteq> 46) w = w" "takeWhile (\<lambda>c. c \<noteq> 46) f = f" "dropWhile (\<lambda>c. c \<noteq> 46) w = []"
    using np by (auto simp: takeWhile_eq_all_conv dropWhile_eq_Nil_conv)
  have "takeWhile (\<lambda>c. c \<noteq> 46) s = w" "takeWhile (\<lambda>c. c \<noteq> 46) (drop 1 (dropWhile (\<lambda>c. c \<noteq> 46) s)) = f"
    using assms(6) tw np by (auto simp: takeWhile_append dropWhile_append tw)
  moreover have "length s < 100" using assms(4,6) by auto
  ultimately show ?thesis
    using p assms(5,7) by (simp add: createUInt256ParseDecimal_def SURELY_ENOUGH_CHARS_def Let_def strip_end_def)
qed

lemma decimal_parse_value:
  assumes "w \<noteq> []" "list_all isdigit w" "list_all isdigit f" "length w + length f + 1 < 100" "d < 100"
    and "s = w @ 46 # f \<or> s = w \<and> f = []" "length f = d" "number_of 10 (w @ f) = unat (x :: UInt256)"
  shows "createUInt256ParseDecimal (Some s) (int d) = Some (x, CORE_PARSE_OK)"
proof -
  have l: "length (strip_end f) \<le> d"
    using assms(7) strip_end_split [of f] by (metis length_append le_add1)
  have f: "strip_end f @ replicate (d - length (strip_end f)) 48 = f" using strip_end_split [of f] assms(7) by simp
  have "digits 10 (w @ f)" using assms(2,3) by (simp add: list_all_digits)
  then show ?thesis
    using createUInt256ParseDecimal_eq [OF assms(1-6) l] createUInt256Parse_digits [of 10 "w @ f"] assms(8) u256_less [of x]
    by (simp add: f base_ok_def)
qed

text \<open>The decimal notation of an amount, with up to 97 digits behind the point, is read back as the amount.\<close>

theorem eth_decimal_roundtrip:
  assumes "0 \<le> d" "d \<le> 97"
  shows "\<exists>s. coerceStringDecimal x d = Some s \<and> createUInt256ParseDecimal (Some s) d = Some (x, CORE_PARSE_OK)"
proof -
  obtain n where n: "d = int n" "n \<le> 97" using assms by (auto elim: nonneg_int_cases)
  obtain s where s: "coerceString x 10 = Some s" "number_of 10 s = unat x" "list_all isdigit s" "s \<noteq> []" "length s \<le> 78"
    using coerceString_10 [of x] by blast
  have "\<exists>w f t. coerceStringDecimal x d = Some t \<and> w \<noteq> [] \<and> list_all isdigit w \<and> list_all isdigit f \<and>
      length w + length f + 1 < 100 \<and> (t = w @ 46 # f \<or> t = w \<and> f = []) \<and> length f = n \<and> number_of 10 (w @ f) = unat x"
  proof -
    consider "n = 0" | "n \<noteq> 0" "length s \<le> n" | "n \<noteq> 0" "n < length s" by linarith
    then show ?thesis
    proof cases
      case 1
      then show ?thesis using s n(1) by (intro exI [of _ s] exI [of _ "[]"]) (simp add: coerceStringDecimal_def)
    next
      case 2
      define f where "f = replicate (n - length s) 48 @ s"
      have "map (\<lambda>c. if c = 32 then 48 else c) s = s"
        using s(3) digit_not_point by (intro map_idI) (auto simp: list_all_iff)
      then have "coerceStringDecimal x d = Some ([48] @ 46 # f)"
        using s(1) 2 n by (simp add: coerceStringDecimal_def f_def map_replicate)
      moreover have "list_all isdigit f" using s(3) by (auto simp: f_def list_all_iff isdigit_def)
      moreover have "number_of 10 (replicate m 48 @ s) = number_of 10 s" for m
        by (induction m) (simp_all add: number_of_Cons digit_val_0 [THEN iffD2])
      then have "number_of 10 ([48] @ f) = unat x" using s(2) by (simp add: f_def number_of_Cons digit_val_0 [THEN iffD2])
      ultimately show ?thesis using 2 n s(5)
        by (intro exI [of _ "[48]"] exI [of _ f] exI [of _ "[48] @ 46 # f"]) (simp add: f_def isdigit_def)
    next
      case 3
      let ?w = "take (length s - n) s" and ?f = "drop (length s - n) s"
      have "coerceStringDecimal x d = Some (?w @ 46 # ?f)" using s(1) 3 n by (simp add: coerceStringDecimal_def Let_def)
      moreover have "list_all isdigit ?w" "list_all isdigit ?f"
        using s(3) by (auto simp: list_all_iff dest: in_set_takeD in_set_dropD)
      ultimately show ?thesis using 3 s(2,4,5)
        by (intro exI [of _ ?w] exI [of _ ?f] exI [of _ "?w @ 46 # ?f"]) simp
    qed
  qed
  then obtain w f t where t: "coerceStringDecimal x d = Some t" "w \<noteq> []" "list_all isdigit w" "list_all isdigit f"
      "length w + length f + 1 < 100" "t = w @ 46 # f \<or> t = w \<and> f = []" "length f = n" "number_of 10 (w @ f) = unat x" by blast
  have "createUInt256ParseDecimal (Some t) (int n) = Some (x, CORE_PARSE_OK)"
    using decimal_parse_value [OF t(2-5) _ t(6-8)] n(2) by simp
  then show ?thesis using t(1) n(1) by auto
qed

theorem eth_decimal_roundtrip_witness:
  "\<exists>s. coerceStringDecimal 1000000000000000001 18 = Some s \<and>
    createUInt256ParseDecimal (Some s) 18 = Some (1000000000000000001, CORE_PARSE_OK)"
  by (rule eth_decimal_roundtrip) simp_all

text \<open>The integer functions are inverse in each of the three bases.\<close>

theorem eth_integer_roundtrip:
  assumes "base_ok base"
  shows "\<exists>s. coerceString x base = Some s \<and> createUInt256Parse s base = Some (x, CORE_PARSE_OK)"
proof -
  obtain s where "coerceString x base = Some s" "number_of base s = unat x" "digits base s" by (rule coerceString_value [OF assms])
  then show ?thesis using createUInt256Parse_digits [of base s] assms u256_less [of x] by simp
qed

end
