(* ===== verification/Rlp.thy ===== *)
theory Rlp
  imports EthParse "HOL-Library.Monad_Syntax"
begin

text \<open>
  The coder for the Recursive Length Prefix encoding of Ethereum, ethereum/rlp/BRRlpCoder.c. A coder owns an array of contexts, each
  the encoding of an item or of a list of items; an item of the interface is an index into that array, with the address of
  its coder. A pointer into the input is the list of the bytes of the memory object from there on; \<open>None\<close> is a failed assertion, a
  read outside of the object or of freed memory.

  The theorems: the coder produces the encodings of the Ethereum specification, and reads them back.
\<close>

section \<open>Items, contexts and the coder\<close>

datatype BRRlpItemType = CODER_ITEM | CODER_LIST

record BRRlpItem =
  item_coder :: nat
  indexer :: nat

record BRRlpContext =
  context_coder :: "nat option"
  context_type :: BRRlpItemType
  context_bytes :: "byte list"
  context_items :: "BRRlpItem list"

record BRRlpCoder =
  coder_self :: nat
  coder_contexts :: "BRRlpContext list"
  contextsAllocated :: nat

definition contextEmpty :: BRRlpContext where
  "contextEmpty = \<lparr>context_coder = None, context_type = CODER_ITEM, context_bytes = [], context_items = []\<rparr>"

definition contextIsValid :: "BRRlpContext \<Rightarrow> bool" where
  "contextIsValid c \<longleftrightarrow> context_coder c \<noteq> None"

definition createContextItem :: "BRRlpCoder \<Rightarrow> byte list \<Rightarrow> BRRlpContext" where
  "createContextItem coder bytes =
     contextEmpty\<lparr>context_coder := Some (coder_self coder), context_type := CODER_ITEM, context_bytes := bytes\<rparr>"

definition createContextList :: "BRRlpCoder \<Rightarrow> byte list \<Rightarrow> BRRlpItem list \<Rightarrow> BRRlpContext" where
  "createContextList coder bytes its = (createContextItem coder bytes)\<lparr>context_type := CODER_LIST, context_items := its\<rparr>"

definition createContextItemAppend :: "BRRlpCoder \<Rightarrow> BRRlpContext \<Rightarrow> BRRlpContext \<Rightarrow> BRRlpContext option" where
  "createContextItemAppend coder context1 context2 =
     (if context_type context1 = CODER_ITEM \<and> context_type context2 = CODER_ITEM \<and>
         context_coder context1 = Some (coder_self coder) \<and> context_coder context2 = Some (coder_self coder)
      then Some (createContextItem coder (context_bytes context1 @ context_bytes context2)) else None)"

definition CODER_DEFAULT_CONTEXTS :: nat where
  "CODER_DEFAULT_CONTEXTS = 10"

definition rlpCoderCreate :: "nat \<Rightarrow> BRRlpCoder" where
  "rlpCoderCreate address = \<lparr>coder_self = address, coder_contexts = [], contextsAllocated = CODER_DEFAULT_CONTEXTS\<rparr>"

definition coderIsValidItem :: "BRRlpCoder \<Rightarrow> BRRlpItem \<Rightarrow> bool" where
  "coderIsValidItem coder item \<longleftrightarrow> indexer item < length (coder_contexts coder) \<and> item_coder item = coder_self coder"

definition coderLookupContext :: "BRRlpCoder \<Rightarrow> BRRlpItem \<Rightarrow> BRRlpContext" where
  "coderLookupContext coder item = (if coderIsValidItem coder item then coder_contexts coder ! indexer item else contextEmpty)"

function coderAddContext :: "BRRlpCoder \<Rightarrow> BRRlpContext \<Rightarrow> BRRlpCoder \<times> BRRlpItem" where
  "coderAddContext coder context =
     (if length (coder_contexts coder) + 1 \<ge> contextsAllocated coder
      then coderAddContext (coder\<lparr>contextsAllocated := contextsAllocated coder + CODER_DEFAULT_CONTEXTS\<rparr>) context
      else (coder\<lparr>coder_contexts := coder_contexts coder @ [context]\<rparr>,
            \<lparr>item_coder = coder_self coder, indexer = length (coder_contexts coder)\<rparr>))"
  by pat_completeness auto
termination
  by (relation "measure (\<lambda>(coder, _). length (coder_contexts coder) + 2 - contextsAllocated coder)")
    (auto simp: CODER_DEFAULT_CONTEXTS_def)

declare coderAddContext.simps [simp del]

section \<open>Numbers and lengths\<close>

definition CODER_NUMBER_BYTES_LIMIT :: nat where
  "CODER_NUMBER_BYTES_LIMIT = 32"

definition findNonZeroIndex :: "byte list \<Rightarrow> nat" where
  "findNonZeroIndex bytes = length (takeWhile (\<lambda>b. b = 0) bytes)"

definition swapBytesIfLittleEndian :: "byte list \<Rightarrow> byte list" where
  "swapBytesIfLittleEndian source = rev source"

text \<open>The result is \<open>targetCount\<close> bytes of \<open>target\<close> from \<open>targetIndex\<close> on.\<close>

definition convertToBigEndianAndNormalize :: "byte list \<Rightarrow> byte list option" where
  "convertToBigEndianAndNormalize source =
     (if length source > CODER_NUMBER_BYTES_LIMIT then None
      else
        let target = swapBytesIfLittleEndian source;
            targetIndex = findNonZeroIndex target;
            targetCount = length source - targetIndex;
            (targetIndex, targetCount) = (if targetCount = 0 then (0, 1) else (targetIndex, targetCount))
        in mem_read target targetIndex targetCount)"

text \<open>The result is the contents of \<open>target\<close>; \<open>value[targetCount - bytesCount]\<close> is outside of \<open>value\<close> when there are too many bytes.\<close>

definition convertFromBigEndian :: "nat \<Rightarrow> byte list \<Rightarrow> nat \<Rightarrow> byte list option" where
  "convertFromBigEndian targetCount bytes bytesCount = do {
     source \<leftarrow> mem_read bytes 0 bytesCount;
     if bytesCount > targetCount then None
     else Some (swapBytesIfLittleEndian (replicate (targetCount - bytesCount) 0 @ source))
   }"

definition RLP_PREFIX_BYTES :: byte where
  "RLP_PREFIX_BYTES = 0x80"

definition RLP_PREFIX_LIST :: byte where
  "RLP_PREFIX_LIST = 0xc0"

definition RLP_PREFIX_LENGTH_LIMIT :: nat where
  "RLP_PREFIX_LENGTH_LIMIT = 55"

definition coderEncodeLength :: "BRRlpCoder \<Rightarrow> u64 \<Rightarrow> byte \<Rightarrow> BRRlpContext option" where
  "coderEncodeLength coder len baseline =
     (if unat len \<le> RLP_PREFIX_LENGTH_LIMIT then Some (createContextItem coder [baseline + ucast len])
      else do {
        bytes \<leftarrow> convertToBigEndianAndNormalize (UInt64SetLE len);
        Some (createContextItem coder ((baseline + of_nat RLP_PREFIX_LENGTH_LIMIT + of_nat (length bytes)) # bytes))
      })"

text \<open>The length and the offset of what follows it.\<close>

definition coderDecodeLength :: "byte list \<Rightarrow> byte \<Rightarrow> (u64 \<times> nat) option" where
  "coderDecodeLength bytes baseline =
     (case bytes of [] \<Rightarrow> None
      | prefix # rest \<Rightarrow>
          if prefix < baseline then Some (1, 0)
          else if unat prefix - unat baseline \<le> RLP_PREFIX_LENGTH_LIMIT then Some (of_nat (unat prefix - unat baseline), 1)
          else
            let lengthByteCount = unat prefix - unat baseline - RLP_PREFIX_LENGTH_LIMIT
            in if lengthByteCount > 8 then None
            else do { value \<leftarrow> convertFromBigEndian 8 rest lengthByteCount; Some (UInt64GetLE value, 1 + lengthByteCount) })"

definition coderEncodeBytes :: "BRRlpCoder \<Rightarrow> byte list \<Rightarrow> BRRlpContext option" where
  "coderEncodeBytes coder bytes =
     (if length bytes = 1 \<and> hd bytes < RLP_PREFIX_BYTES then Some (createContextItem coder bytes)
      else do {
        prefix \<leftarrow> coderEncodeLength coder (of_nat (length bytes)) RLP_PREFIX_BYTES;
        createContextItemAppend coder prefix (createContextItem coder bytes)
      })"

definition coderEncodeNumber :: "BRRlpCoder \<Rightarrow> byte list \<Rightarrow> BRRlpContext option" where
  "coderEncodeNumber coder source = do { bytes \<leftarrow> convertToBigEndianAndNormalize source; coderEncodeBytes coder bytes }"

definition coderDecodeNumber :: "nat \<Rightarrow> byte list \<Rightarrow> byte list option" where
  "coderDecodeNumber targetCount bytes = do {
     (len, offset) \<leftarrow> coderDecodeLength bytes RLP_PREFIX_BYTES;
     convertFromBigEndian targetCount (drop offset bytes) (unat len)
   }"

definition coderEncodeUInt64 :: "BRRlpCoder \<Rightarrow> u64 \<Rightarrow> BRRlpContext option" where
  "coderEncodeUInt64 coder value = coderEncodeNumber coder (UInt64SetLE value)"

definition coderDecodeUInt64 :: "BRRlpContext \<Rightarrow> u64 option" where
  "coderDecodeUInt64 context =
     (if contextIsValid context then map_option UInt64GetLE (coderDecodeNumber 8 (context_bytes context)) else None)"

definition coderEncodeUInt256 :: "BRRlpCoder \<Rightarrow> UInt256 \<Rightarrow> BRRlpContext option" where
  "coderEncodeUInt256 coder value = coderEncodeNumber coder (UInt256Set value)"

definition coderDecodeUInt256 :: "BRRlpContext \<Rightarrow> UInt256 option" where
  "coderDecodeUInt256 context =
     (if contextIsValid context then map_option UInt256Get (coderDecodeNumber 32 (context_bytes context)) else None)"

definition coderEncodeList :: "BRRlpCoder \<Rightarrow> BRRlpItem list \<Rightarrow> BRRlpContext option" where
  "coderEncodeList coder its =
     (if \<not> list_all (coderIsValidItem coder) its then None
      else do {
        let bytes = concat (map (\<lambda>item. context_bytes (coderLookupContext coder item)) its);
        prefix \<leftarrow> coderEncodeLength coder (of_nat (length bytes)) RLP_PREFIX_LIST;
        encoded \<leftarrow> (if bytes = [] then Some prefix else createContextItemAppend coder prefix (createContextItem coder bytes));
        Some (createContextList coder (context_bytes encoded) its)
      })"

section \<open>The interface: encoding\<close>

definition rlpEncodeItemBytes :: "BRRlpCoder \<Rightarrow> byte list \<Rightarrow> (BRRlpCoder \<times> BRRlpItem) option" where
  "rlpEncodeItemBytes coder bytes = map_option (coderAddContext coder) (coderEncodeBytes coder bytes)"

definition rlpEncodeItemString :: "BRRlpCoder \<Rightarrow> byte list option \<Rightarrow> (BRRlpCoder \<times> BRRlpItem) option" where
  "rlpEncodeItemString coder string = rlpEncodeItemBytes coder (case string of None \<Rightarrow> [] | Some s \<Rightarrow> s)"

definition rlpEncodeItemUInt64 :: "BRRlpCoder \<Rightarrow> u64 \<Rightarrow> bool \<Rightarrow> (BRRlpCoder \<times> BRRlpItem) option" where
  "rlpEncodeItemUInt64 coder value zeroAsEmptyString =
     (if zeroAsEmptyString \<and> value = 0 then rlpEncodeItemString coder (Some [])
      else map_option (coderAddContext coder) (coderEncodeUInt64 coder value))"

definition rlpEncodeItemUInt256 :: "BRRlpCoder \<Rightarrow> UInt256 \<Rightarrow> bool \<Rightarrow> (BRRlpCoder \<times> BRRlpItem) option" where
  "rlpEncodeItemUInt256 coder value zeroAsEmptyString =
     (if zeroAsEmptyString \<and> compareUInt256 value 0 = 0 then rlpEncodeItemString coder (Some [])
      else map_option (coderAddContext coder) (coderEncodeUInt256 coder value))"

definition rlpEncodeItemHexString :: "BRRlpCoder \<Rightarrow> byte list option \<Rightarrow> (BRRlpCoder \<times> BRRlpItem) option" where
  "rlpEncodeItemHexString coder string =
     (case string of None \<Rightarrow> rlpEncodeItemString coder None
      | Some s \<Rightarrow>
          let s = (if take 2 s = [48, 120] then drop 2 s else s)
          in if s = [] then rlpEncodeItemString coder (Some s)
          else do { bytes \<leftarrow> decodeHexCreate s; rlpEncodeItemBytes coder bytes })"

definition rlpEncodeListItems :: "BRRlpCoder \<Rightarrow> BRRlpItem list \<Rightarrow> (BRRlpCoder \<times> BRRlpItem) option" where
  "rlpEncodeListItems coder its = map_option (coderAddContext coder) (coderEncodeList coder its)"

definition rlpEncodeList :: "BRRlpCoder \<Rightarrow> BRRlpItem list \<Rightarrow> (BRRlpCoder \<times> BRRlpItem) option" where
  "rlpEncodeList coder its = map_option (coderAddContext coder) (coderEncodeList coder its)"

definition rlpEncodeList1 :: "BRRlpCoder \<Rightarrow> BRRlpItem \<Rightarrow> (BRRlpCoder \<times> BRRlpItem) option" where
  "rlpEncodeList1 coder item =
     (if coderIsValidItem coder item then map_option (coderAddContext coder) (coderEncodeList coder [item]) else None)"

text \<open>The second assertion of the code repeats the first.\<close>

definition rlpEncodeList2 :: "BRRlpCoder \<Rightarrow> BRRlpItem \<Rightarrow> BRRlpItem \<Rightarrow> (BRRlpCoder \<times> BRRlpItem) option" where
  "rlpEncodeList2 coder item1 item2 =
     (if coderIsValidItem coder item1 \<and> coderIsValidItem coder item1
      then map_option (coderAddContext coder) (coderEncodeList coder [item1, item2]) else None)"

section \<open>The interface: decoding\<close>

definition rlpDecodeItemIsEmptyString :: "BRRlpCoder \<Rightarrow> BRRlpItem \<Rightarrow> bool option" where
  "rlpDecodeItemIsEmptyString coder item =
     (if coderIsValidItem coder item
      then let context = coderLookupContext coder item
        in Some (context_type context = CODER_ITEM \<and> length (context_bytes context) = 1 \<and>
          RLP_PREFIX_BYTES \<le> hd (context_bytes context))
      else None)"

definition rlpDecodeItemIsString :: "BRRlpCoder \<Rightarrow> BRRlpItem \<Rightarrow> bool option" where
  "rlpDecodeItemIsString coder item =
     (if coderIsValidItem coder item
      then let context = coderLookupContext coder item
        in Some (context_type context = CODER_ITEM \<and> context_bytes context \<noteq> [] \<and>
          RLP_PREFIX_BYTES \<le> hd (context_bytes context) \<and> hd (context_bytes context) < RLP_PREFIX_LIST)
      else None)"

definition rlpDecodeItemUInt64 :: "BRRlpCoder \<Rightarrow> BRRlpItem \<Rightarrow> bool \<Rightarrow> u64 option" where
  "rlpDecodeItemUInt64 coder item zeroAsEmptyString = do {
     empty \<leftarrow> (if zeroAsEmptyString then rlpDecodeItemIsEmptyString coder item else Some False);
     if empty then Some 0 else coderDecodeUInt64 (coderLookupContext coder item)
   }"

definition rlpDecodeItemUInt256 :: "BRRlpCoder \<Rightarrow> BRRlpItem \<Rightarrow> bool \<Rightarrow> UInt256 option" where
  "rlpDecodeItemUInt256 coder item zeroAsEmptyString = do {
     empty \<leftarrow> (if zeroAsEmptyString then rlpDecodeItemIsEmptyString coder item else Some False);
     if empty then Some 0 else coderDecodeUInt256 (coderLookupContext coder item)
   }"

definition rlpDecodeItemBytes :: "BRRlpCoder \<Rightarrow> BRRlpItem \<Rightarrow> byte list option" where
  "rlpDecodeItemBytes coder item =
     (if \<not> coderIsValidItem coder item then None
      else do {
        let bytes = context_bytes (coderLookupContext coder item);
        (len, offset) \<leftarrow> coderDecodeLength bytes RLP_PREFIX_BYTES;
        mem_read bytes offset (unat len)
      })"

text \<open>The result is the allocated string without its final NUL. (With a length of \<open>2 ^ 64 - 1\<close> the read fails first.)\<close>

definition rlpDecodeItemString :: "BRRlpCoder \<Rightarrow> BRRlpItem \<Rightarrow> byte list option" where
  "rlpDecodeItemString coder item =
     (if \<not> coderIsValidItem coder item then None
      else do {
        let bytes = context_bytes (coderLookupContext coder item);
        (len, offset) \<leftarrow> coderDecodeLength bytes RLP_PREFIX_BYTES;
        mem_read bytes offset (unat len)
      })"

text \<open>Releasing data reads its first byte, which an empty block does not have.\<close>

definition rlpDataRelease :: "byte list option \<Rightarrow> unit option" where
  "rlpDataRelease data = (if data = Some [] then None else Some ())"

definition rlpDecodeItemHexString :: "BRRlpCoder \<Rightarrow> BRRlpItem \<Rightarrow> byte list option \<Rightarrow> byte list option" where
  "rlpDecodeItemHexString coder item prefix = do {
     data \<leftarrow> rlpDecodeItemBytes coder item;
     hex \<leftarrow> encodeHex (2 * length data + 1) data;
     _ \<leftarrow> rlpDataRelease (Some data);
     Some ((case prefix of None \<Rightarrow> [] | Some p \<Rightarrow> p) @ hex)
   }"

definition rlpDecodeList :: "BRRlpCoder \<Rightarrow> BRRlpItem \<Rightarrow> BRRlpItem list option option" where
  "rlpDecodeList coder item =
     (if \<not> coderIsValidItem coder item then None
      else
        let context = coderLookupContext coder item
        in Some (case context_type context of CODER_ITEM \<Rightarrow> None | CODER_LIST \<Rightarrow> Some (context_items context)))"

definition createRlpDataEmpty :: "byte list" where
  "createRlpDataEmpty = []"

definition rlpDataExtract :: "BRRlpCoder \<Rightarrow> BRRlpItem \<Rightarrow> byte list option" where
  "rlpDataExtract coder item =
     (if coderIsValidItem coder item then Some (context_bytes (coderLookupContext coder item)) else None)"

text \<open>The number of bytes of the item at \<open>bytes\<close>: a sum of \<open>size_t\<close>.\<close>

definition rlpGetItem_FillData :: "byte list \<Rightarrow> nat option" where
  "rlpGetItem_FillData bytes =
     (case bytes of [] \<Rightarrow> None
      | prefix # _ \<Rightarrow>
          if prefix \<ge> RLP_PREFIX_BYTES then do {
            (len, offset) \<leftarrow> coderDecodeLength bytes (if prefix < RLP_PREFIX_LIST then RLP_PREFIX_BYTES else RLP_PREFIX_LIST);
            Some (size_add (unat len) offset)
          }
          else Some 1)"

definition DEFAULT_ITEM_INCREMENT :: nat where
  "DEFAULT_ITEM_INCREMENT = 20"

lemma coderDecodeLength_offset:
  "coderDecodeLength bytes baseline = Some (len, offset) \<Longrightarrow> hd bytes \<ge> baseline \<Longrightarrow> bytes \<noteq> [] \<and> 0 < offset"
  by (cases bytes) (auto simp: coderDecodeLength_def Let_def split: if_splits bind_splits)

text \<open>
  \<open>rlpGetItem\<close> and its loop over the sub-items, where \<open>limit\<close> is the distance to \<open>bytesLimit\<close>. The test for a sub-item of 0 bytes is the assertion
  at the start of its recursive call. From 20 items on the array is moved to the heap, and freed before it is copied.
\<close>

function (sequential) rlpGetItem :: "BRRlpCoder \<Rightarrow> byte list \<Rightarrow> nat \<Rightarrow> (BRRlpCoder \<times> BRRlpItem) option"
  and rlpGetSubItems :: "BRRlpCoder \<Rightarrow> byte list \<Rightarrow> nat \<Rightarrow> (BRRlpCoder \<times> BRRlpItem list) option" where
  "rlpGetItem coder bytes bytesCount =
     (if bytesCount = 0 \<or> bytes = [] then None
      else if hd bytes < RLP_PREFIX_LIST then do {
        b \<leftarrow> mem_read bytes 0 bytesCount;
        Some (coderAddContext coder (createContextItem coder b))
      }
      else case coderDecodeLength bytes RLP_PREFIX_LIST of None \<Rightarrow> None
      | Some (len, offset) \<Rightarrow>
          if bytesCount \<noteq> size_add (unat len) offset then None
          else do {
            (coder, its) \<leftarrow> rlpGetSubItems coder (drop offset bytes) (bytesCount - offset);
            b \<leftarrow> mem_read bytes 0 bytesCount;
            if length its \<ge> DEFAULT_ITEM_INCREMENT then None
            else Some (coderAddContext coder (createContextList coder b its))
          })"
| "rlpGetSubItems coder bytes limit =
     (if limit = 0 then Some (coder, [])
      else case rlpGetItem_FillData bytes of None \<Rightarrow> None
      | Some count \<Rightarrow>
          if count = 0 then None
          else do {
            (coder, item) \<leftarrow> rlpGetItem coder bytes count;
            (coder, its) \<leftarrow> rlpGetSubItems coder (drop count bytes) (limit - count);
            Some (coder, item # its)
          })"
  by pat_completeness auto
termination
proof (relation "measure (\<lambda>x. case x of Inl (_, bytes, _) \<Rightarrow> 2 * length bytes | Inr (_, bytes, _) \<Rightarrow> 2 * length bytes + 1)", goal_cases)
  case 1
  show ?case by simp
next
  case (2 coder bytes bytesCount x len offset)
  then have "coderDecodeLength bytes RLP_PREFIX_LIST = Some (len, offset)" "RLP_PREFIX_LIST \<le> hd bytes" by auto
  from coderDecodeLength_offset [OF this] show ?case by (cases bytes) auto
next
  case 3
  then show ?case by simp
next
  case 4
  then show ?case by (auto simp: rlpGetItem_FillData_def split: list.splits)
qed

declare rlpGetItem.simps [simp del] rlpGetSubItems.simps [simp del]

section \<open>The specification\<close>

text \<open>Recursive Length Prefix, as the Ethereum specification defines it.\<close>

datatype rlp = Str "byte list" | Lst "rlp list"

fun big_endian :: "nat \<Rightarrow> byte list" where
  "big_endian n = (if n = 0 then [] else big_endian (n div 256) @ [of_nat n])"

declare big_endian.simps [simp del]

definition rlp_prefix :: "nat \<Rightarrow> byte \<Rightarrow> byte list" where
  "rlp_prefix n base =
     (if n \<le> 55 then [base + of_nat n] else (base + 55 + of_nat (length (big_endian n))) # big_endian n)"

fun rlp_encode :: "rlp \<Rightarrow> byte list" where
  "rlp_encode (Str b) = (if length b = 1 \<and> hd b < 0x80 then b else rlp_prefix (length b) 0x80 @ b)"
| "rlp_encode (Lst xs) = (let p = concat (map rlp_encode xs) in rlp_prefix (length p) 0xc0 @ p)"

lemma big_endian_0: "big_endian 0 = []"
  by (simp add: big_endian.simps)

lemma big_endian_step: "big_endian (unat (b :: byte) + 256 * n) = (if b = 0 \<and> n = 0 then [] else big_endian n @ [b])"
proof (cases "b = 0 \<and> n = 0")
  case False
  then have "unat b + 256 * n \<noteq> 0" by (auto simp: unat_eq_zero)
  moreover have "(unat b + 256 * n) div 256 = n" by simp
  moreover have "of_nat (unat b + 256 * n) = b"
    by (rule word_unat_eq_iff [THEN iffD2]) (simp only: unat_of_nat_byte, simp)
  ultimately show ?thesis using False by (subst big_endian.simps) simp
qed (simp add: big_endian_0)

lemma big_endian_eq_Nil: "big_endian n = [] \<longleftrightarrow> n = 0"
  by (subst big_endian.simps) simp

lemma strip_rev: "dropWhile (\<lambda>b. b = 0) (rev bs) = big_endian (le_val bs)"
proof (induction bs)
  case Nil
  show ?case by (simp add: big_endian_0)
next
  case (Cons b bs)
  have "dropWhile (\<lambda>b. b = 0) (rev bs) = [] \<longleftrightarrow> (\<forall>x \<in> set (rev bs). x = 0)" by (simp only: dropWhile_eq_Nil_conv)
  then have "(\<forall>x \<in> set bs. x = 0) \<longleftrightarrow> le_val bs = 0" unfolding Cons big_endian_eq_Nil by simp
  then show ?case using Cons
    using big_endian_step [of b 0]
    by (cases "le_val bs = 0") (auto simp: dropWhile_append big_endian_step big_endian_0 simp del: dropWhile_eq_Nil_conv)
qed

lemma le_val_big_endian: "le_val (rev (big_endian n)) = n"
proof (induction n rule: big_endian.induct)
  case (1 n)
  show ?case
  proof (cases "n = 0")
    case False
    then show ?thesis using 1 by (subst big_endian.simps) (simp add: unat_of_nat_byte)
  qed (simp add: big_endian_0)
qed

lemma length_big_endian: "n < 256 ^ k \<Longrightarrow> length (big_endian n) \<le> k"
proof (induction k arbitrary: n)
  case (Suc k)
  then have "n div 256 < 256 ^ k" by (simp add: less_mult_imp_div_less mult.commute)
  then show ?case using Suc.IH by (subst big_endian.simps) auto
qed (simp add: big_endian_0)

lemma UInt64GetLE_le_val: "length b = 8 \<Longrightarrow> UInt64GetLE b = of_nat (le_val b)"
proof -
  assume l: "length b = 8"
  have "b = UInt64SetLE (of_nat (le_val b))"
    using le_val_bound [of b] l le_bytes_le_val [of b] by (simp add: UIntSetLE_le_bytes unat_of_nat)
  then show ?thesis by (metis uint_get_set0(6))
qed

lemma UInt256Get_le_val: "length b = 32 \<Longrightarrow> UInt256Get b = of_nat (le_val b)"
  by (metis le_val_UInt256Set UInt256Set_Get word_eq_of_unat)

text \<open>A number, and the numeral that the coder takes for it.\<close>

definition rlp_number :: "nat \<Rightarrow> byte list" where
  "rlp_number n = (if n = 0 then [0] else big_endian n)"

lemma le_val_rlp_number: "le_val (rev (rlp_number n)) = n"
  by (simp add: rlp_number_def le_val_big_endian)

lemma length_rlp_number: "n < 256 ^ k \<Longrightarrow> 0 < k \<Longrightarrow> length (rlp_number n) \<le> k \<and> rlp_number n \<noteq> []"
  using length_big_endian [of n k] by (auto simp: rlp_number_def big_endian_eq_Nil)

lemma convertToBigEndianAndNormalize_eq:
  assumes "length source \<le> 32" "source \<noteq> []"
  shows "convertToBigEndianAndNormalize source = Some (rlp_number (le_val source))"
proof -
  define t where "t = rev source"
  define k where "k = length (takeWhile (\<lambda>b. b = 0) t)"
  have t: "length t = length source" "t \<noteq> []" using assms(2) by (simp_all add: t_def)
  have d: "drop k t = big_endian (le_val source)" using strip_rev [of source] by (simp add: dropWhile_eq_drop k_def t_def)
  have k: "k \<le> length source" unfolding k_def t(1) [symmetric] by (rule length_takeWhile_le)
  have c: "convertToBigEndianAndNormalize source =
      (let n = length source - k; (i, n) = (if n = 0 then (0, 1) else (k, n)) in mem_read t i n)"
    using assms(1) by (simp add: convertToBigEndianAndNormalize_def CODER_NUMBER_BYTES_LIMIT_def findNonZeroIndex_def
      swapBytesIfLittleEndian_def k_def t_def Let_def)
  show ?thesis
  proof (cases "le_val source = 0")
    case True
    then have "length (drop k t) = 0" unfolding d by (simp add: big_endian_0)
    then have e: "k = length source" using k by (simp add: t(1))
    have "takeWhile (\<lambda>b. b = 0) t = take k t" unfolding k_def by (rule takeWhile_eq_take)
    also have "\<dots> = t" by (rule take_all) (simp add: e t(1))
    finally have "\<forall>x \<in> set t. x = 0" by (simp only: takeWhile_eq_all_conv)
    then have "take 1 t = [0]" using t(2) by (cases t) auto
    moreover have "1 \<le> length t" using t(2) by (simp add: Suc_le_eq)
    ultimately show ?thesis using True e by (simp add: c mem_read_def rlp_number_def)
  next
    case False
    then have "drop k t \<noteq> []" unfolding d big_endian_eq_Nil .
    then have "k < length source" by (simp add: t(1))
    moreover have "length (big_endian (le_val source)) = length source - k" using arg_cong [OF d, of length] by (simp add: t(1))
    ultimately show ?thesis using False d t(1) by (simp add: c mem_read_def rlp_number_def)
  qed
qed

lemma convertFromBigEndian_eq:
  assumes "length src \<le> k"
  shows "convertFromBigEndian k (src @ rest) (length src) = Some (rev (replicate (k - length src) 0 @ src))"
  using assms by (simp add: convertFromBigEndian_def mem_read_def swapBytesIfLittleEndian_def)

lemma le_val_padded: "le_val (rev (replicate n 0 @ src)) = le_val (rev src)"
  by (simp add: le_val_append) (induction n; simp add: le_val_append)

section \<open>Prefixes\<close>

lemma length_rlp_prefix: "rlp_prefix n base \<noteq> []"
  by (simp add: rlp_prefix_def)

lemma coderEncodeLength_eq:
  assumes "n < 2 ^ 64"
  shows "coderEncodeLength coder (of_nat n) base = Some (createContextItem coder (rlp_prefix n base))"
proof -
  have u: "unat (of_nat n :: u64) = n" unfolding unat_of_nat using assms by (intro mod_less) simp
  have b: "ucast (of_nat n :: u64) = (of_nat n :: byte)"
    by (rule word_unat_eq_iff [THEN iffD2]) (simp only: unsigned_ucast_eq u unat_of_nat take_bit_eq_mod len_num0 len_bit0 len_num1 len_bit1, simp add: mod_mod_cancel)
  have v: "le_val (UInt64SetLE (of_nat n)) = n" using assms by (simp add: UIntSetLE_le_bytes le_val_le_bytes u)
  show ?thesis
  proof (cases "n \<le> 55")
    case False
    have "UInt64SetLE (of_nat n) \<noteq> []" by (rule length_greater_0_conv [THEN iffD1]) simp
    then have "convertToBigEndianAndNormalize (UInt64SetLE (of_nat n)) = Some (rlp_number n)"
      using convertToBigEndianAndNormalize_eq [of "UInt64SetLE (of_nat n)"] by (simp add: v)
    then show ?thesis
      using False by (simp add: coderEncodeLength_def u rlp_prefix_def RLP_PREFIX_LENGTH_LIMIT_def rlp_number_def)
  qed (simp add: coderEncodeLength_def u b rlp_prefix_def RLP_PREFIX_LENGTH_LIMIT_def)
qed

lemma unat_prefix:
  assumes "base = 0x80 \<or> base = (0xc0 :: byte)" "k < 64"
  shows "unat (base + of_nat k) = unat base + k"
proof -
  have "unat (of_nat k :: byte) = k" unfolding unat_of_nat_byte using assms(2) by simp
  then show ?thesis using assms by (auto simp: unat_word_ariths)
qed

lemma rlp_prefix_hd:
  assumes "base = 0x80 \<or> base = (0xc0 :: byte)" "n < 2 ^ 64"
  obtains k where "hd (rlp_prefix n base) = base + of_nat k" "k < 64" "k \<le> 55 \<and> rlp_prefix n base = [base + of_nat k] \<and> n = k \<or>
    55 < k \<and> rlp_prefix n base = (base + of_nat k) # big_endian n \<and> length (big_endian n) = k - 55"
proof (cases "n \<le> 55")
  case True
  then show thesis by (intro that [of n]) (simp_all add: rlp_prefix_def)
next
  case False
  define l where "l = length (big_endian n)"
  have "l \<le> 8" unfolding l_def using assms(2) by (intro length_big_endian) simp
  moreover have "0 < l" using False by (auto simp: l_def big_endian_eq_Nil)
  moreover have "base + 55 + of_nat l = base + (of_nat (55 + l) :: byte)" by (simp add: add.assoc)
  ultimately show thesis using False
    by (intro that [of "55 + l"]) (simp_all add: rlp_prefix_def flip: l_def)
qed

lemma coderDecodeLength_prefix:
  assumes "base = 0x80 \<or> base = (0xc0 :: byte)" "n < 2 ^ 64"
  shows "coderDecodeLength (rlp_prefix n base @ rest) base = Some (of_nat n, length (rlp_prefix n base))"
proof -
  obtain k where k: "k < 64" "k \<le> 55 \<and> rlp_prefix n base = [base + of_nat k] \<and> n = k \<or>
    55 < k \<and> rlp_prefix n base = (base + of_nat k) # big_endian n \<and> length (big_endian n) = k - 55"
    by (rule rlp_prefix_hd [OF assms])
  note u = unat_prefix [OF assms(1) k(1)]
  have ge: "\<not> base + of_nat k < base" by (simp add: word_less_nat_alt u)
  from k(2) show ?thesis
  proof
    assume "k \<le> 55 \<and> rlp_prefix n base = [base + of_nat k] \<and> n = k"
    then have "rlp_prefix n base = [base + of_nat k]" "n = k" "k \<le> 55" by blast+
    then show ?thesis using ge u by (simp add: coderDecodeLength_def RLP_PREFIX_LENGTH_LIMIT_def)
  next
    assume a: "55 < k \<and> rlp_prefix n base = (base + of_nat k) # big_endian n \<and> length (big_endian n) = k - 55"
    have "k - 55 \<le> 8" using k(1) by simp
    then have c: "convertFromBigEndian 8 (big_endian n @ rest) (k - 55) = Some (rev (replicate (8 - (k - 55)) 0 @ big_endian n))"
      using a convertFromBigEndian_eq [of "big_endian n" 8 rest] by simp
    have "UInt64GetLE (rev (replicate (8 - (k - 55)) 0 @ big_endian n)) = of_nat n"
      using a \<open>k - 55 \<le> 8\<close> by (subst UInt64GetLE_le_val) (simp_all only: le_val_padded le_val_big_endian, simp)
    then show ?thesis using a c ge u k(1) by (simp add: coderDecodeLength_def RLP_PREFIX_LENGTH_LIMIT_def Let_def)
  qed
qed

section \<open>Items that stand for values\<close>

definition extends :: "BRRlpCoder \<Rightarrow> BRRlpCoder \<Rightarrow> bool" where
  "extends c c' \<longleftrightarrow> coder_self c' = coder_self c \<and> (\<exists>xs. coder_contexts c' = coder_contexts c @ xs)"

definition holds :: "BRRlpCoder \<Rightarrow> BRRlpItem \<Rightarrow> BRRlpItemType \<Rightarrow> byte list \<Rightarrow> bool" where
  "holds c it ty bytes \<longleftrightarrow> coderIsValidItem c it \<and> context_coder (coderLookupContext c it) = Some (coder_self c) \<and>
     context_type (coderLookupContext c it) = ty \<and> context_bytes (coderLookupContext c it) = bytes"

fun denotes :: "BRRlpCoder \<Rightarrow> BRRlpItem \<Rightarrow> rlp \<Rightarrow> bool" where
  "denotes c it (Str b) \<longleftrightarrow> holds c it CODER_ITEM (rlp_encode (Str b))"
| "denotes c it (Lst xs) \<longleftrightarrow> holds c it CODER_LIST (rlp_encode (Lst xs)) \<and>
     list_all2 (\<lambda>it x. denotes c it x) (context_items (coderLookupContext c it)) xs"

lemma extends_refl: "extends c c"
  by (simp add: extends_def)

lemma extends_trans: "extends a b \<Longrightarrow> extends b c \<Longrightarrow> extends a c"
  by (auto simp: extends_def)

lemma extends_lookup:
  "extends c c' \<Longrightarrow> coderIsValidItem c it \<Longrightarrow> coderIsValidItem c' it \<and> coderLookupContext c' it = coderLookupContext c it"
  by (auto simp: extends_def coderIsValidItem_def coderLookupContext_def nth_append)

lemma extends_holds: "extends c c' \<Longrightarrow> holds c it ty b \<Longrightarrow> holds c' it ty b"
  using extends_lookup [of c c' it] by (auto simp: holds_def extends_def)

lemma extends_denotes: "extends c c' \<Longrightarrow> denotes c it r \<Longrightarrow> denotes c' it r"
proof (induction r arbitrary: it)
  case (Str b)
  then show ?case using extends_holds by simp
next
  case (Lst xs)
  have "coderIsValidItem c it" using Lst.prems(2) by (simp add: holds_def)
  note l = extends_lookup [OF Lst.prems(1) this]
  have "list_all2 (denotes c) (context_items (coderLookupContext c it)) xs" using Lst.prems(2) by simp
  then have "list_all2 (denotes c') (context_items (coderLookupContext c it)) xs"
    by (rule list.rel_mono_strong) (use Lst in blast)
  then show ?case using Lst.prems extends_holds by (simp add: l)
qed

lemma denotes_valid: "denotes c it r \<Longrightarrow> coderIsValidItem c it \<and> context_coder (coderLookupContext c it) = Some (coder_self c) \<and>
    context_bytes (coderLookupContext c it) = rlp_encode r"
  by (cases r) (auto simp: holds_def)

text \<open>Adding a context gives an item for it and keeps the others.\<close>

lemma coderAddContext_adds:
  "\<exists>c' it. coderAddContext coder ctx = (c', it) \<and> extends coder c' \<and> coderIsValidItem c' it \<and> coderLookupContext c' it = ctx"
proof (induction coder ctx rule: coderAddContext.induct)
  case (1 coder ctx)
  show ?case
  proof (cases "length (coder_contexts coder) + 1 \<ge> contextsAllocated coder")
    case True
    then show ?thesis using 1 [OF True] by (subst coderAddContext.simps) (auto simp: extends_def)
  next
    case False
    then show ?thesis by (subst coderAddContext.simps) (simp add: extends_def coderIsValidItem_def coderLookupContext_def)
  qed
qed

lemma rlp_prefix_Str:
  assumes "n < 2 ^ 64"
  shows "hd (rlp_prefix n 0x80) \<ge> 0x80 \<and> hd (rlp_prefix n 0x80) < 0xc0"
proof -
  obtain k where k: "hd (rlp_prefix n 0x80) = 0x80 + of_nat k" "k < 64" by (rule rlp_prefix_hd [where base = "0x80" and n = n]) (use assms in auto)
  have "unat (0x80 + of_nat k :: byte) = 128 + k" using unat_prefix [of "0x80" k] k(2) by simp
  then show ?thesis using k by (simp add: word_less_nat_alt word_le_nat_alt)
qed

lemma rlp_prefix_Lst:
  assumes "n < 2 ^ 64"
  shows "hd (rlp_prefix n 0xc0) \<ge> 0xc0"
proof -
  obtain k where k: "hd (rlp_prefix n 0xc0) = 0xc0 + of_nat k" "k < 64" by (rule rlp_prefix_hd [where base = "0xc0" and n = n]) (use assms in auto)
  have "unat (0xc0 + of_nat k :: byte) = 192 + k" using unat_prefix [of "0xc0" k] k(2) by simp
  then show ?thesis using k by (simp add: word_le_nat_alt)
qed

lemma rlp_encode_nonempty: "rlp_encode r \<noteq> []"
  by (cases r) (auto simp: length_rlp_prefix Let_def)

lemma FillData_encode:
  assumes "length (rlp_encode r) < 2 ^ 64"
  shows "rlpGetItem_FillData (rlp_encode r @ rest) = Some (length (rlp_encode r))"
proof -
  have pre: "rlpGetItem_FillData (rlp_prefix n base @ p @ rest) = Some (length (rlp_prefix n base) + n)"
    if "base = (if b = 0x80 then 0x80 else 0xc0)" "b = 0x80 \<or> b = (0xc0 :: byte)" "n < 2 ^ 64" "length (rlp_prefix n base) + n < 2 ^ 64" for base b n p
  proof -
    have base: "base = 0x80 \<or> base = 0xc0" using that(1,2) by auto
    obtain h t where ht: "rlp_prefix n base = h # t" using length_rlp_prefix by (cases "rlp_prefix n base") auto
    have h: "h \<ge> RLP_PREFIX_BYTES" "(if h < RLP_PREFIX_LIST then RLP_PREFIX_BYTES else RLP_PREFIX_LIST) = base"
      using base rlp_prefix_Str [OF that(3)] rlp_prefix_Lst [OF that(3)] ht
      by (auto simp: RLP_PREFIX_BYTES_def RLP_PREFIX_LIST_def word_less_nat_alt word_le_nat_alt)
    have "unat (of_nat n :: u64) = n" unfolding unat_of_nat using that(3) by (intro mod_less) simp
    then show ?thesis using coderDecodeLength_prefix [OF base that(3), of "p @ rest"] h that(4) size_add_small [of n "length (rlp_prefix n base)"]
      by (simp add: ht rlpGetItem_FillData_def add.commute)
  qed
  show ?thesis
  proof (cases r)
    case (Str b)
    show ?thesis
    proof (cases "length b = 1 \<and> hd b < 0x80")
      case True
      then obtain x where "b = [x]" "x < 0x80" by (cases b) auto
      then show ?thesis by (simp add: Str rlpGetItem_FillData_def RLP_PREFIX_BYTES_def not_le [THEN iffD2])
    next
      case False
      then have e: "rlp_encode r = rlp_prefix (length b) 0x80 @ b" by (simp only: Str rlp_encode.simps if_False)
      show ?thesis
        using pre [where base = "0x80" and b = "0x80" and n = "length b" and p = b] assms unfolding e by simp
    qed
  next
    case (Lst xs)
    then show ?thesis
      using pre [where base = "0xc0" and b = "0xc0" and n = "length (concat (map rlp_encode xs))" and p = "concat (map rlp_encode xs)"] assms by (simp add: Let_def)
  qed
qed

text \<open>The values whose lists have fewer than 20 items at every level.\<close>

fun narrow :: "rlp \<Rightarrow> bool" where
  "narrow (Str b) \<longleftrightarrow> True"
| "narrow (Lst xs) \<longleftrightarrow> length xs < 20 \<and> (\<forall>x \<in> set xs. narrow x)"

lemma hd_encode_Str: "length (rlp_encode (Str b)) < 2 ^ 64 \<Longrightarrow> hd (rlp_encode (Str b)) < 0xc0"
  using rlp_prefix_Str [of "length b"] length_rlp_prefix [of "length b" "0x80"]
  by (auto simp: word_less_nat_alt)

lemma get_Str:
  assumes "length (rlp_encode (Str b)) < 2 ^ 64"
  shows "\<exists>c' it. rlpGetItem c (rlp_encode (Str b) @ rest) (length (rlp_encode (Str b))) = Some (c', it) \<and>
    extends c c' \<and> denotes c' it (Str b)"
proof -
  let ?e = "rlp_encode (Str b)"
  have e: "?e \<noteq> []" "hd (?e @ rest) < RLP_PREFIX_LIST"
    using rlp_encode_nonempty [of "Str b"] hd_encode_Str [OF assms] by (simp_all add: RLP_PREFIX_LIST_def del: rlp_encode.simps)
  obtain c' it where a: "coderAddContext c (createContextItem c ?e) = (c', it)" "extends c c'" "coderIsValidItem c' it"
    "coderLookupContext c' it = createContextItem c ?e"
    using coderAddContext_adds [of c "createContextItem c ?e"] by blast
  have "rlpGetItem c (?e @ rest) (length ?e) = Some (c', it)"
    using e a(1) by (subst rlpGetItem.simps) (simp add: mem_read_def del: rlp_encode.simps)
  moreover have "denotes c' it (Str b)"
    using a(2-4) by (simp add: holds_def createContextItem_def contextEmpty_def extends_def del: rlp_encode.simps)
  ultimately show ?thesis using a(2) by blast
qed

lemma get_subs:
  assumes "\<And>x c rest. x \<in> set xs \<Longrightarrow> \<exists>c' it. rlpGetItem c (rlp_encode x @ rest) (length (rlp_encode x)) = Some (c', it) \<and>
      extends c c' \<and> denotes c' it x"
    and "length (concat (map rlp_encode xs)) < 2 ^ 64"
  shows "\<exists>c' its. rlpGetSubItems c (concat (map rlp_encode xs) @ rest) (length (concat (map rlp_encode xs))) = Some (c', its) \<and>
    extends c c' \<and> list_all2 (denotes c') its xs"
  using assms
proof (induction xs arbitrary: c)
  case Nil
  then show ?case by (subst rlpGetSubItems.simps) (auto intro: extends_refl)
next
  case (Cons x xs)
  let ?r = "concat (map rlp_encode xs) @ rest"
  have l: "length (rlp_encode x) < 2 ^ 64" "length (concat (map rlp_encode xs)) < 2 ^ 64" using Cons.prems(2) by auto
  obtain c1 it where 1: "rlpGetItem c (rlp_encode x @ ?r) (length (rlp_encode x)) = Some (c1, it)" "extends c c1" "denotes c1 it x"
    using Cons.prems(1) [of x c ?r] by auto
  obtain c2 its where 2: "rlpGetSubItems c1 ?r (length (concat (map rlp_encode xs))) = Some (c2, its)" "extends c1 c2"
    "list_all2 (denotes c2) its xs"
    using Cons.IH [OF Cons.prems(1) l(2), of c1] by force
  have "rlpGetSubItems c (rlp_encode x @ ?r) (length (rlp_encode x) + length (concat (map rlp_encode xs))) = Some (c2, it # its)"
    using FillData_encode [OF l(1), of ?r] rlp_encode_nonempty [of x] 1(1) 2(1) by (subst rlpGetSubItems.simps) simp
  moreover have "denotes c2 it x" using extends_denotes [OF 2(2) 1(3)] .
  ultimately show ?case using 2(3) extends_trans [OF 1(2) 2(2)] by auto
qed

lemma get_item:
  "narrow r \<Longrightarrow> length (rlp_encode r) < 2 ^ 64 \<Longrightarrow>
    \<exists>c' it. rlpGetItem c (rlp_encode r @ rest) (length (rlp_encode r)) = Some (c', it) \<and> extends c c' \<and> denotes c' it r"
proof (induction r arbitrary: c rest)
  case (Str b)
  then show ?case by (intro get_Str)
next
  case (Lst xs)
  let ?p = "concat (map rlp_encode xs)"
  let ?h = "rlp_prefix (length ?p) 0xc0"
  have e: "rlp_encode (Lst xs) = ?h @ ?p" by (simp add: Let_def)
  have l: "length ?p < 2 ^ 64" "length ?h + length ?p < 2 ^ 64" using Lst.prems(2) by (auto simp: Let_def)
  have elem: "length (rlp_encode x) \<le> length ?p" if "x \<in> set xs" for x
    using that by (auto simp: length_concat intro!: member_le_sum_list)
  have subs: "\<exists>c' it. rlpGetItem c (rlp_encode x @ rest) (length (rlp_encode x)) = Some (c', it) \<and> extends c c' \<and> denotes c' it x"
    if "x \<in> set xs" for x c rest
    using Lst.IH [OF that] Lst.prems(1) elem [OF that] l(1) that by simp
  obtain c1 its where 1: "rlpGetSubItems c (?p @ rest) (length ?p) = Some (c1, its)" "extends c c1" "list_all2 (denotes c1) its xs"
    using get_subs [OF subs l(1)] by blast
  have "length its = length xs" using 1(3) by (rule list_all2_lengthD)
  then have n: "length its < DEFAULT_ITEM_INCREMENT" using Lst.prems(1) by (simp add: DEFAULT_ITEM_INCREMENT_def)
  let ?x = "createContextList c1 (?h @ ?p) its"
  obtain c' it where a: "coderAddContext c1 ?x = (c', it)" "extends c1 c'" "coderIsValidItem c' it" "coderLookupContext c' it = ?x"
    using coderAddContext_adds [of c1 ?x] by blast
  have "unat (of_nat (length ?p) :: u64) = length ?p" unfolding unat_of_nat using l(1) by (intro mod_less) simp
  moreover have "coderDecodeLength (?h @ ?p @ rest) RLP_PREFIX_LIST = Some (of_nat (length ?p), length ?h)"
    unfolding RLP_PREFIX_LIST_def by (rule coderDecodeLength_prefix) (use l(1) in auto)
  moreover have "\<not> hd (?h @ ?p @ rest) < RLP_PREFIX_LIST"
    using rlp_prefix_Lst [OF l(1)] length_rlp_prefix [of "length ?p" "0xc0"] by (simp add: RLP_PREFIX_LIST_def not_less)
  ultimately have "rlpGetItem c (rlp_encode (Lst xs) @ rest) (length (rlp_encode (Lst xs))) = Some (c', it)"
    using l size_add_small [of "length ?p" "length ?h"] length_rlp_prefix [of "length ?p" "0xc0"] 1(1) n a(1) unfolding e
    by (subst rlpGetItem.simps) (simp add: add.commute mem_read_def)
  moreover have "denotes c' it (Lst xs)"
  proof -
    have "list_all2 (denotes c') its xs" using 1(3) by (rule list.rel_mono_strong) (use extends_denotes [OF a(2)] in blast)
    then show ?thesis using a(2-4) e by (simp add: holds_def createContextList_def createContextItem_def contextEmpty_def extends_def)
  qed
  ultimately show ?case using extends_trans [OF 1(2) a(2)] by blast
qed

section \<open>Encoding\<close>

lemma add_holds:
  assumes "e = createContextItem c b"
  shows "\<exists>c' it. coderAddContext c e = (c', it) \<and> extends c c' \<and> holds c' it CODER_ITEM b"
  using coderAddContext_adds [of c e] assms
  by (auto simp: holds_def createContextItem_def contextEmpty_def extends_def)

lemma coderEncodeBytes_eq:
  assumes "length b < 2 ^ 64"
  shows "coderEncodeBytes c b = Some (createContextItem c (rlp_encode (Str b)))"
proof (cases "length b = 1 \<and> hd b < 0x80")
  case False
  have "createContextItemAppend c (createContextItem c x) (createContextItem c y) = Some (createContextItem c (x @ y))" for x y
    by (simp add: createContextItemAppend_def createContextItem_def)
  then show ?thesis using coderEncodeLength_eq [OF assms, of c RLP_PREFIX_BYTES] False
    by (auto simp: coderEncodeBytes_def RLP_PREFIX_BYTES_def)
qed (simp add: coderEncodeBytes_def RLP_PREFIX_BYTES_def)

lemma encode_bytes:
  assumes "length b < 2 ^ 64"
  shows "\<exists>c' it. rlpEncodeItemBytes c b = Some (c', it) \<and> extends c c' \<and> denotes c' it (Str b)"
  using add_holds [OF refl, of c "rlp_encode (Str b)"] by (simp add: rlpEncodeItemBytes_def coderEncodeBytes_eq [OF assms] del: rlp_encode.simps) 

lemma encode_list:
  assumes "list_all2 (denotes c) its xs" "length (concat (map rlp_encode xs)) < 2 ^ 64"
  shows "\<exists>c' it. rlpEncodeListItems c its = Some (c', it) \<and> extends c c' \<and> denotes c' it (Lst xs)"
proof -
  let ?p = "concat (map rlp_encode xs)"
  have v: "list_all (coderIsValidItem c) its"
    using assms(1) by (auto simp: list_all2_conv_all_nth list_all_length dest: denotes_valid)
  have b: "map (\<lambda>item. context_bytes (coderLookupContext c item)) its = map rlp_encode xs"
    using assms(1) by (induction rule: list_all2_induct) (auto dest: denotes_valid)
  let ?x = "createContextList c (rlp_encode (Lst xs)) its"
  have "coderEncodeList c its = Some ?x"
    using v coderEncodeLength_eq [OF assms(2), of c RLP_PREFIX_LIST]
    by (auto simp: coderEncodeList_def b Let_def RLP_PREFIX_LIST_def createContextItemAppend_def createContextItem_def
      createContextList_def contextEmpty_def)
  moreover obtain c' it where a: "coderAddContext c ?x = (c', it)" "extends c c'" "coderIsValidItem c' it" "coderLookupContext c' it = ?x"
    using coderAddContext_adds [of c ?x] by blast
  moreover have "list_all2 (denotes c') its xs"
    using assms(1) by (rule list.rel_mono_strong) (use extends_denotes [OF a(2)] in blast)
  ultimately show ?thesis
    by (simp add: rlpEncodeListItems_def holds_def createContextList_def createContextItem_def contextEmpty_def extends_def Let_def)
qed

section \<open>Decoding\<close>

lemma decode_encoded_length:
  assumes "length b < 2 ^ 64"
  shows "\<exists>offset. coderDecodeLength (rlp_encode (Str b)) RLP_PREFIX_BYTES = Some (of_nat (length b), offset) \<and>
    drop offset (rlp_encode (Str b)) = b \<and> offset + length b = length (rlp_encode (Str b))"
proof (cases "length b = 1 \<and> hd b < 0x80")
  case True
  then obtain x where "b = [x]" "x < 0x80" by (cases b) auto
  then show ?thesis by (simp add: coderDecodeLength_def RLP_PREFIX_BYTES_def)
next
  case False
  then have e: "rlp_encode (Str b) = rlp_prefix (length b) 0x80 @ b" by (simp only: rlp_encode.simps if_False)
  have "coderDecodeLength (rlp_prefix (length b) 0x80 @ b) RLP_PREFIX_BYTES = Some (of_nat (length b), length (rlp_prefix (length b) 0x80))"
    unfolding RLP_PREFIX_BYTES_def by (rule coderDecodeLength_prefix) (use assms in auto)
  then show ?thesis unfolding e by simp
qed

lemma unat_length: "n < 2 ^ 64 \<Longrightarrow> unat (of_nat n :: u64) = n"
  unfolding unat_of_nat by (intro mod_less) simp

lemma decode_number:
  assumes "length b \<le> k" "k < 2 ^ 64"
  shows "coderDecodeNumber k (rlp_encode (Str b)) = Some (rev (replicate (k - length b) 0 @ b))"
proof -
  have b: "length b < 2 ^ 64" using assms by simp
  obtain offset where o: "coderDecodeLength (rlp_encode (Str b)) RLP_PREFIX_BYTES = Some (of_nat (length b), offset)"
    "drop offset (rlp_encode (Str b)) = b" using decode_encoded_length [OF b] by blast
  show ?thesis using convertFromBigEndian_eq [OF assms(1), of "[]"] by (simp add: coderDecodeNumber_def o unat_length [OF b] del: rlp_encode.simps)
qed

lemma decode_bytes:
  assumes "denotes c it (Str b)" "length b < 2 ^ 64"
  shows "rlpDecodeItemBytes c it = Some b"
  using assms(1) decode_encoded_length [OF assms(2)]
  by (auto simp: rlpDecodeItemBytes_def holds_def unat_length [OF assms(2)] mem_read_def simp del: rlp_encode.simps)

lemma rlp_number_single: "rlp_number n = [x] \<Longrightarrow> n = unat x"
  using le_val_rlp_number [of n] by simp

lemma decode_number_value:
  assumes "n < 256 ^ k" "0 < k" "k < 2 ^ 64"
  shows "\<exists>b. coderDecodeNumber k (rlp_encode (Str (rlp_number n))) = Some b \<and> length b = k \<and> le_val b = n"
  using decode_number [of "rlp_number n" k] length_rlp_number [OF assms(1,2)] assms(3)
  by (simp add: le_val_padded le_val_rlp_number del: rlp_encode.simps rev_append)

text \<open>A number that the code does not write as the empty string is not read as the empty string.\<close>

lemma number_not_empty_string:
  assumes "0 < n" "n < 256 ^ 32"
  shows "\<not> (length (rlp_encode (Str (rlp_number n))) = 1 \<and> RLP_PREFIX_BYTES \<le> hd (rlp_encode (Str (rlp_number n))))"
proof
  assume a: "length (rlp_encode (Str (rlp_number n))) = 1 \<and> RLP_PREFIX_BYTES \<le> hd (rlp_encode (Str (rlp_number n)))"
  show False
  proof (cases "length (rlp_number n) = 1 \<and> hd (rlp_number n) < 0x80")
    case True
    then show False using a by (simp add: RLP_PREFIX_BYTES_def not_le [symmetric])
  next
    case False
    then have "rlp_encode (Str (rlp_number n)) = rlp_prefix (length (rlp_number n)) 0x80 @ rlp_number n"
      by (simp only: rlp_encode.simps if_False)
    moreover have "rlp_number n \<noteq> []" using length_rlp_number [OF assms(2)] by simp
    ultimately show False using a length_rlp_prefix [of "length (rlp_number n)" "0x80"]
      by (cases "rlp_prefix (length (rlp_number n)) 0x80"; cases "rlp_number n") auto
  qed
qed

lemma encode_number:
  assumes "length source \<le> 32" "source \<noteq> []"
  shows "coderEncodeNumber c source = Some (createContextItem c (rlp_encode (Str (rlp_number (le_val source)))))"
proof -
  have "le_val source < 256 ^ length source" by (rule le_val_bound)
  then have "length (rlp_number (le_val source)) \<le> length source" using length_rlp_number assms(2) by blast
  then have "length (rlp_number (le_val source)) < 2 ^ 64" using assms(1) by (rule le_less_trans [OF le_trans]) simp
  then show ?thesis
    by (simp add: coderEncodeNumber_def convertToBigEndianAndNormalize_eq [OF assms] coderEncodeBytes_eq del: rlp_encode.simps)
qed

lemma le_val_UInt64SetLE: "le_val (UInt64SetLE v) = unat v"
proof -
  have "unat v < 256 ^ 8" by (rule less_le_trans [OF unsigned_less]) simp
  then show ?thesis by (simp add: UIntSetLE_le_bytes le_val_le_bytes)
qed

text \<open>What a number is in the specification: the code writes zero as the empty string only when it is told to.\<close>

definition number_item :: "nat \<Rightarrow> bool \<Rightarrow> rlp" where
  "number_item n zeroAsEmpty = Str (if n = 0 \<and> zeroAsEmpty then [] else rlp_number n)"

lemma empty_string_item: "denotes c it (Str []) \<Longrightarrow> rlpDecodeItemIsEmptyString c it = Some True"
  by (simp add: holds_def rlpDecodeItemIsEmptyString_def RLP_PREFIX_BYTES_def rlp_prefix_def)

lemma number_item_string:
  assumes "denotes c it (number_item n z)" "n < 256 ^ 32"
  shows "(if z then rlpDecodeItemIsEmptyString c it else Some False) = Some (z \<and> n = 0)"
proof (cases "z \<and> n = 0")
  case True
  then show ?thesis using empty_string_item assms(1) by (simp add: number_item_def)
next
  case False
  then have d: "holds c it CODER_ITEM (rlp_encode (Str (rlp_number n)))" using assms(1) by (auto simp: number_item_def)
  show ?thesis
  proof (cases z)
    case True
    then have "0 < n" using False by simp
    from number_not_empty_string [OF this assms(2)] show ?thesis using d True False
      by (auto simp: rlpDecodeItemIsEmptyString_def holds_def simp del: rlp_encode.simps)
  qed simp
qed

lemma decode_UInt64:
  assumes "denotes c it (number_item (unat v) z)"
  shows "rlpDecodeItemUInt64 c it z = Some v"
proof -
  have n: "unat v < 256 ^ 8" by (rule less_le_trans [OF unsigned_less]) simp
  then have "unat v < 256 ^ 32" by (rule less_le_trans) simp
  note e = number_item_string [OF assms this]
  show ?thesis
  proof (cases "z \<and> unat v = 0")
    case True
    then show ?thesis using e by (simp add: rlpDecodeItemUInt64_def unat_eq_zero)
  next
    case False
    then have d: "holds c it CODER_ITEM (rlp_encode (Str (rlp_number (unat v))))" using assms by (auto simp: number_item_def)
    have "coderDecodeUInt64 (coderLookupContext c it) = Some v"
      using decode_number_value [OF n] d UInt64GetLE_le_val
      by (auto simp: coderDecodeUInt64_def holds_def contextIsValid_def simp del: rlp_encode.simps)
    then show ?thesis using e False by (simp add: rlpDecodeItemUInt64_def)
  qed
qed

lemma decode_UInt256:
  assumes "denotes c it (number_item (unat v) z)"
  shows "rlpDecodeItemUInt256 c it z = Some v"
proof -
  have n: "unat v < 256 ^ 32" by (rule less_le_trans [OF unsigned_less]) simp
  note e = number_item_string [OF assms this]
  show ?thesis
  proof (cases "z \<and> unat v = 0")
    case True
    then show ?thesis using e by (simp add: rlpDecodeItemUInt256_def unat_eq_zero)
  next
    case False
    then have d: "holds c it CODER_ITEM (rlp_encode (Str (rlp_number (unat v))))" using assms by (auto simp: number_item_def)
    have "coderDecodeUInt256 (coderLookupContext c it) = Some v"
      using decode_number_value [OF n] d UInt256Get_le_val
      by (auto simp: coderDecodeUInt256_def holds_def contextIsValid_def simp del: rlp_encode.simps)
    then show ?thesis using e False by (simp add: rlpDecodeItemUInt256_def)
  qed
qed

lemma encode_UInt64:
  "\<exists>c' it. rlpEncodeItemUInt64 c v z = Some (c', it) \<and> extends c c' \<and> denotes c' it (number_item (unat v) z)"
proof (cases "z \<and> v = 0")
  case True
  then show ?thesis using encode_bytes [of "[]" c] by (simp add: rlpEncodeItemUInt64_def rlpEncodeItemString_def number_item_def)
next
  case False
  have "coderEncodeUInt64 c v = Some (createContextItem c (rlp_encode (Str (rlp_number (unat v)))))"
    unfolding coderEncodeUInt64_def le_val_UInt64SetLE [symmetric]
    by (rule encode_number) (simp_all flip: length_greater_0_conv)
  then show ?thesis using add_holds [OF refl, of c "rlp_encode (Str (rlp_number (unat v)))"] False
    by (auto simp: rlpEncodeItemUInt64_def number_item_def unat_eq_zero simp del: rlp_encode.simps)
qed

lemma encode_UInt256:
  "\<exists>c' it. rlpEncodeItemUInt256 c v z = Some (c', it) \<and> extends c c' \<and> denotes c' it (number_item (unat v) z)"
proof (cases "z \<and> v = 0")
  case True
  then show ?thesis using encode_bytes [of "[]" c]
    by (simp add: rlpEncodeItemUInt256_def rlpEncodeItemString_def number_item_def eth_compare)
next
  case False
  have "coderEncodeUInt256 c v = Some (createContextItem c (rlp_encode (Str (rlp_number (unat v)))))"
    unfolding coderEncodeUInt256_def le_val_UInt256Set [symmetric]
    by (rule encode_number) (simp_all flip: length_greater_0_conv)
  then show ?thesis using add_holds [OF refl, of c "rlp_encode (Str (rlp_number (unat v)))"] False
    by (auto simp: rlpEncodeItemUInt256_def number_item_def unat_eq_zero eth_compare simp del: rlp_encode.simps)
qed

section \<open>Theorems\<close>

lemma rlp_extract: "denotes c it r \<Longrightarrow> rlpDataExtract c it = Some (rlp_encode r)"
  using denotes_valid [of c it r] by (simp add: rlpDataExtract_def)

lemma rlp_reread:
  assumes "denotes c it r" "narrow r" "length (rlp_encode r) < 2 ^ 64"
  shows "rlpDataExtract c it = Some (rlp_encode r) \<and>
    (\<exists>c' it'. rlpGetItem c0 (rlp_encode r) (length (rlp_encode r)) = Some (c', it') \<and> denotes c' it' r)"
  using rlp_extract [OF assms(1)] get_item [OF assms(2,3), of c0 "[]"] by auto

text \<open>C19: the data of an item is the encoding that the Ethereum specification gives to the value of the item, and reading
  that data gives an item of the same value, in any coder, as long as no list has 20 items or more.\<close>

theorem rlp_roundtrip:
  assumes "denotes c it r" "narrow r" "length (rlp_encode r) < 2 ^ 64"
  shows "rlpDataExtract c it = Some (rlp_encode r) \<and>
    (\<exists>c' it'. rlpGetItem c0 (rlp_encode r) (length (rlp_encode r)) = Some (c', it') \<and> denotes c' it' r)"
  by (rule rlp_reread [OF assms])

lemma sample_item: "\<exists>c it. denotes c it (Lst [Str [100, 111, 103], Str []])"
proof -
  obtain c1 i1 where 1: "denotes c1 i1 (Str [100, 111, 103])"
    using encode_bytes [of "[100, 111, 103]" "rlpCoderCreate 1"] by auto
  obtain c2 i2 where 2: "extends c1 c2" "denotes c2 i2 (Str [])" using encode_bytes [of "[]" c1] by auto
  have "list_all2 (denotes c2) [i1, i2] [Str [100, 111, 103], Str []]" using extends_denotes [OF 2(1) 1] 2(2) by simp
  from encode_list [OF this] show ?thesis by (auto simp: rlp_prefix_def)
qed

theorem rlp_roundtrip_witness:
  "\<exists>c it c' it'. rlpDataExtract c it = Some [0xc5, 0x83, 100, 111, 103, 0x80] \<and>
    rlpGetItem (rlpCoderCreate 2) [0xc5, 0x83, 100, 111, 103, 0x80] 6 = Some (c', it') \<and>
    denotes c' it' (Lst [Str [100, 111, 103], Str []])"
proof -
  obtain c it where d: "denotes c it (Lst [Str [100, 111, 103], Str []])" using sample_item by blast
  have e: "rlp_encode (Lst [Str [100, 111, 103], Str []]) = [0xc5, 0x83, 100, 111, 103, 0x80]" by (simp add: rlp_prefix_def)
  have l: "length [0xc5, 0x83, 100, 111, 103, 0x80 :: byte] = 6" by simp
  have n: "narrow (Lst [Str [100, 111, 103], Str []])" by simp
  from rlp_roundtrip [OF d n, of "rlpCoderCreate 2"] show ?thesis unfolding e l by (simp del: denotes.simps) blast
qed

text \<open>C20: encoding bytes, 64 and 256 bit numbers and lists of items gives new items of the specified values, keeps the
  items that the coder has, and the new items are decoded to what was encoded.\<close>

theorem rlp_encoders_meet_spec:
  assumes "length b < 2 ^ 64" "list_all2 (denotes c) its xs" "length (concat (map rlp_encode xs)) < 2 ^ 64"
  shows "(\<exists>c' it. rlpEncodeItemBytes c b = Some (c', it) \<and> extends c c' \<and> denotes c' it (Str b) \<and> rlpDecodeItemBytes c' it = Some b) \<and>
    (\<exists>c' it. rlpEncodeItemUInt64 c v z = Some (c', it) \<and> extends c c' \<and> denotes c' it (number_item (unat v) z) \<and>
      rlpDecodeItemUInt64 c' it z = Some v) \<and>
    (\<exists>c' it. rlpEncodeItemUInt256 c w z = Some (c', it) \<and> extends c c' \<and> denotes c' it (number_item (unat w) z) \<and>
      rlpDecodeItemUInt256 c' it z = Some w) \<and>
    (\<exists>c' it. rlpEncodeListItems c its = Some (c', it) \<and> extends c c' \<and> denotes c' it (Lst xs))"
proof (intro conjI)
  show "\<exists>c' it. rlpEncodeItemBytes c b = Some (c', it) \<and> extends c c' \<and> denotes c' it (Str b) \<and> rlpDecodeItemBytes c' it = Some b"
    using encode_bytes [OF assms(1), of c] decode_bytes [OF _ assms(1)] by blast
  show "\<exists>c' it. rlpEncodeItemUInt64 c v z = Some (c', it) \<and> extends c c' \<and> denotes c' it (number_item (unat v) z) \<and>
      rlpDecodeItemUInt64 c' it z = Some v"
    using encode_UInt64 [of c v z] decode_UInt64 by blast
  show "\<exists>c' it. rlpEncodeItemUInt256 c w z = Some (c', it) \<and> extends c c' \<and> denotes c' it (number_item (unat w) z) \<and>
      rlpDecodeItemUInt256 c' it z = Some w"
    using encode_UInt256 [of c w z] decode_UInt256 by blast
  show "\<exists>c' it. rlpEncodeListItems c its = Some (c', it) \<and> extends c c' \<and> denotes c' it (Lst xs)"
    by (rule encode_list [OF assms(2,3)])
qed

theorem rlp_encoders_meet_spec_witness:
  "\<exists>c' it. rlpEncodeItemUInt64 (rlpCoderCreate 1) 1024 True = Some (c', it) \<and> denotes c' it (Str [4, 0]) \<and>
    rlpDecodeItemUInt64 c' it True = Some 1024"
proof -
  have n: "number_item 1024 True = Str [4, 0]" by (simp add: number_item_def rlp_number_def big_endian.simps)
  show ?thesis
    using rlp_encoders_meet_spec [of "[]" "rlpCoderCreate 1" "[]" "[]" 1024 True 0] by (simp add: n del: denotes.simps) blast
qed

text \<open>A value with a list of 20 items or more at some level.\<close>

lemma get_subs_none:
  assumes "\<And>x c rest. x \<in> set xs \<Longrightarrow> \<not> narrow x \<Longrightarrow> rlpGetItem c (rlp_encode x @ rest) (length (rlp_encode x)) = None"
    and "\<exists>x \<in> set xs. \<not> narrow x" "length (concat (map rlp_encode xs)) < 2 ^ 64"
  shows "rlpGetSubItems c (concat (map rlp_encode xs) @ rest) (length (concat (map rlp_encode xs))) = None"
  using assms
proof (induction xs arbitrary: c)
  case (Cons x xs)
  let ?r = "concat (map rlp_encode xs) @ rest"
  have l: "length (rlp_encode x) < 2 ^ 64" "length (concat (map rlp_encode xs)) < 2 ^ 64" using Cons.prems(3) by auto
  have "rlpGetItem c (rlp_encode x @ ?r) (length (rlp_encode x)) = None \<or>
      (\<forall>c'. rlpGetSubItems c' ?r (length (concat (map rlp_encode xs))) = None)"
  proof (cases "narrow x")
    case True
    then have "\<exists>x \<in> set xs. \<not> narrow x" using Cons.prems(2) by simp
    then show ?thesis using Cons.IH [OF Cons.prems(1) _ l(2)] by simp
  qed (use Cons.prems(1) [of x c ?r] in simp)
  then show ?case
    using FillData_encode [OF l(1), of ?r] rlp_encode_nonempty [of x] by (subst rlpGetSubItems.simps) (auto split: bind_split)
qed simp

lemma get_wide:
  assumes "\<not> narrow r" "length (rlp_encode r) < 2 ^ 64"
  shows "rlpGetItem c (rlp_encode r @ rest) (length (rlp_encode r)) = None"
  using assms
proof (induction r arbitrary: c rest)
  case (Lst xs)
  let ?p = "concat (map rlp_encode xs)"
  let ?h = "rlp_prefix (length ?p) 0xc0"
  have e: "rlp_encode (Lst xs) = ?h @ ?p" by (simp add: Let_def)
  have l: "length ?p < 2 ^ 64" "length ?h + length ?p < 2 ^ 64" using Lst.prems(2) by (auto simp: Let_def)
  have elem: "length (rlp_encode x) < 2 ^ 64" if "x \<in> set xs" for x
  proof -
    have "length (rlp_encode x) \<le> length ?p" using that by (auto simp: length_concat intro!: member_le_sum_list)
    then show ?thesis using l(1) by simp
  qed
  have subs: "rlpGetSubItems c (?p @ rest) (length ?p) = None \<or>
    (\<exists>c1 its. rlpGetSubItems c (?p @ rest) (length ?p) = Some (c1, its) \<and> \<not> length its < DEFAULT_ITEM_INCREMENT)"
  proof (cases "\<exists>x \<in> set xs. \<not> narrow x")
    case True
    have "rlpGetItem c (rlp_encode x @ rest) (length (rlp_encode x)) = None" if "x \<in> set xs" "\<not> narrow x" for x c rest
      by (rule Lst.IH [OF that elem [OF that(1)]])
    then show ?thesis using get_subs_none [OF _ True l(1)] by blast
  next
    case False
    have "\<exists>c' it. rlpGetItem c (rlp_encode x @ rest) (length (rlp_encode x)) = Some (c', it) \<and> extends c c' \<and> denotes c' it x"
      if "x \<in> set xs" for x c rest
      using get_item [of x c rest] elem [OF that] False that by simp
    from get_subs [OF this l(1)] obtain c1 its where 1: "rlpGetSubItems c (?p @ rest) (length ?p) = Some (c1, its)"
      "list_all2 (denotes c1) its xs" by blast
    have "length its = length xs" using 1(2) by (rule list_all2_lengthD)
    then have "\<not> length its < DEFAULT_ITEM_INCREMENT" using False Lst.prems(1) by (auto simp: DEFAULT_ITEM_INCREMENT_def)
    then show ?thesis using 1(1) by blast
  qed
  have "coderDecodeLength (?h @ ?p @ rest) RLP_PREFIX_LIST = Some (of_nat (length ?p), length ?h)"
    unfolding RLP_PREFIX_LIST_def by (rule coderDecodeLength_prefix) (use l(1) in auto)
  moreover have "\<not> hd (?h @ ?p @ rest) < RLP_PREFIX_LIST"
    using rlp_prefix_Lst [OF l(1)] length_rlp_prefix [of "length ?p" "0xc0"] by (simp add: RLP_PREFIX_LIST_def not_less)
  ultimately show ?case
    using l size_add_small [of "length ?p" "length ?h"] unat_length [OF l(1)] length_rlp_prefix [of "length ?p" "0xc0"] subs unfolding e
    by (subst rlpGetItem.simps) (auto simp: add.commute mem_read_def)
qed simp

lemma decode_long_number:
  assumes "denotes c it (Str b)" "8 < length b" "length b < 2 ^ 64"
  shows "rlpDecodeItemUInt64 c it False = None"
  using assms(1,2) decode_encoded_length [OF assms(3)]
  by (auto simp: rlpDecodeItemUInt64_def coderDecodeUInt64_def coderDecodeNumber_def convertFromBigEndian_def holds_def
      unat_length [OF assms(3)] split: bind_splits simp del: rlp_encode.simps)

text \<open>An item whose data would end behind the end of the memory object, at the top or inside a list.\<close>

lemma get_behind: "length bytes < n \<Longrightarrow> rlpGetItem c bytes n = None"
  by (subst rlpGetItem.simps) (auto simp: mem_read_def split: option.splits bind_splits)

lemma get_subs_behind:
  assumes "rlpGetItem_FillData tail = Some n" "length tail < n"
    and "length (concat (map rlp_encode xs)) < limit" "length (concat (map rlp_encode xs)) < 2 ^ 64"
  shows "rlpGetSubItems c (concat (map rlp_encode xs) @ tail) limit = None"
  using assms(3,4)
proof (induction xs arbitrary: c limit)
  case Nil
  then show ?case using assms(1,2) get_behind [of tail n c] by (subst rlpGetSubItems.simps) simp
next
  case (Cons x xs)
  have l: "length (rlp_encode x) < 2 ^ 64" using Cons.prems(2) by simp
  have "rlpGetSubItems c' (concat (map rlp_encode xs) @ tail) (limit - length (rlp_encode x)) = None" for c'
    using Cons.prems by (intro Cons.IH) simp_all
  then show ?case
    using FillData_encode [OF l, of "concat (map rlp_encode xs) @ tail"] rlp_encode_nonempty [of x] Cons.prems(1)
    by (subst rlpGetSubItems.simps) (simp split: bind_split)
qed

lemma get_list_behind:
  assumes "rlpGetItem_FillData tail = Some n" "length tail < n"
    and "length (concat (map rlp_encode xs)) < m" "length (rlp_prefix m 0xc0) + m < 2 ^ 64"
  shows "rlpGetItem c (rlp_prefix m 0xc0 @ concat (map rlp_encode xs) @ tail) (length (rlp_prefix m 0xc0) + m) = None"
proof -
  let ?h = "rlp_prefix m 0xc0" and ?p = "concat (map rlp_encode xs) @ tail"
  have m: "m < 2 ^ 64" "length (concat (map rlp_encode xs)) < 2 ^ 64" using assms(3,4) by simp_all
  have "coderDecodeLength (?h @ ?p) RLP_PREFIX_LIST = Some (of_nat m, length ?h)"
    unfolding RLP_PREFIX_LIST_def by (rule coderDecodeLength_prefix) (use m(1) in auto)
  moreover have "\<not> hd (?h @ ?p) < RLP_PREFIX_LIST"
    using rlp_prefix_Lst [OF m(1)] length_rlp_prefix [of m "0xc0"] by (simp add: RLP_PREFIX_LIST_def not_less)
  moreover have "size_add (unat (of_nat m :: u64)) (length ?h) = length ?h + m"
    using assms(4) by (simp only: unat_length [OF m(1)] size_add_small add.commute)
  ultimately show ?thesis
    using get_subs_behind [OF assms(1-3) m(2), of c] by (subst rlpGetItem.simps) simp
qed

text \<open>C38: three ways in which data from outside makes the decoder access memory that it must not. A list of 20 items or more, at any
  level of the data, is read from memory that has been freed. When the header of an item inside a list, behind any number of well-formed items, announces
  more bytes than the memory object has from there on, they are read nevertheless, since the length of an item is never compared with the end of its
  list. And a byte string of more than 8 bytes that is read as a 64 bit number underflows the offset of the copy.\<close>

theorem rlp_faults:
  assumes "\<not> narrow r" "length (rlp_encode r) < 2 ^ 64"
    and "rlpGetItem_FillData tail = Some n" "length tail < n" "length (concat (map rlp_encode ys)) < m"
      "length (rlp_prefix m 0xc0) + m < 2 ^ 64"
    and "denotes c it (Str b)" "8 < length b" "length b < 2 ^ 64"
  shows "rlpGetItem c (rlp_encode r @ rest) (length (rlp_encode r)) = None \<and>
    rlpGetItem c (rlp_prefix m 0xc0 @ concat (map rlp_encode ys) @ tail) (length (rlp_prefix m 0xc0) + m) = None \<and>
    rlpDecodeItemUInt64 c it False = None"
  using get_wide [OF assms(1,2)] get_list_behind [OF assms(3-6)] decode_long_number [OF assms(7-9)] by blast

theorem rlp_faults_witness:
  "\<exists>c it. denotes c it (Str (replicate 9 1)) \<and> rlpDecodeItemUInt64 c it False = None \<and>
    rlpGetItem c (rlp_encode (Lst (replicate 20 (Str [])))) (length (rlp_encode (Lst (replicate 20 (Str []))))) = None \<and>
    rlpGetItem c [0xc2, 7, 0x83] 3 = None"
proof -
  obtain c it where d: "denotes c it (Str (replicate 9 1))"
    using encode_bytes [of "replicate 9 1" "rlpCoderCreate 1"] by auto
  have "length (concat (map rlp_encode (replicate 20 (Str [])))) = 20" by (simp add: rlp_prefix_def length_concat sum_list_replicate)
  then have l: "length (rlp_encode (Lst (replicate 20 (Str [])))) < 2 ^ 64" by (simp add: Let_def rlp_prefix_def)
  have p: "rlp_prefix 2 0xc0 = [0xc2]" "concat (map rlp_encode [Str [7]]) = [7]" by (simp_all add: rlp_prefix_def)
  have "rlpGetItem_FillData [0x83] = Some 4"
    by (simp add: rlpGetItem_FillData_def coderDecodeLength_def RLP_PREFIX_LIST_def RLP_PREFIX_BYTES_def RLP_PREFIX_LENGTH_LIMIT_def
        size_add_def)
  from rlp_faults [OF _ l this, where ys = "[Str [7]]" and m = 2 and rest = "[]", OF _ _ _ _ d] d show ?thesis
    unfolding p by (intro exI [of _ c] exI [of _ it]) (simp add: numeral_3_eq_3 del: denotes.simps rlp_encode.simps)
qed

end
