(* ===== verification/Chain.thy ===== *)
theory Chain
  imports Merkle WalletState
begin

text \<open>
  The chain of blocks of BRPeerManager.c: blocks relayed by peers are verified and extend the chain, wait as orphans, or make a
  fork that may replace the chain; the transactions of the wallet get their heights from it.

  Block objects are named by numbers; \<open>m_heap\<close> holds those that are not freed. A set of blocks maps the key that its hash and equality
  functions look at (the block hash, the previous hash for orphans, the height for checkpoints) to the object. \<open>None\<close> is a use of \<open>NULL\<close> or
  of freed memory, a failed assertion, or a loop that does not end. Calls of functions of the peer and of the application
  are returned as \<open>notice\<close>s in their order.
\<close>

section \<open>The state\<close>

record BRCheckPoint =
  cp_height :: u32
  cp_hash :: UInt256
  cp_timestamp :: u32
  cp_target :: u32

record BRPeer =
  peer_address :: UInt128
  peer_port :: u16

text \<open>A connected peer: its object, what \<open>BRPeerEq\<close> compares, \<open>BRPeerLastBlock\<close> and \<open>BRPeerConnectStatus\<close>.\<close>

record connection =
  conn_id :: nat
  conn_peer :: BRPeer
  conn_lastBlock :: u32
  conn_connected :: bool

text \<open>
  The fields of \<open>BRPeerManagerStruct\<close> that the chain depends on, with the memory of the blocks. \<open>m_hasFilter\<close> says that \<open>bloomFilter\<close> is not
  \<open>NULL\<close>.
\<close>

record manager =
  m_heap :: "nat \<Rightarrow> mblock option"
  m_blocks :: "UInt256 \<Rightarrow> nat option"
  m_orphans :: "UInt256 \<Rightarrow> nat option"
  m_checkpoints :: "u32 \<Rightarrow> nat option"
  m_lastBlock :: nat
  m_lastOrphan :: "nat option"
  m_wallet :: wallet
  m_earliestKeyTime :: u32
  m_syncStartHeight :: u32
  m_estimatedHeight :: u32
  m_hasFilter :: bool
  m_connectFailureCount :: int
  m_misbehavinCount :: int
  m_isConnected :: bool
  m_peers :: "BRPeer list"
  m_downloadPeer :: "connection option"

datatype notice =
  SendGetblocks nat "UInt256 list" | Disconnect nat | RescheduleTimeout nat | SetCurrentBlockHeight nat u32 | UpdateFilter |
  LoadMempools | SaveBlocks bool "nat list" | TxStatusUpdate | WalletEvent event

record BRChainParams =
  checkpoints :: "BRCheckPoint list"
  verifyDifficulty :: "mblock \<Rightarrow> (UInt256 \<Rightarrow> mblock option option) \<Rightarrow> bool option"

definition BRPeerEq :: "BRPeer \<Rightarrow> BRPeer \<Rightarrow> bool" where
  "BRPeerEq p q \<longleftrightarrow> UInt128Eq (peer_address p) (peer_address q) \<and> peer_port p = peer_port q"

text \<open>
  The orphans are told apart by their previous hash, the checkpoints by their height. The hash functions respect this, so that the sets,
  as those of the hash tables, are maps from these keys.
\<close>

definition BRPrevBlockHash :: "mblock \<Rightarrow> nat" where
  "BRPrevBlockHash b = unat (u32_view (prevBlock b) 0)"

definition BRPrevBlockEq :: "mblock \<Rightarrow> mblock \<Rightarrow> bool" where
  "BRPrevBlockEq b c \<longleftrightarrow> UInt256Eq (prevBlock b) (prevBlock c)"

definition BRBlockHeightHash :: "mblock \<Rightarrow> nat" where
  "BRBlockHeightHash b = unat ((xor 0x811C9dc5 (height b)) * 0x01000193)"

definition BRBlockHeightEq :: "mblock \<Rightarrow> mblock \<Rightarrow> bool" where
  "BRBlockHeightEq b c \<longleftrightarrow> height b = height c"

interpretation orphan_set: item_equality BRPrevBlockHash BRPrevBlockEq
  by unfold_locales (auto simp: BRPrevBlockHash_def BRPrevBlockEq_def)

interpretation checkpoint_set: item_equality BRBlockHeightHash BRBlockHeightEq
  by unfold_locales (auto simp: BRBlockHeightHash_def BRBlockHeightEq_def)

text \<open>\<open>BRSetGet(manager->blocks, &hash)\<close>: the object and its contents.\<close>

definition get_ptr :: "manager \<Rightarrow> UInt256 \<Rightarrow> (nat \<times> mblock) option option" where
  "get_ptr m h =
     (case m_blocks m h of None \<Rightarrow> Some None
      | Some p \<Rightarrow> (case m_heap m p of None \<Rightarrow> None | Some b \<Rightarrow> Some (Some (p, b))))"

definition get_block :: "manager \<Rightarrow> UInt256 \<Rightarrow> mblock option option" where
  "get_block m h = map_option (map_option snd) (get_ptr m h)"

section \<open>Difficulty\<close>

text \<open>\<open>b = BRSetGet(blockSet, &b->prevBlock)\<close>, \<open>n\<close> times, while there is a block.\<close>

fun ancestor :: "(UInt256 \<Rightarrow> mblock option option) \<Rightarrow> nat \<Rightarrow> mblock option \<Rightarrow> mblock option option" where
  "ancestor get 0 b = Some b"
| "ancestor get (Suc n) None = Some None"
| "ancestor get (Suc n) (Some b) = do { b \<leftarrow> get (prevBlock b); ancestor get n b }"

definition BRMainNetVerifyDifficulty :: "mblock \<Rightarrow> (UInt256 \<Rightarrow> mblock option option) \<Rightarrow> bool option" where
  "BRMainNetVerifyDifficulty block get = do {
     b \<leftarrow> (if height block mod BLOCK_DIFFICULTY_INTERVAL = 0
           then ancestor get (unat BLOCK_DIFFICULTY_INTERVAL) (Some block) else Some None);
     previous \<leftarrow> get (prevBlock block);
     BRMerkleBlockVerifyDifficulty block previous (case b of None \<Rightarrow> 0 | Some b \<Rightarrow> timestamp b)
   }"

definition BRTestNetVerifyDifficulty :: "mblock \<Rightarrow> (UInt256 \<Rightarrow> mblock option option) \<Rightarrow> bool option" where
  "BRTestNetVerifyDifficulty block get = Some True"

section \<open>Verification\<close>

text \<open>The loop that frees the blocks below the previous difficulty transition, from the block with the hash \<open>h\<close> down.\<close>

partial_function (option) free_below :: "UInt256 \<Rightarrow> manager \<Rightarrow> manager option" where
  "free_below h m = do {
     b \<leftarrow> get_ptr m h;
     if b = None then Some m
     else
       let (p, x) = the b
       in free_below (prevBlock x)
         (if height x mod BLOCK_DIFFICULTY_INTERVAL \<noteq> 0
          then m\<lparr>m_blocks := (m_blocks m)(blockHash x := None), m_heap := (m_heap m)(p := None)\<rparr> else m)
   }"

definition BRPeerManagerVerifyBlock ::
  "BRChainParams \<Rightarrow> mblock \<Rightarrow> mblock option \<Rightarrow> manager \<Rightarrow> (manager \<times> bool) option" where
  "BRPeerManagerVerifyBlock params block prev m = do {
     let r = (case prev of None \<Rightarrow> False
              | Some p \<Rightarrow> UInt256Eq (prevBlock block) (blockHash p) \<and> height block = height p + 1);
     (m, r) \<leftarrow> (if r \<and> height block mod BLOCK_DIFFICULTY_INTERVAL = 0 then do {
         b \<leftarrow> ancestor (get_block m) (unat BLOCK_DIFFICULTY_INTERVAL) (Some block);
         case b of None \<Rightarrow> Some (m, False)
         | Some b \<Rightarrow> map_option (\<lambda>m. (m, True)) (free_below (prevBlock b) m)
       }
       else Some (m, r));
     r \<leftarrow> (if r then verifyDifficulty params block (get_block m) else Some False);
     r \<leftarrow> (if r then
         (case m_checkpoints m (height block) of None \<Rightarrow> Some True
          | Some p \<Rightarrow> (case m_heap m p of None \<Rightarrow> None | Some checkpoint \<Rightarrow> Some (BRMerkleBlockEq block checkpoint)))
       else Some False);
     Some (m, r)
   }"

section \<open>Locators\<close>

definition genesis_block_hash :: "BRChainParams \<Rightarrow> UInt256 option" where
  "genesis_block_hash params = (case checkpoints params of [] \<Rightarrow> None | c # _ \<Rightarrow> Some (UInt256Reverse (cp_hash c)))"

text \<open>\<open>if (++i >= 10) step *= 2\<close>, an \<open>int32_t\<close>.\<close>

definition next_step :: "int \<Rightarrow> nat \<Rightarrow> int option" where
  "next_step step i = (if i + 1 \<ge> 10 then (if step * 2 < 2 ^ 31 then Some (step * 2) else None) else Some step)"

text \<open>The loop with \<open>i\<close> hashes appended so far; the result is all hashes but the last.\<close>

partial_function (option) locators_from :: "manager \<Rightarrow> int \<Rightarrow> nat \<Rightarrow> mblock option \<Rightarrow> UInt256 list option" where
  "locators_from m step i block =
     (if block = None \<or> height (the block) = 0 then Some []
      else do {
        step' \<leftarrow> next_step step i;
        next \<leftarrow> ancestor (get_block m) (nat step') block;
        hs \<leftarrow> locators_from m step' (i + 1) next;
        Some (blockHash (the block) # hs)
      })"

text \<open>The number of locators, and what is written to an array with room for \<open>locatorsCount\<close>.\<close>

definition BRPeerManagerBlockLocators :: "BRChainParams \<Rightarrow> manager \<Rightarrow> nat option \<Rightarrow> (nat \<times> UInt256 list) option" where
  "BRPeerManagerBlockLocators params m locatorsCount = do {
     block \<leftarrow> m_heap m (m_lastBlock m);
     hs \<leftarrow> locators_from m 1 0 (Some block);
     genesis \<leftarrow> genesis_block_hash params;
     Some (length hs + 1, case locatorsCount of None \<Rightarrow> [] | Some n \<Rightarrow> take n (hs @ [genesis]))
   }"

section \<open>Misbehaving peers\<close>

definition BRPeerManagerPeerMisbehavin :: "connection \<Rightarrow> manager \<Rightarrow> manager \<times> notice list" where
  "BRPeerManagerPeerMisbehavin peer m =
     (let m = m\<lparr>m_peers := filter (\<lambda>p. \<not> BRPeerEq p (conn_peer peer)) (m_peers m),
                m_misbehavinCount := m_misbehavinCount m + 1\<rparr>;
          m = (if m_misbehavinCount m \<ge> 10 then m\<lparr>m_misbehavinCount := 0, m_peers := []\<rparr> else m)
      in (m, [Disconnect (conn_id peer)]))"

section \<open>Relayed blocks\<close>

definition PROTOCOL_BLOCK_WEEK :: u32 where
  "PROTOCOL_BLOCK_WEEK = 7 * 24 * 60 * 60"

text \<open>\<open>BRMerkleBlockTxHashes\<close>, once for the number and once into an array of that size.\<close>

definition block_txs :: "mblock \<Rightarrow> UInt256 list option" where
  "block_txs b = do {
     (n, _) \<leftarrow> BRMerkleBlockTxHashes b None;
     (_, hs) \<leftarrow> BRMerkleBlockTxHashes b (Some n);
     Some hs
   }"

text \<open>\<open>BRMerkleBlockFree(block)\<close>, and the addition of a block to a set, which replaces an equal one.\<close>

definition free_block :: "nat \<Rightarrow> manager \<Rightarrow> manager" where
  "free_block p m = m\<lparr>m_heap := (m_heap m)(p := None)\<rparr>"

definition add_block :: "nat \<Rightarrow> mblock \<Rightarrow> manager \<Rightarrow> manager" where
  "add_block p b m = m\<lparr>m_blocks := (m_blocks m)(blockHash b \<mapsto> p)\<rparr>"

definition add_orphan :: "nat \<Rightarrow> mblock \<Rightarrow> manager \<Rightarrow> manager" where
  "add_orphan p b m = m\<lparr>m_orphans := (m_orphans m)(prevBlock b \<mapsto> p), m_lastOrphan := Some p\<rparr>"

definition is_download_peer :: "connection \<Rightarrow> manager \<Rightarrow> bool" where
  "is_download_peer peer m = (case m_downloadPeer m of None \<Rightarrow> False | Some d \<Rightarrow> conn_id d = conn_id peer)"

definition reset_timeout :: "connection \<Rightarrow> manager \<Rightarrow> manager \<times> notice list" where
  "reset_timeout peer m = (m\<lparr>m_connectFailureCount := 0\<rparr>, [RescheduleTimeout (conn_id peer)])"

definition update_wallet :: "int \<Rightarrow> UInt256 list \<Rightarrow> u32 \<Rightarrow> u32 \<Rightarrow> manager \<Rightarrow> (manager \<times> notice list) option" where
  "update_wallet now txHashes ht stamp m =
     (if txHashes \<noteq> [] then do {
        (w, evs) \<leftarrow> BRWalletUpdateTransactions now (m_wallet m) txHashes ht stamp;
        Some (m\<lparr>m_wallet := w\<rparr>, map WalletEvent evs)
      }
      else Some (m, []))"

text \<open>
  The rate of false positives is computed with doubles: \<open>fpHigh\<close> and \<open>fpDegraded\<close> say whether it is over ten times the default and the
  reduced rate.
\<close>

definition track_fp :: "bool \<Rightarrow> bool \<Rightarrow> connection \<Rightarrow> mblock \<Rightarrow> manager \<Rightarrow> notice list option" where
  "track_fp fpHigh fpDegraded peer b m =
     (if is_download_peer peer m \<and> totalTx b > 0 then
        (if conn_connected peer \<and> fpHigh then Some [Disconnect (conn_id peer)]
         else do {
           l \<leftarrow> m_heap m (m_lastBlock m);
           Some (if height l + 500 < conn_lastBlock peer \<and> fpDegraded then [UpdateFilter] else [])
         })
      else Some [])"

text \<open>
  The branches. They return the state, the notices, whether \<open>block\<close> is still there, and the number of blocks to save.
\<close>

type_synonym outcome = "manager \<times> notice list \<times> bool \<times> nat"

definition relay_orphan :: "BRChainParams \<Rightarrow> int \<Rightarrow> connection \<Rightarrow> nat \<Rightarrow> mblock \<Rightarrow> manager \<Rightarrow> outcome option" where
  "relay_orphan params now peer p b m =
     (if uint (timestamp b + PROTOCOL_BLOCK_WEEK) < now then Some (free_block p m, [], False, 0)
      else do {
        l \<leftarrow> m_heap m (m_lastBlock m);
        ask \<leftarrow> (if height l \<ge> conn_lastBlock peer then
                 (case m_lastOrphan m of None \<Rightarrow> Some True
                  | Some q \<Rightarrow> (case m_heap m q of None \<Rightarrow> None | Some ob \<Rightarrow> Some (\<not> UInt256Eq (blockHash ob) (prevBlock b))))
               else Some False);
        ns \<leftarrow> (if ask then do {
                 (n, _) \<leftarrow> BRPeerManagerBlockLocators params m None;
                 (n, hs) \<leftarrow> BRPeerManagerBlockLocators params m (Some n);
                 Some [SendGetblocks (conn_id peer) hs]
               }
               else Some []);
        Some (add_orphan p b m, ns, True, 0)
      })"

text \<open>\<open>saveCount\<close> when the download is complete, and the request for the memory pools.\<close>

definition chain_complete :: "mblock \<Rightarrow> manager \<Rightarrow> nat \<Rightarrow> nat \<times> notice list" where
  "chain_complete b m saveCount =
     (if height b = m_estimatedHeight m
      then (unat (height b mod BLOCK_DIFFICULTY_INTERVAL) + unat BLOCK_DIFFICULTY_INTERVAL + 1, [LoadMempools])
      else (saveCount, []))"

definition relay_extend ::
  "int \<Rightarrow> connection \<Rightarrow> nat \<Rightarrow> mblock \<Rightarrow> UInt256 list \<Rightarrow> u32 \<Rightarrow> manager \<Rightarrow> outcome option" where
  "relay_extend now peer p b txHashes txTime m = do {
     let m = (add_block p b m)\<lparr>m_lastBlock := p\<rparr>;
     (m, ns1) \<leftarrow> update_wallet now txHashes (height b) txTime m;
     let ns2 = (case m_downloadPeer m of None \<Rightarrow> [] | Some d \<Rightarrow> [SetCurrentBlockHeight (conn_id d) (height b)]);
     let (m, ns3) = (if height b < m_estimatedHeight m \<and> is_download_peer peer m then reset_timeout peer m else (m, []));
     let (saveCount, ns4) = chain_complete b m (if height b mod BLOCK_DIFFICULTY_INTERVAL = 0 then 1 else 0);
     Some (m, ns1 @ ns2 @ ns3 @ ns4, True, saveCount)
   }"

text \<open>\<open>while (b && b->height > height) b = BRSetGet(manager->blocks, &b->prevBlock)\<close>\<close>

partial_function (option) walk_down :: "manager \<Rightarrow> u32 \<Rightarrow> (nat \<times> mblock) option \<Rightarrow> (nat \<times> mblock) option option" where
  "walk_down m h b =
     (if b \<noteq> None \<and> height (snd (the b)) > h then do { next \<leftarrow> get_ptr m (prevBlock (snd (the b))); walk_down m h next }
      else Some b)"

definition relay_existing ::
  "int \<Rightarrow> nat \<Rightarrow> mblock \<Rightarrow> UInt256 list \<Rightarrow> u32 \<Rightarrow> manager \<Rightarrow> outcome option" where
  "relay_existing now p b txHashes txTime m = do {
     l \<leftarrow> m_heap m (m_lastBlock m);
     c \<leftarrow> walk_down m (height b) (Some (m_lastBlock m, l));
     (_, cb) \<leftarrow> c;
     (m, ns) \<leftarrow> (if BRMerkleBlockEq cb b then do {
         (m, ns) \<leftarrow> update_wallet now txHashes (height b) txTime m;
         Some (if height b = height l then m\<lparr>m_lastBlock := p\<rparr> else m, ns)
       }
       else Some (m, []));
     old \<leftarrow> m_blocks m (blockHash b);
     let m = add_block p b m;
     m \<leftarrow> (if old \<noteq> p then do {
         ob \<leftarrow> m_heap m old;
         let m = (if m_orphans m (prevBlock ob) = Some old then m\<lparr>m_orphans := (m_orphans m)(prevBlock ob := None)\<rparr> else m);
         let m = (if m_lastOrphan m = Some old then m\<lparr>m_lastOrphan := None\<rparr> else m);
         Some (free_block old m)
       }
       else Some m);
     Some (m, ns, True, 0)
   }"

text \<open>The search for the block where the fork joins the main chain: \<open>b\<close> and \<open>b2\<close> at the end of the loop.\<close>

partial_function (option) find_join ::
  "manager \<Rightarrow> mblock option \<Rightarrow> mblock option \<Rightarrow> (mblock option \<times> mblock option) option" where
  "find_join m b b2 =
     (if b \<noteq> None \<and> b2 \<noteq> None \<and> \<not> BRMerkleBlockEq (the b) (the b2) then do {
        next \<leftarrow> get_block m (prevBlock (the b));
        next2 \<leftarrow> (if next \<noteq> None \<and> height (the next) < height (the b2) then get_block m (prevBlock (the b2)) else Some b2);
        find_join m next next2
      }
      else Some (b, b2))"

text \<open>The loop that sets the heights of the transactions of the new main chain above the height of \<open>b2\<close>.\<close>

partial_function (option) set_heights ::
  "int \<Rightarrow> u32 \<Rightarrow> mblock option \<Rightarrow> manager \<times> notice list \<Rightarrow> (manager \<times> notice list) option" where
  "set_heights now joinHeight b s =
     (if b \<noteq> None \<and> height (the b) > joinHeight then do {
        hs \<leftarrow> block_txs (the b);
        next \<leftarrow> get_block (fst s) (prevBlock (the b));
        (m, ns) \<leftarrow> update_wallet now hs (height (the b))
          (case next of None \<Rightarrow> timestamp (the b) | Some y \<Rightarrow> timestamp (the b) div 2 + timestamp y div 2) (fst s);
        set_heights now joinHeight next (m, snd s @ ns)
      }
      else Some s)"

definition relay_fork :: "int \<Rightarrow> nat \<Rightarrow> mblock \<Rightarrow> manager \<Rightarrow> outcome option" where
  "relay_fork now p b m = do {
     let m = add_block p b m;
     l \<leftarrow> m_heap m (m_lastBlock m);
     if height b > height l then do {
       (j, j2) \<leftarrow> find_join m (Some b) (Some l);
       jb \<leftarrow> j;
       (w, evs) \<leftarrow> BRWalletSetTxUnconfirmedAfter now (m_wallet m) (height jb);
       (m, ns) \<leftarrow> (case j2 of None \<Rightarrow> Some (m\<lparr>m_wallet := w\<rparr>, map WalletEvent evs)
         | Some y \<Rightarrow> set_heights now (height y) (Some b) (m\<lparr>m_wallet := w\<rparr>, map WalletEvent evs));
       let m = m\<lparr>m_lastBlock := p\<rparr>;
       let (saveCount, ns2) = chain_complete b m 0;
       Some (m, ns @ ns2, True, saveCount)
     }
     else Some (m, [], True, 0)
   }"

text \<open>The choice of the branch.\<close>

definition relay_branch ::
  "BRChainParams \<Rightarrow> int \<Rightarrow> connection \<Rightarrow> nat \<Rightarrow> mblock \<Rightarrow> mblock option \<Rightarrow> UInt256 list \<Rightarrow> u32 \<Rightarrow> manager \<Rightarrow> outcome option" where
  "relay_branch params now peer p b prev txHashes txTime m =
     (if totalTx b = 0 \<and> timestamp b + PROTOCOL_BLOCK_WEEK > m_earliestKeyTime m + 2 * 60 * 60
      then Some (free_block p m, [], False, 0)
      else if \<not> m_hasFilter m then do {
        l \<leftarrow> (if is_download_peer peer m then map_option (\<lambda>l. height l < m_estimatedHeight m) (m_heap m (m_lastBlock m))
             else Some False);
        let (m, ns) = (if l then reset_timeout peer (free_block p m) else (free_block p m, []));
        Some (m, ns, False, 0)
      }
      else if prev = None then relay_orphan params now peer p b m
      else do {
        (m, ok) \<leftarrow> BRPeerManagerVerifyBlock params b prev m;
        if \<not> ok then let (m, ns) = BRPeerManagerPeerMisbehavin peer (free_block p m) in Some (m, ns, False, 0)
        else do {
          l \<leftarrow> m_heap m (m_lastBlock m);
          if UInt256Eq (prevBlock b) (blockHash l) then relay_extend now peer p b txHashes txTime m
          else if m_blocks m (blockHash b) \<noteq> None then relay_existing now p b txHashes txTime m
          else if height l < conn_lastBlock peer \<and> height b > height l + 1 then Some (add_orphan p b m, [], True, 0)
          else do {
            _ \<leftarrow> (if checkpoints params = [] then None else Some ());
            if height b \<le> cp_height (last (checkpoints params)) then Some (free_block p m, [], False, 0)
            else relay_fork now p b m
          }
        }
      })"

text \<open>The blocks to save, and the part of them that ends at a difficulty transition.\<close>

fun save_loop :: "manager \<Rightarrow> nat \<Rightarrow> (nat \<times> mblock) option \<Rightarrow> (nat \<times> mblock) list option" where
  "save_loop m 0 b = Some []"
| "save_loop m (Suc n) None = Some []"
| "save_loop m (Suc n) (Some pb) = do {
     _ \<leftarrow> (if height (snd pb) \<noteq> BLOCK_UNKNOWN_HEIGHT then Some () else None);
     b \<leftarrow> get_ptr m (prevBlock (snd pb));
     bs \<leftarrow> save_loop m n b;
     Some (pb # bs)
   }"

definition save_blocks :: "manager \<Rightarrow> nat \<Rightarrow> (nat \<times> mblock) option \<Rightarrow> notice list option" where
  "save_blocks m saveCount b = do {
     bs \<leftarrow> save_loop m saveCount b;
     let i = length bs;
     let j = (if i > 0 then unat (height (snd (last bs)) mod BLOCK_DIFFICULTY_INTERVAL) else 0);
     let i = (if j > 0 then i - (if i > unat BLOCK_DIFFICULTY_INTERVAL - j then unat BLOCK_DIFFICULTY_INTERVAL - j else i) else i);
     _ \<leftarrow> (if i = 0 \<or> height (snd (bs ! (i - 1))) mod BLOCK_DIFFICULTY_INTERVAL = 0 then Some () else None);
     Some (if i > 0 then [SaveBlocks (i > 1) (map fst (take i bs))] else [])
   }"

text \<open>The end of the function for a block that is kept and has a known height: the estimated height, and the orphan that follows it.\<close>

definition take_orphan :: "bool \<Rightarrow> mblock \<Rightarrow> manager \<Rightarrow> manager \<times> nat option" where
  "take_orphan alive b m =
     (if alive \<and> height b \<noteq> BLOCK_UNKNOWN_HEIGHT then
        (let m = (if height b > m_estimatedHeight m then m\<lparr>m_estimatedHeight := height b\<rparr> else m)
         in (m\<lparr>m_orphans := (m_orphans m)(blockHash b := None)\<rparr>, m_orphans m (blockHash b)))
      else (m, None))"

definition with_height :: "mblock option \<Rightarrow> mblock \<Rightarrow> mblock" where
  "with_height prev b = (case prev of None \<Rightarrow> b | Some q \<Rightarrow> b\<lparr>height := height q + 1\<rparr>)"

definition tx_time :: "mblock option \<Rightarrow> mblock \<Rightarrow> u32" where
  "tx_time prev b = (case prev of None \<Rightarrow> 0 | Some q \<Rightarrow> timestamp b div 2 + timestamp q div 2)"

text \<open>
  \<open>_peerRelayedBlock\<close> up to its recursive call for the orphan that follows the block; the block is the object \<open>p\<close>.
\<close>

definition relay_pass ::
  "BRChainParams \<Rightarrow> int \<Rightarrow> connection \<Rightarrow> (nat \<Rightarrow> bool) \<Rightarrow> (nat \<Rightarrow> bool) \<Rightarrow> nat \<Rightarrow> manager \<Rightarrow>
     (manager \<times> notice list \<times> nat option) option" where
  "relay_pass params now peer fpHigh fpDegraded p m = do {
     b \<leftarrow> m_heap m p;
     txHashes \<leftarrow> block_txs b;
     prev \<leftarrow> get_block m (prevBlock b);
     let b = with_height prev b;
     let m = m\<lparr>m_heap := (m_heap m)(p \<mapsto> b)\<rparr>;
     ns1 \<leftarrow> track_fp (fpHigh p) (fpDegraded p) peer b m;
     (m, ns2, alive, saveCount) \<leftarrow> relay_branch params now peer p b prev txHashes (tx_time prev b) m;
     let (m, next) = take_orphan alive b m;
     ns3 \<leftarrow> save_blocks m saveCount (if alive then Some (p, b) else None);
     let ns4 = (if alive \<and> height b \<noteq> BLOCK_UNKNOWN_HEIGHT \<and> height b \<ge> conn_lastBlock peer then [TxStatusUpdate] else []);
     Some (m, ns1 @ ns2 @ ns3 @ ns4, next)
   }"

text \<open>
  The arguments \<open>fpHigh\<close> and \<open>fpDegraded\<close> of a block that was an orphan are those of its own call, given here as functions of
  the object.
\<close>

partial_function (option) peerRelayedBlock ::
  "BRChainParams \<Rightarrow> int \<Rightarrow> connection \<Rightarrow> (nat \<Rightarrow> bool) \<Rightarrow> (nat \<Rightarrow> bool) \<Rightarrow> nat \<Rightarrow> manager \<Rightarrow> (manager \<times> notice list) option" where
  "peerRelayedBlock params now peer fpHigh fpDegraded p m = do {
     (m, ns, next) \<leftarrow> relay_pass params now peer fpHigh fpDegraded p m;
     if next = None then Some (m, ns)
     else do {
       (m, ns') \<leftarrow> peerRelayedBlock params now peer fpHigh fpDegraded (the next) m;
       Some (m, ns @ ns')
     }
   }"

section \<open>The invariant\<close>

text \<open>
  A block commits to its predecessor by the hash, so the height of a block is a function \<open>ht\<close> of its hash. The blocks of the hard-coded checkpoints
  have the previous hash 0 until the real block replaces them.
\<close>

definition block_fits :: "(UInt256 \<Rightarrow> nat) \<Rightarrow> mblock \<Rightarrow> bool" where
  "block_fits ht b \<longleftrightarrow> blockHash b \<noteq> 0 \<and> ht (blockHash b) < 2 ^ 31 - 1 \<and>
     (prevBlock b \<noteq> 0 \<longrightarrow> ht (blockHash b) = ht (prevBlock b) + 1)"

definition links_ok :: "(UInt256 \<Rightarrow> nat) \<Rightarrow> manager \<Rightarrow> bool" where
  "links_ok ht m \<longleftrightarrow> m_blocks m 0 = None \<and>
     (\<forall>h p. m_blocks m h = Some p \<longrightarrow>
        (\<exists>b. m_heap m p = Some b \<and> blockHash b = h \<and> block_fits ht b \<and> height b = of_nat (ht h)))"

definition orphans_ok :: "(UInt256 \<Rightarrow> nat) \<Rightarrow> manager \<Rightarrow> bool" where
  "orphans_ok ht m \<longleftrightarrow> (\<forall>h p. m_orphans m h = Some p \<longrightarrow>
     (\<exists>b. m_heap m p = Some b \<and> prevBlock b = h \<and> block_fits ht b) \<and> p \<notin> ran (m_blocks m))"

text \<open>Only blocks of checkpoints are higher than the chain.\<close>

definition ahead_ok :: "(UInt256 \<Rightarrow> nat) \<Rightarrow> manager \<Rightarrow> nat \<Rightarrow> bool" where
  "ahead_ok ht m n \<longleftrightarrow> (\<forall>h p b. m_blocks m h = Some p \<longrightarrow> m_heap m p = Some b \<longrightarrow>
     ht h \<le> n \<or> ht h mod 2016 = 0 \<and> (ht h = n + 1 \<or> prevBlock b = 0))"

definition chain_ok :: "(UInt256 \<Rightarrow> nat) \<Rightarrow> manager \<Rightarrow> bool" where
  "chain_ok ht m \<longleftrightarrow> links_ok ht m \<and> orphans_ok ht m \<and>
     (\<exists>l. m_heap m (m_lastBlock m) = Some l \<and> m_blocks m (blockHash l) = Some (m_lastBlock m) \<and> ahead_ok ht m (ht (blockHash l)))"

lemma links_okD: "links_ok ht m \<Longrightarrow> m_blocks m h = Some p \<Longrightarrow>
    \<exists>b. m_heap m p = Some b \<and> blockHash b = h \<and> block_fits ht b \<and> height b = of_nat (ht h)"
  by (simp add: links_ok_def)

lemma links_ok_inj: "links_ok ht m \<Longrightarrow> m_blocks m h = Some p \<Longrightarrow> m_blocks m k = Some p \<Longrightarrow> h = k"
  using links_okD [of ht m h p] links_okD [of ht m k p] by auto

lemma get_ptr_links:
  assumes "links_ok ht m"
  shows "get_ptr m h \<noteq> None" "get_ptr m h = Some (Some (p, b)) \<longleftrightarrow> m_blocks m h = Some p \<and> m_heap m p = Some b"
    "get_ptr m h = Some None \<longleftrightarrow> m_blocks m h = None"
  using links_okD [OF assms, of h] by (auto simp: get_ptr_def split: option.splits)

lemma get_block_links:
  assumes "links_ok ht m"
  shows "get_block m h \<noteq> None" "get_block m h = Some None \<longleftrightarrow> m_blocks m h = None"
    "get_block m h = Some (Some b) \<longleftrightarrow> (\<exists>p. m_blocks m h = Some p \<and> m_heap m p = Some b)"
  using links_okD [OF assms, of h] by (auto simp: get_block_def get_ptr_def split: option.splits)

lemma ht_bound: "block_fits ht b \<Longrightarrow> ht (blockHash b) < 2 ^ 32"
  by (simp add: block_fits_def)

lemma unat_ht: "block_fits ht b \<Longrightarrow> unat (of_nat (ht (blockHash b)) :: u32) = ht (blockHash b)"
  using ht_bound [of ht b] by (simp add: unat_of_nat)

lemma ht_interval: "block_fits ht b \<Longrightarrow> (of_nat (ht (blockHash b)) :: u32) mod BLOCK_DIFFICULTY_INTERVAL = 0 \<longleftrightarrow> ht (blockHash b) mod 2016 = 0"
  using unat_ht [of ht b] by (simp add: word_unat_eq_iff unat_mod BLOCK_DIFFICULTY_INTERVAL_def)

text \<open>The successor of a block of the set.\<close>

lemma next_height:
  assumes "links_ok ht m" "get_block m (prevBlock b) = Some (Some q)" "block_fits ht b"
  shows "ht (blockHash b) = ht (prevBlock b) + 1" "height q + 1 = of_nat (ht (blockHash b))" "blockHash q = prevBlock b"
proof -
  obtain p where p: "m_blocks m (prevBlock b) = Some p" "m_heap m p = Some q"
    using assms(2) get_block_links(3) [OF assms(1)] by blast
  then have q: "blockHash q = prevBlock b" "height q = of_nat (ht (prevBlock b))" using links_okD [OF assms(1) p(1)] by auto
  have "prevBlock b \<noteq> 0" using p(1) assms(1) by (auto simp: links_ok_def)
  then show h: "ht (blockHash b) = ht (prevBlock b) + 1" using assms(3) by (simp add: block_fits_def)
  show "height q + 1 = of_nat (ht (blockHash b))" unfolding h q(2) by simp
  show "blockHash q = prevBlock b" by (rule q(1))
qed

lemma ancestor_links:
  assumes "links_ok ht m"
  shows "\<exists>r. ancestor (get_block m) n b = Some r"
proof (induction n arbitrary: b)
  case (Suc n)
  show ?case
  proof (cases b)
    case (Some x)
    obtain y where "get_block m (prevBlock x) = Some y" using get_block_links(1) [OF assms, of "prevBlock x"] by blast
    then show ?thesis using Suc [of y] Some by simp
  qed simp
qed simp

lemma ancestor_None: "ancestor get n None = Some None"
  by (cases n) simp_all

lemma ancestor_height:
  assumes "links_ok ht m" "block_fits ht b" "ancestor (get_block m) n (Some b) = Some (Some a)"
  shows "ht (blockHash a) + n = ht (blockHash b) \<and> block_fits ht a"
  using assms(2,3)
proof (induction n arbitrary: b)
  case (Suc n)
  then obtain y where y: "get_block m (prevBlock b) = Some y" "ancestor (get_block m) n y = Some (Some a)"
    by (auto split: bind_splits)
  then obtain q where q: "y = Some q" by (cases y) (auto simp: ancestor_None)
  note g = y(1) [unfolded q]
  obtain p where "m_blocks m (prevBlock b) = Some p" "m_heap m p = Some q" using g get_block_links(3) [OF assms(1)] by blast
  then have "block_fits ht q" using links_okD [OF assms(1)] by fastforce
  from Suc.IH [OF this] y(2) q next_height [OF assms(1) g Suc.prems(1)] show ?case by simp
qed simp

lemma ancestor_in:
  assumes "links_ok ht m" "ancestor (get_block m) n (Some b) = Some (Some a)" "n \<noteq> 0"
  shows "m_blocks m (blockHash a) \<noteq> None \<and> height a = of_nat (ht (blockHash a))"
  using assms(2,3)
proof (induction n arbitrary: b)
  case (Suc n)
  then obtain y where y: "get_block m (prevBlock b) = Some y" "ancestor (get_block m) n y = Some (Some a)"
    by (auto split: bind_splits)
  then obtain q where q: "y = Some q" by (cases y) (auto simp: ancestor_None)
  then obtain p where p: "m_blocks m (prevBlock b) = Some p" "m_heap m p = Some q" using y(1) get_block_links(3) [OF assms(1)] by blast
  show ?case
  proof (cases "n = 0")
    case True
    then have "a = q" using y(2) q by simp
    then show ?thesis using links_okD [OF assms(1) p(1)] p by auto
  next
    case False
    then show ?thesis using Suc.IH [OF y(2) [unfolded q]] by simp
  qed
qed simp

section \<open>Freeing old blocks\<close>

text \<open>The state without the blocks of a set of hashes.\<close>

definition without :: "UInt256 set \<Rightarrow> manager \<Rightarrow> manager" where
  "without B m = m\<lparr>m_blocks := m_blocks m |` (- B), m_heap := m_heap m |` (- {p. \<exists>k \<in> B. m_blocks m k = Some p})\<rparr>"

lemma without_fields [simp]:
  "m_orphans (without B m) = m_orphans m" "m_checkpoints (without B m) = m_checkpoints m" "m_lastBlock (without B m) = m_lastBlock m"
  "m_lastOrphan (without B m) = m_lastOrphan m" "m_wallet (without B m) = m_wallet m" "m_estimatedHeight (without B m) = m_estimatedHeight m"
  "m_hasFilter (without B m) = m_hasFilter m" "m_downloadPeer (without B m) = m_downloadPeer m"
  by (simp_all add: without_def)

lemma without_empty: "without {} m = m"
  by (simp add: without_def restrict_map_def)

lemma without_blocks: "m_blocks (without B m) k = (if k \<in> B then None else m_blocks m k)"
  by (simp add: without_def restrict_map_def)

lemma without_heap: "m_heap (without B m) p = (if \<exists>k \<in> B. m_blocks m k = Some p then None else m_heap m p)"
  by (simp add: without_def restrict_map_def)

lemma without_links:
  assumes "links_ok ht m"
  shows "links_ok ht (without B m)"
proof -
  have "m_heap (without B m) p = m_heap m p" if "m_blocks m h = Some p" "h \<notin> B" for h p
    using that links_ok_inj [OF assms] by (auto simp: without_heap)
  then show ?thesis using assms by (simp add: links_ok_def without_blocks)
qed

lemma without_orphans:
  assumes "orphans_ok ht m"
  shows "orphans_ok ht (without B m)"
proof -
  have "m_heap (without B m) p = m_heap m p" if "p \<notin> ran (m_blocks m)" for p
    using that by (auto simp: without_heap ran_def)
  moreover have "ran (m_blocks (without B m)) \<subseteq> ran (m_blocks m)" by (auto simp: ran_def without_blocks)
  ultimately show ?thesis using assms by (auto simp: orphans_ok_def)
qed

lemma without_chain:
  assumes "chain_ok ht m" "\<And>l. m_heap m (m_lastBlock m) = Some l \<Longrightarrow> blockHash l \<notin> B"
  shows "chain_ok ht (without B m)"
proof -
  obtain l where l: "m_heap m (m_lastBlock m) = Some l" "m_blocks m (blockHash l) = Some (m_lastBlock m)" "ahead_ok ht m (ht (blockHash l))"
    and ok: "links_ok ht m" "orphans_ok ht m"
    using assms(1) by (auto simp: chain_ok_def)
  have nB: "blockHash l \<notin> B" by (rule assms(2) [OF l(1)])
  then have "m_heap (without B m) (m_lastBlock m) = Some l"
    using l(1,2) links_ok_inj [OF ok(1)] by (auto simp: without_heap)
  moreover have "ahead_ok ht (without B m) (ht (blockHash l))"
    using l(3) by (auto simp: ahead_ok_def without_blocks without_heap split: if_splits)
  ultimately show ?thesis using without_links [OF ok(1)] without_orphans [OF ok(2)] l(2) nB by (simp add: chain_ok_def without_blocks)
qed

lemma free_below_links:
  assumes "links_ok ht m"
  shows "\<exists>B. free_below h m = Some (without B m) \<and> (m_blocks m h = None \<longrightarrow> B = {}) \<and>
     (\<forall>k \<in> B. ht k \<le> ht h \<and> ht k mod 2016 \<noteq> 0 \<and> m_blocks m k \<noteq> None)"
  using assms
proof (induction "ht h" arbitrary: h m rule: less_induct)
  case less
  show ?case
  proof (cases "m_blocks m h")
    case None
    then have "get_ptr m h = Some None" using get_ptr_links(3) [OF less.prems] by simp
    then show ?thesis by (subst free_below.simps) (auto intro: exI [of _ "{}"] simp: without_empty)
  next
    case (Some p)
    then obtain x where x: "m_heap m p = Some x" "blockHash x = h" "block_fits ht x" "height x = of_nat (ht h)"
      using links_okD [OF less.prems] by blast
    have g: "get_ptr m h = Some (Some (p, x))" using Some x(1) get_ptr_links(2) [OF less.prems] by simp
    have i: "height x mod BLOCK_DIFFICULTY_INTERVAL = 0 \<longleftrightarrow> ht h mod 2016 = 0" using ht_interval [OF x(3)] x(2,4) by simp
    define B0 where "B0 = (if ht h mod 2016 \<noteq> 0 then {h} else {})"
    define m1 where "m1 = without B0 m"
    have m1: "links_ok ht m1" unfolding m1_def by (rule without_links [OF less.prems])
    have "(if height x mod BLOCK_DIFFICULTY_INTERVAL \<noteq> 0
        then m\<lparr>m_blocks := (m_blocks m)(blockHash x := None), m_heap := (m_heap m)(p := None)\<rparr> else m) = m1"
    proof -
      have "m_blocks m |` (- {h}) = (m_blocks m)(h := None)" by (auto simp: restrict_map_def)
      moreover have "m_heap m |` (- {q. m_blocks m h = Some q}) = (m_heap m)(p := None)" using Some by (auto simp: restrict_map_def)
      ultimately show ?thesis
        using without_empty [of m] by (cases "ht h mod 2016 = 0") (simp_all add: m1_def B0_def i x(2), simp add: without_def)
    qed
    then have step: "free_below h m = free_below (prevBlock x) m1"
      by (subst free_below.simps) (simp add: g)
    show ?thesis
    proof (cases "prevBlock x = 0")
      case True
      then have "get_ptr m1 (prevBlock x) = Some None" using m1 get_ptr_links(3) [OF m1] by (simp add: links_ok_def)
      then have "free_below h m = Some m1" unfolding step by (subst free_below.simps) simp
      then show ?thesis using Some unfolding m1_def B0_def by (auto intro!: exI [of _ B0] simp: B0_def)
    next
      case False
      then have lt: "ht (prevBlock x) < ht h" using x(2,3) by (simp add: block_fits_def)
      obtain B where B: "free_below (prevBlock x) m1 = Some (without B m1)"
        "\<forall>k \<in> B. ht k \<le> ht (prevBlock x) \<and> ht k mod 2016 \<noteq> 0 \<and> m_blocks m1 k \<noteq> None"
        using less.hyps [OF lt m1] by blast
      have "without B m1 = without (B \<union> B0) m"
      proof -
        have "m_blocks m1 |` (- B) = m_blocks m |` (- (B \<union> B0))" by (auto simp: m1_def without_def restrict_map_def)
        moreover have "m_heap m1 |` (- {p. \<exists>k \<in> B. m_blocks m1 k = Some p}) = m_heap m |` (- {p. \<exists>k \<in> B \<union> B0. m_blocks m k = Some p})"
        proof
          fix q
          show "(m_heap m1 |` (- {p. \<exists>k \<in> B. m_blocks m1 k = Some p})) q = (m_heap m |` (- {p. \<exists>k \<in> B \<union> B0. m_blocks m k = Some p})) q"
            using B(2) by (auto simp: m1_def without_blocks without_heap restrict_map_def split: if_splits)
        qed
        ultimately show ?thesis by (simp add: without_def m1_def)
      qed
      moreover have "\<forall>k \<in> B \<union> B0. ht k \<le> ht h \<and> ht k mod 2016 \<noteq> 0 \<and> m_blocks m k \<noteq> None"
        using B(2) lt Some by (fastforce simp: B0_def m1_def without_blocks split: if_splits)
      ultimately show ?thesis unfolding step B(1) using Some by (intro exI [of _ "B \<union> B0"]) simp
    qed
  qed
qed

section \<open>Verification keeps the chain\<close>

lemma before_interval: "(n + 1) mod 2016 = 0 \<Longrightarrow> n mod 2016 \<noteq> (0 :: nat)"
  by (simp add: mod_Suc split: if_splits)

lemma chain_okD:
  assumes "chain_ok ht m"
  obtains l where "links_ok ht m" "orphans_ok ht m" "m_heap m (m_lastBlock m) = Some l" "m_blocks m (blockHash l) = Some (m_lastBlock m)"
    "block_fits ht l" "height l = of_nat (ht (blockHash l))" "ahead_ok ht m (ht (blockHash l))"
proof -
  obtain l where l: "m_heap m (m_lastBlock m) = Some l" "m_blocks m (blockHash l) = Some (m_lastBlock m)" "ahead_ok ht m (ht (blockHash l))"
    and ok: "links_ok ht m" "orphans_ok ht m"
    using assms by (auto simp: chain_ok_def)
  with links_okD [OF ok(1) l(2)] show thesis by (intro that [of l]) auto
qed

lemma ahead_okD:
  assumes "ahead_ok ht m n" "m_blocks m h = Some p" "m_heap m p = Some b"
  shows "ht h \<le> n \<or> ht h mod 2016 = 0 \<and> (ht h = n + 1 \<or> prevBlock b = 0)"
  using assms by (simp add: ahead_ok_def)

text \<open>Verification frees blocks that are far below the end of the chain.\<close>

lemma VerifyBlock_prunes:
  assumes "chain_ok ht m" "block_fits ht b" "get_block m (prevBlock b) = Some prev" "height b = of_nat (ht (blockHash b))"
    "BRPeerManagerVerifyBlock params b prev m = Some (m', r)"
  shows "\<exists>B. m' = without B m \<and> chain_ok ht m' \<and> (\<forall>k \<in> B. ht k + 2016 < ht (blockHash b) \<and> m_blocks m k \<noteq> None)"
proof -
  obtain l where ok: "links_ok ht m" "m_heap m (m_lastBlock m) = Some l" "ahead_ok ht m (ht (blockHash l))"
    using chain_okD [OF assms(1)] by metis
  let ?r = "case prev of None \<Rightarrow> False | Some p \<Rightarrow> UInt256Eq (prevBlock b) (blockHash p) \<and> height b = height p + 1"
  have same: ?thesis if "m' = m"
    using that assms(1) by (auto intro: exI [of _ "{}"] simp: without_empty)
  show ?thesis
  proof (cases "?r \<and> height b mod BLOCK_DIFFICULTY_INTERVAL = 0")
    case False
    then have "m' = m" using assms(5) by (auto simp: BRPeerManagerVerifyBlock_def Let_def split: bind_splits if_splits)
    then show ?thesis by (rule same)
  next
    case True
    obtain a where a: "ancestor (get_block m) 2016 (Some b) = Some a" using ancestor_links [OF ok(1)] by blast
    show ?thesis
    proof (cases a)
      case None
      then have "m' = m" using assms(5) True a
        by (auto simp: BRPeerManagerVerifyBlock_def Let_def BLOCK_DIFFICULTY_INTERVAL_def split: bind_splits if_splits)
      then show ?thesis by (rule same)
    next
      case (Some x)
      obtain B where B: "free_below (prevBlock x) m = Some (without B m)"
        "\<forall>k \<in> B. ht k \<le> ht (prevBlock x) \<and> ht k mod 2016 \<noteq> 0 \<and> m_blocks m k \<noteq> None"
        "m_blocks m (prevBlock x) = None \<longrightarrow> B = {}"
        using free_below_links [OF ok(1)] by blast
      have m': "m' = without B m" using assms(5) True a Some B(1)
        by (auto simp: BRPeerManagerVerifyBlock_def Let_def BLOCK_DIFFICULTY_INTERVAL_def split: bind_splits if_splits)
      have x: "ht (blockHash x) + 2016 = ht (blockHash b)" "block_fits ht x"
        using ancestor_height [OF ok(1) assms(2) a [unfolded Some]] by auto
      have below: "ht k + 2016 < ht (blockHash b)" if "k \<in> B" for k
      proof (cases "prevBlock x = 0")
        case True
        then have "B = {}" using B(3) ok(1) by (simp add: links_ok_def)
        then show ?thesis using that by simp
      next
        case False
        then have "ht (prevBlock x) < ht (blockHash x)" using x(2) by (simp add: block_fits_def)
        then show ?thesis using B(2) that x(1) by fastforce
      qed
      obtain q where q: "prev = Some q" using True by (cases prev) auto
      note g = assms(3) [unfolded q]
      note nh = next_height [OF ok(1) g assms(2)]
      obtain p where p: "m_blocks m (prevBlock b) = Some p" "m_heap m p = Some q"
        using g get_block_links(3) [OF ok(1)] by blast
      have "ht (blockHash b) mod 2016 = 0" using True assms(4) ht_interval [OF assms(2)] by simp
      then have "ht (prevBlock b) mod 2016 \<noteq> 0" unfolding nh(1) by (rule before_interval)
      then have "ht (prevBlock b) \<le> ht (blockHash l)" using ahead_okD [OF ok(3) p] by auto
      then have "\<not> ht (blockHash l) + 2016 < ht (blockHash b)" using nh(1) by simp
      then have "blockHash l \<notin> B" using below [of "blockHash l"] by metis
      then have "chain_ok ht (without B m)" using ok(2) by (intro without_chain [OF assms(1)]) auto
      then show ?thesis using m' below B(2) by blast
    qed
  qed
qed

section \<open>The branches keep the chain\<close>

text \<open>A block object that is in none of the sets.\<close>

definition new_block :: "(UInt256 \<Rightarrow> nat) \<Rightarrow> manager \<Rightarrow> nat \<Rightarrow> mblock \<Rightarrow> bool" where
  "new_block ht m p b \<longleftrightarrow> m_heap m p = Some b \<and> block_fits ht b \<and> p \<notin> ran (m_blocks m) \<and> p \<notin> ran (m_orphans m)"

text \<open>The chain depends on the following fields only.\<close>

lemma chain_ok_cong:
  assumes "m_heap m' = m_heap m" "m_blocks m' = m_blocks m" "m_orphans m' = m_orphans m" "m_lastBlock m' = m_lastBlock m"
  shows "chain_ok ht m' = chain_ok ht m"
  using assms by (simp add: chain_ok_def links_ok_def orphans_ok_def ahead_ok_def)

lemma new_block_last:
  assumes "chain_ok ht m" "new_block ht m p b"
  shows "p \<noteq> m_lastBlock m"
  using assms by (auto simp: chain_ok_def new_block_def ran_def)

lemma update_heap_chain:
  assumes "chain_ok ht m" "p \<notin> ran (m_blocks m)" "p \<notin> ran (m_orphans m)"
  shows "chain_ok ht (m\<lparr>m_heap := (m_heap m)(p := x)\<rparr>)"
proof -
  obtain l where l: "m_heap m (m_lastBlock m) = Some l" "m_blocks m (blockHash l) = Some (m_lastBlock m)" "ahead_ok ht m (ht (blockHash l))"
    and ok: "links_ok ht m" "orphans_ok ht m"
    using assms(1) by (auto simp: chain_ok_def)
  have b: "m_blocks m h \<noteq> Some p" "m_orphans m h \<noteq> Some p" for h using assms(2,3) by (auto simp: ran_def)
  have "m_lastBlock m \<noteq> p" using l(2) b(1) by metis
  then show ?thesis using l ok b
    by (auto simp: chain_ok_def links_ok_def orphans_ok_def ahead_ok_def)
qed

lemma free_block_chain: "chain_ok ht m \<Longrightarrow> new_block ht m p b \<Longrightarrow> chain_ok ht (free_block p m)"
  unfolding free_block_def by (intro update_heap_chain) (auto simp: new_block_def)

lemma add_orphan_chain:
  assumes "chain_ok ht m" "new_block ht m p b"
  shows "chain_ok ht (add_orphan p b m)"
  using assms by (auto simp: chain_ok_def links_ok_def orphans_ok_def ahead_ok_def add_orphan_def new_block_def)

text \<open>Adding a block whose height is known.\<close>

lemma add_block_links:
  assumes "links_ok ht m" "new_block ht m p b" "height b = of_nat (ht (blockHash b))"
  shows "links_ok ht (add_block p b m)"
  using assms by (auto simp: links_ok_def add_block_def new_block_def block_fits_def)

lemma add_block_orphans:
  assumes "orphans_ok ht m" "new_block ht m p b"
  shows "orphans_ok ht (add_block p b m)"
proof -
  have "p \<noteq> q" if "m_orphans m h = Some q" for h q using assms(2) that by (auto simp: new_block_def ran_def)
  then show ?thesis using assms(1) by (auto simp: orphans_ok_def add_block_def ran_def split: if_splits)
qed

lemma add_block_ahead:
  assumes "ahead_ok ht m n" "m_heap m p = Some b" "n \<le> n'"
    "ht (blockHash b) \<le> n' \<or> ht (blockHash b) mod 2016 = 0 \<and> ht (blockHash b) = n' + 1"
  shows "ahead_ok ht (add_block p b m) n'"
  using assms by (fastforce simp: ahead_ok_def add_block_def)

end
