(* ===== verification/ChainState.thy ===== *)
theory ChainState
  imports Chain
begin

text \<open>
  The invariant of the chain of blocks, and that \<open>_peerRelayedBlock\<close> keeps it: every block of the set is stored and has the height of its
  hash, orphans wait under their predecessor, the last block is in the set and only checkpoints are above it; and the wallet stays sound.
\<close>

definition manager_ok :: "(UInt256 \<Rightarrow> nat) \<Rightarrow> env \<Rightarrow> (UInt256 \<Rightarrow> nat) \<Rightarrow> manager \<Rightarrow> bool" where
  "manager_ok ht e r m \<longleftrightarrow> chain_ok ht m \<and> wallet_ok e r (m_wallet m)"

text \<open>A branch leaves a sound state.\<close>

lemma manager_ok_cong:
  assumes "m_heap m' = m_heap m" "m_blocks m' = m_blocks m" "m_orphans m' = m_orphans m" "m_lastBlock m' = m_lastBlock m"
    "m_wallet m' = m_wallet m"
  shows "manager_ok ht e r m' = manager_ok ht e r m"
  using chain_ok_cong [OF assms(1-4)] assms(5) by (simp add: manager_ok_def)

text \<open>The height of the chain.\<close>

definition tip_ht :: "(UInt256 \<Rightarrow> nat) \<Rightarrow> manager \<Rightarrow> nat" where
  "tip_ht ht m = ht (blockHash (the (m_heap m (m_lastBlock m))))"

lemma tip_ht_cong: "m_heap m' = m_heap m \<Longrightarrow> m_lastBlock m' = m_lastBlock m \<Longrightarrow> tip_ht ht m' = tip_ht ht m"
  by (simp add: tip_ht_def)

lemma tip_ht_fields [simp]:
  "tip_ht ht (m\<lparr>m_wallet := w\<rparr>) = tip_ht ht m" "tip_ht ht (m\<lparr>m_orphans := os\<rparr>) = tip_ht ht m"
  "tip_ht ht (m\<lparr>m_estimatedHeight := n\<rparr>) = tip_ht ht m" "tip_ht ht (add_block p b m) = tip_ht ht m"
  "tip_ht ht (add_orphan p b m) = tip_ht ht m" "tip_ht ht (fst (reset_timeout peer m)) = tip_ht ht m"
  by (simp_all add: tip_ht_def add_block_def add_orphan_def reset_timeout_def)

lemma free_block_ok: "manager_ok ht e r m \<Longrightarrow> new_block ht m p b \<Longrightarrow> manager_ok ht e r (free_block p m)"
  by (simp add: manager_ok_def free_block_chain) (simp add: free_block_def)

lemma add_orphan_ok: "manager_ok ht e r m \<Longrightarrow> new_block ht m p b \<Longrightarrow> manager_ok ht e r (add_orphan p b m)"
  by (simp add: manager_ok_def add_orphan_chain) (simp add: add_orphan_def)

lemma reset_timeout_ok: "manager_ok ht e r m \<Longrightarrow> manager_ok ht e r (fst (reset_timeout peer m))"
  by (subst manager_ok_cong [of _ m]) (simp_all add: reset_timeout_def)

lemma misbehavin_fields:
  "m_heap (fst (BRPeerManagerPeerMisbehavin peer m)) = m_heap m" "m_blocks (fst (BRPeerManagerPeerMisbehavin peer m)) = m_blocks m"
  "m_orphans (fst (BRPeerManagerPeerMisbehavin peer m)) = m_orphans m"
  "m_lastBlock (fst (BRPeerManagerPeerMisbehavin peer m)) = m_lastBlock m"
  "m_wallet (fst (BRPeerManagerPeerMisbehavin peer m)) = m_wallet m"
  by (simp_all add: BRPeerManagerPeerMisbehavin_def Let_def)

lemma misbehavin_ok: "manager_ok ht e r m \<Longrightarrow> manager_ok ht e r (fst (BRPeerManagerPeerMisbehavin peer m))"
  by (subst manager_ok_cong [of _ m]) (simp_all add: misbehavin_fields)

lemma update_wallet_ok:
  assumes "wallet_ok e r (m_wallet m)"
  shows "\<exists>w ns. update_wallet now hs h stamp m = Some (m\<lparr>m_wallet := w\<rparr>, ns) \<and> wallet_ok e r w"
proof (cases "hs = []")
  case True
  then show ?thesis using assms by (intro exI [of _ "m_wallet m"]) (simp add: update_wallet_def)
next
  case False
  then show ?thesis using UpdateTransactions_ok [OF assms, of now hs h stamp] by (auto simp: update_wallet_def)
qed

lemma manager_ok_wallet: "manager_ok ht e r m \<Longrightarrow> wallet_ok e r w \<Longrightarrow> manager_ok ht e r (m\<lparr>m_wallet := w\<rparr>)"
  using chain_ok_cong [of "m\<lparr>m_wallet := w\<rparr>" m ht] by (simp add: manager_ok_def)

text \<open>A block above the tip of the chain.\<close>

lemma set_last_chain:
  assumes "chain_ok ht m" "new_block ht m p b" "height b = of_nat (ht (blockHash b))"
    "\<And>l. m_heap m (m_lastBlock m) = Some l \<Longrightarrow> ht (blockHash l) < ht (blockHash b)"
  shows "chain_ok ht ((add_block p b m)\<lparr>m_lastBlock := p\<rparr>)"
proof -
  obtain l where l: "links_ok ht m" "orphans_ok ht m" "m_heap m (m_lastBlock m) = Some l" "ahead_ok ht m (ht (blockHash l))"
    using chain_okD [OF assms(1)] by metis
  let ?m = "(add_block p b m)\<lparr>m_lastBlock := p\<rparr>"
  have h: "m_heap m p = Some b" using assms(2) by (simp add: new_block_def)
  have "links_ok ht ?m" using add_block_links [OF l(1) assms(2,3)] by (simp add: links_ok_def)
  moreover have "orphans_ok ht ?m" using add_block_orphans [OF l(2) assms(2)] by (simp add: orphans_ok_def)
  moreover have "ahead_ok ht ?m (ht (blockHash b))"
    using add_block_ahead [OF l(4) h, of "ht (blockHash b)"] assms(4) [OF l(3)] by (simp add: ahead_ok_def)
  ultimately show ?thesis using h by (simp add: chain_ok_def) (simp add: add_block_def)
qed

lemma add_block_chain:
  assumes "chain_ok ht m" "new_block ht m p b" "height b = of_nat (ht (blockHash b))" "m_blocks m (blockHash b) = None"
    "\<And>l. m_heap m (m_lastBlock m) = Some l \<Longrightarrow> ht (blockHash b) \<le> ht (blockHash l)"
  shows "chain_ok ht (add_block p b m)"
proof -
  obtain l where l: "links_ok ht m" "orphans_ok ht m" "m_heap m (m_lastBlock m) = Some l" "m_blocks m (blockHash l) = Some (m_lastBlock m)"
    "ahead_ok ht m (ht (blockHash l))"
    using chain_okD [OF assms(1)] by metis
  have h: "m_heap m p = Some b" using assms(2) by (simp add: new_block_def)
  have "links_ok ht (add_block p b m)" by (rule add_block_links [OF l(1) assms(2,3)])
  moreover have "orphans_ok ht (add_block p b m)" by (rule add_block_orphans [OF l(2) assms(2)])
  moreover have "ahead_ok ht (add_block p b m) (ht (blockHash l))"
    using add_block_ahead [OF l(5) h le_refl] assms(5) [OF l(3)] by simp
  moreover have "blockHash l \<noteq> blockHash b" using l(4) assms(4) by auto
  ultimately show ?thesis using l(3,4) by (simp add: chain_ok_def) (simp add: add_block_def)
qed

text \<open>The heights as words.\<close>

lemma height_less:
  assumes "block_fits ht b" "height b = of_nat (ht (blockHash b))" "block_fits ht l" "height l = of_nat (ht (blockHash l))"
  shows "height l < height b \<longleftrightarrow> ht (blockHash l) < ht (blockHash b)" "height l = height b \<longleftrightarrow> ht (blockHash l) = ht (blockHash b)"
  using assms unat_ht [of ht b] unat_ht [of ht l] by (simp_all add: word_less_nat_alt word_unat_eq_iff)

lemma relay_extend_ok:
  assumes "manager_ok ht e r m" "new_block ht m p b" "height b = of_nat (ht (blockHash b))"
    "m_heap m (m_lastBlock m) = Some l" "prevBlock b = blockHash l"
  shows "\<exists>m' ns sc. relay_extend now peer p b hs txTime m = Some (m', ns, True, sc) \<and> manager_ok ht e r m' \<and> m_lastBlock m' = p \<and>
    m_heap m' = m_heap m \<and> m_blocks m' = (m_blocks m)(blockHash b \<mapsto> p) \<and> m_orphans m' = m_orphans m"
proof -
  have c: "chain_ok ht m" and w: "wallet_ok e r (m_wallet m)" using assms(1) by (auto simp: manager_ok_def)
  have "prevBlock b \<noteq> 0" using c assms(4,5) by (auto simp: chain_ok_def links_ok_def)
  then have "ht (blockHash b) = ht (blockHash l) + 1" using assms(2,5) by (simp add: new_block_def block_fits_def)
  then have ok: "chain_ok ht ((add_block p b m)\<lparr>m_lastBlock := p\<rparr>)"
    using assms(4) by (intro set_last_chain [OF c assms(2,3)]) auto
  let ?m = "(add_block p b m)\<lparr>m_lastBlock := p\<rparr>"
  have "wallet_ok e r (m_wallet ?m)" using w by (simp add: add_block_def)
  from update_wallet_ok [OF this] obtain w' ns where u: "update_wallet now hs (height b) txTime ?m = Some (?m\<lparr>m_wallet := w'\<rparr>, ns)"
    "wallet_ok e r w'" by blast
  have "manager_ok ht e r (?m\<lparr>m_wallet := w'\<rparr>)" using ok u(2) chain_ok_cong [of "?m\<lparr>m_wallet := w'\<rparr>" ?m ht] by (simp add: manager_ok_def)
  then show ?thesis using u(1) reset_timeout_ok [of ht e r "?m\<lparr>m_wallet := w'\<rparr>" peer]
    by (auto simp: relay_extend_def Let_def reset_timeout_def is_download_peer_def add_block_def split: prod.split option.split)
qed

text \<open>The block replaces one with the same hash, the object \<open>old\<close>.\<close>

definition replace_block :: "nat \<Rightarrow> nat \<Rightarrow> mblock \<Rightarrow> manager \<Rightarrow> manager" where
  "replace_block old p b m = free_block old (add_block p b (if m_lastBlock m = old then m\<lparr>m_lastBlock := p\<rparr> else m))"

lemma replace_block_chain:
  assumes "chain_ok ht m" "new_block ht m p b" "height b = of_nat (ht (blockHash b))" "m_blocks m (blockHash b) = Some old"
    "prevBlock b \<noteq> 0" "m_blocks m (prevBlock b) \<noteq> None"
  shows "chain_ok ht (replace_block old p b m) \<and> tip_ht ht (replace_block old p b m) = tip_ht ht m"
proof -
  obtain l where l: "links_ok ht m" "orphans_ok ht m" "m_heap m (m_lastBlock m) = Some l" "m_blocks m (blockHash l) = Some (m_lastBlock m)"
    "ahead_ok ht m (ht (blockHash l))"
    using chain_okD [OF assms(1)] by metis
  let ?m = "replace_block old p b m"
  have b: "m_heap m p = Some b" "block_fits ht b" "\<And>h. m_blocks m h \<noteq> Some p" using assms(2) by (auto simp: new_block_def ran_def)
  then have op: "old \<noteq> p" using assms(4) by metis
  have inj: "h = blockHash b" if "m_blocks m h = Some old" for h using links_ok_inj [OF l(1) that assms(4)] .
  obtain ob where ob: "m_heap m old = Some ob" "blockHash ob = blockHash b" using links_okD [OF l(1) assms(4)] by blast
  have f: "m_blocks ?m = (m_blocks m)(blockHash b \<mapsto> p)" "m_heap ?m = (m_heap m)(old := None)" "m_orphans ?m = m_orphans m"
    "m_lastBlock ?m = (if m_lastBlock m = old then p else m_lastBlock m)"
    by (simp_all add: replace_block_def add_block_def free_block_def)
  have "links_ok ht ?m"
    unfolding links_ok_def
  proof (intro conjI allI impI)
    show "m_blocks ?m 0 = None" using l(1) b(2) by (simp add: links_ok_def f(1) block_fits_def)
    fix h q assume q: "m_blocks ?m h = Some q"
    show "\<exists>x. m_heap ?m q = Some x \<and> blockHash x = h \<and> block_fits ht x \<and> height x = of_nat (ht h)"
    proof (cases "h = blockHash b")
      case True
      then have "q = p" using q by (simp add: f)
      then show ?thesis using b op assms(3) True unfolding f(2) by simp
    next
      case False
      then have "m_blocks m h = Some q" "q \<noteq> old" using q inj by (auto simp: f)
      then show ?thesis using links_okD [OF l(1)] by (simp add: f)
    qed
  qed
  moreover have "orphans_ok ht ?m"
  proof -
    have "old \<noteq> q \<and> p \<noteq> q" if "m_orphans m h = Some q" for h q
    proof -
      have "q \<notin> ran (m_blocks m)" using that l(2) by (simp add: orphans_ok_def)
      then show ?thesis using ranI [of "m_blocks m", OF assms(4)] that assms(2) by (auto simp: new_block_def ran_def)
    qed
    moreover have "ran (m_blocks ?m) \<subseteq> insert p (ran (m_blocks m))" by (auto simp: f(1) ran_def split: if_splits)
    moreover have "(\<exists>x. m_heap m q = Some x \<and> prevBlock x = h \<and> block_fits ht x) \<and> q \<notin> ran (m_blocks m)" if "m_orphans m h = Some q" for h q
      using l(2) that by (simp add: orphans_ok_def)
    ultimately show ?thesis unfolding orphans_ok_def f(2,3) by (simp add: fun_upd_def) (metis insert_iff subsetD)
  qed
  moreover have last: "blockHash l = blockHash b \<longleftrightarrow> m_lastBlock m = old" using l(4) assms(4) inj [of "blockHash l"] by auto
  moreover have hb: "ht (blockHash b) \<le> ht (blockHash l) \<or> ht (blockHash b) mod 2016 = 0 \<and> ht (blockHash b) = ht (blockHash l) + 1"
  proof -
    obtain q where q: "m_blocks m (prevBlock b) = Some q" using assms(6) by blast
    then obtain x where x: "m_heap m q = Some x" "blockHash x = prevBlock b" using links_okD [OF l(1)] by blast
    have hp: "ht (blockHash b) = ht (prevBlock b) + 1" using b(2) assms(5) by (simp add: block_fits_def)
    consider "ht (blockHash b) \<le> ht (blockHash l)" | "ht (blockHash b) mod 2016 = 0"
      using ahead_okD [OF l(5) assms(4) ob(1)] by auto
    then show ?thesis
    proof cases
      case 2
      then have "ht (prevBlock b) mod 2016 \<noteq> 0" unfolding hp by (rule before_interval)
      then have "ht (prevBlock b) \<le> ht (blockHash l)" using ahead_okD [OF l(5) q x(1)] by auto
      then show ?thesis using 2 hp by auto
    qed simp
  qed
  have "ahead_ok ht ?m (ht (blockHash l))"
    unfolding ahead_ok_def
  proof (intro allI impI)
    fix h q x
    assume q: "m_blocks ?m h = Some q" "m_heap ?m q = Some x"
    show "ht h \<le> ht (blockHash l) \<or> ht h mod 2016 = 0 \<and> (ht h = ht (blockHash l) + 1 \<or> prevBlock x = 0)"
    proof (cases "h = blockHash b")
      case True
      then show ?thesis using hb by auto
    next
      case False
      then have "m_blocks m h = Some q" "m_heap m q = Some x" using q by (auto simp: f split: if_splits)
      then show ?thesis by (rule ahead_okD [OF l(5)])
    qed
  qed
  moreover have "m_heap ?m (m_lastBlock ?m) = Some (if m_lastBlock m = old then b else l)"
    "m_blocks ?m (blockHash (if m_lastBlock m = old then b else l)) = Some (m_lastBlock ?m)"
    using l(3,4) b(1) op last by (simp_all add: f)
  moreover have "blockHash (if m_lastBlock m = old then b else l) = blockHash l" using last by auto
  ultimately show ?thesis using l(3) unfolding chain_ok_def tip_ht_def by (metis option.sel)
qed

lemma relay_existing_ok:
  assumes "manager_ok ht e r m" "new_block ht m p b" "height b = of_nat (ht (blockHash b))" "m_blocks m (blockHash b) \<noteq> None"
    "prevBlock b \<noteq> 0" "m_blocks m (prevBlock b) \<noteq> None" "relay_existing now p b hs txTime m = Some (m', ns, alive, sc)"
  shows "manager_ok ht e r m' \<and> tip_ht ht m' = tip_ht ht m"
proof -
  have c: "chain_ok ht m" and w: "wallet_ok e r (m_wallet m)" using assms(1) by (auto simp: manager_ok_def)
  obtain l where l: "links_ok ht m" "orphans_ok ht m" "m_heap m (m_lastBlock m) = Some l" "m_blocks m (blockHash l) = Some (m_lastBlock m)"
    "block_fits ht l" "height l = of_nat (ht (blockHash l))"
    using chain_okD [OF c] by metis
  have b: "block_fits ht b" "\<And>h. m_blocks m h \<noteq> Some p" using assms(2) by (auto simp: new_block_def ran_def)
  obtain old where old: "m_blocks m (blockHash b) = Some old" using assms(4) by blast
  then have op: "old \<noteq> p" using b(2) by metis
  obtain ob where ob: "m_heap m old = Some ob" "blockHash ob = blockHash b" using links_okD [OF l(1) old] by blast
  have last: "m_lastBlock m = old \<longleftrightarrow> blockHash l = blockHash b" using l(3,4) old ob by auto
  have notin: "m_orphans m h \<noteq> Some old" for h using l(2) old by (auto simp: orphans_ok_def ran_def)
  obtain w' u where u: "update_wallet now hs (height b) txTime m = Some (m\<lparr>m_wallet := w'\<rparr>, u)" "wallet_ok e r w'"
    using update_wallet_ok [OF w] by blast
  have walk: "walk_down m (height b) (Some (m_lastBlock m, l)) = Some (Some (m_lastBlock m, l))" if "height b = height l"
    using that by (subst walk_down.simps) simp
  obtain q cb where cb: "walk_down m (height b) (Some (m_lastBlock m, l)) = Some (Some (q, cb))"
    using assms(7) l(3) by (auto simp: relay_existing_def Let_def split: bind_splits)
  define m1 where "m1 = (if BRMerkleBlockEq cb b then m\<lparr>m_wallet := w'\<rparr> else m)"
  have m1: "m_heap m1 = m_heap m" "m_blocks m1 = m_blocks m" "m_orphans m1 = m_orphans m" "m_lastBlock m1 = m_lastBlock m"
    "wallet_ok e r (m_wallet m1)"
    using u(2) w by (simp_all add: m1_def)
  have last2: "m_lastBlock m = old \<longleftrightarrow> BRMerkleBlockEq cb b \<and> height b = height l"
  proof
    assume "m_lastBlock m = old"
    then have h: "blockHash l = blockHash b" using last by simp
    then have "height b = height l" using l(6) assms(3) by simp
    then show "BRMerkleBlockEq cb b \<and> height b = height l" using walk cb h by (auto simp: BRMerkleBlockEq_def)
  next
    assume "BRMerkleBlockEq cb b \<and> height b = height l"
    then show "m_lastBlock m = old" using walk cb last by (auto simp: BRMerkleBlockEq_def)
  qed
  let ?n = "replace_block old p b m1"
  have f: "m_heap m' = m_heap ?n" "m_blocks m' = m_blocks ?n" "m_orphans m' = m_orphans ?n" "m_lastBlock m' = m_lastBlock ?n"
    "m_wallet m' = m_wallet ?n"
    using assms(7) l(3) old op ob notin u(1) cb last2
    by (auto simp: relay_existing_def Let_def replace_block_def m1_def add_block_def free_block_def split: if_splits)
  have "chain_ok ht m1" using chain_ok_cong [OF m1(1-4)] c by simp
  moreover have "new_block ht m1 p b" using assms(2) by (simp add: new_block_def m1)
  ultimately have "chain_ok ht ?n \<and> tip_ht ht ?n = tip_ht ht m1" using assms(3,5,6) old by (intro replace_block_chain) (simp_all add: m1)
  moreover have "m_wallet ?n = m_wallet m1" by (simp add: replace_block_def add_block_def free_block_def)
  ultimately have "manager_ok ht e r ?n" using m1(5) by (simp add: manager_ok_def)
  moreover have "tip_ht ht m' = tip_ht ht m"
    using \<open>chain_ok ht ?n \<and> tip_ht ht ?n = tip_ht ht m1\<close> tip_ht_cong [of m' ?n ht] tip_ht_cong [of m1 m ht] f m1 by simp
  ultimately show ?thesis using manager_ok_cong [OF f] by simp
qed

text \<open>Setting the heights changes the wallet only.\<close>

lemma set_heights_ok:
  assumes "set_heights now j b s = Some s'" "wallet_ok e r (m_wallet (fst s))"
  shows "\<exists>w. fst s' = (fst s)\<lparr>m_wallet := w\<rparr> \<and> wallet_ok e r w"
proof -
  have "wallet_ok e r (m_wallet (fst s)) \<longrightarrow> (\<exists>w. fst s' = (fst s)\<lparr>m_wallet := w\<rparr> \<and> wallet_ok e r w)"
  proof (rule set_heights.raw_induct [OF _ assms(1)], goal_cases)
    case (1 f now j b s s')
    show ?case
    proof (cases "b \<noteq> None \<and> height (the b) > j")
      case False
      then show ?thesis using 1(2) by (intro impI exI [of _ "m_wallet (fst s)"]) (auto split: if_splits)
    next
      case True
      obtain hs next1 m ns stamp where u: "update_wallet now hs (height (the b)) stamp (fst s) = Some (m, ns)"
        and f: "f now j next1 (m, snd s @ ns) = Some s'"
        using 1(2) True by (auto split: bind_splits)
      show ?thesis
      proof
        assume w: "wallet_ok e r (m_wallet (fst s))"
        obtain w' where w': "m = (fst s)\<lparr>m_wallet := w'\<rparr>" "wallet_ok e r w'" using update_wallet_ok [OF w, of now hs "height (the b)" stamp] u by auto
        from 1(1) [OF f] w' show "\<exists>w. fst s' = (fst s)\<lparr>m_wallet := w\<rparr> \<and> wallet_ok e r w" by auto
      qed
    qed
  qed
  then show ?thesis using assms(2) by blast
qed

text \<open>The blocks of the search for the join are blocks of the set.\<close>

lemma find_join_fits:
  assumes "find_join m b b2 = Some (Some j, j2)" "links_ok ht m" "\<And>x. b = Some x \<Longrightarrow> height x = of_nat (ht (blockHash x)) \<and> block_fits ht x"
  shows "height j = of_nat (ht (blockHash j)) \<and> block_fits ht j"
proof -
  let ?ok = "\<lambda>x. height x = of_nat (ht (blockHash x)) \<and> block_fits ht x"
  have "links_ok ht m \<longrightarrow> (\<forall>x. b = Some x \<longrightarrow> ?ok x) \<longrightarrow> (\<forall>x. fst (Some j, j2) = Some x \<longrightarrow> ?ok x)"
  proof (rule find_join.raw_induct [of "\<lambda>m b b2 y. links_ok ht m \<longrightarrow> (\<forall>x. b = Some x \<longrightarrow> ?ok x) \<longrightarrow> (\<forall>x. fst y = Some x \<longrightarrow> ?ok x)",
        OF _ assms(1)], goal_cases)
    case (1 f m b b2 y)
    show ?case
    proof (cases "b \<noteq> None \<and> b2 \<noteq> None \<and> \<not> BRMerkleBlockEq (the b) (the b2)")
      case False
      then show ?thesis using 1(2) by (auto split: if_splits)
    next
      case True
      obtain next1 next2 where n: "get_block m (prevBlock (the b)) = Some next1" "f m next1 next2 = Some y"
        using 1(2) True by (auto split: bind_splits)
      show ?thesis
      proof
        assume l: "links_ok ht m"
        have "\<forall>x. next1 = Some x \<longrightarrow> ?ok x"
          using n(1) get_block_links(3) [OF l] links_okD [OF l] by fastforce
        then show "(\<forall>x. b = Some x \<longrightarrow> ?ok x) \<longrightarrow> (\<forall>x. fst y = Some x \<longrightarrow> ?ok x)" using 1(1) [OF n(2)] l by blast
      qed
    qed
  qed
  then show ?thesis using assms(2,3) by auto
qed

lemma relay_fork_ok:
  assumes "manager_ok ht e r m" "new_block ht m p b" "height b = of_nat (ht (blockHash b))" "m_blocks m (blockHash b) = None"
    "relay_fork now p b m = Some (m', ns, alive, sc)"
  shows "manager_ok ht e r m' \<and> tip_ht ht m \<le> tip_ht ht m'"
proof -
  have c: "chain_ok ht m" and w: "wallet_ok e r (m_wallet m)" using assms(1) by (auto simp: manager_ok_def)
  obtain l where l: "links_ok ht m" "m_heap m (m_lastBlock m) = Some l" "block_fits ht l" "height l = of_nat (ht (blockHash l))"
    using chain_okD [OF c] by metis
  have b: "block_fits ht b" "m_heap m p = Some b" using assms(2) by (auto simp: new_block_def)
  note less = height_less [OF b(1) assms(3) l(3,4)]
  let ?m = "add_block p b m"
  have f: "m_heap ?m = m_heap m" "m_lastBlock ?m = m_lastBlock m" "m_wallet ?m = m_wallet m" by (simp_all add: add_block_def)
  show ?thesis
  proof (cases "height b > height l")
    case False
    then have "m' = ?m" using assms(5) l(2) by (simp add: relay_fork_def Let_def f)
    moreover have "chain_ok ht ?m" using less(1) False l(2) by (intro add_block_chain [OF c assms(2-4)]) auto
    ultimately show ?thesis using w by (simp add: manager_ok_def f)
  next
    case True
    then obtain j j2 w1 evs m1 ns1 where j: "find_join ?m (Some b) (Some l) = Some (Some j, j2)"
      "BRWalletSetTxUnconfirmedAfter now (m_wallet m) (height j) = Some (w1, evs)"
      "(case j2 of None \<Rightarrow> Some (?m\<lparr>m_wallet := w1\<rparr>, map WalletEvent evs)
         | Some y \<Rightarrow> set_heights now (height y) (Some b) (?m\<lparr>m_wallet := w1\<rparr>, map WalletEvent evs)) = Some (m1, ns1)"
      "m' = m1\<lparr>m_lastBlock := p\<rparr>"
      using assms(5) l(2) by (auto simp: relay_fork_def Let_def f split: bind_splits prod.splits)
    have links: "links_ok ht ?m" by (rule add_block_links [OF l(1) assms(2,3)])
    have "height j = of_nat (ht (blockHash j))" "block_fits ht j"
      using find_join_fits [OF j(1) links] assms(3) b(1) by auto
    then have "height j \<le> TX_UNCONFIRMED" using unat_ht [of ht j] by (simp add: word_le_nat_alt block_fits_def TX_UNCONFIRMED_def)
    then have w1: "wallet_ok e r w1" using SetTxUnconfirmedAfter_ok [OF w, of "height j" now] j(2) by auto
    have "\<exists>w2. m1 = ?m\<lparr>m_wallet := w2\<rparr> \<and> wallet_ok e r w2"
    proof (cases j2)
      case None
      then show ?thesis using j(3) w1 by auto
    next
      case (Some y)
      then show ?thesis using j(3) w1 set_heights_ok [of now "height y" "Some b" "(?m\<lparr>m_wallet := w1\<rparr>, map WalletEvent evs)" "(m1, ns1)" e r]
        by auto
    qed
    then obtain w2 where w2: "m' = ?m\<lparr>m_wallet := w2, m_lastBlock := p\<rparr>" "wallet_ok e r w2" using j(4) by auto
    have "chain_ok ht (?m\<lparr>m_lastBlock := p\<rparr>)" using less(1) True l(2) by (intro set_last_chain [OF c assms(2,3)]) auto
    then have "chain_ok ht m'" unfolding w2(1) by (subst chain_ok_cong [of _ "?m\<lparr>m_lastBlock := p\<rparr>"]) simp_all
    moreover have "tip_ht ht m \<le> tip_ht ht m'" using less(1) True l(2) b(2) by (simp add: tip_ht_def w2(1) f)
    ultimately show ?thesis using w2 by (simp add: manager_ok_def)
  qed
qed

text \<open>The branches together.\<close>

lemma new_block_without: "new_block ht m p b \<Longrightarrow> new_block ht (without B m) p b"
  by (auto simp: new_block_def without_blocks without_heap ran_def)

lemma free_block_tip: "chain_ok ht m \<Longrightarrow> new_block ht m p b \<Longrightarrow> tip_ht ht (free_block p m) = tip_ht ht m"
  using new_block_last [of ht m p b] by (simp add: tip_ht_def free_block_def)

lemma relay_orphan_ok:
  assumes "manager_ok ht e r m" "new_block ht m p b" "relay_orphan params now peer p b m = Some (m', ns, alive, sc)"
  shows "manager_ok ht e r m' \<and> tip_ht ht m' = tip_ht ht m"
proof -
  have "m' = free_block p m \<or> m' = add_orphan p b m"
    using assms(3) by (auto simp: relay_orphan_def split: if_splits bind_splits)
  then show ?thesis using free_block_ok [OF assms(1,2)] add_orphan_ok [OF assms(1,2)] free_block_tip [OF _ assms(2)] assms(1)
    by (auto simp: manager_ok_def)
qed

lemma VerifyBlock_ok:
  assumes "manager_ok ht e r m" "new_block ht m p b" "get_block m (prevBlock b) = Some (Some q)" "height b = of_nat (ht (blockHash b))"
    "BRPeerManagerVerifyBlock params b (Some q) m = Some (m', v)"
  shows "manager_ok ht e r m' \<and> new_block ht m' p b \<and> tip_ht ht m' = tip_ht ht m \<and> get_block m' (prevBlock b) = Some (Some q)"
proof -
  have c: "chain_ok ht m" and w: "wallet_ok e r (m_wallet m)" using assms(1) by (auto simp: manager_ok_def)
  have b: "block_fits ht b" using assms(2) by (simp add: new_block_def)
  have links: "links_ok ht m" using c by (simp add: chain_ok_def)
  obtain B where B: "m' = without B m" "chain_ok ht m'" "\<forall>k \<in> B. ht k + 2016 < ht (blockHash b)"
    using VerifyBlock_prunes [OF c b assms(3,4,5)] by blast
  have links': "links_ok ht m'" using B(2) by (simp add: chain_ok_def)
  obtain p' where p': "m_blocks m (prevBlock b) = Some p'" "m_heap m p' = Some q"
    using assms(3) get_block_links(3) [OF links] by blast
  have "ht (blockHash b) = ht (prevBlock b) + 1" by (rule next_height(1) [OF links assms(3) b])
  then have nB: "prevBlock b \<notin> B" using B(3) by auto
  moreover have "\<not> (\<exists>k \<in> B. m_blocks m k = Some p')" using nB links_ok_inj [OF links _ p'(1)] by blast
  ultimately have "m_blocks m' (prevBlock b) = Some p'" "m_heap m' p' = Some q"
    using p' by (simp_all add: B(1) without_blocks without_heap)
  then have "get_block m' (prevBlock b) = Some (Some q)"
    using get_block_links(3) [OF links'] by blast
  moreover have "tip_ht ht m' = tip_ht ht m"
  proof -
    have "m_heap (without B m) (m_lastBlock m) \<noteq> None" using B(1,2) by (auto simp: chain_ok_def)
    then have "m_heap (without B m) (m_lastBlock m) = m_heap m (m_lastBlock m)" by (auto simp: without_heap split: if_splits)
    then show ?thesis by (simp add: tip_ht_def B(1))
  qed
  ultimately show ?thesis using B(1,2) w new_block_without [OF assms(2)] by (simp add: manager_ok_def)
qed

lemma relay_branch_ok:
  assumes "manager_ok ht e r m" "new_block ht m p b" "get_block m (prevBlock b) = Some prev"
    "\<And>q. prev = Some q \<Longrightarrow> height b = of_nat (ht (blockHash b))"
    "relay_branch params now peer p b prev hs txTime m = Some (m', ns, alive, sc)"
  shows "manager_ok ht e r m' \<and> tip_ht ht m \<le> tip_ht ht m'"
proof -
  have c: "chain_ok ht m" using assms(1) by (simp add: manager_ok_def)
  note free = free_block_ok [OF assms(1,2)] free_block_tip [OF c assms(2)]
  consider "m' = free_block p m" | "m' = fst (reset_timeout peer (free_block p m))"
    | "prev = None" "relay_orphan params now peer p b m = Some (m', ns, alive, sc)"
    | q m1 v where "prev = Some q" "BRPeerManagerVerifyBlock params b prev m = Some (m1, v)"
       "m' = fst (BRPeerManagerPeerMisbehavin peer (free_block p m1)) \<or> m' = add_orphan p b m1 \<or> m' = free_block p m1 \<or>
        relay_fork now p b m1 = Some (m', ns, alive, sc) \<and> m_blocks m1 (blockHash b) = None \<or>
        relay_existing now p b hs txTime m1 = Some (m', ns, alive, sc) \<and> m_blocks m1 (blockHash b) \<noteq> None \<or>
        (\<exists>l. m_heap m1 (m_lastBlock m1) = Some l \<and> prevBlock b = blockHash l) \<and>
          relay_extend now peer p b hs txTime m1 = Some (m', ns, alive, sc)"
    using assms(5) unfolding relay_branch_def Let_def
    by (auto split: if_splits bind_splits prod.splits option.splits)
  then show ?thesis
  proof cases
    case 1
    then show ?thesis using free by simp
  next
    case 2
    then show ?thesis using free reset_timeout_ok by simp
  next
    case 3
    then show ?thesis using relay_orphan_ok [OF assms(1,2) 3(2)] by simp
  next
    case 4
    have h: "height b = of_nat (ht (blockHash b))" by (rule assms(4) [OF 4(1)])
    have v: "manager_ok ht e r m1" "new_block ht m1 p b" "tip_ht ht m1 = tip_ht ht m" "get_block m1 (prevBlock b) = Some (Some q)"
      using VerifyBlock_ok [OF assms(1,2) assms(3) [unfolded 4(1)] h 4(2) [unfolded 4(1)]] by auto
    have c1: "chain_ok ht m1" using v(1) by (simp add: manager_ok_def)
    then have links: "links_ok ht m1" by (simp add: chain_ok_def)
    have pb: "m_blocks m1 (prevBlock b) \<noteq> None" using v(4) get_block_links(2) [OF links] by force
    then have p0: "prevBlock b \<noteq> 0" using links by (auto simp: links_ok_def)
    note free1 = free_block_ok [OF v(1,2)] free_block_tip [OF c1 v(2)]
    from 4(3) consider "m' = fst (BRPeerManagerPeerMisbehavin peer (free_block p m1))" | "m' = add_orphan p b m1" | "m' = free_block p m1"
      | "relay_fork now p b m1 = Some (m', ns, alive, sc)" "m_blocks m1 (blockHash b) = None"
      | "relay_existing now p b hs txTime m1 = Some (m', ns, alive, sc)" "m_blocks m1 (blockHash b) \<noteq> None"
      | l where "m_heap m1 (m_lastBlock m1) = Some l" "prevBlock b = blockHash l" "relay_extend now peer p b hs txTime m1 = Some (m', ns, alive, sc)"
      by auto
    then show ?thesis
    proof cases
      case 1
      then show ?thesis using misbehavin_ok [OF free1(1)] free1(2) v(3) tip_ht_cong [OF misbehavin_fields(1,4), of ht peer] by simp
    next
      case 2
      then show ?thesis using add_orphan_ok [OF v(1,2)] v(3) by simp
    next
      case 3
      then show ?thesis using free1 v(3) by simp
    next
      case 4
      then show ?thesis using relay_fork_ok [OF v(1,2) h _ 4(1)] v(3) by simp
    next
      case 5
      then show ?thesis using relay_existing_ok [OF v(1,2) h _ p0 pb 5(1)] v(3) by simp
    next
      case 6
      obtain m2 ns2 sc2 where x: "relay_extend now peer p b hs txTime m1 = Some (m2, ns2, True, sc2)" "manager_ok ht e r m2"
        "m_lastBlock m2 = p" "m_heap m2 = m_heap m1"
        using relay_extend_ok [OF v(1,2) h 6(1,2)] by blast
      have "ht (blockHash b) = ht (prevBlock b) + 1" using p0 v(2) by (simp add: new_block_def block_fits_def)
      then have "tip_ht ht m1 \<le> tip_ht ht m2" using x(3,4) 6(1,2) v(2) by (simp add: tip_ht_def new_block_def)
      then show ?thesis using x 6(3) v(3) by simp
    qed
  qed
qed

section \<open>Relayed blocks keep the invariant\<close>

lemma take_orphan_ok:
  assumes "manager_ok ht e r m" "take_orphan alive b m = (m', next)"
  shows "manager_ok ht e r m' \<and> tip_ht ht m' = tip_ht ht m \<and> (\<forall>q. next = Some q \<longrightarrow> (\<exists>ob. new_block ht m' q ob \<and> prevBlock ob = blockHash b))"
proof (cases "alive \<and> height b \<noteq> BLOCK_UNKNOWN_HEIGHT")
  case True
  have n: "next = m_orphans m (blockHash b)" and f: "m_heap m' = m_heap m" "m_blocks m' = m_blocks m" "m_lastBlock m' = m_lastBlock m"
    "m_wallet m' = m_wallet m" "m_orphans m' = (m_orphans m)(blockHash b := None)"
    using assms(2) True by (auto simp: take_orphan_def Let_def)
  have c: "chain_ok ht m" using assms(1) by (simp add: manager_ok_def)
  have o: "orphans_ok ht m" using c by (simp add: chain_ok_def)
  then have "orphans_ok ht m'" by (simp add: orphans_ok_def f)
  then have "chain_ok ht m'" using c by (simp add: chain_ok_def links_ok_def ahead_ok_def f)
  moreover have "\<exists>ob. new_block ht m' q ob \<and> prevBlock ob = blockHash b" if q: "next = Some q" for q
  proof -
    obtain ob where ob: "m_heap m q = Some ob" "prevBlock ob = blockHash b" "block_fits ht ob" "q \<notin> ran (m_blocks m)"
      using o q n by (auto simp: orphans_ok_def)
    have "h = blockHash b" if "m_orphans m h = Some q" for h using o that ob(1,2) by (fastforce simp: orphans_ok_def)
    then have "q \<notin> ran (m_orphans m')" by (auto simp: f ran_def)
    then show ?thesis using ob by (auto simp: new_block_def f)
  qed
  ultimately show ?thesis using assms(1) tip_ht_cong [OF f(1,3)] by (simp add: manager_ok_def f)
next
  case False
  then show ?thesis using assms by (auto simp: take_orphan_def)
qed

text \<open>One pass; the orphan that follows is then a block that is in none of the sets.\<close>

lemma relay_pass_ok:
  assumes "manager_ok ht e r m" "new_block ht m p b0" "relay_pass params now peer fpHigh fpDegraded p m = Some (m', ns, next)"
  shows "manager_ok ht e r m' \<and> tip_ht ht m \<le> tip_ht ht m' \<and> (\<forall>q. next = Some q \<longrightarrow> (\<exists>ob. new_block ht m' q ob \<and> prevBlock ob = blockHash b0))"
proof -
  have c: "chain_ok ht m" and w: "wallet_ok e r (m_wallet m)" using assms(1) by (auto simp: manager_ok_def)
  have links: "links_ok ht m" using c by (simp add: chain_ok_def)
  have b0: "m_heap m p = Some b0" "block_fits ht b0" "p \<notin> ran (m_blocks m)" "p \<notin> ran (m_orphans m)"
    using assms(2) by (auto simp: new_block_def)
  obtain prev where prev: "get_block m (prevBlock b0) = Some prev" using get_block_links(1) [OF links] by blast
  define b where "b = with_height prev b0"
  define m1 where "m1 = m\<lparr>m_heap := (m_heap m)(p \<mapsto> b)\<rparr>"
  have b: "blockHash b = blockHash b0" "prevBlock b = prevBlock b0" by (simp_all add: b_def with_height_def split: option.split)
  have fits: "block_fits ht b" using b0(2) by (simp add: block_fits_def b)
  have "chain_ok ht m1" unfolding m1_def by (rule update_heap_chain [OF c b0(3,4)])
  then have ok1: "manager_ok ht e r m1" using w by (simp add: manager_ok_def m1_def)
  have new1: "new_block ht m1 p b" using assms(2) fits by (simp add: new_block_def m1_def)
  have tip1: "tip_ht ht m1 = tip_ht ht m" using new_block_last [OF c assms(2)] by (simp add: tip_ht_def m1_def)
  have prev1: "get_block m1 (prevBlock b) = Some prev"
    using prev b0(3) unfolding b get_block_def get_ptr_def m1_def by (auto simp: ran_def split: option.splits)
  have h: "height b = of_nat (ht (blockHash b))" if "prev = Some q" for q
    using next_height(2) [OF links prev [unfolded that] b0(2)] that by (simp add: b_def with_height_def)
  obtain hs m2 ns2 alive sc where r: "relay_branch params now peer p b prev hs (tx_time prev b) m1 = Some (m2, ns2, alive, sc)"
    and t: "take_orphan alive b m2 = (m', next)"
    using assms(3) b0(1) prev unfolding relay_pass_def Let_def
    by (auto simp: b_def [symmetric] m1_def [symmetric] split: bind_splits prod.splits)
  have "manager_ok ht e r m2 \<and> tip_ht ht m1 \<le> tip_ht ht m2" by (rule relay_branch_ok [OF ok1 new1 prev1 _ r]) (rule h)
  then show ?thesis using take_orphan_ok [OF _ t] tip1 b(1) by fastforce
qed

lemma relayed_keeps:
  assumes "peerRelayedBlock params now peer fpHigh fpDegraded p m = Some (m', ns)" "manager_ok ht e r m" "new_block ht m p b"
  shows "manager_ok ht e r m' \<and> tip_ht ht m \<le> tip_ht ht m'"
proof -
  let ?P = "\<lambda>p m y. \<forall>b. manager_ok ht e r m \<longrightarrow> new_block ht m p b \<longrightarrow> manager_ok ht e r (fst y) \<and> tip_ht ht m \<le> tip_ht ht (fst y)"
  have "?P p m (m', ns)"
  proof (rule peerRelayedBlock.raw_induct [of "\<lambda>params now peer fpHigh fpDegraded p m y. ?P p m y", OF _ assms(1)], goal_cases)
    case (1 f params now peer fpHigh fpDegraded p m y)
    show ?case
    proof (intro allI impI)
      fix b
      assume ok: "manager_ok ht e r m" and new: "new_block ht m p b"
      obtain m1 ns1 nxt where pass: "relay_pass params now peer fpHigh fpDegraded p m = Some (m1, ns1, nxt)"
        using 1(2) by (auto split: bind_splits)
      note ok1 = relay_pass_ok [OF ok new pass]
      show "manager_ok ht e r (fst y) \<and> tip_ht ht m \<le> tip_ht ht (fst y)"
      proof (cases nxt)
        case None
        then show ?thesis using 1(2) pass ok1 by auto
      next
        case (Some q)
        then obtain m2 ns2 where y: "f params now peer fpHigh fpDegraded q m1 = Some (m2, ns2)" "y = (m2, ns1 @ ns2)"
          using 1(2) pass by (auto split: bind_splits)
        obtain ob where "new_block ht m1 q ob" using ok1 Some by blast
        then show ?thesis using 1(1) [OF y(1)] ok1 y(2) by fastforce
      qed
    qed
  qed
  then show ?thesis using assms(2,3) by auto
qed

end
