(* ===== verification/WalletHeights.thy ===== *)
theory WalletHeights
  imports WalletState
begin

text \<open>
  The heights of the listed transactions after \<open>BRWalletUpdateTransactions\<close>: those of the given transactions change, all others stay.
\<close>

lemma insert_from_end_set: "insert_from_end w t hs = Some hs' \<Longrightarrow> set hs' = insert (txHash t) (set hs)"
  by (induction hs arbitrary: hs') (auto split: bind_splits if_splits)

lemma InsertTx_frame:
  assumes "InsertTx w t = Some w'"
  shows "\<exists>hs. w' = w\<lparr>transactions := hs\<rparr> \<and> set hs = insert (txHash t) (set (transactions w))"
  using assms insert_from_end_set [of w t "rev (transactions w)"] by (auto simp: InsertTx_def)

lemma update_one_heights:
  assumes "wallet_ok e r w" "update_one height stamp x (w, hs, need) = Some (w', hs', need')"
  shows "set (transactions w') = set (transactions w) \<and>
    (\<forall>h \<in> set (transactions w). height_of w' h = (if h = x then height else height_of w h))"
proof (cases "allTx w x")
  case None
  then have "x \<notin> set (transactions w)" using base_okD(6) [OF wallet_okD(1) [OF assms(1)]] by auto
  then show ?thesis using assms(2) None by (auto simp: update_one_def)
next
  case (Some t)
  note base = base_okD [OF wallet_okD(1) [OF assms(1)]]
  let ?t = "t\<lparr>tx_timestamp := stamp, blockHeight := height\<rparr>" and ?w = "restamp height stamp x t w"
  note frame = restamp_frame [OF Some, of height stamp]
  have th: "txHash ?t = x" using base(1) Some by (simp add: sane_store_def)
  have result: "(if blockHeight t = height \<and> tx_timestamp t = stamp then Some (w, hs, need)
      else if ContainsTx w t then
        Option.bind (if x \<in> set (transactions w) then InsertTx (?w\<lparr>transactions := remove_last x (transactions w)\<rparr>) ?t else Some ?w)
          (\<lambda>w. Some (w, hs @ [x], need \<or> x \<in> pendingTx w \<or> x \<in> invalidTx w))
      else if height \<noteq> TX_UNCONFIRMED then
        (if x \<in> set (transactions w) then None else Some (?w\<lparr>allTx := (allTx ?w)(x := None)\<rparr>, hs, need))
      else Some (?w, hs, need)) = Some (w', hs', need')"
    using assms(2) unfolding update_one_def Let_def prod.case Some option.case restamp_def [symmetric] frame(6) restamp_fields .
  consider "blockHeight t = height" "w' = w"
    | "x \<in> set (transactions w)" "InsertTx (?w\<lparr>transactions := remove_last x (transactions w)\<rparr>) ?t = Some w'"
    | "x \<notin> set (transactions w)" "w' = ?w \<or> w' = ?w\<lparr>allTx := (allTx ?w)(x := None)\<rparr>"
  proof (cases "blockHeight t = height \<and> tx_timestamp t = stamp")
    case True
    then show ?thesis using result that(1) by simp
  next
    case False
    note result = result [unfolded if_not_P [OF False]]
    show ?thesis
    proof (cases "x \<in> set (transactions w)")
      case True
      then have "ContainsTx w t" using base(4) Some by (auto simp: belongs_def)
      then show ?thesis using result True that(2) by (auto split: bind_splits)
    next
      case out: False
      then show ?thesis using result that(3) by (auto split: if_splits)
    qed
  qed
  then show ?thesis
  proof cases
    case 1
    then show ?thesis using Some by (auto simp: height_of_def)
  next
    case 2
    obtain hs where hs: "w' = ?w\<lparr>transactions := hs\<rparr>" "set hs = insert x (set (remove_last x (transactions w)))"
      using InsertTx_frame [OF 2(2)] th by auto
    have "set hs = set (transactions w)" using hs(2) 2(1) by (auto simp: remove_last_filter [OF base(3)])
    moreover have "height_of w' = height_of ?w" by (intro ext) (simp add: hs(1) height_of_def)
    ultimately show ?thesis by (simp add: frame(5) hs(1))
  next
    case 3
    then have "height_of w' h = height_of w h" if "h \<noteq> x" for h
      using that by (auto simp: height_of_def restamp_def)
    then show ?thesis using 3 by auto
  qed
qed

lemma UpdateTransactions_spec:
  assumes "wallet_ok e r w"
  shows "\<exists>w' evs. BRWalletUpdateTransactions now w hs height stamp = Some (w', evs) \<and> wallet_ok e r w' \<and>
    set (transactions w') = set (transactions w) \<and>
    (\<forall>h \<in> set (transactions w). height_of w' h = (if h \<in> set hs then height else height_of w h))"
proof -
  define w0 where "w0 = (if height > chainHeight w then w\<lparr>chainHeight := height\<rparr> else w)"
  have w0: "wallet_ok e r w0" by (rule wallet_ok_cong [OF assms]) (simp_all add: w0_def)
  have same: "transactions w0 = transactions w" "height_of w0 = height_of w" by (auto simp: w0_def height_of_def fun_eq_iff)
  let ?I = "\<lambda>xs s. wallet_ok e r (fst s) \<and> set (transactions (fst s)) = set (transactions w) \<and>
    (\<forall>h \<in> set (transactions w). height_of (fst s) h = (if h \<in> set xs then height else height_of w h))"
  have "\<exists>s'. fold_option (update_one height stamp) hs (w0, [], False) = Some s' \<and> ?I hs s'"
  proof (rule fold_option_prefix [of ?I])
    fix ys x zs and s :: "wallet \<times> UInt256 list \<times> bool"
    assume I: "?I ys s"
    obtain w1 hs1 need1 where s: "s = (w1, hs1, need1)" by (cases s)
    obtain w2 hs2 need2 where u: "update_one height stamp x s = Some (w2, hs2, need2)" "wallet_ok e r w2"
      using update_one_ok [of e r w1 height stamp x hs1 need1] I s by auto
    then have "?I (ys @ [x]) (w2, hs2, need2)"
      using update_one_heights [of e r w1 height stamp x hs1 need1 w2 hs2 need2] I s by auto
    then show "\<exists>s'. update_one height stamp x s = Some s' \<and> ?I (ys @ [x]) s'" using u(1) by blast
  qed (simp add: w0 same)
  then obtain w1 hashes need where f: "fold_option (update_one height stamp) hs (w0, [], False) = Some (w1, hashes, need)"
    "?I hs (w1, hashes, need)" by auto
  have w1: "wallet_ok e r w1" using f(2) by simp
  obtain w2 where w2: "UpdateBalance now w1 = Some w2" "wallet_ok e r w2" "allTx w2 = allTx w1" "transactions w2 = transactions w1"
    using UpdateBalance_ok [OF wallet_okD(1) [OF w1]] by blast
  have "height_of w2 = height_of w1" by (intro ext) (simp add: height_of_def w2(3))
  then show ?thesis using f w2 unfolding BRWalletUpdateTransactions_def w0_def [symmetric] Let_def by (cases need) simp_all
qed

end
