(* ===== verification/ChainExtend.thy ===== *)
theory ChainExtend
  imports ChainState WalletHeights
begin

text \<open>
  A block that extends the chain: the call returns, the block is the new tip, the transactions of the wallet in it have its height, and
  the blocks that are given to the application to be saved start at a difficulty transition.
\<close>

section \<open>The blocks to save\<close>

lemma chain_fits: "links_ok ht m \<Longrightarrow> m_blocks m (blockHash b) = Some p \<Longrightarrow> m_heap m p = Some b \<Longrightarrow>
    block_fits ht b \<and> height b = of_nat (ht (blockHash b))"
  using links_okD [of ht m "blockHash b" p] by auto

lemma known_height: "block_fits ht b \<Longrightarrow> height b = of_nat (ht (blockHash b)) \<Longrightarrow> height b \<noteq> BLOCK_UNKNOWN_HEIGHT"
  using unat_ht [of ht b] by (auto simp: BLOCK_UNKNOWN_HEIGHT_def block_fits_def word_unat_eq_iff)

text \<open>A piece of the chain from its upper end down, as objects with their contents.\<close>

definition chain_piece :: "(UInt256 \<Rightarrow> nat) \<Rightarrow> manager \<Rightarrow> (nat \<times> mblock) list \<Rightarrow> bool" where
  "chain_piece ht m bs \<longleftrightarrow> (\<forall>pb \<in> set bs. m_blocks m (blockHash (snd pb)) = Some (fst pb) \<and> m_heap m (fst pb) = Some (snd pb)) \<and>
     (\<forall>i. i + 1 < length bs \<longrightarrow> prevBlock (snd (bs ! i)) = blockHash (snd (bs ! (i + 1))))"

lemma save_loop_ok:
  assumes "links_ok ht m" "\<And>p b. pb = Some (p, b) \<Longrightarrow> m_blocks m (blockHash b) = Some p \<and> m_heap m p = Some b"
  shows "\<exists>bs. save_loop m n pb = Some bs \<and> chain_piece ht m bs \<and> length bs \<le> n \<and> (n > 0 \<longrightarrow> pb \<noteq> None \<longrightarrow> bs \<noteq> [] \<and> hd bs = the pb)"
  using assms(2)
proof (induction n arbitrary: pb)
  case (Suc n)
  show ?case
  proof (cases pb)
    case None
    then show ?thesis by (simp add: chain_piece_def)
  next
    case (Some q)
    obtain p b where q: "q = (p, b)" by (cases q)
    have b: "m_blocks m (blockHash b) = Some p" "m_heap m p = Some b" using Suc.prems Some q by auto
    note fits = chain_fits [OF assms(1) b]
    obtain nxt where nxt: "get_ptr m (prevBlock b) = Some nxt" using get_ptr_links(1) [OF assms(1)] by blast
    have prems: "m_blocks m (blockHash b') = Some p' \<and> m_heap m p' = Some b' \<and> blockHash b' = prevBlock b" if "nxt = Some (p', b')" for p' b'
    proof -
      have "m_blocks m (prevBlock b) = Some p' \<and> m_heap m p' = Some b'" using nxt that get_ptr_links(2) [OF assms(1)] by simp
      then show ?thesis using links_okD [OF assms(1)] by fastforce
    qed
    then obtain bs where bs: "save_loop m n nxt = Some bs" "chain_piece ht m bs" "length bs \<le> n"
      "n > 0 \<longrightarrow> nxt \<noteq> None \<longrightarrow> bs \<noteq> [] \<and> hd bs = the nxt"
      using Suc.IH [of nxt] by blast
    have link: "prevBlock b = blockHash (snd (bs ! 0))" if ne: "bs \<noteq> []"
    proof -
      obtain k where k: "n = Suc k" using bs(1) ne by (cases n) auto
      then have "nxt \<noteq> None" "n > 0" using bs(1) ne by (cases nxt; auto)+
      then show ?thesis using bs(4) prems that by (auto simp: hd_conv_nth)
    qed
    have "chain_piece ht m ((p, b) # bs)"
      using bs(2) b link unfolding chain_piece_def by (auto simp: nth_Cons')
    then show ?thesis using nxt bs known_height fits Some q by auto
  qed
qed (simp add: chain_piece_def)

lemma piece_heights:
  assumes "links_ok ht m" "chain_piece ht m bs" "i < length bs"
  shows "ht (blockHash (snd (bs ! i))) + i = ht (blockHash (snd (bs ! 0)))"
  using assms(3)
proof (induction i)
  case (Suc i)
  have l: "prevBlock (snd (bs ! i)) = blockHash (snd (bs ! Suc i))" using assms(2) Suc.prems by (simp add: chain_piece_def)
  have "bs ! i \<in> set bs" "bs ! Suc i \<in> set bs" using Suc.prems by auto
  then have b: "m_blocks m (blockHash (snd (bs ! i))) = Some (fst (bs ! i))" "m_heap m (fst (bs ! i)) = Some (snd (bs ! i))"
    "m_blocks m (blockHash (snd (bs ! Suc i))) \<noteq> None"
    using assms(2) unfolding chain_piece_def by auto
  have "blockHash (snd (bs ! Suc i)) \<noteq> 0" using b(3) assms(1) by (auto simp: links_ok_def)
  then have "ht (blockHash (snd (bs ! i))) = ht (blockHash (snd (bs ! Suc i))) + 1"
    using chain_fits [OF assms(1) b(1,2)] l by (simp add: block_fits_def)
  then show ?case using Suc by simp
qed simp

text \<open>The part that is saved ends at a difficulty transition.\<close>

lemma save_blocks_ok:
  assumes "links_ok ht m" "m_blocks m (blockHash b) = Some p" "m_heap m p = Some b"
  shows "\<exists>bs. save_blocks m n (Some (p, b)) = Some (if bs = [] then [] else [SaveBlocks (length bs > 1) (map fst bs)]) \<and>
    chain_piece ht m bs \<and> (bs \<noteq> [] \<longrightarrow> hd bs = (p, b) \<and> ht (blockHash (snd (last bs))) mod 2016 = 0)"
proof -
  obtain bs where bs: "save_loop m n (Some (p, b)) = Some bs" "chain_piece ht m bs" "n > 0 \<longrightarrow> bs \<noteq> [] \<and> hd bs = (p, b)"
    using save_loop_ok [OF assms(1), of "Some (p, b)" n] assms(2,3) by auto
  define H where "H = ht (blockHash (snd (last bs)))"
  define j where "j = (if bs \<noteq> [] then H mod 2016 else 0)"
  define i where "i = (if j > 0 then length bs - (if length bs > 2016 - j then 2016 - j else length bs) else length bs)"
  have word: "unat (height (snd x) mod BLOCK_DIFFICULTY_INTERVAL) = ht (blockHash (snd x)) mod 2016"
    and word0: "height (snd x) mod BLOCK_DIFFICULTY_INTERVAL = 0 \<longleftrightarrow> ht (blockHash (snd x)) mod 2016 = 0" if "x \<in> set bs" for x
  proof -
    have "block_fits ht (snd x) \<and> height (snd x) = of_nat (ht (blockHash (snd x)))"
      using chain_fits [OF assms(1)] bs(2) that by (auto simp: chain_piece_def)
    then show "unat (height (snd x) mod BLOCK_DIFFICULTY_INTERVAL) = ht (blockHash (snd x)) mod 2016"
      "height (snd x) mod BLOCK_DIFFICULTY_INTERVAL = 0 \<longleftrightarrow> ht (blockHash (snd x)) mod 2016 = 0"
      using unat_ht [of ht "snd x"] ht_interval [of ht "snd x"] by (simp_all add: unat_mod BLOCK_DIFFICULTY_INTERVAL_def)
  qed
  have i: "i \<le> length bs" by (simp add: i_def)
  have at: "ht (blockHash (snd (bs ! (i - 1)))) mod 2016 = 0" if "i > 0"
  proof -
    have ne: "bs \<noteq> []" using that i by auto
    have last: "H + (length bs - 1) = ht (blockHash (snd (bs ! 0)))"
      using piece_heights [OF assms(1) bs(2), of "length bs - 1"] ne by (simp add: H_def last_conv_nth)
    have here: "ht (blockHash (snd (bs ! (i - 1)))) + (i - 1) = ht (blockHash (snd (bs ! 0)))"
      using piece_heights [OF assms(1) bs(2), of "i - 1"] that i by simp
    show ?thesis
    proof (cases "j > 0")
      case False
      then have "i = length bs" by (simp add: i_def)
      then have "ht (blockHash (snd (bs ! (i - 1)))) = H" using last here by simp
      then show ?thesis using False ne by (simp add: j_def)
    next
      case True
      have "j < 2016" by (simp add: j_def)
      then have "i + (2016 - j) = length bs" using True that by (auto simp: i_def split: if_splits)
      then have "ht (blockHash (snd (bs ! (i - 1)))) = H + (2016 - j)" using last here that by linarith
      also have "\<dots> = H - H mod 2016 + 2016" using ne \<open>j < 2016\<close> by (simp add: j_def)
      also have "\<dots> mod 2016 = 0" by (metis minus_mod_eq_mult_div mod_add_self2 mod_mult_self1_is_0)
      finally show ?thesis .
    qed
  qed
  let ?bs = "take i bs"
  have j: "(if length bs > 0 then unat (height (snd (last bs)) mod BLOCK_DIFFICULTY_INTERVAL) else 0) = j"
    using word [of "last bs"] by (simp add: j_def H_def)
  have interval: "unat BLOCK_DIFFICULTY_INTERVAL = 2016" by (simp add: BLOCK_DIFFICULTY_INTERVAL_def)
  have "save_blocks m n (Some (p, b)) = do {
     _ \<leftarrow> (if i = 0 \<or> height (snd (bs ! (i - 1))) mod BLOCK_DIFFICULTY_INTERVAL = 0 then Some () else None);
     Some (if i > 0 then [SaveBlocks (i > 1) (map fst ?bs)] else []) }"
    unfolding save_blocks_def bs(1) bind.bind_lunit Let_def j interval i_def by (rule refl)
  moreover have "i = 0 \<or> height (snd (bs ! (i - 1))) mod BLOCK_DIFFICULTY_INTERVAL = 0"
    using at word0 [of "bs ! (i - 1)"] i by (cases "i = 0") simp_all
  ultimately have "save_blocks m n (Some (p, b)) = Some (if i > 0 then [SaveBlocks (i > 1) (map fst ?bs)] else [])" by simp
  moreover have "chain_piece ht m ?bs"
    using bs(2) i unfolding chain_piece_def by (auto dest: in_set_takeD)
  moreover have "last ?bs = bs ! (i - 1)" "hd ?bs = hd bs" if "i > 0"
  proof -
    have "?bs \<noteq> []" using that i by auto
    then show "last ?bs = bs ! (i - 1)" using i by (simp add: last_conv_nth min_absorb2)
    show "hd ?bs = hd bs" using that by simp
  qed
  moreover have "i > 0 \<Longrightarrow> n > 0"
    using bs(1) i by (cases n) auto
  ultimately show ?thesis using bs(3) at i by (intro exI [of _ ?bs]) auto
qed

section \<open>A block that extends the chain\<close>

text \<open>What verification leaves as it is.\<close>

lemma VerifyBlock_frame:
  assumes "manager_ok ht e r m" "new_block ht m p b" "get_block m (prevBlock b) = Some (Some q)" "height b = of_nat (ht (blockHash b))"
    "BRPeerManagerVerifyBlock params b (Some q) m = Some (m', v)"
  shows "m_lastBlock m' = m_lastBlock m \<and> m_heap m' (m_lastBlock m) = m_heap m (m_lastBlock m) \<and> m_orphans m' = m_orphans m \<and>
    m_wallet m' = m_wallet m \<and> m_hasFilter m' = m_hasFilter m \<and> m_earliestKeyTime m' = m_earliestKeyTime m"
proof -
  have c: "chain_ok ht m" using assms(1) by (simp add: manager_ok_def)
  have b: "block_fits ht b" using assms(2) by (simp add: new_block_def)
  obtain B where B: "m' = without B m" "chain_ok ht m'" using VerifyBlock_prunes [OF c b assms(3,4,5)] by blast
  have "m_heap (without B m) (m_lastBlock m) \<noteq> None" using B by (auto simp: chain_ok_def)
  then have "m_heap (without B m) (m_lastBlock m) = m_heap m (m_lastBlock m)" by (auto simp: without_heap split: if_splits)
  then show ?thesis by (simp add: B(1)) (simp add: without_def)
qed

lemma update_wallet_spec:
  assumes "wallet_ok e r (m_wallet m)"
  shows "\<exists>w ns. update_wallet now hs h stamp m = Some (m\<lparr>m_wallet := w\<rparr>, ns) \<and> wallet_ok e r w \<and>
    (\<forall>rep ps. SaveBlocks rep ps \<notin> set ns) \<and> set (transactions w) = set (transactions (m_wallet m)) \<and>
    (\<forall>x \<in> set (transactions (m_wallet m)). height_of w x = (if x \<in> set hs then h else height_of (m_wallet m) x))"
proof (cases "hs = []")
  case True
  then show ?thesis using assms by (intro exI [of _ "m_wallet m"]) (simp add: update_wallet_def)
next
  case False
  then show ?thesis using UpdateTransactions_spec [OF assms, of now hs h stamp] by (fastforce simp: update_wallet_def)
qed

lemma relay_extend_wallet:
  assumes "wallet_ok e r (m_wallet m)" "relay_extend now peer p b hs txTime m = Some (m', ns, True, sc)"
  shows "(\<forall>rep ps. SaveBlocks rep ps \<notin> set ns) \<and> set (transactions (m_wallet m')) = set (transactions (m_wallet m)) \<and>
    (\<forall>x \<in> set (transactions (m_wallet m)). height_of (m_wallet m') x = (if x \<in> set hs then height b else height_of (m_wallet m) x))"
proof -
  let ?m = "(add_block p b m)\<lparr>m_lastBlock := p\<rparr>"
  have w: "m_wallet ?m = m_wallet m" by (simp add: add_block_def)
  obtain w' ns1 where u: "update_wallet now hs (height b) txTime ?m = Some (?m\<lparr>m_wallet := w'\<rparr>, ns1)"
    "\<forall>rep ps. SaveBlocks rep ps \<notin> set ns1" "set (transactions w') = set (transactions (m_wallet m))"
    "\<forall>x \<in> set (transactions (m_wallet m)). height_of w' x = (if x \<in> set hs then height b else height_of (m_wallet m) x)"
    using update_wallet_spec [of e r ?m now hs "height b" txTime, unfolded w, OF assms(1)] by metis
  have "m_wallet m' = w' \<and> (\<exists>ns2. ns = ns1 @ ns2 \<and> (\<forall>rep ps. SaveBlocks rep ps \<notin> set ns2))"
    using assms(2) u(1) by (auto simp: relay_extend_def Let_def reset_timeout_def chain_complete_def split: if_splits option.splits)
  then show ?thesis using u by auto
qed

lemma track_fp_returns:
  assumes "m_heap m (m_lastBlock m) = Some l"
  shows "\<exists>ns. track_fp h d peer b m = Some ns \<and> (\<forall>rep ps. SaveBlocks rep ps \<notin> set ns)"
  using assms by (auto simp: track_fp_def)

lemma extends_chain:
  assumes "manager_ok ht e r m" "new_block ht m p b0" "m_heap m (m_lastBlock m) = Some l" "prevBlock b0 = blockHash l"
    "block_txs b0 = Some hs" "m_hasFilter m" "totalTx b0 \<noteq> 0 \<or> timestamp b0 + PROTOCOL_BLOCK_WEEK \<le> m_earliestKeyTime m + 2 * 60 * 60"
    "b = b0\<lparr>height := height l + 1\<rparr>" "BRPeerManagerVerifyBlock params b (Some l) (m\<lparr>m_heap := (m_heap m)(p \<mapsto> b)\<rparr>) = Some (m1, True)"
    "m_orphans m (blockHash b0) = None"
  shows "\<exists>m' ns. peerRelayedBlock params now peer fpHigh fpDegraded p m = Some (m', ns) \<and> manager_ok ht e r m' \<and>
    m_lastBlock m' = p \<and> m_heap m' p = Some b \<and> m_blocks m' (blockHash b) = Some p \<and>
    (\<forall>x \<in> set (transactions (m_wallet m)). height_of (m_wallet m') x = (if x \<in> set hs then height b else height_of (m_wallet m) x)) \<and>
    (\<forall>rep ps. SaveBlocks rep ps \<in> set ns \<longrightarrow> (\<exists>bs. ps = map fst bs \<and> bs \<noteq> [] \<and> hd bs = (p, b) \<and> chain_piece ht m' bs \<and>
       ht (blockHash (snd (last bs))) mod 2016 = 0))"
proof -
  have c: "chain_ok ht m" and w: "wallet_ok e r (m_wallet m)" using assms(1) by (auto simp: manager_ok_def)
  have links: "links_ok ht m" and tip: "m_blocks m (blockHash l) = Some (m_lastBlock m)" using c assms(3) by (auto simp: chain_ok_def)
  have b0: "m_heap m p = Some b0" "block_fits ht b0" "p \<notin> ran (m_blocks m)" "p \<notin> ran (m_orphans m)"
    using assms(2) by (auto simp: new_block_def)
  have prev: "get_block m (prevBlock b0) = Some (Some l)" using tip assms(3) get_block_links(3) [OF links] by (simp add: assms(4))
  define m0 where "m0 = m\<lparr>m_heap := (m_heap m)(p \<mapsto> b)\<rparr>"
  have b: "blockHash b = blockHash b0" "prevBlock b = prevBlock b0" "totalTx b = totalTx b0" "timestamp b = timestamp b0" by (simp_all add: assms(8))
  have fits: "block_fits ht b" using b0(2) by (simp add: block_fits_def b)
  have ok0: "manager_ok ht e r m0" using update_heap_chain [OF c b0(3,4), of "Some b"] w by (simp add: manager_ok_def m0_def)
  have new0: "new_block ht m0 p b" using assms(2) fits by (simp add: new_block_def m0_def)
  have l0: "m_heap m0 (m_lastBlock m0) = Some l" using assms(3) new_block_last [OF c assms(2)] by (simp add: m0_def)
  have links0: "links_ok ht m0" using ok0 by (simp add: manager_ok_def chain_ok_def)
  have prev0: "get_block m0 (prevBlock b) = Some (Some l)"
    using tip l0 get_block_links(3) [OF links0] by (simp add: assms(4) b m0_def)
  have h: "height b = of_nat (ht (blockHash b))" using next_height(2) [OF links prev b0(2)] by (simp add: assms(8))
  note v = assms(9) [folded m0_def]
  have m1: "manager_ok ht e r m1" "new_block ht m1 p b" using VerifyBlock_ok [OF ok0 new0 prev0 h v] by auto
  have f1: "m_lastBlock m1 = m_lastBlock m0" "m_heap m1 (m_lastBlock m1) = Some l" "m_orphans m1 = m_orphans m" "m_wallet m1 = m_wallet m"
    using VerifyBlock_frame [OF ok0 new0 prev0 h v] l0 by (simp_all add: m0_def)
  obtain m2 ns2 sc where x: "relay_extend now peer p b hs (tx_time (Some l) b) m1 = Some (m2, ns2, True, sc)" "manager_ok ht e r m2"
    "m_lastBlock m2 = p" "m_heap m2 = m_heap m1" "m_blocks m2 = (m_blocks m1)(blockHash b \<mapsto> p)" "m_orphans m2 = m_orphans m1"
    using relay_extend_ok [OF m1 h f1(2)] assms(4) b(2) by metis
  have w1: "wallet_ok e r (m_wallet m1)" using m1(1) by (simp add: manager_ok_def)
  note wx = relay_extend_wallet [OF w1 x(1), unfolded f1(4)]
  obtain ns1 where t: "track_fp (fpHigh p) (fpDegraded p) peer b m0 = Some ns1" "\<forall>rep ps. SaveBlocks rep ps \<notin> set ns1"
    using track_fp_returns [OF l0] by blast
  have branch: "relay_branch params now peer p b (Some l) hs (tx_time (Some l) b) m0 = Some (m2, ns2, True, sc)"
  proof -
    have key: "m_earliestKeyTime m0 = m_earliestKeyTime m" by (simp add: m0_def)
    have recent: "\<not> (totalTx b = 0 \<and> timestamp b + PROTOCOL_BLOCK_WEEK > m_earliestKeyTime m0 + 2 * 60 * 60)"
      unfolding b(3,4) key using assms(7) by (simp only: not_less de_Morgan_conj)
    have "m_hasFilter m0" "UInt256Eq (prevBlock b) (blockHash l)" using assms(4,6) b(2) by (simp_all add: m0_def)
    then show ?thesis unfolding relay_branch_def if_not_P [OF recent] by (simp add: v x(1) f1(2))
  qed
  obtain m3 nxt where tk: "take_orphan True b m2 = (m3, nxt)" by force
  note m3 = take_orphan_ok [OF x(2) tk]
  have f3: "nxt = None" "m_lastBlock m3 = p" "m_heap m3 = m_heap m2" "m_blocks m3 = m_blocks m2" "m_wallet m3 = m_wallet m2"
    using tk known_height [OF fits h] assms(10) x(3,6) f1(3) b(1) by (auto simp: take_orphan_def Let_def)
  have in3: "m_heap m3 p = Some b" "m_blocks m3 (blockHash b) = Some p"
    using m1(2) x(4,5) by (simp_all add: f3 new_block_def)
  have links3: "links_ok ht m3" using m3 by (simp add: manager_ok_def chain_ok_def)
  obtain bs where bs: "save_blocks m3 sc (Some (p, b)) = Some (if bs = [] then [] else [SaveBlocks (length bs > 1) (map fst bs)])"
    "chain_piece ht m3 bs" "bs \<noteq> [] \<longrightarrow> hd bs = (p, b) \<and> ht (blockHash (snd (last bs))) mod 2016 = 0"
    using save_blocks_ok [OF links3 in3(2,1), of sc] by metis
  let ?ns4 = "if height b \<noteq> BLOCK_UNKNOWN_HEIGHT \<and> height b \<ge> conn_lastBlock peer then [TxStatusUpdate] else []"
  have pass: "relay_pass params now peer fpHigh fpDegraded p m =
      Some (m3, ns1 @ ns2 @ (if bs = [] then [] else [SaveBlocks (length bs > 1) (map fst bs)]) @ ?ns4, None)"
  proof -
    have "with_height (Some l) b0 = b" by (simp add: with_height_def assms(8))
    then show ?thesis
      unfolding relay_pass_def by (simp add: b0(1) assms(5) prev Let_def m0_def [symmetric] t(1) branch tk f3(1) bs(1))
  qed
  then have "peerRelayedBlock params now peer fpHigh fpDegraded p m =
      Some (m3, ns1 @ ns2 @ (if bs = [] then [] else [SaveBlocks (length bs > 1) (map fst bs)]) @ ?ns4)"
    by (subst peerRelayedBlock.simps) simp
  moreover have "manager_ok ht e r m3" using m3 by simp
  moreover have "\<exists>bs. ps = map fst bs \<and> bs \<noteq> [] \<and> hd bs = (p, b) \<and> chain_piece ht m3 bs \<and> ht (blockHash (snd (last bs))) mod 2016 = 0"
    if "SaveBlocks rep ps \<in> set (ns1 @ ns2 @ (if bs = [] then [] else [SaveBlocks (length bs > 1) (map fst bs)]) @ ?ns4)" for rep ps
    using that t(2) wx bs by (auto split: if_splits)
  ultimately show ?thesis using f3 in3 wx by (intro exI conjI) (assumption | simp | blast)+
qed

end
