(* ===== verification/ChainReorg.thy ===== *)
theory ChainReorg
  imports ChainExtend
begin

text \<open>
  Reorganisations: when a fork becomes longer than the chain, its tip becomes the tip of the chain, and the heights of the transactions of the
  wallet are those of the new chain.
\<close>

text \<open>The blocks of the path from \<open>b\<close> down to \<open>j\<close>, without \<open>j\<close>.\<close>

fun path :: "manager \<Rightarrow> mblock \<Rightarrow> mblock list \<Rightarrow> mblock \<Rightarrow> bool" where
  "path m b [] j \<longleftrightarrow> b = j"
| "path m b (c # cs) j \<longleftrightarrow> c = b \<and> (case get_block m (prevBlock b) of Some (Some q) \<Rightarrow> path m q cs j | _ \<Rightarrow> False)"

lemma path_Cons:
  assumes "path m b (c # cs) j"
  obtains q where "c = b" "get_block m (prevBlock b) = Some (Some q)" "path m q cs j"
  using assms by (auto split: option.splits)

abbreviation at_height :: "(UInt256 \<Rightarrow> nat) \<Rightarrow> mblock \<Rightarrow> bool" where
  "at_height ht b \<equiv> block_fits ht b \<and> height b = of_nat (ht (blockHash b))"

lemma get_block_at_height:
  assumes "links_ok ht m" "get_block m h = Some (Some q)"
  shows "at_height ht q \<and> blockHash q = h"
proof -
  obtain p where "m_blocks m h = Some p" "m_heap m p = Some q" using assms(2) get_block_links(3) [OF assms(1)] by blast
  then show ?thesis using links_okD [OF assms(1)] by fastforce
qed

lemma path_heights:
  assumes "links_ok ht m" "path m b bs j" "block_fits ht b"
  shows "ht (blockHash j) + length bs = ht (blockHash b)"
  using assms(2,3)
proof (induction bs arbitrary: b)
  case (Cons c cs)
  obtain q where q: "get_block m (prevBlock b) = Some (Some q)" "path m q cs j" using Cons.prems(1) by (rule path_Cons)
  note at = get_block_at_height [OF assms(1) q(1)]
  show ?case using Cons.IH [OF q(2)] at next_height(1) [OF assms(1) q(1) Cons.prems(2)] by simp
qed simp

section \<open>The search for the join\<close>

lemma find_join_paths:
  assumes "links_ok ht m" "path m b bs j" "path m l cs j" "at_height ht b" "at_height ht l" "ht (blockHash l) \<le> ht (blockHash b)"
    "blockHash ` set bs \<inter> blockHash ` set cs = {}"
  shows "find_join m (Some b) (Some l) = Some (Some j, Some j)"
  using assms(2-)
proof (induction bs arbitrary: b l cs)
  case Nil
  have "ht (blockHash j) + length cs = ht (blockHash l)" using path_heights [OF assms(1) Nil.prems(2)] Nil.prems(4) by blast
  moreover have "ht (blockHash l) \<le> ht (blockHash j)" using Nil.prems(1,5) by simp
  ultimately have "length cs = 0" by linarith
  then have "cs = []" by simp
  then have "l = j" "b = j" using Nil.prems by simp_all
  then show ?case by (subst find_join.simps) (simp add: BRMerkleBlockEq_def)
next
  case (Cons c bs)
  obtain q where q: "c = b" "get_block m (prevBlock b) = Some (Some q)" "path m q bs j" using Cons.prems(1) by (rule path_Cons)
  note at = get_block_at_height [OF assms(1) q(2)]
  have hb: "ht (blockHash b) = ht (blockHash q) + 1" using next_height(1) [OF assms(1) q(2)] Cons.prems(3) at by simp
  have jq: "ht (blockHash j) \<le> ht (blockHash q)" using path_heights [OF assms(1) q(3)] at by auto
  have jl: "ht (blockHash j) + length cs = ht (blockHash l)" using path_heights [OF assms(1) Cons.prems(2)] Cons.prems(4) by blast
  have ne: "\<not> BRMerkleBlockEq b l"
  proof
    assume "BRMerkleBlockEq b l"
    then have e: "blockHash b = blockHash l" by (simp add: BRMerkleBlockEq_def)
    then have "cs \<noteq> []" using jl hb jq by auto
    then obtain d ds where "cs = d # ds" by (cases cs) auto
    then have "l \<in> set cs" using Cons.prems(2) by simp
    then show False using Cons.prems(6) e q(1) by auto
  qed
  have less: "height q < height l \<longleftrightarrow> ht (blockHash q) < ht (blockHash l)" using height_less(1) [of ht l q] at Cons.prems(4) by blast
  have disj: "blockHash ` set bs \<inter> blockHash ` set cs = {}" using Cons.prems(6) by auto
  show ?case
  proof (cases "ht (blockHash q) < ht (blockHash l)")
    case False
    have "find_join m (Some b) (Some l) = find_join m (Some q) (Some l)"
      using ne q(2) False less by (subst find_join.simps) simp
    then show ?thesis using Cons.IH [OF q(3) Cons.prems(2) _ Cons.prems(4) _ disj] at False by simp
  next
    case True
    then have "cs \<noteq> []" using jl jq by auto
    then obtain d ds where ds: "cs = d # ds" by (cases cs) auto
    obtain x where x: "get_block m (prevBlock l) = Some (Some x)" "path m x ds j"
      using Cons.prems(2) unfolding ds by (rule path_Cons)
    note atx = get_block_at_height [OF assms(1) x(1)]
    have "ht (blockHash l) = ht (blockHash x) + 1" using next_height(1) [OF assms(1) x(1)] Cons.prems(4) atx by simp
    then have le: "ht (blockHash x) \<le> ht (blockHash q)" using Cons.prems(5) hb by simp
    have "find_join m (Some b) (Some l) = find_join m (Some q) (Some x)"
      using ne q(2) True less x(1) by (subst find_join.simps) simp
    moreover have "blockHash ` set bs \<inter> blockHash ` set ds = {}" using disj by (auto simp: ds)
    ultimately show ?thesis using Cons.IH [OF q(3) x(2) _ _ le] at atx by simp
  qed
qed

section \<open>The heights of the new chain\<close>

text \<open>The height of a transaction after the blocks of a path are applied to it, from the tip down.\<close>

definition branch_height :: "mblock list \<Rightarrow> UInt256 \<Rightarrow> u32 \<Rightarrow> u32" where
  "branch_height bs x h = fold (\<lambda>c h. if x \<in> set (the (block_txs c)) then height c else h) bs h"

lemma get_block_wallet [simp]: "get_block (m\<lparr>m_wallet := w\<rparr>) = get_block m"
  by (intro ext) (simp add: get_block_def get_ptr_def split: option.split)

lemma set_heights_path:
  assumes "links_ok ht m" "path m b bs j" "at_height ht b" "at_height ht j" "wallet_ok e r w" "\<forall>c \<in> set bs. block_txs c \<noteq> None"
  shows "\<exists>w' ns'. set_heights now (height j) (Some b) (m\<lparr>m_wallet := w\<rparr>, ns) = Some (m\<lparr>m_wallet := w'\<rparr>, ns') \<and> wallet_ok e r w' \<and>
    set (transactions w') = set (transactions w) \<and> (\<forall>x \<in> set (transactions w). height_of w' x = branch_height bs x (height_of w x))"
  using assms(2,3,5,6)
proof (induction bs arbitrary: b w ns)
  case Nil
  then show ?case by (subst set_heights.simps) (auto simp: branch_height_def)
next
  case (Cons c bs)
  obtain q where q: "c = b" "get_block m (prevBlock b) = Some (Some q)" "path m q bs j" using Cons.prems(1) by (rule path_Cons)
  note at = get_block_at_height [OF assms(1) q(2)]
  have "ht (blockHash j) < ht (blockHash b)" using path_heights [OF assms(1) Cons.prems(1)] Cons.prems(2) by auto
  then have gt: "height j < height b" using height_less(1) [of ht b j] Cons.prems(2) assms(4) by blast
  obtain hs where hs: "block_txs b = Some hs" using Cons.prems(4) q(1) by auto
  let ?t = "timestamp b div 2 + timestamp q div 2"
  obtain w1 ns1 where u: "update_wallet now hs (height b) ?t (m\<lparr>m_wallet := w\<rparr>) = Some (m\<lparr>m_wallet := w1\<rparr>, ns1)" "wallet_ok e r w1"
    "set (transactions w1) = set (transactions w)"
    "\<forall>x \<in> set (transactions w). height_of w1 x = (if x \<in> set hs then height b else height_of w x)"
    using update_wallet_spec [of e r "m\<lparr>m_wallet := w\<rparr>" now hs "height b" ?t] Cons.prems(3) by auto
  obtain w2 ns2 where r: "set_heights now (height j) (Some q) (m\<lparr>m_wallet := w1\<rparr>, ns @ ns1) = Some (m\<lparr>m_wallet := w2\<rparr>, ns2)" "wallet_ok e r w2"
    "set (transactions w2) = set (transactions w1)" "\<forall>x \<in> set (transactions w1). height_of w2 x = branch_height bs x (height_of w1 x)"
    using Cons.IH [OF q(3) _ u(2), of "ns @ ns1"] at Cons.prems(4) by auto
  have "set_heights now (height j) (Some b) (m\<lparr>m_wallet := w\<rparr>, ns) = Some (m\<lparr>m_wallet := w2\<rparr>, ns2)"
    using gt hs q(2) u(1) r(1) by (subst set_heights.simps) simp
  moreover have "height_of w2 x = branch_height (c # bs) x (height_of w x)" if "x \<in> set (transactions w)" for x
    using r(4) u(3,4) that hs by (simp add: branch_height_def q(1))
  ultimately show ?case using r(2,3) u(3) by blast
qed

lemma path_add_block:
  assumes "links_ok ht m" "m_blocks m (blockHash b) = None" "path m q bs j" "m_heap m p = Some b"
  shows "path (add_block p b m) q bs j"
  using assms(3)
proof (induction bs arbitrary: q)
  case (Cons c bs)
  obtain x where x: "c = q" "get_block m (prevBlock q) = Some (Some x)" "path m x bs j" using Cons.prems by (rule path_Cons)
  obtain p' where p': "m_blocks m (prevBlock q) = Some p'" "m_heap m p' = Some x" using x(2) get_block_links(3) [OF assms(1)] by blast
  then have "prevBlock q \<noteq> blockHash b" using assms(2) by auto
  then have "get_block (add_block p b m) (prevBlock q) = Some (Some x)" using p' by (simp add: get_block_def get_ptr_def add_block_def)
  then show ?case using x(1) Cons.IH [OF x(3)] by simp
qed simp

lemma reorganised:
  assumes "manager_ok ht e r m" "new_block ht m p b" "at_height ht b" "m_blocks m (blockHash b) = None"
    "get_block m (prevBlock b) = Some (Some q)" "path m q bs j" "m_heap m (m_lastBlock m) = Some l" "path m l cs j"
    "blockHash ` set bs \<inter> blockHash ` set cs = {}" "ht (blockHash l) < ht (blockHash b)" "\<forall>c \<in> set (b # bs). block_txs c \<noteq> None"
  shows "\<exists>m' ns sc. relay_fork now p b m = Some (m', ns, True, sc) \<and> manager_ok ht e r m' \<and> m_lastBlock m' = p \<and>
    m_heap m' = m_heap m \<and> m_blocks m' = (m_blocks m)(blockHash b \<mapsto> p) \<and> m_orphans m' = m_orphans m \<and>
    (\<forall>x \<in> set (transactions (m_wallet m)). height_of (m_wallet m') x =
      branch_height (b # bs) x (if height_of (m_wallet m) x > height j then TX_UNCONFIRMED else height_of (m_wallet m) x))"
proof -
  have c: "chain_ok ht m" and w: "wallet_ok e r (m_wallet m)" using assms(1) by (auto simp: manager_ok_def)
  have links: "links_ok ht m" and tip: "m_blocks m (blockHash l) = Some (m_lastBlock m)" using c assms(7) by (auto simp: chain_ok_def)
  have pb: "m_heap m p = Some b" using assms(2) by (simp add: new_block_def)
  have atl: "at_height ht l" using chain_fits [OF links tip assms(7)] .
  let ?m = "add_block p b m"
  have links': "links_ok ht ?m" using add_block_links [OF links assms(2)] assms(3) by blast
  have f: "m_heap ?m = m_heap m" "m_lastBlock ?m = m_lastBlock m" "m_wallet ?m = m_wallet m" "m_orphans ?m = m_orphans m"
    "m_blocks ?m = (m_blocks m)(blockHash b \<mapsto> p)" by (simp_all add: add_block_def)
  note padd = path_add_block [OF links assms(4) _ pb]
  have pq: "path ?m q bs j" "path ?m l cs j" using padd assms(6,8) by blast+
  have "path m b (b # bs) j" using assms(5,6) by simp
  from padd [OF this] have pathb: "path ?m b (b # bs) j" .
  have atj: "at_height ht j"
  proof (cases "cs = []")
    case True
    then show ?thesis using atl assms(8) by simp
  next
    case False
    have "at_height ht x \<Longrightarrow> path m x ds j \<Longrightarrow> at_height ht j" for x ds
    proof (induction ds arbitrary: x)
      case (Cons d ds)
      obtain y where "get_block m (prevBlock x) = Some (Some y)" "path m y ds j" using Cons.prems(2) by (rule path_Cons)
      then show ?case using Cons.IH get_block_at_height [OF links] by blast
    qed simp
    then show ?thesis using atl assms(8) by blast
  qed
  have notin: "blockHash b \<notin> blockHash ` set cs"
  proof -
    have "m_blocks m (blockHash x) \<noteq> None" if "x \<in> set ds" "path m y ds j" "m_blocks m (blockHash y) \<noteq> None" for x y ds
      using that
    proof (induction ds arbitrary: y)
      case (Cons d ds)
      obtain z where z: "d = y" "get_block m (prevBlock y) = Some (Some z)" "path m z ds j" using Cons.prems(2) by (rule path_Cons)
      have "m_blocks m (blockHash z) \<noteq> None"
        using z(2) get_block_at_height [OF links z(2)] get_block_links(2) [OF links, of "prevBlock y"] by auto
      then show ?case using Cons.IH [OF _ z(3)] Cons.prems(1,3) z(1) by auto
    qed simp
    then show ?thesis using assms(4,8) tip by fastforce
  qed
  have join: "find_join ?m (Some b) (Some l) = Some (Some j, Some j)"
    using assms(9,10) notin by (intro find_join_paths [OF links' pathb pq(2) assms(3) atl]) auto
  have "height j \<le> TX_UNCONFIRMED" using atj unat_ht [of ht j] by (simp add: word_le_nat_alt block_fits_def TX_UNCONFIRMED_def)
  from SetTxUnconfirmedAfter_spec [OF w this, of now]
  obtain w1 evs where w1: "BRWalletSetTxUnconfirmedAfter now (m_wallet m) (height j) = Some (w1, evs)" "wallet_ok e r w1"
    "transactions w1 = transactions (m_wallet m)" "\<forall>x \<in> set (transactions (m_wallet m)). height_of w1 x =
      (if height_of (m_wallet m) x > height j then TX_UNCONFIRMED else height_of (m_wallet m) x)" by blast
  obtain w2 ns where w2: "set_heights now (height j) (Some b) (?m\<lparr>m_wallet := w1\<rparr>, map WalletEvent evs) = Some (?m\<lparr>m_wallet := w2\<rparr>, ns)"
    "wallet_ok e r w2" "\<forall>x \<in> set (transactions w1). height_of w2 x = branch_height (b # bs) x (height_of w1 x)"
    using set_heights_path [OF links' pathb assms(3) atj w1(2) assms(11)] by metis
  have higher: "height l < height b" using height_less(1) [of ht b l] assms(3,10) atl by blast
  obtain sc ns2 where cc: "chain_complete b (?m\<lparr>m_wallet := w2, m_lastBlock := p\<rparr>) 0 = (sc, ns2)" by force
  have "relay_fork now p b m = Some (?m\<lparr>m_wallet := w2, m_lastBlock := p\<rparr>, ns @ ns2, True, sc)"
    unfolding relay_fork_def Let_def f using assms(7) higher join w1(1) w2(1) cc by simp
  moreover have "manager_ok ht e r (?m\<lparr>m_wallet := w2, m_lastBlock := p\<rparr>)"
    using relay_fork_ok [OF assms(1,2) _ assms(4) calculation] assms(3) by blast
  ultimately show ?thesis using w2(3) w1(3,4) by (auto simp: f)
qed

end
