(* ===== verification/ChainLocators.thy ===== *)
theory ChainLocators
  imports Chain
begin

text \<open>
  The block locators of \<open>_BRPeerManagerBlockLocators\<close>: hashes from the tip of the chain down, the first ten one by one, then with doubled
  distances, and the hash of the first block of all at the end.
\<close>

definition locators_ok :: "(UInt256 \<Rightarrow> nat) \<Rightarrow> manager \<Rightarrow> nat \<Rightarrow> UInt256 list \<Rightarrow> bool" where
  "locators_ok ht m i hs \<longleftrightarrow> (\<forall>h \<in> set hs. m_blocks m h \<noteq> None \<and> ht h > 0) \<and>
     (\<forall>j. j + 1 < length hs \<longrightarrow> ht (hs ! j) = ht (hs ! (j + 1)) + 2 ^ (i + j - 8))"

lemma next_step_at:
  assumes "2 * 2 ^ (i - 9) < (2 :: nat) ^ 31"
  shows "next_step (2 ^ (i - 9)) i = Some (2 ^ (i - 8))"
proof (cases "i < 9")
  case True
  then show ?thesis by (simp add: next_step_def)
next
  case False
  then have e: "i - 8 = Suc (i - 9)" by simp
  have "int (2 * 2 ^ (i - 9)) < int (2 ^ 31)" using assms by (simp only: of_nat_less_iff)
  then show ?thesis using False unfolding e by (simp add: next_step_def mult.commute)
qed

lemma locators_from_ok:
  assumes "links_ok ht m" "block_fits ht b" "height b = of_nat (ht (blockHash b))" "m_blocks m (blockHash b) \<noteq> None"
    "ht (blockHash b) + 2 * 2 ^ (i - 9) \<le> 2 ^ 31"
  shows "\<exists>hs. locators_from m (2 ^ (i - 9)) i (Some b) = Some hs \<and> locators_ok ht m i hs \<and> (hs \<noteq> [] \<longrightarrow> i + length hs \<le> 40) \<and>
    (ht (blockHash b) > 0 \<longrightarrow> hs \<noteq> [] \<and> hd hs = blockHash b)"
  using assms(2-)
proof (induction "ht (blockHash b)" arbitrary: b i rule: less_induct)
  case less
  show ?case
  proof (cases "ht (blockHash b) = 0")
    case True
    then have "height b = 0" using less.prems(2) by simp
    then show ?thesis using True by (subst locators_from.simps) (simp add: locators_ok_def)
  next
    case False
    have h0: "height b \<noteq> 0" using False unat_ht [OF less.prems(1)] less.prems(2) by auto
    have step: "next_step (2 ^ (i - 9)) i = Some (2 ^ (i - 8))" using False less.prems(4) by (intro next_step_at) simp
    have i40: "i + 1 \<le> 40"
    proof (rule ccontr)
      assume "\<not> i + 1 \<le> 40"
      then have "(2 :: nat) ^ 31 \<le> 2 ^ (i - 9)" by (intro power_increasing) auto
      then show False using less.prems(4) by simp
    qed
    obtain a where a: "ancestor (get_block m) (2 ^ (i - 8)) (Some b) = Some a" using ancestor_links [OF assms(1)] by blast
    show ?thesis
    proof (cases a)
      case None
      have "locators_from m (2 ^ (i - 8)) (i + 1) None = Some []" by (subst locators_from.simps) simp
      then have "locators_from m (2 ^ (i - 9)) i (Some b) = Some [blockHash b]"
        using h0 step a None by (subst locators_from.simps) (simp add: nat_power_eq)
      then show ?thesis using False i40 less.prems(3) by (simp add: locators_ok_def)
    next
      case (Some x)
      have x: "ht (blockHash x) + 2 ^ (i - 8) = ht (blockHash b)" "block_fits ht x"
        using ancestor_height [OF assms(1) less.prems(1) a [unfolded Some]] by auto
      have "(2::nat) ^ (i - 8) \<noteq> 0" by simp
      then have xin: "m_blocks m (blockHash x) \<noteq> None \<and> height x = of_nat (ht (blockHash x))"
        using ancestor_in [OF assms(1) a [unfolded Some]] by blast
      have "2 * 2 ^ (i + 1 - 9) \<le> 2 ^ (i - 8) + 2 * (2::nat) ^ (i - 9)"
      proof (cases "i < 9")
        case False
        then have "i - 8 = Suc (i - 9)" by simp
        then show ?thesis by simp
      qed simp
      then have inv: "ht (blockHash x) + 2 * 2 ^ (i + 1 - 9) \<le> 2 ^ 31" using x(1) less.prems(4) by linarith
      have lt: "ht (blockHash x) < ht (blockHash b)" using x(1) by (metis less_add_same_cancel1 zero_less_numeral zero_less_power)
      obtain hs where hs: "locators_from m (2 ^ (i - 8)) (i + 1) (Some x) = Some hs" "locators_ok ht m (i + 1) hs"
        "hs \<noteq> [] \<longrightarrow> i + 1 + length hs \<le> 40" "ht (blockHash x) > 0 \<longrightarrow> hs \<noteq> [] \<and> hd hs = blockHash x"
        using less.hyps [OF lt x(2), of "i + 1"] xin inv by auto
      have "locators_from m (2 ^ (i - 9)) i (Some b) = Some (blockHash b # hs)"
        using h0 step a Some hs(1) by (subst locators_from.simps) (simp add: nat_power_eq)
      moreover have "locators_ok ht m i (blockHash b # hs)"
      proof -
        have first: "ht (blockHash b) = ht (hs ! 0) + 2 ^ (i - 8)" if "hs \<noteq> []"
        proof -
          have "ht (hd hs) > 0" using that hs(2) by (simp add: locators_ok_def)
          have "hd hs = blockHash x"
          proof (cases "ht (blockHash x) > 0")
            case False
            then have "height x = 0" using xin by simp
            then show ?thesis using hs(1) that by (subst (asm) locators_from.simps) simp
          qed (use hs(4) in simp)
          then show ?thesis using x(1) that by (simp add: hd_conv_nth)
        qed
        have "ht ((blockHash b # hs) ! j) = ht ((blockHash b # hs) ! (j + 1)) + 2 ^ (i + j - 8)" if "j + 1 < length (blockHash b # hs)" for j
          using that first hs(2) by (cases j) (auto simp: locators_ok_def)
        then show ?thesis using False less.prems(3) hs(2) by (auto simp: locators_ok_def)
      qed
      ultimately show ?thesis using False i40 hs(3) by auto
    qed
  qed
qed

lemma locators_spec:
  assumes "chain_ok ht m" "checkpoints params = c # cs" "m_heap m (m_lastBlock m) = Some l"
  shows "\<exists>hs. BRPeerManagerBlockLocators params m None = Some (length hs + 1, []) \<and>
    BRPeerManagerBlockLocators params m (Some (length hs + 1)) = Some (length hs + 1, hs @ [UInt256Reverse (cp_hash c)]) \<and>
    length hs \<le> 40 \<and> locators_ok ht m 0 hs \<and> (ht (blockHash l) > 0 \<longrightarrow> hs \<noteq> [] \<and> hd hs = blockHash l)"
proof -
  obtain l' where "links_ok ht m" "m_heap m (m_lastBlock m) = Some l'" "m_blocks m (blockHash l') = Some (m_lastBlock m)" "block_fits ht l'"
    "height l' = of_nat (ht (blockHash l'))"
    using chain_okD [OF assms(1)] by metis
  then have l: "links_ok ht m" "m_blocks m (blockHash l) = Some (m_lastBlock m)" "block_fits ht l" "height l = of_nat (ht (blockHash l))"
    using assms(3) by simp_all
  have "m_blocks m (blockHash l) \<noteq> None" "ht (blockHash l) + 2 * 2 ^ (0 - 9) \<le> 2 ^ 31" using l(2,3) by (simp_all add: block_fits_def)
  from locators_from_ok [OF l(1,3,4) this]
  obtain hs where hs: "locators_from m 1 0 (Some l) = Some hs" "locators_ok ht m 0 hs" "hs \<noteq> [] \<longrightarrow> length hs \<le> 40"
    "ht (blockHash l) > 0 \<longrightarrow> hs \<noteq> [] \<and> hd hs = blockHash l" by auto
  then have "length hs \<le> 40" by (cases hs) auto
  then show ?thesis using hs assms(2,3) by (intro exI [of _ hs]) (simp add: BRPeerManagerBlockLocators_def genesis_block_hash_def)
qed

text \<open>
  C39: \<open>_BRPeerManagerBlockLocators\<close> returns in every sound state whose tip is above the first checkpoint (height 0), with at most 41 locators and without an overflow of the step. Both calls of its callers
  agree on the number, so the array on the stack is filled exactly. The first locator is the tip of the chain, the last the hash of the first
  checkpoint; all others are blocks of the set, whose heights go down by 1 for the first nine and then by distances that double.
\<close>

theorem block_locators:
  assumes "chain_ok ht m" "checkpoints params = c # cs" "m_heap m (m_lastBlock m) = Some l" "0 < ht (blockHash l)"
  shows "\<exists>hs. BRPeerManagerBlockLocators params m None = Some (length hs + 1, []) \<and>
    BRPeerManagerBlockLocators params m (Some (length hs + 1)) = Some (length hs + 1, hs @ [UInt256Reverse (cp_hash c)]) \<and>
    length hs + 1 \<le> 41 \<and> hs \<noteq> [] \<and> hd hs = blockHash l \<and> (\<forall>h \<in> set hs. m_blocks m h \<noteq> None) \<and>
    (\<forall>j. j + 1 < length hs \<longrightarrow> ht (hs ! j) = ht (hs ! (j + 1)) + (if j < 9 then 1 else 2 ^ (j - 8)))"
proof -
  have "(2 :: nat) ^ (j - 8) = (if j < 9 then 1 else 2 ^ (j - 8))" for j by simp
  then show ?thesis using locators_spec [OF assms(1-3)] assms(4) by (fastforce simp: locators_ok_def)
qed

end
