(* ===== verification/ChainStart.thy ===== *)
theory ChainStart
  imports ChainReorg
begin

text \<open>
  The manager at its start, from the checkpoints and the saved blocks (\<open>BRPeerManagerNew\<close>), what it reports of the chain, and the
  rescans, which move the last block back.
\<close>

section \<open>Creation\<close>

definition checkpoint_block :: "BRCheckPoint \<Rightarrow> mblock" where
  "checkpoint_block c = BRMerkleBlockNew\<lparr>height := cp_height c, blockHash := UInt256Reverse (cp_hash c), timestamp := cp_timestamp c,
     target := cp_target c\<rparr>"

text \<open>The loop over the checkpoints; the block of checkpoint \<open>i\<close> is the new object \<open>n + i\<close>.\<close>

definition add_checkpoint :: "nat \<Rightarrow> nat \<times> BRCheckPoint \<Rightarrow> manager \<Rightarrow> manager" where
  "add_checkpoint n ic m =
     (let (i, c) = ic; block = checkpoint_block c;
          m = m\<lparr>m_heap := (m_heap m)(n + i \<mapsto> block), m_checkpoints := (m_checkpoints m)(height block \<mapsto> n + i)\<rparr>;
          m = add_block (n + i) block m
      in if i = 0 \<or> timestamp block + PROTOCOL_BLOCK_WEEK < m_earliestKeyTime m then m\<lparr>m_lastBlock := n + i\<rparr> else m)"

text \<open>The loop over the saved blocks: all are put with the orphans, and the last transition block is found.\<close>

definition add_saved :: "nat \<Rightarrow> manager \<times> nat option \<Rightarrow> (manager \<times> nat option) option" where
  "add_saved p s = do {
     let (m, block) = s;
     b \<leftarrow> m_heap m p;
     _ \<leftarrow> (if height b \<noteq> BLOCK_UNKNOWN_HEIGHT then Some () else None);
     let m = m\<lparr>m_orphans := (m_orphans m)(prevBlock b \<mapsto> p)\<rparr>;
     better \<leftarrow> (case block of None \<Rightarrow> Some True | Some q \<Rightarrow> map_option (\<lambda>x. height b > height x) (m_heap m q));
     Some (m, if height b mod BLOCK_DIFFICULTY_INTERVAL = 0 \<and> better then Some p else block)
   }"

text \<open>\<open>while (block)\<close>\<close>

partial_function (option) connect_saved :: "nat option \<Rightarrow> manager \<Rightarrow> manager option" where
  "connect_saved block m =
     (if block = None then Some m
      else do {
        b \<leftarrow> m_heap m (the block);
        let m = (add_block (the block) b m)\<lparr>m_lastBlock := the block\<rparr>;
        let m = m\<lparr>m_orphans := (m_orphans m)(prevBlock b := None)\<rparr>;
        connect_saved (m_orphans m (blockHash b)) m
      })"

text \<open>
  The saved blocks are the objects \<open>blocks\<close> of \<open>heap\<close>, the objects from \<open>n\<close> on are new. As long as there is no last block, \<open>m_lastBlock\<close> is an
  object that is not on the heap. The peers are given in the order in which \<open>qsort\<close> leaves them.
\<close>

definition BRPeerManagerNew ::
  "BRChainParams \<Rightarrow> wallet \<Rightarrow> u32 \<Rightarrow> (nat \<Rightarrow> mblock option) \<Rightarrow> nat \<Rightarrow> nat list \<Rightarrow> BRPeer list \<Rightarrow> manager option" where
  "BRPeerManagerNew params w earliestKeyTime heap n blocks peers = do {
     let m = \<lparr>m_heap = heap, m_blocks = Map.empty, m_orphans = Map.empty, m_checkpoints = Map.empty,
              m_lastBlock = n + length (checkpoints params), m_lastOrphan = None, m_wallet = w, m_earliestKeyTime = earliestKeyTime,
              m_syncStartHeight = 0, m_estimatedHeight = 0, m_hasFilter = False, m_connectFailureCount = 0, m_misbehavinCount = 0,
              m_isConnected = False, m_peers = peers, m_downloadPeer = None\<rparr>;
     let m = fold (add_checkpoint n) (enumerate 0 (checkpoints params)) m;
     (m, block) \<leftarrow> fold_option add_saved blocks (m, None);
     connect_saved block m
   }"

section \<open>What is reported\<close>

definition BRPeerManagerEstimatedBlockHeight :: "manager \<Rightarrow> u32 option" where
  "BRPeerManagerEstimatedBlockHeight m = do {
     l \<leftarrow> m_heap m (m_lastBlock m);
     Some (if height l < m_estimatedHeight m then m_estimatedHeight m else height l)
   }"

definition BRPeerManagerLastBlockHeight :: "manager \<Rightarrow> u32 option" where
  "BRPeerManagerLastBlockHeight m = map_option height (m_heap m (m_lastBlock m))"

definition BRPeerManagerLastBlockTimestamp :: "manager \<Rightarrow> u32 option" where
  "BRPeerManagerLastBlockTimestamp m = map_option timestamp (m_heap m (m_lastBlock m))"

section \<open>Rescans\<close>

text \<open>The state, the calls, and whether \<open>BRPeerManagerConnect\<close> is called afterwards.\<close>

definition Rescan :: "nat option \<Rightarrow> manager \<Rightarrow> manager \<times> notice list \<times> bool" where
  "Rescan newLastBlock m =
     (case newLastBlock of None \<Rightarrow> (m, [], False)
      | Some p \<Rightarrow>
          let m = m\<lparr>m_lastBlock := p\<rparr>;
              (m, ns) = (case m_downloadPeer m of None \<Rightarrow> (m, [])
                | Some d \<Rightarrow> (m\<lparr>m_peers := filter (\<lambda>x. \<not> BRPeerEq x (conn_peer d)) (m_peers m)\<rparr>, [Disconnect (conn_id d)]))
          in (m\<lparr>m_syncStartHeight := 0\<rparr>, ns, True))"

text \<open>The block of the last checkpoint that has a property or is the first one.\<close>

definition checkpoint_before :: "(BRCheckPoint \<Rightarrow> bool) \<Rightarrow> BRChainParams \<Rightarrow> manager \<Rightarrow> nat option option" where
  "checkpoint_before P params m =
     (case List.find (\<lambda>(i, c). i = 0 \<or> P c) (rev (enumerate 0 (checkpoints params))) of
        None \<Rightarrow> Some None
      | Some (i, c) \<Rightarrow> map_option (map_option fst) (get_ptr m (UInt256Reverse (cp_hash c))))"

definition BRPeerManagerRescan :: "BRChainParams \<Rightarrow> manager \<Rightarrow> (manager \<times> notice list \<times> bool) option" where
  "BRPeerManagerRescan params m =
     (if m_isConnected m then do {
        p \<leftarrow> checkpoint_before (\<lambda>c. cp_timestamp c + PROTOCOL_BLOCK_WEEK < m_earliestKeyTime m) params m;
        Some (Rescan p m)
      }
      else Some (m, [], False))"

definition BRPeerManagerRescanFromLastHardcodedCheckpoint :: "BRChainParams \<Rightarrow> manager \<Rightarrow> (manager \<times> notice list \<times> bool) option" where
  "BRPeerManagerRescanFromLastHardcodedCheckpoint params m =
     (if m_isConnected m \<and> checkpoints params \<noteq> [] then do {
        p \<leftarrow> get_ptr m (UInt256Reverse (cp_hash (last (checkpoints params))));
        Some (Rescan (map_option fst p) m)
      }
      else Some (m, [], False))"

partial_function (option) lookup_chain :: "manager \<Rightarrow> u32 \<Rightarrow> (nat \<times> mblock) option \<Rightarrow> (nat \<times> mblock) option option" where
  "lookup_chain m blockNumber block =
     (if block = None \<or> height (snd (the block)) = blockNumber then Some block
      else do { next \<leftarrow> get_ptr m (prevBlock (snd (the block))); lookup_chain m blockNumber next })"

definition LookupBlockFromBlockNumber :: "BRChainParams \<Rightarrow> manager \<Rightarrow> u32 \<Rightarrow> nat option option" where
  "LookupBlockFromBlockNumber params m blockNumber = do {
     l \<leftarrow> m_heap m (m_lastBlock m);
     block \<leftarrow> lookup_chain m blockNumber (Some (m_lastBlock m, l));
     (case block of Some (p, _) \<Rightarrow> Some (Some p)
      | None \<Rightarrow>
         (case List.find (\<lambda>c. cp_height c = blockNumber) (checkpoints params) of
            None \<Rightarrow> Some None
          | Some c \<Rightarrow> map_option (map_option fst) (get_ptr m (UInt256Reverse (cp_hash c)))))
   }"

definition BRPeerManagerRescanFromBlockNumber :: "BRChainParams \<Rightarrow> u32 \<Rightarrow> manager \<Rightarrow> (manager \<times> notice list \<times> bool) option" where
  "BRPeerManagerRescanFromBlockNumber params blockNumber m =
     (if m_isConnected m then do {
        p \<leftarrow> LookupBlockFromBlockNumber params m blockNumber;
        p \<leftarrow> (if p = None then checkpoint_before (\<lambda>c. cp_height c < blockNumber) params m else Some p);
        Some (Rescan p m)
      }
      else Some (m, [], False))"

section \<open>The start is sound\<close>

definition checkpoints_ok :: "(UInt256 \<Rightarrow> nat) \<Rightarrow> BRCheckPoint list \<Rightarrow> bool" where
  "checkpoints_ok ht cs \<longleftrightarrow> distinct (map cp_hash cs) \<and> (\<forall>c \<in> set cs. UInt256Reverse (cp_hash c) \<noteq> 0 \<and>
     ht (UInt256Reverse (cp_hash c)) = unat (cp_height c) \<and> unat (cp_height c) < 2 ^ 31 - 1 \<and> unat (cp_height c) mod 2016 = 0)"

definition saved_ok :: "(UInt256 \<Rightarrow> nat) \<Rightarrow> (nat \<Rightarrow> mblock option) \<Rightarrow> nat \<Rightarrow> nat list \<Rightarrow> bool" where
  "saved_ok ht heap n blocks \<longleftrightarrow> (\<forall>p \<in> set blocks. p < n \<and> (\<exists>b. heap p = Some b \<and> at_height ht b))"

lemma checkpoint_block_sel [simp]:
  "blockHash (checkpoint_block c) = UInt256Reverse (cp_hash c)" "prevBlock (checkpoint_block c) = 0"
  "height (checkpoint_block c) = cp_height c" "timestamp (checkpoint_block c) = cp_timestamp c"
  by (simp_all add: checkpoint_block_def BRMerkleBlockNew_def)

text \<open>After the first loop.\<close>

definition only_checkpoints :: "(UInt256 \<Rightarrow> nat) \<Rightarrow> nat \<Rightarrow> BRCheckPoint list \<Rightarrow> manager \<Rightarrow> bool" where
  "only_checkpoints ht n cs m \<longleftrightarrow> links_ok ht m \<and>
     (\<forall>h p. m_blocks m h = Some p \<longrightarrow> n \<le> p \<and> p < n + length cs \<and> ht h mod 2016 = 0 \<and> h \<in> UInt256Reverse ` cp_hash ` set cs \<and>
        (\<forall>b. m_heap m p = Some b \<longrightarrow> prevBlock b = 0)) \<and>
     (cs \<noteq> [] \<longrightarrow> (\<exists>l. m_heap m (m_lastBlock m) = Some l \<and> m_blocks m (blockHash l) = Some (m_lastBlock m)))"

lemma add_checkpoint_fields:
  "m_blocks (add_checkpoint n (i, c) m) = (m_blocks m)(UInt256Reverse (cp_hash c) \<mapsto> n + i)"
  "m_heap (add_checkpoint n (i, c) m) = (m_heap m)(n + i \<mapsto> checkpoint_block c)"
  "m_orphans (add_checkpoint n (i, c) m) = m_orphans m" "m_wallet (add_checkpoint n (i, c) m) = m_wallet m"
  "m_lastBlock (add_checkpoint n (i, c) m) = n + i \<or> i \<noteq> 0 \<and> m_lastBlock (add_checkpoint n (i, c) m) = m_lastBlock m"
  by (auto simp: add_checkpoint_def Let_def add_block_def)

lemma UInt256Reverse_inj: "UInt256Reverse a = UInt256Reverse b \<longleftrightarrow> a = b"
  using UInt256Reverse_involution [of a] UInt256Reverse_involution [of b] by metis

lemma add_checkpoints_ok:
  assumes "checkpoints_ok ht cs" "m_blocks m = Map.empty"
  shows "only_checkpoints ht n cs (fold (add_checkpoint n) (enumerate 0 cs) m) \<and>
    m_orphans (fold (add_checkpoint n) (enumerate 0 cs) m) = m_orphans m \<and> m_wallet (fold (add_checkpoint n) (enumerate 0 cs) m) = m_wallet m \<and>
    (\<forall>p < n. m_heap (fold (add_checkpoint n) (enumerate 0 cs) m) p = m_heap m p)"
  using assms(1)
proof (induction cs rule: rev_induct)
  case Nil
  then show ?case using assms(2) by (simp add: only_checkpoints_def links_ok_def)
next
  case (snoc c cs)
  let ?k = "length cs"
  define m1 where "m1 = fold (add_checkpoint n) (enumerate 0 cs) m"
  define m2 where "m2 = add_checkpoint n (?k, c) m1"
  let ?h = "UInt256Reverse (cp_hash c)"
  have result: "fold (add_checkpoint n) (enumerate 0 (cs @ [c])) m = m2" by (simp add: enumerate_append_eq m1_def m2_def)
  have "checkpoints_ok ht cs" using snoc.prems by (simp add: checkpoints_ok_def)
  from snoc.IH [OF this] have m1: "only_checkpoints ht n cs m1" "m_orphans m1 = m_orphans m" "m_wallet m1 = m_wallet m"
    "\<forall>p < n. m_heap m1 p = m_heap m p" by (simp_all add: m1_def)
  have f: "m_blocks m2 = (m_blocks m1)(?h \<mapsto> n + ?k)" "m_heap m2 = (m_heap m1)(n + ?k \<mapsto> checkpoint_block c)" "m_orphans m2 = m_orphans m1"
    "m_wallet m2 = m_wallet m1" "m_lastBlock m2 = n + ?k \<or> cs \<noteq> [] \<and> m_lastBlock m2 = m_lastBlock m1"
    using add_checkpoint_fields [of n ?k c m1] by (simp_all add: m2_def)
  have c: "?h \<noteq> 0" "ht ?h = unat (cp_height c)" "unat (cp_height c) < 2 ^ 31 - 1" "unat (cp_height c) mod 2016 = 0"
    "?h \<notin> UInt256Reverse ` cp_hash ` set cs"
    using snoc.prems by (auto simp: checkpoints_ok_def UInt256Reverse_inj)
  have old: "n \<le> p \<and> p < n + ?k \<and> ht h mod 2016 = 0 \<and> h \<in> UInt256Reverse ` cp_hash ` set cs \<and> (\<forall>b. m_heap m1 p = Some b \<longrightarrow> prevBlock b = 0)"
    if "m_blocks m1 h = Some p" for h p using m1(1) that by (simp add: only_checkpoints_def)
  have links1: "links_ok ht m1" using m1(1) by (simp add: only_checkpoints_def)
  have "links_ok ht m2"
    unfolding links_ok_def
  proof (intro conjI allI impI)
    show "m_blocks m2 0 = None" using links1 c(1) by (simp add: links_ok_def f(1))
    fix h p assume p: "m_blocks m2 h = Some p"
    show "\<exists>b. m_heap m2 p = Some b \<and> blockHash b = h \<and> block_fits ht b \<and> height b = of_nat (ht h)"
    proof (cases "h = ?h")
      case True
      then have "p = n + ?k" using p by (simp add: f(1))
      then show ?thesis using True c by (simp add: f(2) block_fits_def)
    next
      case False
      then have "m_blocks m1 h = Some p" using p by (simp add: f(1))
      then show ?thesis using links_okD [OF links1] old [of h p] by (simp add: f(2))
    qed
  qed
  moreover have "n \<le> p \<and> p < n + length (cs @ [c]) \<and> ht h mod 2016 = 0 \<and> h \<in> UInt256Reverse ` cp_hash ` set (cs @ [c]) \<and>
      (\<forall>b. m_heap m2 p = Some b \<longrightarrow> prevBlock b = 0)" if p: "m_blocks m2 h = Some p" for h p
  proof (cases "h = ?h")
    case True
    then have "p = n + ?k" using p by (simp add: f(1))
    then show ?thesis using True c by (simp add: f(2))
  next
    case False
    then have "m_blocks m1 h = Some p" using p by (simp add: f(1))
    then show ?thesis using old [of h p] by (simp add: f(2))
  qed
  moreover have "\<exists>l. m_heap m2 (m_lastBlock m2) = Some l \<and> m_blocks m2 (blockHash l) = Some (m_lastBlock m2)"
    using f(5)
  proof (elim disjE conjE)
    assume "m_lastBlock m2 = n + ?k"
    then show ?thesis by (simp add: f(1,2))
  next
    assume l: "cs \<noteq> []" "m_lastBlock m2 = m_lastBlock m1"
    then obtain x where x: "m_heap m1 (m_lastBlock m1) = Some x" "m_blocks m1 (blockHash x) = Some (m_lastBlock m1)"
      using m1(1) by (auto simp: only_checkpoints_def)
    then show ?thesis using old [OF x(2)] c(5) l(2) by (intro exI [of _ x]) (auto simp: f(1,2))
  qed
  moreover have "\<forall>p < n. m_heap m2 p = m_heap m p" using m1(4) by (simp add: f(2))
  ultimately show ?case unfolding result using m1(2,3) f(3,4) by (simp add: only_checkpoints_def)
qed

text \<open>The saved blocks, before they are connected.\<close>

definition waiting_ok :: "(UInt256 \<Rightarrow> nat) \<Rightarrow> manager \<Rightarrow> bool" where
  "waiting_ok ht m \<longleftrightarrow> (\<forall>h p. m_orphans m h = Some p \<longrightarrow> (\<exists>b. m_heap m p = Some b \<and> prevBlock b = h \<and> at_height ht b) \<and> p \<notin> ran (m_blocks m))"

lemma add_saved_ok:
  assumes "saved_ok ht (m_heap m) n blocks" "\<And>h p. m_blocks m h = Some p \<Longrightarrow> n \<le> p" "m_orphans m = Map.empty"
  shows "\<exists>os block. fold_option add_saved blocks (m, None) = Some (m\<lparr>m_orphans := os\<rparr>, block) \<and> waiting_ok ht (m\<lparr>m_orphans := os\<rparr>) \<and>
    (\<forall>p. block = Some p \<longrightarrow> p \<in> set blocks)"
proof -
  let ?I = "\<lambda>s. (\<exists>os. fst s = m\<lparr>m_orphans := os\<rparr>) \<and> waiting_ok ht (fst s) \<and> (\<forall>p. snd s = Some p \<longrightarrow> p \<in> set blocks)"
  have "\<exists>s. fold_option add_saved blocks (m, None) = Some s \<and> ?I s"
  proof (rule fold_option_inv [where I = ?I])
    have "m = m\<lparr>m_orphans := Map.empty\<rparr>" using assms(3) by simp
    then show "?I (m, None)" using assms(3) by (auto simp: waiting_ok_def intro: exI [of _ Map.empty])
    fix p and s :: "manager \<times> nat option"
    assume p: "p \<in> set blocks" and I: "?I s"
    obtain os block where s: "s = (m\<lparr>m_orphans := os\<rparr>, block)" using I by (cases s) auto
    obtain b where b: "p < n" "m_heap m p = Some b" "at_height ht b" using assms(1) p by (auto simp: saved_ok_def)
    have known: "height b \<noteq> BLOCK_UNKNOWN_HEIGHT" using known_height b(3) by blast
    have "\<exists>better. (case block of None \<Rightarrow> Some True | Some q \<Rightarrow> map_option (\<lambda>x. height b > height x) (m_heap m q)) = Some better"
      using I s assms(1) by (cases block) (auto simp: saved_ok_def)
    then obtain better where
      "(case block of None \<Rightarrow> Some True | Some q \<Rightarrow> map_option (\<lambda>x. height b > height x) (m_heap m q)) = Some better" by blast
    then have r: "add_saved p s = Some (m\<lparr>m_orphans := os(prevBlock b \<mapsto> p)\<rparr>, if height b mod BLOCK_DIFFICULTY_INTERVAL = 0 \<and> better then Some p else block)"
      using b(2) known by (cases block) (auto simp: add_saved_def s Let_def)
    have "p \<notin> ran (m_blocks m)" using assms(2) b(1) by (fastforce simp: ran_def)
    then have "waiting_ok ht (m\<lparr>m_orphans := os(prevBlock b \<mapsto> p)\<rparr>)" using I b by (auto simp: waiting_ok_def s)
    then show "\<exists>s'. add_saved p s = Some s' \<and> ?I s'" using r I p by (auto simp: s)
  qed
  then show ?thesis by auto
qed

text \<open>Connecting them.\<close>

lemma connect_saved_ok:
  assumes "links_ok ht m" "waiting_ok ht m" "m_heap m p = Some b" "at_height ht b" "p \<notin> ran (m_blocks m)"
    "\<And>h q x. m_blocks m h = Some q \<Longrightarrow> m_heap m q = Some x \<Longrightarrow> ht h \<le> ht (blockHash b) \<or> ht h mod 2016 = 0 \<and> prevBlock x = 0"
  shows "\<exists>m'. connect_saved (Some p) m = Some m' \<and> chain_ok ht m' \<and> m_wallet m' = m_wallet m"
  using assms
proof (induction "2 ^ 31 - ht (blockHash b)" arbitrary: m p b rule: less_induct)
  case less
  define m0 where "m0 = m\<lparr>m_orphans := (m_orphans m)(prevBlock b := None)\<rparr>"
  have own: "h = prevBlock b" if "m_orphans m h = Some p" for h using less.prems(2,3) that by (fastforce simp: waiting_ok_def)
  have new: "new_block ht m0 p b" using less.prems(3,4,5) own by (auto simp: new_block_def m0_def ran_def)
  let ?m = "(add_block p b m0)\<lparr>m_lastBlock := p\<rparr>"
  have f: "m_blocks ?m = (m_blocks m)(blockHash b \<mapsto> p)" "m_heap ?m = m_heap m" "m_orphans ?m = (m_orphans m)(prevBlock b := None)"
    "m_lastBlock ?m = p" "m_wallet ?m = m_wallet m"
    by (simp_all add: add_block_def m0_def)
  have "links_ok ht m0" using less.prems(1) by (simp add: links_ok_def m0_def)
  then have links: "links_ok ht ?m" using add_block_links [OF _ new] less.prems(4) by (simp add: links_ok_def)
  have wait: "waiting_ok ht ?m"
  proof -
    have "ran (m_blocks ?m) \<subseteq> insert p (ran (m_blocks m))" unfolding f by (auto simp: ran_def split: if_splits)
    moreover have "q \<noteq> p" if "m_orphans ?m h = Some q" for h q using that own [of h] by (auto simp: f(3) split: if_splits)
    moreover have "m_orphans m h = Some q" if "m_orphans ?m h = Some q" for h q using that by (simp add: f(3) split: if_splits)
    ultimately show ?thesis using less.prems(2) unfolding waiting_ok_def f(2) by (meson insertE subsetD)
  qed
  have ahead: "ht h \<le> ht (blockHash b) \<or> ht h mod 2016 = 0 \<and> prevBlock x = 0" if "m_blocks ?m h = Some q" "m_heap ?m q = Some x" for h q x
    using that less.prems(6) [of h q x] unfolding f(1,2) by (cases "h = blockHash b") simp_all
  have "(add_block p b m)\<lparr>m_lastBlock := p, m_orphans := (m_orphans m)(prevBlock b := None)\<rparr> = ?m"
    by (cases m) (simp add: m0_def add_block_def)
  then have step: "connect_saved (Some p) m = connect_saved (m_orphans ?m (blockHash b)) ?m"
    unfolding f(3) using less.prems(3) by (subst connect_saved.simps) (simp add: Let_def add_block_def)
  show ?case
  proof (cases "m_orphans ?m (blockHash b)")
    case None
    then have "connect_saved (Some p) m = Some ?m" unfolding step by (subst connect_saved.simps) simp
    moreover have "orphans_ok ht ?m" using wait unfolding waiting_ok_def orphans_ok_def by blast
    moreover have "ahead_ok ht ?m (ht (blockHash b))" using ahead unfolding ahead_ok_def by blast
    moreover have "m_heap ?m (m_lastBlock ?m) = Some b" "m_blocks ?m (blockHash b) = Some (m_lastBlock ?m)" using less.prems(3) by (simp_all add: f)
    ultimately show ?thesis using links f(5) unfolding chain_ok_def by blast
  next
    case (Some q)
    then obtain ob where ob: "m_heap ?m q = Some ob" "prevBlock ob = blockHash b" "at_height ht ob" "q \<notin> ran (m_blocks ?m)"
      using wait by (auto simp: waiting_ok_def)
    have h: "ht (blockHash ob) = ht (blockHash b) + 1" using ob(2,3) less.prems(4) by (simp add: block_fits_def)
    moreover have "ht (blockHash ob) < 2 ^ 31" using ob(3) by (simp add: block_fits_def)
    ultimately have "2 ^ 31 - ht (blockHash ob) < 2 ^ 31 - ht (blockHash b)" by linarith
    from less.hyps [OF this links wait ob(1,3,4)] ahead h
    obtain m' where "connect_saved (Some q) ?m = Some m'" "chain_ok ht m'" "m_wallet m' = m_wallet ?m" by (metis le_SucI Suc_eq_plus1)
    then show ?thesis unfolding step Some using f(5) by simp
  qed
qed

lemma new_sound:
  assumes "checkpoints params \<noteq> []" "checkpoints_ok ht (checkpoints params)" "saved_ok ht heap n blocks" "wallet_ok e r w"
  shows "\<exists>m. BRPeerManagerNew params w key heap n blocks peers = Some m \<and> manager_ok ht e r m \<and> m_wallet m = w"
proof -
  let ?cs = "checkpoints params"
  define m where "m = \<lparr>m_heap = heap, m_blocks = Map.empty, m_orphans = Map.empty, m_checkpoints = Map.empty,
              m_lastBlock = n + length ?cs, m_lastOrphan = None, m_wallet = w, m_earliestKeyTime = key,
              m_syncStartHeight = 0, m_estimatedHeight = 0, m_hasFilter = False, m_connectFailureCount = 0, m_misbehavinCount = 0,
              m_isConnected = False, m_peers = peers, m_downloadPeer = None\<rparr>"
  define m1 where "m1 = fold (add_checkpoint n) (enumerate 0 ?cs) m"
  have m: "m_blocks m = Map.empty" "m_orphans m = Map.empty" "m_wallet m = w" "m_heap m = heap" by (simp_all add: m_def)
  have m1: "only_checkpoints ht n ?cs m1" "m_orphans m1 = Map.empty" "m_wallet m1 = w" "\<forall>p < n. m_heap m1 p = heap p"
    using add_checkpoints_ok [OF assms(2) m(1), of n] m by (simp_all add: m1_def)
  have cp: "n \<le> p \<and> ht h mod 2016 = 0 \<and> (\<forall>b. m_heap m1 p = Some b \<longrightarrow> prevBlock b = 0)" if "m_blocks m1 h = Some p" for h p
    using m1(1) that by (simp add: only_checkpoints_def)
  have saved: "saved_ok ht (m_heap m1) n blocks" using assms(3) m1(4) by (auto simp: saved_ok_def)
  obtain os block where s: "fold_option add_saved blocks (m1, None) = Some (m1\<lparr>m_orphans := os\<rparr>, block)" "waiting_ok ht (m1\<lparr>m_orphans := os\<rparr>)"
    "\<forall>p. block = Some p \<longrightarrow> p \<in> set blocks"
    using add_saved_ok [OF saved _ m1(2)] cp by blast
  let ?m = "m1\<lparr>m_orphans := os\<rparr>"
  have links: "links_ok ht ?m" using m1(1) by (simp add: only_checkpoints_def links_ok_def)
  have "\<exists>m'. connect_saved block ?m = Some m' \<and> chain_ok ht m' \<and> m_wallet m' = w"
  proof (cases block)
    case None
    obtain l where l: "m_heap m1 (m_lastBlock m1) = Some l" "m_blocks m1 (blockHash l) = Some (m_lastBlock m1)"
      using m1(1) assms(1) by (auto simp: only_checkpoints_def)
    have "ahead_ok ht ?m (ht (blockHash l))" using cp by (auto simp: ahead_ok_def)
    moreover have "orphans_ok ht ?m" using s(2) unfolding waiting_ok_def orphans_ok_def by blast
    ultimately have "chain_ok ht ?m" using links l by (simp add: chain_ok_def)
    moreover have "connect_saved block ?m = Some ?m" unfolding None by (subst connect_saved.simps) simp
    ultimately show ?thesis using m1(3) by simp
  next
    case (Some p)
    then obtain b where b: "p < n" "m_heap ?m p = Some b" "at_height ht b" using s(3) saved by (auto simp: saved_ok_def)
    have "p \<notin> ran (m_blocks ?m)" using cp b(1) by (fastforce simp: ran_def)
    from connect_saved_ok [OF links s(2) b(2,3) this] cp Some m1(3) show ?thesis by auto
  qed
  then show ?thesis
    using s(1) assms(4) unfolding BRPeerManagerNew_def Let_def m_def [symmetric] m1_def [symmetric] by (auto simp: manager_ok_def)
qed

section \<open>Rescans return\<close>

text \<open>The block number is looked up on the chain, then among the checkpoints.\<close>

lemma lookup_chain_ok:
  assumes "links_ok ht m" "m_blocks m (blockHash b) = Some p" "m_heap m p = Some b"
  shows "\<exists>r. lookup_chain m n (Some (p, b)) = Some r \<and>
    (\<forall>q x. r = Some (q, x) \<longrightarrow> m_heap m q = Some x \<and> m_blocks m (blockHash x) = Some q \<and> height x = n)"
  using assms(2,3)
proof (induction "ht (blockHash b)" arbitrary: b p rule: less_induct)
  case less
  show ?case
  proof (cases "height b = n")
    case True
    then show ?thesis using less.prems by (subst lookup_chain.simps) simp
  next
    case False
    obtain nxt where nxt: "get_ptr m (prevBlock b) = Some nxt" using get_ptr_links(1) [OF assms(1)] by blast
    have step: "lookup_chain m n (Some (p, b)) = lookup_chain m n nxt" using False nxt by (subst lookup_chain.simps) simp
    show ?thesis
    proof (cases nxt)
      case None
      then show ?thesis unfolding step by (subst lookup_chain.simps) simp
    next
      case (Some qx)
      obtain q x where qx: "qx = (q, x)" by (cases qx)
      have x: "m_blocks m (prevBlock b) = Some q" "m_heap m q = Some x" using nxt get_ptr_links(2) [OF assms(1)] by (simp_all add: Some qx)
      then have h: "blockHash x = prevBlock b" using links_okD [OF assms(1)] by fastforce
      have "prevBlock b \<noteq> 0" using x(1) assms(1) by (auto simp: links_ok_def)
      then have "ht (blockHash x) < ht (blockHash b)" using chain_fits [OF assms(1) less.prems] h by (simp add: block_fits_def)
      from less.hyps [OF this] x h show ?thesis unfolding step Some qx by simp
    qed
  qed
qed

lemma Rescan_fields:
  "m_blocks (fst (Rescan t m)) = m_blocks m" "m_heap (fst (Rescan t m)) = m_heap m" "m_orphans (fst (Rescan t m)) = m_orphans m"
  "m_wallet (fst (Rescan t m)) = m_wallet m" "m_lastBlock (fst (Rescan t m)) = (case t of None \<Rightarrow> m_lastBlock m | Some p \<Rightarrow> p)"
  "snd (snd (Rescan t m)) = (t \<noteq> None)"
  by (simp_all add: Rescan_def Let_def split: option.split)

text \<open>The last checkpoint with a property, or the first of all.\<close>

lemma checkpoint_before_ok:
  assumes "links_ok ht m"
  shows "\<exists>r. checkpoint_before P params m = Some r \<and> (\<forall>p. r = Some p \<longrightarrow> (\<exists>i c x. i < length (checkpoints params) \<and> checkpoints params ! i = c \<and>
    (i = 0 \<or> P c) \<and> (\<forall>j. i < j \<longrightarrow> j < length (checkpoints params) \<longrightarrow> \<not> P (checkpoints params ! j)) \<and>
    m_heap m p = Some x \<and> m_blocks m (blockHash x) = Some p \<and> blockHash x = UInt256Reverse (cp_hash c)))"
proof (cases "List.find (\<lambda>(i, c). i = 0 \<or> P c) (rev (enumerate 0 (checkpoints params)))")
  case None
  then show ?thesis by (simp add: checkpoint_before_def)
next
  case (Some ic)
  let ?cs = "checkpoints params"
  obtain i c where ic: "ic = (i, c)" by (cases ic)
  obtain k where k: "k < length ?cs" "rev (enumerate 0 ?cs) ! k = (i, c)" "i = 0 \<or> P c"
    "\<forall>j < k. \<not> (case rev (enumerate 0 ?cs) ! j of (i, c) \<Rightarrow> i = 0 \<or> P c)"
    using Some unfolding ic find_Some_iff by auto
  have nth: "rev (enumerate 0 ?cs) ! j = (length ?cs - Suc j, ?cs ! (length ?cs - Suc j))" if "j < length ?cs" for j
    using that by (simp add: rev_nth nth_enumerate_eq)
  have i: "i = length ?cs - Suc k" "c = ?cs ! i" using nth [OF k(1)] k(2) by auto
  have later: "\<not> P (?cs ! j)" if "i < j" "j < length ?cs" for j
  proof -
    have "length ?cs - Suc j < k" using that i(1) k(1) by simp
    then show ?thesis using k(4) nth [of "length ?cs - Suc j"] that by fastforce
  qed
  obtain g where g: "get_ptr m (UInt256Reverse (cp_hash c)) = Some g" using get_ptr_links(1) [OF assms] by blast
  have r: "checkpoint_before P params m = Some (map_option fst g)" using Some ic g by (simp add: checkpoint_before_def)
  have "\<exists>x. m_heap m p = Some x \<and> m_blocks m (blockHash x) = Some p \<and> blockHash x = UInt256Reverse (cp_hash c)" if e: "map_option fst g = Some p" for p
  proof -
    obtain x where "g = Some (p, x)" using e by auto
    then have x: "m_blocks m (UInt256Reverse (cp_hash c)) = Some p" "m_heap m p = Some x" using g get_ptr_links(2) [OF assms] by simp_all
    then have "blockHash x = UInt256Reverse (cp_hash c)" using links_okD [OF assms x(1)] by auto
    then show ?thesis using x by auto
  qed
  note at = this
  have i_less: "i < length ?cs" using i(1) k(1) by simp
  show ?thesis
  proof (rule exI [of _ "map_option fst g"], intro conjI allI impI)
    show "checkpoint_before P params m = Some (map_option fst g)" by (rule r)
    fix p assume "map_option fst g = Some p"
    then obtain x where x: "m_heap m p = Some x" "m_blocks m (blockHash x) = Some p" "blockHash x = UInt256Reverse (cp_hash c)"
      using at by blast
    show "\<exists>i c x. i < length ?cs \<and> ?cs ! i = c \<and> (i = 0 \<or> P c) \<and> (\<forall>j. i < j \<longrightarrow> j < length ?cs \<longrightarrow> \<not> P (?cs ! j)) \<and>
        m_heap m p = Some x \<and> m_blocks m (blockHash x) = Some p \<and> blockHash x = UInt256Reverse (cp_hash c)"
      by (intro exI [of _ i] exI [of _ c] exI [of _ x] conjI allI impI i_less i(2) [symmetric] k(3) later x)
  qed
qed

lemma rescans_ok:
  assumes "chain_ok ht m" "m_isConnected m"
  shows "\<exists>m' ns again. BRPeerManagerRescanFromBlockNumber params n m = Some (m', ns, again) \<and> links_ok ht m' \<and> orphans_ok ht m' \<and>
    m_wallet m' = m_wallet m \<and> (\<exists>l. m_heap m' (m_lastBlock m') = Some l \<and> m_blocks m' (blockHash l) = Some (m_lastBlock m') \<and>
      (again \<longrightarrow> height l = n \<or> blockHash l \<in> UInt256Reverse ` cp_hash ` set (checkpoints params)))"
proof -
  obtain l where l: "links_ok ht m" "orphans_ok ht m" "m_heap m (m_lastBlock m) = Some l" "m_blocks m (blockHash l) = Some (m_lastBlock m)"
    using chain_okD [OF assms(1)] by metis
  let ?good = "\<lambda>p. \<exists>x. m_heap m p = Some x \<and> m_blocks m (blockHash x) = Some p \<and>
    (height x = n \<or> blockHash x \<in> UInt256Reverse ` cp_hash ` set (checkpoints params))"
  obtain r where r: "lookup_chain m n (Some (m_lastBlock m, l)) = Some r"
    "\<forall>q x. r = Some (q, x) \<longrightarrow> m_heap m q = Some x \<and> m_blocks m (blockHash x) = Some q \<and> height x = n"
    using lookup_chain_ok [OF l(1,4,3)] by blast
  have "\<exists>t. LookupBlockFromBlockNumber params m n = Some t \<and> (\<forall>p. t = Some p \<longrightarrow> ?good p)"
  proof (cases r)
    case (Some px)
    then show ?thesis using r l(3) by (cases px) (auto simp: LookupBlockFromBlockNumber_def)
  next
    case None
    show ?thesis
    proof (cases "List.find (\<lambda>c. cp_height c = n) (checkpoints params)")
      case F: None
      then show ?thesis using None r(1) l(3) by (simp add: LookupBlockFromBlockNumber_def)
    next
      case (Some c)
      then have c: "c \<in> set (checkpoints params)" by (auto simp: find_Some_iff)
      obtain g where g: "get_ptr m (UInt256Reverse (cp_hash c)) = Some g" using get_ptr_links(1) [OF l(1)] by blast
      have "?good p" if e: "map_option fst g = Some p" for p
      proof -
        obtain x where "g = Some (p, x)" using e by auto
        then have x: "m_blocks m (UInt256Reverse (cp_hash c)) = Some p" "m_heap m p = Some x" using g get_ptr_links(2) [OF l(1)] by simp_all
        then have "blockHash x = UInt256Reverse (cp_hash c)" using links_okD [OF l(1) x(1)] by auto
        then show ?thesis using x c by auto
      qed
      then show ?thesis using None r(1) l(3) Some g by (simp add: LookupBlockFromBlockNumber_def)
    qed
  qed
  then obtain t where t: "LookupBlockFromBlockNumber params m n = Some t" "\<forall>p. t = Some p \<longrightarrow> ?good p" by blast
  obtain t2 where t2: "checkpoint_before (\<lambda>c. cp_height c < n) params m = Some t2" "\<forall>p. t2 = Some p \<longrightarrow> ?good p"
  proof -
    obtain u where u: "checkpoint_before (\<lambda>c. cp_height c < n) params m = Some u" "\<forall>p. u = Some p \<longrightarrow> (\<exists>i c x. i < length (checkpoints params) \<and>
      checkpoints params ! i = c \<and> m_heap m p = Some x \<and> m_blocks m (blockHash x) = Some p \<and> blockHash x = UInt256Reverse (cp_hash c))"
      using checkpoint_before_ok [OF l(1), of "\<lambda>c. cp_height c < n" params] by blast
    have "?good p" if "u = Some p" for p using u(2) that by (metis imageI nth_mem)
    then show thesis using that u(1) by blast
  qed
  define s where "s = (if t = None then t2 else t)"
  have s: "BRPeerManagerRescanFromBlockNumber params n m = Some (Rescan s m)" "\<forall>p. s = Some p \<longrightarrow> ?good p"
    using assms(2) t t2 by (auto simp: BRPeerManagerRescanFromBlockNumber_def s_def)
  obtain m' ns again where R: "Rescan s m = (m', ns, again)" by (cases "Rescan s m")
  note f = Rescan_fields [of s m, unfolded R fst_conv snd_conv]
  have "links_ok ht m'" "orphans_ok ht m'" using l(1,2) by (simp_all add: links_ok_def orphans_ok_def f)
  moreover have "\<exists>l. m_heap m' (m_lastBlock m') = Some l \<and> m_blocks m' (blockHash l) = Some (m_lastBlock m') \<and>
      (again \<longrightarrow> height l = n \<or> blockHash l \<in> UInt256Reverse ` cp_hash ` set (checkpoints params))"
  proof (cases s)
    case None
    then show ?thesis using l(3,4) by (simp add: f)
  next
    case (Some p)
    then show ?thesis using s(2) by (simp add: f)
  qed
  ultimately show ?thesis using s(1) R f(4) by auto
qed

end
