(* ===== verification/PeerLists.thy ===== *)
theory PeerLists
  imports Chain
begin

text \<open>
  The lists of BRPeerManager.c that say which peers have relayed a transaction (\<open>BRTxPeerList\<close>): arrays of pairs of a hash and an array of
  peers, searched from their ends. The theorem: they behave as a set of peers for each hash.
\<close>

type_synonym BRTxPeerList = "(UInt256 \<times> BRPeer list) list"

text \<open>The search of all four functions: the last entry with the hash.\<close>

fun entry_index :: "BRTxPeerList \<Rightarrow> UInt256 \<Rightarrow> nat \<Rightarrow> nat option" where
  "entry_index list h 0 = None"
| "entry_index list h (Suc i) = (if \<not> UInt256Eq (fst (list ! i)) h then entry_index list h i else Some i)"

fun peer_index :: "BRPeer list \<Rightarrow> BRPeer \<Rightarrow> nat \<Rightarrow> nat option" where
  "peer_index peers p 0 = None"
| "peer_index peers p (Suc j) = (if BRPeerEq (peers ! j) p then Some j else peer_index peers p j)"

definition BRTxPeerListHasPeer :: "BRTxPeerList \<Rightarrow> UInt256 \<Rightarrow> BRPeer \<Rightarrow> bool" where
  "BRTxPeerListHasPeer list h peer =
     (case entry_index list h (length list) of None \<Rightarrow> False
      | Some i \<Rightarrow> peer_index (snd (list ! i)) peer (length (snd (list ! i))) \<noteq> None)"

definition BRTxPeerListCount :: "BRTxPeerList \<Rightarrow> UInt256 \<Rightarrow> nat" where
  "BRTxPeerListCount list h =
     (case entry_index list h (length list) of None \<Rightarrow> 0 | Some i \<Rightarrow> length (snd (list ! i)))"

definition BRTxPeerListAddPeer :: "BRTxPeerList \<Rightarrow> UInt256 \<Rightarrow> BRPeer \<Rightarrow> BRTxPeerList \<times> nat" where
  "BRTxPeerListAddPeer list h peer =
     (case entry_index list h (length list) of
        None \<Rightarrow> (list @ [(h, [peer])], 1)
      | Some i \<Rightarrow>
          let peers = snd (list ! i)
          in if peer_index peers peer (length peers) \<noteq> None then (list, length peers)
             else (list[i := (fst (list ! i), peers @ [peer])], length (peers @ [peer])))"

text \<open>\<open>array_rm(peers, j)\<close>\<close>

definition BRTxPeerListRemovePeer :: "BRTxPeerList \<Rightarrow> UInt256 \<Rightarrow> BRPeer \<Rightarrow> BRTxPeerList \<times> bool" where
  "BRTxPeerListRemovePeer list h peer =
     (case entry_index list h (length list) of
        None \<Rightarrow> (list, False)
      | Some i \<Rightarrow>
          let peers = snd (list ! i)
          in case peer_index peers peer (length peers) of
               None \<Rightarrow> (list, False)
             | Some j \<Rightarrow> (list[i := (fst (list ! i), take j peers @ drop (j + 1) peers)], True))"

section \<open>Sets of peers\<close>

text \<open>What the list stands for, and its invariant: no hash and no peer of a hash twice.\<close>

definition peers_of :: "BRTxPeerList \<Rightarrow> UInt256 \<Rightarrow> BRPeer set" where
  "peers_of list h = (case map_of list h of None \<Rightarrow> {} | Some ps \<Rightarrow> set ps)"

definition peer_list_ok :: "BRTxPeerList \<Rightarrow> bool" where
  "peer_list_ok list \<longleftrightarrow> distinct (map fst list) \<and> (\<forall>ps \<in> snd ` set list. distinct ps)"

lemma BRPeerEq_iff: "BRPeerEq p q \<longleftrightarrow> p = q"
  by (cases p; cases q) (simp add: BRPeerEq_def)

lemma entry_index_None: "entry_index list h n = None \<longleftrightarrow> (\<forall>i < n. fst (list ! i) \<noteq> h)"
  by (induction n) (auto simp: less_Suc_eq)

lemma entry_index_Some: "entry_index list h n = Some i \<Longrightarrow> i < n \<and> fst (list ! i) = h"
  by (induction n) (auto split: if_splits)

lemma peer_index_None: "peer_index peers p n = None \<longleftrightarrow> (\<forall>j < n. peers ! j \<noteq> p)"
  by (induction n) (auto simp: less_Suc_eq BRPeerEq_iff)

lemma peer_index_Some: "peer_index peers p n = Some j \<Longrightarrow> j < n \<and> peers ! j = p"
  by (induction n) (auto simp: BRPeerEq_iff split: if_splits)

lemma peer_index_in: "peer_index peers p (length peers) \<noteq> None \<longleftrightarrow> p \<in> set peers"
  unfolding peer_index_None by (auto simp: in_set_conv_nth)

lemma entry_cases:
  assumes "peer_list_ok list"
  obtains "entry_index list h (length list) = None" "map_of list h = None" "h \<notin> fst ` set list"
  | i where "entry_index list h (length list) = Some i" "i < length list" "fst (list ! i) = h" "map_of list h = Some (snd (list ! i))"
      "distinct (snd (list ! i))"
proof (cases "entry_index list h (length list)")
  case None
  then have "h \<notin> fst ` set list" unfolding entry_index_None by (fastforce simp: in_set_conv_nth)
  then show ?thesis using None that(1) by (simp add: map_of_eq_None_iff)
next
  case (Some i)
  then have i: "i < length list" "fst (list ! i) = h" by (auto dest: entry_index_Some)
  then have "(h, snd (list ! i)) \<in> set list" using nth_mem [of i list] by (cases "list ! i") auto
  then show ?thesis using that(2) [OF Some i] assms i(1) by (auto simp: peer_list_ok_def)
qed

text \<open>Replacing the peers of an entry.\<close>

lemma update_entry:
  assumes "peer_list_ok list" "i < length list" "fst (list ! i) = h" "distinct ps"
  shows "peer_list_ok (list[i := (h, ps)]) \<and> peers_of (list[i := (h, ps)]) = (peers_of list)(h := set ps)"
proof -
  have keys: "map fst (list[i := (h, ps)]) = map fst list" using assms(2,3) by (simp add: map_update list_update_same_conv)
  have d: "distinct (map fst list)" using assms(1) by (simp add: peer_list_ok_def)
  have "snd ` set (list[i := (h, ps)]) \<subseteq> insert ps (snd ` set list)" using set_update_subset_insert [of list i "(h, ps)"] by auto
  then have "\<forall>qs \<in> snd ` set (list[i := (h, ps)]). distinct qs" using assms(1,4) unfolding peer_list_ok_def by blast
  then have ok: "peer_list_ok (list[i := (h, ps)])" using d keys by (simp add: peer_list_ok_def)
  have "map_of (list[i := (h, ps)]) k = ((map_of list)(h \<mapsto> ps)) k" for k
  proof (cases "k = h")
    case True
    have "(h, ps) \<in> set (list[i := (h, ps)])" using assms(2) by (rule set_update_memI)
    then show ?thesis using True d keys by simp
  next
    case False
    show ?thesis
    proof (cases "map_of list k")
      case None
      then have "k \<notin> set (map fst list)" by (simp add: map_of_eq_None_iff)
      then have "map_of (list[i := (h, ps)]) k = None" using keys by (metis list.set_map map_of_eq_None_iff)
      then show ?thesis using None False by simp
    next
      case (Some qs)
      then obtain j where j: "j < length list" "list ! j = (k, qs)" using map_of_SomeD in_set_conv_nth by metis
      then have "j \<noteq> i" using assms(3) False by auto
      then have "list[i := (h, ps)] ! j = (k, qs)" using j by simp
      then have "(k, qs) \<in> set (list[i := (h, ps)])" using j(1) by (metis length_list_update nth_mem)
      then have "map_of (list[i := (h, ps)]) k = Some qs" using d keys by simp
      then show ?thesis using Some False by simp
    qed
  qed
  then have "map_of (list[i := (h, ps)]) = (map_of list)(h \<mapsto> ps)" by auto
  then show ?thesis using ok by (auto simp: peers_of_def fun_eq_iff)
qed

text \<open>
  The lists of peers refine a function from hashes to sets of peers: membership and number are those of the set of the hash, adding returns the
  new number and inserts into that set only, removing tells whether the peer was there and removes it from that set only, and both keep
  the invariant of the list.
\<close>

theorem peer_lists_refine_sets:
  assumes "peer_list_ok list"
  shows "(BRTxPeerListHasPeer list h p \<longleftrightarrow> p \<in> peers_of list h) \<and> BRTxPeerListCount list h = card (peers_of list h) \<and>
    (\<exists>list'. BRTxPeerListAddPeer list h p = (list', card (insert p (peers_of list h))) \<and> peer_list_ok list' \<and>
       peers_of list' = (peers_of list)(h := insert p (peers_of list h))) \<and>
    (\<exists>list'. BRTxPeerListRemovePeer list h p = (list', p \<in> peers_of list h) \<and> peer_list_ok list' \<and>
       peers_of list' = (peers_of list)(h := peers_of list h - {p}))"
  using assms
proof (cases rule: entry_cases [of list h])
  case 1
  have "peer_list_ok (list @ [(h, [p])])" using assms 1(3) by (auto simp: peer_list_ok_def)
  moreover have "peers_of (list @ [(h, [p])]) = (peers_of list)(h := {p})"
    using 1(2) by (auto simp: peers_of_def fun_eq_iff map_add_def split: option.split)
  moreover have "peers_of list h = {}" using 1(2) by (simp add: peers_of_def)
  moreover have "(peers_of list)(h := {}) = peers_of list" using calculation(3) by (simp add: fun_upd_idem)
  ultimately show ?thesis
    using 1(1) assms by (simp add: BRTxPeerListHasPeer_def BRTxPeerListCount_def BRTxPeerListAddPeer_def BRTxPeerListRemovePeer_def)
next
  case (2 i)
  let ?ps = "snd (list ! i)"
  have set: "peers_of list h = set ?ps" using 2(4) by (simp add: peers_of_def)
  have n: "length ?ps = card (set ?ps)" using 2(5) by (simp add: distinct_card)
  have same: "(peers_of list)(h := set ?ps) = peers_of list" using set by (simp add: fun_upd_idem)
  note e = 2(1)
  have add: "\<exists>list'. BRTxPeerListAddPeer list h p = (list', card (insert p (set ?ps))) \<and> peer_list_ok list' \<and>
       peers_of list' = (peers_of list)(h := insert p (set ?ps))"
  proof (cases "p \<in> set ?ps")
    case True
    then have "BRTxPeerListAddPeer list h p = (list, card (insert p (set ?ps)))"
      using e n peer_index_in [of ?ps p] by (simp add: BRTxPeerListAddPeer_def Let_def insert_absorb)
    then show ?thesis using True assms same by (simp add: insert_absorb)
  next
    case False
    then have "BRTxPeerListAddPeer list h p = (list[i := (h, ?ps @ [p])], card (insert p (set ?ps)))"
      using e n 2(3) peer_index_in [of ?ps p] by (simp add: BRTxPeerListAddPeer_def Let_def)
    then show ?thesis using update_entry [OF assms 2(2,3), of "?ps @ [p]"] 2(5) False by simp
  qed
  have remove: "\<exists>list'. BRTxPeerListRemovePeer list h p = (list', p \<in> set ?ps) \<and> peer_list_ok list' \<and>
       peers_of list' = (peers_of list)(h := set ?ps - {p})"
  proof (cases "peer_index ?ps p (length ?ps)")
    case None
    then have "p \<notin> set ?ps" using peer_index_in [of ?ps p] by simp
    then show ?thesis using None e assms same by (simp add: BRTxPeerListRemovePeer_def Let_def)
  next
    case (Some j)
    then have j: "j < length ?ps" "?ps ! j = p" by (auto dest: peer_index_Some)
    have split: "?ps = take j ?ps @ p # drop (j + 1) ?ps" using j id_take_nth_drop [of j ?ps] by simp
    then have d: "distinct (take j ?ps @ p # drop (j + 1) ?ps)" using 2(5) by metis
    have s: "set ?ps = insert p (set (take j ?ps @ drop (j + 1) ?ps))" using arg_cong [OF split, of set] by simp
    have "set (take j ?ps @ drop (j + 1) ?ps) = set ?ps - {p}" using d unfolding s by auto
    moreover have "p \<in> set ?ps" using j by auto
    moreover have "BRTxPeerListRemovePeer list h p = (list[i := (h, take j ?ps @ drop (j + 1) ?ps)], True)"
      using e 2(3) Some by (simp add: BRTxPeerListRemovePeer_def Let_def)
    ultimately show ?thesis using update_entry [OF assms 2(2,3), of "take j ?ps @ drop (j + 1) ?ps"] d by simp
  qed
  have "BRTxPeerListHasPeer list h p \<longleftrightarrow> p \<in> set ?ps" using e peer_index_in [of ?ps p] by (simp add: BRTxPeerListHasPeer_def)
  moreover have "BRTxPeerListCount list h = card (set ?ps)" using e n by (simp add: BRTxPeerListCount_def)
  ultimately show ?thesis using add remove unfolding set by blast
qed

lemma peer_lists_refine_sets_witness:
  "BRTxPeerListAddPeer [(5, [\<lparr>peer_address = 1, peer_port = 8333\<rparr>])] 5 \<lparr>peer_address = 2, peer_port = 8333\<rparr> =
     ([(5, [\<lparr>peer_address = 1, peer_port = 8333\<rparr>, \<lparr>peer_address = 2, peer_port = 8333\<rparr>])], 2) \<and>
   peers_of (fst (BRTxPeerListAddPeer [(5, [\<lparr>peer_address = 1, peer_port = 8333\<rparr>])] 5 \<lparr>peer_address = 2, peer_port = 8333\<rparr>)) 5 =
     {\<lparr>peer_address = 1, peer_port = 8333\<rparr>, \<lparr>peer_address = 2, peer_port = 8333\<rparr>}"
proof -
  let ?p = "\<lparr>peer_address = 1, peer_port = 8333\<rparr>" and ?q = "\<lparr>peer_address = 2, peer_port = 8333\<rparr>"
  have "peer_list_ok [(5, [?p])]" by (simp add: peer_list_ok_def)
  from peer_lists_refine_sets [OF this, of 5 ?q]
  have "peers_of (fst (BRTxPeerListAddPeer [(5, [?p])] 5 ?q)) 5 = insert ?q (peers_of [(5, [?p])] 5)" by auto
  moreover have "peers_of [(5, [?p])] 5 = {?p}" by (simp add: peers_of_def)
  ultimately show ?thesis
    by (auto simp: BRTxPeerListAddPeer_def BRPeerEq_def)
qed

end
