(* ===== verification/ChainTheorems.thy ===== *)
theory ChainTheorems
  imports ChainReorg ChainLocators ChainStart PeerLists WalletRemoval
begin

text \<open>
  The properties of the chain of blocks, with a small chain on which they are applied: a first block, two forks at height 1 and the block of a
  checkpoint at height 2016, ahead of the chain.
\<close>

section \<open>A sample chain\<close>

definition sample_ht :: "UInt256 \<Rightarrow> nat" where
  "sample_ht h = (if h = 1 then 0 else if h = 4 \<or> h = 6 then 2 else if h = 7 then 2016 else if h = 8 then 2017 else 1)"

definition sample_block :: "UInt256 \<Rightarrow> UInt256 \<Rightarrow> u32 \<Rightarrow> mblock" where
  "sample_block h prev n = \<lparr>blockHash = h, version = 1, prevBlock = prev, merkleRoot = 5, timestamp = 0, target = 0, nonce = 0, totalTx = 1,
     hashes = Some [5], hashesCount = 1, mflags = Some [1], flagsLen = 1, height = n\<rparr>"

definition sample_chain :: manager where
  "sample_chain = \<lparr>m_heap = [0 \<mapsto> sample_block 1 0 0, 1 \<mapsto> sample_block 2 1 1, 2 \<mapsto> sample_block 3 1 1, 3 \<mapsto> sample_block 4 3 2,
       4 \<mapsto> sample_block 6 2 BLOCK_UNKNOWN_HEIGHT, 5 \<mapsto> sample_block 7 0 2016, 6 \<mapsto> sample_block 8 7 BLOCK_UNKNOWN_HEIGHT],
     m_blocks = [1 \<mapsto> 0, 2 \<mapsto> 1, 3 \<mapsto> 2, 7 \<mapsto> 5], m_orphans = Map.empty, m_checkpoints = [2016 \<mapsto> 5], m_lastBlock = 1,
     m_lastOrphan = None, m_wallet = sample_funds, m_earliestKeyTime = 0, m_syncStartHeight = 0, m_estimatedHeight = 2,
     m_hasFilter = True, m_connectFailureCount = 0, m_misbehavinCount = 0, m_isConnected = True, m_peers = [], m_downloadPeer = None\<rparr>"

definition sample_params :: BRChainParams where
  "sample_params = \<lparr>checkpoints = [\<lparr>cp_height = 0, cp_hash = 1, cp_timestamp = 0, cp_target = 0\<rparr>,
       \<lparr>cp_height = 2016, cp_hash = 7, cp_timestamp = 0, cp_target = 0\<rparr>],
     verifyDifficulty = BRTestNetVerifyDifficulty\<rparr>"

definition sample_conn :: connection where
  "sample_conn = \<lparr>conn_id = 1, conn_peer = \<lparr>peer_address = 1, peer_port = 8333\<rparr>, conn_lastBlock = 1, conn_connected = True\<rparr>"

lemma sample_block_sel [simp]:
  "blockHash (sample_block h q n) = h" "prevBlock (sample_block h q n) = q" "height (sample_block h q n) = n"
  "timestamp (sample_block h q n) = 0" "totalTx (sample_block h q n) = 1"
  "(sample_block h q n)\<lparr>height := k\<rparr> = sample_block h q k"
  by (simp_all add: sample_block_def)

lemma sample_txs [simp]: "block_txs (sample_block h q n) = Some [5]"
proof -
  let ?b = "sample_block h q n"
  have "tree_depth ?b = Some 0" by (rule tree_depth_spec [of _ 1]) simp_all
  then have d: "with_depth ?b f = f 0" for f :: "nat \<Rightarrow> (UInt256 list \<times> nat \<times> nat) option" by (simp add: with_depth_def)
  have f: "Merkle.more ?b 0 0" "flag_at ?b 0 = Some True" "hash_at ?b 0 = Some 5"
    by (simp_all add: sample_block_def Merkle.more_def flag_at_def hash_at_def)
  have "TxHashesR ?b None 0 [] 0 0 = Some ([0], 1, 1)" "TxHashesR ?b (Some 1) 0 [] 0 0 = Some ([5], 1, 1)"
    by (subst TxHashesR.simps, simp add: f take_leaf_def SIZE_MAX_def)+
  then show ?thesis by (simp add: block_txs_def BRMerkleBlockTxHashes_def d)
qed

lemma sample_fields [simp]:
  "m_lastBlock sample_chain = 1" "m_wallet sample_chain = sample_funds" "m_hasFilter sample_chain" "m_orphans sample_chain = Map.empty"
  "m_earliestKeyTime sample_chain = 0"
  by (simp_all add: sample_chain_def)

lemma sample_heap:
  "m_heap sample_chain = [0 \<mapsto> sample_block 1 0 0, 1 \<mapsto> sample_block 2 1 1, 2 \<mapsto> sample_block 3 1 1, 3 \<mapsto> sample_block 4 3 2,
       4 \<mapsto> sample_block 6 2 BLOCK_UNKNOWN_HEIGHT, 5 \<mapsto> sample_block 7 0 2016, 6 \<mapsto> sample_block 8 7 BLOCK_UNKNOWN_HEIGHT]"
  "m_blocks sample_chain = [1 \<mapsto> 0, 2 \<mapsto> 1, 3 \<mapsto> 2, 7 \<mapsto> 5]"
  by (simp_all add: sample_chain_def)

lemma sample_ok: "manager_ok sample_ht sample_env unat sample_chain"
proof -
  have "links_ok sample_ht sample_chain" by (auto simp: links_ok_def sample_heap block_fits_def sample_ht_def)
  moreover have "orphans_ok sample_ht sample_chain" by (simp add: orphans_ok_def)
  moreover have "ahead_ok sample_ht sample_chain 1" by (auto simp: ahead_ok_def sample_heap sample_ht_def)
  moreover have "m_heap sample_chain 1 = Some (sample_block 2 1 1)" "m_blocks sample_chain 2 = Some 1" "sample_ht 2 = 1"
    by (simp_all add: sample_heap sample_ht_def)
  ultimately show ?thesis using sample_funds_ok by (simp add: manager_ok_def chain_ok_def)
qed

lemma sample_new:
  "new_block sample_ht sample_chain 3 (sample_block 4 3 2)" "new_block sample_ht sample_chain 4 (sample_block 6 2 BLOCK_UNKNOWN_HEIGHT)"
  "new_block sample_ht sample_chain 6 (sample_block 8 7 BLOCK_UNKNOWN_HEIGHT)"
  by (auto simp: new_block_def sample_heap block_fits_def sample_ht_def)


section \<open>The start\<close>

text \<open>
  C9: \<open>BRPeerManagerNew\<close> returns, and the manager it makes of the checkpoints of the chain and the saved blocks is well-formed: it satisfies the
  invariant that relayed blocks keep. The checkpoints have to be at difficulty transitions, as the comment in BRChainParams.h asks, and the saved
  blocks have to have their heights.
\<close>

theorem new_manager_sound:
  assumes "checkpoints params \<noteq> []" "checkpoints_ok ht (checkpoints params)" "saved_ok ht heap n blocks" "wallet_ok e r w"
  shows "\<exists>m. BRPeerManagerNew params w key heap n blocks peers = Some m \<and> links_ok ht m \<and> orphans_ok ht m \<and> m_wallet m = w \<and>
    (\<exists>l. m_heap m (m_lastBlock m) = Some l \<and> m_blocks m (blockHash l) = Some (m_lastBlock m) \<and> ahead_ok ht m (ht (blockHash l)))"
  using new_sound [OF assms, of key peers] by (auto simp: manager_ok_def chain_ok_def)

definition reverse_ht :: "UInt256 \<Rightarrow> nat" where
  "reverse_ht h = (if UInt256Reverse h = 7 then 2016 else if UInt256Reverse h = 1 then 0 else 2017)"

lemma new_manager_sound_witness:
  "\<exists>m. BRPeerManagerNew sample_params sample_funds 0 [0 \<mapsto> sample_block (UInt256Reverse 7) 0 2016, 1 \<mapsto> sample_block (UInt256Reverse 8) (UInt256Reverse 7) 2017]
     2 [1, 0] [] = Some m \<and> orphans_ok reverse_ht m"
proof -
  have r: "UInt256Reverse x \<noteq> 0" if "x \<noteq> 0" for x
  proof
    have zero: "UInt256Reverse 0 = 0" by code_simp
    assume "UInt256Reverse x = 0"
    then have "UInt256Reverse (UInt256Reverse x) = 0" using zero by simp
    then show False using that by (simp add: UInt256Reverse_involution)
  qed
  have "checkpoints_ok reverse_ht (checkpoints sample_params)"
    by (simp add: checkpoints_ok_def sample_params_def reverse_ht_def UInt256Reverse_involution r)
  moreover have "saved_ok reverse_ht [0 \<mapsto> sample_block (UInt256Reverse 7) 0 2016, 1 \<mapsto> sample_block (UInt256Reverse 8) (UInt256Reverse 7) 2017] 2 [1, 0]"
    by (simp add: saved_ok_def block_fits_def reverse_ht_def UInt256Reverse_involution r)
  ultimately show ?thesis
    using new_manager_sound [OF _ _ _ sample_funds_ok, of sample_params reverse_ht] by (fastforce simp: sample_params_def)
qed

section \<open>The invariant\<close>

text \<open>
  C8: a block that a peer relays, and the orphans that it connects, keep the state sound: every block of the set is stored under its hash and
  has the height of its place in the chain, orphans wait under the hash of their predecessor and are in no other set, the last block is stored
  and in the set, no block but those of checkpoints is above it, and the invariant of the wallet holds. The chain never gets shorter. The heights
  come from a function \<open>ht\<close> of the hash, which stands for the commitment of a block to its predecessors; the block itself is a new object.
\<close>

theorem relayed_blocks_keep_chain:
  assumes "peerRelayedBlock params now peer fpHigh fpDegraded p m = Some (m', ns)" "manager_ok ht e r m" "new_block ht m p b"
  shows "links_ok ht m' \<and> orphans_ok ht m' \<and> wallet_ok e r (m_wallet m') \<and>
    (\<exists>l. m_heap m' (m_lastBlock m') = Some l \<and> m_blocks m' (blockHash l) = Some (m_lastBlock m') \<and>
       ahead_ok ht m' (ht (blockHash l)) \<and> tip_ht ht m \<le> ht (blockHash l))"
  using relayed_keeps [OF assms] by (auto simp: manager_ok_def chain_ok_def tip_ht_def)

lemma sample_heights: "sample_ht 1 = 0" "sample_ht 2 = 1" "sample_ht 3 = 1" "sample_ht 4 = 2" "sample_ht 6 = 2" "sample_ht 7 = 2016" "sample_ht 8 = 2017"
  by (simp_all add: sample_ht_def)

lemma sample_get [simp]:
  "get_block sample_chain 1 = Some (Some (sample_block 1 0 0))" "get_block sample_chain 2 = Some (Some (sample_block 2 1 1))"
  "get_block sample_chain 3 = Some (Some (sample_block 3 1 1))" "get_block sample_chain 7 = Some (Some (sample_block 7 0 2016))"
  "get_block sample_chain 0 = Some None"
  by (simp_all add: get_block_def get_ptr_def sample_heap)

text \<open>Away from difficulty transitions and checkpoints the test network accepts every block that follows a block of the set.\<close>

lemma sample_verify:
  assumes "height b mod 2016 \<noteq> 0" "prevBlock b = blockHash q" "height b = height q + 1" "m_checkpoints m (height b) = None"
  shows "BRPeerManagerVerifyBlock sample_params b (Some q) m = Some (m, True)"
  using assms by (simp add: BRPeerManagerVerifyBlock_def Let_def sample_params_def BRTestNetVerifyDifficulty_def BLOCK_DIFFICULTY_INTERVAL_def)

lemma sample_checkpoint [simp]: "m_checkpoints sample_chain = [2016 \<mapsto> 5]"
  by (simp add: sample_chain_def)

section \<open>Extending the chain\<close>

text \<open>
  C11: a block that follows the tip of the chain and passes verification is accepted: the call returns, the block is the tip of the chain, at the next
  height, the transactions of the wallet that the block contains get its height and no other transaction changes its height. When blocks are
  given to the application to be saved, they are a piece of the chain from the new tip down to a difficulty transition.
\<close>

theorem block_extends_chain:
  assumes "manager_ok ht e r m" "new_block ht m p b0" "m_heap m (m_lastBlock m) = Some l" "prevBlock b0 = blockHash l"
    "block_txs b0 = Some hs" "m_hasFilter m" "totalTx b0 \<noteq> 0 \<or> timestamp b0 + PROTOCOL_BLOCK_WEEK \<le> m_earliestKeyTime m + 2 * 60 * 60"
    "b = b0\<lparr>height := height l + 1\<rparr>" "BRPeerManagerVerifyBlock params b (Some l) (m\<lparr>m_heap := (m_heap m)(p \<mapsto> b)\<rparr>) = Some (m1, True)"
    "m_orphans m (blockHash b0) = None"
  shows "\<exists>m' ns. peerRelayedBlock params now peer fpHigh fpDegraded p m = Some (m', ns) \<and> manager_ok ht e r m' \<and>
    m_lastBlock m' = p \<and> m_heap m' p = Some b \<and> m_blocks m' (blockHash b) = Some p \<and>
    (\<forall>x \<in> set (transactions (m_wallet m)). height_of (m_wallet m') x = (if x \<in> set hs then height b else height_of (m_wallet m) x)) \<and>
    (\<forall>rep ps. SaveBlocks rep ps \<in> set ns \<longrightarrow> (\<exists>bs. ps = map fst bs \<and> bs \<noteq> [] \<and> hd bs = (p, b) \<and> chain_piece ht m' bs \<and>
       ht (blockHash (snd (last bs))) mod 2016 = 0))"
  by (rule extends_chain [OF assms])

lemma sample_last: "m_heap sample_chain (m_lastBlock sample_chain) = Some (sample_block 2 1 1)"
  by (simp add: sample_heap)

lemma sample_income_height: "height_of sample_funds 5 = 100" "transactions sample_funds = [5]"
  by (simp_all add: height_of_def sample_funds_def sample_income_def)

lemma block_extends_chain_witness:
  "\<exists>m' ns. peerRelayedBlock sample_params 0 sample_conn (\<lambda>_. False) (\<lambda>_. False) 4 sample_chain = Some (m', ns) \<and> m_lastBlock m' = 4 \<and>
     height_of (m_wallet m') 5 = 2"
proof -
  let ?b = "sample_block 6 2 2"
  have "BRPeerManagerVerifyBlock sample_params ?b (Some (sample_block 2 1 1)) (sample_chain\<lparr>m_heap := (m_heap sample_chain)(4 \<mapsto> ?b)\<rparr>) =
      Some (sample_chain\<lparr>m_heap := (m_heap sample_chain)(4 \<mapsto> ?b)\<rparr>, True)"
    by (rule sample_verify) simp_all
  from block_extends_chain [OF sample_ok sample_new(2) sample_last _ sample_txs _ _ _ this, of 0 sample_conn "\<lambda>_. False" "\<lambda>_. False"]
  show ?thesis by (auto simp: sample_income_height)
qed

text \<open>The witness of the invariant is the same step.\<close>

lemma sample_step:
  "\<exists>m' ns. peerRelayedBlock sample_params 0 sample_conn (\<lambda>_. False) (\<lambda>_. False) 4 sample_chain = Some (m', ns)"
proof -
  let ?b = "sample_block 6 2 2"
  have "BRPeerManagerVerifyBlock sample_params ?b (Some (sample_block 2 1 1)) (sample_chain\<lparr>m_heap := (m_heap sample_chain)(4 \<mapsto> ?b)\<rparr>) =
      Some (sample_chain\<lparr>m_heap := (m_heap sample_chain)(4 \<mapsto> ?b)\<rparr>, True)"
    by (rule sample_verify) simp_all
  from extends_chain [OF sample_ok sample_new(2) sample_last _ sample_txs _ _ _ this, of 0 sample_conn "\<lambda>_. False" "\<lambda>_. False"]
  show ?thesis by auto
qed

lemma relayed_blocks_keep_chain_witness:
  "\<exists>m' ns. peerRelayedBlock sample_params 0 sample_conn (\<lambda>_. False) (\<lambda>_. False) 4 sample_chain = Some (m', ns) \<and> links_ok sample_ht m' \<and>
     wallet_ok sample_env unat (m_wallet m')"
proof -
  obtain m' ns where s: "peerRelayedBlock sample_params 0 sample_conn (\<lambda>_. False) (\<lambda>_. False) 4 sample_chain = Some (m', ns)"
    using sample_step by blast
  from relayed_blocks_keep_chain [OF s sample_ok sample_new(2)] s show ?thesis by blast
qed

section \<open>Reorganisation\<close>

text \<open>
  C10: when a new block makes a fork higher than the chain, and both lead down to a common block, the chain is reorganised: the call returns, the
  block is the tip of the chain, and the heights of the wallet's transactions are those of the new chain: transactions above the common block become
  unconfirmed, and then those that a block of the new chain contains get the height of that block.
\<close>

theorem fork_reorganises:
  assumes "manager_ok ht e r m" "new_block ht m p b" "at_height ht b" "m_blocks m (blockHash b) = None"
    "get_block m (prevBlock b) = Some (Some q)" "path m q bs j" "m_heap m (m_lastBlock m) = Some l" "path m l cs j"
    "blockHash ` set bs \<inter> blockHash ` set cs = {}" "ht (blockHash l) < ht (blockHash b)" "\<forall>c \<in> set (b # bs). block_txs c \<noteq> None"
  shows "\<exists>m' ns sc. relay_fork now p b m = Some (m', ns, True, sc) \<and> manager_ok ht e r m' \<and> m_lastBlock m' = p \<and>
    m_heap m' = m_heap m \<and> m_blocks m' = (m_blocks m)(blockHash b \<mapsto> p) \<and> m_orphans m' = m_orphans m \<and>
    (\<forall>x \<in> set (transactions (m_wallet m)). height_of (m_wallet m') x =
      branch_height (b # bs) x (if height_of (m_wallet m) x > height j then TX_UNCONFIRMED else height_of (m_wallet m) x))"
  by (rule reorganised [OF assms])

lemma fork_reorganises_witness:
  "\<exists>m' ns sc. relay_fork 0 3 (sample_block 4 3 2) sample_chain = Some (m', ns, True, sc) \<and> m_lastBlock m' = 3 \<and>
     height_of (m_wallet m') 5 = 1"
proof -
  let ?b = "sample_block 4 3 2"
  have at: "at_height sample_ht ?b" by (simp add: block_fits_def sample_heights)
  have "m_blocks sample_chain (blockHash ?b) = None" "get_block sample_chain (prevBlock ?b) = Some (Some (sample_block 3 1 1))"
    "path sample_chain (sample_block 3 1 1) [sample_block 3 1 1] (sample_block 1 0 0)"
    "path sample_chain (sample_block 2 1 1) [sample_block 2 1 1] (sample_block 1 0 0)"
    "blockHash ` set [sample_block 3 1 1] \<inter> blockHash ` set [sample_block 2 1 1] = {}"
    "sample_ht (blockHash (sample_block 2 1 1)) < sample_ht (blockHash ?b)"
    "\<forall>c \<in> set [?b, sample_block 3 1 1]. block_txs c \<noteq> None"
    by (simp_all add: sample_heap sample_heights)
  from fork_reorganises [OF sample_ok sample_new(1) at this(1-3) sample_last this(4-7), of 0]
  show ?thesis by (auto simp: sample_income_height branch_height_def)
qed

section \<open>Locators\<close>

lemma block_locators_witness:
  "\<exists>hs. BRPeerManagerBlockLocators sample_params sample_chain (Some (length hs + 1)) = Some (length hs + 1, hs @ [UInt256Reverse 1]) \<and>
     hd hs = 2"
proof -
  have "checkpoints sample_params = \<lparr>cp_height = 0, cp_hash = 1, cp_timestamp = 0, cp_target = 0\<rparr> # tl (checkpoints sample_params)"
    by (simp add: sample_params_def)
  moreover have "chain_ok sample_ht sample_chain" using sample_ok by (simp add: manager_ok_def)
  moreover have "0 < sample_ht (blockHash (sample_block 2 1 1))" by (simp add: sample_heights)
  ultimately show ?thesis using block_locators [OF _ _ sample_last, of sample_ht sample_params] by fastforce
qed

section \<open>Faults\<close>

text \<open>The part of a call before the branch is taken.\<close>

lemma branch_fault:
  assumes "m_heap m p = Some b0" "block_txs b0 = Some hs" "get_block m (prevBlock b0) = Some (Some q)" "b = b0\<lparr>height := height q + 1\<rparr>"
    "relay_branch params now peer p b (Some q) hs (tx_time (Some q) b) (m\<lparr>m_heap := (m_heap m)(p \<mapsto> b)\<rparr>) = None"
  shows "peerRelayedBlock params now peer fpHigh fpDegraded p m = None"
proof -
  have "with_height (Some q) b0 = b" by (simp add: with_height_def assms(4))
  then have "relay_pass params now peer fpHigh fpDegraded p m = None"
    unfolding relay_pass_def by (simp add: assms(1-3,5) Let_def bind_eq_None_conv)
  then show ?thesis by (subst peerRelayedBlock.simps) simp
qed

text \<open>A fork on the block of a checkpoint that is ahead of the chain: the search for the join ends without a block.\<close>

lemma relay_fork_fault:
  assumes "links_ok ht m" "new_block ht m p b" "get_block m (prevBlock b) = Some (Some q)" "prevBlock q = 0"
    "m_heap m (m_lastBlock m) = Some l" "height l < height q" "height l < height b" "blockHash l \<noteq> blockHash b" "blockHash l \<noteq> blockHash q"
  shows "relay_fork now p b m = None"
proof -
  let ?m = "add_block p b m"
  have b: "blockHash b \<noteq> 0" "m_heap m p = Some b" using assms(2) by (auto simp: new_block_def block_fits_def)
  obtain p' where p': "m_blocks m (prevBlock b) = Some p'" "m_heap m p' = Some q" using assms(3) get_block_links(3) [OF assms(1)] by blast
  have "prevBlock b \<noteq> blockHash b"
  proof
    assume e: "prevBlock b = blockHash b"
    then have "ht (blockHash b) = ht (blockHash b) + 1" using assms(2) b(1) by (simp add: new_block_def block_fits_def)
    then show False by simp
  qed
  then have q: "get_block ?m (prevBlock b) = Some (Some q)" using p' by (simp add: get_block_def get_ptr_def add_block_def)
  have "get_block ?m 0 = Some None" using assms(1) b(1) by (simp add: get_block_def get_ptr_def add_block_def links_ok_def)
  then have "find_join ?m (Some q) (Some l) = find_join ?m None (Some l)"
    using assms(4,9) by (subst find_join.simps) (simp add: BRMerkleBlockEq_def)
  also have "\<dots> = Some (None, Some l)" by (subst find_join.simps) simp
  finally have "find_join ?m (Some b) (Some l) = Some (None, Some l)"
    using q assms(8) less_not_sym [OF assms(6)] by (subst find_join.simps) (simp add: BRMerkleBlockEq_def)
  moreover have "m_heap ?m (m_lastBlock ?m) = Some l" using assms(5) by (simp add: add_block_def)
  ultimately show ?thesis using assms(7) by (simp add: relay_fork_def Let_def add_block_def)
qed

text \<open>
  C40: the reorganisation dereferences a null pointer for the successor of the last checkpoint, when the chain has not reached that checkpoint yet. The
  checkpoints are put into the set of blocks without a predecessor, so the search for the block where the fork joins the chain ends
  with none, and its height is read. A peer that claims no more blocks than the wallet has can send such a block at any time: it is a
  valid block, and no other branch is taken before.
\<close>

theorem checkpoint_child_faults:
  assumes "manager_ok ht e r m" "new_block ht m p b0" "get_block m (prevBlock b0) = Some (Some q)" "prevBlock q = 0"
    "m_heap m (m_lastBlock m) = Some l" "ht (blockHash l) < ht (blockHash q)" "m_blocks m (blockHash b0) = None"
    "block_txs b0 = Some hs" "m_hasFilter m" "totalTx b0 \<noteq> 0 \<or> timestamp b0 + PROTOCOL_BLOCK_WEEK \<le> m_earliestKeyTime m + 2 * 60 * 60"
    "b = b0\<lparr>height := height q + 1\<rparr>" "BRPeerManagerVerifyBlock params b (Some q) (m\<lparr>m_heap := (m_heap m)(p \<mapsto> b)\<rparr>) = Some (m1, True)"
    "conn_lastBlock peer \<le> height l" "checkpoints params \<noteq> []" "cp_height (last (checkpoints params)) < height b"
  shows "peerRelayedBlock params now peer fpHigh fpDegraded p m = None"
proof -
  have c: "chain_ok ht m" and w: "wallet_ok e r (m_wallet m)" using assms(1) by (auto simp: manager_ok_def)
  have links: "links_ok ht m" and tip: "m_blocks m (blockHash l) = Some (m_lastBlock m)" using c assms(5) by (auto simp: chain_ok_def)
  have b0: "m_heap m p = Some b0" "block_fits ht b0" "p \<notin> ran (m_blocks m)" "p \<notin> ran (m_orphans m)"
    using assms(2) by (auto simp: new_block_def)
  note atq = get_block_at_height [OF links assms(3)] and atl = chain_fits [OF links tip assms(5)]
  define m0 where "m0 = m\<lparr>m_heap := (m_heap m)(p \<mapsto> b)\<rparr>"
  have b: "blockHash b = blockHash b0" "prevBlock b = prevBlock b0" "totalTx b = totalTx b0" "timestamp b = timestamp b0" by (simp_all add: assms(11))
  have fits: "block_fits ht b" using b0(2) by (simp add: block_fits_def b)
  have ok0: "manager_ok ht e r m0" using update_heap_chain [OF c b0(3,4), of "Some b"] w by (simp add: manager_ok_def m0_def)
  have new0: "new_block ht m0 p b" using assms(2) fits by (simp add: new_block_def m0_def)
  have l0: "m_heap m0 (m_lastBlock m0) = Some l" using assms(5) new_block_last [OF c assms(2)] by (simp add: m0_def)
  have prev0: "get_block m0 (prevBlock b) = Some (Some q)"
    using assms(3) b0(3) unfolding b get_block_def get_ptr_def m0_def by (auto simp: ran_def split: option.splits)
  have h: "height b = of_nat (ht (blockHash b))" using next_height(2) [OF links assms(3) b0(2)] by (simp add: assms(11))
  have hb: "ht (blockHash b) = ht (blockHash q) + 1" using next_height(1) [OF links assms(3) b0(2)] atq by (simp add: b)
  have higher: "height l < height q" "height l < height b"
    using height_less(1) [of ht q l] height_less(1) [of ht b l] atq atl fits h assms(6) hb by auto
  note v = assms(12) [folded m0_def]
  have m1: "manager_ok ht e r m1" "new_block ht m1 p b" "get_block m1 (prevBlock b) = Some (Some q)"
    using VerifyBlock_ok [OF ok0 new0 prev0 h v] by auto
  have f1: "m_heap m1 (m_lastBlock m1) = Some l" using VerifyBlock_frame [OF ok0 new0 prev0 h v] l0 by simp
  obtain B where "m1 = without B m0"
    using VerifyBlock_prunes [OF _ fits prev0 h v] ok0 by (auto simp: manager_ok_def)
  then have new1: "m_blocks m1 (blockHash b) = None" using assms(7) by (simp add: without_blocks m0_def b)
  have links1: "links_ok ht m1" using m1(1) by (simp add: manager_ok_def chain_ok_def)
  have ne: "blockHash l \<noteq> blockHash b" "blockHash l \<noteq> blockHash q" using assms(6) hb by auto
  have fork: "relay_fork now p b m1 = None"
    by (rule relay_fork_fault [OF links1 m1(2,3) assms(4) f1 higher ne])
  have "relay_branch params now peer p b (Some q) hs (tx_time (Some q) b) m0 = None"
  proof -
    have key: "m_earliestKeyTime m0 = m_earliestKeyTime m" by (simp add: m0_def)
    have recent: "\<not> (totalTx b = 0 \<and> timestamp b + PROTOCOL_BLOCK_WEEK > m_earliestKeyTime m0 + 2 * 60 * 60)"
      unfolding b(3,4) key using assms(10) by (simp only: not_less de_Morgan_conj)
    have "\<not> UInt256Eq (prevBlock b) (blockHash l)" using ne(2) atq b(2) by auto
    moreover have "m_hasFilter m0" using assms(9) by (simp add: m0_def)
    moreover have "\<not> height l < conn_lastBlock peer" "\<not> height b \<le> cp_height (last (checkpoints params))" using assms(13,15) by auto
    ultimately show ?thesis unfolding relay_branch_def if_not_P [OF recent] by (simp add: v f1 new1 fork assms(14))
  qed
  then show ?thesis using branch_fault [OF b0(1) assms(8,3,11)] by (simp add: m0_def)
qed

lemma checkpoint_child_faults_witness:
  "peerRelayedBlock sample_params 0 sample_conn (\<lambda>_. False) (\<lambda>_. False) 6 sample_chain = None"
proof -
  let ?b = "sample_block 8 7 2017"
  have v: "BRPeerManagerVerifyBlock sample_params ?b (Some (sample_block 7 0 2016)) (sample_chain\<lparr>m_heap := (m_heap sample_chain)(6 \<mapsto> ?b)\<rparr>) =
      Some (sample_chain\<lparr>m_heap := (m_heap sample_chain)(6 \<mapsto> ?b)\<rparr>, True)"
    by (rule sample_verify) simp_all
  show ?thesis
    by (rule checkpoint_child_faults [OF sample_ok sample_new(3) _ _ sample_last _ _ sample_txs _ _ _ v])
      (simp_all add: sample_heights sample_heap sample_params_def sample_conn_def)
qed

end
