(* ===== verification/Spec2Isabelle.thy ===== *)
theory Spec2Isabelle
  imports GrowArray HashSet IntBytes Sha256 Ciphers Base58 Bech32 Address CashAddr Bloom Merkle Tx WalletKeys Mnemonic Rlp ChainTheorems
begin

text \<open>
  A verification library for the C core of the wallet under src/Modules/pluswallet-core: the data formats, the cryptographic
  primitives, keys, transactions, the wallet, the chain of blocks of a light client, and the number and RLP formats of its
  Ethereum part. File names below are relative to that directory.

  \<^bold>\<open>How the program is put together.\<close> An application holds a \<open>BRWallet\<close> (BRWallet.c) and a \<open>BRPeerManager\<close> (BRPeerManager.c). The wallet keeps
  the transactions (BRTransaction.c) that pay to or spend from its addresses, which it derives from a master public key
  (BRBIP32Sequence.c), itself derived from a seed that a mnemonic phrase encodes (BRBIP39Mnemonic.c). The peer manager sends Bloom filters
  (BRBloomFilter.c) to its peers and receives headers with partial Merkle trees (BRMerkleBlock.c); from them it builds the chain of blocks
  and tells the wallet the heights of its transactions. Addresses (BRAddress.c, BRBase58.c, BRBech32.c, bcash/BRBCashAddr.c) and keys (BRKey.c)
  are used throughout, over the hash functions and ciphers of BRCrypto.c, the integers of BRInt.h and the containers BRArray.h and
  BRSet.c.

  \<^bold>\<open>Conventions.\<close> A byte is an \<open>8 word\<close>, machine integers are words of their width, \<open>size_t\<close> is a \<open>nat\<close> where no wrap-around can be observed and
  a word where it can. A buffer is a byte list; an output buffer with its length is an option, \<open>None\<close> for the null pointer, for which the
  functions return the length they need. A C string is the list of its bytes without the final NUL. The result \<open>None\<close> of a function is a
  fault: an access outside of a buffer, a use of a null or dangling pointer, a failed assertion, or a loop that does not end; where a
  function can also report failure there is a second option or a flag inside. Memory that other parts of the state point to is an
  explicit store (\<open>allTx\<close> of the wallet, \<open>m_heap\<close> of the peer manager, the contexts of the RLP coder). Calls of the application are returned as lists of
  events or notices in their order. The compile time switch \<open>BITCOIN_TESTNET\<close> is the argument \<open>tn\<close>. Locks, logging and the clearing of secrets from
  memory are left out.

  \<^bold>\<open>Theories.\<close>

  \<^item> Prelude, Loops: machine types and memory; loops whose body may fail, with the monotonicity rules for \<open>partial_function\<close>.
  \<^item> IntBytes (BRInt.h): the unions as words with their views, byte order and hexadecimal macros. GrowArray (BRArray.h): a block of cells with
    capacity and count; the macros implement lists. HashSet (BRSet.c): the open addressing table. Its client is the locale
    \<open>item_equality\<close> (the hash respects the equality), interpreted on blocks (three times in Merkle and Chain), transactions and unspent outputs; the lemmas show that every
    item is reached from its bucket, that adding and removing refine a set modulo the equality, and that all loops end, the probe loop
    within the size of the table and the removal loop within the run of used buckets.
  \<^item> Digests, Ciphers (BRCrypto.c): hash functions down to the word operations, HMAC, DRBG, PBKDF2, Poly1305, ChaCha20, authenticated encryption,
    scrypt. Keyed primitives take the hash function as an argument, as in the code. Sha256 has the standard for SHA-256, written without
    the code, and the proof that they agree. KnownAnswers evaluates the hash of a published key in the logic, for a witness.
  \<^item> Radix, Base58, Quintets, Bech32, CashAddr: text codecs. Radix has positional numerals in general, Quintets the regrouping into 5 bit digits and
    the locale of checksum polynomials, which Bech32 and CashAddr interpret with their own step.
  \<^item> Script, Address (BRAddress.c): variable length integers, script elements, addresses of scripts and scripts of addresses.
  \<^item> Writer, Tx (BRTransaction.c): the serializers, which write field by field when the field fits; signing data with and without witness, the parser,
    signing. Lemmas describe what a sequence of guarded writes leaves in a buffer.
  \<^item> Bloom (BRBloomFilter.c), Merkle (BRMerkleBlock.c): filters; headers, traversal of partial Merkle trees, targets and difficulty.
  \<^item> Keys (BRKey.c), Bip32 (BRBIP32Sequence.c), Mnemonic (BRBIP39Mnemonic.c): keys and signatures, derivation along paths, phrases.
  \<^item> Wallet and WalletBalance, WalletChains, WalletState, WalletRemoval, WalletUnspent, WalletReach, WalletSpend, WalletKeys, WalletHeights (BRWallet.c): the definitions,
    the marks, balance, history and totals as sums over sets of outputs, the address chains, the invariant and the operations that keep it, removal,
    what is listed as unspent after any operation, the reachable wallets, building of transactions, signing with derived keys, and the heights of transactions after updates.
  \<^item> Chain, ChainStart, PeerLists (BRPeerManager.c, BRChainParams.h): the blocks that peers relay, one definition for each branch of
    \<open>_peerRelayedBlock\<close>; creation, rescans and queries; the lists of relaying peers. ChainState has the invariant and its preservation,
    ChainExtend the extension of the chain and the saved blocks, ChainReorg reorganisations, ChainLocators the locators, ChainTheorems the properties with a
    small chain on which they are applied.
  \<^item> EthMath, EthParse (ethereum/util), Rlp (ethereum/rlp): 256 bit arithmetic on 32 bit parts, numbers as text, the RLP coder with its array of
    contexts.

  \<^bold>\<open>What the properties show.\<close> For the wallet: every reachable state is sound (transactions listed once, ordered by height and owned; the balance is the worth of
  distinct own outputs that no settled transaction spends), no operation but the building of transactions faults or runs forever, marks, history
  and totals are those of an abstract book-keeping, removal is exact, and a
  transaction that is built spends own outputs, balances, and is signed completely with keys derived from the seed. For the chain of blocks: the start is
  sound, relayed blocks keep it sound, extension and reorganisation give the transactions the heights of the new chain. For
  formats: round trips of mnemonics, keys, transactions, addresses and RLP items, and acceptance of nothing but encodings for mnemonics and authenticated
  encryption. For algorithms: equivalence with the standards (SHA-256, BIP32 paths and public derivation, BIP37 trees, exact 256 bit arithmetic).
  Several properties prove faults of the code for inputs from the network or from strings; the manifest lists them as findings.

  \<^bold>\<open>Bounds and termination.\<close> Loops of the code that are bounded by a length are structural recursions. The loops of the hash set have a fuel of the size of the
  table, which is enough because one bucket is always empty; theorems state that the result is reached. The word reader of the mnemonic has 24
  words and the decimal printer 256 characters of room, which are bounds of the code itself. Recursions of the wallet (order of transactions, validity,
  removal, building) and of the chain (walks along \<open>prevBlock\<close>, orphans) are \<open>partial_function (option)\<close>; that they return is proved under a rank
  of transaction hashes, or a height of block hashes, by which an input and a predecessor are smaller: a hash cannot be known before what it
  commits to. Block heights are below \<open>2 ^ 31 - 1\<close>, the value of \<open>BLOCK_UNKNOWN_HEIGHT\<close>.

  \<^bold>\<open>Parameters.\<close> The library secp256k1 is a record of functions with its documented laws (\<open>curve_laws\<close>) as a hypothesis, instantiated by a concrete group in the
  witnesses; its context is taken to exist, and allocations to succeed. Address derivation of the wallet is a function of the environment, which WalletKeys instantiates with the derivation of Bip32. Random
  numbers, the time, the list of words and the two tests on the rate of false positives, which is a double, are arguments.

  \<^bold>\<open>Not modelled.\<close> Conversions with \<open>double\<close> (local currencies, \<open>mulUInt256_Double\<close>, sync progress); sockets, threads, timers and DNS (BRPeer.c and the rest of
  BRPeerManager.c: connecting, filter updates, publishing of transactions), whose behaviour is that of the operating system and of
  callbacks; BRBIP38Key.c, BRKeyECIES.c and BRPaymentProtocol.c; the Ethereum light client, its event queue and its transport; the Java and JNI
  bindings, the Swift application, tests, and third party code (secp256k1, unbound, nettle, sqlite3, libbz2). After a rescan, which moves the last block
  back, the invariant of the chain holds except for the blocks above the last block; ChainStart shows what is left of it.
\<close>

end
